(* ===== verification/Prelude.thy ===== *)
theory Prelude
  imports Main "HOL-Library.Word" "HOL-Library.List_Lexorder"
begin

text \<open>
  Shared vocabulary of the wsldrive development: the machine types of the C++ sources as
  fixed-width words, byte strings, the lemma collections the component theories fill, and the
  generic facts on lists, options and words that several components use.

  A \<open>std::string\<close>, \<open>std::string_view\<close> or \<open>std::span<const std::byte>\<close> is a list of bytes;
  a \<open>std::size_t\<close> that counts elements of a container in memory is a \<^typ>\<open>nat\<close>; every integer
  that is stored, hashed or sent at a fixed width is a \<open>word\<close> of that width.  A signed
  \<open>std::int64_t\<close> is its two's complement \<^typ>\<open>64 word\<close>, read with \<^const>\<open>sint\<close>.
\<close>

unbundle bit_operations_syntax

type_synonym u8 = "8 word"
type_synonym u16 = "16 word"
type_synonym u32 = "32 word"
type_synonym u64 = "64 word"
type_synonym i64 = "64 word"
type_synonym bytes = "8 word list"

text \<open>A C++ string literal (all literals of the sources modelled here are ASCII).\<close>

abbreviation lit :: "string \<Rightarrow> bytes" where
  "lit s \<equiv> map of_char s"

abbreviation slash :: u8 where "slash \<equiv> 0x2F"
abbreviation backslash :: u8 where "backslash \<equiv> 0x5C"

named_theorems roundtrip \<open>decoding after encoding, with arbitrary bytes behind\<close>
named_theorems keeps_inv \<open>operations that preserve the invariant of their component\<close>
named_theorems refines \<open>operations against their abstract specification\<close>

section \<open>Lists\<close>

text \<open>\<open>substr(pos, n)\<close> with \<open>pos\<close> in range: at most \<open>n\<close> elements from \<open>pos\<close>.\<close>

definition substr :: "'a list \<Rightarrow> nat \<Rightarrow> nat \<Rightarrow> 'a list" where
  "substr xs pos n = take n (drop pos xs)"

lemma length_substr [simp]: "length (substr xs pos n) = min n (length xs - pos)"
  by (simp add: substr_def min.commute)

lemma substr_append_left [simp]: "substr (xs @ ys) (length xs) n = take n ys"
  by (simp add: substr_def)

lemma list_all_nthI: "(\<And>i. i < length xs \<Longrightarrow> P (xs ! i)) \<Longrightarrow> list_all P xs"
  by (simp add: list_all_length)

lemma sum_list_replicate_zero [simp]: "sum_list (map (\<lambda>_. 0::nat) xs) = 0"
  by (induction xs) auto

lemma length_filter_update:
  assumes "i < length xs"
  shows "length (filter P (xs[i := x])) + (if P (xs ! i) then 1 else 0)
       = length (filter P xs) + (if P x then 1 else 0)"
  using assms
proof (induction xs arbitrary: i)
  case Nil
  then show ?case by simp
next
  case (Cons y ys)
  then show ?case by (cases i) (auto split: if_splits)
qed

lemma distinct_map_filter: "distinct (map f xs) \<Longrightarrow> distinct (map f (filter P xs))"
  by (induction xs) auto

section \<open>Words\<close>

lemma unat_word_less_2p: "unat (w :: 'a::len word) < 2 ^ LENGTH('a)"
  by (rule unsigned_less)

lemma unat_of_nat_small: "n < 2 ^ LENGTH('a) \<Longrightarrow> unat (of_nat n :: 'a::len word) = n"
  by (simp add: unat_of_nat)

lemma word_of_nat_unat [simp]: "of_nat (unat (w :: 'a::len word)) = w"
  by (simp add: of_nat_unat)

lemma unat_inj: "unat (a :: 'a::len word) = unat b \<longleftrightarrow> a = b"
  by (simp add: word_unat_eq_iff)

lemma of_nat_word_inj:
  assumes "m < 2 ^ LENGTH('a)" and "n < 2 ^ LENGTH('a)"
  shows "(of_nat m :: 'a::len word) = of_nat n \<longleftrightarrow> m = n"
  using assms by (metis unat_of_nat_small)

section \<open>Running a component against its specification\<close>

text \<open>
  A component whose operations are a step function (an answer and a new state for every operation)
  refines an abstract step function when each single step does; the locale lifts this to whole runs.
\<close>

primrec run_ops :: "('s \<Rightarrow> 'op \<Rightarrow> 'out \<times> 's) \<Rightarrow> 's \<Rightarrow> 'op list \<Rightarrow> 'out list \<times> 's" where
  "run_ops step s [] = ([], s)"
| "run_ops step s (x # xs) =
    (let (r, s') = step s x; (rs, s'') = run_ops step s' xs in (r # rs, s''))"

locale op_simulation =
  fixes inv :: "'s \<Rightarrow> bool"
    and abs :: "'s \<Rightarrow> 'a"
    and valid :: "'op \<Rightarrow> bool"
    and step :: "'s \<Rightarrow> 'op \<Rightarrow> 'out \<times> 's"
    and spec :: "'a \<Rightarrow> 'op \<Rightarrow> 'out \<times> 'a"
  assumes step_inv: "inv s \<Longrightarrow> valid x \<Longrightarrow> inv (snd (step s x))"
    and step_sim: "inv s \<Longrightarrow> valid x \<Longrightarrow> spec (abs s) x = (fst (step s x), abs (snd (step s x)))"
begin

lemma run_inv: "inv s \<Longrightarrow> list_all valid xs \<Longrightarrow> inv (snd (run_ops step s xs))"
proof (induction xs arbitrary: s)
  case (Cons x xs)
  then show ?case using step_inv [of s x] by (simp add: split_beta)
qed simp

lemma run_sim:
  "inv s \<Longrightarrow> list_all valid xs \<Longrightarrow>
    run_ops spec (abs s) xs = (fst (run_ops step s xs), abs (snd (run_ops step s xs)))"
proof (induction xs arbitrary: s)
  case (Cons x xs)
  then show ?case using step_inv [of s x] step_sim [of s x] by (simp add: split_beta)
qed simp

end

end
