(* ===== verification/Types.thy ===== *)
theory Types
  imports Prelude
begin

text \<open>
  The vocabulary types of \<open>src/core/types.hpp\<close> and \<open>src/core/error.hpp\<close>: node and name
  indices with their invalid sentinels, file attributes, the invalidation and change kinds, and
  the error codes with the \<open>Result\<close> type every fallible operation returns.
\<close>

section \<open>types.hpp\<close>

type_synonym NodeId = u32
type_synonym NameId = u32

definition kInvalidNode :: NodeId where
  "kInvalidNode = - 1"

definition kInvalidName :: NameId where
  "kInvalidName = - 1"

datatype NodeKind = File | Directory | Symlink | Other

record Attributes =
  size_of :: u64
  mtime_ns :: i64
  mode :: u32
  kind :: NodeKind

definition default_attributes :: Attributes where
  "default_attributes = \<lparr>size_of = 0, mtime_ns = 0, mode = 0, kind = File\<rparr>"

datatype InvalidationKind = Upsert | Remove | Rescan

datatype ChangeKind = Unknown | Created | Modified | Removed | MovedFrom | MovedTo

fun NodeKind_code :: "NodeKind \<Rightarrow> u8" where
  "NodeKind_code File = 0"
| "NodeKind_code Directory = 1"
| "NodeKind_code Symlink = 2"
| "NodeKind_code Other = 3"

fun InvalidationKind_code :: "InvalidationKind \<Rightarrow> u8" where
  "InvalidationKind_code Upsert = 0"
| "InvalidationKind_code Remove = 1"
| "InvalidationKind_code Rescan = 2"

fun ChangeKind_code :: "ChangeKind \<Rightarrow> u8" where
  "ChangeKind_code Unknown = 0"
| "ChangeKind_code Created = 1"
| "ChangeKind_code Modified = 2"
| "ChangeKind_code Removed = 3"
| "ChangeKind_code MovedFrom = 4"
| "ChangeKind_code MovedTo = 5"

text \<open>
  \<open>static_cast\<close> from the wire byte back to the enumeration.  The decoders cast only after they
  have checked the byte against the highest enumerator; past it these functions give the last one.
\<close>

definition NodeKind_of :: "u8 \<Rightarrow> NodeKind" where
  "NodeKind_of b = (if b = 0 then File else if b = 1 then Directory
     else if b = 2 then Symlink else Other)"

definition InvalidationKind_of :: "u8 \<Rightarrow> InvalidationKind" where
  "InvalidationKind_of b = (if b = 0 then Upsert else if b = 1 then Remove else Rescan)"

definition ChangeKind_of :: "u8 \<Rightarrow> ChangeKind" where
  "ChangeKind_of b = (if b = 0 then Unknown else if b = 1 then Created
     else if b = 2 then Modified else if b = 3 then Removed
     else if b = 4 then MovedFrom else MovedTo)"

definition kMaxChangeKind :: u8 where
  "kMaxChangeKind = ChangeKind_code MovedTo"

definition is_move :: "ChangeKind \<Rightarrow> bool" where
  "is_move c \<longleftrightarrow> c = MovedFrom \<or> c = MovedTo"

text \<open>\<open>SnapshotEntry\<close> of \<open>src/core/metadata_tree.hpp\<close>: one entry of a flattened tree snapshot.\<close>

record SnapshotEntry =
  e_parent :: u32
  e_name :: bytes
  e_attr :: Attributes

section \<open>error.hpp\<close>

datatype Errc =
    NotFound | AlreadyExists | NotADirectory | IsADirectory | InvalidArgument | InvalidPath
  | Truncated | BadMagic | UnsupportedVersion | Corrupt | IoError | TooLarge
  | ConnectionClosed | Unsupported | Timeout | ProtocolError | Unauthorized

type_synonym 'a result = "Errc + 'a"

abbreviation fail :: "Errc \<Rightarrow> 'a result" where
  "fail e \<equiv> Inl e"

abbreviation ok :: "'a \<Rightarrow> 'a result" where
  "ok x \<equiv> Inr x"

fun Errc_code :: "Errc \<Rightarrow> u32" where
  "Errc_code NotFound = 1"
| "Errc_code AlreadyExists = 2"
| "Errc_code NotADirectory = 3"
| "Errc_code IsADirectory = 4"
| "Errc_code InvalidArgument = 5"
| "Errc_code InvalidPath = 6"
| "Errc_code Truncated = 7"
| "Errc_code BadMagic = 8"
| "Errc_code UnsupportedVersion = 9"
| "Errc_code Corrupt = 10"
| "Errc_code IoError = 11"
| "Errc_code TooLarge = 12"
| "Errc_code ConnectionClosed = 13"
| "Errc_code Unsupported = 14"
| "Errc_code Timeout = 15"
| "Errc_code ProtocolError = 16"
| "Errc_code Unauthorized = 17"

definition kLastErrc :: Errc where
  "kLastErrc = Unauthorized"

definition all_errc :: "Errc list" where
  "all_errc = [NotFound, AlreadyExists, NotADirectory, IsADirectory, InvalidArgument, InvalidPath,
     Truncated, BadMagic, UnsupportedVersion, Corrupt, IoError, TooLarge, ConnectionClosed,
     Unsupported, Timeout, ProtocolError, Unauthorized]"

text \<open>\<open>static_cast<Errc>\<close> of a checked wire code.\<close>

definition Errc_of :: "u32 \<Rightarrow> Errc option" where
  "Errc_of c = List.find (\<lambda>e. Errc_code e = c) all_errc"

fun Errc_to_string :: "Errc \<Rightarrow> bytes" where
  "Errc_to_string NotFound = lit ''not found''"
| "Errc_to_string AlreadyExists = lit ''already exists''"
| "Errc_to_string NotADirectory = lit ''not a directory''"
| "Errc_to_string IsADirectory = lit ''is a directory''"
| "Errc_to_string InvalidArgument = lit ''invalid argument''"
| "Errc_to_string InvalidPath = lit ''invalid path''"
| "Errc_to_string Truncated = lit ''truncated''"
| "Errc_to_string BadMagic = lit ''bad magic''"
| "Errc_to_string UnsupportedVersion = lit ''unsupported version''"
| "Errc_to_string Corrupt = lit ''corrupt''"
| "Errc_to_string IoError = lit ''i/o error''"
| "Errc_to_string TooLarge = lit ''too large''"
| "Errc_to_string ConnectionClosed = lit ''connection closed''"
| "Errc_to_string Unsupported = lit ''unsupported''"
| "Errc_to_string Timeout = lit ''timeout''"
| "Errc_to_string ProtocolError = lit ''protocol error''"
| "Errc_to_string Unauthorized = lit ''unauthorized''"

section \<open>Facts on the enumerations\<close>

lemma NodeKind_of_code [simp]: "NodeKind_of (NodeKind_code k) = k"
  by (cases k) (simp_all add: NodeKind_of_def)

lemma InvalidationKind_of_code [simp]: "InvalidationKind_of (InvalidationKind_code k) = k"
  by (cases k) (simp_all add: InvalidationKind_of_def)

lemma ChangeKind_of_code [simp]: "ChangeKind_of (ChangeKind_code k) = k"
  by (cases k) (simp_all add: ChangeKind_of_def)

lemma NodeKind_code_bound [simp]: "\<not> NodeKind_code Other < NodeKind_code k"
  by (cases k) simp_all

lemma InvalidationKind_code_bound [simp]:
  "\<not> InvalidationKind_code Rescan < InvalidationKind_code k"
  by (cases k) simp_all

lemma ChangeKind_code_bound [simp]: "\<not> kMaxChangeKind < ChangeKind_code k"
  by (cases k) (simp_all add: kMaxChangeKind_def)

lemma Errc_of_code [simp]: "Errc_of (Errc_code e) = Some e"
  by (cases e) (simp_all add: Errc_of_def all_errc_def)

lemma Errc_code_pos [simp]: "Errc_code e \<noteq> 0"
  by (cases e) simp_all

lemma Errc_code_bound [simp]: "Errc_code e \<le> Errc_code kLastErrc"
  by (cases e) (simp_all add: kLastErrc_def)

lemma is_move_simps [simp]:
  "is_move MovedFrom" "is_move MovedTo" "\<not> is_move Unknown" "\<not> is_move Created"
  "\<not> is_move Modified" "\<not> is_move Removed"
  by (simp_all add: is_move_def)

instantiation Errc :: linorder
begin

definition less_eq_Errc :: "Errc \<Rightarrow> Errc \<Rightarrow> bool" where
  "less_eq_Errc a b \<longleftrightarrow> Errc_code a \<le> Errc_code b"

definition less_Errc :: "Errc \<Rightarrow> Errc \<Rightarrow> bool" where
  "less_Errc a b \<longleftrightarrow> Errc_code a < Errc_code b"

instance
proof
  fix a b :: Errc
  show "a \<le> b \<Longrightarrow> b \<le> a \<Longrightarrow> a = b"
    by (metis Errc_of_code less_eq_Errc_def option.inject order_antisym)
qed (auto simp: less_eq_Errc_def less_Errc_def)

end

lemma Errc_le_last: "e \<le> kLastErrc"
  by (simp add: less_eq_Errc_def)

end
