(* ===== verification/HashUtil.thy ===== *)
theory HashUtil
  imports Types
begin

text \<open>
  \<open>src/core/hash_util.hpp\<close>: the 64-bit finaliser \<open>mix64\<close> behind the open-addressing map and the
  non-cryptographic byte hash behind the string tables.  The finaliser is shown to be a bijection
  on 64-bit values, so distinct map keys never collide before the table mask is applied.
\<close>

definition mix64 :: "u64 \<Rightarrow> u64" where
  "mix64 x0 =
    (let x1 = x0 XOR drop_bit 32 x0;
         x2 = x1 * 0xd6e8feb86659fd93;
         x3 = x2 XOR drop_bit 32 x2;
         x4 = x3 * 0xd6e8feb86659fd93
     in x4 XOR drop_bit 32 x4)"

text \<open>
  \<open>std::memcpy(&v, p, n)\<close> of \<open>n \<le> 8\<close> bytes into a zeroed \<open>uint64_t\<close> on the little-endian
  targets the program supports (x64).
\<close>

primrec load_le :: "bytes \<Rightarrow> u64" where
  "load_le [] = 0"
| "load_le (b # bs) = ucast b OR push_bit 8 (load_le bs)"

definition hash_step :: "u64 \<Rightarrow> u64 \<Rightarrow> u64" where
  "hash_step h v = (let h1 = (h XOR v) * 0x9FB21C651E98DF25 in h1 XOR drop_bit 29 h1)"

function hash_loop :: "u64 \<Rightarrow> bytes \<Rightarrow> u64" where
  "hash_loop h p =
    (if 8 \<le> length p then hash_loop (hash_step h (load_le (take 8 p))) (drop 8 p)
     else if p \<noteq> [] then hash_step h (load_le p)
     else h)"
  by pat_completeness auto
termination
  by (relation "measure (\<lambda>(h, p). length p)") auto

declare hash_loop.simps [simp del]

definition hash_bytes :: "bytes \<Rightarrow> u64" where
  "hash_bytes p =
    mix64 (hash_loop (0x9E3779B97F4A7C15 XOR (of_nat (length p) * 0xff51afd7ed558ccd)) p)"

definition hash_string :: "bytes \<Rightarrow> u64" where
  "hash_string s = hash_bytes s"

section \<open>The finaliser is a bijection\<close>

text \<open>Each xor-shift by half the width undoes itself; each multiplier is odd, hence invertible.\<close>

definition unmix64 :: "u64 \<Rightarrow> u64" where
  "unmix64 y0 =
    (let y1 = y0 XOR drop_bit 32 y0;
         y2 = y1 * 0xCFEE444D8B59A89B;
         y3 = y2 XOR drop_bit 32 y2;
         y4 = y3 * 0xCFEE444D8B59A89B
     in y4 XOR drop_bit 32 y4)"

lemma xorshift32_involution: "(x XOR drop_bit 32 x) XOR drop_bit 32 (x XOR drop_bit 32 x) = (x :: u64)"
proof (rule bit_word_eqI)
  fix n
  assume "n < LENGTH(64)"
  then show "bit ((x XOR drop_bit 32 x) XOR drop_bit 32 (x XOR drop_bit 32 x)) n = bit x n"
    using bit_imp_le_length [of x "64 + n"] by (auto simp: bit_simps)
qed

lemma multiplier_inverse: "(0xd6e8feb86659fd93 :: u64) * 0xCFEE444D8B59A89B = 1"
  by simp

lemma mult_by_inverse: "x * 0xd6e8feb86659fd93 * 0xCFEE444D8B59A89B = (x :: u64)"
  by (simp only: mult.assoc multiplier_inverse mult_1_right)

lemma unmix64_mix64: "unmix64 (mix64 x) = x"
  unfolding unmix64_def mix64_def Let_def
  by (simp only: xorshift32_involution mult_by_inverse)

end
