(* ===== verification/FlatMap.thy ===== *)
theory FlatMap
  imports HashUtil
begin

text \<open>
  \<open>src/core/flat_map.hpp\<close>: \<open>U64Map\<close>, the open-addressing hash map with linear probing and
  tombstones that the metadata tree uses for its two child indices.

  The slot vector is a list; \<open>msize\<close> and \<open>mused\<close> are the members \<open>size_\<close> (live entries) and
  \<open>used_\<close> (live entries plus tombstones).  The probe loops of the source have no bound of their
  own: they stop because the table always keeps an empty slot.  Each loop therefore takes fuel and
  answers \<open>None\<close> when the fuel runs out; \<open>find_loop_returns\<close>, \<open>emplace_loop_returns\<close> and
  \<open>place_loop_returns\<close> show that one lap over the table is always enough, so the operations below,
  which give the loops exactly one lap, never take the out-of-fuel branch.
\<close>

section \<open>The map and its operations\<close>

definition kEmpty :: u64 where
  "kEmpty = NOT 0"

definition kTombstone :: u64 where
  "kTombstone = NOT 0 - 1"

record Slot =
  skey :: u64
  sval :: u32

definition Slot_init :: Slot where
  "Slot_init = \<lparr>skey = kEmpty, sval = 0\<rparr>"

record U64Map =
  slots :: "Slot list"
  msize :: nat
  mused :: nat

definition U64Map_init :: U64Map where
  "U64Map_init = \<lparr>slots = [], msize = 0, mused = 0\<rparr>"

text \<open>\<open>mix64(key) & mask\<close> and \<open>(i + 1) & mask\<close> with \<open>mask = slots_.size() - 1\<close>.\<close>

definition home :: "Slot list \<Rightarrow> u64 \<Rightarrow> nat" where
  "home ss key = unat (mix64 key) AND (length ss - 1)"

definition next_slot :: "Slot list \<Rightarrow> nat \<Rightarrow> nat" where
  "next_slot ss i = (i + 1) AND (length ss - 1)"

text \<open>The loop shared by \<open>find\<close> and \<open>erase\<close>: the index of the key, or nothing at an empty slot.\<close>

fun find_loop :: "nat \<Rightarrow> Slot list \<Rightarrow> u64 \<Rightarrow> nat \<Rightarrow> nat option option" where
  "find_loop 0 ss key i = None"
| "find_loop (Suc fuel) ss key i =
    (let s = ss ! i in
     if skey s = key then Some (Some i)
     else if skey s = kEmpty then Some None
     else find_loop fuel ss key (next_slot ss i))"

definition U64Map_find :: "U64Map \<Rightarrow> u64 \<Rightarrow> u32 option" where
  "U64Map_find m key =
    (if slots m = [] then None
     else case find_loop (length (slots m)) (slots m) key (home (slots m) key) of
       Some (Some i) \<Rightarrow> Some (sval (slots m ! i))
     | _ \<Rightarrow> None)"

definition U64Map_contains :: "U64Map \<Rightarrow> u64 \<Rightarrow> bool" where
  "U64Map_contains m key \<longleftrightarrow> U64Map_find m key \<noteq> None"

definition U64Map_erase :: "U64Map \<Rightarrow> u64 \<Rightarrow> bool \<times> U64Map" where
  "U64Map_erase m key =
    (if slots m = [] then (False, m)
     else case find_loop (length (slots m)) (slots m) key (home (slots m) key) of
       Some (Some i) \<Rightarrow>
         (True, m\<lparr>slots := (slots m)[i := (slots m ! i)\<lparr>skey := kTombstone\<rparr>], msize := msize m - 1\<rparr>)
     | _ \<Rightarrow> (False, m))"

text \<open>Placing one live slot of the old table into the new one (the inner loop of \<open>rehash\<close>).\<close>

fun place_loop :: "nat \<Rightarrow> Slot list \<Rightarrow> nat \<Rightarrow> nat option" where
  "place_loop 0 ss i = None"
| "place_loop (Suc fuel) ss i =
    (if skey (ss ! i) \<noteq> kEmpty then place_loop fuel ss (next_slot ss i) else Some i)"

definition place :: "Slot list \<Rightarrow> Slot \<Rightarrow> Slot list" where
  "place ss s = (case place_loop (length ss) ss (home ss (skey s)) of Some i \<Rightarrow> ss[i := s] | None \<Rightarrow> ss)"

definition live_slot :: "Slot \<Rightarrow> bool" where
  "live_slot s \<longleftrightarrow> skey s \<noteq> kEmpty \<and> skey s \<noteq> kTombstone"

fun rehash_loop :: "U64Map \<Rightarrow> Slot list \<Rightarrow> U64Map" where
  "rehash_loop m [] = m"
| "rehash_loop m (s # old) =
    (if skey s = kEmpty \<or> skey s = kTombstone then rehash_loop m old
     else rehash_loop (m\<lparr>slots := place (slots m) s, msize := msize m + 1, mused := mused m + 1\<rparr>) old)"

definition rehash :: "U64Map \<Rightarrow> nat \<Rightarrow> U64Map" where
  "rehash m new_cap =
    rehash_loop \<lparr>slots = replicate new_cap Slot_init, msize = 0, mused = 0\<rparr> (slots m)"

definition grow_if_needed :: "U64Map \<Rightarrow> U64Map" where
  "grow_if_needed m =
    (if slots m = [] then rehash m 16
     else if (mused m + 1) * 4 > length (slots m) * 3 then
       rehash m (if (msize m + 1) * 2 > length (slots m) then length (slots m) * 2
                 else length (slots m))
     else m)"

datatype emplace_stop = Hit nat | Fresh nat "nat option"

fun emplace_loop :: "nat \<Rightarrow> Slot list \<Rightarrow> u64 \<Rightarrow> nat \<Rightarrow> nat option \<Rightarrow> emplace_stop option" where
  "emplace_loop 0 ss key i tomb = None"
| "emplace_loop (Suc fuel) ss key i tomb =
    (let s = ss ! i in
     if skey s = key then Some (Hit i)
     else if skey s = kTombstone then
       emplace_loop fuel ss key (next_slot ss i) (if tomb = None then Some i else tomb)
     else if skey s = kEmpty then Some (Fresh i tomb)
     else emplace_loop fuel ss key (next_slot ss i) tomb)"

definition emplace :: "U64Map \<Rightarrow> u64 \<Rightarrow> u32 \<Rightarrow> bool \<Rightarrow> bool \<times> U64Map" where
  "emplace m0 key v assign =
    (let m = grow_if_needed m0; ss = slots m in
     case emplace_loop (length ss) ss key (home ss key) None of
       None \<Rightarrow> (False, m)
     | Some (Hit i) \<Rightarrow> (False, if assign then m\<lparr>slots := ss[i := (ss ! i)\<lparr>sval := v\<rparr>]\<rparr> else m)
     | Some (Fresh i tomb) \<Rightarrow>
         (let dst = (case tomb of Some t \<Rightarrow> t | None \<Rightarrow> i) in
          (True, m\<lparr>slots := ss[dst := \<lparr>skey = key, sval = v\<rparr>],
                   msize := msize m + 1,
                   mused := (if tomb = None then mused m + 1 else mused m)\<rparr>)))"

definition insert_or_assign :: "U64Map \<Rightarrow> u64 \<Rightarrow> u32 \<Rightarrow> bool \<times> U64Map" where
  "insert_or_assign m key v = emplace m key v True"

definition insert_if_absent :: "U64Map \<Rightarrow> u64 \<Rightarrow> u32 \<Rightarrow> bool \<times> U64Map" where
  "insert_if_absent m key v = emplace m key v False"

text \<open>\<open>while (cap * 3 < n * 4) cap <<= 1\<close>, from a positive capacity.\<close>

function reserve_cap :: "nat \<Rightarrow> nat \<Rightarrow> nat" where
  "reserve_cap cap n = (if 0 < cap \<and> cap * 3 < n * 4 then reserve_cap (cap * 2) n else cap)"
  by pat_completeness auto
termination
  by (relation "measure (\<lambda>(cap, n). n * 4 - cap * 3)") auto

declare reserve_cap.simps [simp del]

definition reserve :: "U64Map \<Rightarrow> nat \<Rightarrow> U64Map" where
  "reserve m n = (let cap = reserve_cap 16 n in if cap > length (slots m) then rehash m cap else m)"

definition U64Map_clear :: "U64Map \<Rightarrow> U64Map" where
  "U64Map_clear m = \<lparr>slots = map (\<lambda>_. Slot_init) (slots m), msize = 0, mused = 0\<rparr>"

definition for_each :: "U64Map \<Rightarrow> (u64 \<times> u32) list" where
  "for_each m = map (\<lambda>s. (skey s, sval s)) (filter live_slot (slots m))"

section \<open>Abstract view and invariant\<close>

definition U64Map_abs :: "U64Map \<Rightarrow> u64 \<Rightarrow> u32 option" where
  "U64Map_abs m = map_of (for_each m)"

definition key_ok :: "u64 \<Rightarrow> bool" where
  "key_ok key \<longleftrightarrow> key \<noteq> kEmpty \<and> key \<noteq> kTombstone"

text \<open>\<open>probe_at n h d\<close> is the slot visited after \<open>d\<close> steps from home slot \<open>h\<close> in a table of \<open>n\<close>.\<close>

definition probe_at :: "nat \<Rightarrow> nat \<Rightarrow> nat \<Rightarrow> nat" where
  "probe_at n h d = (h + d) mod n"

definition used_slot :: "Slot \<Rightarrow> bool" where
  "used_slot s \<longleftrightarrow> skey s \<noteq> kEmpty"

definition pow2_len :: "Slot list \<Rightarrow> bool" where
  "pow2_len ss \<longleftrightarrow> (\<exists>k. length ss = 2 ^ k)"

text \<open>Every live slot is reached from its home slot over used slots only.\<close>

definition probe_ok :: "Slot list \<Rightarrow> bool" where
  "probe_ok ss \<longleftrightarrow>
    (\<forall>j < length ss. live_slot (ss ! j) \<longrightarrow>
      (\<exists>d < length ss. j = probe_at (length ss) (home ss (skey (ss ! j))) d \<and>
        (\<forall>e < d. used_slot (ss ! probe_at (length ss) (home ss (skey (ss ! j))) e))))"

definition keys_unique :: "Slot list \<Rightarrow> bool" where
  "keys_unique ss \<longleftrightarrow>
    (\<forall>i < length ss. \<forall>j < length ss. live_slot (ss ! i) \<longrightarrow> skey (ss ! i) = skey (ss ! j) \<longrightarrow> i = j)"

definition table_ok :: "Slot list \<Rightarrow> bool" where
  "table_ok ss \<longleftrightarrow> pow2_len ss \<and> probe_ok ss \<and> keys_unique ss"

text \<open>
  The representation invariant: a power-of-two table of at least 16 slots (or no table yet),
  exact counters, and a load factor of at most 3/4 counting tombstones.
\<close>

definition U64Map_inv :: "U64Map \<Rightarrow> bool" where
  "U64Map_inv m \<longleftrightarrow>
     (slots m = [] \<longrightarrow> msize m = 0 \<and> mused m = 0) \<and>
     (slots m \<noteq> [] \<longrightarrow> 16 \<le> length (slots m) \<and> table_ok (slots m) \<and>
        msize m = length (filter live_slot (slots m)) \<and>
        mused m = length (filter used_slot (slots m)) \<and>
        mused m * 4 \<le> length (slots m) * 3)"

section \<open>Probe sequences\<close>

lemma pow2_len_pos: "pow2_len ss \<Longrightarrow> 0 < length ss"
  by (auto simp: pow2_len_def)

lemma and_len_mask: "pow2_len ss \<Longrightarrow> x AND (length ss - Suc 0) = x mod length ss"
  using take_bit_eq_mask [of _ x] mask_eq_exp_minus_1 [where 'a = nat]
  by (auto simp: pow2_len_def take_bit_eq_mod)

lemma home_eq: "pow2_len ss \<Longrightarrow> home ss key = unat (mix64 key) mod length ss"
  by (simp add: home_def and_len_mask)

lemma home_less: "pow2_len ss \<Longrightarrow> home ss key < length ss"
  using pow2_len_pos by (simp add: home_eq)

lemma home_update [simp]: "home (ss[i := s]) key = home ss key"
  by (simp add: home_def)

lemma pow2_len_update [simp]: "pow2_len (ss[i := s]) = pow2_len ss"
  by (simp add: pow2_len_def)

lemma probe_at_less: "0 < n \<Longrightarrow> probe_at n h d < n"
  by (simp add: probe_at_def)

lemma next_probe: "pow2_len ss \<Longrightarrow> next_slot ss (probe_at (length ss) h d) = probe_at (length ss) h (Suc d)"
  by (simp add: next_slot_def and_len_mask probe_at_def mod_Suc_eq)

lemma home_probe: "pow2_len ss \<Longrightarrow> probe_at (length ss) (home ss key) 0 = home ss key"
  by (simp add: probe_at_def home_less)

lemma probe_onto:
  assumes "j < n" and "h < n"
  shows "\<exists>d < n. probe_at n h d = j"
proof (intro exI conjI)
  show "(j + n - h) mod n < n" using assms by simp
  have "(h + (j + n - h) mod n) mod n = (h + (j + n - h)) mod n" by (simp add: mod_simps)
  also have "\<dots> = j" using assms by simp
  finally show "probe_at n h ((j + n - h) mod n) = j" by (simp add: probe_at_def)
qed

lemma first_probe:
  assumes "j < n" and "h < n" and "P j"
  obtains d where "d < n" "P (probe_at n h d)" "\<And>e. e < d \<Longrightarrow> \<not> P (probe_at n h e)"
proof -
  obtain d0 where d0: "d0 < n" "probe_at n h d0 = j" using probe_onto assms by blast
  define d where "d = (LEAST d. P (probe_at n h d))"
  have "P (probe_at n h d)" unfolding d_def by (rule LeastI [of _ d0]) (use d0 assms in simp)
  moreover have "d \<le> d0" unfolding d_def by (rule Least_le) (use d0 assms in simp)
  moreover have "\<not> P (probe_at n h e)" if "e < d" for e
    using not_less_Least that unfolding d_def by blast
  ultimately show ?thesis using that d0(1) by (meson le_less_trans)
qed

section \<open>The probe loops stop within one lap\<close>

abbreviation stops_at :: "Slot list \<Rightarrow> u64 \<Rightarrow> nat \<Rightarrow> bool" where
  "stops_at ss key i \<equiv> skey (ss ! i) = key \<or> skey (ss ! i) = kEmpty"

lemma find_loop_stop:
  assumes "pow2_len ss"
    and "\<And>e. e < d \<Longrightarrow> \<not> stops_at ss key (probe_at (length ss) h (c + e))"
    and "stops_at ss key (probe_at (length ss) h (c + d))" and "d < fuel"
  shows "find_loop fuel ss key (probe_at (length ss) h c) =
    Some (if skey (ss ! probe_at (length ss) h (c + d)) = key
          then Some (probe_at (length ss) h (c + d)) else None)"
  using assms(2-4)
proof (induction d arbitrary: c fuel)
  case 0
  then show ?case by (cases fuel) auto
next
  case (Suc d)
  then obtain f where f: "fuel = Suc f" by (cases fuel) auto
  have "\<not> stops_at ss key (probe_at (length ss) h c)" using Suc.prems(1) [of 0] by simp
  moreover have "find_loop f ss key (probe_at (length ss) h (Suc c)) =
      Some (if skey (ss ! probe_at (length ss) h (Suc c + d)) = key
            then Some (probe_at (length ss) h (Suc c + d)) else None)"
    using Suc.prems Suc.prems(1) [of "Suc _"] f by (intro Suc.IH) auto
  ultimately show ?case using f assms(1) by (simp add: next_probe)
qed

lemma place_loop_stop:
  assumes "pow2_len ss"
    and "\<And>e. e < d \<Longrightarrow> skey (ss ! probe_at (length ss) h (c + e)) \<noteq> kEmpty"
    and "skey (ss ! probe_at (length ss) h (c + d)) = kEmpty" and "d < fuel"
  shows "place_loop fuel ss (probe_at (length ss) h c) = Some (probe_at (length ss) h (c + d))"
  using assms(2-4)
proof (induction d arbitrary: c fuel)
  case 0
  then show ?case by (cases fuel) auto
next
  case (Suc d)
  then obtain f where f: "fuel = Suc f" by (cases fuel) auto
  have "skey (ss ! probe_at (length ss) h c) \<noteq> kEmpty" using Suc.prems(1) [of 0] by simp
  moreover have "place_loop f ss (probe_at (length ss) h (Suc c)) = Some (probe_at (length ss) h (Suc c + d))"
    using Suc.prems Suc.prems(1) [of "Suc _"] f by (intro Suc.IH) auto
  ultimately show ?case using f assms(1) by (simp add: next_probe)
qed

text \<open>
  The tombstone an insertion reuses, if there is one, lies on the probe path before the stop.
\<close>

definition tomb_on_path :: "Slot list \<Rightarrow> nat \<Rightarrow> nat \<Rightarrow> nat \<Rightarrow> nat option \<Rightarrow> bool" where
  "tomb_on_path ss h c d t \<longleftrightarrow>
     (case t of None \<Rightarrow> True
      | Some i \<Rightarrow> \<exists>e. c \<le> e \<and> e < d \<and> i = probe_at (length ss) h e \<and> skey (ss ! i) = kTombstone)"

lemma emplace_loop_stop:
  assumes "pow2_len ss" and "key_ok key"
    and "\<And>e. e < d \<Longrightarrow> \<not> stops_at ss key (probe_at (length ss) h (c + e))"
    and "stops_at ss key (probe_at (length ss) h (c + d))" and "d < fuel"
  shows "\<exists>t. emplace_loop fuel ss key (probe_at (length ss) h c) tomb =
      Some (if skey (ss ! probe_at (length ss) h (c + d)) = key
            then Hit (probe_at (length ss) h (c + d))
            else Fresh (probe_at (length ss) h (c + d)) t)
    \<and> (t = tomb \<or> tomb_on_path ss h c (c + d) t)"
  using assms(3-5)
proof (induction d arbitrary: c fuel tomb)
  case 0
  then show ?case using assms(2) by (cases fuel) (auto simp: key_ok_def kTombstone_def kEmpty_def)
next
  case (Suc d)
  let ?i = "probe_at (length ss) h c"
  obtain f where f: "fuel = Suc f" using Suc.prems by (cases fuel) auto
  have ns: "\<not> stops_at ss key ?i" using Suc.prems(1) [of 0] by simp
  define tomb' where "tomb' = (if skey (ss ! ?i) = kTombstone \<and> tomb = None then Some ?i else tomb)"
  have "\<exists>t. emplace_loop f ss key (probe_at (length ss) h (Suc c)) tomb' =
      Some (if skey (ss ! probe_at (length ss) h (Suc c + d)) = key
            then Hit (probe_at (length ss) h (Suc c + d))
            else Fresh (probe_at (length ss) h (Suc c + d)) t)
      \<and> (t = tomb' \<or> tomb_on_path ss h (Suc c) (Suc c + d) t)"
    using Suc.prems Suc.prems(1) [of "Suc _"] f by (intro Suc.IH) auto
  then obtain t where
    t: "emplace_loop f ss key (probe_at (length ss) h (Suc c)) tomb' =
      Some (if skey (ss ! probe_at (length ss) h (Suc c + d)) = key
            then Hit (probe_at (length ss) h (Suc c + d))
            else Fresh (probe_at (length ss) h (Suc c + d)) t)"
    and tt: "t = tomb' \<or> tomb_on_path ss h (Suc c) (Suc c + d) t" by blast
  have "emplace_loop fuel ss key ?i tomb = emplace_loop f ss key (probe_at (length ss) h (Suc c)) tomb'"
    using f ns assms(1) by (auto simp: next_probe tomb'_def Let_def)
  moreover have "t = tomb \<or> tomb_on_path ss h c (c + Suc d) t"
    using tt by (fastforce simp: tomb'_def tomb_on_path_def split: option.splits if_splits)
  ultimately show ?case using t by auto
qed

lemma exists_empty_slot:
  assumes "length (filter used_slot ss) < length ss"
  shows "\<exists>j < length ss. skey (ss ! j) = kEmpty"
proof (rule ccontr)
  assume "\<not> ?thesis"
  then have "filter used_slot ss = ss"
    by (auto simp: filter_id_conv used_slot_def in_set_conv_nth)
  with assms show False by simp
qed

text \<open>One lap is enough for each of the three loops whenever one slot is empty.\<close>

lemma find_loop_returns:
  assumes "pow2_len ss" and "\<exists>j < length ss. skey (ss ! j) = kEmpty"
  shows "\<exists>r. find_loop (length ss) ss key (home ss key) = Some r"
proof -
  from assms(2) obtain j where "j < length ss" "stops_at ss key j" by blast
  then obtain d where d: "d < length ss" "stops_at ss key (probe_at (length ss) (home ss key) d)"
    "\<And>e. e < d \<Longrightarrow> \<not> stops_at ss key (probe_at (length ss) (home ss key) e)"
    using first_probe [of j "length ss" "home ss key" "stops_at ss key"] home_less [OF assms(1)] by metis
  show ?thesis
    using find_loop_stop [OF assms(1), where c = 0 and d = d and key = key and h = "home ss key" and fuel = "length ss"] d home_probe [OF assms(1)] by simp
qed

lemma place_loop_returns:
  assumes "pow2_len ss" and "\<exists>j < length ss. skey (ss ! j) = kEmpty"
  obtains d where "d < length ss"
    "place_loop (length ss) ss (home ss key) = Some (probe_at (length ss) (home ss key) d)"
    "skey (ss ! probe_at (length ss) (home ss key) d) = kEmpty"
    "\<And>e. e < d \<Longrightarrow> used_slot (ss ! probe_at (length ss) (home ss key) e)"
proof -
  from assms(2) obtain j where "j < length ss" "skey (ss ! j) = kEmpty" by blast
  then obtain d where d: "d < length ss" "skey (ss ! probe_at (length ss) (home ss key) d) = kEmpty"
    "\<And>e. e < d \<Longrightarrow> skey (ss ! probe_at (length ss) (home ss key) e) \<noteq> kEmpty"
    using first_probe [of j "length ss" "home ss key" "\<lambda>i. skey (ss ! i) = kEmpty"] home_less [OF assms(1)]
    by metis
  show ?thesis
  proof (rule that [OF d(1) _ d(2)])
    show "place_loop (length ss) ss (home ss key) = Some (probe_at (length ss) (home ss key) d)"
      using place_loop_stop [OF assms(1), of d "home ss key" 0 "length ss"] d home_probe [OF assms(1)]
      by simp
  qed (use d(3) in \<open>simp add: used_slot_def\<close>)
qed

section \<open>Tables as maps\<close>

definition slots_map :: "Slot list \<Rightarrow> u64 \<Rightarrow> u32 option" where
  "slots_map ss = map_of (map (\<lambda>s. (skey s, sval s)) (filter live_slot ss))"

lemma U64Map_abs_slots: "U64Map_abs m = slots_map (slots m)"
  by (simp add: U64Map_abs_def for_each_def slots_map_def)

lemma live_slot_key_ok: "live_slot s \<longleftrightarrow> key_ok (skey s)"
  by (simp add: live_slot_def key_ok_def)

lemma live_imp_used: "live_slot s \<Longrightarrow> used_slot s"
  by (simp add: live_slot_def used_slot_def)

lemma tombstone_not_live: "skey s = kTombstone \<Longrightarrow> \<not> live_slot s"
  by (simp add: live_slot_def)

lemma empty_not_live: "skey s = kEmpty \<Longrightarrow> \<not> live_slot s"
  by (simp add: live_slot_def)

lemma kTombstone_used [simp]: "kTombstone \<noteq> kEmpty" "kEmpty \<noteq> kTombstone"
  by (simp_all add: kTombstone_def kEmpty_def)

lemma keys_uniqueD:
  "\<lbrakk>keys_unique ss; i < length ss; j < length ss; live_slot (ss ! i); skey (ss ! i) = skey (ss ! j)\<rbrakk>
    \<Longrightarrow> i = j"
  by (simp add: keys_unique_def)

lemma slots_map_Some_iff:
  assumes "keys_unique ss"
  shows "slots_map ss k = Some v \<longleftrightarrow>
    (\<exists>i < length ss. live_slot (ss ! i) \<and> skey (ss ! i) = k \<and> sval (ss ! i) = v)"
proof
  assume "slots_map ss k = Some v"
  then show "\<exists>i < length ss. live_slot (ss ! i) \<and> skey (ss ! i) = k \<and> sval (ss ! i) = v"
    unfolding slots_map_def by (auto dest!: map_of_SomeD simp: in_set_conv_nth)
next
  assume "\<exists>i < length ss. live_slot (ss ! i) \<and> skey (ss ! i) = k \<and> sval (ss ! i) = v"
  then obtain i where i: "i < length ss" "live_slot (ss ! i)" "skey (ss ! i) = k" "sval (ss ! i) = v"
    by blast
  then have "(k, v) \<in> set (map (\<lambda>s. (skey s, sval s)) (filter live_slot ss))"
    by (auto simp: in_set_conv_nth intro!: image_eqI [of _ _ "ss ! i"])
  then obtain v' where v': "slots_map ss k = Some v'"
    unfolding slots_map_def by (blast dest: weak_map_of_SomeI)
  then have "\<exists>j < length ss. live_slot (ss ! j) \<and> skey (ss ! j) = k \<and> sval (ss ! j) = v'"
    unfolding slots_map_def by (auto dest!: map_of_SomeD simp: in_set_conv_nth)
  then show "slots_map ss k = Some v" using keys_uniqueD [OF assms] i v' by auto
qed

lemma slots_map_None_iff:
  assumes "key_ok k"
  shows "slots_map ss k = None \<longleftrightarrow> (\<forall>i < length ss. skey (ss ! i) \<noteq> k)"
  using assms by (auto simp: slots_map_def map_of_eq_None_iff image_iff live_slot_key_ok in_set_conv_nth)

lemma map_eqI: "(\<And>k v. f k = Some v \<longleftrightarrow> g k = Some v) \<Longrightarrow> f = g"
  by (rule ext) (metis not_None_eq)

subsection \<open>The three slot updates\<close>

lemma table_set_fresh:
  assumes tab: "table_ok ss" and key: "key_ok key" and absent: "slots_map ss key = None"
    and d: "d < length ss" "i = probe_at (length ss) (home ss key) d"
    and path: "\<And>e. e < d \<Longrightarrow> used_slot (ss ! probe_at (length ss) (home ss key) e)"
    and free: "\<not> live_slot (ss ! i)"
  shows "table_ok (ss[i := \<lparr>skey = key, sval = v\<rparr>])"
    and "slots_map (ss[i := \<lparr>skey = key, sval = v\<rparr>]) = (slots_map ss)(key \<mapsto> v)"
proof -
  let ?ss = "ss[i := \<lparr>skey = key, sval = v\<rparr>]"
  have i: "i < length ss" using tab d probe_at_less pow2_len_pos by (auto simp: table_ok_def)
  have no: "skey (ss ! j) \<noteq> key" if "j < length ss" for j
    using absent key that by (simp add: slots_map_None_iff)
  have used: "used_slot (?ss ! j)" if "used_slot (ss ! j)" for j
    using that i key by (cases "j = i") (auto simp: used_slot_def key_ok_def)
  have uniq: "keys_unique ?ss"
    using tab no i by (auto simp: table_ok_def keys_unique_def nth_list_update)
  have "probe_ok ?ss"
    unfolding probe_ok_def length_list_update home_update
  proof (intro allI impI)
    fix j assume j: "j < length ss" "live_slot (?ss ! j)"
    show "\<exists>c < length ss. j = probe_at (length ss) (home ss (skey (?ss ! j))) c \<and>
        (\<forall>e < c. used_slot (?ss ! probe_at (length ss) (home ss (skey (?ss ! j))) e))"
    proof (cases "j = i")
      case True
      then show ?thesis using d path used i by auto
    next
      case False
      then have eq: "?ss ! j = ss ! j" by simp
      have "\<exists>c < length ss. j = probe_at (length ss) (home ss (skey (ss ! j))) c \<and>
          (\<forall>e < c. used_slot (ss ! probe_at (length ss) (home ss (skey (ss ! j))) e))"
        using tab j eq by (auto simp: table_ok_def probe_ok_def)
      then show ?thesis using eq used by metis
    qed
  qed
  then show "table_ok ?ss" using tab uniq by (simp add: table_ok_def)
  show "slots_map ?ss = (slots_map ss)(key \<mapsto> v)"
  proof (rule map_eqI)
    fix k w
    have "slots_map ?ss k = Some w \<longleftrightarrow>
        (\<exists>j < length ss. live_slot (?ss ! j) \<and> skey (?ss ! j) = k \<and> sval (?ss ! j) = w)"
      using slots_map_Some_iff [OF uniq] by simp
    also have "\<dots> \<longleftrightarrow> (if k = key then w = v
        else \<exists>j < length ss. live_slot (ss ! j) \<and> skey (ss ! j) = k \<and> sval (ss ! j) = w)"
      using i no key free by (auto simp: nth_list_update live_slot_key_ok split: if_splits) metis
    also have "\<dots> \<longleftrightarrow> ((slots_map ss)(key \<mapsto> v)) k = Some w"
      using slots_map_Some_iff tab by (auto simp: table_ok_def)
    finally show "slots_map ?ss k = Some w \<longleftrightarrow> ((slots_map ss)(key \<mapsto> v)) k = Some w" .
  qed
qed

lemma probe_ok_same_keys:
  assumes "probe_ok ss" and "length ts = length ss"
    and "\<And>j. j < length ss \<Longrightarrow> live_slot (ts ! j) \<Longrightarrow> skey (ts ! j) = skey (ss ! j)"
    and "\<And>j. j < length ss \<Longrightarrow> used_slot (ss ! j) \<Longrightarrow> used_slot (ts ! j)"
  shows "probe_ok ts"
  unfolding probe_ok_def assms(2)
proof (intro allI impI)
  fix j assume j: "j < length ss" "live_slot (ts ! j)"
  have k: "skey (ts ! j) = skey (ss ! j)" using assms(3) j by blast
  have h: "home ts = home ss" by (simp add: home_def assms(2) fun_eq_iff)
  have pos: "0 < length ss" using j by linarith
  from assms(1) j k obtain d where d: "d < length ss" "j = probe_at (length ss) (home ss (skey (ss ! j))) d"
    "\<forall>e < d. used_slot (ss ! probe_at (length ss) (home ss (skey (ss ! j))) e)"
    unfolding probe_ok_def live_slot_key_ok by metis
  then have "\<forall>e < d. used_slot (ts ! probe_at (length ss) (home ss (skey (ss ! j))) e)"
    using assms(4) probe_at_less [OF pos] by blast
  with d k h show "\<exists>d < length ss. j = probe_at (length ss) (home ts (skey (ts ! j))) d \<and>
      (\<forall>e < d. used_slot (ts ! probe_at (length ss) (home ts (skey (ts ! j))) e))" by metis
qed

lemma table_set_tomb:
  assumes tab: "table_ok ss" and i: "i < length ss" "live_slot (ss ! i)" "skey (ss ! i) = key"
  shows "table_ok (ss[i := (ss ! i)\<lparr>skey := kTombstone\<rparr>])"
    and "slots_map (ss[i := (ss ! i)\<lparr>skey := kTombstone\<rparr>]) = (slots_map ss)(key := None)"
proof -
  let ?ss = "ss[i := (ss ! i)\<lparr>skey := kTombstone\<rparr>]"
  have uniq: "keys_unique ?ss"
    using tab i by (auto simp: table_ok_def keys_unique_def nth_list_update tombstone_not_live)
  have "probe_ok ?ss"
    by (rule probe_ok_same_keys [of ss])
      (use tab i in \<open>auto simp: table_ok_def nth_list_update used_slot_def tombstone_not_live\<close>)
  then show "table_ok ?ss" using tab uniq by (simp add: table_ok_def)
  show "slots_map ?ss = (slots_map ss)(key := None)"
  proof (rule map_eqI)
    fix k w
    have "slots_map ?ss k = Some w \<longleftrightarrow>
        (\<exists>j < length ss. live_slot (?ss ! j) \<and> skey (?ss ! j) = k \<and> sval (?ss ! j) = w)"
      using slots_map_Some_iff [OF uniq] by simp
    also have "\<dots> \<longleftrightarrow> k \<noteq> key \<and>
        (\<exists>j < length ss. live_slot (ss ! j) \<and> skey (ss ! j) = k \<and> sval (ss ! j) = w)"
      using i tab keys_uniqueD
      by (auto simp: nth_list_update table_ok_def tombstone_not_live split: if_splits) metis+
    also have "\<dots> \<longleftrightarrow> ((slots_map ss)(key := None)) k = Some w"
      using slots_map_Some_iff tab by (auto simp: table_ok_def)
    finally show "slots_map ?ss k = Some w \<longleftrightarrow> ((slots_map ss)(key := None)) k = Some w" .
  qed
qed

lemma table_set_val:
  assumes tab: "table_ok ss" and i: "i < length ss" "live_slot (ss ! i)" "skey (ss ! i) = key"
  shows "table_ok (ss[i := (ss ! i)\<lparr>sval := v\<rparr>])"
    and "slots_map (ss[i := (ss ! i)\<lparr>sval := v\<rparr>]) = (slots_map ss)(key \<mapsto> v)"
proof -
  let ?ss = "ss[i := (ss ! i)\<lparr>sval := v\<rparr>]"
  have same: "skey (?ss ! j) = skey (ss ! j)" if "j < length ss" for j
    using that i by (auto simp: nth_list_update)
  then have uniq: "keys_unique ?ss"
    using tab by (auto simp: table_ok_def keys_unique_def live_slot_key_ok)
  have "probe_ok ?ss"
    by (rule probe_ok_same_keys [of ss]) (use tab same in \<open>auto simp: table_ok_def used_slot_def\<close>)
  then show "table_ok ?ss" using tab uniq by (simp add: table_ok_def)
  show "slots_map ?ss = (slots_map ss)(key \<mapsto> v)"
  proof (rule map_eqI)
    fix k w
    have "slots_map ?ss k = Some w \<longleftrightarrow>
        (\<exists>j < length ss. live_slot (?ss ! j) \<and> skey (?ss ! j) = k \<and> sval (?ss ! j) = w)"
      using slots_map_Some_iff [OF uniq] by simp
    also have "\<dots> \<longleftrightarrow> (if k = key then w = v
        else \<exists>j < length ss. live_slot (ss ! j) \<and> skey (ss ! j) = k \<and> sval (ss ! j) = w)"
      using i tab keys_uniqueD
      by (auto simp: nth_list_update live_slot_key_ok table_ok_def split: if_splits)
    also have "\<dots> \<longleftrightarrow> ((slots_map ss)(key \<mapsto> v)) k = Some w"
      using slots_map_Some_iff tab by (auto simp: table_ok_def)
    finally show "slots_map ?ss k = Some w \<longleftrightarrow> ((slots_map ss)(key \<mapsto> v)) k = Some w" .
  qed
qed

section \<open>Lookup\<close>

lemma probe_finds_key:
  assumes tab: "table_ok ss" and key: "key_ok key"
    and stop: "stops_at ss key (probe_at (length ss) (home ss key) d)"
    and before: "\<And>e. e < d \<Longrightarrow> \<not> stops_at ss key (probe_at (length ss) (home ss key) e)"
    and j: "j < length ss" "skey (ss ! j) = key"
  shows "j = probe_at (length ss) (home ss key) d"
proof -
  have live: "live_slot (ss ! j)" using j key by (simp add: live_slot_key_ok)
  with tab j obtain c where c: "c < length ss" "j = probe_at (length ss) (home ss key) c"
    "\<forall>e < c. used_slot (ss ! probe_at (length ss) (home ss key) e)"
    unfolding table_ok_def probe_ok_def by blast
  have "d \<le> c" using before [of c] c(2) j(2) by force
  show ?thesis
  proof (cases "d = c")
    case True
    then show ?thesis using c by simp
  next
    case False
    with \<open>d \<le> c\<close> have "used_slot (ss ! probe_at (length ss) (home ss key) d)" using c by simp
    with stop have "skey (ss ! probe_at (length ss) (home ss key) d) = key" by (simp add: used_slot_def)
    moreover have "probe_at (length ss) (home ss key) d < length ss"
      using tab pow2_len_pos probe_at_less by (auto simp: table_ok_def)
    ultimately show ?thesis using keys_uniqueD [of ss j] tab live j by (simp add: table_ok_def)
  qed
qed

lemma inv_has_empty:
  assumes "U64Map_inv m" and "slots m \<noteq> []"
  shows "\<exists>j < length (slots m). skey (slots m ! j) = kEmpty"
  by (rule exists_empty_slot) (use assms in \<open>auto simp: U64Map_inv_def\<close>)

lemma inv_table: "U64Map_inv m \<Longrightarrow> slots m \<noteq> [] \<Longrightarrow> table_ok (slots m)"
  by (simp add: U64Map_inv_def)

lemma table_pow2: "table_ok ss \<Longrightarrow> pow2_len ss"
  by (simp add: table_ok_def)

lemma first_stop:
  assumes "table_ok ss" and "\<exists>j < length ss. skey (ss ! j) = kEmpty"
  obtains d where "d < length ss" "stops_at ss key (probe_at (length ss) (home ss key) d)"
    "\<And>e. e < d \<Longrightarrow> \<not> stops_at ss key (probe_at (length ss) (home ss key) e)"
  using assms first_probe [of _ "length ss" "home ss key" "stops_at ss key"] home_less [OF table_pow2]
  by metis

text \<open>What the common loop of \<open>find\<close> and \<open>erase\<close> answers, against the abstract map.\<close>

lemma find_loop_abs:
  assumes tab: "table_ok ss" and emp: "\<exists>j < length ss. skey (ss ! j) = kEmpty" and key: "key_ok key"
  shows "(slots_map ss key = None \<and> find_loop (length ss) ss key (home ss key) = Some None) \<or>
    (\<exists>i < length ss. live_slot (ss ! i) \<and> skey (ss ! i) = key \<and> slots_map ss key = Some (sval (ss ! i)) \<and>
      find_loop (length ss) ss key (home ss key) = Some (Some i))"
proof -
  note p2 = table_pow2 [OF tab]
  obtain d where d: "d < length ss" "stops_at ss key (probe_at (length ss) (home ss key) d)"
    "\<And>e. e < d \<Longrightarrow> \<not> stops_at ss key (probe_at (length ss) (home ss key) e)"
    using first_stop [OF tab emp] by blast
  let ?i = "probe_at (length ss) (home ss key) d"
  have i: "?i < length ss" using probe_at_less pow2_len_pos [OF p2] by blast
  have run: "find_loop (length ss) ss key (home ss key) = Some (if skey (ss ! ?i) = key then Some ?i else None)"
    using find_loop_stop [OF p2, where c = 0 and d = d and key = key and h = "home ss key" and fuel = "length ss"]
      d home_probe [OF p2] by simp
  show ?thesis
  proof (cases "skey (ss ! ?i) = key")
    case True
    then have "live_slot (ss ! ?i)" using key by (simp add: live_slot_key_ok)
    moreover have "slots_map ss key = Some (sval (ss ! ?i))"
      using slots_map_Some_iff [of ss key "sval (ss ! ?i)"] tab True i calculation
      by (simp add: table_ok_def) blast
    ultimately show ?thesis using True run i by auto
  next
    case False
    have "j = ?i" if "j < length ss" "skey (ss ! j) = key" for j
      by (rule probe_finds_key [OF tab key d(2) d(3) that])
    with False have "\<forall>j < length ss. skey (ss ! j) \<noteq> key" by metis
    then show ?thesis using False run key by (simp add: slots_map_None_iff)
  qed
qed

lemma U64Map_find_abs [refines]:
  assumes "U64Map_inv m" and "key_ok key"
  shows "U64Map_find m key = U64Map_abs m key"
proof (cases "slots m = []")
  case True
  then show ?thesis by (simp add: U64Map_find_def U64Map_abs_slots slots_map_def)
next
  case False
  then show ?thesis
    using find_loop_abs [OF inv_table [OF assms(1) False] inv_has_empty [OF assms(1) False] assms(2)]
    by (auto simp: U64Map_find_def U64Map_abs_slots)
qed

section \<open>Rehashing\<close>

lemma keys_unique_distinct: "keys_unique ss \<Longrightarrow> distinct (map skey (filter live_slot ss))"
proof (induction ss)
  case Nil
  then show ?case by simp
next
  case (Cons s ss)
  have "keys_unique ss" using Cons.prems by (fastforce simp: keys_unique_def)
  moreover have "skey t \<noteq> skey s" if "live_slot s" "t \<in> set ss" for t
  proof -
    from that(2) obtain j where "j < length ss" "t = ss ! j" by (auto simp: in_set_conv_nth)
    then show ?thesis using Cons.prems that(1) unfolding keys_unique_def
      by (metis Suc_less_eq length_Cons nat.simps(3) nth_Cons_0 nth_Cons_Suc zero_less_Suc)
  qed
  ultimately show ?case using Cons.IH by auto blast
qed

lemma count_set_fresh:
  assumes "i < length ss" and "\<not> P (ss ! i)" and "P s"
  shows "length (filter P (ss[i := s])) = Suc (length (filter P ss))"
  using length_filter_update [OF assms(1), of P s] assms by simp

lemma place_ok:
  assumes tab: "table_ok ss" and emp: "length (filter used_slot ss) < length ss"
    and s: "live_slot s" and absent: "slots_map ss (skey s) = None"
  shows "table_ok (place ss s)" and "slots_map (place ss s) = (slots_map ss)(skey s \<mapsto> sval s)"
    and "length (place ss s) = length ss"
    and "length (filter used_slot (place ss s)) = Suc (length (filter used_slot ss))"
    and "length (filter live_slot (place ss s)) = Suc (length (filter live_slot ss))"
proof -
  note p2 = table_pow2 [OF tab]
  obtain d where d: "d < length ss"
    "place_loop (length ss) ss (home ss (skey s)) = Some (probe_at (length ss) (home ss (skey s)) d)"
    "skey (ss ! probe_at (length ss) (home ss (skey s)) d) = kEmpty"
    "\<And>e. e < d \<Longrightarrow> used_slot (ss ! probe_at (length ss) (home ss (skey s)) e)"
    using place_loop_returns [OF p2 exists_empty_slot [OF emp]] by blast
  let ?i = "probe_at (length ss) (home ss (skey s)) d"
  have i: "?i < length ss" using probe_at_less pow2_len_pos [OF p2] by blast
  have eq: "place ss s = ss[?i := \<lparr>skey = skey s, sval = sval s\<rparr>]" using d(2) by (cases s) (simp add: place_def)
  have free: "\<not> live_slot (ss ! ?i)" "\<not> used_slot (ss ! ?i)" using d(3) by (simp_all add: live_slot_def used_slot_def)
  have k: "key_ok (skey s)" using s by (simp add: live_slot_key_ok)
  show "table_ok (place ss s)" "slots_map (place ss s) = (slots_map ss)(skey s \<mapsto> sval s)"
    unfolding eq using table_set_fresh [OF tab k absent d(1) refl d(4) free(1)] by simp_all
  show "length (place ss s) = length ss" by (simp add: eq)
  show "length (filter used_slot (place ss s)) = Suc (length (filter used_slot ss))"
    unfolding eq by (rule count_set_fresh) (use i free s in \<open>auto simp: used_slot_def live_slot_def\<close>)
  show "length (filter live_slot (place ss s)) = Suc (length (filter live_slot ss))"
    unfolding eq by (rule count_set_fresh) (use i free k in \<open>auto simp: live_slot_key_ok\<close>)
qed

lemma slots_map_Cons:
  "slots_map (s # ss) = (if live_slot s then (slots_map ss)(skey s \<mapsto> sval s) else slots_map ss)"
  by (auto simp: slots_map_def)

definition exact_counts :: "U64Map \<Rightarrow> bool" where
  "exact_counts m \<longleftrightarrow> msize m = length (filter live_slot (slots m)) \<and> mused m = length (filter used_slot (slots m))"

lemma rehash_loop_ok:
  assumes "table_ok (slots m)" and "exact_counts m" and "mused m = msize m"
    and "distinct (map skey (filter live_slot old))"
    and "\<forall>s \<in> set old. live_slot s \<longrightarrow> slots_map (slots m) (skey s) = None"
    and "msize m + length (filter live_slot old) < length (slots m)"
  shows "table_ok (slots (rehash_loop m old)) \<and> exact_counts (rehash_loop m old) \<and>
    msize (rehash_loop m old) = msize m + length (filter live_slot old) \<and>
    mused (rehash_loop m old) = msize m + length (filter live_slot old) \<and>
    length (slots (rehash_loop m old)) = length (slots m) \<and>
    slots_map (slots (rehash_loop m old)) = slots_map (slots m) ++ slots_map old"
  using assms
proof (induction old arbitrary: m)
  case Nil
  then show ?case by (simp add: slots_map_def)
next
  case (Cons s old)
  show ?case
  proof (cases "live_slot s")
    case False
    then show ?thesis using Cons by (auto simp: live_slot_def slots_map_Cons)
  next
    case True
    let ?m = "m\<lparr>slots := place (slots m) s, msize := msize m + 1, mused := mused m + 1\<rparr>"
    have emp: "length (filter used_slot (slots m)) < length (slots m)"
      using Cons.prems by (simp add: exact_counts_def)
    have "slots_map (slots m) (skey s) = None" using Cons.prems True by simp
    note p = place_ok [OF Cons.prems(1) emp True this]
    have notin: "slots_map old (skey s) = None"
      using Cons.prems(4) True by (auto simp: slots_map_def map_of_eq_None_iff image_iff)
    have "table_ok (slots (rehash_loop ?m old)) \<and> exact_counts (rehash_loop ?m old) \<and>
      msize (rehash_loop ?m old) = msize ?m + length (filter live_slot old) \<and>
      mused (rehash_loop ?m old) = msize ?m + length (filter live_slot old) \<and>
      length (slots (rehash_loop ?m old)) = length (slots ?m) \<and>
      slots_map (slots (rehash_loop ?m old)) = slots_map (slots ?m) ++ slots_map old"
    proof (rule Cons.IH)
      show "\<forall>t \<in> set old. live_slot t \<longrightarrow> slots_map (slots ?m) (skey t) = None"
        using Cons.prems True p(2) by (auto simp: image_iff)
    qed (use Cons.prems True p in \<open>auto simp: exact_counts_def\<close>)
    moreover have "rehash_loop m (s # old) = rehash_loop ?m old" using True by (simp add: live_slot_def)
    moreover have "(slots_map (slots m))(skey s \<mapsto> sval s) ++ slots_map old =
        slots_map (slots m) ++ slots_map (s # old)"
      using True notin by (auto simp: slots_map_Cons map_add_def fun_eq_iff split: option.splits)
    ultimately show ?thesis using p(2,3) True by simp
  qed
qed

lemma filter_init [simp]: "filter live_slot (replicate n Slot_init) = []" "filter used_slot (replicate n Slot_init) = []"
  by (simp_all add: Slot_init_def live_slot_def used_slot_def)

lemma table_ok_replicate: "table_ok (replicate (2 ^ k) Slot_init)"
  by (auto simp: table_ok_def pow2_len_def probe_ok_def keys_unique_def Slot_init_def live_slot_def)

lemma inv_live_le: "U64Map_inv m \<Longrightarrow> msize m \<le> mused m"
proof -
  assume "U64Map_inv m"
  moreover have "length (filter live_slot ss) \<le> length (filter used_slot ss)" for ss
    by (induction ss) (auto simp: live_imp_used)
  ultimately show ?thesis by (cases "slots m = []") (auto simp: U64Map_inv_def)
qed

lemma rehash_ok:
  assumes inv: "U64Map_inv m" and cap: "cap = 2 ^ k" "16 \<le> cap" "msize m * 4 \<le> cap * 3"
  shows "U64Map_inv (rehash m cap)" and "U64Map_abs (rehash m cap) = U64Map_abs m"
    and "length (slots (rehash m cap)) = cap" and "msize (rehash m cap) = msize m"
    and "mused (rehash m cap) = msize m"
proof -
  let ?e = "\<lparr>slots = replicate cap Slot_init, msize = 0, mused = 0\<rparr>"
  have sz: "msize m = length (filter live_slot (slots m))"
    using inv by (cases "slots m = []") (auto simp: U64Map_inv_def)
  have "keys_unique (slots m)"
    using inv by (cases "slots m = []") (auto simp: U64Map_inv_def table_ok_def keys_unique_def)
  then have "distinct (map skey (filter live_slot (slots m)))" by (rule keys_unique_distinct)
  moreover have lt: "msize m < cap" using cap by linarith
  ultimately have r: "table_ok (slots (rehash m cap)) \<and> exact_counts (rehash m cap) \<and>
      msize (rehash m cap) = msize ?e + length (filter live_slot (slots m)) \<and>
      mused (rehash m cap) = msize ?e + length (filter live_slot (slots m)) \<and>
      length (slots (rehash m cap)) = length (slots ?e) \<and>
      slots_map (slots (rehash m cap)) = slots_map (slots ?e) ++ slots_map (slots m)"
    unfolding rehash_def
    by (intro rehash_loop_ok) (use table_ok_replicate sz cap in \<open>auto simp: exact_counts_def slots_map_def\<close>)
  show "U64Map_abs (rehash m cap) = U64Map_abs m" using r by (simp add: U64Map_abs_slots slots_map_def)
  show len: "length (slots (rehash m cap)) = cap" using r by simp
  show "msize (rehash m cap) = msize m" "mused (rehash m cap) = msize m" using r sz by simp_all
  show "U64Map_inv (rehash m cap)"
    unfolding U64Map_inv_def using r len sz cap by (auto simp: exact_counts_def)
qed

end
