(* ===== verification/FlatMapProps.thy ===== *)
theory FlatMapProps
  imports FlatMap
begin

text \<open>
  \<open>src/core/flat_map.hpp\<close>, continued: correctness of the operations of \<open>U64Map\<close> against a finite map,
  and the map interface (\<open>key_index\<close>) that the metadata tree relies on, interpreted on \<open>U64Map\<close>.
\<close>

section \<open>Growth, insertion, removal\<close>

lemma inv_pow2: "U64Map_inv m \<Longrightarrow> slots m \<noteq> [] \<Longrightarrow> \<exists>k. length (slots m) = 2 ^ k"
  by (auto simp: U64Map_inv_def table_ok_def pow2_len_def)

lemma grow_if_needed_ok:
  assumes inv: "U64Map_inv m"
  shows "U64Map_inv (grow_if_needed m) \<and> U64Map_abs (grow_if_needed m) = U64Map_abs m \<and>
    slots (grow_if_needed m) \<noteq> [] \<and>
    (mused (grow_if_needed m) + 1) * 4 \<le> length (slots (grow_if_needed m)) * 3"
proof (cases "slots m = []")
  case True
  then have z: "msize m = 0" using inv by (simp add: U64Map_inv_def)
  have "(16::nat) = 2 ^ 4" by simp
  from rehash_ok [OF inv this] z True show ?thesis
    by (auto simp: grow_if_needed_def simp flip: length_greater_0_conv)
next
  case False
  obtain k where k: "length (slots m) = 2 ^ k" using inv_pow2 [OF inv False] by blast
  have len: "16 \<le> length (slots m)" "mused m * 4 \<le> length (slots m) * 3"
    using inv False by (auto simp: U64Map_inv_def)
  have le: "msize m \<le> mused m" by (rule inv_live_le [OF inv])
  consider (keep) "(mused m + 1) * 4 \<le> length (slots m) * 3"
    | (double) "(mused m + 1) * 4 > length (slots m) * 3" "(msize m + 1) * 2 > length (slots m)"
    | (same) "(mused m + 1) * 4 > length (slots m) * 3" "(msize m + 1) * 2 \<le> length (slots m)"
    by linarith
  then show ?thesis
  proof cases
    case keep
    then show ?thesis using inv False by (simp add: grow_if_needed_def)
  next
    case double
    have "length (slots m) * 2 = 2 ^ Suc k" using k by simp
    from rehash_ok [OF inv this] len le have r: "U64Map_inv (rehash m (length (slots m) * 2))"
      "U64Map_abs (rehash m (length (slots m) * 2)) = U64Map_abs m"
      "length (slots (rehash m (length (slots m) * 2))) = length (slots m) * 2"
      "mused (rehash m (length (slots m) * 2)) = msize m" by auto
    then show ?thesis using double False len le by (auto simp: grow_if_needed_def simp flip: length_greater_0_conv)
  next
    case same
    from rehash_ok [OF inv k] len le have r: "U64Map_inv (rehash m (length (slots m)))"
      "U64Map_abs (rehash m (length (slots m))) = U64Map_abs m"
      "length (slots (rehash m (length (slots m)))) = length (slots m)"
      "mused (rehash m (length (slots m))) = msize m" by auto
    then show ?thesis using same False len by (auto simp: grow_if_needed_def simp flip: length_greater_0_conv)
  qed
qed

text \<open>What the insertion loop answers on a table with room, and the table it leaves behind.\<close>

lemma emplace_loop_abs:
  assumes tab: "table_ok ss" and emp: "\<exists>j < length ss. skey (ss ! j) = kEmpty" and key: "key_ok key"
  shows "(\<exists>i < length ss. live_slot (ss ! i) \<and> skey (ss ! i) = key \<and> slots_map ss key = Some (sval (ss ! i)) \<and>
      emplace_loop (length ss) ss key (home ss key) None = Some (Hit i)) \<or>
    (slots_map ss key = None \<and> (\<exists>d i t. d < length ss \<and> i = probe_at (length ss) (home ss key) d \<and>
      skey (ss ! i) = kEmpty \<and> (\<forall>e < d. used_slot (ss ! probe_at (length ss) (home ss key) e)) \<and>
      tomb_on_path ss (home ss key) 0 d t \<and>
      emplace_loop (length ss) ss key (home ss key) None = Some (Fresh i t)))"
proof -
  note p2 = table_pow2 [OF tab]
  obtain d where d: "d < length ss" "stops_at ss key (probe_at (length ss) (home ss key) d)"
    "\<And>e. e < d \<Longrightarrow> \<not> stops_at ss key (probe_at (length ss) (home ss key) e)"
    using first_stop [OF tab emp] by blast
  let ?i = "probe_at (length ss) (home ss key) d"
  have i: "?i < length ss" using probe_at_less pow2_len_pos [OF p2] by blast
  obtain t where run: "emplace_loop (length ss) ss key (home ss key) None =
      Some (if skey (ss ! ?i) = key then Hit ?i else Fresh ?i t)"
    and t: "t = None \<or> tomb_on_path ss (home ss key) 0 d t"
    using emplace_loop_stop [OF p2 key, where c = 0 and d = d and h = "home ss key" and fuel = "length ss"
        and tomb = None] d home_probe [OF p2]
    by (metis add_0)
  note fl = find_loop_abs [OF tab emp key]
  have frun: "find_loop (length ss) ss key (home ss key) = Some (if skey (ss ! ?i) = key then Some ?i else None)"
    using find_loop_stop [OF p2, where c = 0 and d = d and key = key and h = "home ss key" and fuel = "length ss"]
      d home_probe [OF p2] by simp
  show ?thesis
  proof (cases "skey (ss ! ?i) = key")
    case True
    then show ?thesis using fl frun run by auto
  next
    case False
    then have none: "slots_map ss key = None" using fl frun by auto
    have "tomb_on_path ss (home ss key) 0 d t" using t by (auto simp: tomb_on_path_def)
    moreover have "skey (ss ! ?i) = kEmpty" using False d(2) by simp
    moreover have "\<forall>e < d. used_slot (ss ! probe_at (length ss) (home ss key) e)"
      using d(3) by (simp add: used_slot_def)
    moreover have "emplace_loop (length ss) ss key (home ss key) None = Some (Fresh ?i t)"
      using run False by simp
    ultimately show ?thesis using none d(1) by blast
  qed
qed

lemma inv_replace_table:
  assumes "U64Map_inv m" and "length ts = length (slots m)" and "slots m \<noteq> []" and "table_ok ts"
    and "sz = length (filter live_slot ts)" and "us = length (filter used_slot ts)"
    and "us * 4 \<le> length (slots m) * 3"
  shows "U64Map_inv (m\<lparr>slots := ts, msize := sz, mused := us\<rparr>)"
  using assms by (auto simp: U64Map_inv_def)

lemma emplace_fresh_ok:
  fixes v :: u32
  assumes inv: "U64Map_inv m" and ne: "slots m \<noteq> []" and key: "key_ok key"
    and room: "(mused m + 1) * 4 \<le> length (slots m) * 3"
    and none: "slots_map (slots m) key = None"
    and d: "d < length (slots m)" "i = probe_at (length (slots m)) (home (slots m) key) d"
    and emp: "skey (slots m ! i) = kEmpty"
    and path: "\<forall>e < d. used_slot (slots m ! probe_at (length (slots m)) (home (slots m) key) e)"
    and t: "tomb_on_path (slots m) (home (slots m) key) 0 d t"
  defines "dst \<equiv> (case t of Some t \<Rightarrow> t | None \<Rightarrow> i)"
  defines "m' \<equiv> m\<lparr>slots := (slots m)[dst := \<lparr>skey = key, sval = v\<rparr>], msize := msize m + 1,
                   mused := (if t = None then mused m + 1 else mused m)\<rparr>"
  shows "U64Map_inv m'" and "U64Map_abs m' = (U64Map_abs m)(key \<mapsto> v)"
proof -
  let ?n = "length (slots m)" and ?h = "home (slots m) key"
  note tab = inv_table [OF inv ne]
  have counts: "msize m = length (filter live_slot (slots m))" "mused m = length (filter used_slot (slots m))"
    using inv ne by (auto simp: U64Map_inv_def)
  obtain c where c: "c \<le> d" "dst = probe_at ?n ?h c"
      "if t = None then skey (slots m ! dst) = kEmpty else skey (slots m ! dst) = kTombstone"
    using d t emp by (cases t) (auto simp: dst_def tomb_on_path_def intro: less_imp_le)
  have dst: "dst < ?n" using c(2) probe_at_less pow2_len_pos [OF table_pow2 [OF tab]] by simp
  have free: "\<not> live_slot (slots m ! dst)"
    using c(3) by (cases t) (auto simp: empty_not_live tombstone_not_live)
  note ts = table_set_fresh [OF tab key none _ c(2) _ free, of v]
  have ok1: "table_ok ((slots m)[dst := \<lparr>skey = key, sval = v\<rparr>])"
    and ok2: "slots_map ((slots m)[dst := \<lparr>skey = key, sval = v\<rparr>]) = (slots_map (slots m))(key \<mapsto> v)"
    using ts c(1) d(1) path by auto
  have live: "length (filter live_slot ((slots m)[dst := \<lparr>skey = key, sval = v\<rparr>])) = msize m + 1"
    unfolding counts using count_set_fresh [OF dst, of live_slot "\<lparr>skey = key, sval = v\<rparr>"] free key
    by (simp add: live_slot_key_ok)
  have used: "length (filter used_slot ((slots m)[dst := \<lparr>skey = key, sval = v\<rparr>])) =
      (if t = None then mused m + 1 else mused m)"
    using length_filter_update [OF dst, of used_slot "\<lparr>skey = key, sval = v\<rparr>"] c(3) key counts
    by (auto simp: used_slot_def key_ok_def split: if_splits)
  show "U64Map_inv m'"
    unfolding m'_def by (rule inv_replace_table [OF inv _ ne ok1]) (use live used room in auto)
  show "U64Map_abs m' = (U64Map_abs m)(key \<mapsto> v)"
    using ok2 by (simp add: m'_def U64Map_abs_slots)
qed

lemma emplace_ok:
  assumes inv: "U64Map_inv m" and key: "key_ok key" and run: "emplace m key v assign = (b, m')"
  shows "U64Map_inv m' \<and> (b \<longleftrightarrow> U64Map_abs m key = None) \<and>
    U64Map_abs m' = (if U64Map_abs m key = None \<or> assign then (U64Map_abs m)(key \<mapsto> v) else U64Map_abs m)"
proof -
  let ?g = "grow_if_needed m"
  from grow_if_needed_ok [OF inv] have g: "U64Map_inv ?g" "U64Map_abs ?g = U64Map_abs m" "slots ?g \<noteq> []"
    "(mused ?g + 1) * 4 \<le> length (slots ?g) * 3" by auto
  note tab = inv_table [OF g(1,3)]
  have abs: "slots_map (slots ?g) = U64Map_abs m" using g(2) by (simp add: U64Map_abs_slots)
  from emplace_loop_abs [OF tab inv_has_empty [OF g(1,3)] key]
  consider (hit) i where "i < length (slots ?g)" "live_slot (slots ?g ! i)" "skey (slots ?g ! i) = key"
      "slots_map (slots ?g) key = Some (sval (slots ?g ! i))"
      "emplace_loop (length (slots ?g)) (slots ?g) key (home (slots ?g) key) None = Some (Hit i)"
    | (fresh) d i t where "slots_map (slots ?g) key = None" "d < length (slots ?g)"
      "i = probe_at (length (slots ?g)) (home (slots ?g) key) d" "skey (slots ?g ! i) = kEmpty"
      "\<forall>e < d. used_slot (slots ?g ! probe_at (length (slots ?g)) (home (slots ?g) key) e)"
      "tomb_on_path (slots ?g) (home (slots ?g) key) 0 d t"
      "emplace_loop (length (slots ?g)) (slots ?g) key (home (slots ?g) key) None = Some (Fresh i t)"
    by blast
  then show ?thesis
  proof cases
    case hit
    note sv = table_set_val [OF tab hit(1-3), of v]
    have "U64Map_inv (?g\<lparr>slots := (slots ?g)[i := (slots ?g ! i)\<lparr>sval := v\<rparr>]\<rparr>)"
      using inv_replace_table [OF g(1) _ g(3) sv(1), of "msize ?g" "mused ?g"] hit(1) g(1,3)
        length_filter_update [OF hit(1), of live_slot "(slots ?g ! i)\<lparr>sval := v\<rparr>"]
        length_filter_update [OF hit(1), of used_slot "(slots ?g ! i)\<lparr>sval := v\<rparr>"]
      by (auto simp: U64Map_inv_def live_slot_def used_slot_def split: if_splits)
    then show ?thesis
      using run hit(4,5) g sv(2) abs by (auto simp: emplace_def Let_def U64Map_abs_slots split: if_splits)
  next
    case fresh
    note f = emplace_fresh_ok [OF g(1,3) key g(4) fresh(1-6), of v]
    show ?thesis using run f fresh(1,7) g(2) abs by (auto simp: emplace_def Let_def)
  qed
qed

lemma U64Map_erase_ok:
  assumes inv: "U64Map_inv m" and key: "key_ok key" and run: "U64Map_erase m key = (b, m')"
  shows "U64Map_inv m' \<and> (b \<longleftrightarrow> U64Map_abs m key \<noteq> None) \<and> U64Map_abs m' = (U64Map_abs m)(key := None)"
proof (cases "slots m = []")
  case True
  then show ?thesis using run inv by (auto simp: U64Map_erase_def U64Map_abs_slots slots_map_def fun_eq_iff)
next
  case False
  note tab = inv_table [OF inv False]
  from find_loop_abs [OF tab inv_has_empty [OF inv False] key] show ?thesis
  proof (elim disjE exE conjE)
    assume "slots_map (slots m) key = None"
      and "find_loop (length (slots m)) (slots m) key (home (slots m) key) = Some None"
    then show ?thesis using run inv False by (auto simp: U64Map_erase_def U64Map_abs_slots fun_eq_iff)
  next
    fix i
    let ?s = "(slots m ! i)\<lparr>skey := kTombstone\<rparr>"
    assume i: "i < length (slots m)" "live_slot (slots m ! i)" "skey (slots m ! i) = key"
      and some: "slots_map (slots m) key = Some (sval (slots m ! i))"
      and loop: "find_loop (length (slots m)) (slots m) key (home (slots m) key) = Some (Some i)"
    note st = table_set_tomb [OF tab i]
    have m': "m' = m\<lparr>slots := (slots m)[i := ?s], msize := msize m - 1\<rparr>" "b"
      using run loop False by (auto simp: U64Map_erase_def)
    have "length (filter live_slot ((slots m)[i := ?s])) = msize m - 1"
      "length (filter used_slot ((slots m)[i := ?s])) = mused m"
      using length_filter_update [OF i(1), of live_slot ?s] length_filter_update [OF i(1), of used_slot ?s]
        i inv False by (auto simp: U64Map_inv_def live_slot_def used_slot_def)
    then have "U64Map_inv m'"
      using inv_replace_table [OF inv _ False st(1), of "msize m - 1" "mused m"] m' inv False
      by (simp add: U64Map_inv_def)
    then show ?thesis using m' st(2) some by (simp add: U64Map_abs_slots)
  qed
qed

lemma reserve_cap_props:
  "0 < cap \<Longrightarrow> \<exists>j. reserve_cap cap n = cap * 2 ^ j \<and> n * 4 \<le> reserve_cap cap n * 3"
proof (induction cap n rule: reserve_cap.induct)
  case (1 cap n)
  show ?case
  proof (cases "cap * 3 < n * 4")
    case True
    with 1 obtain j where "reserve_cap (cap * 2) n = cap * 2 * 2 ^ j \<and> n * 4 \<le> reserve_cap (cap * 2) n * 3"
      by auto
    then show ?thesis using True 1(2) reserve_cap.simps [of cap n] by (intro exI [of _ "Suc j"]) simp
  next
    case False
    then show ?thesis using reserve_cap.simps [of cap n] by (intro exI [of _ 0]) simp
  qed
qed

lemma reserve_ok:
  assumes inv: "U64Map_inv m"
  shows "U64Map_inv (reserve m n) \<and> U64Map_abs (reserve m n) = U64Map_abs m \<and> n * 4 \<le> length (slots (reserve m n)) * 3"
proof -
  let ?cap = "reserve_cap 16 n"
  obtain j where j: "?cap = 16 * 2 ^ j" "n * 4 \<le> ?cap * 3" using reserve_cap_props [of 16 n] by auto
  then have p2: "?cap = 2 ^ (4 + j)" and ge: "16 \<le> ?cap" by (simp_all add: power_add)
  show ?thesis
  proof (cases "?cap > length (slots m)")
    case True
    have "msize m * 4 \<le> ?cap * 3"
      using True inv inv_live_le [OF inv] by (cases "slots m = []") (auto simp: U64Map_inv_def)
    from rehash_ok [OF inv p2 ge this] show ?thesis using True j(2) by (simp add: reserve_def Let_def)
  next
    case False
    then show ?thesis using inv j(2) by (simp add: reserve_def Let_def)
  qed
qed

lemma U64Map_clear_ok:
  assumes "U64Map_inv m"
  shows "U64Map_inv (U64Map_clear m) \<and> U64Map_abs (U64Map_clear m) = Map.empty"
proof -
  have eq: "map (\<lambda>_. Slot_init) (slots m) = replicate (length (slots m)) Slot_init"
    by (simp add: map_replicate_const)
  show ?thesis
  proof (cases "slots m = []")
    case True
    then show ?thesis by (simp add: U64Map_clear_def U64Map_inv_def U64Map_abs_def for_each_def)
  next
    case False
    then obtain k where "length (slots m) = 2 ^ k" using inv_pow2 assms by blast
    then show ?thesis using assms False table_ok_replicate [of k] unfolding U64Map_clear_def eq
      by (auto simp: U64Map_inv_def U64Map_abs_def for_each_def)
  qed
qed

lemma U64Map_init_ok: "U64Map_inv U64Map_init \<and> U64Map_abs U64Map_init = Map.empty"
  by (simp add: U64Map_init_def U64Map_inv_def U64Map_abs_def for_each_def)

section \<open>The map interface\<close>

text \<open>
  What a client may rely on: a key space, an invariant, a finite map, and the laws of the calls.
\<close>

locale key_index =
  fixes inv :: "'m \<Rightarrow> bool"
    and abs :: "'m \<Rightarrow> 'k \<Rightarrow> 'v option"
    and valid_key :: "'k \<Rightarrow> bool"
    and empty :: 'm
    and lookup :: "'m \<Rightarrow> 'k \<Rightarrow> 'v option"
    and add :: "'m \<Rightarrow> 'k \<Rightarrow> 'v \<Rightarrow> bool \<times> 'm"
    and assign :: "'m \<Rightarrow> 'k \<Rightarrow> 'v \<Rightarrow> bool \<times> 'm"
    and del :: "'m \<Rightarrow> 'k \<Rightarrow> bool \<times> 'm"
    and clear :: "'m \<Rightarrow> 'm"
  assumes empty_ok: "inv empty \<and> abs empty = Map.empty"
    and lookup_ok: "inv m \<Longrightarrow> valid_key k \<Longrightarrow> lookup m k = abs m k"
    and add_ok: "inv m \<Longrightarrow> valid_key k \<Longrightarrow> add m k v = (b, m') \<Longrightarrow>
      inv m' \<and> (b \<longleftrightarrow> abs m k = None) \<and> abs m' = (if abs m k = None then (abs m)(k \<mapsto> v) else abs m)"
    and assign_ok: "inv m \<Longrightarrow> valid_key k \<Longrightarrow> assign m k v = (b, m') \<Longrightarrow>
      inv m' \<and> (b \<longleftrightarrow> abs m k = None) \<and> abs m' = (abs m)(k \<mapsto> v)"
    and del_ok: "inv m \<Longrightarrow> valid_key k \<Longrightarrow> del m k = (b, m') \<Longrightarrow>
      inv m' \<and> (b \<longleftrightarrow> abs m k \<noteq> None) \<and> abs m' = (abs m)(k := None)"
    and clear_ok: "inv m \<Longrightarrow> inv (clear m) \<and> abs (clear m) = Map.empty"
begin

lemma inv_add: "inv m \<Longrightarrow> valid_key k \<Longrightarrow> inv (snd (add m k v))"
  using add_ok [of m k v] by (cases "add m k v") auto

lemma abs_add_fresh: "inv m \<Longrightarrow> valid_key k \<Longrightarrow> abs m k = None \<Longrightarrow> abs (snd (add m k v)) = (abs m)(k \<mapsto> v)"
  using add_ok [of m k v] by (cases "add m k v") auto

lemma abs_add: "inv m \<Longrightarrow> valid_key k \<Longrightarrow>
    abs (snd (add m k v)) = (if abs m k = None then (abs m)(k \<mapsto> v) else abs m)"
  using add_ok [of m k v] by (cases "add m k v") auto

lemma inv_assign: "inv m \<Longrightarrow> valid_key k \<Longrightarrow> inv (snd (assign m k v))"
  using assign_ok [of m k v] by (cases "assign m k v") auto

lemma abs_assign: "inv m \<Longrightarrow> valid_key k \<Longrightarrow> abs (snd (assign m k v)) = (abs m)(k \<mapsto> v)"
  using assign_ok [of m k v] by (cases "assign m k v") auto

lemma inv_del: "inv m \<Longrightarrow> valid_key k \<Longrightarrow> inv (snd (del m k))"
  using del_ok [of m k] by (cases "del m k") auto

lemma abs_del: "inv m \<Longrightarrow> valid_key k \<Longrightarrow> abs (snd (del m k)) = (abs m)(k := None)"
  using del_ok [of m k] by (cases "del m k") auto

lemma lookup_assign:
  assumes "inv m" "valid_key k" "valid_key j"
  shows "lookup (snd (assign m k v)) j = (if j = k then Some v else lookup m j)"
  using assms by (simp add: lookup_ok inv_assign abs_assign)

lemma lookup_add:
  assumes "inv m" "valid_key k" "valid_key j"
  shows "lookup (snd (add m k v)) j = (if j = k \<and> lookup m k = None then Some v else lookup m j)"
  using assms by (simp add: lookup_ok inv_add abs_add)

lemma lookup_del:
  assumes "inv m" "valid_key k" "valid_key j"
  shows "lookup (snd (del m k)) j = (if j = k then None else lookup m j)"
  using assms by (simp add: lookup_ok inv_del abs_del)

end

interpretation idx: key_index U64Map_inv U64Map_abs key_ok U64Map_init U64Map_find
  insert_if_absent insert_or_assign U64Map_erase U64Map_clear
proof unfold_locales
  show "U64Map_inv m' \<and> (b \<longleftrightarrow> U64Map_abs m k = None) \<and>
      U64Map_abs m' = (if U64Map_abs m k = None then (U64Map_abs m)(k \<mapsto> v) else U64Map_abs m)"
    if "U64Map_inv m" "key_ok k" "insert_if_absent m k v = (b, m')" for m k v b m'
    using emplace_ok [of m k v False b m'] that by (simp add: insert_if_absent_def)
  show "U64Map_inv m' \<and> (b \<longleftrightarrow> U64Map_abs m k = None) \<and> U64Map_abs m' = (U64Map_abs m)(k \<mapsto> v)"
    if "U64Map_inv m" "key_ok k" "insert_or_assign m k v = (b, m')" for m k v b m'
    using emplace_ok [of m k v True b m'] that by (simp add: insert_or_assign_def)
qed (use U64Map_init_ok U64Map_find_abs U64Map_erase_ok U64Map_clear_ok in blast)+

section \<open>The map simulates a finite map\<close>

datatype map_op = Find u64 | Assign u64 u32 | Add u64 u32 | Erase u64 | Reserve nat | Clear

datatype map_out = Found "u32 option" | Changed bool | Done

fun U64Map_step :: "U64Map \<Rightarrow> map_op \<Rightarrow> map_out \<times> U64Map" where
  "U64Map_step m (Find k) = (Found (U64Map_find m k), m)"
| "U64Map_step m (Assign k v) = (let (b, m') = insert_or_assign m k v in (Changed b, m'))"
| "U64Map_step m (Add k v) = (let (b, m') = insert_if_absent m k v in (Changed b, m'))"
| "U64Map_step m (Erase k) = (let (b, m') = U64Map_erase m k in (Changed b, m'))"
| "U64Map_step m (Reserve n) = (Done, reserve m n)"
| "U64Map_step m Clear = (Done, U64Map_clear m)"

fun finmap_step :: "(u64 \<Rightarrow> u32 option) \<Rightarrow> map_op \<Rightarrow> map_out \<times> (u64 \<Rightarrow> u32 option)" where
  "finmap_step f (Find k) = (Found (f k), f)"
| "finmap_step f (Assign k v) = (Changed (f k = None), f(k \<mapsto> v))"
| "finmap_step f (Add k v) = (Changed (f k = None), if f k = None then f(k \<mapsto> v) else f)"
| "finmap_step f (Erase k) = (Changed (f k \<noteq> None), f(k := None))"
| "finmap_step f (Reserve n) = (Done, f)"
| "finmap_step f Clear = (Done, Map.empty)"

fun op_key_ok :: "map_op \<Rightarrow> bool" where
  "op_key_ok (Find k) = key_ok k"
| "op_key_ok (Assign k v) = key_ok k"
| "op_key_ok (Add k v) = key_ok k"
| "op_key_ok (Erase k) = key_ok k"
| "op_key_ok _ = True"

lemma U64Map_step_refines:
  assumes "U64Map_inv m" and "op_key_ok x"
  shows "U64Map_inv (snd (U64Map_step m x)) \<and>
    finmap_step (U64Map_abs m) x = (fst (U64Map_step m x), U64Map_abs (snd (U64Map_step m x)))"
proof (cases x)
  case (Assign k v)
  then show ?thesis using assms idx.assign_ok [of m k v]
    by (cases "insert_or_assign m k v") simp
next
  case (Add k v)
  then show ?thesis using assms idx.add_ok [of m k v]
    by (cases "insert_if_absent m k v") simp
next
  case (Erase k)
  then show ?thesis using assms idx.del_ok [of m k]
    by (cases "U64Map_erase m k") simp
qed (use assms in \<open>simp_all add: idx.lookup_ok reserve_ok idx.clear_ok\<close>)

interpretation map_sim: op_simulation U64Map_inv U64Map_abs op_key_ok U64Map_step finmap_step
  by unfold_locales (simp_all add: U64Map_step_refines)

text \<open>
  C35. Any sequence of finds, assignments, insertions, erasures, reservations and clears on
  \<open>U64Map\<close>, starting from the empty map and using keys other than the two sentinels, gives exactly
  the answers a finite map gives, and ends in a state that represents the same finite map: growth,
  rehashing, tombstone reuse and linear probing are invisible.
\<close>

theorem U64Map_simulates:
  assumes "list_all op_key_ok xs"
  shows "run_ops finmap_step Map.empty xs =
    (fst (run_ops U64Map_step U64Map_init xs), U64Map_abs (snd (run_ops U64Map_step U64Map_init xs)))"
  using map_sim.run_sim [OF _ assms, of U64Map_init] idx.empty_ok by simp

theorem U64Map_simulates_witness:
  "list_all op_key_ok [Add 7 1, Find 7, Erase 7, Find 7] \<and>
   fst (run_ops U64Map_step U64Map_init [Add 7 1, Find 7, Erase 7, Find 7]) =
     [Changed True, Found (Some 1), Changed True, Found None]"
proof -
  have ok: "list_all op_key_ok [Add 7 1, Find 7, Erase 7, Find 7]"
    by (simp add: key_ok_def kEmpty_def kTombstone_def)
  show ?thesis using ok U64Map_simulates [OF ok] by simp
qed

text \<open>
  Invariant: after any sequence of calls with valid keys the table is empty or has a
  power-of-two number of slots, at least 16, its counters are exact (\<open>size\<close> counts the live slots,
  \<open>used\<close> the live slots and tombstones), at least a quarter of its slots are empty, every live key
  is stored once, and every live key is reachable from its home slot without crossing an empty slot.
\<close>

theorem U64Map_keeps_invariant:
  assumes "list_all op_key_ok xs"
  shows "U64Map_inv (snd (run_ops U64Map_step U64Map_init xs))"
  using map_sim.run_inv [OF _ assms, of U64Map_init] idx.empty_ok by simp

theorem U64Map_keeps_invariant_witness:
  "U64Map_inv (snd (run_ops U64Map_step U64Map_init [Add 7 1, Assign 9 2, Erase 7]))"
  by (rule U64Map_keeps_invariant) (simp add: key_ok_def kEmpty_def kTombstone_def)

text \<open>
  Termination of the probe loops, which the source leaves unbounded: on every table the map
  can be in, the search loop of \<open>find\<close> and \<open>erase\<close> and, after \<open>grow_if_needed\<close>, the insertion loop
  stop after at most one visit to each slot.
\<close>

theorem U64Map_probes_terminate:
  assumes "U64Map_inv m" and "key_ok key"
  shows "(slots m \<noteq> [] \<longrightarrow> find_loop (length (slots m)) (slots m) key (home (slots m) key) \<noteq> None) \<and>
    (let ss = slots (grow_if_needed m) in emplace_loop (length ss) ss key (home ss key) None \<noteq> None)"
proof -
  from grow_if_needed_ok [OF assms(1)] have g: "U64Map_inv (grow_if_needed m)" "slots (grow_if_needed m) \<noteq> []"
    by auto
  have "find_loop (length (slots m)) (slots m) key (home (slots m) key) \<noteq> None" if "slots m \<noteq> []"
    using find_loop_abs [OF inv_table [OF assms(1) that] inv_has_empty [OF assms(1) that] assms(2)] by auto
  moreover have "(let ss = slots (grow_if_needed m) in emplace_loop (length ss) ss key (home ss key) None \<noteq> None)"
    using emplace_loop_abs [OF inv_table [OF g] inv_has_empty [OF g] assms(2)] by (auto simp: Let_def)
  ultimately show ?thesis by blast
qed

theorem U64Map_probes_terminate_witness:
  "U64Map_inv U64Map_init \<and> (let ss = slots (grow_if_needed U64Map_init)
     in emplace_loop (length ss) ss 5 (home ss 5) None \<noteq> None)"
  using U64Map_probes_terminate [of U64Map_init 5] idx.empty_ok
  by (simp add: key_ok_def kEmpty_def kTombstone_def)

end
