(* ===== verification/StringPool.thy ===== *)
theory StringPool
  imports HashUtil
begin

text \<open>
  \<open>src/core/string_pool.cpp\<close>, \<open>string_pool.hpp\<close>: the append-only string interner.  Its memory is modelled
  as the source allocates it: a vector of 1 MiB chunks filled from the front, a vector of dedicated
  allocations for large strings, and entries that hold a pointer and a 32-bit length into them.
  Pointers are tagged: the static empty string, an offset in a chunk, or a dedicated allocation.
  The library's hash index is a finite map from the interned string to its id.
\<close>

section \<open>The pool\<close>

definition kChunkSize :: nat where
  "kChunkSize = 2 ^ 20"

datatype ptr = EmptyPtr | ChunkPtr nat nat | LargePtr nat

record Entry =
  data :: ptr
  len :: u32

record StringPool =
  entries :: "Entry list"
  chunks :: "bytes list"
  large :: "bytes list"
  chunk_used :: nat
  chunk_cap :: nat
  pbytes :: nat
  index :: "bytes \<Rightarrow> NameId option"

definition StringPool_init :: StringPool where
  "StringPool_init = \<lparr>entries = [], chunks = [], large = [], chunk_used = 0, chunk_cap = 0, pbytes = 0,
     index = Map.empty\<rparr>"

text \<open>\<open>memcpy\<close> into a chunk, and reading \<open>n\<close> bytes behind a pointer.\<close>

definition blit :: "bytes \<Rightarrow> nat \<Rightarrow> bytes \<Rightarrow> bytes" where
  "blit mem off s = take off mem @ s @ drop (off + length s) mem"

fun mem_at :: "StringPool \<Rightarrow> ptr \<Rightarrow> nat \<Rightarrow> bytes" where
  "mem_at p EmptyPtr n = []"
| "mem_at p (ChunkPtr c off) n = substr (chunks p ! c) off n"
| "mem_at p (LargePtr l) n = take n (large p ! l)"

definition store :: "StringPool \<Rightarrow> bytes \<Rightarrow> ptr \<times> StringPool" where
  "store p s =
    (if s = [] then (EmptyPtr, p)
     else if length s > kChunkSize div 4 then (LargePtr (length (large p)), p\<lparr>large := large p @ [s]\<rparr>)
     else
       let p1 = (if chunk_used p + length s > chunk_cap p
                 then p\<lparr>chunks := chunks p @ [replicate kChunkSize 0], chunk_used := 0, chunk_cap := kChunkSize\<rparr>
                 else p);
           c = length (chunks p1) - 1
       in (ChunkPtr c (chunk_used p1),
           p1\<lparr>chunks := (chunks p1)[c := blit (chunks p1 ! c) (chunk_used p1) s],
              chunk_used := chunk_used p1 + length s\<rparr>))"

definition intern :: "StringPool \<Rightarrow> bytes \<Rightarrow> NameId \<times> StringPool" where
  "intern p s =
    (case index p s of
       Some nid \<Rightarrow> (nid, p)
     | None \<Rightarrow>
         let (d, p1) = store p s;
             nid = of_nat (length (entries p1))
         in (nid, p1\<lparr>entries := entries p1 @ [\<lparr>data = d, len = of_nat (length s)\<rparr>],
                    index := (index p1)(s \<mapsto> nid),
                    pbytes := pbytes p1 + length s\<rparr>))"

definition StringPool_find :: "StringPool \<Rightarrow> bytes \<Rightarrow> NameId option" where
  "StringPool_find p s = index p s"

definition view :: "StringPool \<Rightarrow> NameId \<Rightarrow> bytes" where
  "view p nid = (let e = entries p ! unat nid in mem_at p (data e) (unat (len e)))"

definition StringPool_size :: "StringPool \<Rightarrow> nat" where
  "StringPool_size p = length (entries p)"

definition StringPool_clear :: "StringPool \<Rightarrow> StringPool" where
  "StringPool_clear p = \<lparr>entries = [], chunks = [], large = [], chunk_used = 0, chunk_cap = 0, pbytes = 0,
     index = Map.empty\<rparr>"

section \<open>Invariant\<close>

text \<open>
  The abstract pool is the list of interned strings, id \<open>i\<close> naming the \<open>i\<close>-th.  The representation is
  right for a list \<open>ss\<close> when every entry's bytes are the string, stored below the fill mark of the
  last chunk, and the index maps exactly the strings of \<open>ss\<close> to their positions.
\<close>

definition stored :: "StringPool \<Rightarrow> Entry \<Rightarrow> bytes \<Rightarrow> bool" where
  "stored p e s \<longleftrightarrow> unat (len e) = length s \<and>
    (case data e of
       EmptyPtr \<Rightarrow> s = []
     | ChunkPtr c off \<Rightarrow> c < length (chunks p) \<and> off + length s \<le> kChunkSize \<and>
         (Suc c = length (chunks p) \<longrightarrow> off + length s \<le> chunk_used p) \<and> substr (chunks p ! c) off (length s) = s
     | LargePtr l \<Rightarrow> l < length (large p) \<and> take (length s) (large p ! l) = s)"

definition arena_ok :: "StringPool \<Rightarrow> bool" where
  "arena_ok p \<longleftrightarrow> list_all (\<lambda>c. length c = kChunkSize) (chunks p) \<and> chunk_used p \<le> chunk_cap p \<and>
    chunk_cap p = (if chunks p = [] then 0 else kChunkSize)"

definition pool_rep :: "StringPool \<Rightarrow> bytes list \<Rightarrow> bool" where
  "pool_rep p ss \<longleftrightarrow> arena_ok p \<and> distinct ss \<and> length ss < 2 ^ 32 \<and> length (entries p) = length ss \<and>
    list_all2 (stored p) (entries p) ss \<and>
    (\<forall>s i. index p s = Some i \<longleftrightarrow> unat i < length ss \<and> ss ! unat i = s) \<and>
    pbytes p = sum_list (map length ss)"

lemma length_blit [simp]: "off + length s \<le> length mem \<Longrightarrow> length (blit mem off s) = length mem"
  by (simp add: blit_def)

lemma substr_blit_same: "off + length s \<le> length mem \<Longrightarrow> substr (blit mem off s) off (length s) = s"
  by (simp add: blit_def substr_def)

lemma substr_blit_before:
  assumes "o2 + n \<le> off" and "off + length s \<le> length mem"
  shows "substr (blit mem off s) o2 n = substr mem o2 n"
proof -
  have "take n (drop o2 (take off mem)) = take n (drop o2 mem)"
    using assms(1) by (simp add: take_drop min_def)
  then show ?thesis using assms by (simp add: blit_def substr_def)
qed

lemma store_ok:
  assumes arena: "arena_ok p" and run: "store p s = (d, p')" and small: "length s < 2 ^ 32"
  shows "arena_ok p'" and "stored p' \<lparr>data = d, len = of_nat (length s)\<rparr> s"
    and "stored p e t \<Longrightarrow> stored p' e t"
    and "entries p' = entries p" and "index p' = index p" and "pbytes p' = pbytes p"
proof -
  have ln: "unat (of_nat (length s) :: u32) = length s" using small by (simp add: unat_of_nat_small)
  consider (empty) "s = []" | (big) "s \<noteq> []" "length s > kChunkSize div 4"
    | (fresh) "s \<noteq> []" "\<not> length s > kChunkSize div 4" "chunk_used p + length s > chunk_cap p"
    | (room) "s \<noteq> []" "\<not> length s > kChunkSize div 4" "\<not> chunk_used p + length s > chunk_cap p"
    by blast
  then have "arena_ok p' \<and> stored p' \<lparr>data = d, len = of_nat (length s)\<rparr> s \<and>
      (\<forall>e t. stored p e t \<longrightarrow> stored p' e t) \<and> entries p' = entries p \<and> index p' = index p \<and> pbytes p' = pbytes p"
  proof cases
    case empty
    then show ?thesis using run arena by (auto simp: store_def stored_def)
  next
    case big
    then have "d = LargePtr (length (large p))" "p' = p\<lparr>large := large p @ [s]\<rparr>"
      using run by (auto simp: store_def)
    then show ?thesis using arena ln
      by (auto simp: arena_ok_def stored_def nth_append split: ptr.splits)
  next
    case fresh
    let ?new = "replicate kChunkSize (0 :: u8)"
    have fit: "length s \<le> kChunkSize" using fresh(2) by simp
    have p': "d = ChunkPtr (length (chunks p)) 0"
      "p' = p\<lparr>chunks := chunks p @ [blit ?new 0 s], chunk_used := length s, chunk_cap := kChunkSize\<rparr>"
      using run fresh by (auto simp: store_def Let_def)
    have "substr (blit ?new 0 s) 0 (length s) = s" using substr_blit_same [of 0 s ?new] fit by simp
    then show ?thesis using arena ln fit p'
      by (auto simp: arena_ok_def stored_def nth_append list_all_iff split: ptr.splits)
  next
    case room
    have ne: "chunks p \<noteq> []" "chunk_used p + length s \<le> kChunkSize"
      using room arena by (auto simp: arena_ok_def split: if_splits)
    let ?c = "length (chunks p) - 1"
    let ?m = "chunks p ! ?c"
    have c: "?c < length (chunks p)" "Suc ?c = length (chunks p)" using ne by simp_all
    have m: "length ?m = kChunkSize" using arena c(1) by (simp add: arena_ok_def list_all_length)
    have p': "d = ChunkPtr ?c (chunk_used p)"
      "p' = p\<lparr>chunks := (chunks p)[?c := blit ?m (chunk_used p) s], chunk_used := chunk_used p + length s\<rparr>"
      using run room by (auto simp: store_def Let_def)
    have old: "stored p' e t" if "stored p e t" for e t
      using that p'(2) c m ne(2) substr_blit_before [of _ "length t" "chunk_used p" s ?m]
      by (auto simp: stored_def nth_list_update split: ptr.splits)
    have "arena_ok p'" using arena p'(2) ne m room(3) by (auto simp: arena_ok_def list_all_length nth_list_update)
    moreover have "stored p' \<lparr>data = d, len = of_nat (length s)\<rparr> s"
      using p' c m ne(2) ln substr_blit_same [of "chunk_used p" s ?m] by (simp add: stored_def)
    ultimately show ?thesis using old p' by simp
  qed
  then show "arena_ok p'" "stored p' \<lparr>data = d, len = of_nat (length s)\<rparr> s"
    "stored p e t \<Longrightarrow> stored p' e t" "entries p' = entries p" "index p' = index p" "pbytes p' = pbytes p" by auto
qed

lemma view_rep:
  assumes "pool_rep p ss" and "unat i < length ss"
  shows "view p i = ss ! unat i"
proof -
  have "stored p (entries p ! unat i) (ss ! unat i)"
    using assms by (simp add: pool_rep_def list_all2_conv_all_nth)
  then show ?thesis by (auto simp: view_def stored_def Let_def split: ptr.splits)
qed

lemma find_rep:
  "pool_rep p ss \<Longrightarrow> StringPool_find p s = Some i \<longleftrightarrow> unat i < length ss \<and> ss ! unat i = s"
  by (simp add: pool_rep_def StringPool_find_def)

lemma find_rep_None:
  assumes "pool_rep p ss"
  shows "StringPool_find p s = None \<longleftrightarrow> s \<notin> set ss"
proof -
  have "s \<in> set ss \<longleftrightarrow> (\<exists>i :: u32. unat i < length ss \<and> ss ! unat i = s)"
  proof
    assume "s \<in> set ss"
    then obtain k where "k < length ss" "ss ! k = s" by (auto simp: in_set_conv_nth)
    moreover have "k < 2 ^ 32" using calculation(1) assms by (simp add: pool_rep_def)
    ultimately show "\<exists>i :: u32. unat i < length ss \<and> ss ! unat i = s"
      by (intro exI [of _ "of_nat k"]) (simp add: unat_of_nat)
  qed auto
  then show ?thesis using find_rep [OF assms, of s] by (metis not_None_eq)
qed

lemma intern_known: "pool_rep p ss \<Longrightarrow> StringPool_find p s = Some i \<Longrightarrow> intern p s = (i, p)"
  by (simp add: intern_def StringPool_find_def)

lemma intern_new:
  assumes rep: "pool_rep p ss" and new: "s \<notin> set ss" and small: "length s < 2 ^ 32" "Suc (length ss) < 2 ^ 32"
    and run: "intern p s = (i, p')"
  shows "pool_rep p' (ss @ [s])" and "i = of_nat (length ss)"
proof -
  obtain d p1 where st: "store p s = (d, p1)" by fastforce
  have arena: "arena_ok p" using rep by (simp add: pool_rep_def)
  note so = store_ok [OF arena st small(1)]
  have none: "index p s = None" using find_rep_None [OF rep, of s] new by (simp add: StringPool_find_def)
  have len: "length (entries p) = length ss" using rep by (simp add: pool_rep_def)
  let ?id = "of_nat (length ss) :: u32"
  have u: "unat ?id = length ss" using small(2) by (simp add: unat_of_nat)
  have p': "i = ?id" "p' = p1\<lparr>entries := entries p @ [\<lparr>data = d, len = of_nat (length s)\<rparr>],
      index := (index p)(s \<mapsto> ?id), pbytes := pbytes p + length s\<rparr>"
    using run none st so(4-6) len by (auto simp: intern_def Let_def)
  have same: "stored p' = stored p1" using p'(2) by (auto simp: stored_def fun_eq_iff split: ptr.splits)
  have "list_all2 (stored p) (entries p) ss" using rep by (simp add: pool_rep_def)
  then have "list_all2 (stored p1) (entries p) ss" using so(3) list_all2_mono by blast
  then have "list_all2 (stored p') (entries p') (ss @ [s])"
    unfolding same using so(2) p'(2) by (simp add: list_all2_appendI)
  moreover have "index p' t = Some j \<longleftrightarrow> unat j < length (ss @ [s]) \<and> (ss @ [s]) ! unat j = t" for t j
  proof (cases "t = s")
    case True
    have "(?id = j) = (unat j = length ss)" using u unat_inj by metis
    then show ?thesis using True p'(2) new by (auto simp: nth_append less_Suc_eq)
  next
    case False
    then show ?thesis using p'(2) rep by (auto simp: pool_rep_def nth_append less_Suc_eq)
  qed
  moreover have "arena_ok p'" using so(1) p'(2) by (simp add: arena_ok_def)
  ultimately show "pool_rep p' (ss @ [s])" "i = of_nat (length ss)"
    using rep new small p' by (simp_all add: pool_rep_def)
qed

lemma StringPool_init_rep: "pool_rep StringPool_init []"
  by (simp add: pool_rep_def StringPool_init_def arena_ok_def)

lemma StringPool_clear_rep: "pool_rep (StringPool_clear p) []"
  by (simp add: pool_rep_def StringPool_clear_def arena_ok_def)

section \<open>The interner interface\<close>

text \<open>
  What the metadata tree relies on.  \<open>rep p ss\<close> says that the pool \<open>p\<close> holds exactly the strings \<open>ss\<close>, string
  number \<open>i\<close> under id \<open>i\<close>; the sizes are those a 32-bit id and a 32-bit length can express.
\<close>

definition interned :: "bytes list \<Rightarrow> bytes \<Rightarrow> bytes list" where
  "interned ss s = (if s \<in> set ss then ss else ss @ [s])"

locale interner =
  fixes rep :: "'p \<Rightarrow> bytes list \<Rightarrow> bool"
    and empty :: 'p
    and add :: "'p \<Rightarrow> bytes \<Rightarrow> u32 \<times> 'p"
    and search :: "'p \<Rightarrow> bytes \<Rightarrow> u32 option"
    and show_name :: "'p \<Rightarrow> u32 \<Rightarrow> bytes"
  assumes rep_empty: "rep empty []"
    and rep_distinct: "rep p ss \<Longrightarrow> distinct ss"
    and rep_search: "rep p ss \<Longrightarrow> search p s = Some i \<longleftrightarrow> unat i < length ss \<and> ss ! unat i = s"
    and rep_show: "rep p ss \<Longrightarrow> unat i < length ss \<Longrightarrow> show_name p i = ss ! unat i"
    and rep_add: "rep p ss \<Longrightarrow> length s < 2 ^ 32 \<Longrightarrow> Suc (length ss) < 2 ^ 32 \<Longrightarrow> add p s = (i, p') \<Longrightarrow>
      rep p' (interned ss s) \<and> unat i < length (interned ss s) \<and> interned ss s ! unat i = s"
begin

lemma show_add:
  assumes "rep p ss" "length s < 2 ^ 32" "Suc (length ss) < 2 ^ 32" "add p s = (i, p')"
  shows "show_name p' i = s"
  using rep_add [OF assms] rep_show by metis

lemma show_stable:
  assumes "rep p ss" "length s < 2 ^ 32" "Suc (length ss) < 2 ^ 32" "add p s = (i, p')" "unat j < length ss"
  shows "show_name p' j = show_name p j"
  using rep_add [OF assms(1-4)] rep_show assms(1,5) by (auto simp: interned_def nth_append split: if_splits)

lemma search_add:
  assumes "rep p ss" "length s < 2 ^ 32" "Suc (length ss) < 2 ^ 32" "add p s = (i, p')"
  shows "search p' s = Some i"
  using rep_add [OF assms] rep_search by metis

lemma search_show: "rep p ss \<Longrightarrow> search p s = Some i \<Longrightarrow> show_name p i = s"
  using rep_search rep_show by metis

lemma show_inject: "rep p ss \<Longrightarrow> unat i < length ss \<Longrightarrow> unat j < length ss \<Longrightarrow> show_name p i = show_name p j \<Longrightarrow> i = j"
  using rep_show rep_distinct nth_eq_iff_index_eq unat_inj by metis

end

interpretation pool: interner pool_rep StringPool_init intern StringPool_find view
proof unfold_locales
  show "pool_rep p' (interned ss s) \<and> unat i < length (interned ss s) \<and> interned ss s ! unat i = s"
    if h: "pool_rep p ss" "length s < 2 ^ 32" "Suc (length ss) < 2 ^ 32" "intern p s = (i, p')" for p ss s i p'
  proof (cases "s \<in> set ss")
    case True
    then obtain j where "StringPool_find p s = Some j" using find_rep_None [OF h(1), of s] by (meson not_None_eq)
    then show ?thesis using h True intern_known [OF h(1)] find_rep [OF h(1), of s]
      by (auto simp: interned_def)
  next
    case False
    then show ?thesis using intern_new [OF h(1) False h(2,3,4)] h(3)
      by (simp add: interned_def unat_of_nat)
  qed
qed (use StringPool_init_rep find_rep view_rep in \<open>auto simp: pool_rep_def\<close>)

section \<open>Properties\<close>

primrec intern_all :: "StringPool \<Rightarrow> bytes list \<Rightarrow> NameId list \<times> StringPool" where
  "intern_all p [] = ([], p)"
| "intern_all p (s # ss) = (let (i, p1) = intern p s; (is, p2) = intern_all p1 ss in (i # is, p2))"

lemma intern_all_rep:
  assumes "pool_rep p ss" and "list_all (\<lambda>s. length s < 2 ^ 32) xs" and "length ss + length xs < 2 ^ 32 - 1"
    and "intern_all p xs = (is, p')"
  shows "\<exists>ts. pool_rep p' (ss @ ts) \<and> set (ss @ ts) = set ss \<union> set xs \<and>
    list_all2 (\<lambda>i s. unat i < length (ss @ ts) \<and> (ss @ ts) ! unat i = s) is xs"
  using assms
proof (induction xs arbitrary: p ss "is")
  case Nil
  then show ?case by (auto intro: exI [of _ "[]"])
next
  case (Cons x xs)
  obtain i p1 js where r: "intern p x = (i, p1)" "intern_all p1 xs = (js, p')" "is = i # js"
    using Cons.prems(4) by (auto split: prod.splits)
  have a: "pool_rep p1 (interned ss x)" "unat i < length (interned ss x)" "interned ss x ! unat i = x"
    using pool.rep_add [OF Cons.prems(1) _ _ r(1)] Cons.prems(2,3) by simp_all
  obtain us where us: "interned ss x = ss @ us" by (cases "x \<in> set ss") (simp_all add: interned_def)
  have "length (interned ss x) + length xs < 2 ^ 32 - 1" using Cons.prems(3) by (auto simp: interned_def)
  from Cons.IH [OF a(1) _ this r(2)] Cons.prems(2) obtain ts where
    ts: "pool_rep p' (interned ss x @ ts)" "set (interned ss x @ ts) = set (interned ss x) \<union> set xs"
      "list_all2 (\<lambda>i s. unat i < length (interned ss x @ ts) \<and> (interned ss x @ ts) ! unat i = s) js xs"
    by auto
  have "set (interned ss x) = set ss \<union> {x}" by (auto simp: interned_def)
  moreover have "(interned ss x @ ts) ! unat i = x" "unat i < length (interned ss x @ ts)"
    using a(2,3) by (simp_all add: nth_append)
  ultimately show ?case using ts us r(3) by (intro exI [of _ "us @ ts"]) auto
qed

text \<open>
  Interning is sound and stable: after any sequence of interns into an empty pool, every id that
  was handed out still shows the string it was handed out for (whichever chunk or allocation holds it,
  however many chunks were added later), two ids are equal exactly when their strings are, and
  \<open>find\<close> succeeds exactly on the strings interned so far, with their ids.
\<close>

theorem interning_is_stable:
  assumes "list_all (\<lambda>s. length s < 2 ^ 32) xs" and "length xs < 2 ^ 32 - 1"
    and "intern_all StringPool_init xs = (is, p)"
  shows "map (view p) is = xs \<and>
    (\<forall>a < length xs. \<forall>b < length xs. is ! a = is ! b \<longleftrightarrow> xs ! a = xs ! b) \<and>
    (\<forall>s. StringPool_find p s \<noteq> None \<longleftrightarrow> s \<in> set xs)"
proof -
  obtain ts where ts: "pool_rep p ts" "set ts = set xs"
    "list_all2 (\<lambda>i s. unat i < length ts \<and> ts ! unat i = s) is xs"
    using intern_all_rep [OF pool.rep_empty assms(1) _ assms(3)] assms(2) by auto
  have len: "length is = length xs" using ts(3) by (rule list_all2_lengthD)
  have v: "unat (is ! a) < length ts" "view p (is ! a) = xs ! a" if "a < length xs" for a
    using ts(3) that len pool.rep_show [OF ts(1)] by (auto simp: list_all2_conv_all_nth)
  have "map (view p) is = xs" using len v by (intro nth_equalityI) simp_all
  moreover have "is ! a = is ! b \<longleftrightarrow> xs ! a = xs ! b" if "a < length xs" "b < length xs" for a b
    using v [OF that(1)] v [OF that(2)] pool.show_inject [OF ts(1)] by metis
  moreover have "StringPool_find p s \<noteq> None \<longleftrightarrow> s \<in> set xs" for s
    using find_rep_None [OF ts(1), of s] ts(2) by simp
  ultimately show ?thesis by blast
qed

theorem interning_is_stable_witness:
  "let (is, p) = intern_all StringPool_init [[1], [2], [1]] in
     map (view p) is = [[1], [2], [1]] \<and> StringPool_find p [3] = None"
proof -
  obtain "is" p where r: "intern_all StringPool_init [[1], [2], [1]] = (is, p)"
    by (rule prod.exhaust)
  have "map (view p) is = [[1], [2], [1]] \<and>
    (\<forall>a < length [[1 :: u8], [2], [1]]. \<forall>b < length [[1 :: u8], [2], [1]].
      is ! a = is ! b \<longleftrightarrow> [[1 :: u8], [2], [1]] ! a = [[1], [2], [1]] ! b) \<and>
    (\<forall>s. StringPool_find p s \<noteq> None \<longleftrightarrow> s \<in> set [[1], [2], [1]])"
    by (rule interning_is_stable [OF _ _ r]) simp_all
  then have "map (view p) is = [[1], [2], [1]]" "\<And>s. StringPool_find p s \<noteq> None \<longleftrightarrow> s \<in> set [[1], [2], [1]]"
    by blast+
  from this(1) this(2) [of "[3]"] show ?thesis unfolding r by simp
qed

end
