(* ===== verification/Path.thy ===== *)
theory Path
  imports Types
begin

text \<open>
  \<open>src/core/path.cpp\<close>, \<open>path.hpp\<close>: normalisation of relative paths, splitting off the last component,
  and the "is under" test.  The index pair \<open>i\<close>, \<open>j\<close> of the source is the remaining suffix of the
  input.  The specification is by components: \<open>components p\<close> are the fields of \<open>p\<close> between separators that
  are neither empty nor a single dot, and a normalised path is its components joined by slashes.
\<close>

section \<open>The functions of the source\<close>

abbreviation dot :: u8 where "dot \<equiv> 0x2E"

definition is_path_separator :: "u8 \<Rightarrow> bool" where
  "is_path_separator c \<longleftrightarrow> c = slash \<or> c = backslash"

function normalize_loop :: "nat \<Rightarrow> bytes \<Rightarrow> bytes \<Rightarrow> bytes" where
  "normalize_loop start rest out =
    (if rest = [] then out
     else
       let from_i = dropWhile is_path_separator rest;
           comp = takeWhile (\<lambda>c. \<not> is_path_separator c) from_i;
           from_j = dropWhile (\<lambda>c. \<not> is_path_separator c) from_i
       in if comp = [] \<or> comp = [dot] then normalize_loop start from_j out
          else normalize_loop start from_j
            ((if length out > start then out @ [slash] else out) @ comp))"
  by pat_completeness auto
termination
proof (relation "measure (\<lambda>(start, rest, out). length rest)", goal_cases)
  case 1
  then show ?case by simp
next
  case (2 start rest out x xa xb)
  then show ?case
    using length_dropWhile_le [of is_path_separator rest]
    by (cases rest) (auto intro!: le_imp_less_Suc le_trans [OF length_dropWhile_le])
next
  case (3 start rest out x xa xb)
  then show ?case
    using length_dropWhile_le [of is_path_separator rest]
    by (cases rest) (auto intro!: le_imp_less_Suc le_trans [OF length_dropWhile_le])
qed

declare normalize_loop.simps [simp del]

definition normalize_path_append :: "bytes \<Rightarrow> bytes \<Rightarrow> bytes" where
  "normalize_path_append p out = normalize_loop (length out) p out"

definition normalize_path :: "bytes \<Rightarrow> bytes" where
  "normalize_path p = normalize_path_append p []"

text \<open>\<open>path.rfind('/')\<close>: the position of the last slash.\<close>

fun rfind_slash :: "bytes \<Rightarrow> nat option" where
  "rfind_slash [] = None"
| "rfind_slash (c # cs) = (case rfind_slash cs of Some i \<Rightarrow> Some (Suc i)
     | None \<Rightarrow> if c = slash then Some 0 else None)"

definition split_parent :: "bytes \<Rightarrow> bytes \<times> bytes" where
  "split_parent path = (case rfind_slash path of
     None \<Rightarrow> ([], path)
   | Some pos \<Rightarrow> (take pos path, drop (pos + 1) path))"

definition path_is_under :: "bytes \<Rightarrow> bytes \<Rightarrow> bool" where
  "path_is_under child parent \<longleftrightarrow>
    (if parent = [] then True
     else if length child < length parent then False
     else if take (length parent) child \<noteq> parent then False
     else length child = length parent \<or> child ! length parent = slash)"

section \<open>Components\<close>

primrec split_on :: "('a \<Rightarrow> bool) \<Rightarrow> 'a list \<Rightarrow> 'a list list" where
  "split_on P [] = [[]]"
| "split_on P (c # cs) = (if P c then [] # split_on P cs
     else (c # hd (split_on P cs)) # tl (split_on P cs))"

fun join :: "bytes list \<Rightarrow> bytes" where
  "join [] = []"
| "join [c] = c"
| "join (c # cs) = c @ slash # join cs"

definition good_component :: "bytes \<Rightarrow> bool" where
  "good_component c \<longleftrightarrow> c \<noteq> [] \<and> c \<noteq> [dot]"

definition components :: "bytes \<Rightarrow> bytes list" where
  "components p = filter good_component (split_on is_path_separator p)"

text \<open>A component that may stand in a normalised path, and normalised paths.\<close>

definition plain_component :: "bytes \<Rightarrow> bool" where
  "plain_component c \<longleftrightarrow> good_component c \<and> (\<forall>x \<in> set c. \<not> is_path_separator x)"

definition is_normalized :: "bytes \<Rightarrow> bool" where
  "is_normalized p \<longleftrightarrow> p = join (components p)"

lemma fields_not_empty [simp]: "split_on P xs \<noteq> []"
  by (cases xs) auto

lemma fields_append_sep: "P s \<Longrightarrow> split_on P (xs @ s # ys) = split_on P xs @ split_on P ys"
  by (induction xs) (auto simp: neq_Nil_conv)

lemma fields_no_sep: "\<forall>x \<in> set xs. \<not> P x \<Longrightarrow> split_on P xs = [xs]"
  by (induction xs) auto

lemma fields_parts: "f \<in> set (split_on P xs) \<Longrightarrow> x \<in> set f \<Longrightarrow> \<not> P x"
proof (induction xs arbitrary: f)
  case (Cons c cs)
  then show ?case by (cases "split_on P cs") (force split: if_splits)+
qed simp

lemma components_sep: "is_path_separator c \<Longrightarrow> components (c # p) = components p"
  by (simp add: components_def good_component_def)

lemma components_dropWhile: "components (dropWhile is_path_separator p) = components p"
  by (induction p) (auto simp: components_sep)

lemma components_split:
  assumes "\<forall>x \<in> set c. \<not> is_path_separator x" and "r = [] \<or> is_path_separator (hd r)"
  shows "components (c @ r) = (if good_component c then [c] else []) @ components r"
proof (cases r)
  case Nil
  then show ?thesis using fields_no_sep [OF assms(1)] by (simp add: components_def good_component_def)
next
  case (Cons s r')
  then show ?thesis using assms fields_append_sep [of is_path_separator s c r'] fields_no_sep [OF assms(1)]
    by (simp add: components_def good_component_def)
qed

lemma components_plain: "c \<in> set (components p) \<Longrightarrow> plain_component c"
  by (auto simp: components_def plain_component_def dest: fields_parts)

lemma join_Cons: "join (c # cs) = (if cs = [] then c else c @ slash # join cs)"
  by (cases cs) auto

lemma join_append: "xs \<noteq> [] \<Longrightarrow> ys \<noteq> [] \<Longrightarrow> join (xs @ ys) = join xs @ slash # join ys"
  by (induction xs) (auto simp: join_Cons)

lemma slash_sep [simp]: "is_path_separator slash"
  by (simp add: is_path_separator_def)

lemma components_join: "list_all plain_component cs \<Longrightarrow> components (join cs) = cs"
proof (induction cs)
  case Nil
  then show ?case by (simp add: components_def good_component_def)
next
  case (Cons c cs)
  then have c: "good_component c" "\<forall>x \<in> set c. \<not> is_path_separator x" by (auto simp: plain_component_def)
  show ?case
  proof (cases "cs = []")
    case True
    then show ?thesis using components_split [OF c(2), of "[]"] c(1)
      by (simp add: components_def good_component_def)
  next
    case False
    then show ?thesis using components_split [OF c(2), of "slash # join cs"] c(1) Cons
      by (simp add: join_Cons components_sep)
  qed
qed

lemma components_all_plain: "list_all plain_component (components p)"
  by (auto simp: list_all_iff components_plain)

lemma is_normalized_iff: "is_normalized p \<longleftrightarrow> (\<exists>cs. list_all plain_component cs \<and> p = join cs)"
  unfolding is_normalized_def using components_join components_all_plain by metis

lemma normalize_loop_eq:
  "normalize_loop start rest out =
    (if components rest = [] then out
     else out @ (if length out > start then [slash] else []) @ join (components rest))"
  if "start \<le> length out" for out
  using that
proof (induction start rest out rule: normalize_loop.induct)
  case (1 start rest out)
  let ?nsep = "\<lambda>c. \<not> is_path_separator c"
  let ?i = "dropWhile is_path_separator rest"
  let ?comp = "takeWhile ?nsep ?i" and ?j = "dropWhile ?nsep ?i"
  show ?case
  proof (cases "rest = []")
    case True
    then show ?thesis by (simp add: normalize_loop.simps components_def good_component_def)
  next
    case False
    have "?j = [] \<or> is_path_separator (hd ?j)" using hd_dropWhile [of ?nsep ?i] by blast
    then have "components (?comp @ ?j) = (if good_component ?comp then [?comp] else []) @ components ?j"
      by (intro components_split) (auto dest: set_takeWhileD)
    then have split: "components rest = (if good_component ?comp then [?comp] else []) @ components ?j"
      by (simp only: takeWhile_dropWhile_id components_dropWhile)
    have step: "normalize_loop start rest out =
        (if good_component ?comp then normalize_loop start ?j ((if length out > start then out @ [slash] else out) @ ?comp)
         else normalize_loop start ?j out)"
      using False by (subst normalize_loop.simps) (auto simp: Let_def good_component_def)
    show ?thesis
    proof (cases "good_component ?comp")
      case True
      then have ne: "?comp \<noteq> []" "\<not> (?comp = [] \<or> ?comp = [dot])" by (auto simp: good_component_def)
      let ?out = "(if length out > start then out @ [slash] else out) @ ?comp"
      have "start < length ?out" using 1(3) ne(1) by auto
      with 1(2) [OF False refl refl refl ne(2)] have "normalize_loop start ?j ?out =
          (if components ?j = [] then ?out else ?out @ slash # join (components ?j))" by simp
      then show ?thesis using True step split by (auto simp: join_Cons)
    next
      case bad: False
      then have "?comp = [] \<or> ?comp = [dot]" by (auto simp: good_component_def)
      from 1(1) [OF False refl refl refl this 1(3)] show ?thesis using bad step split by simp
    qed
  qed
qed

lemma normalize_path_append_eq: "normalize_path_append p out = out @ join (components p)"
  by (simp add: normalize_path_append_def normalize_loop_eq)

lemma normalize_path_eq: "normalize_path p = join (components p)"
  by (simp add: normalize_path_def normalize_path_append_eq)

lemma normalize_path_components [simp]: "components (normalize_path p) = components p"
  by (simp add: normalize_path_eq components_join components_all_plain)

lemma normalize_path_normalized: "is_normalized (normalize_path p)"
  by (simp add: is_normalized_def) (simp add: normalize_path_eq)

section \<open>Parents and subtrees\<close>

lemma rfind_slash_None: "rfind_slash p = None \<longleftrightarrow> slash \<notin> set p"
  by (induction p) (auto split: option.splits)

lemma rfind_slash_append: "slash \<notin> set c \<Longrightarrow> rfind_slash (p @ slash # c) = Some (length p)"
proof (induction p)
  case Nil
  then show ?case using rfind_slash_None [of c] by simp
qed simp

lemma plain_no_slash: "plain_component c \<Longrightarrow> slash \<notin> set c"
  by (auto simp: plain_component_def)

lemma split_parent_join:
  assumes "list_all plain_component (cs @ [c])"
  shows "split_parent (join (cs @ [c])) = (join cs, c)"
proof (cases "cs = []")
  case True
  then show ?thesis using assms rfind_slash_None [of c] plain_no_slash [of c] by (simp add: split_parent_def)
next
  case False
  then show ?thesis using assms rfind_slash_append [OF plain_no_slash, of c "join cs"]
    by (simp add: split_parent_def join_append)
qed

lemma path_is_under_iff:
  "path_is_under child parent \<longleftrightarrow> parent = [] \<or> child = parent \<or> (\<exists>r. child = parent @ slash # r)"
proof (cases "parent = [] \<or> length child < length parent \<or> take (length parent) child \<noteq> parent")
  case True
  then show ?thesis by (auto simp: path_is_under_def)
next
  case False
  then obtain r where "child = parent @ r" by (metis append_take_drop_id)
  then show ?thesis using False by (cases r) (auto simp: path_is_under_def nth_append)
qed

lemma join_eq_Nil: "list_all plain_component cs \<Longrightarrow> join cs = [] \<longleftrightarrow> cs = []"
  by (cases cs) (auto simp: join_Cons plain_component_def good_component_def)

lemma path_is_under_join:
  assumes "list_all plain_component cs" and "list_all plain_component ps"
  shows "path_is_under (join cs) (join ps) \<longleftrightarrow> (\<exists>qs. cs = ps @ qs)"
proof
  assume "path_is_under (join cs) (join ps)"
  then consider "join ps = []" | "join cs = join ps" | r where "join cs = join ps @ slash # r"
    unfolding path_is_under_iff by blast
  then show "\<exists>qs. cs = ps @ qs"
  proof cases
    case 1
    then show ?thesis using join_eq_Nil [OF assms(2)] by simp
  next
    case 2
    then have "cs = ps" using components_join assms by metis
    then show ?thesis by simp
  next
    case 3
    have "components (join cs) = components (join ps) @ components r"
      unfolding 3 by (simp add: components_def fields_append_sep)
    then show ?thesis using assms by (simp add: components_join)
  qed
next
  assume "\<exists>qs. cs = ps @ qs"
  then obtain qs where qs: "cs = ps @ qs" by blast
  show "path_is_under (join cs) (join ps)"
    unfolding path_is_under_iff qs by (cases "ps = []"; cases "qs = []") (auto simp: join_append)
qed

section \<open>Properties\<close>

text \<open>
  \<open>normalize_path_append\<close> appends, to whatever the buffer holds, the components of its input joined by
  single slashes: backslashes count as separators, empty and single-dot components are dropped, no
  leading or trailing separator is left, and \<open>..\<close> is kept.  Normalising is idempotent and does not
  change the components.
\<close>

theorem normalize_path_spec:
  "normalize_path_append p out = out @ join (components p) \<and>
   is_normalized (normalize_path p) \<and>
   components (normalize_path p) = components p \<and>
   normalize_path (normalize_path p) = normalize_path p"
  by (simp add: normalize_path_append_eq normalize_path_normalized)
    (simp add: normalize_path_eq components_join components_all_plain)

text \<open>
  On normalised paths \<open>path_is_under\<close> is exactly the prefix order on components: a path is under
  another when the other's components are its first components.  In particular \<open>ab\<close> is not under \<open>a\<close>.
\<close>

theorem path_is_under_prefix:
  assumes "is_normalized child" and "is_normalized parent"
  shows "path_is_under child parent \<longleftrightarrow> (\<exists>qs. components child = components parent @ qs)"
  using path_is_under_join [OF components_all_plain components_all_plain, of child parent] assms
  by (simp add: is_normalized_def)

theorem path_is_under_prefix_witness:
  "is_normalized (lit ''a/b'') \<and> is_normalized (lit ''a'') \<and>
   (path_is_under (lit ''a/b'') (lit ''a'') \<longleftrightarrow> (\<exists>qs. components (lit ''a/b'') = components (lit ''a'') @ qs))"
proof -
  have n: "is_normalized (lit ''a/b'')" "is_normalized (lit ''a'')"
    by (simp_all add: is_normalized_def components_def is_path_separator_def good_component_def)
  then show ?thesis using path_is_under_prefix by blast
qed

text \<open>
  \<open>split_parent\<close> takes off exactly the last component of a normalised path: the parent is
  normalised and joining it with the leaf gives the path back; the leaf of a path without a slash is
  the path, with the root as parent.
\<close>

theorem split_parent_spec:
  assumes "is_normalized p" and "p \<noteq> []" and "split_parent p = (parent, leaf)"
  shows "is_normalized parent \<and> components p = components parent @ [leaf] \<and>
    p = (if parent = [] then leaf else parent @ slash # leaf) \<and> path_is_under p parent"
proof -
  obtain cs c where cs: "components p = cs @ [c]"
    using assms(1,2) by (cases "components p" rule: rev_cases) (auto simp: is_normalized_def)
  have pl: "list_all plain_component (cs @ [c])" using components_all_plain [of p] cs by simp
  have p: "p = join (cs @ [c])" using assms(1) cs by (simp add: is_normalized_def)
  have sp: "parent = join cs" "leaf = c" using split_parent_join [OF pl] assms(3) p by simp_all
  have "components parent = cs" using pl sp components_join by simp
  then show ?thesis
    using p sp cs pl path_is_under_join [of "cs @ [c]" cs] join_eq_Nil [of cs]
    by (auto simp: is_normalized_def join_append)
qed

theorem split_parent_spec_witness:
  "is_normalized (lit ''a'') \<and> components (lit ''a/b'') = components (lit ''a'') @ [lit ''b''] \<and>
    lit ''a/b'' = (if lit ''a'' = [] then lit ''b'' else lit ''a'' @ slash # lit ''b'') \<and>
    path_is_under (lit ''a/b'') (lit ''a'')"
  by (rule split_parent_spec)
    (simp_all add: split_parent_def is_normalized_def components_def is_path_separator_def good_component_def)

end
