(* ===== verification/Unicode.thy ===== *)
theory Unicode
  imports Types
begin

text \<open>
  \<open>src/core/unicode.cpp\<close>: UTF-8 decoding and encoding, folding of code points and of names.  A
  \<open>char32_t\<close> is a 32-bit word; the decoder works on the input from the current position on and answers
  the code point with the number of bytes it takes, or nothing on malformed input.
\<close>

section \<open>UTF-8\<close>

text \<open>The loop over the continuation bytes: shift in six bits each, or fail.\<close>

fun utf8_tail :: "bytes \<Rightarrow> u32 \<Rightarrow> u32 option" where
  "utf8_tail [] cp = Some cp"
| "utf8_tail (b # bs) cp =
    (if b AND 0xC0 \<noteq> 0x80 then None else utf8_tail bs (push_bit 6 cp OR ucast (b AND 0x3F)))"

definition utf8_bad :: "nat \<Rightarrow> u32 \<Rightarrow> bool" where
  "utf8_bad n cp \<longleftrightarrow> (n = 2 \<and> cp < 0x80) \<or> (n = 3 \<and> cp < 0x800) \<or> (n = 4 \<and> cp < 0x10000) \<or>
     cp > 0x10FFFF \<or> (cp \<ge> 0xD800 \<and> cp \<le> 0xDFFF)"

definition utf8_multi :: "bytes \<Rightarrow> nat \<Rightarrow> u32 \<Rightarrow> (u32 \<times> nat) option" where
  "utf8_multi s n cp0 =
    (if n > length s then None
     else case utf8_tail (take (n - 1) (drop 1 s)) cp0 of
       None \<Rightarrow> None
     | Some cp \<Rightarrow> if utf8_bad n cp then None else Some (cp, n))"

definition decode_utf8 :: "bytes \<Rightarrow> (u32 \<times> nat) option" where
  "decode_utf8 s =
    (let b0 = s ! 0 in
     if b0 < 0x80 then Some (ucast b0, 1)
     else if b0 AND 0xE0 = 0xC0 then utf8_multi s 2 (ucast (b0 AND 0x1F))
     else if b0 AND 0xF0 = 0xE0 then utf8_multi s 3 (ucast (b0 AND 0x0F))
     else if b0 AND 0xF8 = 0xF0 then utf8_multi s 4 (ucast (b0 AND 0x07))
     else None)"

definition encode_utf8 :: "u32 \<Rightarrow> bytes" where
  "encode_utf8 cp =
    (if cp < 0x80 then [ucast cp]
     else if cp < 0x800 then [ucast (0xC0 OR drop_bit 6 cp), ucast (0x80 OR (cp AND 0x3F))]
     else if cp < 0x10000 then
       [ucast (0xE0 OR drop_bit 12 cp), ucast (0x80 OR (drop_bit 6 cp AND 0x3F)), ucast (0x80 OR (cp AND 0x3F))]
     else
       [ucast (0xF0 OR drop_bit 18 cp), ucast (0x80 OR (drop_bit 12 cp AND 0x3F)),
        ucast (0x80 OR (drop_bit 6 cp AND 0x3F)), ucast (0x80 OR (cp AND 0x3F))])"

section \<open>Case folding\<close>

definition casefold_codepoint :: "u32 \<Rightarrow> u32" where
  "casefold_codepoint cp =
    (if cp < 0x80 then (if cp \<ge> 0x41 \<and> cp \<le> 0x5A then cp + 0x20 else cp)
     else if cp \<ge> 0xC0 \<and> cp \<le> 0xDE \<and> cp \<noteq> 0xD7 then cp + 0x20
     else if cp \<ge> 0x100 \<and> cp \<le> 0x17F then
       (if cp = 0x130 then 0x69
        else if cp = 0x131 then 0x131
        else if cp = 0x138 then 0x138
        else if cp = 0x149 then 0x149
        else if cp = 0x178 then 0xFF
        else if cp = 0x17F then 0x73
        else if (cp \<ge> 0x139 \<and> cp \<le> 0x148) \<or> (cp \<ge> 0x179 \<and> cp \<le> 0x17E)
        then (if cp AND 1 \<noteq> 0 then cp + 1 else cp)
        else if cp AND 1 \<noteq> 0 then cp else cp + 1)
     else if cp \<ge> 0x391 \<and> cp \<le> 0x3A9 \<and> cp \<noteq> 0x3A2 then cp + 0x20
     else if cp \<ge> 0x410 \<and> cp \<le> 0x42F then cp + 0x20
     else if cp \<ge> 0x400 \<and> cp \<le> 0x40F then cp + 0x50
     else cp)"

definition is_ascii :: "bytes \<Rightarrow> bool" where
  "is_ascii s \<longleftrightarrow> list_all (\<lambda>c. \<not> c \<ge> 0x80) s"

lemma utf8_multi_bounds: "utf8_multi s k c = Some (cp, n) \<Longrightarrow> n = k \<and> n \<le> length s"
  by (auto simp: utf8_multi_def split: option.splits if_splits)

lemma decode_utf8_bounds: "s \<noteq> [] \<Longrightarrow> decode_utf8 s = Some (cp, n) \<Longrightarrow> 0 < n \<and> n \<le> length s"
  by (auto simp: decode_utf8_def Let_def Suc_le_eq split: if_splits dest: utf8_multi_bounds)

function casefold_append :: "bytes \<Rightarrow> bytes \<Rightarrow> bytes" where
  "casefold_append s out =
    (if s = [] then out
     else
       let b = s ! 0 in
       if b < 0x80
       then casefold_append (drop 1 s) (out @ [if b \<ge> 0x41 \<and> b \<le> 0x5A then b + 0x20 else b])
       else case decode_utf8 s of
         None \<Rightarrow> casefold_append (drop 1 s) (out @ [b])
       | Some (cp, n) \<Rightarrow> casefold_append (drop n s) (out @ encode_utf8 (casefold_codepoint cp)))"
  by pat_completeness auto
termination
proof (relation "measure (\<lambda>(s, out). length s)", goal_cases)
  case (4 s out b x cp n)
  then show ?case using decode_utf8_bounds [of s cp n] by simp
qed simp_all

declare casefold_append.simps [simp del]

definition casefold :: "bytes \<Rightarrow> bytes" where
  "casefold s = casefold_append s []"

section \<open>Round trip\<close>

definition scalar_value :: "u32 \<Rightarrow> bool" where
  "scalar_value cp \<longleftrightarrow> cp \<le> 0x10FFFF \<and> \<not> (0xD800 \<le> cp \<and> cp \<le> 0xDFFF)"

lemma cont_byte: "(ucast (0x80 OR (x AND 0x3F)) :: u8) AND 0xC0 = 0x80" for x :: u32
proof -
  have e: "(0x3F :: u32) = mask 6" "(0x80 :: u32) = push_bit 7 1" "(0x80 :: u8) = push_bit 7 1"
    "(0xC0 :: u8) = push_bit 6 (mask 2)" by (simp_all add: mask_eq_exp_minus_1)
  show ?thesis unfolding e by (rule bit_word_eqI) (auto simp del: push_bit_of_1 simp: bit_simps)
qed

lemma cont_payload: "(ucast ((ucast (0x80 OR (x AND 0x3F)) :: u8) AND 0x3F) :: u32) = x AND 0x3F"
proof -
  have e: "(0x3F :: u32) = mask 6" "(0x3F :: u8) = mask 6" "(0x80 :: u32) = push_bit 7 1"
    by (simp_all add: mask_eq_exp_minus_1)
  show ?thesis unfolding e by (rule bit_word_eqI) (auto simp del: push_bit_of_1 simp: bit_simps)
qed

lemma high_bits_zero: "x < 2 ^ k \<Longrightarrow> k \<le> n \<Longrightarrow> \<not> bit (x :: 'a::len word) n"
  using less_mask_eq [of x k] by (metis bit_take_bit_iff not_less take_bit_eq_mask)

lemma lead_consts:
  "(0xC0 :: u8) = push_bit 6 (mask 2)" "(0xE0 :: u8) = push_bit 5 (mask 3)" "(0xF0 :: u8) = push_bit 4 (mask 4)"
  "(0xF8 :: u8) = push_bit 3 (mask 5)" "(0x1F :: u8) = mask 5" "(0x0F :: u8) = mask 4" "(0x07 :: u8) = mask 3"
  "(0xC0 :: u32) = push_bit 6 (mask 2)" "(0xE0 :: u32) = push_bit 5 (mask 3)" "(0xF0 :: u32) = push_bit 4 (mask 4)"
  by (simp_all add: mask_eq_exp_minus_1)

lemma lead2:
  assumes "x < 2 ^ 5"
  shows "\<not> (ucast (0xC0 OR x) :: u8) < 0x80" and "(ucast (0xC0 OR x) :: u8) AND 0xE0 = 0xC0"
    and "ucast ((ucast (0xC0 OR x) :: u8) AND 0x1F) = (x :: u32)"
proof -
  note z = high_bits_zero [OF assms]
  then have z8: "n < 8" if "bit x n" for n using z [of n] that by (cases "5 \<le> n") simp_all
  have "bit (ucast (0xC0 OR x) :: u8) 7" unfolding lead_consts by (simp add: bit_simps)
  then show "\<not> (ucast (0xC0 OR x) :: u8) < 0x80" using high_bits_zero [of "ucast (0xC0 OR x) :: u8" 7 7] by auto
  show "(ucast (0xC0 OR x) :: u8) AND 0xE0 = 0xC0"
    unfolding lead_consts using z by (intro bit_word_eqI) (auto simp: bit_simps)
  show "ucast ((ucast (0xC0 OR x) :: u8) AND 0x1F) = x"
    unfolding lead_consts using z by (intro bit_word_eqI) (auto simp: bit_simps not_less [symmetric] dest: z8)
qed

lemma lead3:
  assumes "x < 2 ^ 4"
  shows "\<not> (ucast (0xE0 OR x) :: u8) < 0x80" and "(ucast (0xE0 OR x) :: u8) AND 0xE0 = 0xE0"
    and "(ucast (0xE0 OR x) :: u8) AND 0xF0 = 0xE0" and "ucast ((ucast (0xE0 OR x) :: u8) AND 0x0F) = (x :: u32)"
proof -
  note z = high_bits_zero [OF assms]
  then have z8: "n < 8" if "bit x n" for n using z [of n] that by (cases "4 \<le> n") simp_all
  have "bit (ucast (0xE0 OR x) :: u8) 7" unfolding lead_consts by (simp add: bit_simps)
  then show "\<not> (ucast (0xE0 OR x) :: u8) < 0x80" using high_bits_zero [of "ucast (0xE0 OR x) :: u8" 7 7] by auto
  show "(ucast (0xE0 OR x) :: u8) AND 0xE0 = 0xE0" "(ucast (0xE0 OR x) :: u8) AND 0xF0 = 0xE0"
    unfolding lead_consts using z by (intro bit_word_eqI, auto simp: bit_simps)+
  show "ucast ((ucast (0xE0 OR x) :: u8) AND 0x0F) = x"
    unfolding lead_consts using z by (intro bit_word_eqI) (auto simp: bit_simps not_less [symmetric] dest: z8)
qed

lemma lead4:
  assumes "x < 2 ^ 3"
  shows "\<not> (ucast (0xF0 OR x) :: u8) < 0x80" and "(ucast (0xF0 OR x) :: u8) AND 0xE0 = 0xE0"
    and "(ucast (0xF0 OR x) :: u8) AND 0xF0 = 0xF0" and "(ucast (0xF0 OR x) :: u8) AND 0xF8 = 0xF0"
    and "ucast ((ucast (0xF0 OR x) :: u8) AND 0x07) = (x :: u32)"
proof -
  note z = high_bits_zero [OF assms]
  then have z8: "n < 8" if "bit x n" for n using z [of n] that by (cases "3 \<le> n") simp_all
  have "bit (ucast (0xF0 OR x) :: u8) 7" unfolding lead_consts by (simp add: bit_simps)
  then show "\<not> (ucast (0xF0 OR x) :: u8) < 0x80" using high_bits_zero [of "ucast (0xF0 OR x) :: u8" 7 7] by auto
  show "(ucast (0xF0 OR x) :: u8) AND 0xE0 = 0xE0" "(ucast (0xF0 OR x) :: u8) AND 0xF0 = 0xF0"
    "(ucast (0xF0 OR x) :: u8) AND 0xF8 = 0xF0"
    unfolding lead_consts using z by (intro bit_word_eqI, auto simp: bit_simps)+
  show "ucast ((ucast (0xF0 OR x) :: u8) AND 0x07) = x"
    unfolding lead_consts using z by (intro bit_word_eqI) (auto simp: bit_simps not_less [symmetric] dest: z8)
qed

lemma combine6: "push_bit 6 (drop_bit 6 x) OR (x AND 0x3F) = (x :: u32)"
proof -
  have m: "(0x3F :: u32) = mask 6" by (simp add: mask_eq_exp_minus_1)
  have "bit (push_bit 6 (drop_bit 6 x) OR (x AND mask 6)) n = bit x n" if "n < 32" for n
    using that by (cases "n < 6") (simp_all add: bit_simps)
  then show ?thesis unfolding m by (intro bit_word_eqI) simp
qed

lemma utf8_tail_cont:
  "utf8_tail (ucast (0x80 OR (x AND 0x3F)) # bs) cp = utf8_tail bs (push_bit 6 cp OR (x AND 0x3F))"
  by (simp add: cont_byte cont_payload del: push_bit_of_1)

lemma drop_bit_less:
  "x < 0x800 \<Longrightarrow> drop_bit 6 x < 2 ^ 5" "x < 0x10000 \<Longrightarrow> drop_bit 12 x < 2 ^ 4" "x \<le> 0x10FFFF \<Longrightarrow> drop_bit 18 x < 2 ^ 3"
  for x :: u32
  by (auto simp: word_less_nat_alt word_le_nat_alt drop_bit_eq_div unat_div_distrib)

lemma combine12: "push_bit 6 (drop_bit 12 x) OR (drop_bit 6 x AND 0x3F) = drop_bit 6 (x :: u32)"
  using combine6 [of "drop_bit 6 x"] by simp

lemma combine18: "push_bit 6 (drop_bit 18 x) OR (drop_bit 12 x AND 0x3F) = drop_bit 12 (x :: u32)"
  using combine6 [of "drop_bit 12 x"] by simp

lemma utf8_tails:
  "utf8_tail [ucast (0x80 OR (cp AND 0x3F))] (drop_bit 6 cp) = Some cp"
  "utf8_tail [ucast (0x80 OR (drop_bit 6 cp AND 0x3F)), ucast (0x80 OR (cp AND 0x3F))] (drop_bit 12 cp) = Some cp"
  "utf8_tail [ucast (0x80 OR (drop_bit 12 cp AND 0x3F)), ucast (0x80 OR (drop_bit 6 cp AND 0x3F)),
     ucast (0x80 OR (cp AND 0x3F))] (drop_bit 18 cp) = Some cp"
  by (simp_all only: utf8_tail_cont combine6 combine12 combine18 utf8_tail.simps(1))

lemma decode_encode_utf8:
  assumes "scalar_value cp"
  shows "decode_utf8 (encode_utf8 cp @ rest) = Some (cp, length (encode_utf8 cp))"
proof -
  have top: "cp \<le> 0x10FFFF" "\<not> (0xD800 \<le> cp \<and> cp \<le> 0xDFFF)" using assms by (auto simp: scalar_value_def)
  consider (1) "cp < 0x80" | (2) "\<not> cp < 0x80" "cp < 0x800" | (3) "\<not> cp < 0x800" "cp < 0x10000"
    | (4) "\<not> cp < 0x10000" by linarith
  then show ?thesis
  proof cases
    case 1
    have u: "unat (ucast cp :: u8) = unat cp"
      using 1 by (simp add: unsigned_ucast_eq word_less_nat_alt unsigned_take_bit_eq take_bit_nat_eq_self)
    have "(ucast cp :: u8) < 0x80" using 1 by (simp add: word_less_nat_alt u)
    moreover have "unat (ucast (ucast cp :: u8) :: u32) = unat cp"
      using 1 by (simp add: unsigned_ucast_eq unsigned_take_bit_eq word_less_nat_alt take_bit_nat_eq_self)
    then have "ucast (ucast cp :: u8) = cp" by (simp only: unat_inj)
    ultimately show ?thesis using 1 by (simp add: decode_utf8_def encode_utf8_def)
  next
    case 2
    note l = lead2 [OF drop_bit_less(1) [OF 2(2)]]
    have "\<not> utf8_bad 2 cp" using 2 top by (auto simp: utf8_bad_def)
    then show ?thesis using 2 l
      by (simp add: decode_utf8_def encode_utf8_def utf8_multi_def utf8_tails del: utf8_tail.simps)
  next
    case 3
    note l = lead3 [OF drop_bit_less(2) [OF 3(2)]]
    have "\<not> utf8_bad 3 cp" using 3 top by (auto simp: utf8_bad_def)
    moreover have "\<not> cp < 0x80" using 3(1) by (simp add: word_less_nat_alt)
    ultimately show ?thesis using 3 l
      by (simp add: decode_utf8_def encode_utf8_def utf8_multi_def utf8_tails numeral_3_eq_3 del: utf8_tail.simps)
  next
    case 4
    note l = lead4 [OF drop_bit_less(3) [OF top(1)]]
    have "\<not> utf8_bad 4 cp" using 4 top by (auto simp: utf8_bad_def)
    moreover have "\<not> cp < 0x80" "\<not> cp < 0x800" using 4 by (simp_all add: word_less_nat_alt)
    ultimately show ?thesis using 4 l
      by (simp add: decode_utf8_def encode_utf8_def utf8_multi_def utf8_tails del: utf8_tail.simps)
  qed
qed

section \<open>Folding\<close>

text \<open>The folding table over the natural numbers, where its idempotence is linear arithmetic with parity.\<close>

definition fold_nat :: "nat \<Rightarrow> nat" where
  "fold_nat n =
    (if n < 0x80 then (if n \<ge> 0x41 \<and> n \<le> 0x5A then n + 0x20 else n)
     else if n \<ge> 0xC0 \<and> n \<le> 0xDE \<and> n \<noteq> 0xD7 then n + 0x20
     else if n \<ge> 0x100 \<and> n \<le> 0x17F then
       (if n = 0x130 then 0x69 else if n = 0x131 then 0x131 else if n = 0x138 then 0x138
        else if n = 0x149 then 0x149 else if n = 0x178 then 0xFF else if n = 0x17F then 0x73
        else if (n \<ge> 0x139 \<and> n \<le> 0x148) \<or> (n \<ge> 0x179 \<and> n \<le> 0x17E) then (if odd n then n + 1 else n)
        else if odd n then n else n + 1)
     else if n \<ge> 0x391 \<and> n \<le> 0x3A9 \<and> n \<noteq> 0x3A2 then n + 0x20
     else if n \<ge> 0x410 \<and> n \<le> 0x42F then n + 0x20
     else if n \<ge> 0x400 \<and> n \<le> 0x40F then n + 0x50
     else n)"

lemma unat_and_1: "cp AND 1 \<noteq> 0 \<longleftrightarrow> odd (unat cp)" for cp :: u32
proof -
  have "cp AND 1 = cp mod 2" by (simp add: and_one_eq)
  then have "cp AND 1 \<noteq> 0 \<longleftrightarrow> unat (cp mod 2) \<noteq> 0" by (simp add: unat_eq_0)
  also have "unat (cp mod 2) = unat cp mod 2" by (simp add: unat_mod_distrib)
  finally show ?thesis by presburger
qed

lemma unat_casefold_codepoint: "unat (casefold_codepoint cp) = fold_nat (unat cp)"
proof (cases "unat cp < 0x430")
  case True
  then have add: "unat (cp + 1) = unat cp + 1" "unat (cp + 0x20) = unat cp + 0x20" "unat (cp + 0x50) = unat cp + 0x50"
    by (simp_all add: unat_plus_if')
  show ?thesis
    unfolding casefold_codepoint_def fold_nat_def word_less_nat_alt word_le_nat_alt unat_and_1
    by (simp add: add word_unat_eq_iff if_distrib [of unat] cong: if_cong)
next
  case False
  then have "casefold_codepoint cp = cp" "fold_nat (unat cp) = unat cp"
    by (simp_all add: casefold_codepoint_def fold_nat_def word_less_nat_alt word_le_nat_alt)
  then show ?thesis by simp
qed

lemma fold_nat_idem: "fold_nat (fold_nat n) = fold_nat n"
proof (cases "0x100 \<le> n \<and> n < 0x180")
  case True
  have "\<forall>n \<in> set [0x100..<0x180]. fold_nat (fold_nat n) = fold_nat n" by (simp add: fold_nat_def)
  then show ?thesis using True by (simp only: set_upt) simp
next
  case False
  show ?thesis
  proof (cases "(0x41 \<le> n \<and> n \<le> 0x5A) \<or> (0xC0 \<le> n \<and> n \<le> 0xDE \<and> n \<noteq> 0xD7) \<or>
      (0x391 \<le> n \<and> n \<le> 0x3A9 \<and> n \<noteq> 0x3A2) \<or> (0x410 \<le> n \<and> n \<le> 0x42F) \<or> (0x400 \<le> n \<and> n \<le> 0x40F)")
    case True
    then show ?thesis by (elim disjE conjE) (simp_all add: fold_nat_def)
  next
    case id: False
    then have c: "\<not> (0x41 \<le> n \<and> n \<le> 0x5A)" "\<not> (0xC0 \<le> n \<and> n \<le> 0xDE \<and> n \<noteq> 0xD7)"
      "\<not> (0x391 \<le> n \<and> n \<le> 0x3A9 \<and> n \<noteq> 0x3A2)" "\<not> (0x410 \<le> n \<and> n \<le> 0x42F)"
      "\<not> (0x400 \<le> n \<and> n \<le> 0x40F)" by blast+
    have "\<not> (0x100 \<le> n \<and> n \<le> 0x17F)" using False by linarith
    then have "fold_nat n = n" by (simp only: fold_nat_def c if_False if_cancel)
    then show ?thesis by simp
  qed
qed

lemma casefold_codepoint_idem: "casefold_codepoint (casefold_codepoint cp) = casefold_codepoint cp"
proof -
  have "unat (casefold_codepoint (casefold_codepoint cp)) = unat (casefold_codepoint cp)"
    by (simp add: unat_casefold_codepoint fold_nat_idem)
  then show ?thesis by (simp only: unat_inj)
qed

definition ascii_lower :: "u8 \<Rightarrow> u8" where
  "ascii_lower b = (if b \<ge> 0x41 \<and> b \<le> 0x5A then b + 0x20 else b)"

lemma casefold_ascii: "is_ascii s \<Longrightarrow> casefold_append s out = out @ map ascii_lower s"
proof (induction s arbitrary: out)
  case Nil
  then show ?case by (simp add: casefold_append.simps)
next
  case (Cons b s)
  then have "b < 0x80" "is_ascii s" by (simp_all add: is_ascii_def not_le)
  then show ?case using Cons.IH by (subst casefold_append.simps) (simp add: ascii_lower_def)
qed

lemma ascii_lower_ascii: "b < 0x80 \<Longrightarrow> ascii_lower b < 0x80 \<and> ascii_lower (ascii_lower b) = ascii_lower b"
  by (auto simp: ascii_lower_def word_less_nat_alt word_le_nat_alt unat_plus_if')

section \<open>Properties\<close>

text \<open>
  Encoding a Unicode scalar value as UTF-8 and decoding it again, with any bytes behind, gives the code
  point and consumes exactly the bytes that were written; so the length the decoder announces is
  the shortest one.
\<close>

theorem utf8_roundtrip:
  assumes "scalar_value cp"
  shows "decode_utf8 (encode_utf8 cp @ rest) = Some (cp, length (encode_utf8 cp))"
  using assms by (rule decode_encode_utf8)

theorem utf8_roundtrip_witness:
  "decode_utf8 (encode_utf8 0x20AC @ [1, 2]) = Some (0x20AC, length (encode_utf8 0x20AC))"
  by (rule utf8_roundtrip) (simp add: scalar_value_def)

text \<open>
  Folding a code point is idempotent: no folded code point is itself folded to another one, so the
  folded spelling of a name is a canonical representative.
\<close>

theorem casefold_codepoint_idempotent:
  "casefold_codepoint (casefold_codepoint cp) = casefold_codepoint cp"
  by (rule casefold_codepoint_idem)

text \<open>
  On an ASCII name folding is the byte-wise lower-case map: the length is kept, the result is
  ASCII, and two ASCII names fold to the same string exactly when they differ only in letter case.
\<close>

theorem casefold_ascii_spec:
  assumes "is_ascii s"
  shows "casefold s = map ascii_lower s \<and> is_ascii (casefold s) \<and> casefold (casefold s) = casefold s"
proof -
  have c: "casefold s = map ascii_lower s" using casefold_ascii [OF assms] by (simp add: casefold_def)
  have lower: "is_ascii (map ascii_lower s)"
    using assms ascii_lower_ascii by (auto simp: is_ascii_def list_all_iff not_le)
  moreover have "map ascii_lower (map ascii_lower s) = map ascii_lower s"
    using assms ascii_lower_ascii by (auto simp: is_ascii_def list_all_iff not_le)
  ultimately show ?thesis using c casefold_ascii [OF lower] by (simp add: casefold_def)
qed

theorem casefold_ascii_spec_witness:
  "casefold (lit ''ReadMe'') = map ascii_lower (lit ''ReadMe'') \<and> is_ascii (casefold (lit ''ReadMe'')) \<and>
   casefold (casefold (lit ''ReadMe'')) = casefold (lit ''ReadMe'')"
  by (rule casefold_ascii_spec) (simp add: is_ascii_def)

end
