(* ===== verification/MetadataTree.thy ===== *)
theory MetadataTree
  imports FlatMapProps StringPool Path Unicode
begin

text \<open>
  \<open>src/core/metadata_tree.cpp\<close>, \<open>metadata_tree.hpp\<close>: the in-memory directory tree.  Nodes live in one
  vector and are addressed by their 32-bit index; siblings form a doubly linked list; a free list
  recycles slots; two \<open>U64Map\<close> indices map (parent, name id) and (parent, folded name id) to nodes.

  Loops over sibling pointers, parent pointers and the release stack have no bound of their own in
  the source; here each takes fuel and answers \<open>None\<close> when it runs out.  The fuel given is the number of
  node slots (twice that for the release loop, which visits a directory before and after its children).
\<close>

section \<open>Nodes and the tree\<close>

datatype LookupMode = Exact | CaseInsensitive

record Node =
  nname :: NameId
  folded_name :: NameId
  parent :: NodeId
  first_child :: NodeId
  last_child :: NodeId
  next_sibling :: NodeId
  prev_sibling :: NodeId
  child_count :: u32
  attr :: Attributes

definition Node_init :: Node where
  "Node_init = \<lparr>nname = kInvalidName, folded_name = kInvalidName, parent = kInvalidNode,
     first_child = kInvalidNode, last_child = kInvalidNode, next_sibling = kInvalidNode,
     prev_sibling = kInvalidNode, child_count = 0, attr = default_attributes\<rparr>"

definition is_dir :: "Node \<Rightarrow> bool" where
  "is_dir n \<longleftrightarrow> kind (attr n) = Directory"

record MetadataTree =
  names :: StringPool
  nodes :: "Node list"
  free :: "NodeId list"
  exact :: U64Map
  folded :: U64Map
  live :: nat
  collisions :: nat
  dropped :: nat

definition kImplicitDirectory :: Attributes where
  "kImplicitDirectory = \<lparr>size_of = 0, mtime_ns = 0, mode = 0x1ED, kind = Directory\<rparr>"

definition root :: NodeId where
  "root = 0"

definition root_node :: "NameId \<Rightarrow> Node" where
  "root_node nid = Node_init\<lparr>nname := nid, folded_name := nid, attr := kImplicitDirectory\<rparr>"

definition MetadataTree_init :: MetadataTree where
  "MetadataTree_init =
    (let (nid, pool) = intern StringPool_init [] in
     \<lparr>names = pool, nodes = [root_node nid], free = [], exact = U64Map_init, folded = U64Map_init,
      live = 1, collisions = 0, dropped = 0\<rparr>)"

definition node :: "MetadataTree \<Rightarrow> NodeId \<Rightarrow> Node" where
  "node t i = nodes t ! unat i"

definition set_node :: "MetadataTree \<Rightarrow> NodeId \<Rightarrow> (Node \<Rightarrow> Node) \<Rightarrow> MetadataTree" where
  "set_node t i f = t\<lparr>nodes := (nodes t)[unat i := f (node t i)]\<rparr>"

definition name_of :: "MetadataTree \<Rightarrow> NodeId \<Rightarrow> bytes" where
  "name_of t i = view (names t) (nname (node t i))"

definition valid :: "MetadataTree \<Rightarrow> NodeId \<Rightarrow> bool" where
  "valid t i \<longleftrightarrow> unat i < length (nodes t) \<and> nname (node t i) \<noteq> kInvalidName"

record Stats =
  st_nodes :: nat
  st_names :: nat
  st_name_bytes :: nat
  st_case_collisions :: nat
  st_dropped :: nat

definition stats :: "MetadataTree \<Rightarrow> Stats" where
  "stats t = \<lparr>st_nodes = live t, st_names = StringPool_size (names t), st_name_bytes = pbytes (names t),
     st_case_collisions = collisions t, st_dropped = dropped t\<rparr>"

definition key :: "NodeId \<Rightarrow> NameId \<Rightarrow> u64" where
  "key p n = push_bit 32 (ucast p) OR ucast n"

definition valid_name :: "bytes \<Rightarrow> bool" where
  "valid_name nm \<longleftrightarrow>
    (if nm = [] \<or> nm = [dot] \<or> nm = [dot, dot] then False
     else list_all (\<lambda>c. \<not> (is_path_separator c \<or> c = 0)) nm)"

section \<open>Slots, siblings and indices\<close>

definition alloc_node :: "MetadataTree \<Rightarrow> NodeId \<times> MetadataTree" where
  "alloc_node t =
    (if free t \<noteq> [] then
       let i = last (free t) in (i, set_node (t\<lparr>free := butlast (free t)\<rparr>) i (\<lambda>_. Node_init))
     else (of_nat (length (nodes t)), t\<lparr>nodes := nodes t @ [Node_init]\<rparr>))"

definition link_child :: "MetadataTree \<Rightarrow> NodeId \<Rightarrow> NodeId \<Rightarrow> MetadataTree" where
  "link_child t p c =
    (let lc = last_child (node t p);
         t1 = set_node t c (\<lambda>n. n\<lparr>parent := p, next_sibling := kInvalidNode, prev_sibling := lc\<rparr>);
         t2 = (if lc \<noteq> kInvalidNode then set_node t1 lc (\<lambda>n. n\<lparr>next_sibling := c\<rparr>)
               else set_node t1 p (\<lambda>n. n\<lparr>first_child := c\<rparr>))
     in set_node t2 p (\<lambda>n. n\<lparr>last_child := c, child_count := child_count n + 1\<rparr>))"

definition unlink_child :: "MetadataTree \<Rightarrow> NodeId \<Rightarrow> MetadataTree" where
  "unlink_child t c =
    (let p = parent (node t c);
         pv = prev_sibling (node t c);
         nx = next_sibling (node t c);
         t1 = (if pv \<noteq> kInvalidNode then set_node t pv (\<lambda>n. n\<lparr>next_sibling := nx\<rparr>)
               else set_node t p (\<lambda>n. n\<lparr>first_child := nx\<rparr>));
         t2 = (if nx \<noteq> kInvalidNode then set_node t1 nx (\<lambda>n. n\<lparr>prev_sibling := pv\<rparr>)
               else set_node t1 p (\<lambda>n. n\<lparr>last_child := pv\<rparr>));
         t3 = set_node t2 p (\<lambda>n. n\<lparr>child_count := child_count n - 1\<rparr>)
     in set_node t3 c (\<lambda>n. n\<lparr>prev_sibling := kInvalidNode, next_sibling := kInvalidNode\<rparr>))"

definition index_node :: "MetadataTree \<Rightarrow> NodeId \<Rightarrow> MetadataTree" where
  "index_node t i =
    (let n = node t i;
         ex = snd (insert_or_assign (exact t) (key (parent n) (nname n)) i);
         (fresh, fo) = insert_if_absent (folded t) (key (parent n) (folded_name n)) i
     in t\<lparr>exact := ex, folded := fo, collisions := (if fresh then collisions t else collisions t + 1)\<rparr>)"

text \<open>The scan of \<open>unindex_node\<close> for a remaining sibling with the same folding.\<close>

fun find_heir :: "nat \<Rightarrow> MetadataTree \<Rightarrow> NodeId \<Rightarrow> NameId \<Rightarrow> NodeId \<Rightarrow> NodeId option option" where
  "find_heir 0 t i f s = None"
| "find_heir (Suc fuel) t i f s =
    (if s = kInvalidNode then Some None
     else if s \<noteq> i \<and> folded_name (node t s) = f then Some (Some s)
     else find_heir fuel t i f (next_sibling (node t s)))"

definition unindex_node :: "MetadataTree \<Rightarrow> NodeId \<Rightarrow> MetadataTree" where
  "unindex_node t i =
    (let n = node t i;
         t1 = t\<lparr>exact := snd (U64Map_erase (exact t) (key (parent n) (nname n)))\<rparr>;
         fk = key (parent n) (folded_name n)
     in case U64Map_find (folded t1) fk of
          None \<Rightarrow> t1
        | Some owner \<Rightarrow>
            if owner \<noteq> i then t1\<lparr>collisions := collisions t1 - 1\<rparr>
            else
              let t2 = t1\<lparr>folded := snd (U64Map_erase (folded t1) fk)\<rparr> in
              if collisions t2 = 0 then t2
              else
                (case find_heir (Suc (length (nodes t2))) t2 i (folded_name n) (first_child (node t2 (parent n))) of
                   Some (Some s) \<Rightarrow>
                     t2\<lparr>folded := snd (insert_if_absent (folded t2) fk s), collisions := collisions t2 - 1\<rparr>
                 | _ \<Rightarrow> t2))"

text \<open>\<open>for (c = first_child; c != kInvalidNode; c = next_sibling)\<close>: the children in order.\<close>

fun child_walk :: "nat \<Rightarrow> MetadataTree \<Rightarrow> NodeId \<Rightarrow> NodeId list option" where
  "child_walk 0 t c = None"
| "child_walk (Suc fuel) t c =
    (if c = kInvalidNode then Some []
     else map_option ((#) c) (child_walk fuel t (next_sibling (node t c))))"

definition for_each_child :: "MetadataTree \<Rightarrow> NodeId \<Rightarrow> NodeId list option" where
  "for_each_child t d = child_walk (Suc (length (nodes t))) t (first_child (node t d))"

text \<open>
  \<open>release_subtree\<close>: the stack is a list with its back at the front, so the children of a directory
  are pushed in order and popped in reverse.
\<close>

definition release_one :: "MetadataTree \<Rightarrow> NodeId \<Rightarrow> NodeId \<Rightarrow> MetadataTree" where
  "release_one t rt cur =
    (let t1 = (if cur \<noteq> rt then unlink_child t cur else t);
         t2 = unindex_node t1 cur;
         t3 = set_node t2 cur (\<lambda>n. n\<lparr>nname := kInvalidName\<rparr>)
     in t3\<lparr>free := free t3 @ [cur], live := live t3 - 1\<rparr>)"

fun release_loop :: "nat \<Rightarrow> MetadataTree \<Rightarrow> NodeId \<Rightarrow> NodeId list \<Rightarrow> MetadataTree option" where
  "release_loop fuel t rt [] = Some t"
| "release_loop 0 t rt (cur # stack) = None"
| "release_loop (Suc fuel) t rt (cur # stack) =
    (if first_child (node t cur) \<noteq> kInvalidNode then
       case for_each_child t cur of
         None \<Rightarrow> None
       | Some cs \<Rightarrow> release_loop fuel t rt (rev cs @ cur # stack)
     else release_loop fuel (release_one t rt cur) rt stack)"

definition release_subtree :: "MetadataTree \<Rightarrow> NodeId \<Rightarrow> MetadataTree option" where
  "release_subtree t i = release_loop (2 * length (nodes t)) t i [i]"

section \<open>Mutation and lookup\<close>

definition intern_name :: "MetadataTree \<Rightarrow> bytes \<Rightarrow> NameId \<times> MetadataTree" where
  "intern_name t nm = (let (i, p) = intern (names t) nm in (i, t\<lparr>names := p\<rparr>))"

definition has_upper :: "bytes \<Rightarrow> bool" where
  "has_upper nm \<longleftrightarrow> list_ex (\<lambda>c. c \<ge> 0x41 \<and> c \<le> 0x5A) nm"

definition intern_folded :: "MetadataTree \<Rightarrow> bytes \<Rightarrow> NameId \<Rightarrow> NameId \<times> MetadataTree" where
  "intern_folded t nm nid =
    (if \<not> is_ascii nm \<or> has_upper nm then intern_name t (casefold_append nm []) else (nid, t))"

definition tree_insert :: "MetadataTree \<Rightarrow> NodeId \<Rightarrow> bytes \<Rightarrow> Attributes \<Rightarrow> NodeId result \<times> MetadataTree" where
  "tree_insert t p nm a =
    (if \<not> valid t p then (fail NotFound, t)
     else if \<not> is_dir (node t p) then (fail NotADirectory, t)
     else if \<not> valid_name nm then (fail InvalidPath, t)
     else
       let (nid, t1) = intern_name t nm in
       if U64Map_contains (exact t1) (key p nid) then (fail AlreadyExists, t1)
       else
         let (fid, t2) = intern_folded t1 nm nid;
             (i, t3) = alloc_node t2;
             t4 = set_node t3 i (\<lambda>n. n\<lparr>nname := nid, folded_name := fid, attr := a\<rparr>);
             t5 = link_child t4 p i;
             t6 = index_node t5 i
         in (ok i, t6\<lparr>live := live t6 + 1\<rparr>))"

definition find_child :: "MetadataTree \<Rightarrow> NodeId \<Rightarrow> bytes \<Rightarrow> LookupMode \<Rightarrow> NodeId option" where
  "find_child t p nm m =
    (if \<not> valid t p \<or> \<not> is_dir (node t p) then None
     else
       case (case StringPool_find (names t) nm of
               Some nid \<Rightarrow> U64Map_find (exact t) (key p nid) | None \<Rightarrow> None) of
         Some v \<Rightarrow> Some v
       | None \<Rightarrow>
           if m = Exact then None
           else (case StringPool_find (names t) (casefold_append nm []) of
                   None \<Rightarrow> None
                 | Some fid \<Rightarrow> U64Map_find (folded t) (key p fid)))"

text \<open>The loop of \<open>set_attributes\<close> that drops the children of a directory turned into something else.\<close>

fun drop_children :: "nat \<Rightarrow> MetadataTree \<Rightarrow> NodeId \<Rightarrow> MetadataTree option" where
  "drop_children 0 t i = (if first_child (node t i) \<noteq> kInvalidNode then None else Some t)"
| "drop_children (Suc fuel) t i =
    (let c = first_child (node t i) in
     if c \<noteq> kInvalidNode then
       case release_subtree (unlink_child t c) c of
         None \<Rightarrow> None
       | Some t' \<Rightarrow> drop_children fuel t' i
     else Some t)"

definition set_attributes :: "MetadataTree \<Rightarrow> NodeId \<Rightarrow> Attributes \<Rightarrow> unit result \<times> MetadataTree" where
  "set_attributes t i a =
    (if \<not> valid t i then (fail NotFound, t)
     else
       let n = node t i;
           t1 = (if is_dir n \<and> kind a \<noteq> Directory \<and> child_count n \<noteq> 0
                 then (case drop_children (length (nodes t)) t i of Some t' \<Rightarrow> t' | None \<Rightarrow> t)
                 else t)
       in (ok (), set_node t1 i (\<lambda>n. n\<lparr>attr := a\<rparr>)))"

definition upsert :: "MetadataTree \<Rightarrow> NodeId \<Rightarrow> bytes \<Rightarrow> Attributes \<Rightarrow> NodeId result \<times> MetadataTree" where
  "upsert t p nm a =
    (if \<not> valid t p then (fail NotFound, t)
     else case find_child t p nm Exact of
       Some existing \<Rightarrow>
         (case set_attributes t existing a of
            (Inl e, t') \<Rightarrow> (fail e, t')
          | (Inr _, t') \<Rightarrow> (ok existing, t'))
     | None \<Rightarrow> tree_insert t p nm a)"

definition remove :: "MetadataTree \<Rightarrow> NodeId \<Rightarrow> unit result \<times> MetadataTree" where
  "remove t i =
    (if \<not> valid t i then (fail NotFound, t)
     else if i = root then (fail InvalidArgument, t)
     else case release_subtree (unlink_child t i) i of
       Some t' \<Rightarrow> (ok (), t')
     | None \<Rightarrow> (ok (), t))"

text \<open>\<open>for (a = new_parent; a != kInvalidNode; a = parent)\<close>: does the walk meet \<open>i\<close>?\<close>

fun ancestor_walk :: "nat \<Rightarrow> MetadataTree \<Rightarrow> NodeId \<Rightarrow> NodeId \<Rightarrow> bool option" where
  "ancestor_walk 0 t i a = None"
| "ancestor_walk (Suc fuel) t i a =
    (if a = kInvalidNode then Some False
     else if a = i then Some True
     else ancestor_walk fuel t i (parent (node t a)))"

definition rename :: "MetadataTree \<Rightarrow> NodeId \<Rightarrow> NodeId \<Rightarrow> bytes \<Rightarrow> unit result \<times> MetadataTree" where
  "rename t i new_parent new_name =
    (if \<not> valid t i \<or> \<not> valid t new_parent then (fail NotFound, t)
     else if i = root then (fail InvalidArgument, t)
     else if \<not> is_dir (node t new_parent) then (fail NotADirectory, t)
     else if \<not> valid_name new_name then (fail InvalidPath, t)
     else if ancestor_walk (Suc (length (nodes t))) t i new_parent \<noteq> Some False then (fail InvalidArgument, t)
     else
       let (nid, t1) = intern_name t new_name in
       case U64Map_find (exact t1) (key new_parent nid) of
         Some existing \<Rightarrow> if existing = i then (ok (), t1) else (fail AlreadyExists, t1)
       | None \<Rightarrow>
           let (fid, t2) = intern_folded t1 new_name nid;
               t3 = unindex_node t2 i;
               t4 = unlink_child t3 i;
               t5 = set_node t4 i (\<lambda>n. n\<lparr>nname := nid, folded_name := fid\<rparr>);
               t6 = link_child t5 new_parent i
           in (ok (), index_node t6 i))"

section \<open>Paths\<close>

text \<open>The scan for one component shared by \<open>lookup\<close> and \<open>ensure_directory_path\<close>: it and the rest.\<close>

definition next_component :: "bytes \<Rightarrow> bytes \<times> bytes" where
  "next_component path =
    (let from_i = dropWhile is_path_separator path
     in (takeWhile (\<lambda>c. \<not> is_path_separator c) from_i, dropWhile (\<lambda>c. \<not> is_path_separator c) from_i))"

lemma next_component_shrinks: "path \<noteq> [] \<Longrightarrow> next_component path = (part, rest) \<Longrightarrow> length rest < length path"
  by (cases path)
    (auto simp: next_component_def Let_def split: if_splits
       intro!: le_imp_less_Suc le_trans [OF length_dropWhile_le] length_dropWhile_le)

function lookup_loop :: "MetadataTree \<Rightarrow> LookupMode \<Rightarrow> NodeId \<Rightarrow> bytes \<Rightarrow> NodeId option" where
  "lookup_loop t m cur path =
    (if path = [] then Some cur
     else case next_component path of (part, rest) \<Rightarrow>
       if part = [] \<or> part = [dot] then lookup_loop t m cur rest
       else if part = [dot, dot] then
         lookup_loop t m (if parent (node t cur) \<noteq> kInvalidNode then parent (node t cur) else cur) rest
       else (case find_child t cur part m of
         None \<Rightarrow> None
       | Some nxt \<Rightarrow> lookup_loop t m nxt rest))"
  by pat_completeness auto
termination
  by (relation "measure (\<lambda>(t, m, cur, path). length path)") (auto dest: next_component_shrinks [OF _ sym])

declare lookup_loop.simps [simp del]

definition lookup :: "MetadataTree \<Rightarrow> bytes \<Rightarrow> LookupMode \<Rightarrow> NodeId option" where
  "lookup t path m = lookup_loop t m root path"

function ensure_loop :: "MetadataTree \<Rightarrow> NodeId \<Rightarrow> bytes \<Rightarrow> NodeId result \<times> MetadataTree" where
  "ensure_loop t cur path =
    (if path = [] then (ok cur, t)
     else case next_component path of (part, rest) \<Rightarrow>
       if part = [] \<or> part = [dot] then ensure_loop t cur rest
       else if part = [dot, dot] then (fail InvalidPath, t)
       else (case find_child t cur part Exact of
         Some nxt \<Rightarrow> if \<not> is_dir (node t nxt) then (fail NotADirectory, t) else ensure_loop t nxt rest
       | None \<Rightarrow>
           (case tree_insert t cur part kImplicitDirectory of
              (Inl e, t') \<Rightarrow> (fail e, t')
            | (Inr created, t') \<Rightarrow> ensure_loop t' created rest)))"
  by pat_completeness auto
termination
  by (relation "measure (\<lambda>(t, cur, path). length path)") (auto dest: next_component_shrinks [OF _ sym])

declare ensure_loop.simps [simp del]

definition ensure_directory_path :: "MetadataTree \<Rightarrow> bytes \<Rightarrow> NodeId result \<times> MetadataTree" where
  "ensure_directory_path t path = ensure_loop t root path"

definition upsert_path :: "MetadataTree \<Rightarrow> bytes \<Rightarrow> Attributes \<Rightarrow> NodeId result \<times> MetadataTree" where
  "upsert_path t path a =
    (let norm = normalize_path path in
     if norm = [] then (fail InvalidPath, t)
     else case split_parent norm of (p, leaf) \<Rightarrow>
       (case ensure_directory_path t p of
          (Inl e, t') \<Rightarrow> (fail e, t')
        | (Inr dir, t') \<Rightarrow> upsert t' dir leaf a))"

definition remove_path :: "MetadataTree \<Rightarrow> bytes \<Rightarrow> LookupMode \<Rightarrow> unit result \<times> MetadataTree" where
  "remove_path t path m =
    (case lookup t path m of None \<Rightarrow> (fail NotFound, t) | Some i \<Rightarrow> remove t i)"

section \<open>Snapshots\<close>

definition clear :: "MetadataTree \<Rightarrow> MetadataTree" where
  "clear t =
    (let (nid, pool) = intern (StringPool_clear (names t)) [] in
     \<lparr>names = pool, nodes = [root_node nid], free = [], exact = U64Map_clear (exact t),
      folded = U64Map_clear (folded t), live = 1, collisions = 0, dropped = 0\<rparr>)"

fun load_loop :: "MetadataTree \<Rightarrow> NodeId list \<Rightarrow> SnapshotEntry list \<Rightarrow> unit result \<times> MetadataTree" where
  "load_loop t ids [] = (ok (), t)"
| "load_loop t ids (e # es) =
    (if unat (e_parent e) > length ids - 1 then (fail Corrupt, t)
     else
       let p = ids ! unat (e_parent e) in
       if p = kInvalidNode then load_loop (t\<lparr>dropped := dropped t + 1\<rparr>) (ids @ [kInvalidNode]) es
       else case tree_insert t p (e_name e) (e_attr e) of
         (Inl _, t') \<Rightarrow> load_loop (t'\<lparr>dropped := dropped t' + 1\<rparr>) (ids @ [kInvalidNode]) es
       | (Inr i, t') \<Rightarrow> load_loop t' (ids @ [i]) es)"

definition load_snapshot :: "MetadataTree \<Rightarrow> SnapshotEntry list \<Rightarrow> unit result \<times> MetadataTree" where
  "load_snapshot t es =
    (let t1 = clear t;
         t2 = t1\<lparr>exact := reserve (exact t1) (length es + 1), folded := reserve (folded t1) (length es + 1)\<rparr>
     in load_loop t2 [root] es)"

text \<open>The chain of \<open>path_of\<close>, nearest node first.\<close>

fun chain_walk :: "nat \<Rightarrow> MetadataTree \<Rightarrow> NodeId \<Rightarrow> NodeId list option" where
  "chain_walk 0 t cur = None"
| "chain_walk (Suc fuel) t cur =
    (if cur = root then Some [] else map_option ((#) cur) (chain_walk fuel t (parent (node t cur))))"

definition path_of :: "MetadataTree \<Rightarrow> NodeId \<Rightarrow> u8 \<Rightarrow> bytes" where
  "path_of t i sep =
    (if \<not> valid t i \<or> i = root then []
     else case chain_walk (Suc (length (nodes t))) t i of
       None \<Rightarrow> []
     | Some chain \<Rightarrow>
         foldl (\<lambda>out c. (if out \<noteq> [] then out @ [sep] else out) @ name_of t c) [] (rev chain))"

text \<open>\<open>export_snapshot\<close>: breadth first, the queue as its unread part.\<close>

fun export_children ::
  "MetadataTree \<Rightarrow> u32 \<Rightarrow> NodeId list \<Rightarrow> u32 \<Rightarrow> SnapshotEntry list \<times> (NodeId \<times> u32) list \<times> u32" where
  "export_children t idx [] next_index = ([], [], next_index)"
| "export_children t idx (c # cs) next_index =
    (let n = node t c;
         (es, q, k) = export_children t idx cs (next_index + 1)
     in (\<lparr>e_parent = idx, e_name = view (names t) (nname n), e_attr = attr n\<rparr> # es,
         (if is_dir n then (c, next_index) # q else q), k))"

fun export_loop :: "nat \<Rightarrow> MetadataTree \<Rightarrow> (NodeId \<times> u32) list \<Rightarrow> u32 \<Rightarrow> SnapshotEntry list option" where
  "export_loop fuel t [] next_index = Some []"
| "export_loop 0 t (x # queue) next_index = None"
| "export_loop (Suc fuel) t ((i, idx) # queue) next_index =
    (case for_each_child t i of
       None \<Rightarrow> None
     | Some cs \<Rightarrow>
         let (es, q, k) = export_children t idx cs next_index
         in map_option ((@) es) (export_loop fuel t (queue @ q) k))"

definition export_snapshot :: "MetadataTree \<Rightarrow> SnapshotEntry list option" where
  "export_snapshot t = export_loop (length (nodes t)) t [(root, 0)] 1"

end
