(* ===== verification/TreeLinks.thy ===== *)
theory TreeLinks
  imports MetadataTree
begin

text \<open>
  The sibling lists of the metadata tree.  A ghost function \<open>ch\<close> gives the children of every live
  node as a list; \<open>dll\<close> says that the pointers of a directory and of its children spell that list.
  The theory shows how linking and unlinking change the ghost lists, that the pointer walks enumerate
  them within the fuel they are given, and what each operation leaves alone.
\<close>

named_theorems tree_fields \<open>fields of the tree after an operation on its nodes or links\<close>

section \<open>Nodes\<close>

definition in_range :: "MetadataTree \<Rightarrow> NodeId \<Rightarrow> bool" where
  "in_range t i \<longleftrightarrow> unat i < length (nodes t)"

lemma set_node_fields [simp, tree_fields]:
  "length (nodes (set_node t i f)) = length (nodes t)" "names (set_node t i f) = names t"
  "free (set_node t i f) = free t" "exact (set_node t i f) = exact t" "folded (set_node t i f) = folded t"
  "live (set_node t i f) = live t" "collisions (set_node t i f) = collisions t" "dropped (set_node t i f) = dropped t"
  by (simp_all add: set_node_def)

lemma node_set_node:
  "in_range t i \<Longrightarrow> node (set_node t i f) j = (if j = i then f (node t i) else node t j)"
  by (auto simp: node_def set_node_def in_range_def nth_list_update unat_inj)

lemma in_range_set_node [simp]: "in_range (set_node t i f) j = in_range t j"
  by (simp add: in_range_def)

lemma valid_in_range: "valid t i \<Longrightarrow> in_range t i"
  by (simp add: valid_def in_range_def)

lemma node_updates [simp]:
  "node (t\<lparr>names := a\<rparr>) i = node t i" "node (t\<lparr>free := b\<rparr>) i = node t i" "node (t\<lparr>exact := c\<rparr>) i = node t i"
  "node (t\<lparr>folded := d\<rparr>) i = node t i" "node (t\<lparr>live := e\<rparr>) i = node t i" "node (t\<lparr>collisions := g\<rparr>) i = node t i"
  "node (t\<lparr>dropped := h\<rparr>) i = node t i"
  by (simp_all add: node_def)

lemma valid_updates [simp]:
  "valid (t\<lparr>names := a\<rparr>) i = valid t i" "valid (t\<lparr>free := b\<rparr>) i = valid t i" "valid (t\<lparr>exact := c\<rparr>) i = valid t i"
  "valid (t\<lparr>folded := d\<rparr>) i = valid t i" "valid (t\<lparr>live := e\<rparr>) i = valid t i" "valid (t\<lparr>collisions := g\<rparr>) i = valid t i"
  "valid (t\<lparr>dropped := h\<rparr>) i = valid t i"
  by (simp_all add: valid_def)

lemma in_range_updates [simp]:
  "in_range (t\<lparr>names := a\<rparr>) i = in_range t i" "in_range (t\<lparr>free := b\<rparr>) i = in_range t i" "in_range (t\<lparr>exact := c\<rparr>) i = in_range t i"
  "in_range (t\<lparr>folded := d\<rparr>) i = in_range t i" "in_range (t\<lparr>live := e\<rparr>) i = in_range t i"
  "in_range (t\<lparr>collisions := g\<rparr>) i = in_range t i" "in_range (t\<lparr>dropped := h\<rparr>) i = in_range t i"
  by (simp_all add: in_range_def)

text \<open>Identifiers stay below the invalid one as long as the node vector has fewer than \<open>2^32\<close> slots.\<close>

definition small :: "MetadataTree \<Rightarrow> bool" where
  "small t \<longleftrightarrow> length (nodes t) < 2 ^ 32"

lemma unat_kInvalidNode: "unat kInvalidNode = 2 ^ 32 - 1"
  by (simp add: kInvalidNode_def unsigned_minus_1_eq_mask mask_eq_exp_minus_1)

lemma not_in_range_invalid [simp]: "small t \<Longrightarrow> \<not> in_range t kInvalidNode"
  by (simp add: in_range_def small_def unat_kInvalidNode)

lemma valid_not_invalid: "small t \<Longrightarrow> valid t i \<Longrightarrow> i \<noteq> kInvalidNode"
  using not_in_range_invalid valid_in_range by blast

section \<open>Sibling lists\<close>

definition hd_or :: "NodeId list \<Rightarrow> NodeId" where
  "hd_or xs = (case xs of [] \<Rightarrow> kInvalidNode | x # _ \<Rightarrow> x)"

definition last_or :: "NodeId list \<Rightarrow> NodeId" where
  "last_or xs = (if xs = [] then kInvalidNode else last xs)"

lemma hd_or_simps [simp]: "hd_or [] = kInvalidNode" "hd_or (x # xs) = x"
  by (simp_all add: hd_or_def)

lemma last_or_simps [simp]: "last_or [] = kInvalidNode" "last_or (xs @ [x]) = x"
  by (simp_all add: last_or_def)

lemma hd_or_append: "hd_or (xs @ ys) = (if xs = [] then hd_or ys else hd_or xs)"
  by (cases xs) simp_all

lemma last_or_append: "last_or (xs @ ys) = (if ys = [] then last_or xs else last_or ys)"
  by (simp add: last_or_def)

lemma last_or_Cons: "last_or (x # ys) = (if ys = [] then x else last_or ys)"
  by (simp add: last_or_def)

lemma hd_or_in: "xs \<noteq> [] \<Longrightarrow> hd_or xs \<in> set xs" and last_or_in: "xs \<noteq> [] \<Longrightarrow> last_or xs \<in> set xs"
  by (cases xs) (simp_all add: last_or_def)

definition dll :: "MetadataTree \<Rightarrow> NodeId \<Rightarrow> NodeId list \<Rightarrow> bool" where
  "dll t p cs \<longleftrightarrow>
    first_child (node t p) = hd_or cs \<and> last_child (node t p) = last_or cs \<and>
    child_count (node t p) = of_nat (length cs) \<and> distinct cs \<and>
    (\<forall>c \<in> set cs. valid t c \<and> parent (node t c) = p) \<and>
    (\<forall>xs c ys. cs = xs @ c # ys \<longrightarrow> prev_sibling (node t c) = last_or xs \<and> next_sibling (node t c) = hd_or ys)"

definition links_ok :: "MetadataTree \<Rightarrow> (NodeId \<Rightarrow> NodeId list) \<Rightarrow> bool" where
  "links_ok t ch \<longleftrightarrow> small t \<and> (\<forall>p. valid t p \<longrightarrow> dll t p (ch p))"

lemma dll_members: "dll t p cs \<Longrightarrow> c \<in> set cs \<Longrightarrow> valid t c \<and> parent (node t c) = p"
  by (simp add: dll_def)

lemma dll_distinct: "dll t p cs \<Longrightarrow> distinct cs"
  by (simp add: dll_def)

lemma dll_split:
  "dll t p (xs @ c # ys) \<Longrightarrow> prev_sibling (node t c) = last_or xs \<and> next_sibling (node t c) = hd_or ys"
  by (simp add: dll_def)

lemma dll_length: "dll t p cs \<Longrightarrow> small t \<Longrightarrow> length cs \<le> length (nodes t)"
proof -
  assume "dll t p cs" "small t"
  then have d: "distinct (map unat cs)" and s: "set (map unat cs) \<subseteq> {..< length (nodes t)}"
    by (auto simp: dll_def distinct_map inj_on_def unat_inj valid_def)
  show ?thesis using card_mono [OF _ s] distinct_card [OF d] by simp
qed

text \<open>A list is untouched by a change that leaves its directory's ends and its members' fields alone.\<close>

lemma dll_frame:
  assumes "dll t p cs"
    and "first_child (node t' p) = first_child (node t p)" "last_child (node t' p) = last_child (node t p)"
    and "child_count (node t' p) = child_count (node t p)"
    and "\<And>c. c \<in> set cs \<Longrightarrow> valid t' c \<and> parent (node t' c) = parent (node t c) \<and>
      prev_sibling (node t' c) = prev_sibling (node t c) \<and> next_sibling (node t' c) = next_sibling (node t c)"
  shows "dll t' p cs"
proof -
  have "prev_sibling (node t' c) = last_or xs \<and> next_sibling (node t' c) = hd_or ys" if "cs = xs @ c # ys" for xs c ys
    using assms(5) [of c] that dll_split assms(1) by auto
  then show ?thesis using assms by (auto simp: dll_def)
qed

section \<open>Walking\<close>

lemma child_walk_dll:
  assumes "dll t p (xs @ ys)" and "small t" and "length ys < fuel"
  shows "child_walk fuel t (hd_or ys) = Some ys"
  using assms
proof (induction ys arbitrary: xs fuel)
  case Nil
  then show ?case by (cases fuel) auto
next
  case (Cons c ys)
  then obtain f where f: "fuel = Suc f" by (cases fuel) auto
  have "c \<noteq> kInvalidNode" using dll_members [OF Cons.prems(1)] valid_not_invalid [OF Cons.prems(2)] by auto
  moreover have "next_sibling (node t c) = hd_or ys" using dll_split [OF Cons.prems(1)] by simp
  ultimately show ?case using Cons.IH [of "xs @ [c]" f] Cons.prems f by simp
qed

lemma for_each_child_dll:
  assumes "dll t p cs" and "small t"
  shows "for_each_child t p = Some cs"
proof -
  have "first_child (node t p) = hd_or cs" using assms(1) by (simp add: dll_def)
  moreover have "length cs < Suc (length (nodes t))" using dll_length [OF assms] by simp
  ultimately show ?thesis using child_walk_dll [of t p "[]" cs] assms
    by (simp add: for_each_child_def del: child_walk.simps)
qed

lemma find_heir_dll:
  assumes "dll t p (xs @ ys)" and "small t" and "length ys < fuel"
  shows "find_heir fuel t i f (hd_or ys) = Some (List.find (\<lambda>s. s \<noteq> i \<and> folded_name (node t s) = f) ys)"
  using assms
proof (induction ys arbitrary: xs fuel)
  case Nil
  then show ?case by (cases fuel) auto
next
  case (Cons c ys)
  then obtain g where g: "fuel = Suc g" by (cases fuel) auto
  have c: "c \<noteq> kInvalidNode" using dll_members [OF Cons.prems(1)] valid_not_invalid [OF Cons.prems(2)] by auto
  have nx: "next_sibling (node t c) = hd_or ys" using dll_split [OF Cons.prems(1)] by simp
  have "find_heir g t i f (hd_or ys) = Some (List.find (\<lambda>s. s \<noteq> i \<and> folded_name (node t s) = f) ys)"
    using Cons.prems g by (intro Cons.IH [of "xs @ [c]"]) simp_all
  then show ?case unfolding g by (simp only: find_heir.simps hd_or_simps nx c find.simps if_False if_True split: if_split) simp
qed

lemma first_child_none: "dll t p cs \<Longrightarrow> small t \<Longrightarrow> first_child (node t p) = kInvalidNode \<longleftrightarrow> cs = []"
proof -
  assume d: "dll t p cs" and s: "small t"
  have "first_child (node t p) = hd_or cs" using d by (simp add: dll_def)
  then show ?thesis using dll_members [OF d] valid_not_invalid [OF s] by (cases cs) auto
qed

lemma child_count_zero: "dll t p cs \<Longrightarrow> small t \<Longrightarrow> child_count (node t p) = 0 \<longleftrightarrow> cs = []"
proof -
  assume "dll t p cs" "small t"
  then have "child_count (node t p) = of_nat (length cs)" "length cs < 2 ^ 32"
    using dll_length [of t p cs] by (auto simp: dll_def small_def)
  then show ?thesis using of_nat_word_inj [where 'a = 32, of "length cs" 0] by simp
qed

section \<open>Linking and unlinking\<close>

lemma link_child_fields [simp, tree_fields]:
  "length (nodes (link_child t p c)) = length (nodes t)" "names (link_child t p c) = names t"
  "free (link_child t p c) = free t" "exact (link_child t p c) = exact t" "folded (link_child t p c) = folded t"
  "live (link_child t p c) = live t" "collisions (link_child t p c) = collisions t" "dropped (link_child t p c) = dropped t"
  by (simp_all add: link_child_def Let_def)

lemma unlink_child_fields [simp, tree_fields]:
  "length (nodes (unlink_child t c)) = length (nodes t)" "names (unlink_child t c) = names t"
  "free (unlink_child t c) = free t" "exact (unlink_child t c) = exact t" "folded (unlink_child t c) = folded t"
  "live (unlink_child t c) = live t" "collisions (unlink_child t c) = collisions t" "dropped (unlink_child t c) = dropped t"
  by (simp_all add: unlink_child_def Let_def)

lemma link_child_node:
  assumes "in_range t p" "in_range t c" "last_child (node t p) \<noteq> kInvalidNode \<longrightarrow> in_range t (last_child (node t p))"
    and "last_child (node t p) \<noteq> c"
  shows "parent (node (link_child t p c) j) = (if j = c then p else parent (node t j))"
    and "next_sibling (node (link_child t p c) j) = (if j = c then kInvalidNode
           else if j = last_child (node t p) \<and> j \<noteq> kInvalidNode then c else next_sibling (node t j))"
    and "prev_sibling (node (link_child t p c) j) = (if j = c then last_child (node t p) else prev_sibling (node t j))"
    and "first_child (node (link_child t p c) j) =
           (if j = p \<and> last_child (node t p) = kInvalidNode then c else first_child (node t j))"
    and "last_child (node (link_child t p c) j) = (if j = p then c else last_child (node t j))"
    and "child_count (node (link_child t p c) j) = (if j = p then child_count (node t j) + 1 else child_count (node t j))"
    and "nname (node (link_child t p c) j) = nname (node t j)"
    and "folded_name (node (link_child t p c) j) = folded_name (node t j)"
    and "attr (node (link_child t p c) j) = attr (node t j)"
  using assms by (cases "last_child (node t p) = kInvalidNode"; simp add: link_child_def Let_def node_set_node)+

lemma unlink_child_node:
  assumes "in_range t c" "in_range t (parent (node t c))"
    and "prev_sibling (node t c) \<noteq> kInvalidNode \<longrightarrow> in_range t (prev_sibling (node t c))"
    and "next_sibling (node t c) \<noteq> kInvalidNode \<longrightarrow> in_range t (next_sibling (node t c))"
  shows "parent (node (unlink_child t c) j) = parent (node t j)"
    and "next_sibling (node (unlink_child t c) j) = (if j = c then kInvalidNode
           else if j = prev_sibling (node t c) \<and> j \<noteq> kInvalidNode then next_sibling (node t c) else next_sibling (node t j))"
    and "prev_sibling (node (unlink_child t c) j) = (if j = c then kInvalidNode
           else if j = next_sibling (node t c) \<and> j \<noteq> kInvalidNode then prev_sibling (node t c) else prev_sibling (node t j))"
    and "first_child (node (unlink_child t c) j) =
           (if j = parent (node t c) \<and> prev_sibling (node t c) = kInvalidNode then next_sibling (node t c) else first_child (node t j))"
    and "last_child (node (unlink_child t c) j) =
           (if j = parent (node t c) \<and> next_sibling (node t c) = kInvalidNode then prev_sibling (node t c) else last_child (node t j))"
    and "child_count (node (unlink_child t c) j) =
           (if j = parent (node t c) then child_count (node t j) - 1 else child_count (node t j))"
    and "nname (node (unlink_child t c) j) = nname (node t j)"
    and "folded_name (node (unlink_child t c) j) = folded_name (node t j)"
    and "attr (node (unlink_child t c) j) = attr (node t j)"
  using assms by (cases "prev_sibling (node t c) = kInvalidNode"; cases "next_sibling (node t c) = kInvalidNode";
      simp add: unlink_child_def Let_def node_set_node)+

lemma links_small: "links_ok t ch \<Longrightarrow> small t" and links_dll: "links_ok t ch \<Longrightarrow> valid t p \<Longrightarrow> dll t p (ch p)"
  by (simp_all add: links_ok_def)

lemma links_parent: "links_ok t ch \<Longrightarrow> valid t p \<Longrightarrow> c \<in> set (ch p) \<Longrightarrow> valid t c \<and> parent (node t c) = p"
  using links_dll dll_members by blast

text \<open>Linking a live node that is in no list appends it to its parent's.\<close>

lemma links_last_child:
  assumes L: "links_ok t ch" and p: "valid t p"
  shows "last_child (node t p) = last_or (ch p)" and "last_child (node t p) = kInvalidNode \<longleftrightarrow> ch p = []"
    and "ch p \<noteq> [] \<Longrightarrow> last_child (node t p) \<in> set (ch p)"
proof -
  show lc: "last_child (node t p) = last_or (ch p)" using links_dll [OF L p] by (simp add: dll_def)
  show m: "ch p \<noteq> [] \<Longrightarrow> last_child (node t p) \<in> set (ch p)" using lc last_or_in by simp
  show "last_child (node t p) = kInvalidNode \<longleftrightarrow> ch p = []"
    using m links_parent [OF L p] valid_not_invalid [OF links_small [OF L]] lc by (cases "ch p = []") auto
qed

lemma link_child_node_ok:
  assumes L: "links_ok t ch" and p: "valid t p" and c: "valid t c" and fresh: "\<forall>q. valid t q \<longrightarrow> c \<notin> set (ch q)"
  shows "in_range t p" "in_range t c" "last_child (node t p) \<noteq> kInvalidNode \<longrightarrow> in_range t (last_child (node t p))"
    and "last_child (node t p) \<noteq> c"
proof -
  note lc = links_last_child [OF L p]
  show "in_range t p" "in_range t c" using p c valid_in_range by auto
  show "last_child (node t p) \<noteq> kInvalidNode \<longrightarrow> in_range t (last_child (node t p))"
    using lc(2,3) links_parent [OF L p] valid_in_range by blast
  show "last_child (node t p) \<noteq> c"
    using lc(2,3) fresh p valid_not_invalid [OF links_small [OF L] c] by (cases "ch p = []") auto
qed

lemma link_child_links:
  assumes L: "links_ok t ch" and p: "valid t p" and c: "valid t c" and fresh: "\<forall>q. valid t q \<longrightarrow> c \<notin> set (ch q)"
  shows "links_ok (link_child t p c) (ch(p := ch p @ [c]))" and "valid (link_child t p c) j = valid t j"
    and "parent (node (link_child t p c) j) = (if j = c then p else parent (node t j))"
    and "nname (node (link_child t p c) j) = nname (node t j)"
    and "folded_name (node (link_child t p c) j) = folded_name (node t j)"
    and "attr (node (link_child t p c) j) = attr (node t j)"
proof -
  let ?t = "link_child t p c" and ?lc = "last_child (node t p)"
  note dp = links_dll [OF L p]
  note lc = links_last_child(1) [OF L p] and lci = links_last_child(2) [OF L p] and lcm = links_last_child(3) [OF L p]
  note ln = link_child_node_ok [OF L p c fresh]
  note n = link_child_node [OF ln]
  show "parent (node ?t j) = (if j = c then p else parent (node t j))" "nname (node ?t j) = nname (node t j)"
    "folded_name (node ?t j) = folded_name (node t j)" "attr (node ?t j) = attr (node t j)" by (simp_all add: n)
  show v: "valid ?t j = valid t j" for j by (simp add: valid_def n)
  have "dll ?t p (ch p @ [c])"
  proof -
    have "prev_sibling (node ?t d) = last_or xs \<and> next_sibling (node ?t d) = hd_or ys" if "ch p @ [c] = xs @ d # ys" for xs d ys
    proof (cases ys rule: rev_cases)
      case Nil
      then have e: "d = c" "xs = ch p" using that by auto
      show ?thesis unfolding e Nil by (simp add: n lc)
    next
      case (snoc ys' y)
      then have s: "ch p = xs @ d # ys'" "y = c" using that by auto
      have "d \<noteq> c" "d \<noteq> kInvalidNode" using s(1) fresh p links_parent [OF L p, of d] valid_not_invalid [OF links_small [OF L]] by auto
      moreover have "d = ?lc \<longleftrightarrow> ys' = []"
        using dll_distinct [OF dp] s(1) by (auto simp: lc last_or_append last_or_Cons dest!: last_or_in)
      ultimately show ?thesis using dll_split [of t p xs d ys'] dp s snoc by (auto simp: n hd_or_append)
    qed
    then show ?thesis using dp fresh p c lci
      by (auto simp: dll_def n v hd_or_append)
  qed
  moreover have "dll ?t q (ch q)" if q: "valid t q" "q \<noteq> p" for q
  proof (rule dll_frame [OF links_dll [OF L q(1)]])
    show "valid ?t d \<and> parent (node ?t d) = parent (node t d) \<and> prev_sibling (node ?t d) = prev_sibling (node t d) \<and>
        next_sibling (node ?t d) = next_sibling (node t d)" if d: "d \<in> set (ch q)" for d
    proof -
      have "d \<noteq> c" using d fresh q(1) by auto
      moreover have "d \<noteq> ?lc" if "?lc \<noteq> kInvalidNode"
        using that lci lcm links_parent [OF L p, of ?lc] links_parent [OF L q(1) d] q(2) by auto
      ultimately show ?thesis using links_parent [OF L q(1) d] by (auto simp: n v)
    qed
  qed (use q in \<open>simp_all add: n\<close>)
  ultimately show "links_ok ?t (ch(p := ch p @ [c]))"
    using links_small [OF L] by (auto simp: links_ok_def v small_def)
qed

text \<open>Unlinking a listed node removes it from its parent's list.\<close>

lemma unlink_child_node_ok:
  assumes L: "links_ok t ch" and c: "valid t (parent (node t c))" "c \<in> set (ch (parent (node t c)))"
  shows "in_range t c" "in_range t (parent (node t c))"
    and "prev_sibling (node t c) \<noteq> kInvalidNode \<longrightarrow> in_range t (prev_sibling (node t c))"
    and "next_sibling (node t c) \<noteq> kInvalidNode \<longrightarrow> in_range t (next_sibling (node t c))"
proof -
  let ?p = "parent (node t c)"
  obtain xs ys where s: "ch ?p = xs @ c # ys" using c(2) by (meson split_list)
  have d: "dll t ?p (xs @ c # ys)" using links_dll [OF L c(1)] s by simp
  have m: "in_range t x" if "x \<in> set (xs @ c # ys)" for x using dll_members [OF d that] valid_in_range by blast
  show "in_range t c" "in_range t ?p" using m c(1) valid_in_range by auto
  show "prev_sibling (node t c) \<noteq> kInvalidNode \<longrightarrow> in_range t (prev_sibling (node t c))"
    using dll_split [OF d] m last_or_in [of xs] by (cases "xs = []") auto
  show "next_sibling (node t c) \<noteq> kInvalidNode \<longrightarrow> in_range t (next_sibling (node t c))"
    using dll_split [OF d] m hd_or_in [of ys] by (cases "ys = []") auto
qed

lemma remove1_split: "distinct (xs @ c # ys) \<Longrightarrow> remove1 c (xs @ c # ys) = xs @ ys"
  by (simp add: remove1_append)

lemma unlink_child_dll:
  assumes L: "links_ok t ch" and c: "valid t p" "ch p = xs @ c # ys"
  shows "dll (unlink_child t c) p (xs @ ys)"
proof -
  let ?t = "unlink_child t c"
  note dp = links_dll [OF L c(1), unfolded c(2)] and sm = links_small [OF L]
  have pc: "parent (node t c) = p" using dll_members [OF dp] by simp
  note n = unlink_child_node [OF unlink_child_node_ok [OF L, of c], unfolded pc, OF c(1) _ c(1) _ c(1) _ c(1)]
  have cm: "c \<in> set (ch p)" using c(2) by simp
  note n = n [OF cm cm cm cm]
  have pv: "prev_sibling (node t c) = last_or xs" and nx: "next_sibling (node t c) = hd_or ys" using dll_split [OF dp] by auto
  have vm: "valid t d" "d \<noteq> kInvalidNode" if "d \<in> set (xs @ ys)" for d
    using dll_members [OF dp, of d] that valid_not_invalid [OF sm] by auto
  have dis: "distinct (xs @ c # ys)" using dll_distinct [OF dp] .
  have "prev_sibling (node ?t d) = last_or us \<and> next_sibling (node ?t d) = hd_or vs" if e: "xs @ ys = us @ d # vs" for us d vs
  proof -
    from e consider (l) ws where "xs = us @ d # ws" "vs = ws @ ys" | (r) ws where "ys = ws @ d # vs" "us = xs @ ws"
      by (auto simp: append_eq_append_conv2 Cons_eq_append_conv append_eq_Cons_conv)
    then show ?thesis
    proof cases
      case l
      have o: "prev_sibling (node t d) = last_or us \<and> next_sibling (node t d) = hd_or (ws @ c # ys)"
        using dll_split [of t p us d "ws @ c # ys"] dp l(1) by simp
      have "d \<noteq> c" "d \<noteq> kInvalidNode" "d \<noteq> hd_or ys" using dis vm [of d] l(1) hd_or_in [of ys] by (cases ys; auto)+
      moreover have "d = last_or xs \<longleftrightarrow> ws = []"
        using dis l(1) last_or_in [of ws] by (auto simp: last_or_append last_or_Cons)
      ultimately show ?thesis using o l by (auto simp: n pv nx hd_or_append)
    next
      case r
      have o: "prev_sibling (node t d) = last_or (xs @ c # ws) \<and> next_sibling (node t d) = hd_or vs"
        using dll_split [of t p "xs @ c # ws" d vs] dp r(1) by simp
      have "d \<noteq> c" "d \<noteq> kInvalidNode" "d \<noteq> last_or xs"
        using dis vm [of d] r(1) last_or_in [of xs] by (cases "xs = []"; auto)+
      moreover have "d = hd_or ys \<longleftrightarrow> ws = []" using dis r(1) hd_or_in [of ws] by (auto simp: hd_or_append)
      ultimately show ?thesis using o r by (auto simp: n pv nx last_or_append last_or_Cons)
    qed
  qed
  moreover have "first_child (node ?t p) = hd_or (xs @ ys)" "last_child (node ?t p) = last_or (xs @ ys)"
    "child_count (node ?t p) = of_nat (length (xs @ ys))"
    using dp vm last_or_in [of xs] hd_or_in [of ys]
    by (auto simp: n pv nx pc dll_def hd_or_append last_or_append last_or_Cons)
  moreover have "valid ?t d \<and> parent (node ?t d) = p" if "d \<in> set (xs @ ys)" for d
    using dll_members [OF dp, of d] that by (auto simp: n valid_def)
  ultimately show ?thesis using dis by (auto simp: dll_def)
qed

lemma unlink_child_links:
  assumes L: "links_ok t ch" and p: "valid t p" "c \<in> set (ch p)"
  shows "links_ok (unlink_child t c) (ch(p := remove1 c (ch p)))" and "valid (unlink_child t c) j = valid t j"
    and "parent (node (unlink_child t c) j) = parent (node t j)" "nname (node (unlink_child t c) j) = nname (node t j)"
    and "folded_name (node (unlink_child t c) j) = folded_name (node t j)" "attr (node (unlink_child t c) j) = attr (node t j)"
proof -
  let ?t = "unlink_child t c"
  obtain xs ys where s: "ch p = xs @ c # ys" using p(2) by (meson split_list)
  have pc: "parent (node t c) = p" using links_parent [OF L p] by simp
  note n = unlink_child_node [OF unlink_child_node_ok [OF L, of c], unfolded pc, OF p p p p]
  show v: "valid ?t j = valid t j" for j by (simp add: valid_def n)
  show "parent (node ?t j) = parent (node t j)" "nname (node ?t j) = nname (node t j)"
    "folded_name (node ?t j) = folded_name (node t j)" "attr (node ?t j) = attr (node t j)" by (simp_all add: n)
  have r: "remove1 c (ch p) = xs @ ys" using dll_distinct [OF links_dll [OF L p(1)]] s remove1_split by metis
  have sib: "prev_sibling (node t c) \<in> insert kInvalidNode (set (ch p))" "next_sibling (node t c) \<in> insert kInvalidNode (set (ch p))"
    using dll_split [of t p xs c ys] links_dll [OF L p(1)] s last_or_in [of xs] hd_or_in [of ys]
    by (cases "xs = []"; cases "ys = []"; auto)+
  have "dll ?t q (ch q)" if q: "valid t q" "q \<noteq> p" for q
  proof (rule dll_frame [OF links_dll [OF L q(1)]])
    show "valid ?t d \<and> parent (node ?t d) = parent (node t d) \<and> prev_sibling (node ?t d) = prev_sibling (node t d) \<and>
        next_sibling (node ?t d) = next_sibling (node t d)" if d: "d \<in> set (ch q)" for d
    proof -
      have "d \<notin> set (ch p)" using links_parent [OF L q(1) d] links_parent [OF L p(1)] q(2) by auto
      then have "d \<noteq> c" "d \<noteq> kInvalidNode \<longrightarrow> d \<noteq> prev_sibling (node t c) \<and> d \<noteq> next_sibling (node t c)"
        using sib p(2) by auto
      then show ?thesis using links_parent [OF L q(1) d] by (auto simp: n v)
    qed
  qed (use q pc in \<open>simp_all add: n\<close>)
  then show "links_ok ?t (ch(p := remove1 c (ch p)))"
    using links_small [OF L] unlink_child_dll [OF L p(1) s] r by (auto simp: links_ok_def v small_def)
qed

end
