(* ===== verification/TreeIndex.thy ===== *)
theory TreeIndex
  imports TreeLinks
begin

text \<open>
  The two indices of the metadata tree over a set of indexed nodes.  The exact index maps
  (parent, name) to the one node that has them; the folded index maps (parent, folded name) to one of
  the nodes that have them, and the collision counter counts the nodes that do not own their folded
  slot.  \<open>index_node\<close> adds a node to the set, \<open>unindex_node\<close> takes one out, handing its folded slot
  to a sibling when there is one.
\<close>

section \<open>Keys\<close>

lemma key_high: "drop_bit 32 (key p n) = ucast p" and key_low: "take_bit 32 (key p n) = ucast n"
  unfolding key_def
  by (rule bit_eqI, auto simp: bit_simps dest: bit_imp_le_length)+

lemma widen_inject: "(ucast (p :: u32) :: u64) = ucast q \<longleftrightarrow> p = q"
proof
  assume "(ucast p :: u64) = ucast q"
  then have "unat (ucast p :: u64) = unat (ucast q :: u64)" by simp
  then show "p = q" using unat_word_less_2p [of p] unat_word_less_2p [of q]
    by (simp add: unsigned_ucast_eq unat_inj take_bit_nat_eq_self)
qed simp

lemma key_inject: "key p n = key q m \<longleftrightarrow> p = q \<and> n = m"
proof
  assume "key p n = key q m"
  then have "(ucast p :: u64) = ucast q" "(ucast n :: u64) = ucast m" using key_high key_low by metis+
  then show "p = q \<and> n = m" by (simp add: widen_inject)
qed simp

lemma key_ok_key: "p \<noteq> kInvalidNode \<Longrightarrow> key_ok (key p n)"
proof -
  assume p: "p \<noteq> kInvalidNode"
  have "(ucast p :: u64) \<noteq> 0xFFFFFFFF"
  proof
    assume "(ucast p :: u64) = 0xFFFFFFFF"
    then have "(ucast p :: u64) = ucast (0xFFFFFFFF :: u32)" by simp
    then have "p = 0xFFFFFFFF" by (simp only: widen_inject)
    then show False using p by (simp add: kInvalidNode_def)
  qed
  moreover have "drop_bit 32 kEmpty = (0xFFFFFFFF :: u64)" "drop_bit 32 kTombstone = (0xFFFFFFFF :: u64)"
    by (simp_all add: kEmpty_def kTombstone_def mask_eq_exp_minus_1)
  ultimately show ?thesis using key_high [of p n] by (auto simp: key_ok_def)
qed

section \<open>Indexed sets\<close>

definition ekey :: "MetadataTree \<Rightarrow> NodeId \<Rightarrow> u64" where
  "ekey t i = key (parent (node t i)) (nname (node t i))"

definition fkey :: "MetadataTree \<Rightarrow> NodeId \<Rightarrow> u64" where
  "fkey t i = key (parent (node t i)) (folded_name (node t i))"

definition exact_ok :: "MetadataTree \<Rightarrow> NodeId set \<Rightarrow> bool" where
  "exact_ok t I \<longleftrightarrow> U64Map_inv (exact t) \<and> (\<forall>k i. U64Map_abs (exact t) k = Some i \<longleftrightarrow> i \<in> I \<and> ekey t i = k)"

definition owns :: "MetadataTree \<Rightarrow> NodeId \<Rightarrow> bool" where
  "owns t i \<longleftrightarrow> U64Map_abs (folded t) (fkey t i) = Some i"

definition folded_ok :: "MetadataTree \<Rightarrow> NodeId set \<Rightarrow> bool" where
  "folded_ok t I \<longleftrightarrow> U64Map_inv (folded t) \<and>
    (\<forall>k i. U64Map_abs (folded t) k = Some i \<longrightarrow> i \<in> I \<and> fkey t i = k) \<and>
    (\<forall>i \<in> I. U64Map_abs (folded t) (fkey t i) \<noteq> None) \<and> collisions t = card {i \<in> I. \<not> owns t i}"

definition index_ok :: "MetadataTree \<Rightarrow> NodeId set \<Rightarrow> bool" where
  "index_ok t I \<longleftrightarrow> exact_ok t I \<and> folded_ok t I \<and> (\<forall>i \<in> I. parent (node t i) \<noteq> kInvalidNode)"

lemma index_node_nodes [simp]: "node (index_node t i) j = node t j" "valid (index_node t i) j = valid t j"
  "in_range (index_node t i) j = in_range t j" "nodes (index_node t i) = nodes t" "names (index_node t i) = names t"
  "free (index_node t i) = free t" "live (index_node t i) = live t" "dropped (index_node t i) = dropped t"
  by (simp_all add: index_node_def Let_def split_beta)

lemma unindex_node_nodes [simp]: "node (unindex_node t i) j = node t j" "valid (unindex_node t i) j = valid t j"
  "in_range (unindex_node t i) j = in_range t j" "nodes (unindex_node t i) = nodes t" "names (unindex_node t i) = names t"
  "free (unindex_node t i) = free t" "live (unindex_node t i) = live t" "dropped (unindex_node t i) = dropped t"
  by (simp_all add: unindex_node_def Let_def split: option.split)

lemma dll_nodes: "nodes t' = nodes t \<Longrightarrow> dll t' = dll t"
  by (simp add: fun_eq_iff dll_def node_def valid_def)

lemma links_ok_nodes: "nodes t' = nodes t \<Longrightarrow> links_ok t' = links_ok t"
proof -
  assume e: "nodes t' = nodes t"
  show ?thesis by (simp add: fun_eq_iff links_ok_def dll_nodes [OF e] valid_def node_def e small_def)
qed

lemma index_node_exact:
  assumes "exact_ok t I" and "parent (node t i) \<noteq> kInvalidNode" and "i \<notin> I" and "U64Map_abs (exact t) (ekey t i) = None"
  shows "exact_ok (index_node t i) (insert i I)"
proof -
  have "exact (index_node t i) = snd (insert_or_assign (exact t) (ekey t i) i)"
    by (simp add: index_node_def ekey_def Let_def split_beta)
  moreover have "key_ok (ekey t i)" using assms(2) by (simp add: ekey_def key_ok_key)
  ultimately have "U64Map_inv (exact (index_node t i))" "U64Map_abs (exact (index_node t i)) = (U64Map_abs (exact t))(ekey t i \<mapsto> i)"
    using assms(1) by (simp_all add: exact_ok_def idx.inv_assign idx.abs_assign)
  moreover have "ekey t j \<noteq> ekey t i" if "j \<in> I" for j
    using assms(1,4) that unfolding exact_ok_def by (metis option.distinct(1))
  moreover have "ekey (index_node t i) = ekey t" by (simp add: fun_eq_iff ekey_def)
  ultimately show ?thesis using assms(1,3) by (auto simp: exact_ok_def)
qed

lemma index_node_folded:
  assumes f: "folded_ok t I" and "parent (node t i) \<noteq> kInvalidNode" and "i \<notin> I" and fin: "finite I"
  shows "folded_ok (index_node t i) (insert i I)"
proof -
  let ?t = "index_node t i" and ?A = "U64Map_abs (folded t)" and ?k = "fkey t i"
  have k: "key_ok ?k" using assms(2) by (simp add: fkey_def key_ok_key)
  obtain b m where m: "insert_if_absent (folded t) ?k i = (b, m)" by (cases "insert_if_absent (folded t) ?k i")
  from idx.add_ok [OF _ k m] f have mi: "U64Map_inv m" "b \<longleftrightarrow> ?A ?k = None"
    "U64Map_abs m = (if ?A ?k = None then ?A(?k \<mapsto> i) else ?A)" by (auto simp: folded_ok_def)
  have t: "folded ?t = m" "collisions ?t = (if b then collisions t else collisions t + 1)"
    using m by (simp_all add: index_node_def fkey_def Let_def)
  have fk: "fkey ?t j = fkey t j" for j by (simp add: fkey_def)
  show ?thesis
  proof (cases "?A ?k = None")
    case True
    have ne: "fkey t j \<noteq> ?k" if "j \<in> I" for j using f True that by (auto simp: folded_ok_def)
    have ow: "owns ?t j = owns t j" if "j \<in> I" for j using ne [OF that] mi True by (simp add: owns_def t fk)
    have "owns ?t i" using mi True by (simp add: owns_def t fk)
    then have "{j \<in> insert i I. \<not> owns ?t j} = {j \<in> I. \<not> owns t j}" using ow by auto
    then show ?thesis using f mi True ne by (auto simp: folded_ok_def t fk)
  next
    case False
    have ow: "owns ?t j = owns t j" for j using mi False by (simp add: owns_def t fk)
    have "\<not> owns t i" using f assms(3) by (auto simp: owns_def folded_ok_def)
    then have "{j \<in> insert i I. \<not> owns ?t j} = insert i {j \<in> I. \<not> owns t j}" using ow by auto
    then show ?thesis using f mi False fin assms(3) by (auto simp: folded_ok_def t fk)
  qed
qed

lemma index_node_ok:
  assumes "index_ok t I" and "parent (node t i) \<noteq> kInvalidNode" and "i \<notin> I" and "finite I" and "U64Map_abs (exact t) (ekey t i) = None"
  shows "index_ok (index_node t i) (insert i I)"
  using assms index_node_exact index_node_folded by (auto simp: index_ok_def)

lemma unindex_node_exact:
  assumes "exact_ok t I" and "parent (node t i) \<noteq> kInvalidNode" and "i \<in> I"
  shows "exact_ok (unindex_node t i) (I - {i})"
proof -
  have "exact (unindex_node t i) = snd (U64Map_erase (exact t) (ekey t i))"
    by (simp add: unindex_node_def ekey_def Let_def split: option.split)
  moreover have "key_ok (ekey t i)" using assms(2) by (simp add: ekey_def key_ok_key)
  ultimately have "U64Map_inv (exact (unindex_node t i))" "U64Map_abs (exact (unindex_node t i)) = (U64Map_abs (exact t))(ekey t i := None)"
    using assms(1) by (simp_all add: exact_ok_def idx.inv_del idx.abs_del)
  moreover have "ekey t j \<noteq> ekey t i" if "j \<in> I" "j \<noteq> i" for j
    using assms(1,3) that unfolding exact_ok_def by (metis option.inject)
  moreover have "ekey (unindex_node t i) = ekey t" by (simp add: fun_eq_iff ekey_def)
  ultimately show ?thesis using assms(1) by (auto simp: exact_ok_def)
qed

text \<open>The folded index after the slot of \<open>i\<close> is given up: the three outcomes of \<open>unindex_node\<close>.\<close>

lemma folded_drop_shadowed:
  assumes f: "folded_ok t I" and i: "i \<in> I" "\<not> owns t i" and fin: "finite I"
    and t': "folded t' = folded t" "collisions t' = collisions t - 1" "fkey t' = fkey t"
  shows "folded_ok t' (I - {i})"
proof -
  have o: "owns t' = owns t" by (simp add: fun_eq_iff owns_def t')
  have "{j \<in> I - {i}. \<not> owns t j} = {j \<in> I. \<not> owns t j} - {i}" by auto
  then show ?thesis using f i fin by (auto simp: folded_ok_def t' o card_Diff_singleton owns_def)
qed

lemma folded_drop_alone:
  assumes f: "folded_ok t I" and i: "i \<in> I" "owns t i" and fin: "finite I"
    and alone: "\<forall>j \<in> I. j \<noteq> i \<longrightarrow> fkey t j \<noteq> fkey t i"
    and t': "U64Map_inv (folded t')" "U64Map_abs (folded t') = (U64Map_abs (folded t))(fkey t i := None)"
      "collisions t' = collisions t" "fkey t' = fkey t"
  shows "folded_ok t' (I - {i})"
proof -
  have "owns t' j = owns t j" if "j \<in> I - {i}" for j using alone that by (auto simp: owns_def t')
  then have "{j \<in> I - {i}. \<not> owns t' j} = {j \<in> I. \<not> owns t j}" using i by auto
  moreover have "k \<noteq> fkey t i \<Longrightarrow> U64Map_abs (folded t) k = Some j \<Longrightarrow> j \<noteq> i" for j k using f by (auto simp: folded_ok_def)
  ultimately show ?thesis using f alone by (auto simp: folded_ok_def t')
qed

lemma folded_hand_over:
  assumes f: "folded_ok t I" and i: "i \<in> I" "owns t i" and fin: "finite I"
    and s: "s \<in> I" "s \<noteq> i" "fkey t s = fkey t i"
    and t': "U64Map_inv (folded t')" "U64Map_abs (folded t') = (U64Map_abs (folded t))(fkey t i \<mapsto> s)"
      "collisions t' = collisions t - 1" "fkey t' = fkey t"
  shows "folded_ok t' (I - {i})"
proof -
  have "owns t' j \<longleftrightarrow> owns t j \<or> j = s" if "j \<in> I - {i}" for j
    using i(2) s(3) that by (auto simp: owns_def t')
  then have "{j \<in> I - {i}. \<not> owns t' j} = {j \<in> I. \<not> owns t j} - {s}" using i by auto
  moreover have "\<not> owns t s" using i(2) s by (simp add: owns_def)
  moreover have "k \<noteq> fkey t i \<Longrightarrow> U64Map_abs (folded t) k = Some j \<Longrightarrow> j \<noteq> i" for j k using f by (auto simp: folded_ok_def)
  ultimately show ?thesis using f s fin by (auto simp: folded_ok_def t' card_Diff_singleton)
qed

lemma unindex_node_folded:
  assumes f: "folded_ok t I" and p: "parent (node t i) \<noteq> kInvalidNode" and i: "i \<in> I" and fin: "finite I"
    and sm: "small t" and d: "dll t (parent (node t i)) cs"
    and cs: "\<forall>j \<in> I. j \<noteq> i \<and> parent (node t j) = parent (node t i) \<longrightarrow> j \<in> set cs" "set cs \<subseteq> I"
  shows "folded_ok (unindex_node t i) (I - {i})"
proof -
  let ?t = "unindex_node t i" and ?k = "fkey t i"
  let ?t1 = "t\<lparr>exact := snd (U64Map_erase (exact t) (ekey t i))\<rparr>"
  let ?t2 = "?t1\<lparr>folded := snd (U64Map_erase (folded t) ?k)\<rparr>"
  have inv: "U64Map_inv (folded t)" and k: "key_ok ?k" using f p by (auto simp: folded_ok_def fkey_def key_ok_key)
  have fk: "fkey ?t = fkey t" by (simp add: fun_eq_iff fkey_def)
  obtain own where own: "U64Map_abs (folded t) ?k = Some own" using f i by (auto simp: folded_ok_def)
  note fnd = idx.lookup_ok [OF inv k, unfolded own]
  have E: "U64Map_inv (folded ?t2)" "U64Map_abs (folded ?t2) = (U64Map_abs (folded t))(?k := None)"
    using inv k by (simp_all add: idx.inv_del idx.abs_del)
  have unf: "?t = (if own \<noteq> i then ?t1\<lparr>collisions := collisions t - 1\<rparr>
      else if collisions t = 0 then ?t2
      else case find_heir (Suc (length (nodes t))) ?t2 i (folded_name (node t i)) (first_child (node t (parent (node t i)))) of
             Some (Some s) \<Rightarrow> ?t2\<lparr>folded := snd (insert_if_absent (folded ?t2) ?k s), collisions := collisions t - 1\<rparr>
           | _ \<Rightarrow> ?t2)"
    using fnd unfolding unindex_node_def Let_def ekey_def fkey_def by (simp del: find_heir.simps split: option.split)
  have d2: "dll ?t2 (parent (node t i)) cs" "small ?t2" using d sm dll_nodes [of ?t2 t] by (simp_all add: small_def)
  have fc: "first_child (node t (parent (node t i))) = hd_or cs" using d by (simp add: dll_def)
  have heir: "find_heir (Suc (length (nodes t))) ?t2 i (folded_name (node t i)) (first_child (node t (parent (node t i)))) =
      Some (List.find (\<lambda>s. s \<noteq> i \<and> folded_name (node t s) = folded_name (node t i)) cs)"
    using find_heir_dll [of ?t2 "parent (node t i)" "[]" cs] d2 dll_length [OF d sm] unfolding fc by (simp del: find_heir.simps)
  have same: "fkey t j = ?k \<longleftrightarrow> parent (node t j) = parent (node t i) \<and> folded_name (node t j) = folded_name (node t i)" for j
    by (simp add: fkey_def key_inject)
  show ?thesis
  proof (cases "own = i")
    case False
    then have "\<not> owns t i" using own by (simp add: owns_def)
    then show ?thesis using folded_drop_shadowed [OF f i _ fin, of ?t] False fk unf by simp
  next
    case True
    then have ow: "owns t i" using own by (simp add: owns_def)
    show ?thesis
    proof (cases "collisions t = 0 \<or> List.find (\<lambda>s. s \<noteq> i \<and> folded_name (node t s) = folded_name (node t i)) cs = None")
      case none: True
      then have t': "?t = ?t2" using unf True heir by auto
      have "fkey t j \<noteq> ?k" if j: "j \<in> I" "j \<noteq> i" for j
      proof
        assume e: "fkey t j = ?k"
        then have "\<not> owns t j" using ow j by (auto simp: owns_def)
        then have "collisions t \<noteq> 0" using f j fin by (auto simp: folded_ok_def)
        moreover have "j \<in> set cs" using cs(1) j e same by blast
        ultimately show False using none e j same by (auto simp: find_None_iff)
      qed
      then show ?thesis using folded_drop_alone [OF f i ow fin, of ?t] E fk t' by simp
    next
      case False
      then obtain s where s: "List.find (\<lambda>s. s \<noteq> i \<and> folded_name (node t s) = folded_name (node t i)) cs = Some s" by auto
      then have sp: "s \<in> set cs" "s \<noteq> i" "folded_name (node t s) = folded_name (node t i)" by (auto simp: find_Some_iff)
      then have si: "s \<in> I" "fkey t s = ?k" using cs(2) dll_members [OF d] same by auto
      have t': "?t = ?t2\<lparr>folded := snd (insert_if_absent (folded ?t2) ?k s), collisions := collisions t - 1\<rparr>"
        using unf True heir s False by simp
      have "U64Map_inv (folded ?t)" "U64Map_abs (folded ?t) = (U64Map_abs (folded t))(?k \<mapsto> s)"
        using E k idx.inv_add [OF E(1) k, of s] idx.abs_add_fresh [OF E(1) k, of s] by (simp_all add: t')
      then show ?thesis using folded_hand_over [OF f i ow fin si(1) sp(2) si(2), of ?t] fk t' by simp
    qed
  qed
qed

lemma unindex_node_ok:
  assumes "index_ok t I" and "i \<in> I" and "finite I" and "small t" and "dll t (parent (node t i)) cs"
    and "\<forall>j \<in> I. j \<noteq> i \<and> parent (node t j) = parent (node t i) \<longrightarrow> j \<in> set cs" "set cs \<subseteq> I"
  shows "index_ok (unindex_node t i) (I - {i})"
  using assms unindex_node_exact [of t I i] unindex_node_folded [of t I i cs] by (simp add: index_ok_def)

end
