(* ===== verification/TreeInv.thy ===== *)
theory TreeInv
  imports TreeIndex
begin

text \<open>
  The invariant of the metadata tree and the release of subtrees.  \<open>tree_core t ch D U ss\<close> describes
  a tree with ghost child lists \<open>ch\<close> and interned names \<open>ss\<close> in which the nodes of \<open>D\<close> are detached
  (live but in no list) and the nodes of \<open>U\<close> are in neither index; between operations both sets are
  empty.  \<open>release_subtree\<close> is shown to end within the fuel it is given and to remove exactly the
  node it is given with everything below it.
\<close>

section \<open>The invariant\<close>

definition slots_ok :: "MetadataTree \<Rightarrow> bool" where
  "slots_ok t \<longleftrightarrow> distinct (free t) \<and> set (free t) = {i. in_range t i \<and> \<not> valid t i} \<and>
    live t = card {i. valid t i} \<and> valid t root"

definition names_ok :: "MetadataTree \<Rightarrow> bytes list \<Rightarrow> bool" where
  "names_ok t ss \<longleftrightarrow> pool_rep (names t) ss \<and>
    (\<forall>i. valid t i \<longrightarrow> unat (nname (node t i)) < length ss \<and> unat (folded_name (node t i)) < length ss \<and>
       ss ! unat (folded_name (node t i)) = casefold (ss ! unat (nname (node t i))) \<and>
       (i \<noteq> root \<longrightarrow> valid_name (ss ! unat (nname (node t i)))))"

definition edges :: "MetadataTree \<Rightarrow> (NodeId \<Rightarrow> NodeId list) \<Rightarrow> (NodeId \<times> NodeId) set" where
  "edges t ch = {(c, p). valid t p \<and> c \<in> set (ch p)}"

definition shape_ok :: "MetadataTree \<Rightarrow> (NodeId \<Rightarrow> NodeId list) \<Rightarrow> NodeId set \<Rightarrow> bool" where
  "shape_ok t ch D \<longleftrightarrow> links_ok t ch \<and> acyclic (edges t ch) \<and> root \<notin> D \<and> parent (node t root) = kInvalidNode \<and>
    (\<forall>i. valid t i \<and> i \<noteq> root \<and> i \<notin> D \<longrightarrow> valid t (parent (node t i)) \<and> i \<in> set (ch (parent (node t i)))) \<and>
    (\<forall>d \<in> D. valid t d \<and> (\<forall>p. valid t p \<longrightarrow> d \<notin> set (ch p))) \<and>
    (\<forall>p. valid t p \<and> ch p \<noteq> [] \<longrightarrow> is_dir (node t p))"

definition tree_core ::
  "MetadataTree \<Rightarrow> (NodeId \<Rightarrow> NodeId list) \<Rightarrow> NodeId set \<Rightarrow> NodeId set \<Rightarrow> bytes list \<Rightarrow> bool" where
  "tree_core t ch D U ss \<longleftrightarrow> slots_ok t \<and> shape_ok t ch D \<and>
    index_ok t {i. valid t i \<and> i \<noteq> root \<and> i \<notin> U} \<and> names_ok t ss"

definition tree_inv :: "MetadataTree \<Rightarrow> bool" where
  "tree_inv t \<longleftrightarrow> (\<exists>ch ss. tree_core t ch {} {} ss)"

lemma core_slots: "tree_core t ch D U ss \<Longrightarrow> slots_ok t"
  and core_shape: "tree_core t ch D U ss \<Longrightarrow> shape_ok t ch D"
  and core_index: "tree_core t ch D U ss \<Longrightarrow> index_ok t {i. valid t i \<and> i \<noteq> root \<and> i \<notin> U}"
  and core_names: "tree_core t ch D U ss \<Longrightarrow> names_ok t ss"
  by (simp_all add: tree_core_def)

lemma shape_links: "shape_ok t ch D \<Longrightarrow> links_ok t ch"
  and shape_acyclic: "shape_ok t ch D \<Longrightarrow> acyclic (edges t ch)"
  and shape_root: "shape_ok t ch D \<Longrightarrow> parent (node t root) = kInvalidNode"
  and shape_owned: "shape_ok t ch D \<Longrightarrow> valid t i \<Longrightarrow> i \<noteq> root \<Longrightarrow> i \<notin> D \<Longrightarrow>
    valid t (parent (node t i)) \<and> i \<in> set (ch (parent (node t i)))"
  and shape_detached: "shape_ok t ch D \<Longrightarrow> d \<in> D \<Longrightarrow> valid t d \<and> (\<forall>p. valid t p \<longrightarrow> d \<notin> set (ch p))"
  and shape_dir: "shape_ok t ch D \<Longrightarrow> valid t p \<Longrightarrow> ch p \<noteq> [] \<Longrightarrow> is_dir (node t p)"
  by (auto simp: shape_ok_def)

lemma shape_small: "shape_ok t ch D \<Longrightarrow> small t"
  using shape_links links_small by blast

lemma edges_iff:
  "shape_ok t ch D \<Longrightarrow> (c, p) \<in> edges t ch \<longleftrightarrow> valid t c \<and> c \<noteq> root \<and> c \<notin> D \<and> p = parent (node t c)"
proof -
  assume s: "shape_ok t ch D"
  have "c \<noteq> root" if "valid t p" "c \<in> set (ch p)"
    using links_parent [OF shape_links [OF s] that] shape_root [OF s] valid_not_invalid [OF shape_small [OF s] that(1)] by auto
  then show ?thesis using links_parent [OF shape_links [OF s]] shape_owned [OF s, of c] shape_detached [OF s, of c]
    by (auto simp: edges_def)
qed

lemma index_ok_frame:
  assumes "index_ok t I" and "exact t' = exact t" "folded t' = folded t" "collisions t' = collisions t"
    and "\<And>i. i \<in> I \<Longrightarrow> parent (node t' i) = parent (node t i) \<and> nname (node t' i) = nname (node t i) \<and>
      folded_name (node t' i) = folded_name (node t i)"
  shows "index_ok t' I"
proof -
  have k: "ekey t' i = ekey t i" "fkey t' i = fkey t i" if "i \<in> I" for i using assms(5) [OF that] by (simp_all add: ekey_def fkey_def)
  then have "owns t' i = owns t i" if "i \<in> I" for i using that assms(3) by (simp add: owns_def)
  then have "{i \<in> I. \<not> owns t' i} = {i \<in> I. \<not> owns t i}" by auto
  then show ?thesis using assms k by (auto simp: index_ok_def exact_ok_def folded_ok_def)
qed

section \<open>Pruning\<close>

definition prune_ch :: "NodeId set \<Rightarrow> (NodeId \<Rightarrow> NodeId list) \<Rightarrow> NodeId \<Rightarrow> NodeId list" where
  "prune_ch X ch q = filter (\<lambda>c. c \<notin> X) (ch q)"

text \<open>\<open>t'\<close> is \<open>t\<close> without the nodes of \<open>X\<close>; nothing else that a caller can see has changed.\<close>

definition prunes :: "MetadataTree \<Rightarrow> MetadataTree \<Rightarrow> NodeId set \<Rightarrow> bool" where
  "prunes t t' X \<longleftrightarrow> (\<forall>j. valid t' j \<longleftrightarrow> valid t j \<and> j \<notin> X) \<and>
    (\<forall>j. valid t' j \<longrightarrow> parent (node t' j) = parent (node t j) \<and> nname (node t' j) = nname (node t j) \<and>
       folded_name (node t' j) = folded_name (node t j) \<and> attr (node t' j) = attr (node t j)) \<and>
    names t' = names t \<and> length (nodes t') = length (nodes t) \<and> dropped t' = dropped t"

lemma prune_ch_empty [simp]: "prune_ch {} ch = ch"
  by (simp add: prune_ch_def fun_eq_iff)

lemma prune_ch_prune_ch: "prune_ch Y (prune_ch X ch) = prune_ch (X \<union> Y) ch"
  by (auto simp: prune_ch_def fun_eq_iff intro!: filter_cong)

lemma prune_ch_remove1: "distinct (ch q) \<Longrightarrow> prune_ch {i} ch q = remove1 i (ch q)"
  by (simp add: prune_ch_def distinct_remove1_removeAll removeAll_filter_not_eq) (rule filter_cong, auto)

lemma prunes_refl: "prunes t t {}"
  by (simp add: prunes_def)

lemma prunes_trans: "prunes t t' X \<Longrightarrow> prunes t' t'' Y \<Longrightarrow> prunes t t'' (X \<union> Y)"
  by (auto simp: prunes_def)

lemma prunes_valid: "prunes t t' X \<Longrightarrow> valid t' j \<longleftrightarrow> valid t j \<and> j \<notin> X"
  and prunes_parent: "prunes t t' X \<Longrightarrow> valid t' j \<Longrightarrow> parent (node t' j) = parent (node t j)"
  by (simp_all add: prunes_def)

lemma prunes_edges: "prunes t t' X \<Longrightarrow> edges t' (prune_ch X ch) \<subseteq> edges t ch"
  by (auto simp: edges_def prunes_def prune_ch_def)

section \<open>Releasing one node\<close>

lemma links_ok_cong: "links_ok t ch \<Longrightarrow> (\<And>p. valid t p \<Longrightarrow> ch' p = ch p) \<Longrightarrow> links_ok t ch'"
  by (simp add: links_ok_def)

text \<open>The first half of \<open>release_one\<close>: the node leaves its sibling list.\<close>

lemma release_unlink:
  assumes s: "shape_ok t ch D" and cur: "valid t cur" "cur \<noteq> root" "cur \<in> D \<longleftrightarrow> cur = rt"
    and t1: "t1 = (if cur \<noteq> rt then unlink_child t cur else t)"
  shows "links_ok t1 (prune_ch {cur} ch) \<and> (\<forall>j. valid t1 j = valid t j \<and> parent (node t1 j) = parent (node t j) \<and>
    nname (node t1 j) = nname (node t j) \<and> folded_name (node t1 j) = folded_name (node t j) \<and> attr (node t1 j) = attr (node t j)) \<and>
    length (nodes t1) = length (nodes t) \<and> names t1 = names t \<and> free t1 = free t \<and> live t1 = live t \<and>
    exact t1 = exact t \<and> folded t1 = folded t \<and> collisions t1 = collisions t \<and> dropped t1 = dropped t"
proof (cases "cur = rt")
  case True
  then have "prune_ch {cur} ch p = ch p" if "valid t p" for p
    using shape_detached [OF s, of cur] cur(3) that by (auto simp: prune_ch_def intro!: filter_True)
  then show ?thesis using True t1 links_ok_cong [OF shape_links [OF s]] by simp
next
  case False
  let ?p = "parent (node t cur)"
  have p: "valid t ?p" "cur \<in> set (ch ?p)" using shape_owned [OF s cur(1,2)] cur(3) False by auto
  note u = unlink_child_links [OF shape_links [OF s] p]
  have "prune_ch {cur} ch q = (ch(?p := remove1 cur (ch ?p))) q" if q: "valid t q" for q
  proof (cases "q = ?p")
    case True
    then show ?thesis using dll_distinct [OF links_dll [OF shape_links [OF s] q]] by (simp add: prune_ch_remove1)
  next
    case False
    then have "cur \<notin> set (ch q)" using links_parent [OF shape_links [OF s] q] by auto
    then show ?thesis using False by (auto simp: prune_ch_def intro!: filter_True)
  qed
  then have "links_ok t1 (prune_ch {cur} ch)" using links_ok_cong [OF u(1), of "prune_ch {cur} ch"] u(2) t1 False by simp
  then show ?thesis using u(2-6) t1 False by simp
qed

lemma release_one_prunes:
  assumes s: "shape_ok t ch D" and cur: "valid t cur" "cur \<noteq> root" "cur \<in> D \<longleftrightarrow> cur = rt"
  shows "prunes t (release_one t rt cur) {cur}"
proof -
  define t1 where "t1 = (if cur \<noteq> rt then unlink_child t cur else t)"
  note u = release_unlink [OF s cur t1_def]
  have r: "in_range (unindex_node t1 cur) cur" using u cur(1) valid_in_range [of t1 cur] by simp
  have n: "node (release_one t rt cur) j = (if j = cur then (node t1 j)\<lparr>nname := kInvalidName\<rparr> else node t1 j)" for j
    using node_set_node [OF r] by (simp add: release_one_def Let_def t1_def)
  have len: "length (nodes (release_one t rt cur)) = length (nodes t)" using u by (simp add: release_one_def Let_def t1_def)
  have "valid (release_one t rt cur) j \<longleftrightarrow> valid t j \<and> j \<noteq> cur" for j
  proof -
    have "valid t1 j = valid t j" using u by blast
    then show ?thesis using u by (auto simp: valid_def n len)
  qed
  then show ?thesis using u unfolding prunes_def len by (simp add: n) (simp add: release_one_def Let_def t1_def)
qed

lemma release_one_fields:
  "names (release_one t rt cur) = names t" "free (release_one t rt cur) = free t @ [cur]"
  "live (release_one t rt cur) = live t - 1" "length (nodes (release_one t rt cur)) = length (nodes t)"
  by (simp_all add: release_one_def Let_def)

lemma prunes_shape:
  assumes s: "shape_ok t ch D" and P: "prunes t t' X" and L: "links_ok t' (prune_ch X ch)" and X: "root \<notin> X"
    and closed: "\<And>i. valid t i \<Longrightarrow> i \<noteq> root \<Longrightarrow> i \<notin> D \<Longrightarrow> parent (node t i) \<in> X \<Longrightarrow> i \<in> X"
    and r: "valid t root"
  shows "shape_ok t' (prune_ch X ch) (D - X)"
proof -
  have "valid t' (parent (node t' i)) \<and> i \<in> set (prune_ch X ch (parent (node t' i)))"
    if i: "valid t' i" "i \<noteq> root" "i \<notin> D - X" for i
    using shape_owned [OF s, of i] closed [of i] i P by (auto simp: prunes_def prune_ch_def)
  moreover have "acyclic (edges t' (prune_ch X ch))"
    using acyclic_subset [OF shape_acyclic [OF s] prunes_edges [OF P]] .
  moreover have "is_dir (node t' p)" if "valid t' p" "prune_ch X ch p \<noteq> []" for p
  proof -
    have "ch p \<noteq> []" using that(2) by (auto simp: prune_ch_def)
    then show ?thesis using shape_dir [OF s, of p] that(1) P by (simp add: prunes_def is_dir_def)
  qed
  moreover have "parent (node t' root) = kInvalidNode" using shape_root [OF s] P X r by (auto simp: prunes_def)
  ultimately show ?thesis
    using L s shape_detached [OF s] P X by (auto simp: shape_ok_def prunes_def prune_ch_def)
qed

lemma release_one_links:
  assumes s: "shape_ok t ch D" and cur: "valid t cur" "cur \<noteq> root" "cur \<in> D \<longleftrightarrow> cur = rt"
  shows "links_ok (release_one t rt cur) (prune_ch {cur} ch)"
proof -
  define t1 where "t1 = (if cur \<noteq> rt then unlink_child t cur else t)"
  let ?t = "release_one t rt cur"
  note u = release_unlink [OF s cur t1_def] and P = release_one_prunes [OF s cur]
  have r: "in_range (unindex_node t1 cur) cur" using u cur(1) valid_in_range [of t1 cur] by simp
  have n: "node ?t j = (if j = cur then (node t1 j)\<lparr>nname := kInvalidName\<rparr> else node t1 j)" for j
    using node_set_node [OF r] by (simp add: release_one_def Let_def t1_def)
  have "dll ?t q (prune_ch {cur} ch q)" if q: "valid ?t q" for q
  proof (rule dll_frame [where t = t1])
    show "dll t1 q (prune_ch {cur} ch q)" using u q P links_dll [of t1 _ q] by (auto simp: prunes_def)
    show "valid ?t c \<and> parent (node ?t c) = parent (node t1 c) \<and> prev_sibling (node ?t c) = prev_sibling (node t1 c) \<and>
        next_sibling (node ?t c) = next_sibling (node t1 c)" if c: "c \<in> set (prune_ch {cur} ch q)" for c
    proof -
      have "valid t q" "c \<in> set (ch q)" "c \<noteq> cur" using c q P by (auto simp: prunes_def prune_ch_def)
      then show ?thesis using links_parent [OF shape_links [OF s]] P by (auto simp: n prunes_def)
    qed
  qed (simp_all add: n)
  then show ?thesis using shape_small [OF s] by (auto simp: links_ok_def small_def release_one_fields)
qed

lemma release_one_index:
  assumes s: "shape_ok t ch D" and cur: "valid t cur" "cur \<noteq> root" "cur \<in> D \<longleftrightarrow> cur = rt"
    and ix: "index_ok t {i. valid t i \<and> i \<noteq> root}"
    and par: "valid t (parent (node t cur))" and sib: "\<forall>d \<in> D. d \<noteq> cur \<longrightarrow> parent (node t d) \<noteq> parent (node t cur)"
  shows "index_ok (release_one t rt cur) {i. valid (release_one t rt cur) i \<and> i \<noteq> root}"
proof -
  define t1 where "t1 = (if cur \<noteq> rt then unlink_child t cur else t)"
  let ?t = "release_one t rt cur" and ?I = "{i. valid t i \<and> i \<noteq> root}"
  note u = release_unlink [OF s cur t1_def] and P = release_one_prunes [OF s cur]
  have i1: "index_ok t1 ?I" using index_ok_frame [OF ix, of t1] u by simp
  have "index_ok (unindex_node t1 cur) (?I - {cur})"
  proof (rule unindex_node_ok [OF i1, where cs = "prune_ch {cur} ch (parent (node t cur))"])
    show "cur \<in> ?I" "finite ?I" "small t1" using cur u shape_small [OF s] by (auto simp: small_def)
    show "dll t1 (parent (node t1 cur)) (prune_ch {cur} ch (parent (node t cur)))"
      using u par links_dll [of t1 _ "parent (node t cur)"] by simp
    show "\<forall>j \<in> ?I. j \<noteq> cur \<and> parent (node t1 j) = parent (node t1 cur) \<longrightarrow> j \<in> set (prune_ch {cur} ch (parent (node t cur)))"
    proof (intro ballI impI)
      fix j assume j: "j \<in> ?I" "j \<noteq> cur \<and> parent (node t1 j) = parent (node t1 cur)"
      then have "j \<notin> D" using sib u by auto
      then show "j \<in> set (prune_ch {cur} ch (parent (node t cur)))"
        using shape_owned [OF s, of j] j u by (auto simp: prune_ch_def)
    qed
    show "set (prune_ch {cur} ch (parent (node t cur))) \<subseteq> ?I"
      using par edges_iff [OF s] by (auto simp: prune_ch_def edges_def)
  qed
  moreover have "?I - {cur} = {i. valid ?t i \<and> i \<noteq> root}" using P by (auto simp: prunes_def)
  ultimately have "index_ok (unindex_node t1 cur) {i. valid ?t i \<and> i \<noteq> root}" by simp
  then show ?thesis
  proof (rule index_ok_frame)
    show "parent (node ?t i) = parent (node (unindex_node t1 cur) i) \<and> nname (node ?t i) = nname (node (unindex_node t1 cur) i) \<and>
        folded_name (node ?t i) = folded_name (node (unindex_node t1 cur) i)" if "i \<in> {i. valid ?t i \<and> i \<noteq> root}" for i
      using that P u by (simp add: prunes_def)
  qed (simp_all add: release_one_def Let_def t1_def)
qed

lemma release_one_slots:
  assumes s: "shape_ok t ch D" and cur: "valid t cur" "cur \<noteq> root" "cur \<in> D \<longleftrightarrow> cur = rt" and sl: "slots_ok t"
  shows "slots_ok (release_one t rt cur)"
proof -
  let ?t = "release_one t rt cur"
  note P = release_one_prunes [OF s cur]
  have v: "{i. valid ?t i} = {i. valid t i} - {cur}" using P by (auto simp: prunes_def)
  have r: "in_range ?t i = in_range t i" for i by (simp add: in_range_def release_one_fields)
  have f: "set (free t) = {i. in_range t i \<and> \<not> valid t i}" using sl by (simp add: slots_ok_def)
  have "set (free ?t) = {i. in_range ?t i \<and> \<not> valid ?t i}"
    unfolding release_one_fields r prunes_valid [OF P] using f cur(1) valid_in_range [of t cur] by auto
  moreover have "distinct (free ?t)" using sl f cur(1) by (simp add: slots_ok_def release_one_fields)
  moreover have "live ?t = card {i. valid ?t i}" using sl cur(1) by (simp add: slots_ok_def release_one_fields v card_Diff_singleton)
  moreover have "valid ?t root" using sl cur(2) prunes_valid [OF P] by (simp add: slots_ok_def)
  ultimately show ?thesis by (simp add: slots_ok_def)
qed

lemma release_one_core:
  assumes c: "tree_core t ch D {} ss" and cur: "valid t cur" "cur \<noteq> root" "cur \<in> D \<longleftrightarrow> cur = rt" and leaf: "ch cur = []"
    and par: "valid t (parent (node t cur))" and sib: "\<forall>d \<in> D. d \<noteq> cur \<longrightarrow> parent (node t d) \<noteq> parent (node t cur)"
  shows "tree_core (release_one t rt cur) (prune_ch {cur} ch) (D - {cur}) {} ss"
proof -
  let ?t = "release_one t rt cur"
  note s = core_shape [OF c]
  note P = release_one_prunes [OF s cur]
  have "i \<in> {cur}" if "valid t i" "i \<noteq> root" "i \<notin> D" "parent (node t i) \<in> {cur}" for i
    using shape_owned [OF s that(1-3)] that(4) leaf by auto
  then have "shape_ok ?t (prune_ch {cur} ch) (D - {cur})"
    using prunes_shape [OF s P release_one_links [OF s cur]] cur(2) core_slots [OF c] by (simp add: slots_ok_def)
  moreover have "names_ok ?t ss" using core_names [OF c] P by (auto simp: names_ok_def prunes_def)
  ultimately show ?thesis using release_one_slots [OF s cur core_slots [OF c]]
      release_one_index [OF s cur _ par sib] core_index [OF c] by (simp add: tree_core_def)
qed

section \<open>Releasing a subtree\<close>

text \<open>
  While the subtree of the detached node \<open>rt\<close> is released, the edges of the starting tree, a relation
  \<open>E\<close> that never changes, bound the edges that are left.
\<close>

definition releasing :: "(NodeId \<times> NodeId) set \<Rightarrow> NodeId \<Rightarrow> bytes list \<Rightarrow> MetadataTree \<Rightarrow> (NodeId \<Rightarrow> NodeId list) \<Rightarrow> bool" where
  "releasing E rt ss t ch \<longleftrightarrow> tree_core t ch {rt} {} ss \<and> edges t ch \<subseteq> E \<and> acyclic E \<and>
    (\<forall>c p. (c, p) \<in> E \<and> valid t c \<longrightarrow> parent (node t c) = p) \<and>
    valid t (parent (node t rt)) \<and> (parent (node t rt), rt) \<notin> E\<^sup>*"

definition released_in :: "MetadataTree \<Rightarrow> NodeId \<Rightarrow> NodeId list \<Rightarrow> nat \<Rightarrow> MetadataTree \<Rightarrow> bool" where
  "released_in t rt cs n t' \<longleftrightarrow> (\<forall>fuel stack. release_loop (n + fuel) t rt (cs @ stack) = release_loop fuel t' rt stack)"

lemma released_in_Nil: "released_in t rt [] 0 t"
  by (simp add: released_in_def)

lemma released_in_append:
  "released_in t rt cs n t' \<Longrightarrow> released_in t' rt ds m t'' \<Longrightarrow> released_in t rt (cs @ ds) (n + m) t''"
  by (simp add: released_in_def add.assoc)

lemma acyclic_no_back: "acyclic E \<Longrightarrow> (a, b) \<in> E \<Longrightarrow> (b, a) \<in> E\<^sup>* \<Longrightarrow> False"
  by (meson acyclic_def rtrancl_into_trancl2)

lemma releasing_step:
  assumes R: "releasing E rt ss t ch" and P: "prunes t t' X" and core: "tree_core t' (prune_ch X ch) ({rt} - X) {} ss"
    and X: "X \<subseteq> {j. (j, c) \<in> E\<^sup>*}" and c: "(c, cur) \<in> E" "(cur, rt) \<in> E\<^sup>*"
  shows "releasing E rt ss t' (prune_ch X ch)"
proof -
  have up: "(c, rt) \<in> E\<^sup>*" using c by (meson converse_rtrancl_into_rtrancl)
  have rt: "rt \<notin> X"
  proof
    assume "rt \<in> X"
    then have "(cur, c) \<in> E\<^sup>*" using X c(2) by (auto intro: rtrancl_trans)
    then show False using acyclic_no_back c(1) R by (auto simp: releasing_def)
  qed
  have "parent (node t rt) \<notin> X" using R X up by (auto simp: releasing_def intro: rtrancl_trans)
  moreover have "valid t' rt" using rt P shape_detached [OF core_shape, of t ch "{rt}"] R by (auto simp: releasing_def prunes_def)
  moreover have "{rt} - X = {rt}" using rt by auto
  ultimately show ?thesis using R P core rt prunes_edges [OF P, of ch] by (auto simp: releasing_def prunes_def)
qed

lemma release_children:
  assumes "releasing E rt ss t ch" and "(cur, rt) \<in> E\<^sup>*" and "distinct cs" and "\<forall>c \<in> set cs. valid t c \<and> (c, cur) \<in> E"
    and each: "\<And>c t ch. c \<in> set cs \<Longrightarrow> releasing E rt ss t ch \<Longrightarrow> valid t c \<Longrightarrow>
      \<exists>X t' n. released_in t rt [c] n t' \<and> prunes t t' X \<and> tree_core t' (prune_ch X ch) ({rt} - X) {} ss \<and>
        c \<in> X \<and> X \<subseteq> {j. valid t j \<and> (j, c) \<in> E\<^sup>*} \<and> n < 2 * card X"
  shows "\<exists>X t' n. released_in t rt cs n t' \<and> prunes t t' X \<and> releasing E rt ss t' (prune_ch X ch) \<and>
    set cs \<subseteq> X \<and> X \<subseteq> {j. valid t j \<and> (\<exists>c \<in> set cs. (j, c) \<in> E\<^sup>*)} \<and> n + length cs \<le> 2 * card X"
  using assms
proof (induction cs arbitrary: t ch)
  case Nil
  then show ?case using released_in_Nil prunes_refl by (intro exI [of _ "{}"] exI [of _ t] exI [of _ 0]) auto
next
  case (Cons c cs)
  have cE: "valid t c" "(c, cur) \<in> E" using Cons.prems(4) by auto
  obtain X t1 n where 1: "released_in t rt [c] n t1" "prunes t t1 X" "tree_core t1 (prune_ch X ch) ({rt} - X) {} ss"
      "c \<in> X" "X \<subseteq> {j. valid t j \<and> (j, c) \<in> E\<^sup>*}" "n < 2 * card X"
    using Cons.prems(5) [of c t ch] Cons.prems(1) cE by auto
  have R1: "releasing E rt ss t1 (prune_ch X ch)"
    using releasing_step [OF Cons.prems(1) 1(2,3) _ cE(2) Cons.prems(2)] 1(5) by auto
  have rest: "valid t1 d \<and> (d, cur) \<in> E" if d: "d \<in> set cs" for d
  proof -
    have dE: "valid t d" "(d, cur) \<in> E" "d \<noteq> c" using Cons.prems(3,4) d by auto
    have "d \<notin> X"
    proof
      assume "d \<in> X"
      then have "(d, c) \<in> E\<^sup>*" using 1(5) by auto
      then obtain x where x: "(d, x) \<in> E" "(x, c) \<in> E\<^sup>*" using dE(3) by (meson converse_rtranclE)
      have "x = cur" using Cons.prems(1) x(1) dE unfolding releasing_def by metis
      then show False using acyclic_no_back [OF _ cE(2)] x(2) Cons.prems(1) by (auto simp: releasing_def)
    qed
    then show ?thesis using dE 1(2) by (simp add: prunes_def)
  qed
  obtain Y t2 m where 2: "released_in t1 rt cs m t2" "prunes t1 t2 Y" "releasing E rt ss t2 (prune_ch Y (prune_ch X ch))"
      "set cs \<subseteq> Y" "Y \<subseteq> {j. valid t1 j \<and> (\<exists>c \<in> set cs. (j, c) \<in> E\<^sup>*)}" "m + length cs \<le> 2 * card Y"
    using Cons.IH [OF R1 Cons.prems(2)] Cons.prems(3,5) rest by auto
  have "X \<inter> Y = {}" using 2(5) 1(2) by (auto simp: prunes_def)
  then have "card (X \<union> Y) = card X + card Y" by (simp add: card_Un_disjoint)
  moreover have "released_in t rt (c # cs) (n + m) t2" using released_in_append [OF 1(1) 2(1)] by simp
  ultimately show ?case using 1 2 prunes_trans [OF 1(2) 2(2)]
    by (intro exI [of _ "X \<union> Y"] exI [of _ t2] exI [of _ "n + m"]) (auto simp: prune_ch_prune_ch prunes_def)
qed

lemma release_leaf:
  assumes R: "releasing E rt ss t ch" and cur: "valid t cur" "(cur, rt) \<in> E\<^sup>*" "cur \<noteq> root" and leaf: "ch cur = []"
  shows "released_in t rt [cur] 1 (release_one t rt cur)" and "prunes t (release_one t rt cur) {cur}"
    and "tree_core (release_one t rt cur) (prune_ch {cur} ch) ({rt} - {cur}) {} ss"
proof -
  have core: "tree_core t ch {rt} {} ss" using R by (auto simp: releasing_def)
  note s = core_shape [OF core]
  have "first_child (node t cur) = kInvalidNode"
    using first_child_none [OF links_dll [OF shape_links [OF s] cur(1)] shape_small [OF s]] leaf by simp
  then show "released_in t rt [cur] 1 (release_one t rt cur)" by (simp add: released_in_def)
  show "prunes t (release_one t rt cur) {cur}" using release_one_prunes [OF s cur(1,3)] by simp
  have par: "valid t (parent (node t cur))" using R shape_owned [OF s cur(1,3)] by (cases "cur = rt") (auto simp: releasing_def)
  have "parent (node t rt) \<noteq> parent (node t cur)" if ne: "cur \<noteq> rt"
  proof -
    obtain x where x: "(cur, x) \<in> E" "(x, rt) \<in> E\<^sup>*" using cur(2) ne by (meson converse_rtranclE)
    then have "parent (node t cur) = x" using R cur(1) unfolding releasing_def by metis
    then show ?thesis using x(2) R by (auto simp: releasing_def)
  qed
  then show "tree_core (release_one t rt cur) (prune_ch {cur} ch) ({rt} - {cur}) {} ss"
    using release_one_core [OF core cur(1,3) _ leaf par] by auto
qed

lemma release_node:
  assumes "releasing E rt ss t ch" and "valid t cur" and "(cur, rt) \<in> E\<^sup>*" and "cur \<noteq> root"
  shows "\<exists>X t' n. released_in t rt [cur] n t' \<and> prunes t t' X \<and> tree_core t' (prune_ch X ch) ({rt} - X) {} ss \<and>
    cur \<in> X \<and> X \<subseteq> {j. valid t j \<and> (j, cur) \<in> E\<^sup>*} \<and> n < 2 * card X"
proof -
  have "wf E" using assms(1) by (auto simp: releasing_def intro: finite_acyclic_wf)
  then show ?thesis using assms
  proof (induction cur arbitrary: t ch rule: wf_induct_rule)
    case (less cur)
    note R = less.prems(1)
    have core: "tree_core t ch {rt} {} ss" and ed: "edges t ch \<subseteq> E" and ac: "acyclic E" using R by (auto simp: releasing_def)
    note s = core_shape [OF core]
    note d = links_dll [OF shape_links [OF s] less.prems(2)]
    show ?case
    proof (cases "ch cur = []")
      case True
      note l = release_leaf [OF R less.prems(2-4) True]
      show ?thesis using l less.prems(2) by (intro exI [of _ "{cur}"] exI [of _ "release_one t rt cur"] exI [of _ 1]) auto
    next
      case False
      have kids: "\<forall>c \<in> set (rev (ch cur)). valid t c \<and> (c, cur) \<in> E"
        using dll_members [OF d] ed less.prems(2) by (auto simp: edges_def)
      have nroot: "c \<noteq> root" if "c \<in> set (ch cur)" for c using that less.prems(2) edges_iff [OF s, of c cur] by (auto simp: edges_def)
      have each: "\<exists>X t'' n. released_in t' rt [c] n t'' \<and> prunes t' t'' X \<and> tree_core t'' (prune_ch X ch') ({rt} - X) {} ss \<and>
          c \<in> X \<and> X \<subseteq> {j. valid t' j \<and> (j, c) \<in> E\<^sup>*} \<and> n < 2 * card X"
        if "c \<in> set (rev (ch cur))" "releasing E rt ss t' ch'" "valid t' c" for c t' ch'
      proof -
        have cE: "(c, cur) \<in> E" "c \<noteq> root" using that(1) kids nroot [of c] by auto
        show ?thesis
          by (rule less.IH [OF cE(1) that(2,3) converse_rtrancl_into_rtrancl [OF cE(1) less.prems(3)] cE(2)])
      qed
      have dr: "distinct (rev (ch cur))" using dll_distinct [OF d] by simp
      obtain X t1 n where 1: "released_in t rt (rev (ch cur)) n t1" "prunes t t1 X" "releasing E rt ss t1 (prune_ch X ch)"
          "set (rev (ch cur)) \<subseteq> X" "X \<subseteq> {j. valid t j \<and> (\<exists>c \<in> set (rev (ch cur)). (j, c) \<in> E\<^sup>*)}" "n + length (rev (ch cur)) \<le> 2 * card X"
        using release_children [OF R less.prems(3) dr kids each] by blast
      have cX: "cur \<notin> X" using 1(5) kids acyclic_no_back [OF ac] by blast
      then have v1: "valid t1 cur" using 1(2) less.prems(2) by (simp add: prunes_def)
      have "prune_ch X ch cur = []" using 1(4) by (auto simp: prune_ch_def filter_empty_conv)
      note l = release_leaf [OF 1(3) v1 less.prems(3,4) this]
      have "first_child (node t cur) \<noteq> kInvalidNode" using first_child_none [OF d shape_small [OF s]] False by simp
      then have r0: "release_loop (Suc k) t rt (cur # stack) = release_loop k t rt (rev (ch cur) @ cur # stack)" for k stack
        using for_each_child_dll [OF d shape_small [OF s]] by simp
      have "released_in t rt [cur] (Suc (n + 1)) (release_one t1 rt cur)"
        using released_in_append [OF 1(1) l(1)] unfolding released_in_def by (simp add: r0 del: release_loop.simps)
      moreover have "{rt} - (X \<union> {cur}) = {rt} - {cur}"
      proof -
        have "tree_core t1 (prune_ch X ch) {rt} {} ss" using 1(3) by (simp add: releasing_def)
        then have "valid t1 rt" using shape_detached [OF core_shape] by blast
        then show ?thesis using 1(2) by (auto simp: prunes_def)
      qed
      moreover have "X \<union> {cur} \<subseteq> {j. valid t j \<and> (j, cur) \<in> E\<^sup>*}"
        using 1(5) kids less.prems(2) by (auto intro: rtrancl_into_rtrancl)
      moreover have "Suc (n + 1) < 2 * card (X \<union> {cur})" using 1(6) False cX by (cases "ch cur") simp_all
      ultimately show ?thesis using l(3) prunes_trans [OF 1(2) l(2)]
        by (intro exI [of _ "X \<union> {cur}"] exI [of _ "release_one t1 rt cur"] exI [of _ "Suc (n + 1)"])
          (simp add: prune_ch_prune_ch)
    qed
  qed
qed

text \<open>Everything at or below a node.\<close>

definition subtree :: "MetadataTree \<Rightarrow> (NodeId \<Rightarrow> NodeId list) \<Rightarrow> NodeId \<Rightarrow> NodeId set" where
  "subtree t ch i = {j. (j, i) \<in> (edges t ch)\<^sup>*}"

lemma subtree_self [simp]: "i \<in> subtree t ch i"
  by (simp add: subtree_def)

lemma closed_subtree:
  assumes s: "shape_ok t ch D" and P: "prunes t t' X" and core: "shape_ok t' (prune_ch X ch) {}" and i: "i \<in> X"
  shows "subtree t ch i \<subseteq> X"
proof
  fix j assume "j \<in> subtree t ch i"
  then have "(j, i) \<in> (edges t ch)\<^sup>*" by (simp add: subtree_def)
  then show "j \<in> X"
  proof (induction rule: converse_rtrancl_induct)
    case (step x y)
    show ?case
    proof (rule ccontr)
      assume x: "x \<notin> X"
      have e: "valid t x" "x \<noteq> root" "y = parent (node t x)" using step(1) edges_iff [OF s] by auto
      then have "valid t' x" using P x by (simp add: prunes_def)
      then have "valid t' y" using shape_owned [OF core, of x] e P by (simp add: prunes_def)
      then show False using step(3) P by (simp add: prunes_def)
    qed
  qed (rule i)
qed

text \<open>
  Releasing a detached node: the loop ends within its fuel, and exactly the subtree is gone.
\<close>

lemma release_subtree_ok:
  assumes core: "tree_core t ch {i} {} ss" and i: "valid t i" "valid t (parent (node t i))" "parent (node t i) \<notin> subtree t ch i"
  shows "\<exists>t'. release_subtree t i = Some t' \<and> prunes t t' (subtree t ch i) \<and>
    tree_core t' (prune_ch (subtree t ch i) ch) {} {} ss"
proof -
  note s = core_shape [OF core]
  have nr: "i \<noteq> root" using s by (auto simp: shape_ok_def)
  have R: "releasing (edges t ch) i ss t ch"
    using core i shape_acyclic [OF s] edges_iff [OF s] by (auto simp: releasing_def subtree_def)
  obtain X t' n where X: "released_in t i [i] n t'" "prunes t t' X" "tree_core t' (prune_ch X ch) ({i} - X) {} ss"
      "i \<in> X" "X \<subseteq> {j. valid t j \<and> (j, i) \<in> (edges t ch)\<^sup>*}" "n < 2 * card X"
    using release_node [OF R i(1) _ nr] by auto
  have D: "{i} - X = {}" using X(4) by auto
  have "X \<subseteq> subtree t ch i" using X(5) by (auto simp: subtree_def)
  moreover have "subtree t ch i \<subseteq> X" using closed_subtree [OF s X(2) _ X(4)] core_shape [OF X(3)] D by simp
  ultimately have XS: "X = subtree t ch i" by auto
  have "card X \<le> card {j. in_range t j}" using X(5) valid_in_range by (intro card_mono) auto
  also have "\<dots> = card (unat ` {j :: NodeId. in_range t j})" by (simp add: card_image inj_on_def unat_inj)
  also have "\<dots> \<le> length (nodes t)" using card_mono [of "{..< length (nodes t)}" "unat ` {j :: NodeId. in_range t j}"] by (auto simp: in_range_def)
  finally obtain fuel where "2 * length (nodes t) = n + fuel" using X(6) by (metis add.commute le_Suc_ex less_imp_le mult_le_mono2 order.trans)
  then have "release_subtree t i = Some t'" using X(1) unfolding release_subtree_def released_in_def
    by (metis append.left_neutral append_Cons release_loop.simps(1))
  then show ?thesis using X XS D by auto
qed

end
