(* ===== verification/TreeOps.thy ===== *)
theory TreeOps
  imports TreeInv
begin

text \<open>
  The operations of the metadata tree against its invariant: lookup of a child, removal, the change
  of attributes, insertion and renaming, each with its effect on what a caller can see of the nodes
  (which are live, and their parent, name and attributes).
\<close>

section \<open>Parents\<close>

definition par_rel :: "MetadataTree \<Rightarrow> (NodeId \<times> NodeId) set" where
  "par_rel t = {(c, parent (node t c)) | c. valid t c \<and> c \<noteq> root}"

text \<open>A node and everything under it, by the parent pointers.\<close>

definition below :: "MetadataTree \<Rightarrow> NodeId \<Rightarrow> NodeId set" where
  "below t i = {j. (j, i) \<in> (par_rel t)\<^sup>*}"

lemma edges_par_rel: "shape_ok t ch {} \<Longrightarrow> edges t ch = par_rel t"
  using edges_iff [of t ch "{}"] by (auto simp: par_rel_def)

lemma subtree_below: "shape_ok t ch {} \<Longrightarrow> subtree t ch i = below t i"
  by (simp add: subtree_def below_def edges_par_rel)

lemma par_rel_acyclic: "shape_ok t ch {} \<Longrightarrow> acyclic (par_rel t)"
  using shape_acyclic edges_par_rel by metis

lemma below_self [simp]: "i \<in> below t i"
  by (simp add: below_def)

lemma below_step: "valid t j \<Longrightarrow> j \<noteq> root \<Longrightarrow> parent (node t j) \<in> below t i \<Longrightarrow> j \<in> below t i"
  by (auto simp: below_def par_rel_def intro: converse_rtrancl_into_rtrancl)

lemma below_cases: "j \<in> below t i \<Longrightarrow> j = i \<or> valid t j \<and> j \<noteq> root \<and> parent (node t j) \<in> below t i"
  by (auto simp: below_def par_rel_def elim: converse_rtranclE)

lemma below_valid: "valid t i \<Longrightarrow> j \<in> below t i \<Longrightarrow> valid t j"
  using below_cases by blast

lemma below_root: "i \<noteq> root \<Longrightarrow> root \<notin> below t i"
  using below_cases by blast

lemma parent_not_below: "shape_ok t ch {} \<Longrightarrow> valid t i \<Longrightarrow> i \<noteq> root \<Longrightarrow> parent (node t i) \<notin> below t i"
  using acyclic_no_back [OF par_rel_acyclic, of t ch i "parent (node t i)"] by (auto simp: below_def par_rel_def)

section \<open>Names and children\<close>

lemma name_of_names: "names_ok t ss \<Longrightarrow> valid t i \<Longrightarrow> name_of t i = ss ! unat (nname (node t i))"
  by (simp add: names_ok_def name_of_def pool.rep_show)

definition child_named :: "MetadataTree \<Rightarrow> NodeId \<Rightarrow> bytes \<Rightarrow> NodeId \<Rightarrow> bool" where
  "child_named t p nm i \<longleftrightarrow> valid t i \<and> i \<noteq> root \<and> parent (node t i) = p \<and> name_of t i = nm"

lemma child_parent_ok:
  "shape_ok t ch {} \<Longrightarrow> valid t i \<Longrightarrow> i \<noteq> root \<Longrightarrow>
    valid t (parent (node t i)) \<and> is_dir (node t (parent (node t i))) \<and> parent (node t i) \<noteq> kInvalidNode"
  using shape_owned [of t ch "{}" i] shape_dir [of t ch "{}"] valid_not_invalid [OF shape_small]
  by (metis empty_iff empty_set)

lemma exact_lookup:
  assumes c: "tree_core t ch {} {} ss" and p: "valid t p" and n: "unat nid < length ss"
  shows "U64Map_find (exact t) (key p nid) = Some i \<longleftrightarrow> child_named t p (ss ! unat nid) i"
proof -
  note s = core_shape [OF c] and nm = core_names [OF c]
  have "key_ok (key p nid)" using valid_not_invalid [OF shape_small [OF s] p] key_ok_key by blast
  then have "U64Map_find (exact t) (key p nid) = Some i \<longleftrightarrow> valid t i \<and> i \<noteq> root \<and> ekey t i = key p nid"
    using core_index [OF c] by (simp add: index_ok_def exact_ok_def idx.lookup_ok)
  also have "\<dots> \<longleftrightarrow> valid t i \<and> i \<noteq> root \<and> parent (node t i) = p \<and> nname (node t i) = nid"
    by (simp add: ekey_def key_inject)
  also have "\<dots> \<longleftrightarrow> child_named t p (ss ! unat nid) i"
  proof (cases "valid t i")
    case True
    then have "ss ! unat (nname (node t i)) = ss ! unat nid \<longleftrightarrow> nname (node t i) = nid"
      using nm n pool.rep_distinct [of "names t" ss] by (simp add: names_ok_def nth_eq_iff_index_eq unat_inj)
    then show ?thesis using name_of_names [OF nm True] by (simp add: child_named_def)
  qed (simp add: child_named_def)
  finally show ?thesis .
qed

lemma find_child_exact:
  assumes c: "tree_core t ch {} {} ss"
  shows "find_child t p nm Exact = Some i \<longleftrightarrow> child_named t p nm i"
proof -
  note s = core_shape [OF c] and nms = core_names [OF c]
  have pr: "pool_rep (names t) ss" using nms by (simp add: names_ok_def)
  show ?thesis
  proof (cases "valid t p \<and> is_dir (node t p)")
    case False
    then show ?thesis using child_parent_ok [OF s, of i] by (auto simp: find_child_def child_named_def)
  next
    case True
    show ?thesis
    proof (cases "StringPool_find (names t) nm")
      case None
      then have "nm \<notin> set ss" using pool.rep_search [OF pr, of nm] pr
        by (metis find_rep_None)
      moreover have "name_of t i \<in> set ss" if "valid t i" using name_of_names [OF nms that] nms that by (auto simp: names_ok_def)
      ultimately show ?thesis using None True by (auto simp: find_child_def child_named_def)
    next
      case (Some nid)
      then have "unat nid < length ss" "ss ! unat nid = nm" using pool.rep_search [OF pr] by auto
      then show ?thesis using Some True exact_lookup [OF c, of p nid i] by (auto simp: find_child_def split: option.split)
    qed
  qed
qed

lemma find_child_folded:
  assumes c: "tree_core t ch {} {} ss" and none: "find_child t p nm Exact = None"
  shows "case find_child t p nm CaseInsensitive of
      Some i \<Rightarrow> \<exists>nm'. child_named t p nm' i \<and> casefold nm' = casefold nm
    | None \<Rightarrow> \<not> (\<exists>i nm'. child_named t p nm' i \<and> casefold nm' = casefold nm)"
proof -
  note s = core_shape [OF c] and nms = core_names [OF c]
  have pr: "pool_rep (names t) ss" and ff: "folded_ok t {i. valid t i \<and> i \<noteq> root}"
    using nms core_index [OF c] by (simp_all add: names_ok_def index_ok_def)
  have fold: "casefold_append nm [] = casefold nm" by (simp add: casefold_def)
  have fn: "unat (folded_name (node t i)) < length ss \<and> ss ! unat (folded_name (node t i)) = casefold (name_of t i)" if "valid t i" for i
    using nms that name_of_names [OF nms that] by (simp add: names_ok_def)
  show ?thesis
  proof (cases "valid t p \<and> is_dir (node t p)")
    case False
    then show ?thesis using child_parent_ok [OF s] by (auto simp: find_child_def child_named_def)
  next
    case True
    have unf: "find_child t p nm CaseInsensitive = (case StringPool_find (names t) (casefold nm) of
        None \<Rightarrow> None | Some fid \<Rightarrow> U64Map_find (folded t) (key p fid))"
      using none True by (auto simp: find_child_def fold split: option.splits)
    show ?thesis
    proof (cases "StringPool_find (names t) (casefold nm)")
      case None
      then have "casefold nm \<notin> set ss" using find_rep_None [OF pr] by simp
      then show ?thesis using unf None fn by (auto simp: child_named_def) (metis nth_mem)
    next
      case (Some fid)
      then have f: "unat fid < length ss" "ss ! unat fid = casefold nm" using pool.rep_search [OF pr] by auto
      have "key_ok (key p fid)" using valid_not_invalid [OF shape_small [OF s]] True key_ok_key by blast
      then have look: "find_child t p nm CaseInsensitive = U64Map_abs (folded t) (key p fid)"
        using unf Some ff by (simp add: folded_ok_def idx.lookup_ok)
      have kk: "fkey t i = key p fid \<longleftrightarrow> parent (node t i) = p \<and> casefold (name_of t i) = casefold nm" if "valid t i" for i
      proof -
        have "folded_name (node t i) = fid \<longleftrightarrow> ss ! unat (folded_name (node t i)) = ss ! unat fid"
          using nth_eq_iff_index_eq [OF pool.rep_distinct [OF pr]] fn [OF that] f(1) by (metis unat_inj)
        then show ?thesis using fn [OF that] f(2) by (simp add: fkey_def key_inject)
      qed
      show ?thesis
      proof (cases "U64Map_abs (folded t) (key p fid)")
        case N: None
        have "\<not> child_named t p nm' i \<or> casefold nm' \<noteq> casefold nm" for i nm'
          using ff N kk [of i] by (auto simp: folded_ok_def child_named_def)
        then show ?thesis using look N by simp
      next
        case S: (Some i)
        then show ?thesis using ff look kk [of i] by (auto simp: folded_ok_def child_named_def)
      qed
    qed
  qed
qed

section \<open>Detaching and removing\<close>

lemma prunes_core_frame:
  assumes "names_ok t ss" "slots_ok t" "prunes t t' {}" "free t' = free t" "live t' = live t"
  shows "names_ok t' ss \<and> slots_ok t'"
  using assms by (auto simp: names_ok_def slots_ok_def prunes_def in_range_def)

lemma unlink_core:
  assumes c: "tree_core t ch {} U ss" and i: "valid t i" "i \<noteq> root"
  shows "tree_core (unlink_child t i) (prune_ch {i} ch) {i} U ss" and "prunes t (unlink_child t i) {}"
    and "edges (unlink_child t i) (prune_ch {i} ch) = edges t ch - {(i, parent (node t i))}"
proof -
  let ?t = "unlink_child t i" and ?ch = "prune_ch {i} ch"
  note s = core_shape [OF c]
  have p: "valid t (parent (node t i))" "i \<in> set (ch (parent (node t i)))" using shape_owned [OF s i] by auto
  note u = unlink_child_links [OF shape_links [OF s] p]
  show P: "prunes t ?t {}" using u(2-6) by (simp add: prunes_def)
  have L: "links_ok ?t ?ch"
  proof (rule links_ok_cong [OF u(1)])
    show "?ch q = (ch(parent (node t i) := remove1 i (ch (parent (node t i))))) q" if "valid ?t q" for q
    proof -
      have q: "valid t q" using that u(2) by simp
      have "i \<in> set (ch q) \<Longrightarrow> q = parent (node t i)" using links_parent [OF shape_links [OF s] q, of i] by auto
      then show ?thesis using prune_ch_remove1 [of ch q i] dll_distinct [OF links_dll [OF shape_links [OF s] q]]
        by (cases "i \<in> set (ch q)") (auto simp: remove1_idem)
    qed
  qed
  show E: "edges ?t ?ch = edges t ch - {(i, parent (node t i))}"
  proof -
    have "(x, q) \<in> edges ?t ?ch \<longleftrightarrow> (x, q) \<in> edges t ch - {(i, parent (node t i))}" for x q
      unfolding edges_def prune_ch_def u(2) using links_parent [OF shape_links [OF s], of q x] by fastforce
    then show ?thesis by auto
  qed
  have "shape_ok ?t ?ch {i}"
  proof -
    have "valid ?t (parent (node ?t j)) \<and> j \<in> set (?ch (parent (node ?t j)))" if "valid ?t j" "j \<noteq> root" "j \<noteq> i" for j
      using shape_owned [OF s, of j] that by (simp add: u prune_ch_def)
    moreover have "is_dir (node ?t q)" if "valid ?t q" "?ch q \<noteq> []" for q
    proof -
      have "ch q \<noteq> []" using that(2) by (auto simp: prune_ch_def)
      then show ?thesis using shape_dir [OF s, of q] that(1) by (simp add: u is_dir_def)
    qed
    moreover have "acyclic (edges ?t ?ch)" using acyclic_subset [OF shape_acyclic [OF s]] E by auto
    ultimately show ?thesis using L i shape_root [OF s] by (simp add: shape_ok_def u prune_ch_def)
  qed
  moreover have "index_ok ?t {j. valid ?t j \<and> j \<noteq> root \<and> j \<notin> U}"
    using index_ok_frame [OF core_index [OF c], of ?t] by (simp add: u)
  ultimately show "tree_core ?t ?ch {i} U ss"
    using prunes_core_frame [OF core_names [OF c] core_slots [OF c] P] by (simp add: tree_core_def)
qed

lemma rtrancl_drop_out:
  assumes "acyclic E" and "(j, i) \<in> E\<^sup>*"
  shows "(j, i) \<in> (E - {(i, p)})\<^sup>*"
  using assms(2)
proof (induction rule: converse_rtrancl_induct)
  case (step x y)
  have "x \<noteq> i" using acyclic_no_back [OF assms(1) step(1)] step(2) by auto
  then have "(x, y) \<in> E - {(i, p)}" using step(1) by auto
  then show ?case using step(3) by (rule converse_rtrancl_into_rtrancl)
qed simp

lemma unlink_release:
  assumes c: "tree_core t ch {} {} ss" and i: "valid t i" "i \<noteq> root"
  shows "\<exists>t'. release_subtree (unlink_child t i) i = Some t' \<and> prunes t t' (below t i) \<and>
    tree_core t' (prune_ch (below t i) ch) {} {} ss"
proof -
  let ?t = "unlink_child t i" and ?ch = "prune_ch {i} ch"
  note s = core_shape [OF c]
  note u = unlink_core [OF c i]
  have sub: "subtree ?t ?ch i = below t i"
  proof -
    have "(edges t ch - {(i, parent (node t i))})\<^sup>* \<subseteq> (edges t ch)\<^sup>*" by (rule rtrancl_mono) auto
    then show ?thesis using rtrancl_drop_out [OF shape_acyclic [OF s]]
      by (auto simp: subtree_def u(3) below_def edges_par_rel [OF s, symmetric])
  qed
  have v: "valid ?t i" "valid ?t (parent (node ?t i))" "parent (node ?t i) \<notin> subtree ?t ?ch i"
    using u(2) i child_parent_ok [OF s i] parent_not_below [OF s i] by (auto simp: prunes_def sub)
  obtain t' where t': "release_subtree ?t i = Some t'" "prunes ?t t' (below t i)" "tree_core t' (prune_ch (below t i) ?ch) {} {} ss"
    using release_subtree_ok [OF u(1) v] sub by auto
  moreover have "prune_ch (below t i) ?ch = prune_ch (below t i) ch"
    by (simp add: prune_ch_prune_ch insert_absorb)
  ultimately show ?thesis using prunes_trans [OF u(2) t'(2)] by auto
qed

lemma remove_ok:
  assumes c: "tree_core t ch {} {} ss" and i: "valid t i" "i \<noteq> root"
  shows "\<exists>t'. remove t i = (ok (), t') \<and> prunes t t' (below t i) \<and> tree_core t' (prune_ch (below t i) ch) {} {} ss"
  using unlink_release [OF c i] i by (auto simp: remove_def)

section \<open>Attributes\<close>

lemma below_prunes:
  assumes P: "prunes t t' (below t c)" and j: "j \<in> below t i" "j \<notin> below t c"
  shows "j \<in> below t' i"
proof -
  have "(j, i) \<in> (par_rel t)\<^sup>*" using j(1) by (simp add: below_def)
  then show ?thesis using j(2)
  proof (induction rule: converse_rtrancl_induct)
    case (step x y)
    have x: "valid t x" "x \<noteq> root" "y = parent (node t x)" using step(1) by (auto simp: par_rel_def)
    then have "y \<notin> below t c" using step(4) below_step by blast
    then have "y \<in> below t' i" using step(3) by simp
    moreover have "valid t' x" using P x(1) step(4) by (simp add: prunes_def)
    ultimately show ?case using below_step [of t' x i] x P by (simp add: prunes_def)
  qed simp
qed

lemma below_mono: "prunes t t' X \<Longrightarrow> below t' i \<subseteq> below t i"
  unfolding below_def by (auto simp: par_rel_def prunes_def elim!: rtrancl_mono [THEN subsetD, rotated])

lemma below_leaf:
  assumes "shape_ok t ch {}" and "ch i = []"
  shows "below t i = {i}"
proof -
  have "j = i" if "(j, i) \<in> (par_rel t)\<^sup>*" for j
    using that
  proof (rule rtranclE)
    fix y assume "(y, i) \<in> par_rel t"
    then show ?thesis using assms(2) edges_par_rel [OF assms(1), symmetric] by (auto simp: edges_def)
  qed
  then show ?thesis by (auto simp: below_def)
qed

lemma drop_children_ok:
  assumes "tree_core t ch {} {} ss" and "valid t i" and "length (ch i) \<le> fuel"
  shows "\<exists>t'. drop_children fuel t i = Some t' \<and> prunes t t' (below t i - {i}) \<and>
    tree_core t' (prune_ch (below t i - {i}) ch) {} {} ss \<and> prune_ch (below t i - {i}) ch i = []"
  using assms
proof (induction fuel arbitrary: t ch)
  case 0
  note s = core_shape [OF 0(1)]
  have "ch i = []" using 0(3) by simp
  then show ?case using 0 below_leaf [OF s] prunes_refl first_child_none [OF links_dll [OF shape_links [OF s] 0(2)] shape_small [OF s]]
    by (auto simp: prune_ch_def)
next
  case (Suc fuel)
  note s = core_shape [OF Suc.prems(1)]
  note d = links_dll [OF shape_links [OF s] Suc.prems(2)]
  show ?case
  proof (cases "ch i")
    case Nil
    then show ?thesis using Suc.prems below_leaf [OF s Nil] prunes_refl first_child_none [OF d shape_small [OF s]]
      by (auto simp: prune_ch_def)
  next
    case (Cons c cs)
    have fc: "first_child (node t i) = c" using d Cons by (simp add: dll_def)
    have c: "valid t c" "c \<noteq> root" "parent (node t c) = i" "c \<noteq> kInvalidNode"
      using dll_members [OF d, of c] Cons edges_iff [OF s, of c i] Suc.prems(2) valid_not_invalid [OF shape_small [OF s], of c]
      by (auto simp: edges_def)
    obtain t1 where t1: "release_subtree (unlink_child t c) c = Some t1" "prunes t t1 (below t c)"
        "tree_core t1 (prune_ch (below t c) ch) {} {} ss"
      using unlink_release [OF Suc.prems(1) c(1,2)] by auto
    have ic: "i \<notin> below t c" using parent_not_below [OF s c(1,2)] c(3) by simp
    have "length (prune_ch (below t c) ch i) \<le> fuel"
      using Suc.prems(3) Cons le_trans [OF length_filter_le [of "\<lambda>x. x \<notin> below t c" cs]] by (simp add: prune_ch_def)
    then obtain t' where t': "drop_children fuel t1 i = Some t'" "prunes t1 t' (below t1 i - {i})"
        "tree_core t' (prune_ch (below t1 i - {i}) (prune_ch (below t c) ch)) {} {} ss"
        "prune_ch (below t1 i - {i}) (prune_ch (below t c) ch) i = []"
      using Suc.IH [OF t1(3)] Suc.prems(2) ic t1(2) by (auto simp: prunes_def)
    have "c \<in> below t i" using below_step [OF c(1,2), of i] c(3) by simp
    then have "below t c \<subseteq> below t i" by (auto simp: below_def)
    then have "below t c \<union> (below t1 i - {i}) = below t i - {i}"
      using below_mono [OF t1(2)] below_prunes [OF t1(2)] ic by blast
    then show ?thesis using t' t1(1) fc c(4) prunes_trans [OF t1(2) t'(2)] by (simp add: prune_ch_prune_ch Let_def)
  qed
qed

lemma set_attr_core:
  assumes c: "tree_core t ch D U ss" and i: "valid t i" "kind a = Directory \<or> ch i = []"
  defines "t' \<equiv> set_node t i (\<lambda>n. n\<lparr>attr := a\<rparr>)"
  shows "tree_core t' ch D U ss" and "valid t' j = valid t j"
    and "node t' j = (if j = i then (node t j)\<lparr>attr := a\<rparr> else node t j)" and "names t' = names t"
proof -
  note s = core_shape [OF c]
  show n: "node t' j = (if j = i then (node t j)\<lparr>attr := a\<rparr> else node t j)" for j
    using node_set_node [OF valid_in_range [OF i(1)]] by (simp add: t'_def)
  show v: "valid t' j = valid t j" for j by (simp add: valid_def n) (simp add: t'_def)
  show nm: "names t' = names t" by (simp add: t'_def)
  have "links_ok t' ch"
    using shape_links [OF s] by (auto simp: links_ok_def v dll_def n) (simp_all add: t'_def small_def)
  moreover have "edges t' ch = edges t ch" by (simp add: edges_def v)
  moreover have "is_dir (node t' p)" if "valid t p" "ch p \<noteq> []" for p
    using shape_dir [OF s that] that i(2) by (auto simp: n is_dir_def)
  ultimately have "shape_ok t' ch D" using s by (simp add: shape_ok_def v n)
  moreover have "index_ok t' {j. valid t' j \<and> j \<noteq> root \<and> j \<notin> U}"
    using index_ok_frame [OF core_index [OF c], of t'] by (simp add: v n) (simp add: t'_def)
  moreover have "names_ok t' ss" using core_names [OF c] by (simp add: names_ok_def v n nm)
  moreover have "slots_ok t'" using core_slots [OF c] by (simp add: slots_ok_def v) (simp add: t'_def)
  ultimately show "tree_core t' ch D U ss" by (simp add: tree_core_def)
qed

text \<open>The children that a directory loses when it stops being one.\<close>

definition lost :: "MetadataTree \<Rightarrow> NodeId \<Rightarrow> Attributes \<Rightarrow> NodeId set" where
  "lost t i a = (if kind a = Directory then {} else below t i - {i})"

lemma set_attributes_ok:
  assumes c: "tree_core t ch {} {} ss" and i: "valid t i"
  shows "\<exists>t1 t'. set_attributes t i a = (ok (), t') \<and> prunes t t1 (lost t i a) \<and> t' = set_node t1 i (\<lambda>n. n\<lparr>attr := a\<rparr>) \<and>
    tree_core t' (prune_ch (lost t i a) ch) {} {} ss \<and> valid t1 i"
proof -
  note s = core_shape [OF c]
  note d = links_dll [OF shape_links [OF s] i]
  show ?thesis
  proof (cases "is_dir (node t i) \<and> kind a \<noteq> Directory \<and> child_count (node t i) \<noteq> 0")
    case True
    obtain t1 where t1: "drop_children (length (nodes t)) t i = Some t1" "prunes t t1 (below t i - {i})"
        "tree_core t1 (prune_ch (below t i - {i}) ch) {} {} ss" "prune_ch (below t i - {i}) ch i = []"
      using drop_children_ok [OF c i dll_length [OF d shape_small [OF s]]] by auto
    have L: "lost t i a = below t i - {i}" using True by (simp add: lost_def)
    have v: "valid t1 i" using t1(2) i by (simp add: prunes_def)
    have "set_attributes t i a = (ok (), set_node t1 i (\<lambda>n. n\<lparr>attr := a\<rparr>))"
      using i True t1(1) by (simp add: set_attributes_def Let_def)
    then show ?thesis using t1(2) v set_attr_core(1) [OF t1(3) v disjI2 [OF t1(4)], of a] unfolding L by blast
  next
    case False
    have e: "kind a = Directory \<or> ch i = []"
      using False child_count_zero [OF d shape_small [OF s]] shape_dir [OF s i] by auto
    then have L: "lost t i a = {}" using below_leaf [OF s, of i] by (auto simp: lost_def)
    have "set_attributes t i a = (ok (), set_node t i (\<lambda>n. n\<lparr>attr := a\<rparr>))"
      using i False by (auto simp: set_attributes_def Let_def)
    then show ?thesis using i set_attr_core(1) [OF c i e] prunes_refl unfolding L prune_ch_empty by blast
  qed
qed

end
