(* ===== verification/TreeEdit.thy ===== *)
theory TreeEdit
  imports TreeOps
begin

text \<open>
  Insertion and renaming in the metadata tree.  Both pass through states in which one node is
  detached and unindexed; the lemmas follow the node from there through linking and indexing.
\<close>

section \<open>Interning\<close>

lemma core_names_ext:
  assumes c: "tree_core t ch D U ss" and p: "pool_rep p' (ss @ ts)"
  shows "tree_core (t\<lparr>names := p'\<rparr>) ch D U (ss @ ts)"
proof -
  let ?t = "t\<lparr>names := p'\<rparr>"
  have "names_ok ?t (ss @ ts)" using core_names [OF c] p by (auto simp: names_ok_def nth_append trans_less_add1)
  moreover have "shape_ok ?t ch D" using core_shape [OF c] links_ok_nodes [of ?t t] by (simp add: shape_ok_def edges_def)
  moreover have "index_ok ?t {i. valid ?t i \<and> i \<noteq> root \<and> i \<notin> U}"
    using index_ok_frame [OF core_index [OF c], of ?t] by simp
  moreover have "slots_ok ?t" using core_slots [OF c] by (simp add: slots_ok_def)
  ultimately show ?thesis by (simp add: tree_core_def)
qed

lemma interned_ext: "\<exists>ts. interned ss s = ss @ ts"
  by (simp add: interned_def)

lemma intern_name_core:
  assumes c: "tree_core t ch D U ss" and s: "length nm < 2 ^ 32" "Suc (length ss) < 2 ^ 32" and r: "intern_name t nm = (i, t')"
  shows "\<exists>p' ts. t' = t\<lparr>names := p'\<rparr> \<and> tree_core t' ch D U (ss @ ts) \<and> length ts \<le> 1 \<and>
    unat i < length (ss @ ts) \<and> (ss @ ts) ! unat i = nm"
proof -
  obtain p' where p': "intern (names t) nm = (i, p')" "t' = t\<lparr>names := p'\<rparr>" using r by (auto simp: intern_name_def split: prod.splits)
  have "pool_rep (names t) ss" using core_names [OF c] by (simp add: names_ok_def)
  from pool.rep_add [OF this s p'(1)] have q: "pool_rep p' (interned ss nm)" "unat i < length (interned ss nm)" "interned ss nm ! unat i = nm" by auto
  have "\<exists>ts. interned ss nm = ss @ ts \<and> length ts \<le> 1" by (auto simp: interned_def)
  then obtain ts where ts: "interned ss nm = ss @ ts" "length ts \<le> 1" by auto
  have "tree_core t' ch D U (ss @ ts)" using core_names_ext [OF c] q(1) ts(1) p'(2) by simp
  then show ?thesis using ts q(2,3) p'(2) by (intro exI [of _ p'] exI [of _ ts]) simp
qed

lemma no_upper_fold: "is_ascii nm \<Longrightarrow> \<not> has_upper nm \<Longrightarrow> casefold nm = nm"
proof -
  assume a: "is_ascii nm" and u: "\<not> has_upper nm"
  have "casefold nm = map ascii_lower nm" using casefold_ascii [OF a, of "[]"] by (simp add: casefold_def)
  also have "\<dots> = map (\<lambda>x. x) nm" using u by (intro map_cong) (auto simp: has_upper_def list_ex_iff ascii_lower_def)
  finally show ?thesis by simp
qed

text \<open>Both names of a node: the spelling and its folding.\<close>

lemma intern_both_core:
  assumes c: "tree_core t ch D U ss" and s: "length nm < 2 ^ 32" "length (casefold nm) < 2 ^ 32" "length ss + 2 < 2 ^ 32"
    and r: "intern_name t nm = (nid, t1)" "intern_folded t1 nm nid = (fid, t2)"
  shows "\<exists>p1 p2 ts. t1 = t\<lparr>names := p1\<rparr> \<and> t2 = t\<lparr>names := p2\<rparr> \<and> tree_core t2 ch D U (ss @ ts) \<and>
    unat nid < length (ss @ ts) \<and> (ss @ ts) ! unat nid = nm \<and> unat fid < length (ss @ ts) \<and> (ss @ ts) ! unat fid = casefold nm"
proof -
  obtain p1 ts where 1: "t1 = t\<lparr>names := p1\<rparr>" "tree_core t1 ch D U (ss @ ts)" "length ts \<le> 1"
      "unat nid < length (ss @ ts)" "(ss @ ts) ! unat nid = nm"
    using intern_name_core [OF c s(1) _ r(1)] s(3) by auto
  show ?thesis
  proof (cases "\<not> is_ascii nm \<or> has_upper nm")
    case False
    then show ?thesis using 1 r(2) no_upper_fold by (auto simp: intern_folded_def)
  next
    case True
    then have r2: "intern_name t1 (casefold nm) = (fid, t2)" using r(2) by (simp add: intern_folded_def casefold_def)
    have "Suc (length (ss @ ts)) < 2 ^ 32" using s(3) 1(3) by simp
    from intern_name_core [OF 1(2) s(2) this r2] obtain p2 us where
      2: "t2 = t1\<lparr>names := p2\<rparr>" "tree_core t2 ch D U ((ss @ ts) @ us)" "unat fid < length ((ss @ ts) @ us)"
        "((ss @ ts) @ us) ! unat fid = casefold nm" by auto
    have "((ss @ ts) @ us) ! unat nid = nm" using 1(4,5) nth_append [of "ss @ ts" us "unat nid"] by simp
    then show ?thesis using 1 2 by (intro exI [of _ p1] exI [of _ p2] exI [of _ "ts @ us"]) simp
  qed
qed

section \<open>Linking and indexing a detached node\<close>

lemma link_core:
  assumes c: "tree_core t ch {i} U ss" and U: "i \<in> U" and p: "valid t p" "is_dir (node t p)" "(p, i) \<notin> (edges t ch)\<^sup>*"
  shows "tree_core (link_child t p i) (ch(p := ch p @ [i])) {} U ss"
proof -
  let ?t = "link_child t p i" and ?ch = "ch(p := ch p @ [i])"
  note s = core_shape [OF c]
  have i: "valid t i" "\<forall>q. valid t q \<longrightarrow> i \<notin> set (ch q)" "i \<noteq> root" using s by (auto simp: shape_ok_def)
  note l = link_child_links [OF shape_links [OF s] p(1) i(1,2)]
  have E: "edges ?t ?ch = insert (i, p) (edges t ch)" using p(1) by (auto simp: edges_def l(2))
  have "acyclic (edges ?t ?ch)" using shape_acyclic [OF s] p(3) by (simp add: E acyclic_insert)
  moreover have "valid ?t (parent (node ?t j)) \<and> j \<in> set (?ch (parent (node ?t j)))" if "valid ?t j" "j \<noteq> root" for j
    using shape_owned [OF s, of j] that p(1) by (auto simp: l)
  moreover have "is_dir (node ?t q)" if "valid ?t q" "?ch q \<noteq> []" for q
    using shape_dir [OF s, of q] that p(2) by (auto simp: l is_dir_def split: if_splits)
  ultimately have "shape_ok ?t ?ch {}" using l(1) shape_root [OF s] i(3) by (simp add: shape_ok_def l)
  moreover have "index_ok ?t {j. valid ?t j \<and> j \<noteq> root \<and> j \<notin> U}"
    using index_ok_frame [OF core_index [OF c], of ?t] U by (simp add: l) (metis (lifting) U)
  moreover have "names_ok ?t ss" using core_names [OF c] by (simp add: names_ok_def l)
  moreover have "slots_ok ?t" using core_slots [OF c] by (simp add: slots_ok_def l in_range_def)
  ultimately show ?thesis by (simp add: tree_core_def)
qed

lemma index_core:
  assumes c: "tree_core t ch {} {i} ss" and i: "valid t i" "i \<noteq> root" and fresh: "U64Map_abs (exact t) (ekey t i) = None"
  shows "tree_core (index_node t i) ch {} {} ss"
proof -
  let ?t = "index_node t i"
  note s = core_shape [OF c]
  have "insert i {j. valid t j \<and> j \<noteq> root \<and> j \<notin> {i}} = {j. valid t j \<and> j \<noteq> root}" using i by auto
  moreover have "index_ok ?t (insert i {j. valid t j \<and> j \<noteq> root \<and> j \<notin> {i}})"
    using index_node_ok [OF core_index [OF c]] child_parent_ok [OF s i] fresh by simp
  moreover have "shape_ok ?t ch {}" using s links_ok_nodes [of ?t t] by (simp add: shape_ok_def edges_def)
  ultimately show ?thesis using core_names [OF c] core_slots [OF c] by (simp add: tree_core_def names_ok_def slots_ok_def)
qed

lemma unindex_core:
  assumes c: "tree_core t ch {} {} ss" and i: "valid t i" "i \<noteq> root"
  shows "tree_core (unindex_node t i) ch {} {i} ss"
proof -
  let ?t = "unindex_node t i" and ?I = "{j. valid t j \<and> j \<noteq> root \<and> j \<notin> {}}"
  note s = core_shape [OF c]
  have p: "valid t (parent (node t i))" using child_parent_ok [OF s i] by simp
  have "index_ok ?t (?I - {i})"
  proof (rule unindex_node_ok [OF core_index [OF c], where cs = "ch (parent (node t i))"])
    show "dll t (parent (node t i)) (ch (parent (node t i)))" using links_dll [OF shape_links [OF s] p] .
    show "\<forall>j \<in> ?I. j \<noteq> i \<and> parent (node t j) = parent (node t i) \<longrightarrow> j \<in> set (ch (parent (node t i)))"
      using shape_owned [OF s] by force
    show "set (ch (parent (node t i))) \<subseteq> ?I" using edges_iff [OF s] p by (auto simp: edges_def)
  qed (use i shape_small [OF s] in simp_all)
  moreover have "?I - {i} = {j. valid ?t j \<and> j \<noteq> root \<and> j \<notin> {i}}" by auto
  moreover have "shape_ok ?t ch {}" using s links_ok_nodes [of ?t t] by (simp add: shape_ok_def edges_def)
  ultimately show ?thesis using core_names [OF c] core_slots [OF c] by (simp add: tree_core_def names_ok_def slots_ok_def)
qed

section \<open>Insertion\<close>

lemma link_child_live: "link_child (t\<lparr>live := n\<rparr>) p i = (link_child t p i)\<lparr>live := n\<rparr>"
  by (simp add: link_child_def set_node_def node_def Let_def)

lemma index_node_live: "index_node (t\<lparr>live := n\<rparr>) i = (index_node t i)\<lparr>live := n\<rparr>"
  by (simp add: index_node_def Let_def split_beta)

lemma valid_node_init: "nname Node_init = kInvalidName"
  by (simp add: Node_init_def)

text \<open>What \<open>alloc_node\<close> promises: a slot that was not live, blank, and everything else as before.\<close>

definition allocated :: "MetadataTree \<Rightarrow> MetadataTree \<Rightarrow> NodeId \<Rightarrow> bool" where
  "allocated t t' i \<longleftrightarrow> \<not> valid t i \<and> node t' i = Node_init \<and> (\<forall>j. in_range t j \<and> j \<noteq> i \<longrightarrow> node t' j = node t j) \<and>
    (\<forall>j. in_range t' j \<longleftrightarrow> in_range t j \<or> j = i) \<and> distinct (free t') \<and>
    set (free t') = {j. in_range t j \<and> \<not> valid t j \<and> j \<noteq> i} \<and> names t' = names t \<and> exact t' = exact t \<and>
    folded t' = folded t \<and> collisions t' = collisions t \<and> live t' = live t \<and> dropped t' = dropped t \<and> small t'"

lemma alloc_node_ok:
  assumes c: "tree_core t ch {} {} ss" and room: "length (nodes t) + 1 < 2 ^ 32" and r: "alloc_node t = (i, t')"
  shows "allocated t t' i"
proof -
  have f: "distinct (free t)" "set (free t) = {i. in_range t i \<and> \<not> valid t i}" using core_slots [OF c] by (auto simp: slots_ok_def)
  show ?thesis
  proof (cases "free t = []")
    case True
    then have t': "t' = t\<lparr>nodes := nodes t @ [Node_init]\<rparr>" and i: "unat i = length (nodes t)"
      using r room by (auto simp: alloc_node_def unat_of_nat)
    have "in_range t' j \<longleftrightarrow> in_range t j \<or> j = i" for j
      using i by (auto simp: in_range_def t' less_Suc_eq simp flip: unat_inj)
    moreover have "node t' j = node t j" if "in_range t j" for j using that by (simp add: node_def t' in_range_def nth_append)
    moreover have "node t' i = Node_init" "\<not> valid t i" "\<not> in_range t i" using i by (simp_all add: node_def t' nth_append valid_def in_range_def)
    moreover have "small t'" using room by (simp add: small_def t')
    moreover have "free t' = free t" "names t' = names t" "exact t' = exact t" "folded t' = folded t"
      "collisions t' = collisions t" "live t' = live t" "dropped t' = dropped t" by (simp_all add: t')
    ultimately show ?thesis unfolding allocated_def using f by auto
  next
    case False
    let ?i = "last (free t)" and ?t0 = "t\<lparr>free := butlast (free t)\<rparr>"
    have t': "t' = set_node ?t0 ?i (\<lambda>_. Node_init)" and i: "i = ?i" using r False by (auto simp: alloc_node_def Let_def)
    have im: "i \<in> set (free t)" using i False by simp
    then have ir: "in_range t i" "\<not> valid t i" using f(2) by auto
    have "in_range ?t0 ?i" using ir i by simp
    note n = node_set_node [OF this, of "\<lambda>_. Node_init", folded t', folded i]
    obtain b where b: "free t = b @ [i]" using False i by (metis append_butlast_last_id)
    then have fr: "distinct (butlast (free t))" "set (butlast (free t)) = set (free t) - {i}" using f(1) by auto
    have "small t'" using shape_small [OF core_shape [OF c]] by (simp add: small_def t')
    moreover have "in_range t' j = in_range t j" for j by (simp add: t')
    moreover have "free t' = butlast (free t)" "names t' = names t" "exact t' = exact t" "folded t' = folded t"
      "collisions t' = collisions t" "live t' = live t" "dropped t' = dropped t" by (simp_all add: t')
    ultimately show ?thesis unfolding allocated_def using f ir fr by (auto simp: n)
  qed
qed

text \<open>The node of an insertion before it is linked: named, detached and not indexed.\<close>

lemma insert_fresh_core:
  fixes a :: Attributes
  assumes c: "tree_core t ch {} {} ss" and al: "allocated t t3 i"
    and n: "unat nid < length ss" "unat fid < length ss" "ss ! unat fid = casefold (ss ! unat nid)" "valid_name (ss ! unat nid)"
  defines "t4 \<equiv> (set_node t3 i (\<lambda>n. n\<lparr>nname := nid, folded_name := fid, attr := a\<rparr>))\<lparr>live := live t + 1\<rparr>"
  shows "tree_core t4 (ch(i := [])) {i} {i} ss" and "valid t4 j \<longleftrightarrow> valid t j \<or> j = i"
    and "valid t j \<Longrightarrow> node t4 j = node t j" and "attr (node t4 i) = a" "nname (node t4 i) = nid" and "edges t4 (ch(i := [])) = edges t ch"
    and "names t4 = names t" "exact t4 = exact t"
proof -
  note s = core_shape [OF c] and al = al [unfolded allocated_def]
  have ir: "in_range t3 i" using al by blast
  have nd: "node t4 j = (if j = i then Node_init\<lparr>nname := nid, folded_name := fid, attr := a\<rparr> else node t3 j)" for j
    using node_set_node [OF ir] al by (simp add: t4_def)
  have rg: "in_range t4 j \<longleftrightarrow> in_range t j \<or> j = i" for j using al by (simp add: t4_def)
  have pr: "pool_rep (names t) ss" using core_names [OF c] by (simp add: names_ok_def)
  then have nk: "nid \<noteq> kInvalidName" using n(1) unat_kInvalidNode by (auto simp: pool_rep_def kInvalidName_def kInvalidNode_def)
  show old: "node t4 j = node t j" if "valid t j" for j
  proof -
    have "j \<noteq> i" "in_range t j" using that al valid_in_range by auto
    then show ?thesis using al by (simp add: nd)
  qed
  show v: "valid t4 j \<longleftrightarrow> valid t j \<or> j = i" for j
  proof (cases "j = i")
    case True
    then show ?thesis using rg [of i] nk by (simp add: valid_def nd in_range_def)
  next
    case False
    then show ?thesis using rg [of j] al by (auto simp: valid_def nd in_range_def)
  qed
  show "attr (node t4 i) = a" "nname (node t4 i) = nid" by (simp_all add: nd)
  show "names t4 = names t" "exact t4 = exact t" using al by (simp_all add: t4_def)
  have mem: "x \<noteq> i" "valid t x" if "valid t q" "x \<in> set (ch q)" for q x
    using links_parent [OF shape_links [OF s] that] al by auto
  show E: "edges t4 (ch(i := [])) = edges t ch" using mem al by (auto simp: edges_def v)
  have "links_ok t4 (ch(i := []))"
  proof -
    have "dll t4 i []" by (simp add: dll_def nd Node_init_def)
    moreover have "dll t4 q (ch q)" if q: "valid t q" for q
      by (rule dll_frame [OF links_dll [OF shape_links [OF s] q]]) (use q mem [OF q] old v in simp_all)
    moreover have "small t4" using al by (simp add: t4_def small_def)
    ultimately show ?thesis by (auto simp: links_ok_def v)
  qed
  moreover have "root \<noteq> i" using al core_slots [OF c] by (auto simp: slots_ok_def)
  moreover have "valid t4 (parent (node t4 j)) \<and> j \<in> set ((ch(i := [])) (parent (node t4 j)))" if "valid t4 j" "j \<noteq> root" "j \<noteq> i" for j
    using shape_owned [OF s, of j] that v [of j] old [of j] al v [of "parent (node t j)"] by auto
  moreover have "is_dir (node t4 q)" if "valid t4 q" "(ch(i := [])) q \<noteq> []" for q
    using shape_dir [OF s, of q] that v [of q] old [of q] by (auto split: if_splits)
  moreover have "parent (node t4 root) = kInvalidNode" using shape_root [OF s] core_slots [OF c] old [of root] by (simp add: slots_ok_def)
  moreover have "valid t4 i \<and> (\<forall>q. valid t4 q \<longrightarrow> i \<notin> set ((ch(i := [])) q))" using mem by (auto simp: v)
  ultimately have sh: "shape_ok t4 (ch(i := [])) {i}"
    using shape_acyclic [OF s] unfolding shape_ok_def E by blast
  have I: "{j. valid t4 j \<and> j \<noteq> root \<and> j \<notin> {i}} = {j. valid t j \<and> j \<noteq> root \<and> j \<notin> {}}" using v al by auto
  have "index_ok t4 {j. valid t4 j \<and> j \<noteq> root \<and> j \<notin> {i}}"
    unfolding I by (rule index_ok_frame [OF core_index [OF c]]) (use al old in \<open>simp_all add: t4_def\<close>)
  moreover have "names_ok t4 ss"
  proof -
    have "nname (node t4 i) = nid" "folded_name (node t4 i) = fid" by (simp_all add: nd)
    moreover have "names t4 = names t" using al by (simp add: t4_def)
    ultimately show ?thesis using core_names [OF c] n v old unfolding names_ok_def by metis
  qed
  moreover have "slots_ok t4"
  proof -
    have "{j. valid t4 j} = insert i {j. valid t j}" using v by auto
    then have "live t4 = card {j. valid t4 j}" using core_slots [OF c] al by (simp add: slots_ok_def t4_def)
    moreover have "free t4 = free t3" by (simp add: t4_def)
    ultimately show ?thesis using al core_slots [OF c] rg v by (auto simp: slots_ok_def)
  qed
  ultimately show "tree_core t4 (ch(i := [])) {i} {i} ss" using sh by (simp add: tree_core_def)
qed

section \<open>What a caller sees\<close>

type_synonym inode = "NodeId \<times> bytes \<times> Attributes"

text \<open>The live nodes with their parent, name and attributes.\<close>

definition inodes :: "MetadataTree \<Rightarrow> NodeId \<Rightarrow> inode option" where
  "inodes t i = (if valid t i then Some (parent (node t i), name_of t i, attr (node t i)) else None)"

definition room :: "MetadataTree \<Rightarrow> bytes \<Rightarrow> bool" where
  "room t nm \<longleftrightarrow> length (nodes t) + 1 < 2 ^ 32 \<and> StringPool_size (names t) + 2 < 2 ^ 32 \<and>
    length nm < 2 ^ 32 \<and> length (casefold nm) < 2 ^ 32"

lemma room_names: "tree_core t ch D U ss \<Longrightarrow> room t nm \<Longrightarrow>
    length nm < 2 ^ 32 \<and> length (casefold nm) < 2 ^ 32 \<and> length ss + 2 < 2 ^ 32 \<and> length (nodes t) + 1 < 2 ^ 32"
  using core_names [of t ch D U ss] by (simp add: room_def names_ok_def pool_rep_def StringPool_size_def)

lemma inodes_names_ext:
  assumes "tree_core t ch D U ss" and "tree_core (t\<lparr>names := p'\<rparr>) ch' D' U' (ss @ ts)"
  shows "inodes (t\<lparr>names := p'\<rparr>) = inodes t"
proof
  fix i
  have "name_of (t\<lparr>names := p'\<rparr>) i = name_of t i" if "valid t i"
    using name_of_names [OF core_names [OF assms(1)] that] name_of_names [OF core_names [OF assms(2)], of i] that
      core_names [OF assms(1)] by (simp add: names_ok_def nth_append)
  then show "inodes (t\<lparr>names := p'\<rparr>) i = inodes t i" by (simp add: inodes_def)
qed

lemma contains_lookup: "U64Map_contains m k \<longleftrightarrow> U64Map_find m k \<noteq> None"
  by (simp add: U64Map_contains_def)

lemma insert_linked:
  fixes a :: Attributes
  assumes c: "tree_core t ch {} {} ss" and p: "valid t p" "is_dir (node t p)" and al: "allocated t t3 i"
    and n: "unat nid < length ss" "unat fid < length ss" "ss ! unat fid = casefold (ss ! unat nid)" "valid_name (ss ! unat nid)"
    and fresh: "U64Map_find (exact t) (key p nid) = None"
  defines "t4 \<equiv> set_node t3 i (\<lambda>n. n\<lparr>nname := nid, folded_name := fid, attr := a\<rparr>)"
  shows "\<exists>ch'. tree_core ((index_node (link_child t4 p i) i)\<lparr>live := live (index_node (link_child t4 p i) i) + 1\<rparr>) ch' {} {} ss \<and>
    inodes ((index_node (link_child t4 p i) i)\<lparr>live := live (index_node (link_child t4 p i) i) + 1\<rparr>) =
      (inodes t)(i \<mapsto> (p, ss ! unat nid, a))"
proof -
  note f = insert_fresh_core [OF c al n, where a = a, folded t4_def]
  let ?t4 = "t4\<lparr>live := live t + 1\<rparr>"
  let ?t5 = "link_child ?t4 p i" and ?ch = "(ch(i := []))(p := (ch(i := [])) p @ [i])"
  note s = core_shape [OF c] and s4 = core_shape [OF f(1)]
  have iv: "\<not> valid t i" using al by (simp add: allocated_def)
  have "(p, i) \<notin> (edges ?t4 (ch(i := [])))\<^sup>*"
  proof
    assume "(p, i) \<in> (edges ?t4 (ch(i := [])))\<^sup>*"
    then have "p = i \<or> (\<exists>x. (x, i) \<in> edges t ch)" unfolding f(6) by (metis rtranclE)
    then show False using p(1) iv by (auto simp: edges_def)
  qed
  then have c5: "tree_core ?t5 ?ch {} {i} ss" using link_core [OF f(1)] f(2,3) p by (simp add: is_dir_def)
  have i4: "valid ?t4 i" "\<forall>q. valid ?t4 q \<longrightarrow> i \<notin> set ((ch(i := [])) q)" "i \<noteq> root"
    using f(2) s4 by (auto simp: shape_ok_def)
  note l = link_child_links [OF shape_links [OF s4] _ i4(1,2), of p]
  have p4: "valid ?t4 p" using f(2) p by simp
  have ek: "ekey ?t5 i = key p nid" using l(3,4) [OF p4] f(5) by (simp add: ekey_def)
  have "key_ok (key p nid)" using key_ok_key valid_not_invalid [OF shape_small [OF s] p(1)] by blast
  then have "U64Map_abs (exact ?t5) (ekey ?t5 i) = None"
    unfolding ek using fresh f(8) core_index [OF c] by (simp add: index_ok_def exact_ok_def idx.lookup_ok)
  then have c6: "tree_core (index_node ?t5 i) ?ch {} {} ss" using index_core [OF c5] i4 l(2) [OF p4] by simp
  have eq: "(index_node (link_child t4 p i) i)\<lparr>live := live (index_node (link_child t4 p i) i) + 1\<rparr> = index_node ?t5 i"
  proof -
    have "live t4 = live t" using al by (simp add: t4_def allocated_def)
    then show ?thesis by (simp add: link_child_live index_node_live)
  qed
  have "inodes (index_node ?t5 i) j = ((inodes t)(i \<mapsto> (p, ss ! unat nid, a))) j" for j
  proof (cases "valid t j \<or> j = i")
    case False
    then show ?thesis using l(2) [OF p4] f(2) by (simp add: inodes_def)
  next
    case True
    then have vj: "valid (index_node ?t5 i) j" using l(2) [OF p4] f(2) by simp
    have nm: "name_of (index_node ?t5 i) j = ss ! unat (nname (node ?t4 j))"
      using name_of_names [OF core_names [OF c6] vj] l(4) [OF p4] by simp
    show ?thesis using True vj nm l(3,6) [OF p4] f(3) [of j] f(4,5) iv name_of_names [OF core_names [OF c], of j]
      by (cases "j = i") (auto simp: inodes_def)
  qed
  then show ?thesis unfolding eq using c6 by blast
qed

end
