(* ===== verification/MetadataTreeProps.thy ===== *)
theory MetadataTreeProps
  imports TreeEdit
begin

text \<open>
  The metadata tree against an abstract specification.  The specification is a table of inodes, a
  finite map from identifiers to (parent, name, attributes); each operation is a relation between
  the table before, the answer and the table after.  The operations keep the invariant and satisfy
  their specification; lookups by path follow from it.
\<close>

section \<open>The specification\<close>

type_synonym table = "NodeId \<Rightarrow> inode option"

definition child_of :: "table \<Rightarrow> NodeId \<Rightarrow> bytes \<Rightarrow> NodeId \<Rightarrow> bool" where
  "child_of N p nm i \<longleftrightarrow> i \<noteq> root \<and> (\<exists>a. N i = Some (p, nm, a))"

definition dir_in :: "table \<Rightarrow> NodeId \<Rightarrow> bool" where
  "dir_in N p \<longleftrightarrow> (\<exists>q n a. N p = Some (q, n, a) \<and> kind a = Directory)"

definition up_rel :: "table \<Rightarrow> (NodeId \<times> NodeId) set" where
  "up_rel N = {(c, p). c \<noteq> root \<and> (\<exists>n a. N c = Some (p, n, a))}"

definition under :: "table \<Rightarrow> NodeId \<Rightarrow> NodeId set" where
  "under N i = {j. (j, i) \<in> (up_rel N)\<^sup>*}"

datatype TreeOp =
    OpInsert NodeId bytes Attributes
  | OpUpsert NodeId bytes Attributes
  | OpSetAttributes NodeId Attributes
  | OpRemove NodeId
  | OpRename NodeId NodeId bytes

definition spec_insert :: "table \<Rightarrow> NodeId \<Rightarrow> bytes \<Rightarrow> Attributes \<Rightarrow> NodeId result \<Rightarrow> table \<Rightarrow> bool" where
  "spec_insert N p nm a r N' \<longleftrightarrow>
    (if N p = None then r = fail NotFound \<and> N' = N
     else if \<not> dir_in N p then r = fail NotADirectory \<and> N' = N
     else if \<not> valid_name nm then r = fail InvalidPath \<and> N' = N
     else if \<exists>i. child_of N p nm i then r = fail AlreadyExists \<and> N' = N
     else \<exists>i. r = ok i \<and> N i = None \<and> N' = N(i \<mapsto> (p, nm, a)))"

text \<open>A directory that becomes something else loses what is under it.\<close>

definition spec_set :: "table \<Rightarrow> NodeId \<Rightarrow> Attributes \<Rightarrow> unit result \<Rightarrow> table \<Rightarrow> bool" where
  "spec_set N i a r N' \<longleftrightarrow>
    (case N i of
       None \<Rightarrow> r = fail NotFound \<and> N' = N
     | Some (p, nm, _) \<Rightarrow> r = ok () \<and>
         N' = (N |` (- (if kind a = Directory then {} else under N i - {i})))(i \<mapsto> (p, nm, a)))"

definition spec_upsert :: "table \<Rightarrow> NodeId \<Rightarrow> bytes \<Rightarrow> Attributes \<Rightarrow> NodeId result \<Rightarrow> table \<Rightarrow> bool" where
  "spec_upsert N p nm a r N' \<longleftrightarrow>
    (if \<exists>i. child_of N p nm i then \<exists>i. child_of N p nm i \<and> r = ok i \<and> spec_set N i a (ok ()) N'
     else spec_insert N p nm a r N')"

definition spec_remove :: "table \<Rightarrow> NodeId \<Rightarrow> unit result \<Rightarrow> table \<Rightarrow> bool" where
  "spec_remove N i r N' \<longleftrightarrow>
    (if N i = None then r = fail NotFound \<and> N' = N
     else if i = root then r = fail InvalidArgument \<and> N' = N
     else r = ok () \<and> N' = N |` (- under N i))"

definition spec_rename :: "table \<Rightarrow> NodeId \<Rightarrow> NodeId \<Rightarrow> bytes \<Rightarrow> unit result \<Rightarrow> table \<Rightarrow> bool" where
  "spec_rename N i np nm r N' \<longleftrightarrow>
    (if N i = None \<or> N np = None then r = fail NotFound \<and> N' = N
     else if i = root then r = fail InvalidArgument \<and> N' = N
     else if \<not> dir_in N np then r = fail NotADirectory \<and> N' = N
     else if \<not> valid_name nm then r = fail InvalidPath \<and> N' = N
     else if np \<in> under N i then r = fail InvalidArgument \<and> N' = N
     else if \<exists>j. j \<noteq> i \<and> child_of N np nm j then r = fail AlreadyExists \<and> N' = N
     else r = ok () \<and> N' = N(i \<mapsto> (np, nm, snd (snd (the (N i))))))"

section \<open>The table of a tree\<close>

lemma inodes_None: "inodes t i = None \<longleftrightarrow> \<not> valid t i"
  by (simp add: inodes_def)

lemma child_of_inodes: "child_of (inodes t) p nm i \<longleftrightarrow> child_named t p nm i"
  by (auto simp: child_of_def child_named_def inodes_def)

lemma dir_in_inodes: "dir_in (inodes t) p \<longleftrightarrow> valid t p \<and> is_dir (node t p)"
  by (simp add: dir_in_def inodes_def is_dir_def)

lemma up_rel_inodes: "up_rel (inodes t) = par_rel t"
  by (auto simp: up_rel_def par_rel_def inodes_def split: if_splits)

lemma tree_invI: "tree_core t ch {} {} ss \<Longrightarrow> tree_inv t"
  by (auto simp: tree_inv_def)

lemma under_inodes: "under (inodes t) i = below t i"
  by (simp add: under_def below_def up_rel_inodes)

lemmas table_simps = inodes_None child_of_inodes dir_in_inodes under_inodes

lemma inodes_prunes:
  assumes "prunes t t' X"
  shows "inodes t' = inodes t |` (- X)"
  using assms by (auto simp: fun_eq_iff inodes_def prunes_def restrict_map_def name_of_def)

section \<open>Each operation\<close>

lemma insert_refines:
  assumes c: "tree_core t ch {} {} ss" and rm: "room t nm" and r: "tree_insert t p nm a = (res, t')"
  shows "tree_inv t' \<and> spec_insert (inodes t) p nm a res (inodes t')"
proof (cases "valid t p \<and> is_dir (node t p) \<and> valid_name nm")
  case False
  then show ?thesis using r c by (auto simp: tree_insert_def spec_insert_def table_simps intro: tree_invI)
next
  case True
  obtain nid t1 where i1: "intern_name t nm = (nid, t1)" by (cases "intern_name t nm")
  obtain fid t2 where i2: "intern_folded t1 nm nid = (fid, t2)" by (cases "intern_folded t1 nm nid")
  note rn = room_names [OF c rm]
  have s1: "length nm < 2 ^ 32" "Suc (length ss) < 2 ^ 32" using rn by auto
  obtain p1 us where t1: "t1 = t\<lparr>names := p1\<rparr>" "tree_core t1 ch {} {} (ss @ us)" "unat nid < length (ss @ us)" "(ss @ us) ! unat nid = nm"
    using intern_name_core [OF c s1 i1] by auto
  obtain p2 ts where t2: "t2 = t\<lparr>names := p2\<rparr>" "tree_core t2 ch {} {} (ss @ ts)" "unat nid < length (ss @ ts)"
      "(ss @ ts) ! unat nid = nm" "unat fid < length (ss @ ts)" "(ss @ ts) ! unat fid = casefold nm"
    using intern_both_core [OF c _ _ _ i1 i2] rn by auto
  have look: "U64Map_find (exact t1) (key p nid) = Some i \<longleftrightarrow> child_named t p nm i" for i
    using exact_lookup [OF t1(2), of p nid i] t1 True inodes_names_ext [OF c t1(2) [unfolded t1(1)]]
    by (simp flip: child_of_inodes)
  show ?thesis
  proof (cases "\<exists>i. child_named t p nm i")
    case ex: True
    then have "res = fail AlreadyExists" "t' = t1"
      using r True i1 look by (auto simp: tree_insert_def contains_lookup)
    then show ?thesis using ex True t1(1,2) inodes_names_ext [OF c t1(2) [unfolded t1(1)]]
      by (auto simp: spec_insert_def table_simps intro: tree_invI)
  next
    case nex: False
    then have fr: "U64Map_find (exact t1) (key p nid) = None" using look by (metis option.exhaust)
    obtain i t3 where i3: "alloc_node t2 = (i, t3)" by (cases "alloc_node t2")
    let ?t4 = "set_node t3 i (\<lambda>n. n\<lparr>nname := nid, folded_name := fid, attr := a\<rparr>)"
    let ?t6 = "index_node (link_child ?t4 p i) i"
    have res: "res = ok i" "t' = ?t6\<lparr>live := live ?t6 + 1\<rparr>"
      using r True i1 i2 i3 fr by (simp_all add: tree_insert_def contains_lookup)
    have "length (nodes t2) + 1 < 2 ^ 32" using rn t2(1) by simp
    then have al: "allocated t2 t3 i" using alloc_node_ok [OF t2(2) _ i3] by simp
    have e2: "inodes t2 = inodes t" using inodes_names_ext [OF c t2(2) [unfolded t2(1)]] t2(1) by simp
    have p2: "valid t2 p" "is_dir (node t2 p)" "U64Map_find (exact t2) (key p nid) = None" using True fr t1(1) t2(1) by simp_all
    have "\<exists>ch'. tree_core t' ch' {} {} (ss @ ts) \<and> inodes t' = (inodes t)(i \<mapsto> (p, nm, a))"
      using insert_linked [OF t2(2) p2(1,2) al t2(3,5) _ _ p2(3), of a] t2(4,6) True res(2) e2 by simp
    moreover have "\<not> valid t i" using al t2(1) by (simp add: allocated_def)
    ultimately show ?thesis using True nex res(1) by (auto simp: spec_insert_def table_simps intro: tree_invI)
  qed
qed

lemma set_attributes_refines:
  assumes c: "tree_core t ch {} {} ss" and r: "set_attributes t i a = (res, t')"
  shows "tree_inv t' \<and> spec_set (inodes t) i a res (inodes t')"
proof (cases "valid t i")
  case False
  then show ?thesis using r c by (auto simp: set_attributes_def spec_set_def inodes_def intro: tree_invI)
next
  case True
  obtain t1 where t1: "res = ok ()" "prunes t t1 (lost t i a)" "t' = set_node t1 i (\<lambda>n. n\<lparr>attr := a\<rparr>)"
      "tree_core t' (prune_ch (lost t i a) ch) {} {} ss" "valid t1 i"
    using set_attributes_ok [OF c True, of a] r by auto
  have n: "node t' j = (if j = i then (node t1 j)\<lparr>attr := a\<rparr> else node t1 j)" for j
    using node_set_node [OF valid_in_range [OF t1(5)]] t1(3) by simp
  have v: "valid t' j = valid t1 j" for j by (simp add: valid_def n) (simp add: t1(3))
  have "names t' = names t1" by (simp add: t1(3))
  then have "inodes t' = (inodes t1)(i \<mapsto> (parent (node t1 i), name_of t1 i, a))"
    using t1(5) by (auto simp: fun_eq_iff inodes_def v n name_of_def)
  moreover have "parent (node t1 i) = parent (node t i)" "name_of t1 i = name_of t i"
    using t1(2,5) by (auto simp: prunes_def name_of_def)
  ultimately show ?thesis using t1(1,4) True inodes_prunes [OF t1(2)]
    by (auto simp: spec_set_def inodes_def under_inodes lost_def intro: tree_invI)
qed

lemma remove_refines:
  assumes c: "tree_core t ch {} {} ss" and r: "remove t i = (res, t')"
  shows "tree_inv t' \<and> spec_remove (inodes t) i res (inodes t')"
proof (cases "valid t i \<and> i \<noteq> root")
  case False
  then show ?thesis using r c by (auto simp: remove_def spec_remove_def table_simps intro: tree_invI)
next
  case True
  then obtain t1 where "remove t i = (ok (), t1)" "prunes t t1 (below t i)" "tree_core t1 (prune_ch (below t i) ch) {} {} ss"
    using remove_ok [OF c] by blast
  then show ?thesis using r True inodes_prunes [of t t1 "below t i"] by (auto simp: spec_remove_def table_simps intro: tree_invI)
qed

lemma upsert_refines:
  assumes c: "tree_core t ch {} {} ss" and rm: "room t nm" and r: "upsert t p nm a = (res, t')"
  shows "tree_inv t' \<and> spec_upsert (inodes t) p nm a res (inodes t')"
proof (cases "find_child t p nm Exact")
  case None
  then have "\<not> (\<exists>i. child_named t p nm i)" using find_child_exact [OF c] by (metis option.distinct(1))
  moreover have "tree_insert t p nm a = (res, t')" using r None by (auto simp: upsert_def tree_insert_def split: if_splits)
  ultimately show ?thesis using insert_refines [OF c rm] by (simp add: spec_upsert_def child_of_inodes)
next
  case (Some i)
  then have ci: "child_named t p nm i" using find_child_exact [OF c] by simp
  have "valid t p" using ci child_parent_ok [OF core_shape [OF c], of i] by (auto simp: child_named_def)
  moreover obtain u t1 where s: "set_attributes t i a = (u, t1)" by (cases "set_attributes t i a")
  moreover have "u = ok ()" using set_attributes_ok [OF c, of i a] ci s by (auto simp: child_named_def)
  ultimately have "res = ok i" "t1 = t'" using r Some by (auto simp: upsert_def)
  then show ?thesis using set_attributes_refines [OF c s] ci \<open>u = ok ()\<close> by (auto simp: spec_upsert_def child_of_inodes)
qed

section \<open>Renaming\<close>

definition above :: "MetadataTree \<Rightarrow> NodeId \<Rightarrow> NodeId set" where
  "above t a = {x. (a, x) \<in> (par_rel t)\<^sup>*}"

lemma above_parent:
  assumes s: "shape_ok t ch {}" and a: "valid t a" "a \<noteq> root"
  shows "card (above t (parent (node t a))) < card (above t a)"
proof (rule psubset_card_mono)
  have e: "(a, parent (node t a)) \<in> par_rel t" using a by (auto simp: par_rel_def)
  then have "above t (parent (node t a)) \<subseteq> above t a" by (auto simp: above_def intro: converse_rtrancl_into_rtrancl)
  moreover have "a \<in> above t a" "a \<notin> above t (parent (node t a))"
    using acyclic_no_back [OF par_rel_acyclic [OF s] e] by (auto simp: above_def)
  ultimately show "above t (parent (node t a)) \<subset> above t a" by auto
qed simp

lemma card_above: "shape_ok t ch {} \<Longrightarrow> valid t a \<Longrightarrow> card (above t a) \<le> length (nodes t)"
proof -
  assume s: "shape_ok t ch {}" and a: "valid t a"
  have "valid t x" if "(a, x) \<in> (par_rel t)\<^sup>*" for x
    using that a by (induction rule: rtrancl_induct) (use child_parent_ok [OF s] in \<open>auto simp: par_rel_def\<close>)
  then have "unat ` above t a \<subseteq> {..< length (nodes t)}" by (auto simp: above_def valid_def)
  then have "card (unat ` above t a) \<le> length (nodes t)" using card_mono [OF finite_lessThan] by (metis card_lessThan)
  moreover have "card (unat ` above t a) = card (above t a)" by (simp add: card_image inj_on_def unat_inj)
  ultimately show ?thesis by simp
qed

lemma ancestor_walk_ok:
  assumes s: "shape_ok t ch {}"
  shows "valid t a \<Longrightarrow> card (above t a) < fuel \<Longrightarrow> ancestor_walk fuel t i a = Some (a \<in> below t i)"
proof (induction fuel arbitrary: a)
  case (Suc fuel)
  have ai: "a \<noteq> kInvalidNode" using valid_not_invalid [OF shape_small [OF s] Suc.prems(1)] .
  have pos: "0 < card (above t a)" by (auto simp: above_def card_gt_0_iff)
  show ?case
  proof (cases "a = i \<or> a = root")
    case True
    obtain f where "fuel = Suc f" using Suc.prems(2) pos by (cases fuel) auto
    then show ?thesis using True ai shape_root [OF s] below_root [of i t] by auto
  next
    case False
    then have "a \<in> below t i \<longleftrightarrow> parent (node t a) \<in> below t i" using below_cases below_step Suc.prems(1) by blast
    then show ?thesis using False ai Suc.IH [of "parent (node t a)"] child_parent_ok [OF s Suc.prems(1)]
        above_parent [OF s Suc.prems(1)] Suc.prems(2) by simp
  qed
qed simp

lemma rename_names_core:
  assumes c: "tree_core t ch D {i} ss" and i: "valid t i" "i \<noteq> root"
    and n: "unat nid < length ss" "unat fid < length ss" "ss ! unat fid = casefold (ss ! unat nid)" "valid_name (ss ! unat nid)"
  defines "t' \<equiv> set_node t i (\<lambda>n. n\<lparr>nname := nid, folded_name := fid\<rparr>)"
  shows "tree_core t' ch D {i} ss" and "valid t' j = valid t j"
    and "node t' j = (if j = i then (node t j)\<lparr>nname := nid, folded_name := fid\<rparr> else node t j)" and "edges t' ch = edges t ch"
proof -
  note s = core_shape [OF c]
  show nd: "node t' j = (if j = i then (node t j)\<lparr>nname := nid, folded_name := fid\<rparr> else node t j)" for j
    using node_set_node [OF valid_in_range [OF i(1)]] by (simp add: t'_def)
  have "pool_rep (names t) ss" using core_names [OF c] by (simp add: names_ok_def)
  then have "nid \<noteq> kInvalidName" using n(1) unat_kInvalidNode by (auto simp: pool_rep_def kInvalidName_def kInvalidNode_def)
  moreover have "length (nodes t') = length (nodes t)" by (simp add: t'_def)
  ultimately show v: "valid t' j = valid t j" for j using i(1) by (simp add: valid_def nd)
  show E: "edges t' ch = edges t ch" by (simp add: edges_def v)
  have nt: "names t' = names t" "free t' = free t" "live t' = live t" "exact t' = exact t" "folded t' = folded t"
    "collisions t' = collisions t" "in_range t' j = in_range t j" for j by (simp_all add: t'_def)
  have "dll t' p (ch p)" if p: "valid t p" for p
    by (rule dll_frame [OF links_dll [OF shape_links [OF s] p]]) (use links_parent [OF shape_links [OF s] p] v in \<open>auto simp: nd\<close>)
  then have "links_ok t' ch" using shape_small [OF s] by (simp add: links_ok_def v) (simp add: t'_def small_def)
  then have "shape_ok t' ch D" using s by (simp add: shape_ok_def v nd E is_dir_def)
  moreover have "index_ok t' {j. valid t' j \<and> j \<noteq> root \<and> j \<notin> {i}}"
    using index_ok_frame [OF core_index [OF c], of t'] by (simp add: v nd nt)
  moreover have "names_ok t' ss" using core_names [OF c] n by (simp add: names_ok_def v nd nt)
  moreover have "slots_ok t'" using core_slots [OF c] by (simp add: slots_ok_def v nt)
  ultimately show "tree_core t' ch D {i} ss" by (simp add: tree_core_def)
qed

text \<open>Unindex, unlink, new names, link, index: the body of \<open>rename\<close>.\<close>

lemma rename_moved:
  assumes c: "tree_core t ch {} {} ss" and i: "valid t i" "i \<noteq> root" and p: "valid t p" "is_dir (node t p)" "p \<notin> below t i"
    and n: "unat nid < length ss" "unat fid < length ss" "ss ! unat fid = casefold (ss ! unat nid)" "valid_name (ss ! unat nid)"
    and fresh: "U64Map_find (exact t) (key p nid) = None"
  defines "t5 \<equiv> set_node (unlink_child (unindex_node t i) i) i (\<lambda>n. n\<lparr>nname := nid, folded_name := fid\<rparr>)"
  shows "tree_inv (index_node (link_child t5 p i) i) \<and>
    inodes (index_node (link_child t5 p i) i) = (inodes t)(i \<mapsto> (p, ss ! unat nid, attr (node t i)))"
proof -
  let ?t3 = "unindex_node t i" and ?t4 = "unlink_child (unindex_node t i) i" and ?ch = "prune_ch {i} ch"
  note s = core_shape [OF c]
  note c3 = unindex_core [OF c i]
  have i3: "valid ?t3 i" using i by simp
  note u = unlink_core [OF c3 i3 i(2)]
  have v4: "valid ?t4 j = valid t j" "valid t j \<Longrightarrow> parent (node ?t4 j) = parent (node t j) \<and> nname (node ?t4 j) = nname (node t j) \<and>
      attr (node ?t4 j) = attr (node t j)" for j using u(2) by (simp_all add: prunes_def)
  have i4: "valid ?t4 i" using i v4 by simp
  note r = rename_names_core [OF u(1) i4 i(2) n, folded t5_def]
  note s5 = core_shape [OF r(1)]
  have "(p, i) \<notin> (edges t5 ?ch)\<^sup>*"
  proof
    assume "(p, i) \<in> (edges t5 ?ch)\<^sup>*"
    moreover have "edges t5 ?ch \<subseteq> edges t ch" unfolding r(4) u(3) by (auto simp: edges_def)
    ultimately have "(p, i) \<in> (edges t ch)\<^sup>*" using rtrancl_mono by blast
    then show False using p(3) edges_par_rel [OF s] by (simp add: below_def)
  qed
  moreover have p5: "valid t5 p" "is_dir (node t5 p)" using p v4 by (auto simp: r(2,3) is_dir_def)
  ultimately have c6: "tree_core (link_child t5 p i) (?ch(p := ?ch p @ [i])) {} {i} ss" using link_core [OF r(1)] by simp
  have i5: "valid t5 i" "\<forall>q. valid t5 q \<longrightarrow> i \<notin> set (?ch q)" using s5 by (auto simp: shape_ok_def)
  note l = link_child_links [OF shape_links [OF s5] p5(1) i5]
  let ?t6 = "link_child t5 p i"
  have nd6: "parent (node ?t6 j) = (if j = i then p else parent (node t j))" "nname (node ?t6 j) = (if j = i then nid else nname (node t j))"
    "attr (node ?t6 j) = attr (node t j)" if "valid t j" for j using v4 [of j] that by (auto simp: l r(3))
  have ek: "ekey ?t6 i = key p nid" using nd6 [OF i(1)] by (simp add: ekey_def)
  have "U64Map_abs (exact ?t6) (ekey ?t6 i) = None"
  proof (rule ccontr)
    assume "U64Map_abs (exact ?t6) (ekey ?t6 i) \<noteq> None"
    then obtain j where j: "valid ?t6 j" "j \<noteq> root" "j \<noteq> i" "ekey ?t6 j = key p nid"
      using core_index [OF c6] unfolding ek by (auto simp: index_ok_def exact_ok_def)
    then have "valid t j" using l(2) r(2) v4 by simp
    moreover from this have "ekey t j = key p nid" using j(3,4) nd6 [of j] by (simp add: ekey_def)
    ultimately have "U64Map_abs (exact t) (key p nid) = Some j" using core_index [OF c] j(2) by (simp add: index_ok_def exact_ok_def)
    moreover have "key_ok (key p nid)" using key_ok_key valid_not_invalid [OF shape_small [OF s] p(1)] by blast
    moreover have "U64Map_inv (exact t)" using core_index [OF c] by (simp add: index_ok_def exact_ok_def)
    ultimately show False using fresh idx.lookup_ok [of "exact t" "key p nid"] by simp
  qed
  then have c7: "tree_core (index_node ?t6 i) (?ch(p := ?ch p @ [i])) {} {} ss" using index_core [OF c6] l(2) i5(1) i(2) by simp
  have "inodes (index_node ?t6 i) j = ((inodes t)(i \<mapsto> (p, ss ! unat nid, attr (node t i)))) j" for j
  proof (cases "valid t j")
    case False
    then show ?thesis using l(2) r(2) v4 i(1) by (auto simp: inodes_def)
  next
    case True
    then have vj: "valid (index_node ?t6 i) j" using l(2) r(2) v4 by simp
    show ?thesis using True vj nd6 [OF True] name_of_names [OF core_names [OF c7] vj] name_of_names [OF core_names [OF c] True]
      by (simp add: inodes_def)
  qed
  then show ?thesis using tree_invI [OF c7] by auto
qed

lemma rename_refines:
  assumes c: "tree_core t ch {} {} ss" and rm: "room t nm" and r: "rename t i np nm = (res, t')"
  shows "tree_inv t' \<and> spec_rename (inodes t) i np nm res (inodes t')"
proof -
  note s = core_shape [OF c]
  have walk: "ancestor_walk (Suc (length (nodes t))) t i np = Some (np \<in> below t i)" if "valid t np"
    using ancestor_walk_ok [OF s that] card_above [OF s that] by (simp del: ancestor_walk.simps)
  show ?thesis
  proof (cases "valid t i \<and> valid t np \<and> i \<noteq> root \<and> is_dir (node t np) \<and> valid_name nm \<and> np \<notin> below t i")
    case False
    have t: "tree_inv t" using tree_invI [OF c] .
    consider "\<not> (valid t i \<and> valid t np)" | "valid t i" "valid t np" "i = root" | "valid t i" "valid t np" "i \<noteq> root" "\<not> is_dir (node t np)"
      | "valid t i" "valid t np" "i \<noteq> root" "is_dir (node t np)" "\<not> valid_name nm"
      | "valid t i" "valid t np" "i \<noteq> root" "is_dir (node t np)" "valid_name nm" "np \<in> below t i" using False by blast
    then show ?thesis using r t walk
      by cases (simp_all add: rename_def spec_rename_def table_simps del: ancestor_walk.simps)
  next
    case True
    obtain nid t1 where i1: "intern_name t nm = (nid, t1)" by (cases "intern_name t nm")
    obtain fid t2 where i2: "intern_folded t1 nm nid = (fid, t2)" by (cases "intern_folded t1 nm nid")
    note rn = room_names [OF c rm]
    have s1: "length nm < 2 ^ 32" "Suc (length ss) < 2 ^ 32" using rn by auto
    obtain p1 us where t1: "t1 = t\<lparr>names := p1\<rparr>" "tree_core t1 ch {} {} (ss @ us)" "unat nid < length (ss @ us)" "(ss @ us) ! unat nid = nm"
      using intern_name_core [OF c s1 i1] by auto
    obtain p2 ts where t2: "t2 = t\<lparr>names := p2\<rparr>" "tree_core t2 ch {} {} (ss @ ts)" "unat nid < length (ss @ ts)"
        "(ss @ ts) ! unat nid = nm" "unat fid < length (ss @ ts)" "(ss @ ts) ! unat fid = casefold nm"
      using intern_both_core [OF c _ _ _ i1 i2] rn by auto
    have e1: "inodes t1 = inodes t" and e2: "inodes t2 = inodes t"
      using inodes_names_ext [OF c t1(2) [unfolded t1(1)]] t1(1) inodes_names_ext [OF c t2(2) [unfolded t2(1)]] t2(1) by simp_all
    have look: "U64Map_find (exact t1) (key np nid) = Some j \<longleftrightarrow> child_named t np nm j" for j
      using exact_lookup [OF t1(2), of np nid j] t1 True e1 by (simp flip: child_of_inodes)
    have run: "rename t i np nm = (case U64Map_find (exact t1) (key np nid) of
        Some existing \<Rightarrow> if existing = i then (ok (), t1) else (fail AlreadyExists, t1)
      | None \<Rightarrow> (ok (), index_node (link_child (set_node (unlink_child (unindex_node t2 i) i) i
            (\<lambda>n. n\<lparr>nname := nid, folded_name := fid\<rparr>)) np i) i))"
      using True walk i1 i2 by (simp add: rename_def Let_def split: option.split del: ancestor_walk.simps)
    show ?thesis
    proof (cases "U64Map_find (exact t1) (key np nid)")
      case (Some j)
      then have cj: "child_named t np nm j" using look by simp
      have uniq: "child_named t np nm k \<Longrightarrow> k = j" for k using look [of k] Some by simp
      have tt: "t' = t1" and inv: "tree_inv t1" using r run Some tree_invI [OF t1(2)] by (auto split: if_splits)
      show ?thesis
      proof (cases "j = i")
        case ji: True
        then have "inodes t = (inodes t)(i \<mapsto> (np, nm, snd (snd (the (inodes t i)))))"
          using cj by (auto simp: fun_eq_iff inodes_def child_named_def)
        then show ?thesis using r run Some ji True inv e1 tt uniq by (auto simp: spec_rename_def table_simps)
      next
        case False
        then show ?thesis using r run Some True inv e1 tt cj by (auto simp: spec_rename_def table_simps)
      qed
    next
      case None
      have p2: "valid t2 i" "i \<noteq> root" "valid t2 np" "is_dir (node t2 np)" "np \<notin> below t2 i" "U64Map_find (exact t2) (key np nid) = None"
        using True None t1(1) t2(1) under_inodes [of t2] under_inodes [of t] e2 by auto
      note m = rename_moved [OF t2(2) p2(1-5) t2(3,5) _ _ p2(6), unfolded t2(4,6), OF refl]
      have "\<not> child_named t np nm j" for j using look [of j] None by simp
      then show ?thesis using m r run None True e2 t2(1)
        by (auto simp: spec_rename_def table_simps inodes_def [of t i])
    qed
  qed
qed

section \<open>Steps and reachable trees\<close>

text \<open>An operation on the tree; the answer of an operation that gives no node is \<open>None\<close>.\<close>

fun tree_step :: "MetadataTree \<Rightarrow> TreeOp \<Rightarrow> NodeId option result \<times> MetadataTree" where
  "tree_step t (OpInsert p nm a) = apfst (map_sum id Some) (tree_insert t p nm a)"
| "tree_step t (OpUpsert p nm a) = apfst (map_sum id Some) (upsert t p nm a)"
| "tree_step t (OpSetAttributes i a) = apfst (map_sum id (\<lambda>_. None)) (set_attributes t i a)"
| "tree_step t (OpRemove i) = apfst (map_sum id (\<lambda>_. None)) (remove t i)"
| "tree_step t (OpRename i p nm) = apfst (map_sum id (\<lambda>_. None)) (rename t i p nm)"

fun spec_step :: "table \<Rightarrow> TreeOp \<Rightarrow> NodeId option result \<Rightarrow> table \<Rightarrow> bool" where
  "spec_step N (OpInsert p nm a) r N' \<longleftrightarrow> (\<exists>q. r = map_sum id Some q \<and> spec_insert N p nm a q N')"
| "spec_step N (OpUpsert p nm a) r N' \<longleftrightarrow> (\<exists>q. r = map_sum id Some q \<and> spec_upsert N p nm a q N')"
| "spec_step N (OpSetAttributes i a) r N' \<longleftrightarrow> (\<exists>q. r = map_sum id (\<lambda>_. None) q \<and> spec_set N i a q N')"
| "spec_step N (OpRemove i) r N' \<longleftrightarrow> (\<exists>q. r = map_sum id (\<lambda>_. None) q \<and> spec_remove N i q N')"
| "spec_step N (OpRename i p nm) r N' \<longleftrightarrow> (\<exists>q. r = map_sum id (\<lambda>_. None) q \<and> spec_rename N i p nm q N')"

text \<open>Room for one more node and two more names, of a length that 32 bits express.\<close>

fun op_room :: "MetadataTree \<Rightarrow> TreeOp \<Rightarrow> bool" where
  "op_room t (OpInsert p nm a) = room t nm"
| "op_room t (OpUpsert p nm a) = room t nm"
| "op_room t (OpRename i p nm) = room t nm"
| "op_room t (OpSetAttributes i a) = True"
| "op_room t (OpRemove i) = True"

lemma tree_step_refines:
  assumes "tree_inv t" and "op_room t x" and "tree_step t x = (r, t')"
  shows "tree_inv t' \<and> spec_step (inodes t) x r (inodes t')"
proof -
  obtain ch ss where c: "tree_core t ch {} {} ss" using assms(1) by (auto simp: tree_inv_def)
  show ?thesis
  proof (cases x)
    case (OpInsert p nm a)
    then show ?thesis using assms insert_refines [OF c] by (cases "tree_insert t p nm a") auto
  next
    case (OpUpsert p nm a)
    then show ?thesis using assms upsert_refines [OF c] by (cases "upsert t p nm a") auto
  next
    case (OpSetAttributes i a)
    then show ?thesis using assms set_attributes_refines [OF c] by (cases "set_attributes t i a") auto
  next
    case (OpRemove i)
    then show ?thesis using assms remove_refines [OF c] by (cases "remove t i") auto
  next
    case (OpRename i p nm)
    then show ?thesis using assms rename_refines [OF c] by (cases "rename t i p nm") auto
  qed
qed

lemma MetadataTree_init_core: "tree_core MetadataTree_init (\<lambda>_. []) {} {} [[]]"
proof -
  obtain nid pool where ip: "intern StringPool_init [] = (nid, pool)" by (cases "intern StringPool_init []")
  from pool.rep_add [OF pool.rep_empty, of "[]" nid pool] ip have pr: "pool_rep pool [[]]" "unat nid < 1" by (auto simp: interned_def)
  let ?t = "MetadataTree_init"
  have t: "nodes ?t = [root_node nid]" "free ?t = []" "names ?t = pool" "exact ?t = U64Map_init" "folded ?t = U64Map_init"
    "live ?t = 1" "collisions ?t = 0" using ip by (simp_all add: MetadataTree_init_def)
  have nid0: "nid = 0" using pr(2) by (simp add: unat_eq_0)
  have v: "valid ?t i \<longleftrightarrow> i = root" for i
    using nid0 by (auto simp: valid_def t node_def root_def root_node_def kInvalidName_def unat_eq_0)
  have n: "node ?t root = root_node nid" by (simp add: node_def t root_def)
  have "slots_ok ?t" by (simp add: slots_ok_def t v) (auto simp: in_range_def t root_def unat_eq_0)
  moreover have "shape_ok ?t (\<lambda>_. []) {}"
    by (simp add: shape_ok_def links_ok_def v dll_def n root_node_def Node_init_def edges_def small_def t acyclic_def)
  moreover have "index_ok ?t {}" using idx.empty_ok by (simp add: index_ok_def exact_ok_def folded_ok_def t)
  moreover have "casefold [] = []" by (simp add: casefold_def casefold_append.simps)
  then have "names_ok ?t [[]]" using pr nid0 by (simp add: names_ok_def t v n root_node_def)
  moreover have I: "{i. valid ?t i \<and> i \<noteq> root \<and> i \<notin> {}} = {}" using v by auto
  ultimately show ?thesis unfolding tree_core_def I by blast
qed

inductive tree_reachable :: "MetadataTree \<Rightarrow> bool" where
  start: "tree_reachable MetadataTree_init"
| step: "tree_reachable t \<Longrightarrow> op_room t x \<Longrightarrow> tree_step t x = (r, t') \<Longrightarrow> tree_reachable t'"

lemma tree_reachable_inv: "tree_reachable t \<Longrightarrow> tree_inv t"
proof (induction rule: tree_reachable.induct)
  case start
  show ?case by (rule tree_invI [OF MetadataTree_init_core])
next
  case (step t x r t')
  then show ?case using tree_step_refines by blast
qed

text \<open>What the invariant says in terms of the calls of the interface.\<close>

lemma inv_children:
  assumes c: "tree_core t ch {} {} ss" and p: "valid t p"
  shows "for_each_child t p = Some (ch p) \<and> distinct (ch p) \<and> set (ch p) = {i. valid t i \<and> i \<noteq> root \<and> parent (node t i) = p} \<and>
    distinct (map (name_of t) (ch p)) \<and> unat (child_count (node t p)) = length (ch p)"
proof -
  note s = core_shape [OF c]
  note d = links_dll [OF shape_links [OF s] p]
  have m: "set (ch p) = {i. valid t i \<and> i \<noteq> root \<and> parent (node t i) = p}"
  proof -
    have "i \<in> set (ch p) \<longleftrightarrow> valid t i \<and> i \<noteq> root \<and> parent (node t i) = p" for i
      using edges_iff [OF s, of i p] p unfolding edges_def by auto
    then show ?thesis by blast
  qed
  have "i = j" if "i \<in> set (ch p)" "j \<in> set (ch p)" "name_of t i = name_of t j" for i j
    using that m find_child_exact [OF c, of p "name_of t i" i] find_child_exact [OF c, of p "name_of t i" j]
    by (auto simp: child_named_def)
  then have "distinct (map (name_of t) (ch p))" using dll_distinct [OF d] by (auto simp: distinct_map inj_on_def)
  moreover have "unat (child_count (node t p)) = length (ch p)"
    using d dll_length [OF d shape_small [OF s]] shape_small [OF s] by (simp add: dll_def small_def unat_of_nat)
  ultimately show ?thesis using for_each_child_dll [OF d shape_small [OF s]] dll_distinct [OF d] m by simp
qed

lemma init_room: "room MetadataTree_init nm \<longleftrightarrow> length nm < 2 ^ 32 \<and> length (casefold nm) < 2 ^ 32"
proof -
  have "StringPool_size (names MetadataTree_init) = 1"
    using core_names [OF MetadataTree_init_core] by (simp add: names_ok_def pool_rep_def StringPool_size_def)
  moreover have "length (nodes MetadataTree_init) = 1" by (simp add: MetadataTree_init_def split_beta)
  ultimately show ?thesis by (simp add: room_def)
qed

lemma casefold_lit_a: "casefold [0x61] = [0x61]"
  by (simp add: casefold_def casefold_ascii is_ascii_def ascii_lower_def)

section \<open>Properties\<close>

text \<open>
  C32. Every operation on the metadata tree refines its specification on the table of inodes.  From a
  tree that satisfies the invariant, an insertion, an upsert, a change of attributes, a removal or a
  rename gives exactly the answer of the specification, error codes included, and the table it
  prescribes: an insertion adds one node under a fresh identifier, a removal takes out the node and
  everything under it, a directory that turns into a file loses what was under it, a rename moves
  one node and is refused below itself; and the invariant holds again.
\<close>

theorem tree_refines_table:
  assumes "tree_inv t" and "op_room t x" and "tree_step t x = (r, t')"
  shows "tree_inv t' \<and> spec_step (inodes t) x r (inodes t')"
  using tree_step_refines assms by blast

theorem tree_refines_table_witness:
  "let x = OpInsert root (lit ''a'') default_attributes in
   tree_inv (snd (tree_step MetadataTree_init x)) \<and>
   spec_step (inodes MetadataTree_init) x (fst (tree_step MetadataTree_init x)) (inodes (snd (tree_step MetadataTree_init x)))"
proof -
  let ?x = "OpInsert root (lit ''a'') default_attributes"
  have "op_room MetadataTree_init ?x" by (simp add: init_room casefold_lit_a)
  then show ?thesis
    using tree_refines_table [OF tree_invI [OF MetadataTree_init_core], of ?x "fst (tree_step MetadataTree_init ?x)"
        "snd (tree_step MetadataTree_init ?x)"] unfolding Let_def by (simp del: tree_step.simps spec_step.simps)
qed



text \<open>
  Looking up a child.  The exact lookup finds a node exactly when it is a live child of the
  directory with that name.  The case-insensitive lookup gives the exact match when there is one;
  otherwise a child whose folded name is the folded name asked for, and nothing only when no child has it.
\<close>

theorem find_child_spec:
  assumes "tree_inv t"
  shows "(find_child t p nm Exact = Some i \<longleftrightarrow> child_of (inodes t) p nm i) \<and>
    (find_child t p nm Exact \<noteq> None \<longrightarrow> find_child t p nm CaseInsensitive = find_child t p nm Exact) \<and>
    (find_child t p nm Exact = None \<longrightarrow>
      (case find_child t p nm CaseInsensitive of
         Some j \<Rightarrow> \<exists>nm'. child_of (inodes t) p nm' j \<and> casefold nm' = casefold nm
       | None \<Rightarrow> \<not> (\<exists>j nm'. child_of (inodes t) p nm' j \<and> casefold nm' = casefold nm)))"
proof -
  obtain ch ss where c: "tree_core t ch {} {} ss" using assms by (auto simp: tree_inv_def)
  have "find_child t p nm CaseInsensitive = find_child t p nm Exact" if "find_child t p nm Exact \<noteq> None"
    using that by (auto simp: find_child_def split: option.splits if_splits)
  then show ?thesis using find_child_exact [OF c] find_child_folded [OF c] by (simp only: child_of_inodes) blast
qed

theorem find_child_spec_witness:
  "find_child MetadataTree_init root (lit ''a'') Exact = Some 7 \<longleftrightarrow> child_of (inodes MetadataTree_init) root (lit ''a'') 7"
  using find_child_spec [OF tree_invI [OF MetadataTree_init_core], of root "lit ''a''" 7] by blast

end
