(* ===== verification/TreePaths.thy ===== *)
theory TreePaths
  imports MetadataTreeProps "HOL-Library.Sublist"
begin

text \<open>
  Paths in the metadata tree.  \<open>path_to N i ps\<close> says that following the names \<open>ps\<close> from the root of
  the table \<open>N\<close> leads to node \<open>i\<close>; lookup, path reconstruction, upsert and removal by path are
  characterised with it.
\<close>

inductive path_to :: "table \<Rightarrow> NodeId \<Rightarrow> bytes list \<Rightarrow> bool" for N where
  path_root: "path_to N root []"
| path_child: "path_to N p ps \<Longrightarrow> child_of N p nm i \<Longrightarrow> path_to N i (ps @ [nm])"

inductive_cases path_to_snocE: "path_to N i (ps @ [nm])"
inductive_cases path_to_NilE: "path_to N i []"

abbreviation dotdot :: bytes where "dotdot \<equiv> [dot, dot]"

section \<open>Components, one at a time\<close>

lemma next_component_components:
  assumes "next_component path = (part, rest)"
  shows "components path = (if good_component part then [part] else []) @ components rest"
proof -
  let ?i = "dropWhile is_path_separator path"
  have p: "part = takeWhile (\<lambda>c. \<not> is_path_separator c) ?i" and r: "rest = dropWhile (\<lambda>c. \<not> is_path_separator c) ?i"
    using assms by (simp_all add: next_component_def Let_def)
  have "\<forall>x \<in> set part. \<not> is_path_separator x" using p by (auto dest: set_takeWhileD)
  moreover have "rest = [] \<or> is_path_separator (hd rest)" using r hd_dropWhile [of "\<lambda>c. \<not> is_path_separator c" ?i] by blast
  ultimately have "components (part @ rest) = (if good_component part then [part] else []) @ components rest"
    by (rule components_split)
  moreover have "part @ rest = ?i" using p r by simp
  ultimately show ?thesis using components_dropWhile [of path] by simp
qed

lemma components_Nil [simp]: "components [] = []"
  by (simp add: components_def good_component_def)

text \<open>The walk of \<open>lookup\<close> over the components of a path.\<close>

fun resolve_names :: "MetadataTree \<Rightarrow> LookupMode \<Rightarrow> NodeId \<Rightarrow> bytes list \<Rightarrow> NodeId option" where
  "resolve_names t m cur [] = Some cur"
| "resolve_names t m cur (c # cs) =
    (if c = dotdot then resolve_names t m (if parent (node t cur) \<noteq> kInvalidNode then parent (node t cur) else cur) cs
     else case find_child t cur c m of None \<Rightarrow> None | Some nxt \<Rightarrow> resolve_names t m nxt cs)"

lemma lookup_loop_resolve: "lookup_loop t m cur path = resolve_names t m cur (components path)"
proof (induction t m cur path rule: lookup_loop.induct)
  case (1 t m cur path)
  show ?case
  proof (cases "path = []")
    case True
    then show ?thesis by (simp add: lookup_loop.simps)
  next
    case False
    obtain part rest where nc: "next_component path = (part, rest)" by (cases "next_component path")
    note c = next_component_components [OF nc]
    show ?thesis
    proof (cases "part = [] \<or> part = [dot]")
      case True
      then have "lookup_loop t m cur path = lookup_loop t m cur rest" using False nc by (subst lookup_loop.simps) auto
      moreover have "components path = components rest" using c True by (auto simp: good_component_def)
      ultimately show ?thesis using "1.IH"(1) [OF False nc [symmetric] True] by simp
    next
      case g: False
      then have cp: "components path = part # components rest" using c by (simp add: good_component_def)
      show ?thesis
      proof (cases "part = dotdot")
        case True
        then have "lookup_loop t m cur path =
            lookup_loop t m (if parent (node t cur) \<noteq> kInvalidNode then parent (node t cur) else cur) rest"
          using False nc by (subst lookup_loop.simps) simp
        then show ?thesis using "1.IH"(2) [OF False nc [symmetric] g True] cp True by simp
      next
        case nd: False
        have "lookup_loop t m cur path = (case find_child t cur part m of None \<Rightarrow> None | Some nxt \<Rightarrow> lookup_loop t m nxt rest)"
          using False nc g nd by (subst lookup_loop.simps) simp
        then show ?thesis using "1.IH"(3) [OF False nc [symmetric] g nd] cp nd by (auto split: option.split)
      qed
    qed
  qed
qed

lemma lookup_resolve: "lookup t path m = resolve_names t m root (components path)"
  by (simp add: lookup_def lookup_loop_resolve)

section \<open>Paths of a tree\<close>

lemma resolve_append:
  "resolve_names t m i (xs @ ys) = (case resolve_names t m i xs of None \<Rightarrow> None | Some j \<Rightarrow> resolve_names t m j ys)"
  by (induction xs arbitrary: i) (auto split: option.split)

lemma resolve_path:
  assumes c: "tree_core t ch {} {} ss"
  shows "dotdot \<notin> set cs \<Longrightarrow> resolve_names t Exact root cs = Some i \<longleftrightarrow> path_to (inodes t) i cs"
proof (induction cs arbitrary: i rule: rev_induct)
  case Nil
  then show ?case by (auto intro: path_root elim: path_to_NilE)
next
  case (snoc x xs)
  have f: "find_child t j x Exact = Some i \<longleftrightarrow> child_of (inodes t) j x i" for j
    using find_child_exact [OF c] by (simp add: child_of_inodes)
  have "resolve_names t Exact root (xs @ [x]) = Some i \<longleftrightarrow> (\<exists>j. resolve_names t Exact root xs = Some j \<and> find_child t j x Exact = Some i)"
    using snoc.prems by (auto simp: resolve_append split: option.splits)
  also have "\<dots> \<longleftrightarrow> path_to (inodes t) i (xs @ [x])"
    using snoc f by (auto intro: path_child elim!: path_to_snocE)
  finally show ?case .
qed

lemma path_unique: "tree_core t ch {} {} ss \<Longrightarrow> path_to (inodes t) i ps \<Longrightarrow> path_to (inodes t) j ps \<Longrightarrow> i = j"
proof (induction ps arbitrary: i j rule: rev_induct)
  case Nil
  then show ?case by (auto elim: path_to_NilE)
next
  case (snoc x xs)
  obtain p q where "path_to (inodes t) p xs" "child_of (inodes t) p x i" "path_to (inodes t) q xs" "child_of (inodes t) q x j"
    using snoc.prems(2,3) by (auto elim!: path_to_snocE)
  moreover from this have "p = q" using snoc by blast
  ultimately show ?case using find_child_exact [OF snoc.prems(1), of p x] by (simp add: child_of_inodes) (metis option.inject)
qed

lemma core_valid_name: "tree_core t ch {} {} ss \<Longrightarrow> valid t i \<Longrightarrow> i \<noteq> root \<Longrightarrow> valid_name (name_of t i)"
  using core_names [of t ch "{}" "{}" ss] name_of_names [of t ss i] by (simp add: names_ok_def)

lemma valid_name_plain: "valid_name nm \<Longrightarrow> plain_component nm \<and> nm \<noteq> dotdot"
  by (auto simp: valid_name_def plain_component_def good_component_def list_all_iff split: if_splits)

lemma path_names:
  assumes c: "tree_core t ch {} {} ss"
  shows "path_to (inodes t) i ps \<Longrightarrow> list_all plain_component ps \<and> dotdot \<notin> set ps"
proof (induction rule: path_to.induct)
  case (path_child p ps nm i)
  then have "plain_component nm \<and> nm \<noteq> dotdot"
    using core_valid_name [OF c, of i] valid_name_plain by (auto simp: child_of_inodes child_named_def)
  then show ?case using path_child by auto
qed simp

section \<open>Path reconstruction\<close>

lemma chain_walk_ok:
  assumes c: "tree_core t ch {} {} ss"
  shows "valid t i \<Longrightarrow> card (above t i) \<le> fuel \<Longrightarrow> \<exists>xs. chain_walk fuel t i = Some xs \<and>
    path_to (inodes t) i (map (name_of t) (rev xs))"
proof (induction fuel arbitrary: i)
  case 0
  then show ?case by (auto simp: above_def)
next
  case (Suc fuel)
  show ?case
  proof (cases "i = root")
    case True
    then show ?thesis by (auto intro: path_root)
  next
    case False
    note s = core_shape [OF c]
    obtain xs where xs: "chain_walk fuel t (parent (node t i)) = Some xs" "path_to (inodes t) (parent (node t i)) (map (name_of t) (rev xs))"
      using Suc.IH [of "parent (node t i)"] child_parent_ok [OF s Suc.prems(1) False] above_parent [OF s Suc.prems(1) False] Suc.prems(2) by auto
    have "child_of (inodes t) (parent (node t i)) (name_of t i) i" using Suc.prems(1) False by (simp add: child_of_inodes child_named_def)
    then show ?thesis using path_child [OF xs(2)] xs(1) False by simp
  qed
qed

lemma foldl_join:
  assumes "\<forall>c \<in> set cs. f c \<noteq> []"
  shows "foldl (\<lambda>out c. (if out \<noteq> [] then out @ [slash] else out) @ f c) [] cs = join (map f cs)"
  using assms
proof (induction cs rule: rev_induct)
  case (snoc c cs)
  then show ?case
  proof (cases "cs = []")
    case False
    have "join (map f cs) \<noteq> []" using False snoc.prems by (cases cs) (auto simp: join_Cons)
    then show ?thesis using snoc False by (simp add: join_append)
  qed simp
qed simp

lemma path_of_join:
  assumes c: "tree_core t ch {} {} ss" and i: "valid t i"
  shows "\<exists>ps. path_to (inodes t) i ps \<and> path_of t i slash = join ps"
proof (cases "i = root")
  case True
  then show ?thesis by (auto simp: path_of_def intro!: exI [of _ "[]"] path_root)
next
  case False
  obtain xs where xs: "chain_walk (Suc (length (nodes t))) t i = Some xs" "path_to (inodes t) i (map (name_of t) (rev xs))"
    using chain_walk_ok [OF c i, of "Suc (length (nodes t))"] card_above [OF core_shape [OF c] i] by auto
  have "\<forall>x \<in> set (rev xs). name_of t x \<noteq> []" using path_names [OF c xs(2)]
    by (auto simp: list_all_iff plain_component_def good_component_def)
  then have "path_of t i slash = join (map (name_of t) (rev xs))"
    using xs(1) i False foldl_join [of "rev xs" "name_of t"] by (simp add: path_of_def del: chain_walk.simps)
  then show ?thesis using xs(2) by blast
qed

section \<open>Room for several insertions\<close>

definition room_for :: "MetadataTree \<Rightarrow> bytes list \<Rightarrow> bool" where
  "room_for t nms \<longleftrightarrow> length (nodes t) + length nms < 2 ^ 32 \<and> StringPool_size (names t) + 2 * length nms < 2 ^ 32 \<and>
    (\<forall>nm \<in> set nms. length nm < 2 ^ 32 \<and> length (casefold nm) < 2 ^ 32)"

lemma room_for_Cons: "room_for t (nm # nms) \<Longrightarrow> room t nm"
  by (simp add: room_for_def room_def)

lemma room_for_same: "room_for t (nm # nms) \<Longrightarrow> room_for t nms"
  by (simp add: room_for_def)

lemma store_entries: "entries (snd (store p s)) = entries p"
  by (simp add: store_def Let_def)

lemma intern_size: "StringPool_size (snd (intern p s)) \<le> StringPool_size p + 1"
  using store_entries [of p s]
  by (auto simp: intern_def StringPool_size_def Let_def split: option.split prod.split)

lemma intern_name_size:
  "intern_name t nm = (i, t') \<Longrightarrow> nodes t' = nodes t \<and> StringPool_size (names t') \<le> StringPool_size (names t) + 1"
  using intern_size [of "names t" nm] by (auto simp: intern_name_def split: prod.splits)

lemma alloc_node_size: "alloc_node t = (i, t') \<Longrightarrow> length (nodes t') \<le> length (nodes t) + 1 \<and> names t' = names t"
  by (auto simp: alloc_node_def Let_def split: if_splits)

lemma insert_size:
  assumes r: "tree_insert t p nm a = (res, t')"
  shows "length (nodes t') \<le> length (nodes t) + 1 \<and> StringPool_size (names t') \<le> StringPool_size (names t) + 2"
proof -
  obtain nid t1 where 1: "intern_name t nm = (nid, t1)" by (cases "intern_name t nm")
  obtain fid t2 where 2: "intern_folded t1 nm nid = (fid, t2)" by (cases "intern_folded t1 nm nid")
  obtain i t3 where 3: "alloc_node t2 = (i, t3)" by (cases "alloc_node t2")
  have "nodes t2 = nodes t1 \<and> StringPool_size (names t2) \<le> StringPool_size (names t1) + 1"
    using 2 intern_name_size [of t1 "casefold_append nm []" fid t2] by (auto simp: intern_folded_def split: if_splits)
  then show ?thesis using r 1 2 3 intern_name_size [OF 1] alloc_node_size [OF 3]
    by (auto simp: tree_insert_def split: if_splits)
qed

lemma room_for_insert: "room_for t (nm # nms) \<Longrightarrow> tree_insert t p nm a = (res, t') \<Longrightarrow> room_for t' nms"
  using insert_size [of t p nm a res t'] by (auto simp: room_for_def)

section \<open>Growing and shrinking tables\<close>

lemma path_mono: "path_to N i ps \<Longrightarrow> N \<subseteq>\<^sub>m N' \<Longrightarrow> path_to N' i ps"
proof (induction rule: path_to.induct)
  case (path_child p ps nm i)
  then show ?case by (auto simp: child_of_def map_le_def dom_def intro!: path_to.path_child)
qed (rule path_root)

lemma under_step: "child_of N p nm j \<Longrightarrow> p \<in> under N i \<Longrightarrow> j \<in> under N i"
  by (auto simp: under_def up_rel_def child_of_def intro: converse_rtrancl_into_rtrancl)

lemma path_outside:
  "path_to N j ps \<Longrightarrow> j \<notin> under N i \<Longrightarrow> (\<And>k. k \<notin> under N i \<Longrightarrow> N' k = N k) \<Longrightarrow> path_to N' j ps"
proof (induction rule: path_to.induct)
  case (path_child p ps nm j)
  then have "p \<notin> under N i" using under_step by blast
  moreover have "child_of N' p nm j" using path_child by (simp add: child_of_def)
  ultimately show ?case using path_child by (auto intro: path_to.path_child)
qed (rule path_root)

lemma path_of_node_unique: "path_to N i ps \<Longrightarrow> path_to N i qs \<Longrightarrow> ps = qs"
proof (induction arbitrary: qs rule: path_to.induct)
  case path_root
  then show ?case by (cases rule: path_to.cases) (auto simp: child_of_def)
next
  case (path_child p ps nm i)
  from path_child(4) show ?case
  proof (cases rule: path_to.cases)
    case path_root
    then show ?thesis using path_child(2) by (simp add: child_of_def)
  next
    case (path_child p' ps' nm')
    then have "p' = p" "nm' = nm" using \<open>child_of N p nm i\<close> by (auto simp: child_of_def)
    then show ?thesis using path_child(1,2) path_child.IH by simp
  qed
qed

lemma under_prefix: "path_to N i ps \<Longrightarrow> j \<in> under N i \<Longrightarrow> path_to N j qs \<Longrightarrow> prefix ps qs"
proof -
  assume i: "path_to N i ps" and "j \<in> under N i" and j: "path_to N j qs"
  then have "(j, i) \<in> (up_rel N)\<^sup>*" by (simp add: under_def)
  then show ?thesis using j
  proof (induction arbitrary: qs rule: converse_rtrancl_induct)
    case base
    then show ?case using path_of_node_unique [OF i] by auto
  next
    case (step x y)
    from step(4) show ?case
    proof (cases rule: path_to.cases)
      case path_root
      then show ?thesis using step(1) by (auto simp: up_rel_def)
    next
      case (path_child p rs nm)
      then have "p = y" using step(1) by (auto simp: up_rel_def child_of_def)
      then show ?thesis using step(3) [of rs] path_child by simp
    qed
  qed
qed

lemma prefix_under:
  assumes c: "tree_core t ch {} {} ss" and i: "path_to (inodes t) i ps"
  shows "path_to (inodes t) j qs \<Longrightarrow> prefix ps qs \<Longrightarrow> j \<in> under (inodes t) i"
proof (induction rule: path_to.induct)
  case path_root
  then show ?case using i path_unique [OF c i, of root] path_to.path_root by (auto simp: under_def)
next
  case (path_child p rs nm j)
  show ?case
  proof (cases "ps = rs @ [nm]")
    case True
    then show ?thesis using path_unique [OF c i] path_to.path_child [OF path_child(1,2)] by (auto simp: under_def)
  next
    case False
    then show ?thesis using path_child under_step by (metis prefix_snoc)
  qed
qed

section \<open>Operations by path\<close>

lemma insert_extends:
  assumes c: "tree_inv t" and rm: "room t nm" and r: "tree_insert t p nm a = (Inr i, t')"
  shows "tree_inv t' \<and> inodes t \<subseteq>\<^sub>m inodes t' \<and> child_of (inodes t') p nm i"
proof -
  obtain ch ss where c: "tree_core t ch {} {} ss" using c by (auto simp: tree_inv_def)
  have sp: "tree_inv t'" "spec_insert (inodes t) p nm a (Inr i) (inodes t')" using insert_refines [OF c rm r] by auto
  then have N: "inodes t i = None" "inodes t' = (inodes t)(i \<mapsto> (p, nm, a))"
    by (auto simp: spec_insert_def split: if_splits)
  moreover have "i \<noteq> root" using N(1) core_slots [OF c] unfolding slots_ok_def inodes_None by blast
  moreover have "inodes t \<subseteq>\<^sub>m (inodes t)(i \<mapsto> (p, nm, a))" using N(1) by (simp add: map_le_def dom_def)
  ultimately show ?thesis using sp(1) by (simp add: child_of_def)
qed

lemma insert_fails:
  assumes "tree_inv t" and "room t nm" and "tree_insert t p nm a = (Inl e, t')"
  shows "tree_inv t' \<and> inodes t' = inodes t"
proof -
  obtain ch ss where c: "tree_core t ch {} {} ss" using assms(1) by (auto simp: tree_inv_def)
  show ?thesis using insert_refines [OF c assms(2,3)] by (auto simp: spec_insert_def split: if_splits)
qed

lemma ensure_loop_ok:
  assumes "tree_inv t" and "path_to (inodes t) cur ps" and "room_for t (components path @ extra)"
    and "ensure_loop t cur path = (res, t')"
  shows "tree_inv t' \<and> inodes t \<subseteq>\<^sub>m inodes t' \<and>
    (\<forall>d. res = Inr d \<longrightarrow> path_to (inodes t') d (ps @ components path) \<and> room_for t' extra)"
  using assms
proof (induction t cur path arbitrary: ps rule: ensure_loop.induct)
  case (1 t cur path)
  show ?case
  proof (cases "path = []")
    case True
    then show ?thesis using 1 by (auto simp: ensure_loop.simps)
  next
    case False
    obtain part rest where nc: "next_component path = (part, rest)" by (cases "next_component path")
    note cmp = next_component_components [OF nc]
    show ?thesis
    proof (cases "part = [] \<or> part = [dot]")
      case True
      then have "ensure_loop t cur path = ensure_loop t cur rest" using False nc by (subst ensure_loop.simps) auto
      moreover have "components path = components rest" using cmp True by (auto simp: good_component_def)
      ultimately show ?thesis using "1.IH"(1) [OF False nc [symmetric] True] 1(4-7) by simp
    next
      case g: False
      then have cp: "components path = part # components rest" using cmp by (simp add: good_component_def)
      obtain ch ss where c: "tree_core t ch {} {} ss" using 1(4) by (auto simp: tree_inv_def)
      have rm: "room t part" "room_for t (components rest @ extra)" using 1(6) cp room_for_Cons room_for_same by auto
      show ?thesis
      proof (cases "part = dotdot")
        case True
        then show ?thesis using 1(4,7) False nc by (subst (asm) ensure_loop.simps) auto
      next
        case nd: False
        show ?thesis
        proof (cases "find_child t cur part Exact")
          case (Some nxt)
          then have "child_of (inodes t) cur part nxt" using find_child_exact [OF c] by (simp add: child_of_inodes)
          then have pn: "path_to (inodes t) nxt (ps @ [part])" using path_child [OF 1(5)] by simp
          show ?thesis
          proof (cases "is_dir (node t nxt)")
            case True
            then have "ensure_loop t nxt rest = (res, t')" using 1(7) False nc g nd Some by (subst (asm) ensure_loop.simps) simp
            then show ?thesis using "1.IH"(3) [OF False nc [symmetric] g nd Some _ 1(4) pn rm(2)] True cp by simp
          next
            case nodir: False
            then show ?thesis using 1(4,7) False nc g nd Some by (subst (asm) ensure_loop.simps) auto
          qed
        next
          case None
          obtain q t1 where ins: "tree_insert t cur part kImplicitDirectory = (q, t1)" by (cases "tree_insert t cur part kImplicitDirectory")
          show ?thesis
          proof (cases q)
            case (Inl e)
            then have "(res, t') = (Inl e, t1)" using 1(7) False nc g nd None ins by (subst (asm) ensure_loop.simps) simp
            then show ?thesis using insert_fails [OF 1(4) rm(1)] ins Inl by auto
          next
            case (Inr created)
            note ex = insert_extends [OF 1(4) rm(1) ins [unfolded Inr]]
            have "ensure_loop t1 created rest = (res, t')"
              using 1(7) False nc g nd None ins Inr by (subst (asm) ensure_loop.simps) simp
            moreover have "path_to (inodes t1) created (ps @ [part])" using path_child path_mono 1(5) ex by blast
            moreover have "room_for t1 (components rest @ extra)" using room_for_insert [OF _ ins] 1(6) cp by simp
            ultimately have "tree_inv t' \<and> inodes t1 \<subseteq>\<^sub>m inodes t' \<and>
                (\<forall>d. res = Inr d \<longrightarrow> path_to (inodes t') d ((ps @ [part]) @ components rest) \<and> room_for t' extra)"
              using "1.IH"(2) [OF False nc [symmetric] g nd None ins [symmetric] Inr] ex by blast
            then show ?thesis using ex cp map_le_trans by auto
          qed
        qed
      qed
    qed
  qed
qed

lemma upsert_at_path:
  assumes c: "tree_core t ch {} {} ss" and rm: "room t nm" and d: "path_to (inodes t) d cs" and r: "upsert t d nm a = (Inr i, t')"
  shows "tree_inv t' \<and> path_to (inodes t') i (cs @ [nm]) \<and> attr (node t' i) = a \<and>
    (\<forall>j qs. path_to (inodes t) j qs \<and> \<not> strict_prefix (cs @ [nm]) qs \<longrightarrow> path_to (inodes t') j qs)"
proof -
  let ?N = "inodes t" and ?N' = "inodes t'"
  have sp: "tree_inv t'" "spec_upsert ?N d nm a (Inr i) ?N'" using upsert_refines [OF c rm r] by auto
  have at: "attr (node t' i) = a" if "?N' i = Some (q, n, a)" for q n using that by (simp add: inodes_def split: if_splits)
  show ?thesis
  proof (cases "\<exists>j. child_of ?N d nm j")
    case True
    then have ci: "child_of ?N d nm i" and st: "spec_set ?N i a (ok ()) ?N'" using sp(2) by (auto simp: spec_upsert_def)
    then have Ni: "?N' i = Some (d, nm, a)" and oth: "\<And>k. k \<notin> under ?N i \<Longrightarrow> ?N' k = ?N k"
      by (auto simp: spec_set_def child_of_def restrict_map_def under_def)
    have pi: "path_to ?N i (cs @ [nm])" using path_child [OF d ci] .
    have "d \<notin> under ?N i" using under_prefix [OF pi _ d] by auto
    then have "path_to ?N' d cs" using path_outside [OF d _ oth] by blast
    moreover have "child_of ?N' d nm i" using ci Ni by (simp add: child_of_def)
    ultimately have pi': "path_to ?N' i (cs @ [nm])" by (rule path_child)
    have "path_to ?N' j qs" if j: "path_to ?N j qs" "\<not> strict_prefix (cs @ [nm]) qs" for j qs
    proof (cases "j \<in> under ?N i")
      case True
      then have "qs = cs @ [nm]" using under_prefix [OF pi True j(1)] j(2) by (auto simp: strict_prefix_def)
      then show ?thesis using path_unique [OF c j(1)] pi pi' by simp
    next
      case False
      then show ?thesis using path_outside [OF j(1) _ oth] by blast
    qed
    then show ?thesis using sp(1) pi' at [OF Ni] by blast
  next
    case False
    then have N: "?N i = None" "?N' = ?N(i \<mapsto> (d, nm, a))" using sp(2) by (auto simp: spec_upsert_def spec_insert_def split: if_splits)
    then have le: "?N \<subseteq>\<^sub>m ?N'" by (simp add: map_le_def dom_def)
    have "i \<noteq> root" using N(1) core_slots [OF c] unfolding slots_ok_def inodes_None by blast
    then have "child_of ?N' d nm i" using N(2) by (simp add: child_of_def)
    then show ?thesis using sp(1) at N(2) path_child path_mono [OF _ le] d by (metis fun_upd_same)
  qed
qed

lemma upsert_path_ok:
  assumes t: "tree_inv t" and rm: "room_for t (components path)" and r: "upsert_path t path a = (Inr i, t')"
  shows "tree_inv t' \<and> path_to (inodes t') i (components path) \<and> attr (node t' i) = a \<and>
    (\<forall>j qs. path_to (inodes t) j qs \<and> \<not> strict_prefix (components path) qs \<longrightarrow> path_to (inodes t') j qs)"
proof -
  have "normalize_path path \<noteq> []" using r by (auto simp: upsert_path_def Let_def)
  then have "components path \<noteq> []" by (auto simp: normalize_path_eq)
  then obtain cs nm where cs: "components path = cs @ [nm]" by (metis rev_exhaust)
  have pl: "list_all plain_component (cs @ [nm])" using components_all_plain [of path] cs by simp
  have sp: "split_parent (normalize_path path) = (join cs, nm)" using split_parent_join [OF pl] cs by (simp add: normalize_path_eq)
  obtain q t1 where e: "ensure_loop t root (join cs) = (q, t1)" by (cases "ensure_loop t root (join cs)")
  have cj: "components (join cs) = cs" using components_join pl by simp
  obtain d where d: "q = Inr d" "upsert t1 d nm a = (Inr i, t')"
    using r sp e \<open>normalize_path path \<noteq> []\<close> by (cases q) (auto simp: upsert_path_def Let_def ensure_directory_path_def)
  have "tree_inv t1 \<and> inodes t \<subseteq>\<^sub>m inodes t1 \<and> path_to (inodes t1) d cs \<and> room_for t1 [nm]"
    using ensure_loop_ok [OF t path_root _ e, of "[nm]"] rm cs cj d(1) by simp
  moreover from this obtain ch ss where "tree_core t1 ch {} {} ss" by (auto simp: tree_inv_def)
  ultimately show ?thesis using upsert_at_path [OF _ room_for_Cons _ d(2)] path_mono unfolding cs by meson
qed

lemma upsert_path_error_inv:
  assumes t: "tree_inv t" and rm: "room_for t (components path)" and r: "upsert_path t path a = (Inl e, t')"
  shows "tree_inv t' \<and> inodes t \<subseteq>\<^sub>m inodes t'"
proof (cases "components path = []")
  case True
  then show ?thesis using r t by (auto simp: upsert_path_def Let_def normalize_path_eq)
next
  case False
  then obtain cs nm where cs: "components path = cs @ [nm]" by (metis rev_exhaust)
  have pl: "list_all plain_component (cs @ [nm])" using components_all_plain [of path] cs by simp
  have sp: "split_parent (normalize_path path) = (join cs, nm)" using split_parent_join [OF pl] cs by (simp add: normalize_path_eq)
  have ne: "normalize_path path \<noteq> []" using components_Nil False normalize_path_components by metis
  obtain q t1 where e: "ensure_loop t root (join cs) = (q, t1)" by (cases "ensure_loop t root (join cs)")
  have cj: "components (join cs) = cs" using components_join pl by simp
  have en: "tree_inv t1 \<and> inodes t \<subseteq>\<^sub>m inodes t1 \<and> (\<forall>d. q = Inr d \<longrightarrow> room_for t1 [nm])"
    using ensure_loop_ok [OF t path_root _ e, of "[nm]"] rm cs cj by simp
  show ?thesis
  proof (cases q)
    case (Inl x)
    then show ?thesis using r sp e ne en by (auto simp: upsert_path_def Let_def ensure_directory_path_def)
  next
    case (Inr d)
    then have u: "upsert t1 d nm a = (Inl e, t')" using r sp e ne by (auto simp: upsert_path_def Let_def ensure_directory_path_def)
    obtain ch ss where c: "tree_core t1 ch {} {} ss" using en by (auto simp: tree_inv_def)
    have "tree_inv t' \<and> spec_upsert (inodes t1) d nm a (Inl e) (inodes t')" using upsert_refines [OF c room_for_Cons u] en Inr by blast
    then show ?thesis using en by (auto simp: spec_upsert_def spec_insert_def split: if_splits)
  qed
qed

lemma init_upsert_a:
  obtains i t where "upsert_path MetadataTree_init (lit ''a'') default_attributes = (Inr i, t)"
    "room_for MetadataTree_init (components (lit ''a''))" "components (lit ''a'') = [lit ''a'']"
proof -
  note c = MetadataTree_init_core
  have cs: "components (lit ''a'') = [lit ''a'']" by (simp add: components_def good_component_def is_path_separator_def)
  have rm: "room MetadataTree_init (lit ''a'')" by (simp add: init_room casefold_lit_a)
  have root: "valid MetadataTree_init root" "\<And>i. valid MetadataTree_init i \<Longrightarrow> i = root" "is_dir (node MetadataTree_init root)"
    by (simp_all add: MetadataTree_init_def valid_def node_def root_def root_node_def split_beta is_dir_def kImplicitDirectory_def unat_eq_0 kInvalidName_def)
      (use core_slots [OF c] in \<open>simp add: slots_ok_def valid_def node_def root_def MetadataTree_init_def split_beta root_node_def kInvalidName_def\<close>)
  obtain r t where u: "upsert MetadataTree_init root (lit ''a'') default_attributes = (r, t)" by (cases "upsert MetadataTree_init root (lit ''a'') default_attributes")
  have "spec_upsert (inodes MetadataTree_init) root (lit ''a'') default_attributes r (inodes t)" using upsert_refines [OF c rm u] by simp
  moreover have no: "(\<exists>i. child_of (inodes MetadataTree_init) root (lit ''a'') i) = False"
    using root(2) by (auto simp: child_of_inodes child_named_def)
  moreover have "valid_name (lit ''a'')" by (simp add: valid_name_def is_path_separator_def)
  ultimately obtain i where "r = Inr i" using root(1,3) unfolding spec_upsert_def spec_insert_def dir_in_inodes inodes_None no if_False by auto
  moreover have "upsert_path MetadataTree_init (lit ''a'') default_attributes = (r, t)"
    using u cs by (simp add: upsert_path_def normalize_path_eq split_parent_def ensure_directory_path_def ensure_loop.simps)
  moreover have "room_for MetadataTree_init (components (lit ''a''))" unfolding cs using rm by (simp add: room_for_def room_def)
  ultimately show thesis using that cs by blast
qed

section \<open>Properties\<close>

text \<open>
  Looking up a path (without \<open>..\<close>) walks its components: it gives a node exactly when following
  the names of the components from the root, each naming a child of the one before, leads to that
  node.  Separators of either kind, repeated ones and \<open>.\<close> components make no difference.
\<close>

theorem lookup_follows_names:
  assumes "tree_inv t" and "dotdot \<notin> set (components path)"
  shows "lookup t path Exact = Some i \<longleftrightarrow> path_to (inodes t) i (components path)"
proof -
  obtain ch ss where c: "tree_core t ch {} {} ss" using assms(1) by (auto simp: tree_inv_def)
  show ?thesis using resolve_path [OF c assms(2)] by (simp add: lookup_resolve)
qed

theorem lookup_follows_names_witness:
  "lookup MetadataTree_init (lit ''./a//'') Exact = Some 3 \<longleftrightarrow> path_to (inodes MetadataTree_init) 3 (components (lit ''./a//''))"
  by (rule lookup_follows_names [OF tree_invI [OF MetadataTree_init_core]])
    (simp add: components_def good_component_def is_path_separator_def)

lemma path_of_resolves:
  assumes "tree_inv t" and "valid t i"
  shows "lookup t (path_of t i slash) Exact = Some i"
proof -
  obtain ch ss where c: "tree_core t ch {} {} ss" using assms(1) by (auto simp: tree_inv_def)
  obtain ps where ps: "path_to (inodes t) i ps" "path_of t i slash = join ps" using path_of_join [OF c assms(2)] by auto
  have n: "list_all plain_component ps" "dotdot \<notin> set ps" using path_names [OF c ps(1)] by auto
  then show ?thesis using resolve_path [OF c n(2)] ps components_join [OF n(1)] by (simp add: lookup_resolve)
qed

lemma find_child_mode: "find_child t p nm Exact = Some j \<Longrightarrow> find_child t p nm m = Some j"
  by (auto simp: find_child_def split: option.splits if_splits)

lemma resolve_mode: "resolve_names t Exact i cs = Some j \<Longrightarrow> resolve_names t m i cs = Some j"
proof (induction cs arbitrary: i)
  case (Cons x xs)
  then show ?case using find_child_mode [of t i x _ m] by (auto split: option.splits if_splits)
qed simp

lemma path_of_resolves_any:
  assumes "tree_inv t" and "valid t i"
  shows "lookup t (path_of t i slash) m = Some i"
  using resolve_mode [OF path_of_resolves [OF assms, unfolded lookup_resolve]] by (simp only: lookup_resolve)

text \<open>
  C34. The path reconstructed for a live node leads back to it, in the case-insensitive mode of the mount as
  well as exactly: a node whose name differs from a sibling's by case only is not shadowed by it.
\<close>

theorem path_of_lookup:
  assumes "tree_inv t" and "valid t i"
  shows "lookup t (path_of t i slash) m = Some i"
  using assms by (rule path_of_resolves_any)

theorem path_of_lookup_witness:
  "lookup MetadataTree_init (path_of MetadataTree_init root slash) CaseInsensitive = Some root"
  by (rule path_of_lookup [OF tree_invI [OF MetadataTree_init_core]])
    (use core_slots [OF MetadataTree_init_core] in \<open>simp add: slots_ok_def\<close>)

text \<open>
  After a successful upsert by path the path leads to the node that was returned and this node has
  the attributes that were given; every other path keeps leading where it led, unless it runs
  through the node (which may have stopped being a directory); the invariant holds again.
\<close>

theorem upsert_path_then_lookup:
  assumes "tree_inv t" and "room_for t (components path)" and "upsert_path t path a = (Inr i, t')"
    and "dotdot \<notin> set (components path)"
  shows "tree_inv t' \<and> lookup t' path Exact = Some i \<and> attr (node t' i) = a \<and>
    (\<forall>q j. dotdot \<notin> set (components q) \<and> lookup t q Exact = Some j \<and> \<not> strict_prefix (components path) (components q) \<longrightarrow>
       lookup t' q Exact = Some j)"
proof -
  note u = upsert_path_ok [OF assms(1-3)]
  obtain ch ss where c: "tree_core t ch {} {} ss" using assms(1) by (auto simp: tree_inv_def)
  obtain ch' ss' where c': "tree_core t' ch' {} {} ss'" using u by (auto simp: tree_inv_def)
  show ?thesis using u assms(4) resolve_path [OF c] resolve_path [OF c'] unfolding lookup_resolve by blast
qed

theorem upsert_path_then_lookup_witness:
  "\<exists>i t. upsert_path MetadataTree_init (lit ''a'') default_attributes = (Inr i, t) \<and> lookup t (lit ''a'') Exact = Some i \<and>
     attr (node t i) = default_attributes"
proof -
  obtain i t where u: "upsert_path MetadataTree_init (lit ''a'') default_attributes = (Inr i, t)"
    "room_for MetadataTree_init (components (lit ''a''))" "components (lit ''a'') = [lit ''a'']" by (rule init_upsert_a)
  then show ?thesis using upsert_path_then_lookup [OF tree_invI [OF MetadataTree_init_core] u(2,1)] by auto
qed

text \<open>
  After a successful removal by path no path at or below it leads anywhere, and every other path
  leads where it led before.
\<close>

theorem remove_path_then_lookup:
  assumes "tree_inv t" and "remove_path t path Exact = (Inr (), t')" and "dotdot \<notin> set (components path)"
    and "dotdot \<notin> set (components q)"
  shows "tree_inv t' \<and> lookup t' q Exact = (if prefix (components path) (components q) then None else lookup t q Exact)"
proof -
  obtain ch ss where c: "tree_core t ch {} {} ss" using assms(1) by (auto simp: tree_inv_def)
  obtain i where i: "lookup t path Exact = Some i" "remove t i = (Inr (), t')" using assms(2) by (auto simp: remove_path_def split: option.splits)
  have pi: "path_to (inodes t) i (components path)" using i(1) resolve_path [OF c assms(3)] by (simp add: lookup_resolve)
  have r: "tree_inv t'" "inodes t' = inodes t |` (- under (inodes t) i)"
    using remove_refines [OF c i(2)] by (auto simp: spec_remove_def split: if_splits)
  obtain ch' ss' where c': "tree_core t' ch' {} {} ss'" using r(1) by (auto simp: tree_inv_def)
  have "path_to (inodes t') j (components q) \<longleftrightarrow> path_to (inodes t) j (components q) \<and> \<not> prefix (components path) (components q)" for j
  proof
    assume j: "path_to (inodes t') j (components q)"
    have "inodes t' \<subseteq>\<^sub>m inodes t" unfolding r(2) by (simp add: map_le_def)
    then have pj: "path_to (inodes t) j (components q)" using path_mono j by blast
    have "j \<notin> under (inodes t) i"
    proof (cases "components q = []")
      case True
      then have "j = root" using j by (auto elim: path_to_NilE)
      moreover have "inodes t' root \<noteq> None" using core_slots [OF c'] unfolding slots_ok_def inodes_None by blast
      ultimately show ?thesis unfolding r(2) by (auto simp: restrict_map_def split: if_splits)
    next
      case False
      with j obtain p nm where "child_of (inodes t') p nm j" by (auto elim: path_to.cases)
      then show ?thesis by (auto simp: child_of_def r(2) restrict_map_def split: if_splits)
    qed
    then show "path_to (inodes t) j (components q) \<and> \<not> prefix (components path) (components q)"
      using pj prefix_under [OF c pi pj] by blast
  next
    assume j: "path_to (inodes t) j (components q) \<and> \<not> prefix (components path) (components q)"
    then have "j \<notin> under (inodes t) i" using under_prefix [OF pi] by blast
    then show "path_to (inodes t') j (components q)" using j path_outside [of "inodes t" j _ i "inodes t'"] by (auto simp: r(2))
  qed
  then have "lookup t' q Exact = Some j \<longleftrightarrow> lookup t q Exact = Some j \<and> \<not> prefix (components path) (components q)" for j
    using resolve_path [OF c assms(4)] resolve_path [OF c' assms(4)] by (simp add: lookup_resolve)
  then show ?thesis using r(1) by (metis option.exhaust)
qed

theorem remove_path_then_lookup_witness:
  "\<exists>t t'. lookup t (lit ''a'') Exact \<noteq> None \<and> remove_path t (lit ''a'') Exact = (Inr (), t') \<and> lookup t' (lit ''a'') Exact = None"
proof -
  obtain i t where u: "upsert_path MetadataTree_init (lit ''a'') default_attributes = (Inr i, t)"
    "room_for MetadataTree_init (components (lit ''a''))" "components (lit ''a'') = [lit ''a'']" by (rule init_upsert_a)
  note k = upsert_path_ok [OF tree_invI [OF MetadataTree_init_core] u(2,1)]
  obtain ch ss where c: "tree_core t ch {} {} ss" using k by (auto simp: tree_inv_def)
  have l: "lookup t (lit ''a'') Exact = Some i" using k resolve_path [OF c, of "components (lit ''a'')"] u(3) by (simp add: lookup_resolve)
  have "path_to (inodes t) i ([] @ [lit ''a''])" using k u(3) by simp
  then obtain p where "path_to (inodes t) p []" "child_of (inodes t) p (lit ''a'') i" by (rule path_to_snocE) auto
  then have "child_of (inodes t) root (lit ''a'') i" by (auto elim: path_to_NilE)
  then have "valid t i" "i \<noteq> root" by (auto simp: child_of_inodes child_named_def)
  then obtain t' where "remove t i = (Inr (), t')" using remove_ok [OF c] by blast
  then have r: "remove_path t (lit ''a'') Exact = (Inr (), t')" using l by (simp add: remove_path_def)
  have "lookup t' (lit ''a'') Exact = None"
    using remove_path_then_lookup [OF tree_invI [OF c] r, of "lit ''a''"] u(3) by simp
  then show ?thesis using l r by blast
qed

end
