(* ===== verification/WinNames.thy ===== *)
theory WinNames
  imports Types
begin

text \<open>
  \<open>src/core/win_names.cpp\<close>: the mapping between raw POSIX names and the names shown on a Windows volume.
  A reserved byte \<open>b\<close> becomes the private-use code point \<open>0xF000 + b\<close>, three UTF-8 bytes \<open>EF 80-83 80-BF\<close>.
\<close>

section \<open>Escaping and unescaping\<close>

definition is_reserved :: "u8 \<Rightarrow> bool" where
  "is_reserved b \<longleftrightarrow> b = 0x3C \<or> b = 0x3E \<or> b = 0x3A \<or> b = 0x22 \<or> b = 0x7C \<or> b = 0x3F \<or> b = 0x2A \<or>
     b = 0x5C \<or> b < 0x20"

definition wn_encode_utf8 :: "u32 \<Rightarrow> bytes" where
  "wn_encode_utf8 cp =
    (if cp < 0x80 then [ucast cp]
     else if cp < 0x800 then [ucast (0xC0 OR drop_bit 6 cp), ucast (0x80 OR (cp AND 0x3F))]
     else [ucast (0xE0 OR drop_bit 12 cp), ucast (0x80 OR (drop_bit 6 cp AND 0x3F)), ucast (0x80 OR (cp AND 0x3F))])"

definition needs_escaping :: "bytes \<Rightarrow> bool" where
  "needs_escaping raw \<longleftrightarrow>
    (if list_ex is_reserved raw then True
     else if raw \<noteq> [] \<and> (last raw = 0x2E \<or> last raw = 0x20) then True
     else False)"

text \<open>The loop of \<open>escape_for_windows\<close> over the rest of the name; \<open>i + 1 == raw.size()\<close> is an empty rest.\<close>

fun escape_loop :: "bytes \<Rightarrow> bytes" where
  "escape_loop [] = []"
| "escape_loop (b # rest) =
    (let trailing_dot_space = (rest = [] \<and> (b = 0x2E \<or> b = 0x20)) in
     (if is_reserved b \<or> trailing_dot_space then wn_encode_utf8 (0xF000 + ucast b) else [b]) @ escape_loop rest)"

definition escape_for_windows :: "bytes \<Rightarrow> bytes" where
  "escape_for_windows raw = (if \<not> needs_escaping raw then raw else escape_loop raw)"

text \<open>The code point of three bytes, and the test that they encode U+F000 to U+F0FF.\<close>

definition three_byte_cp :: "u8 \<Rightarrow> u8 \<Rightarrow> u8 \<Rightarrow> u32" where
  "three_byte_cp b0 b1 b2 =
    push_bit 12 (ucast (b0 AND 0x0F)) OR push_bit 6 (ucast (b1 AND 0x3F)) OR ucast (b2 AND 0x3F)"

definition private_use :: "u8 \<Rightarrow> u8 \<Rightarrow> u8 \<Rightarrow> bool" where
  "private_use b0 b1 b2 \<longleftrightarrow> b0 = 0xEF \<and> b1 AND 0xFC = 0x80 \<and> b2 AND 0xC0 = 0x80 \<and>
     three_byte_cp b0 b1 b2 \<ge> 0xF000 \<and> three_byte_cp b0 b1 b2 \<le> 0xF0FF"

fun unescape_from_windows :: "bytes \<Rightarrow> bytes" where
  "unescape_from_windows (b0 # b1 # b2 # rest) =
    (if private_use b0 b1 b2 then ucast (three_byte_cp b0 b1 b2 - 0xF000) # unescape_from_windows rest
     else b0 # unescape_from_windows (b1 # b2 # rest))"
| "unescape_from_windows (b0 # rest) = b0 # unescape_from_windows rest"
| "unescape_from_windows [] = []"

section \<open>Windows safety and the round trip\<close>

text \<open>A name Windows accepts: no reserved byte, and no dot or space at the end.\<close>

definition windows_safe :: "bytes \<Rightarrow> bool" where
  "windows_safe s \<longleftrightarrow> \<not> needs_escaping s"

text \<open>Raw names without an already encoded U+F000 to U+F0FF.\<close>

fun no_private_use :: "bytes \<Rightarrow> bool" where
  "no_private_use (b0 # b1 # b2 # rest) \<longleftrightarrow> \<not> private_use b0 b1 b2 \<and> no_private_use (b1 # b2 # rest)"
| "no_private_use (b0 # rest) \<longleftrightarrow> no_private_use rest"
| "no_private_use [] \<longleftrightarrow> True"

definition enc_byte :: "u8 \<Rightarrow> bytes" where
  "enc_byte b = [0xEF, 0x80 OR drop_bit 6 b, 0x80 OR (b AND 0x3F)]"

lemma byte_consts:
  "(0xF000 :: u32) = push_bit 12 (mask 4)" "(0x3F :: u32) = mask 6" "(0x80 :: u32) = push_bit 7 1"
  "(0xE0 :: u32) = push_bit 5 (mask 3)" "(0xEF :: u8) = push_bit 5 (mask 3) OR mask 4" "(0x80 :: u8) = push_bit 7 1"
  "(0x3F :: u8) = mask 6" "(0x0F :: u8) = mask 4" "(0xFC :: u8) = push_bit 2 (mask 6)" "(0xC0 :: u8) = push_bit 6 (mask 2)"
  by (simp_all add: mask_eq_exp_minus_1)

lemma private_cp: "(0xF000 + ucast b :: u32) = 0xF000 OR ucast (b :: u8)"
proof (rule disjunctive_add_eq_or)
  show "0xF000 AND (ucast b :: u32) = 0"
    unfolding byte_consts by (rule bit_word_eqI) (auto simp: bit_simps dest: bit_imp_le_length)
qed

lemma private_cp_bounds: "0xF000 \<le> 0xF000 OR (ucast (b :: u8) :: u32) \<and> 0xF000 OR (ucast b :: u32) \<le> 0xF0FF"
proof -
  have lt: "unat b < 256" using unat_word_less_2p [of b] by simp
  then have "unat (ucast b :: u32) = unat b" by (simp add: unsigned_ucast_eq unsigned_take_bit_eq take_bit_nat_eq_self)
  with lt have "unat (0xF000 + ucast b :: u32) = 0xF000 + unat b" by (simp add: unat_plus_if')
  then show ?thesis using lt by (simp add: word_le_nat_alt flip: private_cp)
qed

lemma wn_encode_private: "wn_encode_utf8 (0xF000 + ucast b) = enc_byte b"
proof -
  have "\<not> 0xF000 OR (ucast b :: u32) < 0x800" "\<not> 0xF000 OR (ucast b :: u32) < 0x80"
    using private_cp_bounds [of b] by (auto simp: word_le_nat_alt word_less_nat_alt)
  moreover have "(ucast (0xE0 OR drop_bit 12 (0xF000 OR ucast b :: u32)) :: u8) = 0xEF"
    unfolding byte_consts by (rule bit_word_eqI) (auto simp: bit_simps dest: bit_imp_le_length)
  moreover have "(ucast (0x80 OR (drop_bit 6 (0xF000 OR ucast b) AND 0x3F) :: u32) :: u8) = 0x80 OR drop_bit 6 b"
    unfolding byte_consts by (rule bit_word_eqI) (auto simp del: push_bit_of_1 simp: bit_simps dest: bit_imp_le_length)
  moreover have "(ucast (0x80 OR ((0xF000 OR ucast b) AND 0x3F) :: u32) :: u8) = 0x80 OR (b AND 0x3F)"
    unfolding byte_consts by (rule bit_word_eqI) (auto simp del: push_bit_of_1 simp: bit_simps)
  ultimately show ?thesis by (simp add: wn_encode_utf8_def private_cp enc_byte_def)
qed

lemma three_byte_cp_enc: "three_byte_cp 0xEF (0x80 OR drop_bit 6 b) (0x80 OR (b AND 0x3F)) = 0xF000 OR ucast b"
proof -
  have "bit (three_byte_cp 0xEF (0x80 OR drop_bit 6 b) (0x80 OR (b AND 0x3F))) n = bit (0xF000 OR (ucast b :: u32)) n"
    if "n < 32" for n
    unfolding three_byte_cp_def byte_consts using that
    by (cases "n < 6") (auto simp del: push_bit_of_1 simp: bit_simps dest: bit_imp_le_length)
  then show ?thesis by (intro bit_word_eqI) simp
qed

lemma private_use_enc: "private_use 0xEF (0x80 OR drop_bit 6 b) (0x80 OR (b AND 0x3F))"
proof -
  have "(0x80 OR drop_bit 6 b) AND 0xFC = 0x80" "(0x80 OR (b AND 0x3F)) AND 0xC0 = 0x80"
    unfolding byte_consts by (rule bit_word_eqI; auto simp del: push_bit_of_1 simp: bit_simps dest: bit_imp_le_length)+
  then show ?thesis using private_cp_bounds [of b] by (simp add: private_use_def three_byte_cp_enc)
qed

lemma unescape_enc: "unescape_from_windows (enc_byte b @ s) = b # unescape_from_windows s"
proof -
  have "(0xF000 OR ucast b) - 0xF000 = (ucast b :: u32)" by (simp flip: private_cp)
  moreover have "ucast (ucast b :: u32) = b" by (rule bit_word_eqI) (simp add: bit_simps)
  ultimately show ?thesis by (simp add: enc_byte_def private_use_enc three_byte_cp_enc)
qed

lemma cont_not_EF: "x AND 0xFC = 0x80 \<Longrightarrow> x \<noteq> 0xEF" "y AND 0xC0 = 0x80 \<Longrightarrow> y \<noteq> 0xEF" for x y :: u8
  by auto

lemma escape_loop_Cons:
  "escape_loop (b # rest) = (if is_reserved b \<or> (rest = [] \<and> (b = 0x2E \<or> b = 0x20)) then enc_byte b else [b])
     @ escape_loop rest"
  by (auto simp: Let_def wn_encode_private)

lemma escape_loop_first:
  assumes "escape_loop r = x # t" and "x \<noteq> 0xEF"
  shows "\<exists>r'. r = x # r' \<and> escape_loop r' = t"
  using assms by (cases r) (auto simp del: escape_loop.simps(2) simp: escape_loop_Cons enc_byte_def split: if_splits)

lemma no_private_use_tl: "no_private_use (b # rest) \<Longrightarrow> no_private_use rest"
  by (cases rest; cases "tl rest") auto

lemma unescape_plain:
  assumes "\<And>x y t. E = x # y # t \<Longrightarrow> \<not> private_use b x y"
  shows "unescape_from_windows (b # E) = b # unescape_from_windows E"
  using assms by (cases E; cases "tl E") auto

lemma unescape_escape_loop: "no_private_use raw \<Longrightarrow> unescape_from_windows (escape_loop raw) = raw"
proof (induction raw)
  case (Cons b rest)
  have IH: "unescape_from_windows (escape_loop rest) = rest" using Cons no_private_use_tl by blast
  have "\<not> private_use b x y" if E: "escape_loop rest = x # y # t" for x y t
  proof
    assume p: "private_use b x y"
    then have ne: "x \<noteq> 0xEF" "y \<noteq> 0xEF"
      using cont_not_EF(1) [of x] cont_not_EF(2) [of y] by (simp_all add: private_use_def)
    obtain r1 where r1: "rest = x # r1" "escape_loop r1 = y # t" using escape_loop_first [OF E ne(1)] by blast
    obtain r2 where "r1 = y # r2" using escape_loop_first [OF r1(2) ne(2)] by blast
    with r1 have "rest = x # y # r2" by simp
    then show False using Cons.prems p by simp
  qed
  then have "unescape_from_windows (b # escape_loop rest) = b # unescape_from_windows (escape_loop rest)"
    by (intro unescape_plain) blast
  then show ?case using IH unescape_enc [of b "escape_loop rest"] by (simp only: escape_loop_Cons) simp
qed simp

lemma unescape_no_private: "no_private_use raw \<Longrightarrow> unescape_from_windows raw = raw"
  by (induction raw rule: unescape_from_windows.induct) auto

lemma high_not_reserved: "\<not> is_reserved (0x80 OR x)" "0x80 OR x \<noteq> 0x2E" "0x80 OR x \<noteq> (0x20 :: u8)"
proof -
  have "bit (0x80 OR x) 7" unfolding byte_consts by (simp add: bit_simps)
  moreover have "\<not> bit y 7" if "y < 0x80" for y :: u8
  proof -
    have "y AND mask 7 = y" using that by (intro less_mask_eq) simp
    then show ?thesis by (metis bit_and_iff bit_mask_iff less_irrefl)
  qed
  ultimately have "\<not> 0x80 OR x < 0x80" by blast
  then show "\<not> is_reserved (0x80 OR x)" "0x80 OR x \<noteq> 0x2E" "0x80 OR x \<noteq> (0x20 :: u8)"
    by (auto simp: is_reserved_def word_less_nat_alt)
qed

lemma enc_byte_safe: "list_all (\<lambda>c. \<not> is_reserved c) (enc_byte b)" "last (enc_byte b) \<noteq> 0x2E" "last (enc_byte b) \<noteq> 0x20"
  using high_not_reserved by (simp_all add: enc_byte_def is_reserved_def)

lemma escape_loop_no_reserved: "\<not> list_ex is_reserved (escape_loop raw)"
proof (induction raw)
  case (Cons b rest)
  then show ?case using enc_byte_safe(1) [of b]
    by (simp only: escape_loop_Cons) (auto simp: list_ex_iff list_all_iff)
qed simp

lemma escape_loop_last: "raw \<noteq> [] \<Longrightarrow> escape_loop raw \<noteq> [] \<and> last (escape_loop raw) \<noteq> 0x2E \<and> last (escape_loop raw) \<noteq> 0x20"
proof (induction raw)
  case (Cons b rest)
  have e: "enc_byte b \<noteq> []" by (simp add: enc_byte_def)
  show ?case
  proof (cases "rest = []")
    case True
    then show ?thesis using enc_byte_safe(2,3) [of b] e by (simp only: escape_loop_Cons) auto
  next
    case False
    then show ?thesis using Cons.IH e by (simp only: escape_loop_Cons) auto
  qed
qed simp

section \<open>Properties\<close>

text \<open>
  Escaping a name always gives one Windows accepts: no reserved character or control code is left,
  and the name does not end in a dot or a space; a name that needs no escaping is not changed.
\<close>

theorem escape_is_windows_safe:
  "windows_safe (escape_for_windows raw) \<and>
   (if needs_escaping raw then escape_for_windows raw \<noteq> raw else escape_for_windows raw = raw)"
proof (cases "needs_escaping raw")
  case True
  then have "raw \<noteq> []" by (auto simp: needs_escaping_def)
  then have "\<not> needs_escaping (escape_loop raw)"
    using escape_loop_no_reserved [of raw] escape_loop_last [of raw] by (auto simp: needs_escaping_def)
  then show ?thesis using True by (auto simp: escape_for_windows_def windows_safe_def)
next
  case False
  then show ?thesis by (simp add: escape_for_windows_def windows_safe_def)
qed

text \<open>
  Unescaping inverts escaping on every raw name that does not already contain a UTF-8 encoded
  U+F000 to U+F0FF, and so does unescaping the escaped form of any part of it.
\<close>

theorem unescape_escape:
  assumes "no_private_use raw"
  shows "unescape_from_windows (escape_for_windows raw) = raw"
  using assms by (simp add: escape_for_windows_def unescape_escape_loop unescape_no_private)

theorem unescape_escape_witness:
  "unescape_from_windows (escape_for_windows (lit ''a<b?.'')) = lit ''a<b?.''"
  by (rule unescape_escape) (simp add: private_use_def)

text \<open>
  Without that premise the inverse fails, although the header promises it for any input: a raw name that is
  already the encoding of U+F03C is not changed by escaping and comes back as a less-than sign, so two
  different raw names are shown under one Windows name.
\<close>

lemma escape_not_injective:
  "escape_for_windows [0xEF, 0x80, 0xBC] = escape_for_windows (lit ''<'') \<and>
   unescape_from_windows (escape_for_windows [0xEF, 0x80, 0xBC]) = lit ''<''"
  by (simp add: escape_for_windows_def needs_escaping_def is_reserved_def wn_encode_utf8_def private_use_def
      three_byte_cp_def)

end
