(* ===== verification/Scanner.thy ===== *)
theory Scanner
  imports Path
begin

text \<open>
  \<open>src/agent/scanner.hpp\<close>, \<open>scanner.cpp\<close>, in their POSIX branch: attributes of one entry, joining the served
  root with a protocol path, and the breadth-first walk that produces a snapshot.

  The file system is outside the sources: it is a record of the calls the code makes, with the answers
  as functions of the path (\<open>None\<close> where the call reports an error).  The walk calls back into its
  client; the callbacks are state transformers.  The loop over the queue of directories carries fuel, the
  number of directories it may open, and is shown to end on every finite directory tree.
\<close>

section \<open>The calls on the file system\<close>

datatype file_type = FtDirectory | FtRegular | FtSymlink | FtOther

record FileSystem =
  symlink_status :: "bytes \<Rightarrow> (file_type \<times> u32) option"
  fs_file_size :: "bytes \<Rightarrow> u64 option"
  read_symlink :: "bytes \<Rightarrow> bytes option"
  last_write_time :: "bytes \<Rightarrow> i64 option"
  is_directory :: "bytes \<Rightarrow> bool"
  directory_names :: "bytes \<Rightarrow> bytes list option"
  stat_dev :: "bytes \<Rightarrow> u64 option"

text \<open>\<open>std::filesystem::path\<close> of POSIX: \<open>p / q\<close> and \<open>p.filename()\<close>.\<close>

definition path_append :: "bytes \<Rightarrow> bytes \<Rightarrow> bytes" where
  "path_append p q =
    (if q \<noteq> [] \<and> hd q = slash then q
     else if p = [] \<or> last p = slash then p @ q
     else p @ slash # q)"

definition filename_utf8 :: "bytes \<Rightarrow> bytes" where
  "filename_utf8 p = (case rfind_slash p of None \<Rightarrow> p | Some i \<Rightarrow> drop (i + 1) p)"

definition join_relative :: "bytes \<Rightarrow> bytes \<Rightarrow> bytes" where
  "join_relative root rel = path_append root rel"

section \<open>Attributes\<close>

fun kind_of_type :: "file_type \<Rightarrow> NodeKind" where
  "kind_of_type FtDirectory = Directory"
| "kind_of_type FtRegular = File"
| "kind_of_type FtSymlink = Symlink"
| "kind_of_type FtOther = Other"

definition attributes_from :: "FileSystem \<Rightarrow> bytes \<Rightarrow> Attributes option" where
  "attributes_from fs p =
    (case symlink_status fs p of
       None \<Rightarrow> None
     | Some (ty, perms) \<Rightarrow>
         let k = kind_of_type ty;
             sz = (if k = File then (case fs_file_size fs p of None \<Rightarrow> 0 | Some n \<Rightarrow> n)
                   else if k = Symlink then (case read_symlink fs p of None \<Rightarrow> 0 | Some t \<Rightarrow> of_nat (length t))
                   else 0);
             mt = (case last_write_time fs p of None \<Rightarrow> 0 | Some t \<Rightarrow> t)
         in Some \<lparr>size_of = sz, mtime_ns = mt, mode = perms AND 0xFFF, kind = k\<rparr>)"

definition fs_read_attributes :: "FileSystem \<Rightarrow> bytes \<Rightarrow> Attributes result" where
  "fs_read_attributes fs p = (case attributes_from fs p of None \<Rightarrow> fail NotFound | Some a \<Rightarrow> ok a)"

definition device_id :: "FileSystem \<Rightarrow> bytes \<Rightarrow> u64 option" where
  "device_id fs p = stat_dev fs p"

section \<open>The walk\<close>

record ScanStats =
  st_files :: nat
  st_directories :: nat
  st_symlinks :: nat
  st_skipped :: nat

record ScanPending =
  sp_path :: bytes
  sp_rel :: bytes
  sp_index :: u32

record 's ScanState =
  sc_user :: 's
  sc_stats :: ScanStats
  sc_queue :: "ScanPending list"
  sc_next :: u32

definition note_skipped :: "'s ScanState \<Rightarrow> 's ScanState" where
  "note_skipped st = st\<lparr>sc_stats := (sc_stats st)\<lparr>st_skipped := st_skipped (sc_stats st) + 1\<rparr>\<rparr>"

text \<open>The switch on the kind of an emitted entry, \<open>++next_index\<close> included.\<close>

definition note_entry :: "FileSystem \<Rightarrow> u64 option \<Rightarrow> bytes \<Rightarrow> bytes \<Rightarrow> NodeKind \<Rightarrow> 's ScanState \<Rightarrow> 's ScanState" where
  "note_entry fs root_dev p rel k st =
    (let st1 =
       (case k of
          Directory \<Rightarrow>
            let st1 = st\<lparr>sc_stats := (sc_stats st)\<lparr>st_directories := st_directories (sc_stats st) + 1\<rparr>\<rparr>;
                other = (case root_dev of
                   None \<Rightarrow> False
                 | Some d \<Rightarrow> (case device_id fs p of None \<Rightarrow> False | Some e \<Rightarrow> e \<noteq> d))
            in if other then note_skipped st1
               else st1\<lparr>sc_queue := sc_queue st1 @ [\<lparr>sp_path = p, sp_rel = rel, sp_index = sc_next st1\<rparr>]\<rparr>
        | File \<Rightarrow> st\<lparr>sc_stats := (sc_stats st)\<lparr>st_files := st_files (sc_stats st) + 1\<rparr>\<rparr>
        | Symlink \<Rightarrow> st\<lparr>sc_stats := (sc_stats st)\<lparr>st_symlinks := st_symlinks (sc_stats st) + 1\<rparr>\<rparr>
        | Other \<Rightarrow> st)
     in st1\<lparr>sc_next := sc_next st1 + 1\<rparr>)"

definition child_rel :: "bytes \<Rightarrow> bytes \<Rightarrow> bytes" where
  "child_rel rel nm = (if rel = [] then nm else rel @ slash # nm)"

definition scan_entry ::
  "FileSystem \<Rightarrow> (SnapshotEntry \<Rightarrow> 's \<Rightarrow> 's) \<Rightarrow> (bytes \<Rightarrow> bool \<Rightarrow> 's \<Rightarrow> bool) \<Rightarrow> u64 option \<Rightarrow> ScanPending \<Rightarrow>
    bytes \<Rightarrow> 's ScanState \<Rightarrow> 's ScanState" where
  "scan_entry fs on_entry skip root_dev dir entry st =
    (let p = path_append (sp_path dir) entry in
     case attributes_from fs p of
       None \<Rightarrow> note_skipped st
     | Some a \<Rightarrow>
         if kind a = Other then note_skipped st
         else
           let name = filename_utf8 p; rel = child_rel (sp_rel dir) name
           in if skip rel (kind a = Directory) (sc_user st) then note_skipped st
              else note_entry fs root_dev p rel (kind a)
                (st\<lparr>sc_user := on_entry \<lparr>e_parent = sp_index dir, e_name = name, e_attr = a\<rparr> (sc_user st)\<rparr>))"

primrec scan_entries ::
  "FileSystem \<Rightarrow> (SnapshotEntry \<Rightarrow> 's \<Rightarrow> 's) \<Rightarrow> (bytes \<Rightarrow> bool \<Rightarrow> 's \<Rightarrow> bool) \<Rightarrow> u64 option \<Rightarrow> ScanPending \<Rightarrow>
    bytes list \<Rightarrow> 's ScanState \<Rightarrow> 's ScanState" where
  "scan_entries fs on_entry skip root_dev dir [] st = st"
| "scan_entries fs on_entry skip root_dev dir (e # es) st =
    scan_entries fs on_entry skip root_dev dir es (scan_entry fs on_entry skip root_dev dir e st)"

fun scan_loop ::
  "nat \<Rightarrow> FileSystem \<Rightarrow> (SnapshotEntry \<Rightarrow> 's \<Rightarrow> 's) \<Rightarrow> (bytes \<Rightarrow> bool \<Rightarrow> 's \<Rightarrow> bool) \<Rightarrow> u64 option \<Rightarrow>
    's ScanState \<Rightarrow> 's ScanState option" where
  "scan_loop fuel fs on_entry skip root_dev st =
    (case sc_queue st of
       [] \<Rightarrow> Some st
     | dir # queue \<Rightarrow>
         (case fuel of
            0 \<Rightarrow> None
          | Suc fuel' \<Rightarrow>
              let st1 = st\<lparr>sc_queue := queue\<rparr>
              in scan_loop fuel' fs on_entry skip root_dev
                   (case directory_names fs (sp_path dir) of
                      None \<Rightarrow> note_skipped st1
                    | Some names \<Rightarrow> scan_entries fs on_entry skip root_dev dir names st1)))"

declare scan_loop.simps [simp del]

definition scan_start :: "bytes \<Rightarrow> 's \<Rightarrow> 's ScanState" where
  "scan_start root s =
    \<lparr>sc_user = s, sc_stats = \<lparr>st_files = 0, st_directories = 0, st_symlinks = 0, st_skipped = 0\<rparr>,
     sc_queue = [\<lparr>sp_path = root, sp_rel = [], sp_index = 0\<rparr>], sc_next = 1\<rparr>"

text \<open>\<open>None\<close> when the fuel does not suffice; otherwise the result and the state of the callbacks.\<close>

definition scan_tree ::
  "nat \<Rightarrow> FileSystem \<Rightarrow> bytes \<Rightarrow> (SnapshotEntry \<Rightarrow> 's \<Rightarrow> 's) \<Rightarrow> (bytes \<Rightarrow> bool \<Rightarrow> 's \<Rightarrow> bool) \<Rightarrow> bool \<Rightarrow> 's \<Rightarrow>
    (ScanStats result \<times> 's) option" where
  "scan_tree fuel fs root on_entry skip one_file_system s =
    (if \<not> is_directory fs root then Some (fail NotADirectory, s)
     else
       let root_dev = (if one_file_system then device_id fs root else None)
       in case scan_loop fuel fs on_entry skip root_dev (scan_start root s) of
            None \<Rightarrow> None
          | Some st \<Rightarrow> Some (ok (sc_stats st), sc_user st))"

section \<open>The walk ends on a finite tree\<close>

definition is_subdir :: "FileSystem \<Rightarrow> bytes \<Rightarrow> bytes \<Rightarrow> bool" where
  "is_subdir fs p n \<longleftrightarrow>
    (case attributes_from fs (path_append p n) of None \<Rightarrow> False | Some a \<Rightarrow> kind a = Directory)"

text \<open>
  \<open>w p\<close> bounds the number of directories at and below \<open>p\<close>; such a bound exists exactly when the directory
  tree is finite.  Symbolic links are not followed, so links that point upwards do not matter.
\<close>

definition dir_weight :: "FileSystem \<Rightarrow> (bytes \<Rightarrow> nat) \<Rightarrow> bool" where
  "dir_weight fs w \<longleftrightarrow>
    (\<forall>p. 1 \<le> w p \<and> (\<forall>names. directory_names fs p = Some names \<longrightarrow>
       1 + (\<Sum>n \<leftarrow> filter (is_subdir fs p) names. w (path_append p n)) \<le> w p))"

definition queue_weight :: "(bytes \<Rightarrow> nat) \<Rightarrow> ScanPending list \<Rightarrow> nat" where
  "queue_weight w q = (\<Sum>d \<leftarrow> q. w (sp_path d))"

lemma note_skipped_fields [simp]:
  "sc_user (note_skipped st) = sc_user st" "sc_queue (note_skipped st) = sc_queue st" "sc_next (note_skipped st) = sc_next st"
  by (simp_all add: note_skipped_def)

definition other_device :: "FileSystem \<Rightarrow> u64 option \<Rightarrow> bytes \<Rightarrow> bool" where
  "other_device fs root_dev p \<longleftrightarrow>
    (case root_dev of None \<Rightarrow> False | Some d \<Rightarrow> (case device_id fs p of None \<Rightarrow> False | Some e \<Rightarrow> e \<noteq> d))"

lemma note_entry_fields [simp]:
  "sc_user (note_entry fs dev p rel k st) = sc_user st"
  "sc_next (note_entry fs dev p rel k st) = sc_next st + 1"
  "sc_queue (note_entry fs dev p rel k st) = sc_queue st @
    (if k = Directory \<and> \<not> other_device fs dev p then [\<lparr>sp_path = p, sp_rel = rel, sp_index = sc_next st\<rparr>] else [])"
  by (simp_all add: note_entry_def other_device_def Let_def split: NodeKind.split option.split)

lemma scan_entries_weight:
  "queue_weight w (sc_queue (scan_entries fs on_entry skip dev dir names st)) \<le>
    queue_weight w (sc_queue st) + (\<Sum>n \<leftarrow> filter (is_subdir fs (sp_path dir)) names. w (path_append (sp_path dir) n))"
proof (induction names arbitrary: st)
  case (Cons n names)
  have "queue_weight w (sc_queue (scan_entry fs on_entry skip dev dir n st)) \<le> queue_weight w (sc_queue st) +
      (if is_subdir fs (sp_path dir) n then w (path_append (sp_path dir) n) else 0)"
    by (simp add: scan_entry_def is_subdir_def queue_weight_def Let_def split: option.split)
  then show ?case
    using Cons [of "scan_entry fs on_entry skip dev dir n st"] by auto
qed simp

lemma scan_loop_ends:
  assumes "dir_weight fs w"
  shows "queue_weight w (sc_queue st) \<le> fuel \<Longrightarrow> \<exists>st'. scan_loop fuel fs on_entry skip dev st = Some st'"
proof (induction fuel arbitrary: st)
  case 0
  then have "sc_queue st = []"
    using assms by (cases "sc_queue st") (auto simp: queue_weight_def dir_weight_def Suc_le_eq dest!: spec [of _ "sp_path (hd (sc_queue st))"])
  then show ?case by (simp add: scan_loop.simps)
next
  case (Suc fuel)
  show ?case
  proof (cases "sc_queue st")
    case (Cons dir queue)
    let ?st1 = "st\<lparr>sc_queue := queue\<rparr>"
    let ?st2 = "case directory_names fs (sp_path dir) of None \<Rightarrow> note_skipped ?st1
      | Some names \<Rightarrow> scan_entries fs on_entry skip dev dir names ?st1"
    have w: "1 \<le> w (sp_path dir)" "\<And>names. directory_names fs (sp_path dir) = Some names \<Longrightarrow>
        1 + (\<Sum>n \<leftarrow> filter (is_subdir fs (sp_path dir)) names. w (path_append (sp_path dir) n)) \<le> w (sp_path dir)"
      using assms by (auto simp: dir_weight_def)
    have "Suc (queue_weight w (sc_queue ?st2)) \<le> w (sp_path dir) + queue_weight w queue"
    proof (cases "directory_names fs (sp_path dir)")
      case (Some names)
      then show ?thesis using w(2) [OF Some] scan_entries_weight [of w fs on_entry skip dev dir names ?st1]
        by (simp add: le_trans)
    qed (use w in simp)
    then have "queue_weight w (sc_queue ?st2) \<le> fuel" using Suc.prems Cons by (simp add: queue_weight_def)
    from Suc.IH [OF this] show ?thesis using Cons by (subst scan_loop.simps) (simp add: Let_def)
  qed (simp add: scan_loop.simps)
qed

section \<open>Invariants of the callbacks\<close>

lemma scan_entries_user:
  assumes "\<And>e s. P s \<Longrightarrow> P (on_entry e s)"
  shows "P (sc_user st) \<Longrightarrow> P (sc_user (scan_entries fs on_entry skip dev dir names st))"
proof (induction names arbitrary: st)
  case (Cons n names)
  have "P (sc_user (scan_entry fs on_entry skip dev dir n st))"
    using Cons.prems assms by (simp add: scan_entry_def Let_def split: option.split)
  then show ?case using Cons.IH by simp
qed simp

lemma scan_loop_user:
  assumes "\<And>e s. P s \<Longrightarrow> P (on_entry e s)"
  shows "P (sc_user st) \<Longrightarrow> scan_loop fuel fs on_entry skip dev st = Some st' \<Longrightarrow> P (sc_user st')"
proof (induction fuel arbitrary: st)
  case 0
  then show ?case by (subst (asm) scan_loop.simps) (auto split: list.splits)
next
  case (Suc fuel)
  show ?case
  proof (cases "sc_queue st")
    case Nil
    then show ?thesis using Suc.prems by (simp add: scan_loop.simps)
  next
    case (Cons dir queue)
    let ?st2 = "case directory_names fs (sp_path dir) of None \<Rightarrow> note_skipped (st\<lparr>sc_queue := queue\<rparr>)
      | Some names \<Rightarrow> scan_entries fs on_entry skip dev dir names (st\<lparr>sc_queue := queue\<rparr>)"
    have "scan_loop fuel fs on_entry skip dev ?st2 = Some st'"
      using Suc.prems(2) Cons by (subst (asm) scan_loop.simps) (simp add: Let_def)
    moreover have "P (sc_user ?st2)"
      using scan_entries_user [of P on_entry "st\<lparr>sc_queue := queue\<rparr>"] assms Suc.prems(1) by (simp split: option.split)
    ultimately show ?thesis using Suc.IH by blast
  qed
qed

text \<open>Whatever every callback keeps holds of the state when the walk ends.\<close>

lemma scan_tree_user:
  assumes "scan_tree fuel fs root on_entry skip ofs s = Some (r, s')" and "P s" and "\<And>e s. P s \<Longrightarrow> P (on_entry e s)"
  shows "P s'"
  using assms scan_loop_user [of P on_entry "scan_start root s" fuel fs skip "if ofs then device_id fs root else None"]
  by (auto simp: scan_tree_def scan_start_def Let_def split: if_splits option.splits)

section \<open>What the walk emits\<close>

text \<open>
  The specification: the entries visible from a directory are its own entries that are files,
  directories or links and not excluded, and those visible from its subdirectories on the same device.
\<close>

inductive visible ::
  "FileSystem \<Rightarrow> (bytes \<Rightarrow> bool \<Rightarrow> bool) \<Rightarrow> u64 option \<Rightarrow> bytes \<Rightarrow> bytes \<Rightarrow> bytes \<Rightarrow> Attributes \<Rightarrow> bool"
  for fs skip dev where
  visible_here: "directory_names fs p = Some names \<Longrightarrow> n \<in> set names \<Longrightarrow>
    attributes_from fs (path_append p n) = Some a \<Longrightarrow> kind a \<noteq> Other \<Longrightarrow>
    r = child_rel rel (filename_utf8 (path_append p n)) \<Longrightarrow> \<not> skip r (kind a = Directory) \<Longrightarrow>
    visible fs skip dev p rel r a"
| visible_below: "directory_names fs p = Some names \<Longrightarrow> n \<in> set names \<Longrightarrow>
    attributes_from fs (path_append p n) = Some a \<Longrightarrow> kind a = Directory \<Longrightarrow>
    r = child_rel rel (filename_utf8 (path_append p n)) \<Longrightarrow> \<not> skip r True \<Longrightarrow>
    \<not> other_device fs dev (path_append p n) \<Longrightarrow> visible fs skip dev (path_append p n) r r' a' \<Longrightarrow>
    visible fs skip dev p rel r' a'"

definition visible_from ::
  "FileSystem \<Rightarrow> (bytes \<Rightarrow> bool \<Rightarrow> bool) \<Rightarrow> u64 option \<Rightarrow> bytes \<Rightarrow> bytes \<Rightarrow> (bytes \<times> Attributes) set" where
  "visible_from fs skip dev p rel = {(r, a). visible fs skip dev p rel r a}"

definition visible_via ::
  "FileSystem \<Rightarrow> (bytes \<Rightarrow> bool \<Rightarrow> bool) \<Rightarrow> u64 option \<Rightarrow> bytes \<Rightarrow> bytes \<Rightarrow> bytes \<Rightarrow> (bytes \<times> Attributes) set" where
  "visible_via fs skip dev p rel n =
    (case attributes_from fs (path_append p n) of
       None \<Rightarrow> {}
     | Some a \<Rightarrow>
         let r = child_rel rel (filename_utf8 (path_append p n))
         in if kind a = Other \<or> skip r (kind a = Directory) then {}
            else insert (r, a) (if kind a = Directory \<and> \<not> other_device fs dev (path_append p n)
              then visible_from fs skip dev (path_append p n) r else {}))"

lemma visible_from_names:
  "visible_from fs skip dev p rel =
    (case directory_names fs p of None \<Rightarrow> {} | Some names \<Rightarrow> \<Union>n \<in> set names. visible_via fs skip dev p rel n)"
    (is "?l = ?r")
proof (rule set_eqI, rule iffI)
  fix x assume "x \<in> ?l"
  then have "visible fs skip dev p rel (fst x) (snd x)" by (auto simp: visible_from_def)
  then show "x \<in> ?r"
  proof (cases rule: visible.cases)
    case (visible_here names n)
    then have "x \<in> visible_via fs skip dev p rel n" by (cases x) (simp add: visible_via_def Let_def)
    then show ?thesis using visible_here by auto
  next
    case (visible_below names n a r)
    then have "x \<in> visible_via fs skip dev p rel n" by (cases x) (simp add: visible_via_def visible_from_def Let_def)
    then show ?thesis using visible_below by auto
  qed
next
  fix x assume "x \<in> ?r"
  then obtain names n where n: "directory_names fs p = Some names" "n \<in> set names" "x \<in> visible_via fs skip dev p rel n"
    by (auto split: option.splits)
  then show "x \<in> ?l"
    by (cases x)
      (auto simp: visible_via_def visible_from_def Let_def split: option.splits if_splits
        intro: visible_here [OF n(1,2)] visible_below [OF n(1,2)])
qed

text \<open>The paths of the entries of a snapshot, by index: index 0 is the scanned root.\<close>

definition entry_paths :: "SnapshotEntry list \<Rightarrow> bytes list" where
  "entry_paths es = foldl (\<lambda>rels e. rels @ [child_rel (rels ! unat (e_parent e)) (e_name e)]) [[]] es"

text \<open>Parents come first and are directories: what \<open>MetadataTree::load_snapshot\<close> asks of a snapshot.\<close>

definition snapshot_ordered :: "SnapshotEntry list \<Rightarrow> bool" where
  "snapshot_ordered es \<longleftrightarrow> (\<forall>k < length es. unat (e_parent (es ! k)) \<le> k \<and>
     (e_parent (es ! k) = 0 \<or> kind (e_attr (es ! (unat (e_parent (es ! k)) - 1))) = Directory))"

definition emitted :: "SnapshotEntry list \<Rightarrow> (bytes \<times> Attributes) set" where
  "emitted es = set (zip (tl (entry_paths es)) (map e_attr es))"

definition dir_pending_ok :: "SnapshotEntry list \<Rightarrow> ScanPending \<Rightarrow> bool" where
  "dir_pending_ok es d \<longleftrightarrow> unat (sp_index d) \<le> length es \<and> entry_paths es ! unat (sp_index d) = sp_rel d \<and>
     (sp_index d = 0 \<or> kind (e_attr (es ! (unat (sp_index d) - 1))) = Directory)"

definition scan_inv :: "SnapshotEntry list ScanState \<Rightarrow> bool" where
  "scan_inv st \<longleftrightarrow> sc_next st = of_nat (Suc (length (sc_user st))) \<and> snapshot_ordered (sc_user st) \<and>
     list_all (dir_pending_ok (sc_user st)) (sc_queue st)"

lemma entry_paths_snoc:
  "entry_paths (es @ [e]) = entry_paths es @ [child_rel (entry_paths es ! unat (e_parent e)) (e_name e)]"
  by (simp add: entry_paths_def)

lemma length_entry_paths [simp]: "length (entry_paths es) = Suc (length es)"
  by (induction es rule: rev_induct) (simp_all add: entry_paths_snoc, simp add: entry_paths_def)

lemma emitted_snoc:
  "emitted (es @ [e]) = insert (child_rel (entry_paths es ! unat (e_parent e)) (e_name e), e_attr e) (emitted es)"
proof -
  obtain y ys where "entry_paths es = y # ys" "length ys = length es"
    using length_entry_paths [of es] by (cases "entry_paths es") auto
  then show ?thesis by (auto simp: emitted_def entry_paths_snoc)
qed

lemma dir_pending_ok_snoc: "dir_pending_ok es d \<Longrightarrow> dir_pending_ok (es @ [e]) d"
  by (cases "sp_index d = 0") (auto simp: dir_pending_ok_def entry_paths_snoc nth_append simp flip: unat_gt_0)

lemma snapshot_ordered_snoc:
  assumes "snapshot_ordered es" and "dir_pending_ok es d"
  shows "snapshot_ordered (es @ [\<lparr>e_parent = sp_index d, e_name = n, e_attr = a\<rparr>])"
proof -
  have "unat (sp_index d) - 1 < length es" if "sp_index d \<noteq> 0"
    using assms(2) that unat_gt_0 [of "sp_index d"] by (auto simp: dir_pending_ok_def)
  moreover have "unat (e_parent (es ! k)) - 1 < length es" if "k < length es" for k
    using assms(1) that by (meson diff_le_self le_less_trans snapshot_ordered_def)
  ultimately show ?thesis
    using assms by (auto simp: snapshot_ordered_def dir_pending_ok_def nth_append less_Suc_eq)
qed

lemma dir_pending_ok_new:
  assumes "dir_pending_ok es d" and "Suc (length es) < 2 ^ 32" and "kind a = Directory"
  shows "dir_pending_ok (es @ [\<lparr>e_parent = sp_index d, e_name = n, e_attr = a\<rparr>])
    \<lparr>sp_path = p, sp_rel = child_rel (sp_rel d) n, sp_index = of_nat (Suc (length es))\<rparr>"
  using assms by (simp add: dir_pending_ok_def entry_paths_snoc nth_append unat_of_nat del: of_nat_Suc)

abbreviation collect :: "SnapshotEntry \<Rightarrow> SnapshotEntry list \<Rightarrow> SnapshotEntry list" where
  "collect e es \<equiv> es @ [e]"

abbreviation scan_result :: "FileSystem \<Rightarrow> (bytes \<Rightarrow> bool \<Rightarrow> bool) \<Rightarrow> u64 option \<Rightarrow> SnapshotEntry list ScanState \<Rightarrow> (bytes \<times> Attributes) set" where
  "scan_result fs skip dev st \<equiv> emitted (sc_user st) \<union> (\<Union>q \<in> set (sc_queue st). visible_from fs skip dev (sp_path q) (sp_rel q))"

lemma scan_entry_step:
  fixes fs :: FileSystem and skip :: "bytes \<Rightarrow> bool \<Rightarrow> bool" and dev :: "u64 option" and n :: bytes
  assumes "scan_inv st" and "dir_pending_ok (sc_user st) dir" and "length (sc_user (scan_entry fs collect (\<lambda>r d _. skip r d) dev dir n st)) < 2 ^ 32"
  defines "st' \<equiv> scan_entry fs collect (\<lambda>r d _. skip r d) dev dir n st"
  shows "scan_inv st' \<and> dir_pending_ok (sc_user st') dir \<and>
    length (sc_user st) \<le> length (sc_user st') \<and>
    scan_result fs skip dev st' = scan_result fs skip dev st \<union> visible_via fs skip dev (sp_path dir) (sp_rel dir) n"
proof (cases "attributes_from fs (path_append (sp_path dir) n)")
  case None
  then show ?thesis using assms by (simp add: scan_entry_def visible_via_def scan_inv_def)
next
  case (Some a)
  let ?p = "path_append (sp_path dir) n"
  let ?r = "child_rel (sp_rel dir) (filename_utf8 ?p)"
  let ?e = "\<lparr>e_parent = sp_index dir, e_name = filename_utf8 ?p, e_attr = a\<rparr>"
  show ?thesis
  proof (cases "kind a = Other \<or> skip ?r (kind a = Directory)")
    case True
    then show ?thesis using assms(1,2) Some by (auto simp: scan_entry_def visible_via_def scan_inv_def st'_def Let_def)
  next
    case False
    then have st': "st' = note_entry fs dev ?p ?r (kind a) (st\<lparr>sc_user := sc_user st @ [?e]\<rparr>)"
      using Some by (simp add: scan_entry_def st'_def Let_def)
    then have bound: "Suc (length (sc_user st)) < 2 ^ 32" using assms(3) by (simp add: st'_def)
    have rel: "entry_paths (sc_user st) ! unat (sp_index dir) = sp_rel dir" using assms(2) by (simp add: dir_pending_ok_def)
    have next1: "sc_next st = of_nat (Suc (length (sc_user st)))" using assms(1) by (simp add: scan_inv_def)
    have "scan_inv st'"
      using assms(1) snapshot_ordered_snoc [OF _ assms(2)] dir_pending_ok_new [OF assms(2) bound]
      by (auto simp: st' scan_inv_def list_all_iff dir_pending_ok_snoc)
    moreover have "scan_result fs skip dev st' = scan_result fs skip dev st \<union> visible_via fs skip dev (sp_path dir) (sp_rel dir) n"
      using False Some rel by (auto simp: st' emitted_snoc visible_via_def Let_def)
    ultimately show ?thesis using assms(2) by (simp add: st' dir_pending_ok_snoc)
  qed
qed

lemma scan_entry_grows:
  "length (sc_user st) \<le> length (sc_user (scan_entry fs collect skip dev dir n st))"
  by (simp add: scan_entry_def Let_def split: option.split)

lemma scan_entries_grows:
  "length (sc_user st) \<le> length (sc_user (scan_entries fs collect skip dev dir names st))"
proof (induction names arbitrary: st)
  case (Cons n names)
  then show ?case using scan_entry_grows [of st fs skip dev dir n] by (simp add: le_trans)
qed simp

lemma scan_loop_grows:
  "scan_loop fuel fs collect skip dev st = Some st' \<Longrightarrow> length (sc_user st) \<le> length (sc_user st')"
proof (induction fuel arbitrary: st)
  case 0
  then show ?case by (subst (asm) scan_loop.simps) (auto split: list.splits)
next
  case (Suc fuel)
  show ?case
  proof (cases "sc_queue st")
    case (Cons dir queue)
    let ?st2 = "case directory_names fs (sp_path dir) of None \<Rightarrow> note_skipped (st\<lparr>sc_queue := queue\<rparr>)
      | Some names \<Rightarrow> scan_entries fs collect skip dev dir names (st\<lparr>sc_queue := queue\<rparr>)"
    have "scan_loop fuel fs collect skip dev ?st2 = Some st'"
      using Suc.prems Cons by (subst (asm) scan_loop.simps) (simp add: Let_def)
    then have "length (sc_user ?st2) \<le> length (sc_user st')" by (rule Suc.IH)
    moreover have "length (sc_user st) \<le> length (sc_user ?st2)"
      using scan_entries_grows [of "st\<lparr>sc_queue := queue\<rparr>"] by (simp split: option.split)
    ultimately show ?thesis by simp
  qed (use Suc.prems in \<open>simp add: scan_loop.simps\<close>)
qed

lemma scan_entries_step:
  assumes "scan_inv st" and "dir_pending_ok (sc_user st) dir"
    and "length (sc_user (scan_entries fs collect (\<lambda>r d _. skip r d) dev dir names st)) < 2 ^ 32"
  shows "scan_inv (scan_entries fs collect (\<lambda>r d _. skip r d) dev dir names st) \<and>
    scan_result fs skip dev (scan_entries fs collect (\<lambda>r d _. skip r d) dev dir names st) =
      scan_result fs skip dev st \<union> (\<Union>n \<in> set names. visible_via fs skip dev (sp_path dir) (sp_rel dir) n)"
  using assms
proof (induction names arbitrary: st)
  case (Cons n names)
  let ?st1 = "scan_entry fs collect (\<lambda>r d _. skip r d) dev dir n st"
  have "length (sc_user ?st1) < 2 ^ 32"
    using Cons.prems(3) scan_entries_grows [of ?st1 fs "\<lambda>r d _. skip r d" dev dir names] by simp
  note step = scan_entry_step [OF Cons.prems(1,2) this]
  then show ?case using Cons.IH [of ?st1] Cons.prems(3) by auto
qed simp

lemma scan_loop_emits:
  assumes "scan_loop fuel fs collect (\<lambda>r d _. skip r d) dev st = Some st'"
    and "scan_inv st" and "length (sc_user st') < 2 ^ 32"
  shows "snapshot_ordered (sc_user st') \<and> emitted (sc_user st') = scan_result fs skip dev st"
  using assms
proof (induction fuel arbitrary: st)
  case 0
  then show ?case by (subst (asm) scan_loop.simps) (auto simp: scan_inv_def split: list.splits)
next
  case (Suc fuel)
  show ?case
  proof (cases "sc_queue st")
    case Nil
    then show ?thesis using Suc.prems by (simp add: scan_loop.simps scan_inv_def)
  next
    case (Cons dir queue)
    let ?st1 = "st\<lparr>sc_queue := queue\<rparr>"
    let ?st2 = "case directory_names fs (sp_path dir) of None \<Rightarrow> note_skipped ?st1
      | Some names \<Rightarrow> scan_entries fs collect (\<lambda>r d _. skip r d) dev dir names ?st1"
    have run: "scan_loop fuel fs collect (\<lambda>r d _. skip r d) dev ?st2 = Some st'"
      using Suc.prems(1) Cons by (subst (asm) scan_loop.simps) (simp add: Let_def)
    have len: "length (sc_user ?st2) < 2 ^ 32" using scan_loop_grows [OF run] Suc.prems(3) by simp
    have inv1: "scan_inv ?st1" "dir_pending_ok (sc_user ?st1) dir"
      using Suc.prems(2) Cons by (simp_all add: scan_inv_def)
    have "scan_inv ?st2 \<and> scan_result fs skip dev ?st2 =
        scan_result fs skip dev ?st1 \<union> visible_from fs skip dev (sp_path dir) (sp_rel dir)"
    proof (cases "directory_names fs (sp_path dir)")
      case None
      then show ?thesis using inv1 by (simp add: scan_inv_def visible_from_names)
    next
      case (Some names)
      then show ?thesis using scan_entries_step [OF inv1, of fs skip dev names] len
        by (simp add: visible_from_names [of fs skip dev "sp_path dir"])
    qed
    then show ?thesis using Suc.IH [OF run] Suc.prems(3) Cons by auto
  qed
qed

lemma scan_start_inv: "scan_inv (scan_start root [])"
  by (simp add: scan_inv_def scan_start_def snapshot_ordered_def dir_pending_ok_def entry_paths_def)

text \<open>
  C31. The walk is complete and exact: on a finite directory tree it ends, and the entries it hands out are,
  by path and attributes, exactly those visible from the root (not excluded, nothing below an excluded
  directory or on another device); their parent indices point backwards to directories, as loading a
  snapshot requires.
\<close>

theorem scan_emits_visible:
  assumes "dir_weight fs w" and "w root \<le> fuel" and "is_directory fs root"
  shows "\<exists>stats es. scan_tree fuel fs root collect (\<lambda>r d _. skip r d) ofs [] = Some (ok stats, es) \<and>
    (length es < 2 ^ 32 \<longrightarrow> snapshot_ordered es \<and>
      emitted es = visible_from fs skip (if ofs then device_id fs root else None) root [])"
proof -
  let ?dev = "if ofs then device_id fs root else None"
  obtain st' where run: "scan_loop fuel fs collect (\<lambda>r d _. skip r d) ?dev (scan_start root []) = Some st'"
    using scan_loop_ends [OF assms(1), of "scan_start root []" fuel collect "\<lambda>r d _. skip r d" ?dev] assms(2)
    by (auto simp: queue_weight_def scan_start_def)
  have "snapshot_ordered (sc_user st') \<and> emitted (sc_user st') = visible_from fs skip ?dev root []"
    if "length (sc_user st') < 2 ^ 32"
    using scan_loop_emits [OF run scan_start_inv that] by (simp add: scan_start_def emitted_def)
  then show ?thesis using run assms(3) by (auto simp: scan_tree_def)
qed

text \<open>A tree for examples: the root \<open>/r\<close> holds the file \<open>a\<close> and the directory \<open>d\<close> with the link \<open>l\<close>.\<close>

definition demo_fs :: FileSystem where
  "demo_fs =
    \<lparr>symlink_status = (\<lambda>p. if p = lit ''/r/a'' then Some (FtRegular, 0x81A4) else if p = lit ''/r/d'' then Some (FtDirectory, 0x41ED)
       else if p = lit ''/r/d/l'' then Some (FtSymlink, 0x1FF) else None),
     fs_file_size = (\<lambda>p. if p = lit ''/r/a'' then Some 5 else None),
     read_symlink = (\<lambda>p. if p = lit ''/r/d/l'' then Some (lit ''../a'') else None),
     last_write_time = (\<lambda>p. Some 9),
     is_directory = (\<lambda>p. p = lit ''/r'' \<or> p = lit ''/r/d''),
     directory_names = (\<lambda>p. if p = lit ''/r'' then Some [lit ''a'', lit ''d''] else if p = lit ''/r/d'' then Some [lit ''l''] else None),
     stat_dev = (\<lambda>p. Some 1)\<rparr>"

lemma demo_fs_finite: "dir_weight demo_fs (\<lambda>p. if p = lit ''/r'' then 2 else 1)"
proof -
  have names: "directory_names demo_fs p = (if p = lit ''/r'' then Some [lit ''a'', lit ''d'']
      else if p = lit ''/r/d'' then Some [lit ''l''] else None)" for p
    by (simp add: demo_fs_def)
  have "\<not> is_subdir demo_fs (lit ''/r/d'') (lit ''l'')" "\<not> is_subdir demo_fs (lit ''/r'') (lit ''a'')"
    "is_subdir demo_fs (lit ''/r'') (lit ''d'')"
    by code_simp+
  then show ?thesis unfolding dir_weight_def names by (auto simp: path_append_def split: if_splits)
qed

lemma demo_scan: "map_option (\<lambda>r. length (snd r)) (scan_tree 2 demo_fs (lit ''/r'') collect (\<lambda>r d _. False) True []) = Some 3"
  by code_simp

theorem scan_emits_visible_witness:
  "\<exists>stats es. scan_tree 2 demo_fs (lit ''/r'') collect (\<lambda>r d _. False) True [] = Some (ok stats, es) \<and> length es = 3 \<and>
    snapshot_ordered es \<and> emitted es = visible_from demo_fs (\<lambda>r d. False) (device_id demo_fs (lit ''/r'')) (lit ''/r'') []"
proof -
  have "2 \<le> (2::nat)" "is_directory demo_fs (lit ''/r'')" by (simp_all add: demo_fs_def)
  from scan_emits_visible [OF demo_fs_finite, of "lit ''/r''" 2 "\<lambda>r d. False" True] this demo_scan
  show ?thesis by auto
qed

end
