(* ===== verification/ServerPaths.thy ===== *)
theory ServerPaths
  imports Scanner
begin

text \<open>
  The containment gate of \<open>src/agent/server.cpp\<close>: \<open>is_contained_relative\<close>, the lexical \<open>path_is_under\<close> on
  native paths and \<open>RootServer::resolve\<close>, in their POSIX branch.  \<open>lexically_normal\<close> of the standard
  library is modelled by the sequence of elements an iteration over the normal form yields: the root
  directory, the file names, and an empty element for a trailing separator.
\<close>

section \<open>The normal form of a native path\<close>

abbreviation dotdot :: bytes where "dotdot \<equiv> [dot, dot]"

definition is_absolute :: "bytes \<Rightarrow> bool" where
  "is_absolute p \<longleftrightarrow> p \<noteq> [] \<and> hd p = slash"

definition path_names :: "bytes \<Rightarrow> bytes list" where
  "path_names p = filter (\<lambda>c. c \<noteq> []) (split_on (\<lambda>c. c = slash) p)"

text \<open>
  One file name of the path: a dot is dropped, a dot-dot takes the name before it away, and both leave a
  trailing separator behind.  Above the root directory a dot-dot vanishes.
\<close>

definition normal_step :: "bool \<Rightarrow> bytes list \<times> bool \<Rightarrow> bytes \<Rightarrow> bytes list \<times> bool" where
  "normal_step absolute acc c =
    (let (st, tr) = acc in
     if c = [dot] then (st, True)
     else if c = dotdot then
       (if st \<noteq> [] \<and> last st \<noteq> dotdot then (butlast st, True)
        else if absolute then (st, True)
        else (st @ [dotdot], False))
     else (st @ [c], False))"

definition lexically_normal :: "bytes \<Rightarrow> bytes list" where
  "lexically_normal p =
    (if p = [] then []
     else
       let (st, tr) = foldl (normal_step (is_absolute p)) ([], False) (path_names p);
           trailing = (tr \<or> last p = slash)
       in if is_absolute p then [slash] # st @ (if trailing \<and> st \<noteq> [] then [[]] else [])
          else if st = [] then [[dot]]
          else if last st = dotdot then st
          else st @ (if trailing then [[]] else []))"

section \<open>The gate\<close>

fun under_loop :: "bytes list \<Rightarrow> bytes list \<Rightarrow> bool" where
  "under_loop [] qs = True"
| "under_loop (r # rs) qs =
    (if r = [] then under_loop rs (tl qs)
     else if qs = [] \<or> hd qs \<noteq> r then False
     else under_loop rs (tl qs))"

definition native_is_under :: "bytes \<Rightarrow> bytes \<Rightarrow> bool" where
  "native_is_under root p = under_loop (lexically_normal root) (lexically_normal p)"

function contained_loop :: "bytes \<Rightarrow> bool" where
  "contained_loop s =
    (let comp = takeWhile (\<lambda>c. c \<noteq> slash) s; rest = dropWhile (\<lambda>c. c \<noteq> slash) s
     in if comp = dotdot then False
        else if 0x3A \<in> set comp then False
        else if rest = [] then True
        else contained_loop (tl rest))"
  by pat_completeness auto
termination
proof (relation "measure length", goal_cases)
  case (2 s comp rest)
  then have "length rest \<le> length s" "rest \<noteq> []" by (auto simp: length_dropWhile_le)
  then show ?case by (cases rest) auto
qed simp

declare contained_loop.simps [simp del]

definition is_contained_relative :: "bytes \<Rightarrow> bool" where
  "is_contained_relative norm = (if norm = [] then True else contained_loop norm)"

definition resolve :: "bytes \<Rightarrow> bytes \<Rightarrow> bytes result" where
  "resolve root rel =
    (let norm = normalize_path rel in
     if \<not> is_contained_relative norm then fail InvalidPath
     else
       let full = join_relative root norm
       in if \<not> native_is_under root full then fail InvalidPath else ok full)"

section \<open>What the gate lets through\<close>

text \<open>A component that cannot leave the directory it is resolved in.\<close>

definition inner_component :: "bytes \<Rightarrow> bool" where
  "inner_component c \<longleftrightarrow> c \<noteq> dotdot \<and> 0x3A \<notin> set c"

lemma contained_loop_join:
  assumes "list_all plain_component cs" and "cs \<noteq> []"
  shows "contained_loop (join cs) \<longleftrightarrow> list_all inner_component cs"
  using assms
proof (induction cs)
  case (Cons c cs)
  have c: "slash \<notin> set c" using Cons.prems by (simp add: plain_no_slash)
  then have tw: "takeWhile (\<lambda>x. x \<noteq> slash) c = c" "dropWhile (\<lambda>x. x \<noteq> slash) c = []"
    "\<And>r. takeWhile (\<lambda>x. x \<noteq> slash) (c @ slash # r) = c" "\<And>r. dropWhile (\<lambda>x. x \<noteq> slash) (c @ slash # r) = slash # r"
    by (auto simp: takeWhile_eq_all_conv dropWhile_eq_Nil_conv takeWhile_append dropWhile_append)
  show ?case
  proof (cases "cs = []")
    case True
    then show ?thesis by (subst contained_loop.simps) (simp add: inner_component_def Let_def tw(1,2) del: takeWhile_eq_all_conv)
  next
    case False
    then show ?thesis using Cons by (subst contained_loop.simps) (simp add: join_Cons inner_component_def [of c] Let_def tw(3,4))
  qed
qed simp

lemma is_contained_relative_iff:
  "is_contained_relative (normalize_path rel) \<longleftrightarrow> list_all inner_component (components rel)"
  using contained_loop_join [OF components_all_plain, of rel]
  by (cases "components rel = []") (auto simp: is_contained_relative_def normalize_path_eq join_eq_Nil components_all_plain)

lemma path_names_join: "list_all plain_component cs \<Longrightarrow> path_names (join cs) = cs"
proof (induction cs)
  case (Cons c cs)
  have c: "c \<noteq> []" "slash \<notin> set c"
    using Cons.prems by (auto simp: plain_component_def good_component_def)
  then have "split_on (\<lambda>x. x = slash) c = [c]" by (intro fields_no_sep) auto
  moreover have "split_on (\<lambda>x. x = slash) (c @ slash # join cs) = split_on (\<lambda>x. x = slash) c @ split_on (\<lambda>x. x = slash) (join cs)"
    by (rule fields_append_sep) simp
  ultimately show ?case using Cons c by (cases "cs = []") (auto simp: path_names_def join_Cons)
qed (simp add: path_names_def)

lemma path_names_append:
  assumes "q = [] \<or> hd q \<noteq> slash"
  shows "path_names (path_append p q) = path_names p @ path_names q"
proof -
  have f: "path_names (x @ slash # y) = path_names x @ path_names y" for x y
    using fields_append_sep [of "\<lambda>c. c = slash" slash x y] by (simp add: path_names_def)
  have e: "path_names [] = []" by (simp add: path_names_def)
  consider "p = []" | x where "p = x @ [slash]" | "p \<noteq> []" "last p \<noteq> slash"
    by (metis append_butlast_last_id)
  then show ?thesis
  proof cases
    case 2
    then show ?thesis using assms f [of x q] f [of x "[]"] e by (auto simp: path_append_def)
  qed (use assms f e in \<open>auto simp: path_append_def\<close>)
qed

lemma foldl_normal_inner:
  "list_all plain_component cs \<Longrightarrow> list_all inner_component cs \<Longrightarrow>
    foldl (normal_step a) (st, tr) cs = (st @ cs, if cs = [] then tr else False)"
proof (induction cs arbitrary: st tr)
  case (Cons c cs)
  then show ?case
    by (simp add: normal_step_def plain_component_def good_component_def inner_component_def)
qed simp

lemma under_loop_refl: "[] \<notin> set rs \<Longrightarrow> under_loop (rs @ (if b then [[]] else [])) (rs @ qs)"
  by (induction rs) auto

lemma join_no_leading_slash:
  assumes "list_all plain_component cs"
  shows "join cs = [] \<or> (hd (join cs) \<noteq> slash \<and> last (join cs) \<noteq> slash)"
  using assms
proof (induction cs)
  case (Cons c cs)
  then have "c \<noteq> []" "slash \<notin> set c" by (auto simp: plain_component_def good_component_def)
  then have c: "hd c \<noteq> slash" "last c \<noteq> slash" "c \<noteq> []" by (metis hd_in_set, metis last_in_set, simp)
  then show ?case using Cons by (auto simp: join_Cons join_eq_Nil)
qed simp

lemma normal_names_nonempty:
  "[] \<notin> set cs \<Longrightarrow> [] \<notin> set st \<Longrightarrow> [] \<notin> set (fst (foldl (normal_step a) (st, tr) cs))"
proof (induction cs arbitrary: st tr)
  case (Cons c cs)
  obtain st' tr' where s: "normal_step a (st, tr) c = (st', tr')" by (cases "normal_step a (st, tr) c")
  moreover have "[] \<notin> set st'" using s Cons.prems
    by (auto simp: normal_step_def split: if_splits dest: in_set_butlastD)
  ultimately show ?case using Cons by simp
qed simp

text \<open>The names of the normal form of an absolute path.\<close>

definition normal_names :: "bytes \<Rightarrow> bytes list" where
  "normal_names p = fst (foldl (normal_step True) ([], False) (path_names p))"

lemma lexically_normal_absolute:
  assumes "is_absolute p"
  shows "\<exists>b. lexically_normal p = [slash] # normal_names p @ (if b then [[]] else [])"
proof -
  have "p \<noteq> []" using assms by (simp add: is_absolute_def)
  then show ?thesis using assms
    by (cases "foldl (normal_step True) ([], False) (path_names p)")
      (auto simp: lexically_normal_def normal_names_def Let_def)
qed

lemma normal_names_join:
  assumes "list_all inner_component (components rel)"
  shows "normal_names (join_relative root (normalize_path rel)) = normal_names root @ components rel"
proof -
  note plain = components_all_plain [of rel]
  have "path_names (join_relative root (normalize_path rel)) = path_names root @ components rel"
    using path_names_append [of "normalize_path rel" root] join_no_leading_slash [OF plain] path_names_join [OF plain]
    by (auto simp: join_relative_def normalize_path_eq)
  then show ?thesis
    using foldl_normal_inner [OF plain assms, of True]
    by (cases "foldl (normal_step True) ([], False) (path_names root)") (simp add: normal_names_def)
qed

lemma join_relative_absolute:
  assumes "is_absolute root" shows "is_absolute (join_relative root (normalize_path rel))"
  using assms join_no_leading_slash [OF components_all_plain [of rel]]
  by (cases root) (auto simp: is_absolute_def join_relative_def path_append_def normalize_path_eq)

lemma native_is_under_joined:
  assumes "is_absolute root" and "list_all inner_component (components rel)"
  shows "native_is_under root (join_relative root (normalize_path rel))"
proof -
  obtain b where r: "lexically_normal root = [slash] # normal_names root @ (if b then [[]] else [])"
    using lexically_normal_absolute [OF assms(1)] by blast
  obtain d where q: "lexically_normal (join_relative root (normalize_path rel)) =
      [slash] # (normal_names root @ components rel) @ (if d then [[]] else [])"
    using lexically_normal_absolute [OF join_relative_absolute [OF assms(1)]] normal_names_join [OF assms(2)] by metis
  have "[] \<notin> set (normal_names root)"
    unfolding normal_names_def by (rule normal_names_nonempty) (auto simp: path_names_def)
  then show ?thesis
    using under_loop_refl [of "normal_names root" b "components rel @ (if d then [[]] else [])"]
    by (simp add: native_is_under_def r q)
qed



text \<open>
  A relative root that normalises to the current directory is different: the root's normal form is a
  single dot, which no path below it starts with, so every request but the one for the root itself is
  refused.
\<close>

lemma dot_root_refuses: "resolve [dot] (lit ''a'') = fail InvalidPath" "resolve [dot] [] = ok (lit ''./'')"
  by code_simp+

end
