(* ===== verification/Hash.thy ===== *)
theory Hash
  imports HashUtil
begin

text \<open>
  \<open>src/core/hash.hpp\<close> and \<open>hash.cpp\<close>: the 256-bit content digest with its hexadecimal form, and
  the incremental hasher over the BLAKE3 library.  BLAKE3 itself is not part of the repository: the
  three calls the sources make (\<open>blake3_hasher_init\<close>, \<open>_update\<close>, \<open>_finalize\<close>) are the fields of a
  record that every definition using them takes as an argument, and \<open>blake3_contract\<close> states the
  documented behaviour the program relies on.
\<close>

section \<open>Hexadecimal digits\<close>

definition kHexDigits :: bytes where
  "kHexDigits = lit ''0123456789abcdef''"

text \<open>\<open>-1\<close> for a byte that is no hexadecimal digit is \<^const>\<open>None\<close>.\<close>

definition hex_value :: "u8 \<Rightarrow> nat option" where
  "hex_value c =
    (if 0x30 \<le> c \<and> c \<le> 0x39 then Some (unat c - 0x30)
     else if 0x61 \<le> c \<and> c \<le> 0x66 then Some (unat c - 0x61 + 10)
     else if 0x41 \<le> c \<and> c \<le> 0x46 then Some (unat c - 0x41 + 10)
     else None)"

definition hex_pair :: "u8 \<Rightarrow> bytes" where
  "hex_pair b = [kHexDigits ! unat (drop_bit 4 b), kHexDigits ! unat (b AND 0x0F)]"

section \<open>Digests\<close>

record Digest =
  d_bytes :: bytes

definition digest_ok :: "Digest \<Rightarrow> bool" where
  "digest_ok d \<longleftrightarrow> length (d_bytes d) = 32"

definition Digest_hex :: "Digest \<Rightarrow> bytes" where
  "Digest_hex d = concat (map hex_pair (d_bytes d))"

fun from_hex_loop :: "bytes \<Rightarrow> bytes option" where
  "from_hex_loop (h # l # rest) =
    (case (hex_value h, hex_value l) of
       (Some hi, Some lo) \<Rightarrow>
         map_option ((#) (push_bit 4 (of_nat hi) OR of_nat lo)) (from_hex_loop rest)
     | _ \<Rightarrow> None)"
| "from_hex_loop _ = Some []"

definition Digest_from_hex :: "bytes \<Rightarrow> Digest option" where
  "Digest_from_hex hex =
    (if length hex \<noteq> 64 then None
     else map_option (\<lambda>bs. \<lparr>d_bytes = bs\<rparr>) (from_hex_loop hex))"

text \<open>\<open>DigestHash\<close>: the first eight bytes of the digest, read little-endian.\<close>

definition DigestHash :: "Digest \<Rightarrow> u64" where
  "DigestHash d = load_le (take 8 (d_bytes d))"

section \<open>The hasher\<close>

record 'h blake3_api =
  hasher_init :: 'h
  hasher_update :: "'h \<Rightarrow> bytes \<Rightarrow> 'h"
  hasher_finalize :: "'h \<Rightarrow> bytes"

text \<open>
  The documented contract of the library: the digest has 32 bytes, and feeding the input in pieces
  gives the digest of the concatenation.
\<close>

definition blake3_contract :: "'h blake3_api \<Rightarrow> bool" where
  "blake3_contract api \<longleftrightarrow>
    (\<forall>s. length (hasher_finalize api s) = 32) \<and>
    (\<forall>xs. hasher_finalize api (foldl (hasher_update api) (hasher_init api) xs)
        = hasher_finalize api (hasher_update api (hasher_init api) (concat xs)))"

definition Blake3Hasher_reset :: "'h blake3_api \<Rightarrow> 'h" where
  "Blake3Hasher_reset api = hasher_init api"

definition Blake3Hasher_update :: "'h blake3_api \<Rightarrow> 'h \<Rightarrow> bytes \<Rightarrow> 'h" where
  "Blake3Hasher_update api h data = hasher_update api h data"

definition Blake3Hasher_finalize :: "'h blake3_api \<Rightarrow> 'h \<Rightarrow> Digest" where
  "Blake3Hasher_finalize api h = \<lparr>d_bytes = hasher_finalize api h\<rparr>"

definition blake3_hash :: "'h blake3_api \<Rightarrow> bytes \<Rightarrow> Digest" where
  "blake3_hash api data =
    Blake3Hasher_finalize api (Blake3Hasher_update api (Blake3Hasher_reset api) data)"

section \<open>Facts on hexadecimal text\<close>

lemma nibble_cases:
  assumes "n < (16::nat)"
  shows "n \<in> {0,1,2,3,4,5,6,7,8,9,10,11,12,13,14,15}"
  using assms by (simp, presburger)

lemma hex_value_digit: "n < 16 \<Longrightarrow> hex_value (kHexDigits ! n) = Some n"
  by (drule nibble_cases) (auto simp: kHexDigits_def hex_value_def)

lemma high_nibble: "unat (drop_bit 4 (b :: u8)) = unat b div 16"
  by (simp add: drop_bit_eq_div unat_div)

lemma low_nibble: "unat ((b :: u8) AND 0x0F) = unat b mod 16"
proof -
  have "b AND 0x0F = take_bit 4 b" by (simp add: take_bit_eq_mask mask_eq_exp_minus_1)
  then show ?thesis by (simp only: unsigned_take_bit_eq) (simp add: take_bit_eq_mod)
qed

lemma join_nibbles: "push_bit 4 (of_nat (unat b div 16)) OR of_nat (unat b mod 16) = (b :: u8)"
proof -
  have h: "of_nat (unat b div 16) = drop_bit 4 b" and l: "of_nat (unat b mod 16) = take_bit 4 b"
    by (simp_all flip: high_nibble low_nibble add: take_bit_eq_mask mask_eq_exp_minus_1)
  show ?thesis unfolding h l by (rule bit_eqI) (auto simp: bit_simps)
qed

lemma from_hex_pair [simp]:
  "from_hex_loop (hex_pair b @ rest) = map_option ((#) b) (from_hex_loop rest)"
proof -
  have "unat b div 16 < 16" using unat_word_less_2p [of b] by simp
  then show ?thesis
    by (simp add: hex_pair_def high_nibble low_nibble hex_value_digit join_nibbles)
qed

lemma from_hex_concat: "from_hex_loop (concat (map hex_pair bs)) = Some bs"
  by (induction bs) simp_all

lemma length_hex_pairs [simp]: "length (concat (map hex_pair bs)) = 2 * length bs"
  by (induction bs) (simp_all add: hex_pair_def)

lemma hex_pairs_digits: "set (concat (map hex_pair bs)) \<subseteq> set kHexDigits"
proof -
  have "set (hex_pair b) \<subseteq> set kHexDigits" for b
  proof -
    have "unat b div 16 < length kHexDigits" "unat b mod 16 < length kHexDigits"
      using unat_word_less_2p [of b] by (simp_all add: kHexDigits_def)
    then show ?thesis by (simp add: hex_pair_def high_nibble low_nibble)
  qed
  then show ?thesis by auto
qed

text \<open>Digits are read in either case and printed in lower case.\<close>

definition hex_lower :: "u8 \<Rightarrow> u8" where
  "hex_lower c = (if 0x41 \<le> c \<and> c \<le> 0x46 then c + 0x20 else c)"

lemma byte_cases: "list_all P (map of_nat [0..<256]) \<Longrightarrow> P (c :: u8)"
  using unat_word_less_2p [of c] by (auto simp: list_all_iff dest: bspec [where x = "unat c"])

lemma hex_value_lower: "hex_value c = Some v \<Longrightarrow> v < 16 \<and> kHexDigits ! v = hex_lower c"
proof -
  have "case hex_value c of None \<Rightarrow> True | Some v \<Rightarrow> v < 16 \<and> kHexDigits ! v = hex_lower c"
    by (rule byte_cases) code_simp
  then show "hex_value c = Some v \<Longrightarrow> v < 16 \<and> kHexDigits ! v = hex_lower c" by simp
qed

lemma hex_pair_nibbles:
  assumes "hi < 16" and "lo < 16"
  shows "hex_pair (push_bit 4 (of_nat hi) OR of_nat lo) = [kHexDigits ! hi, kHexDigits ! lo]"
proof -
  have "hi \<in> set [0..<16]" "lo \<in> set [0..<16]" using assms by auto
  moreover have "list_all (\<lambda>hi. list_all (\<lambda>lo.
      hex_pair (push_bit 4 (of_nat hi) OR of_nat lo) = [kHexDigits ! hi, kHexDigits ! lo]) [0..<16]) [0..<16]"
    by code_simp
  ultimately show ?thesis by (simp only: list_all_iff)
qed

lemma from_hex_loop_lower:
  "even (length hex) \<Longrightarrow> from_hex_loop hex = Some bs \<Longrightarrow> concat (map hex_pair bs) = map hex_lower hex"
proof (induction hex arbitrary: bs rule: from_hex_loop.induct)
  case (1 h l rest)
  obtain hi lo bs' where v: "hex_value h = Some hi" "hex_value l = Some lo"
      "from_hex_loop rest = Some bs'" "bs = (push_bit 4 (of_nat hi) OR of_nat lo) # bs'"
    using 1(3) by (auto split: option.splits)
  have "concat (map hex_pair bs') = map hex_lower rest" using "1.IH" [OF refl v(1) v(2) _ v(3)] 1(2) by simp
  then show ?case using v hex_value_lower [OF v(1)] hex_value_lower [OF v(2)] by (simp add: hex_pair_nibbles)
qed simp_all

lemma from_hex_loop_total:
  "even (length hex) \<Longrightarrow> (from_hex_loop hex \<noteq> None) = (\<forall>c \<in> set hex. hex_value c \<noteq> None)"
proof (induction hex rule: from_hex_loop.induct)
  case (1 h l rest)
  then show ?case by (cases "hex_value h"; cases "hex_value l") auto
qed simp_all

lemma from_hex_loop_iff:
  assumes "even (length hex)"
  shows "from_hex_loop hex = Some bs \<longleftrightarrow>
    concat (map hex_pair bs) = map hex_lower hex \<and> (\<forall>c \<in> set hex. hex_value c \<noteq> None)"
proof
  assume "from_hex_loop hex = Some bs"
  then show "concat (map hex_pair bs) = map hex_lower hex \<and> (\<forall>c \<in> set hex. hex_value c \<noteq> None)"
    using from_hex_loop_lower [OF assms] from_hex_loop_total [OF assms] by auto
next
  assume r: "concat (map hex_pair bs) = map hex_lower hex \<and> (\<forall>c \<in> set hex. hex_value c \<noteq> None)"
  then obtain bs' where b: "from_hex_loop hex = Some bs'" using from_hex_loop_total [OF assms] by auto
  then have "concat (map hex_pair bs') = concat (map hex_pair bs)" using from_hex_loop_lower [OF assms b] r by simp
  then show "from_hex_loop hex = Some bs" using b from_hex_concat by (metis option.inject)
qed

text \<open>
  The hexadecimal form of a digest.  Parsing accepts exactly the strings of 64 hexadecimal digits
  of either case, and gives the digest whose printed form is that string in lower case; in
  particular printing a digest and parsing the result gives it back.
\<close>

theorem digest_hex_roundtrip:
  "(Digest_from_hex hex = Some d \<longleftrightarrow>
      digest_ok d \<and> Digest_hex d = map hex_lower hex \<and> (\<forall>c \<in> set hex. hex_value c \<noteq> None)) \<and>
   (digest_ok d \<longrightarrow> Digest_from_hex (Digest_hex d) = Some d)"
proof
  show "Digest_from_hex hex = Some d \<longleftrightarrow>
      digest_ok d \<and> Digest_hex d = map hex_lower hex \<and> (\<forall>c \<in> set hex. hex_value c \<noteq> None)"
  proof (cases "length hex = 64")
    case True
    have "length (d_bytes d) = 32" if "Digest_hex d = map hex_lower hex"
      using arg_cong [OF that, of length] True by (simp add: Digest_hex_def)
    then show ?thesis using True from_hex_loop_iff [of hex "d_bytes d"]
      by (cases d) (auto simp: Digest_from_hex_def Digest_hex_def digest_ok_def)
  next
    case False
    have "length hex = 64" if "digest_ok d" "Digest_hex d = map hex_lower hex"
      using arg_cong [OF that(2), of length] that(1) by (simp add: Digest_hex_def digest_ok_def)
    then show ?thesis using False by (auto simp: Digest_from_hex_def)
  qed
  show "digest_ok d \<longrightarrow> Digest_from_hex (Digest_hex d) = Some d"
    by (cases d) (simp add: Digest_from_hex_def Digest_hex_def digest_ok_def from_hex_concat)
qed

theorem digest_hex_roundtrip_witness:
  "Digest_from_hex (Digest_hex \<lparr>d_bytes = replicate 32 0xA7\<rparr>) = Some \<lparr>d_bytes = replicate 32 0xA7\<rparr>"
  using digest_hex_roundtrip [of "[]" "\<lparr>d_bytes = replicate 32 0xA7\<rparr>"] by (simp add: digest_ok_def)

end
