(* ===== verification/AuthToken.thy ===== *)
theory AuthToken
  imports Hash
begin

text \<open>
  \<open>src/core/auth_token.hpp\<close> and \<open>auth_token.cpp\<close>: the mount token and the handshake proofs.  The
  platform's random source is a parameter (the answer of each successive call), BLAKE3 is the
  record of library calls of \<open>Hash\<close>.  The properties: the comparison of secrets is equality; a
  proof determines everything that went into it up to a collision of the hash function; and a
  generated token is the hexadecimal form of 16 random bytes or the empty string.
\<close>

section \<open>Tokens and nonces\<close>

text \<open>
  \<open>getrandom k n\<close> is what the \<open>k\<close>-th call of \<open>::getrandom\<close>, asked for \<open>n\<close> bytes, has written; the
  empty list is an answer \<open>n \<le> 0\<close>.
\<close>

function getrandom_loop :: "(nat \<Rightarrow> nat \<Rightarrow> bytes) \<Rightarrow> nat \<Rightarrow> bytes \<Rightarrow> bytes option" where
  "getrandom_loop getrandom k got =
    (if length got < 16
     then let b = getrandom k (16 - length got)
          in if b = [] then None else getrandom_loop getrandom (k + 1) (got @ b)
     else Some got)"
  by pat_completeness auto
termination
  by (relation "measure (\<lambda>(g, k, got). 16 - length got)")
    (auto simp flip: length_greater_0_conv)

declare getrandom_loop.simps [simp del]

definition generate_auth_token :: "(nat \<Rightarrow> nat \<Rightarrow> bytes) \<Rightarrow> bytes" where
  "generate_auth_token getrandom =
    (case getrandom_loop getrandom 0 [] of
       None \<Rightarrow> []
     | Some bytes \<Rightarrow> concat (map hex_pair bytes))"

definition generate_auth_nonce :: "(nat \<Rightarrow> nat \<Rightarrow> bytes) \<Rightarrow> bytes" where
  "generate_auth_nonce getrandom = generate_auth_token getrandom"

definition auth_token_from_env :: "(bytes \<Rightarrow> bytes option) \<Rightarrow> bytes" where
  "auth_token_from_env getenv =
    (case getenv (lit ''WSLDRIVE_TOKEN'') of None \<Rightarrow> [] | Some v \<Rightarrow> v)"

section \<open>Proofs\<close>

text \<open>\<open>std::to_string\<close> of an unsigned number.\<close>

fun to_string :: "nat \<Rightarrow> bytes" where
  "to_string n =
    (if n < 10 then [0x30 + of_nat n] else to_string (n div 10) @ [0x30 + of_nat (n mod 10)])"

declare to_string.simps [simp del]

definition feed :: "'h blake3_api \<Rightarrow> 'h \<Rightarrow> bytes \<Rightarrow> 'h" where
  "feed api h s =
    (let h1 = Blake3Hasher_update api h (to_string (length s));
         h2 = Blake3Hasher_update api h1 (lit '':'')
     in Blake3Hasher_update api h2 s)"

definition auth_proof :: "'h blake3_api \<Rightarrow> bytes \<Rightarrow> bytes \<Rightarrow> bytes \<Rightarrow> bool \<Rightarrow> bytes" where
  "auth_proof api token client_nonce server_nonce from_server =
    (let h = Blake3Hasher_reset api;
         h = feed api h (lit ''wsldrive-auth-v1'');
         h = feed api h (if from_server then lit ''server'' else lit ''client'');
         h = feed api h token;
         h = feed api h client_nonce;
         h = feed api h server_nonce
     in Digest_hex (Blake3Hasher_finalize api h))"

fun ct_loop :: "u8 \<Rightarrow> bytes \<Rightarrow> bytes \<Rightarrow> u8" where
  "ct_loop diff (x # xs) (y # ys) = ct_loop (diff OR (x XOR y)) xs ys"
| "ct_loop diff _ _ = diff"

definition constant_time_equal :: "bytes \<Rightarrow> bytes \<Rightarrow> bool" where
  "constant_time_equal a b \<longleftrightarrow> length a = length b \<and> ct_loop 0 a b = 0"

section \<open>The comparison\<close>

lemma ct_loop_zero: "length a = length b \<Longrightarrow> ct_loop d a b = 0 \<longleftrightarrow> d = 0 \<and> a = b"
proof (induction d a b rule: ct_loop.induct)
  case (1 diff x xs y ys)
  have "diff OR (x XOR y) = 0 \<longleftrightarrow> diff = 0 \<and> x = y"
    by (metis or_eq_0_iff xor.left_neutral xor.assoc xor_self_eq xor.right_neutral)
  then show ?case using 1 by auto
qed auto

text \<open>
  The constant-time comparison decides equality of byte strings: it accumulates the differences of
  all positions, and the accumulated byte is zero exactly when the strings are the same.
\<close>

theorem constant_time_equal_iff: "constant_time_equal a b \<longleftrightarrow> a = b"
  by (auto simp: constant_time_equal_def ct_loop_zero)

section \<open>The transcript\<close>

definition fed :: "bytes \<Rightarrow> bytes" where
  "fed s = to_string (length s) @ 0x3A # s"

definition transcript :: "bytes \<Rightarrow> bytes \<Rightarrow> bytes \<Rightarrow> bool \<Rightarrow> bytes" where
  "transcript token cn sn from_server =
    concat (map fed [lit ''wsldrive-auth-v1'', if from_server then lit ''server'' else lit ''client'',
      token, cn, sn])"

definition undec :: "bytes \<Rightarrow> nat" where
  "undec s = foldl (\<lambda>n c. 10 * n + (unat c - 0x30)) 0 s"

lemma digit_of: "n < 10 \<Longrightarrow> unat (0x30 + of_nat n :: u8) = 0x30 + n"
  by (simp add: unat_word_ariths unat_of_nat)

lemma undec_to_string [simp]: "undec (to_string n) = n"
proof (induction n rule: to_string.induct)
  case (1 n)
  then show ?case
  proof (cases "n < 10")
    case False
    then show ?thesis using 1 [OF False] digit_of [of "n mod 10"]
      by (subst to_string.simps) (simp add: undec_def)
  qed (subst to_string.simps, simp add: undec_def digit_of)
qed

lemma to_string_digits: "c \<in> set (to_string n) \<Longrightarrow> c \<noteq> 0x3A"
proof (induction n rule: to_string.induct)
  case (1 n)
  have d: "(0x30 + of_nat m :: u8) \<noteq> 0x3A" if "m < 10" for m
    using digit_of [OF that] that by (auto dest: arg_cong [of _ _ unat])
  show ?case using 1 d by (subst (asm) (2) to_string.simps) (auto split: if_splits)
qed

lemma takeWhile_fed: "takeWhile (\<lambda>c. c \<noteq> 0x3A) (fed s @ x) = to_string (length s)"
  using to_string_digits by (auto simp: fed_def takeWhile_append)

lemma fed_inject: "fed a @ x = fed b @ y \<longleftrightarrow> a = b \<and> x = y"
proof
  assume e: "fed a @ x = fed b @ y"
  then have "to_string (length a) = to_string (length b)" by (metis takeWhile_fed)
  moreover from this have "length a = length b" by (metis undec_to_string)
  ultimately show "a = b \<and> x = y" using e by (simp add: fed_def)
qed simp

lemma transcript_inject:
  "transcript t c s d = transcript t' c' s' d' \<longleftrightarrow> t = t' \<and> c = c' \<and> s = s' \<and> d = d'"
  using fed_inject [of s "[]" s' "[]"]
  by (auto simp: transcript_def fed_inject)

lemma auth_proof_transcript:
  assumes "blake3_contract api"
  shows "auth_proof api t c s d = Digest_hex (blake3_hash api (transcript t c s d))"
proof -
  define xs where "xs = concat (map (\<lambda>s. [to_string (length s), lit '':'', s])
    [lit ''wsldrive-auth-v1'', if d then lit ''server'' else lit ''client'', t, c, s])"
  have "concat xs = transcript t c s d" by (simp add: xs_def transcript_def fed_def)
  moreover have "auth_proof api t c s d =
      Digest_hex \<lparr>d_bytes = hasher_finalize api (foldl (hasher_update api) (hasher_init api) xs)\<rparr>"
    by (simp add: auth_proof_def feed_def Blake3Hasher_update_def Blake3Hasher_reset_def
        Blake3Hasher_finalize_def Let_def xs_def)
  ultimately show ?thesis using assms
    by (simp add: blake3_contract_def blake3_hash_def Blake3Hasher_update_def
        Blake3Hasher_reset_def Blake3Hasher_finalize_def)
qed

lemma Digest_hex_inject:
  "Digest_hex d = Digest_hex e \<longleftrightarrow> d = e"
  by (cases d; cases e) (auto simp: Digest_hex_def dest: arg_cong [of _ _ from_hex_loop] simp: from_hex_concat)

text \<open>
  C39. A handshake proof binds its inputs.  Two proofs agree exactly when the digests of the two
  transcripts agree, and the transcripts differ as soon as the tokens, either nonce or the
  direction differ: so equal proofs for different inputs exhibit a collision of the hash function.
  In particular a server's proof is never the client's proof of the same session without one.
\<close>

theorem auth_proof_binds:
  assumes "blake3_contract api"
  shows "(auth_proof api t c s d = auth_proof api t' c' s' d') =
           (blake3_hash api (transcript t c s d) = blake3_hash api (transcript t' c' s' d')) \<and>
         (transcript t c s d = transcript t' c' s' d' \<longleftrightarrow> (t, c, s, d) = (t', c', s', d'))"
  using auth_proof_transcript [OF assms] by (simp add: Digest_hex_inject transcript_inject)

theorem auth_proof_binds_witness:
  "let api = \<lparr>hasher_init = [], hasher_update = (@), hasher_finalize = (\<lambda>s. take 32 (drop 45 s @ replicate 32 0))\<rparr>
   in blake3_contract api \<and>
      (auth_proof api (lit ''k'') (lit ''a'') (lit ''b'') True = auth_proof api (lit ''k'') (lit ''b'') (lit ''a'') True) =
        (blake3_hash api (transcript (lit ''k'') (lit ''a'') (lit ''b'') True) =
         blake3_hash api (transcript (lit ''k'') (lit ''b'') (lit ''a'') True)) \<and>
      transcript (lit ''k'') (lit ''a'') (lit ''b'') True \<noteq> transcript (lit ''k'') (lit ''b'') (lit ''a'') True"
proof -
  let ?api = "\<lparr>hasher_init = [], hasher_update = (@), hasher_finalize = (\<lambda>s. take 32 (drop 45 s @ replicate 32 0))\<rparr>"
  have "foldl (@) a xs = a @ concat xs" for a :: bytes and xs by (induction xs arbitrary: a) auto
  then have "blake3_contract ?api" by (auto simp: blake3_contract_def min_def)
  then show ?thesis using auth_proof_binds [of ?api "lit ''k''" "lit ''a''" "lit ''b''" True "lit ''k''" "lit ''b''" "lit ''a''" True]
    unfolding Let_def by simp
qed

section \<open>Generated tokens\<close>

lemma getrandom_loop_length:
  assumes le: "\<forall>k n. length (getrandom k n) \<le> n"
  shows "length got \<le> 16 \<Longrightarrow> getrandom_loop getrandom k got = Some bs \<Longrightarrow> length bs = 16"
proof (induction "16 - length got" arbitrary: k got rule: less_induct)
  case less
  let ?b = "getrandom k (16 - length got)"
  show ?case
  proof (cases "length got < 16")
    case True
    then have "?b \<noteq> []" and r: "getrandom_loop getrandom (k + 1) (got @ ?b) = Some bs"
      using less.prems(2) by (subst (asm) getrandom_loop.simps, simp add: Let_def split: if_splits)+
    moreover have "length ?b \<le> 16 - length got" using le by blast
    ultimately show ?thesis using less.hyps [OF _ _ r] True by (cases ?b) auto
  next
    case False
    then show ?thesis using less.prems by (subst (asm) getrandom_loop.simps) simp
  qed
qed

lemma getrandom_loop_some:
  assumes "\<forall>k n. 0 < n \<longrightarrow> getrandom k n \<noteq> []"
  shows "getrandom_loop getrandom k got \<noteq> None"
proof (induction "16 - length got" arbitrary: k got rule: less_induct)
  case less
  have "getrandom_loop getrandom (k + 1) (got @ getrandom k (16 - length got)) \<noteq> None" if "length got < 16"
  proof (rule less)
    have "0 < length (getrandom k (16 - length got))" using assms that by simp
    then show "16 - length (got @ getrandom k (16 - length got)) < 16 - length got"
      using that unfolding length_append by linarith
  qed
  then show ?case using assms by (subst getrandom_loop.simps) (auto simp: Let_def)
qed

text \<open>
  A generated token (or nonce), given that the random source never writes more bytes than it was
  asked for, is the empty string, which callers treat as a failure, or 32 lower-case hexadecimal
  digits that decode to 16 random bytes; and it is not empty when every call of the source delivers.
\<close>

theorem generated_token_shape:
  assumes "\<forall>k n. length (getrandom k n) \<le> n"
  shows "(generate_auth_token getrandom = [] \<or>
          (\<exists>bs. length bs = 16 \<and> from_hex_loop (generate_auth_token getrandom) = Some bs \<and>
             length (generate_auth_token getrandom) = 32 \<and>
             set (generate_auth_token getrandom) \<subseteq> set kHexDigits)) \<and>
         ((\<forall>k n. 0 < n \<longrightarrow> getrandom k n \<noteq> []) \<longrightarrow> generate_auth_token getrandom \<noteq> [])"
proof (cases "getrandom_loop getrandom 0 []")
  case None
  then show ?thesis using getrandom_loop_some [of getrandom 0 "[]"] by (auto simp: generate_auth_token_def)
next
  case (Some bs)
  then have l: "length bs = 16" using getrandom_loop_length [OF assms, of "[]" 0 bs] by simp
  then have "concat (map hex_pair bs) \<noteq> []" by (metis length_hex_pairs list.size(3) mult_eq_0_iff zero_neq_numeral)
  then show ?thesis using Some l hex_pairs_digits [of bs] by (simp add: generate_auth_token_def from_hex_concat)
qed

theorem generated_token_shape_witness:
  "let src = (\<lambda>k n. replicate (min 5 n) (of_nat k)) in
   (\<forall>k n. length (src k n) \<le> n) \<and> generate_auth_token src \<noteq> []"
  using generated_token_shape [of "\<lambda>k n. replicate (min 5 n) (of_nat k)"] by auto

end
