(* ===== verification/Socket.thy ===== *)
theory Socket
  imports AuthToken
begin

text \<open>
  \<open>src/net/socket.hpp\<close>, \<open>socket.cpp\<close>: the textual form of endpoints and the blocking stream operations, in
  their POSIX branch.

  The kernel is outside the sources.  It is a script of answers: \<open>sends\<close> and \<open>recvs\<close> hold what the coming
  calls of \<open>::send\<close> and \<open>::recv\<close> answer (a byte count or an error number), \<open>selects\<close> what \<open>::select\<close>
  answers, \<open>clock\<close> the readings of the steady clock; \<open>inbox\<close> is the byte stream the peer has sent and
  \<open>outbox\<close> what the kernel has accepted from us.  Every theorem holds for every script, so for every way
  the kernel can fragment, interrupt or fail the transfer; past the end of a script the connection is
  gone.
\<close>

section \<open>Endpoints\<close>

datatype EndpointKind = Tcp | Vsock | HyperV

record Endpoint =
  ep_kind :: EndpointKind
  ep_host :: bytes
  ep_vm_id :: bytes
  ep_cid :: u32
  ep_port :: u32

definition Endpoint_init :: Endpoint where
  "Endpoint_init = \<lparr>ep_kind = Tcp, ep_host = [], ep_vm_id = [], ep_cid = 0, ep_port = 0\<rparr>"

abbreviation colon :: u8 where "colon \<equiv> 0x3A"

fun find_char :: "u8 \<Rightarrow> bytes \<Rightarrow> nat option" where
  "find_char a [] = None"
| "find_char a (c # cs) = (if c = a then Some 0 else map_option Suc (find_char a cs))"

fun rfind_char :: "u8 \<Rightarrow> bytes \<Rightarrow> nat option" where
  "rfind_char a [] = None"
| "rfind_char a (c # cs) = (case rfind_char a cs of Some i \<Rightarrow> Some (Suc i)
     | None \<Rightarrow> if c = a then Some 0 else None)"

text \<open>\<open>text.find(pat)\<close> for a non-empty pattern.\<close>

fun find_sub :: "bytes \<Rightarrow> bytes \<Rightarrow> nat option" where
  "find_sub pat [] = None"
| "find_sub pat (c # cs) =
    (if take (length pat) (c # cs) = pat then Some 0 else map_option Suc (find_sub pat cs))"

definition is_digit :: "u8 \<Rightarrow> bool" where
  "is_digit c \<longleftrightarrow> 0x30 \<le> c \<and> c \<le> 0x39"

text \<open>
  \<open>std::from_chars\<close> into a 32-bit unsigned number, base ten: the longest run of digits, refused when it is
  empty or its value does not fit; then \<open>parse_u32\<close> asks that nothing is left.
\<close>

definition from_chars_u32 :: "bytes \<Rightarrow> (u32 \<times> bytes) option" where
  "from_chars_u32 s =
    (let ds = takeWhile is_digit s; v = undec ds
     in if ds = [] \<or> v \<ge> 2 ^ 32 then None else Some (of_nat v, dropWhile is_digit s))"

definition parse_u32 :: "bytes \<Rightarrow> u32 option" where
  "parse_u32 s =
    (if s = [] then None
     else case from_chars_u32 s of
       None \<Rightarrow> None
     | Some (v, p) \<Rightarrow> if p = [] then Some v else None)"

definition parse_tcp :: "bytes \<Rightarrow> Endpoint result" where
  "parse_tcp rest =
    (case rfind_char colon rest of
       None \<Rightarrow> fail InvalidArgument
     | Some c \<Rightarrow>
         if c = 0 then fail InvalidArgument
         else
           let host0 = take c rest;
               host = (if length host0 \<ge> 2 \<and> hd host0 = 0x5B \<and> last host0 = 0x5D
                       then substr host0 1 (length host0 - 2) else host0)
           in case parse_u32 (drop (c + 1) rest) of
                None \<Rightarrow> fail InvalidArgument
              | Some port \<Rightarrow>
                  if port > 65535 then fail InvalidArgument
                  else ok (Endpoint_init\<lparr>ep_kind := Tcp, ep_host := host, ep_port := port\<rparr>))"

definition parse_cid :: "bytes \<Rightarrow> u32 option" where
  "parse_cid cid =
    (if cid = lit ''host'' then Some 2
     else if cid = lit ''any'' then Some 0xFFFFFFFF
     else parse_u32 cid)"

definition parse_vsock :: "bytes \<Rightarrow> Endpoint result" where
  "parse_vsock rest =
    (case find_char colon rest of
       None \<Rightarrow> fail InvalidArgument
     | Some c \<Rightarrow>
         (case parse_cid (take c rest) of
            None \<Rightarrow> fail InvalidArgument
          | Some cid \<Rightarrow>
              (case parse_u32 (drop (c + 1) rest) of
                 None \<Rightarrow> fail InvalidArgument
               | Some port \<Rightarrow> ok (Endpoint_init\<lparr>ep_kind := Vsock, ep_cid := cid, ep_port := port\<rparr>))))"

definition parse_hv :: "bytes \<Rightarrow> Endpoint result" where
  "parse_hv rest =
    (case rfind_char colon rest of
       None \<Rightarrow>
         (case parse_u32 rest of
            None \<Rightarrow> fail InvalidArgument
          | Some port \<Rightarrow> ok (Endpoint_init\<lparr>ep_kind := HyperV, ep_port := port\<rparr>))
     | Some c \<Rightarrow>
         (case parse_u32 (drop (c + 1) rest) of
            None \<Rightarrow> fail InvalidArgument
          | Some port \<Rightarrow>
              ok (Endpoint_init\<lparr>ep_kind := HyperV, ep_vm_id := take c rest, ep_port := port\<rparr>)))"

definition Endpoint_parse :: "bytes \<Rightarrow> Endpoint result" where
  "Endpoint_parse text =
    (case find_sub (lit ''://'') text of
       None \<Rightarrow> fail InvalidArgument
     | Some scheme_end \<Rightarrow>
         let scheme = take scheme_end text; rest = drop (scheme_end + 3) text
         in if rest = [] then fail InvalidArgument
            else if scheme = lit ''tcp'' then parse_tcp rest
            else if scheme = lit ''vsock'' then parse_vsock rest
            else if scheme = lit ''hv'' then parse_hv rest
            else fail InvalidArgument)"

definition Endpoint_to_string :: "Endpoint \<Rightarrow> bytes" where
  "Endpoint_to_string ep =
    (case ep_kind ep of
       Tcp \<Rightarrow> lit ''tcp://'' @
         (if find_char colon (ep_host ep) \<noteq> None then 0x5B # ep_host ep @ [0x5D] else ep_host ep) @
         colon # to_string (unat (ep_port ep))
     | Vsock \<Rightarrow> lit ''vsock://'' @
         (if ep_cid ep = 2 then lit ''host'' else if ep_cid ep = 0xFFFFFFFF then lit ''any''
          else to_string (unat (ep_cid ep))) @
         colon # to_string (unat (ep_port ep))
     | HyperV \<Rightarrow> lit ''hv://'' @
         (if ep_vm_id ep = [] then [] else ep_vm_id ep @ [colon]) @ to_string (unat (ep_port ep)))"

section \<open>Stream operations\<close>

datatype errno = EINTR | EAGAIN | EPIPE | ECONNRESET | OtherErrno

datatype os_rc = RcN nat | RcErr errno

record Socket =
  inbox :: bytes
  outbox :: bytes
  sends :: "os_rc list"
  recvs :: "os_rc list"
  selects :: "int list"
  clock :: "int list"

text \<open>
  \<open>send_all\<close>.  An answer \<open>RcN n\<close> has put the first \<open>n\<close> bytes of the rest on the stream.
\<close>

fun send_loop :: "os_rc list \<Rightarrow> bytes \<Rightarrow> bytes \<Rightarrow> unit result \<times> os_rc list \<times> bytes" where
  "send_loop sc [] acc = (ok (), sc, acc)"
| "send_loop [] (d # ds) acc = (fail ConnectionClosed, [], acc)"
| "send_loop (RcErr e # sc) (d # ds) acc =
    (if e = EINTR then send_loop sc (d # ds) acc
     else if e = EAGAIN then (fail Timeout, sc, acc)
     else (fail (if e = EPIPE \<or> e = ECONNRESET then ConnectionClosed else IoError), sc, acc))"
| "send_loop (RcN n # sc) (d # ds) acc = send_loop sc (drop n (d # ds)) (acc @ take n (d # ds))"

definition send_all :: "bytes \<Rightarrow> Socket \<Rightarrow> unit result \<times> Socket" where
  "send_all data s =
    (let (r, sc, acc) = send_loop (sends s) data (outbox s)
     in (r, s\<lparr>sends := sc, outbox := acc\<rparr>))"

text \<open>
  One successful \<open>::recv\<close> hands over at most as many bytes as asked for and as the answer allows, in
  stream order; no bytes is the end of the stream.
\<close>

fun recv_loop :: "os_rc list \<Rightarrow> bytes \<Rightarrow> nat \<Rightarrow> bytes result \<times> os_rc list \<times> bytes" where
  "recv_loop [] inb n = (fail ConnectionClosed, [], inb)"
| "recv_loop (RcErr e # sc) inb n =
    (if e = EINTR then recv_loop sc inb n
     else (fail (if e = ECONNRESET then ConnectionClosed else IoError), sc, inb))"
| "recv_loop (RcN k # sc) inb n =
    (let got = take (min k n) inb
     in if got = [] then (fail ConnectionClosed, sc, inb) else (ok got, sc, drop (length got) inb))"

definition recv_some :: "nat \<Rightarrow> Socket \<Rightarrow> bytes result \<times> Socket" where
  "recv_some n s =
    (if n = 0 then (ok [], s)
     else
       let (r, sc, inb) = recv_loop (recvs s) (inbox s) n
       in (r, s\<lparr>recvs := sc, inbox := inb\<rparr>))"

lemma recv_loop_got: "recv_loop sc inb n = (ok b, sc', inb') \<Longrightarrow>
    b \<noteq> [] \<and> length b \<le> n \<and> inb = b @ inb' \<and> length sc' < length sc"
proof (induction sc inb n rule: recv_loop.induct)
  case (2 e sc inb n)
  then show ?case by (cases "e = EINTR") auto
next
  case (3 k sc inb n)
  then show ?case by (auto simp: Let_def min_def split: if_splits)
qed auto

lemma recv_some_got:
  assumes "recv_some n s = (ok b, s')" and "0 < n"
  shows "b \<noteq> []" "length b \<le> n" "inbox s = b @ inbox s'" "length (recvs s') < length (recvs s)"
  using assms recv_loop_got [of "recvs s" "inbox s" n b] by (auto simp: recv_some_def split: prod.splits)

text \<open>\<open>recv_exact\<close>: the buffer is what has been received so far, \<open>n\<close> the bytes still missing.\<close>

function recv_exact :: "nat \<Rightarrow> bytes \<Rightarrow> Socket \<Rightarrow> bytes result \<times> Socket" where
  "recv_exact n buf s =
    (if n = 0 then (ok buf, s)
     else case recv_some n s of
       (Inl e, s') \<Rightarrow> (fail e, s')
     | (Inr b, s') \<Rightarrow> recv_exact (n - length b) (buf @ b) s')"
  by pat_completeness auto
termination
proof (relation "measure (\<lambda>(n, buf, s). n)", goal_cases)
  case (2 n buf s x r b)
  then have "b \<noteq> []" using recv_some_got(1) [of n s b r] by simp
  then show ?case using 2 by (cases b) auto
qed simp

definition wait_read :: "int \<Rightarrow> Socket \<Rightarrow> int \<times> Socket" where
  "wait_read timeout s = (case selects s of [] \<Rightarrow> (-1, s) | n # ns \<Rightarrow> (n, s\<lparr>selects := ns\<rparr>))"

definition wait_readable :: "int \<Rightarrow> Socket \<Rightarrow> bool result \<times> Socket" where
  "wait_readable timeout s =
    (let (n, s') = wait_read timeout s
     in if n > 0 then (ok True, s') else if n = 0 then (ok False, s') else (fail ConnectionClosed, s'))"

text \<open>\<open>steady_clock::now\<close>, in nanoseconds; past the script the clock stands still.\<close>

definition clock_now :: "Socket \<Rightarrow> int \<times> Socket" where
  "clock_now s = (case clock s of
     [] \<Rightarrow> (0, s) | [t] \<Rightarrow> (t, s) | t # ts \<Rightarrow> (t, s\<lparr>clock := ts\<rparr>))"

function recv_exact_until :: "nat \<Rightarrow> bytes \<Rightarrow> int \<Rightarrow> Socket \<Rightarrow> bytes result \<times> Socket" where
  "recv_exact_until n buf deadline s =
    (if n = 0 then (ok buf, s)
     else
       let (now, s1) = clock_now s
       in if now \<ge> deadline then (fail Timeout, s1)
          else case wait_readable ((deadline - now) div 1000000 + 1) s1 of
            (Inl e, s2) \<Rightarrow> (fail e, s2)
          | (Inr False, s2) \<Rightarrow> (fail Timeout, s2)
          | (Inr True, s2) \<Rightarrow>
              (case recv_some n s2 of
                 (Inl e, s3) \<Rightarrow> (fail e, s3)
               | (Inr b, s3) \<Rightarrow> recv_exact_until (n - length b) (buf @ b) deadline s3))"
  by pat_completeness auto
termination
proof (relation "measure (\<lambda>(n, buf, d, s). n)", goal_cases)
  case (2 n buf d s x now s1 y s2 ready z s3 b)
  then have "b \<noteq> []" using recv_some_got(1) [of n s2 b s3] by auto
  then show ?case using 2 by (cases b) auto
qed simp

declare recv_exact.simps [simp del] recv_exact_until.simps [simp del]

section \<open>Lemmas on the textual form\<close>

lemma digit_is_digit: "n < 10 \<Longrightarrow> is_digit (0x30 + of_nat n)"
  by (simp add: is_digit_def word_le_nat_alt digit_of)

lemma to_string_is_digit: "c \<in> set (to_string n) \<Longrightarrow> is_digit c"
proof (induction n rule: to_string.induct)
  case (1 n)
  then show ?case
    by (subst (asm) (2) to_string.simps) (auto simp: digit_is_digit split: if_splits)
qed

lemma to_string_nonempty [simp]: "to_string n \<noteq> []"
  by (subst to_string.simps) simp

lemma parse_u32_to_string [simp]: "parse_u32 (to_string (unat (v :: u32))) = Some v"
proof -
  have d: "takeWhile is_digit (to_string (unat v)) = to_string (unat v)"
    "dropWhile is_digit (to_string (unat v)) = []"
    using to_string_is_digit by (auto simp: takeWhile_eq_all_conv dropWhile_eq_Nil_conv)
  have "unat v < 2 ^ 32" using unsigned_less [of v] by simp
  then show ?thesis unfolding parse_u32_def from_chars_u32_def Let_def d by simp
qed

lemma rfind_char_none [simp]: "rfind_char a s = None \<longleftrightarrow> a \<notin> set s"
  by (induction s) (auto split: option.splits)

lemma find_char_none [simp]: "find_char a s = None \<longleftrightarrow> a \<notin> set s"
  by (induction s) auto

lemma rfind_char_last [simp]: "a \<notin> set t \<Longrightarrow> rfind_char a (s @ a # t) = Some (length s)"
  by (induction s) (auto simp flip: rfind_char_none)

lemma find_char_first [simp]: "a \<notin> set s \<Longrightarrow> find_char a (s @ a # t) = Some (length s)"
  by (induction s) auto

lemma colon_not_digit: "colon \<notin> set (to_string n)"
  using to_string_digits by blast

section \<open>Endpoints survive printing\<close>

text \<open>
  What makes an endpoint printable: the fields of the other kinds are at their defaults, and a host
  name is not empty, does not look bracketed itself, and has a 16-bit port.
\<close>

definition endpoint_wf :: "Endpoint \<Rightarrow> bool" where
  "endpoint_wf ep \<longleftrightarrow>
    (case ep_kind ep of
       Tcp \<Rightarrow> ep_host ep \<noteq> [] \<and> ep_vm_id ep = [] \<and> ep_cid ep = 0 \<and> ep_port ep \<le> 65535 \<and>
         (colon \<in> set (ep_host ep) \<or> \<not> (length (ep_host ep) \<ge> 2 \<and> hd (ep_host ep) = 0x5B \<and> last (ep_host ep) = 0x5D))
     | Vsock \<Rightarrow> ep_host ep = [] \<and> ep_vm_id ep = []
     | HyperV \<Rightarrow> ep_host ep = [] \<and> ep_cid ep = 0)"

lemma parse_tcp_printed:
  assumes "h \<noteq> []" and "p \<le> 65535"
  shows "parse_tcp (h @ colon # to_string (unat p)) =
    ok (Endpoint_init\<lparr>ep_kind := Tcp,
      ep_host := (if length h \<ge> 2 \<and> hd h = 0x5B \<and> last h = 0x5D then substr h 1 (length h - 2) else h),
      ep_port := p\<rparr>)"
  using assms colon_not_digit by (simp add: parse_tcp_def not_less Let_def)

lemma substr_bracketed: "substr (x # h @ [y]) 1 (length h) = h"
  by (simp add: substr_def)

lemma cid_words_not_digits: "to_string n \<noteq> lit ''host''" "to_string n \<noteq> lit ''any''"
proof -
  have "is_digit (hd (to_string n))" by (rule to_string_is_digit [of _ n]) simp
  then show "to_string n \<noteq> lit ''host''" "to_string n \<noteq> lit ''any''"
    by (auto simp: is_digit_def)
qed

lemma parse_cid_printed:
  "parse_cid (if c = 2 then lit ''host'' else if c = 0xFFFFFFFF then lit ''any'' else to_string (unat c)) = Some c"
  using cid_words_not_digits [of "unat c"] by (simp add: parse_cid_def)

lemma colon_not_in_cid:
  "colon \<notin> set (if c = 2 then lit ''host'' else if c = 0xFFFFFFFF then lit ''any'' else to_string (unat c))"
  using colon_not_digit by simp

lemma parse_vsock_printed:
  "parse_vsock ((if c = 2 then lit ''host'' else if c = 0xFFFFFFFF then lit ''any'' else to_string (unat c)) @
      colon # to_string (unat p)) = ok (Endpoint_init\<lparr>ep_kind := Vsock, ep_cid := c, ep_port := p\<rparr>)"
  unfolding parse_vsock_def find_char_first [OF colon_not_in_cid [of c]] option.case
  using parse_cid_printed [of c] by simp

lemma parse_hv_printed:
  "parse_hv ((if v = [] then [] else v @ [colon]) @ to_string (unat p)) =
    ok (Endpoint_init\<lparr>ep_kind := HyperV, ep_vm_id := v, ep_port := p\<rparr>)"
proof (cases "v = []")
  case True
  then show ?thesis using colon_not_digit
    by (simp add: parse_hv_def Endpoint_init_def flip: rfind_char_none)
next
  case False
  then show ?thesis using colon_not_digit by (simp add: parse_hv_def)
qed

lemma Endpoint_parse_scheme:
  "rest \<noteq> [] \<Longrightarrow> Endpoint_parse (lit ''tcp://'' @ rest) = parse_tcp rest"
  "rest \<noteq> [] \<Longrightarrow> Endpoint_parse (lit ''vsock://'' @ rest) = parse_vsock rest"
  "rest \<noteq> [] \<Longrightarrow> Endpoint_parse (lit ''hv://'' @ rest) = parse_hv rest"
  by (simp_all add: Endpoint_parse_def)

text \<open>
  Endpoints survive printing: parsing the textual form of a well-formed TCP, VSOCK or Hyper-V
  endpoint gives the endpoint back (IPv6 hosts included, which are printed in brackets), so what the
  agent prints can be passed to the other side.
\<close>

theorem endpoint_roundtrip:
  assumes "endpoint_wf ep"
  shows "Endpoint_parse (Endpoint_to_string ep) = ok ep"
proof (cases "ep_kind ep")
  case Tcp
  let ?h = "ep_host ep"
  have wf: "?h \<noteq> []" "ep_vm_id ep = []" "ep_cid ep = 0" "ep_port ep \<le> 65535"
    "colon \<in> set ?h \<or> \<not> (length ?h \<ge> 2 \<and> hd ?h = 0x5B \<and> last ?h = 0x5D)"
    using assms Tcp by (simp_all add: endpoint_wf_def)
  let ?t = "if find_char colon ?h \<noteq> None then 0x5B # ?h @ [0x5D] else ?h"
  have "Endpoint_parse (Endpoint_to_string ep) = parse_tcp (?t @ colon # to_string (unat (ep_port ep)))"
    unfolding Endpoint_to_string_def Tcp EndpointKind.case by (rule Endpoint_parse_scheme(1)) simp
  also have "\<dots> = ok (Endpoint_init\<lparr>ep_kind := Tcp, ep_host := ?h, ep_port := ep_port ep\<rparr>)"
    using wf substr_bracketed [of "0x5B" ?h "0x5D"] by (subst parse_tcp_printed) auto
  finally show ?thesis using Tcp wf by (simp add: Endpoint_init_def)
next
  case Vsock
  have "Endpoint_parse (Endpoint_to_string ep) =
      ok (Endpoint_init\<lparr>ep_kind := Vsock, ep_cid := ep_cid ep, ep_port := ep_port ep\<rparr>)"
    unfolding Endpoint_to_string_def Vsock EndpointKind.case
    by (subst Endpoint_parse_scheme(2)) (simp, rule parse_vsock_printed)
  then show ?thesis using assms Vsock by (simp add: endpoint_wf_def Endpoint_init_def)
next
  case HyperV
  have "Endpoint_parse (Endpoint_to_string ep) =
      ok (Endpoint_init\<lparr>ep_kind := HyperV, ep_vm_id := ep_vm_id ep, ep_port := ep_port ep\<rparr>)"
    unfolding Endpoint_to_string_def HyperV EndpointKind.case
    by (subst Endpoint_parse_scheme(3)) (simp, rule parse_hv_printed)
  then show ?thesis using assms HyperV by (simp add: endpoint_wf_def Endpoint_init_def)
qed

theorem endpoint_roundtrip_witness:
  "Endpoint_parse (Endpoint_to_string (Endpoint_init\<lparr>ep_host := lit ''::1'', ep_port := 7788\<rparr>)) =
    ok (Endpoint_init\<lparr>ep_host := lit ''::1'', ep_port := 7788\<rparr>)"
  by (rule endpoint_roundtrip) (simp add: endpoint_wf_def Endpoint_init_def)

section \<open>Streams\<close>

lemma send_loop_prefix:
  "\<exists>k \<le> length data. snd (snd (send_loop sc data acc)) = acc @ take k data \<and>
    (fst (send_loop sc data acc) = ok () \<longleftrightarrow> k = length data)"
proof (induction sc data acc rule: send_loop.induct)
  case (3 e sc d ds acc)
  then show ?case by (cases "e = EINTR") auto
next
  case (4 n sc d ds acc)
  then obtain k where k: "k \<le> length (drop n (d # ds))"
    "snd (snd (send_loop sc (drop n (d # ds)) (acc @ take n (d # ds)))) = (acc @ take n (d # ds)) @ take k (drop n (d # ds))"
    "(fst (send_loop sc (drop n (d # ds)) (acc @ take n (d # ds))) = ok ()) = (k = length (drop n (d # ds)))"
    by blast
  show ?case
  proof (intro exI conjI)
    show "min n (length (d # ds)) + k \<le> length (d # ds)" using k(1) by auto
    show "snd (snd (send_loop (RcN n # sc) (d # ds) acc)) = acc @ take (min n (length (d # ds)) + k) (d # ds)"
      using k(1,2) by (cases "n \<le> length (d # ds)") (simp_all add: take_add)
    show "(fst (send_loop (RcN n # sc) (d # ds) acc) = ok ()) = (min n (length (d # ds)) + k = length (d # ds))"
      using k(1,3) by auto
  qed
qed auto

lemma send_all_frame:
  "snd (send_all data s) = s\<lparr>sends := sends (snd (send_all data s)), outbox := outbox (snd (send_all data s))\<rparr>"
  by (simp add: send_all_def split: prod.split)

lemma send_all_prefix:
  "\<exists>k \<le> length data. outbox (snd (send_all data s)) = outbox s @ take k data \<and>
    (fst (send_all data s) = ok () \<longleftrightarrow> k = length data)"
  using send_loop_prefix [of data "sends s" "outbox s"]
  by (cases "send_loop (sends s) data (outbox s)") (simp add: send_all_def)

text \<open>
  A script that keeps the stream moving for at least \<open>n\<close> calls: no errors but interruptions, and each
  answer carries at least one byte.
\<close>

fun live :: "nat \<Rightarrow> os_rc list \<Rightarrow> bool" where
  "live 0 sc = True"
| "live (Suc n) [] = False"
| "live (Suc n) (RcErr e # sc) = (e = EINTR \<and> live (Suc n) sc)"
| "live (Suc n) (RcN k # sc) = (0 < k \<and> live n sc)"

lemma live_mono: "live n sc \<Longrightarrow> m \<le> n \<Longrightarrow> live m sc"
proof (induction n sc arbitrary: m rule: live.induct)
  case (3 n e sc)
  then show ?case by (cases m) auto
next
  case (4 n k sc)
  then show ?case by (cases m) auto
qed auto

lemma send_loop_live:
  "live (length data + j) sc \<Longrightarrow> \<exists>sc'. send_loop sc data acc = (ok (), sc', acc @ data) \<and> live j sc'"
proof (induction sc data acc rule: send_loop.induct)
  case (4 n sc d ds acc)
  then have "live (length (drop n (d # ds)) + j) sc"
    by (cases n) (auto intro: live_mono [of "length ds + j"])
  then show ?case using 4 by simp
qed auto

lemma recv_loop_live:
  assumes "live (Suc m) sc" and "inb \<noteq> []" and "0 < n"
  shows "\<exists>b sc'. recv_loop sc inb n = (ok b, sc', drop (length b) inb) \<and> b \<noteq> [] \<and> b = take (length b) inb \<and>
    length b \<le> n \<and> live m sc'"
  using assms
proof (induction sc inb n rule: recv_loop.induct)
  case (3 k sc inb n)
  then show ?case by (auto simp: Let_def min_def)
qed auto

lemma recv_exact_live:
  assumes "live (n + m) (recvs s)" and "n \<le> length (inbox s)"
  shows "\<exists>sc. recv_exact n buf s = (ok (buf @ take n (inbox s)), s\<lparr>recvs := sc, inbox := drop n (inbox s)\<rparr>) \<and> live m sc"
  using assms
proof (induction n buf s rule: recv_exact.induct)
  case (1 n buf s)
  show ?case
  proof (cases "n = 0")
    case True
    then show ?thesis using 1(2) by (subst recv_exact.simps) (auto intro!: exI [of _ "recvs s"])
  next
    case False
    then have "live (Suc (n - 1 + m)) (recvs s)" "inbox s \<noteq> []" using 1(2,3) by auto
    then obtain b sc where b: "recv_loop (recvs s) (inbox s) n = (ok b, sc, drop (length b) (inbox s))"
      "b \<noteq> []" "b = take (length b) (inbox s)" "length b \<le> n" "live (n - 1 + m) sc"
      using recv_loop_live False by blast
    let ?s = "s\<lparr>recvs := sc, inbox := drop (length b) (inbox s)\<rparr>"
    have some: "recv_some n s = (ok b, ?s)" using b(1) False by (simp add: recv_some_def)
    have "live (n - length b + m) sc"
      using b(2,4,5) by (cases b) (auto intro: live_mono)
    then obtain sc' where "recv_exact (n - length b) (buf @ b) ?s =
        (ok ((buf @ b) @ take (n - length b) (inbox ?s)), ?s\<lparr>recvs := sc', inbox := drop (n - length b) (inbox ?s)\<rparr>)"
      "live m sc'"
      using 1(1) [OF False some [symmetric] refl] 1(3) by (fastforce simp: diff_le_mono)
    moreover have "b @ take (n - length b) (drop (length b) (inbox s)) = take n (inbox s)"
      using b(3,4) by (metis le_add_diff_inverse take_add)
    ultimately show ?thesis using False some b(4) by (subst recv_exact.simps) auto
  qed
qed

text \<open>
  The bounded receive does the same as long as \<open>select\<close> keeps reporting data and no reading of the clock
  has reached the deadline.
\<close>

lemma clock_now_within:
  assumes "clock s \<noteq> []"
  shows "\<exists>ts. snd (clock_now s) = s\<lparr>clock := ts\<rparr> \<and> ts \<noteq> [] \<and> set ts \<subseteq> set (clock s) \<and> fst (clock_now s) \<in> set (clock s)"
  using assms by (cases "clock s"; cases "tl (clock s)") (auto simp: clock_now_def intro: exI [of _ "clock s"])

lemma recv_exact_until_live:
  assumes "live (n + m) (recvs s)" and "n \<le> length (inbox s)" and "n \<le> length (selects s)"
    and "list_all (\<lambda>k. 0 < k) (selects s)" and "clock s \<noteq> []" and "\<forall>t \<in> set (clock s). t < d"
  shows "\<exists>sc ts i. recv_exact_until n buf d s = (ok (buf @ take n (inbox s)),
      s\<lparr>recvs := sc, inbox := drop n (inbox s), selects := drop i (selects s), clock := ts\<rparr>) \<and>
    live m sc \<and> i \<le> n \<and> ts \<noteq> [] \<and> set ts \<subseteq> set (clock s)"
  using assms
proof (induction n arbitrary: buf s rule: less_induct)
  case (less n)
  show ?case
  proof (cases "n = 0")
    case True
    have "s = s\<lparr>recvs := recvs s, inbox := inbox s, selects := drop 0 (selects s), clock := clock s\<rparr>" by simp
    then show ?thesis using True less.prems
      by (subst recv_exact_until.simps) (auto intro!: exI [of _ "recvs s"] exI [of _ "clock s"] exI [of _ 0])
  next
    case False
    obtain ts where c: "clock_now s = (fst (clock_now s), s\<lparr>clock := ts\<rparr>)" "ts \<noteq> []" "set ts \<subseteq> set (clock s)"
      "fst (clock_now s) \<in> set (clock s)" using clock_now_within [OF less.prems(5)] by (metis prod.collapse)
    obtain k ks where k: "selects s = k # ks" "0 < k" using less.prems(3,4) False by (cases "selects s") auto
    have "live (Suc (n - 1 + m)) (recvs s)" "inbox s \<noteq> []" using less.prems(1,2) False by auto
    then obtain b sc where b: "recv_loop (recvs s) (inbox s) n = (ok b, sc, drop (length b) (inbox s))"
      "b \<noteq> []" "b = take (length b) (inbox s)" "length b \<le> n" "live (n - 1 + m) sc"
      using recv_loop_live False by blast
    have bl: "0 < length b" using b(2) by simp
    let ?s = "s\<lparr>clock := ts, selects := ks, recvs := sc, inbox := drop (length b) (inbox s)\<rparr>"
    have step: "recv_exact_until n buf d s = recv_exact_until (n - length b) (buf @ b) d ?s"
    proof -
      have "\<not> fst (clock_now s) \<ge> d" using c(4) less.prems(6) by auto
      then show ?thesis using c(1) k b(1) False
        by (subst recv_exact_until.simps) (auto simp: wait_readable_def wait_read_def recv_some_def Let_def split: prod.split)
    qed
    have pre: "live (n - length b + m) (recvs ?s)" "n - length b \<le> length (inbox ?s)" "n - length b \<le> length (selects ?s)"
      "list_all (\<lambda>k. 0 < k) (selects ?s)" "clock ?s \<noteq> []" "\<forall>t \<in> set (clock ?s). t < d"
      using live_mono [OF b(5), of "n - length b + m"] less.prems c b(4) bl k by (auto simp flip: length_greater_0_conv)
    have "n - length b < n" using bl False by simp
    from less.IH [OF this pre, of "buf @ b"] obtain sc' ts' i where ih:
      "recv_exact_until (n - length b) (buf @ b) d ?s = (ok ((buf @ b) @ take (n - length b) (inbox ?s)),
        ?s\<lparr>recvs := sc', inbox := drop (n - length b) (inbox ?s), selects := drop i (selects ?s), clock := ts'\<rparr>)"
      "live m sc'" "i \<le> n - length b" "ts' \<noteq> []" "set ts' \<subseteq> set (clock ?s)" by blast
    have t: "b @ take (n - length b) (drop (length b) (inbox s)) = take n (inbox s)"
      using b(3,4) by (metis le_add_diff_inverse take_add)
    have "recv_exact_until n buf d s = (ok (buf @ take n (inbox s)),
        s\<lparr>recvs := sc', inbox := drop n (inbox s), selects := drop (Suc i) (selects s), clock := ts'\<rparr>)"
      using step ih(1) t b(4) k by simp
    moreover have "Suc i \<le> n" "set ts' \<subseteq> set (clock s)"
      using ih(3,5) bl False c(3) b(4) by (auto simp flip: length_greater_0_conv)
    ultimately show ?thesis using ih(2,4) by blast
  qed
qed

lemma recv_exact_prefix:
  "recv_exact n buf s = (ok b, s') \<Longrightarrow> n \<le> length (inbox s) \<and> b = buf @ take n (inbox s) \<and> inbox s' = drop n (inbox s)"
proof (induction n buf s rule: recv_exact.induct)
  case (1 n buf s)
  show ?case
  proof (cases "n = 0")
    case False
    then obtain c t where c: "recv_some n s = (ok c, t)" "recv_exact (n - length c) (buf @ c) t = (ok b, s')"
      using 1(2) by (subst (asm) recv_exact.simps) (auto split: prod.splits sum.splits)
    have "inbox s = c @ inbox t" "length c \<le> n" using recv_some_got [OF c(1)] False by auto
    then show ?thesis using 1(1) [OF False c(1) [symmetric] refl c(2)] by (auto simp: le_diff_conv)
  qed (use 1(2) in \<open>auto simp: recv_exact.simps\<close>)
qed

lemma recv_exact_until_prefix:
  "recv_exact_until n buf d s = (ok b, s') \<Longrightarrow> n \<le> length (inbox s) \<and> b = buf @ take n (inbox s) \<and> inbox s' = drop n (inbox s)"
proof (induction n arbitrary: buf s rule: less_induct)
  case (less n)
  show ?case
  proof (cases "n = 0")
    case False
    obtain now s1 where s1: "clock_now s = (now, s1)" by (cases "clock_now s")
    then have i1: "inbox s1 = inbox s" by (auto simp: clock_now_def split: list.splits)
    obtain r s2 where s2: "wait_readable ((d - now) div 1000000 + 1) s1 = (r, s2)" by (cases "wait_readable ((d - now) div 1000000 + 1) s1")
    then have i2: "inbox s2 = inbox s1" by (auto simp: wait_readable_def wait_read_def split: list.splits if_splits)
    obtain c t where c: "recv_some n s2 = (ok c, t)" "recv_exact_until (n - length c) (buf @ c) d t = (ok b, s')"
      using less.prems False s1 s2 by (subst (asm) recv_exact_until.simps) (auto split: prod.splits sum.splits bool.splits if_splits)
    have "c \<noteq> []" "inbox s2 = c @ inbox t" "length c \<le> n" using recv_some_got [OF c(1)] False by auto
    then show ?thesis using less.IH [OF _ c(2)] False i1 i2 by (auto simp: le_diff_conv)
  qed (use less.prems in \<open>auto simp: recv_exact_until.simps\<close>)
qed

end
