(* ===== verification/Wire.thy ===== *)
theory Wire
  imports Types
begin

text \<open>
  The primitives of the wire protocol (\<open>src/core/protocol.hpp\<close>, \<open>protocol.cpp\<close>): little-endian
  integers, the \<open>Writer\<close> that appends to a byte buffer, the \<open>Reader\<close> that walks a byte span with a
  position, LEB128 varints and length-prefixed strings.

  A writer operation is a function from the buffer to the buffer; \<open>writes\<close> runs a list of them in
  order.  A reader operation takes the reader and answers a \<open>Result\<close> with the reader after the call,
  also when it fails (a varint that fails has moved the position); \<open>rbind\<close> is the pattern
  \<open>auto v = r.f(); if (!v) return fail(v.error());\<close> that every decoder repeats.

  \<open>carries rd w x\<close> relates the two: \<open>w\<close> appends some bytes, \<open>rd\<close> reads them back to \<open>x\<close> wherever they
  stand in the input and whatever follows, and \<open>rd\<close> refuses every strict prefix of them.  \<open>safe rd\<close>
  says that on any input at all \<open>rd\<close> leaves the span alone and moves the position forward within it.
  Both are closed under sequencing; the locale \<open>codec\<close> draws the consequences for a pair of functions.
\<close>

section \<open>Little-endian integers\<close>

definition put_le :: "u64 \<Rightarrow> nat \<Rightarrow> bytes" where
  "put_le v n = map (\<lambda>i. ucast (drop_bit (8 * i) v AND 0xFF)) [0..<n]"

definition get_le :: "bytes \<Rightarrow> nat \<Rightarrow> u64" where
  "get_le p n = foldl (\<lambda>v i. v OR push_bit (8 * i) (ucast (p ! i))) 0 [0..<n]"

text \<open>Storing bytes into a buffer at a position inside it.\<close>

definition put_at :: "bytes \<Rightarrow> nat \<Rightarrow> bytes \<Rightarrow> bytes" where
  "put_at out p bs = take p out @ bs @ drop (p + length bs) out"

section \<open>Writer\<close>

definition Writer_u8 :: "u8 \<Rightarrow> bytes \<Rightarrow> bytes" where
  "Writer_u8 v out = out @ [v]"

definition Writer_u16 :: "u16 \<Rightarrow> bytes \<Rightarrow> bytes" where
  "Writer_u16 v out = put_at (out @ replicate 2 0) (length out) (put_le (ucast v) 2)"

definition Writer_u32 :: "u32 \<Rightarrow> bytes \<Rightarrow> bytes" where
  "Writer_u32 v out = put_at (out @ replicate 4 0) (length out) (put_le (ucast v) 4)"

definition Writer_u64 :: "u64 \<Rightarrow> bytes \<Rightarrow> bytes" where
  "Writer_u64 v out = put_at (out @ replicate 8 0) (length out) (put_le v 8)"

definition Writer_i64 :: "i64 \<Rightarrow> bytes \<Rightarrow> bytes" where
  "Writer_i64 v out = Writer_u64 v out"

function Writer_varint :: "u64 \<Rightarrow> bytes \<Rightarrow> bytes" where
  "Writer_varint v out =
    (if 0x80 \<le> v then Writer_varint (drop_bit 7 v) (out @ [ucast ((v AND 0x7F) OR 0x80)])
     else out @ [ucast v])"
  by pat_completeness auto
termination
proof (relation "measure (\<lambda>(v, out). unat v)")
  fix v :: u64 and out :: bytes
  assume "0x80 \<le> v"
  then have "0x80 \<le> unat v" by (simp add: word_le_nat_alt)
  then have "unat v div 2 ^ 7 < unat v" by simp
  then show "((drop_bit 7 v, out @ [ucast ((v AND 0x7F) OR 0x80)]), v, out) \<in> measure (\<lambda>(v, out). unat v)"
    by (simp add: drop_bit_eq_div unat_div_distrib)
qed simp

declare Writer_varint.simps [simp del]

definition Writer_raw :: "bytes \<Rightarrow> bytes \<Rightarrow> bytes" where
  "Writer_raw b out = out @ b"

definition Writer_string :: "bytes \<Rightarrow> bytes \<Rightarrow> bytes" where
  "Writer_string s out =
    (let out1 = Writer_varint (of_nat (length s)) out;
         p = length out1;
         out2 = out1 @ replicate (length s) 0
     in if s \<noteq> [] then put_at out2 p s else out2)"

definition Writer_blob :: "bytes \<Rightarrow> bytes \<Rightarrow> bytes" where
  "Writer_blob b out = Writer_raw b (Writer_varint (of_nat (length b)) out)"

definition Writer_patch_u32 :: "nat \<Rightarrow> u32 \<Rightarrow> bytes \<Rightarrow> bytes" where
  "Writer_patch_u32 pos v out = put_at out pos (put_le (ucast v) 4)"

definition writes :: "(bytes \<Rightarrow> bytes) list \<Rightarrow> bytes \<Rightarrow> bytes" where
  "writes ws out = foldl (\<lambda>o1 w. w o1) out ws"

section \<open>Reader\<close>

record Reader =
  rin :: bytes
  rpos :: nat

type_synonym 'a rd = "Reader \<Rightarrow> 'a result \<times> Reader"

definition Reader_init :: "bytes \<Rightarrow> Reader" where
  "Reader_init bs = \<lparr>rin = bs, rpos = 0\<rparr>"

definition remaining :: "Reader \<Rightarrow> nat" where
  "remaining r = length (rin r) - rpos r"

definition rret :: "'a \<Rightarrow> 'a rd" where
  "rret x r = (ok x, r)"

definition rfail :: "Errc \<Rightarrow> 'a rd" where
  "rfail e r = (fail e, r)"

definition rbind :: "'a rd \<Rightarrow> ('a \<Rightarrow> 'b rd) \<Rightarrow> 'b rd" where
  "rbind m f r = (case m r of (Inl e, r') \<Rightarrow> (fail e, r') | (Inr x, r') \<Rightarrow> f x r')"

text \<open>\<open>if (count > r.remaining()) return fail(e);\<close>\<close>

definition rcheck :: "nat \<Rightarrow> Errc \<Rightarrow> 'a rd \<Rightarrow> 'a rd" where
  "rcheck n e k r = (if n > remaining r then (fail e, r) else k r)"

definition Reader_u8 :: "u8 rd" where
  "Reader_u8 r = (if remaining r < 1 then (fail Truncated, r)
     else (ok (rin r ! rpos r), r\<lparr>rpos := rpos r + 1\<rparr>))"

definition Reader_le :: "nat \<Rightarrow> u64 rd" where
  "Reader_le n r = (if remaining r < n then (fail Truncated, r)
     else (ok (get_le (drop (rpos r) (rin r)) n), r\<lparr>rpos := rpos r + n\<rparr>))"

definition Reader_u16 :: "u16 rd" where
  "Reader_u16 = rbind (Reader_le 2) (\<lambda>v. rret (ucast v))"

definition Reader_u32 :: "u32 rd" where
  "Reader_u32 = rbind (Reader_le 4) (\<lambda>v. rret (ucast v))"

definition Reader_u64 :: "u64 rd" where
  "Reader_u64 = Reader_le 8"

definition Reader_i64 :: "i64 rd" where
  "Reader_i64 = rbind Reader_u64 (\<lambda>v. rret v)"

function varint_loop :: "nat \<Rightarrow> u64 \<Rightarrow> u64 rd" where
  "varint_loop shift v r =
    (if shift < 64 then
       if length (rin r) \<le> rpos r then (fail Truncated, r)
       else
         let b = rin r ! rpos r;
             r' = r\<lparr>rpos := rpos r + 1\<rparr>;
             v' = v OR push_bit shift (ucast (b AND 0x7F))
         in if b AND 0x80 = 0
            then if shift = 63 \<and> b > 1 then (fail Corrupt, r') else (ok v', r')
            else varint_loop (shift + 7) v' r'
     else (fail Corrupt, r))"
  by pat_completeness auto
termination
  by (relation "measure (\<lambda>(shift, v, r). 64 - shift)") auto

declare varint_loop.simps [simp del]

definition Reader_varint :: "u64 rd" where
  "Reader_varint = varint_loop 0 0"

definition Reader_raw :: "nat \<Rightarrow> bytes rd" where
  "Reader_raw n r = (if remaining r < n then (fail Truncated, r)
     else (ok (substr (rin r) (rpos r) n), r\<lparr>rpos := rpos r + n\<rparr>))"

definition Reader_string :: "bytes rd" where
  "Reader_string = rbind Reader_varint (\<lambda>len. rcheck (unat len) Truncated
     (\<lambda>r. (ok (substr (rin r) (rpos r) (unat len)), r\<lparr>rpos := rpos r + unat len\<rparr>)))"

definition Reader_blob :: "bytes rd" where
  "Reader_blob = rbind Reader_varint (\<lambda>len. rcheck (unat len) Truncated (Reader_raw (unat len)))"

text \<open>\<open>for (i = 0; i < count; ++i) { auto x = rd(r); if (!x) return fail(x.error()); push_back(*x); }\<close>\<close>

primrec read_n :: "'a rd \<Rightarrow> nat \<Rightarrow> 'a list rd" where
  "read_n m 0 = rret []"
| "read_n m (Suc n) = rbind m (\<lambda>x. rbind (read_n m n) (\<lambda>xs. rret (x # xs)))"

section \<open>Laws of integers and buffers\<close>

lemma length_put_le [simp]: "length (put_le v n) = n"
  by (simp add: put_le_def)

lemma put_at_end [simp]: "length bs = n \<Longrightarrow> put_at (out @ replicate n 0) (length out) bs = out @ bs"
  by (simp add: put_at_def)

lemma Writer_fixed:
  "Writer_u16 a out = out @ put_le (ucast a) 2" "Writer_u32 b out = out @ put_le (ucast b) 4"
  "Writer_u64 c out = out @ put_le c 8" "Writer_i64 c out = out @ put_le c 8"
  by (simp_all add: Writer_u16_def Writer_u32_def Writer_u64_def Writer_i64_def)

lemma get_le_Suc: "get_le p (Suc n) = get_le p n OR push_bit (8 * n) (ucast (p ! n))"
  by (simp add: get_le_def)

lemma get_le_cong: "(\<And>i. i < n \<Longrightarrow> p ! i = q ! i) \<Longrightarrow> get_le p n = get_le q n"
  by (induction n) (simp_all add: get_le_def)

lemma bit_byte_at: "bit (push_bit (8 * n) (ucast (ucast (drop_bit (8 * n) v AND 0xFF) :: u8)) :: u64) i \<longleftrightarrow>
    8 * n \<le> i \<and> i < 8 * n + 8 \<and> i < 64 \<and> bit (v :: u64) i"
proof -
  have m: "(0xFF :: u64) = mask 8" by (simp add: mask_eq_exp_minus_1)
  show ?thesis unfolding m by (auto simp: bit_simps dest: bit_imp_le_length)
qed

lemma get_put_le_bits: "n \<le> m \<Longrightarrow> bit (get_le (put_le v m @ rest) n) i \<longleftrightarrow> i < 8 * n \<and> bit (v :: u64) i"
proof (induction n)
  case 0
  then show ?case by (simp add: get_le_def)
next
  case (Suc n)
  have "(put_le v m @ rest) ! n = ucast (drop_bit (8 * n) v AND 0xFF)"
    using Suc.prems by (simp add: put_le_def nth_append)
  then show ?case using Suc bit_byte_at [of n v i]
    by (auto simp: get_le_Suc bit_or_iff dest: bit_imp_le_length)
qed

lemma get_put_le: "get_le (put_le v n @ rest) n = take_bit (8 * n) v"
  by (rule bit_eqI) (auto simp: get_put_le_bits bit_take_bit_iff)

lemma get_put_le_exact: "n \<le> 8 \<Longrightarrow> take_bit (8 * n) v = v \<Longrightarrow> get_le (put_le v n @ rest) n = v"
  by (simp add: get_put_le)

section \<open>Safety: decoders stay inside the span\<close>

definition reader_ok :: "Reader \<Rightarrow> bool" where
  "reader_ok r \<longleftrightarrow> rpos r \<le> length (rin r)"

definition safe :: "'a rd \<Rightarrow> bool" where
  "safe m \<longleftrightarrow> (\<forall>r. reader_ok r \<longrightarrow>
     rin (snd (m r)) = rin r \<and> rpos r \<le> rpos (snd (m r)) \<and> rpos (snd (m r)) \<le> length (rin r))"

named_theorems safe_intros \<open>decoders that stay inside their input\<close>

lemma safe_rret [safe_intros]: "safe (rret x)"
  by (simp add: safe_def rret_def reader_ok_def)

lemma safe_rfail [safe_intros]: "safe (rfail e)"
  by (simp add: safe_def rfail_def reader_ok_def)

lemma safe_rbind [safe_intros]:
  assumes "safe m" and "\<And>x. safe (f x)"
  shows "safe (rbind m f)"
  unfolding safe_def
proof (intro allI impI)
  fix r
  assume r: "reader_ok r"
  obtain a r' where m: "m r = (a, r')" by (cases "m r")
  have r': "rin r' = rin r" "rpos r \<le> rpos r'" "rpos r' \<le> length (rin r)"
    using assms(1) r m unfolding safe_def by (metis snd_conv)+
  then have "reader_ok r'" by (simp add: reader_ok_def)
  then show "rin (snd (rbind m f r)) = rin r \<and> rpos r \<le> rpos (snd (rbind m f r)) \<and>
      rpos (snd (rbind m f r)) \<le> length (rin r)"
  proof (cases a)
    case (Inr x)
    then show ?thesis using m r' assms(2) [of x] \<open>reader_ok r'\<close>
      unfolding safe_def rbind_def by (metis (no_types, lifting) le_trans prod.case sum.case(2))
  qed (use m r' in \<open>simp add: rbind_def\<close>)
qed

lemma safe_rcheck [safe_intros]: "safe k \<Longrightarrow> safe (rcheck n e k)"
  by (simp add: safe_def rcheck_def reader_ok_def)

lemma safe_if [safe_intros]: "safe m \<Longrightarrow> safe k \<Longrightarrow> safe (if b then m else k)"
  by simp

lemma safe_Reader_u8 [safe_intros]: "safe Reader_u8"
  by (auto simp: safe_def Reader_u8_def reader_ok_def remaining_def)

lemma safe_Reader_le [safe_intros]: "safe (Reader_le n)"
  by (auto simp: safe_def Reader_le_def reader_ok_def remaining_def)

lemma safe_Reader_raw [safe_intros]: "safe (Reader_raw n)"
  by (auto simp: safe_def Reader_raw_def reader_ok_def remaining_def)

lemma safe_varint_loop: "safe (varint_loop shift v)"
proof -
  have "reader_ok r \<Longrightarrow> rin (snd (varint_loop shift v r)) = rin r \<and> rpos r \<le> rpos (snd (varint_loop shift v r)) \<and>
      rpos (snd (varint_loop shift v r)) \<le> length (rin r)" for r
  proof (induction shift v r rule: varint_loop.induct)
    case (1 shift v r)
    show ?case
    proof (cases "shift < 64 \<and> rpos r < length (rin r)")
      case True
      let ?b = "rin r ! rpos r" and ?r = "r\<lparr>rpos := rpos r + 1\<rparr>"
      let ?v = "v OR push_bit shift (ucast (?b AND 0x7F))"
      have "reader_ok ?r" using True by (simp add: reader_ok_def)
      then have IH: "?b AND 0x80 \<noteq> 0 \<Longrightarrow> rin (snd (varint_loop (shift + 7) ?v ?r)) = rin r \<and>
          rpos r \<le> rpos (snd (varint_loop (shift + 7) ?v ?r)) \<and>
          rpos (snd (varint_loop (shift + 7) ?v ?r)) \<le> length (rin r)"
        using 1(1) [of ?b ?r ?v] True by auto
      have "varint_loop shift v r =
          (if ?b AND 0x80 = 0 then if shift = 63 \<and> ?b > 1 then (fail Corrupt, ?r) else (ok ?v, ?r)
           else varint_loop (shift + 7) ?v ?r)"
        using True by (subst varint_loop.simps) (simp add: Let_def)
      then show ?thesis using IH True by simp
    next
      case False
      then have "snd (varint_loop shift v r) = r" by (subst varint_loop.simps) auto
      then show ?thesis using 1(2) by (simp add: reader_ok_def)
    qed
  qed
  then show ?thesis by (simp add: safe_def)
qed

lemma safe_take: "safe (\<lambda>r. rcheck n e (\<lambda>r. (ok (substr (rin r) (rpos r) n), r\<lparr>rpos := rpos r + n\<rparr>)) r)"
  by (auto simp: safe_def rcheck_def reader_ok_def remaining_def)

lemma safe_primitives [safe_intros]:
  "safe Reader_u16" "safe Reader_u32" "safe Reader_u64" "safe Reader_i64" "safe Reader_varint"
  "safe Reader_string" "safe Reader_blob"
  by (auto simp: Reader_u16_def Reader_u32_def Reader_u64_def Reader_i64_def Reader_varint_def
      Reader_string_def Reader_blob_def intro!: safe_intros safe_varint_loop safe_take)

lemma safe_read_n [safe_intros]: "safe m \<Longrightarrow> safe (read_n m n)"
  by (induction n) (auto intro: safe_intros)

section \<open>Encodings and their decoders\<close>

definition carries :: "'a rd \<Rightarrow> (bytes \<Rightarrow> bytes) \<Rightarrow> 'a \<Rightarrow> bool" where
  "carries m w x \<longleftrightarrow> (\<exists>bs. (\<forall>out. w out = out @ bs) \<and>
     (\<forall>pre rest. m \<lparr>rin = pre @ bs @ rest, rpos = length pre\<rparr> =
        (ok x, \<lparr>rin = pre @ bs @ rest, rpos = length pre + length bs\<rparr>)) \<and>
     (\<forall>pre k. k < length bs \<longrightarrow> isl (fst (m \<lparr>rin = pre @ take k bs, rpos = length pre\<rparr>))))"

lemma carriesI:
  assumes "\<And>out. w out = out @ bs"
    and "\<And>pre rest. m \<lparr>rin = pre @ bs @ rest, rpos = length pre\<rparr> =
        (ok x, \<lparr>rin = pre @ bs @ rest, rpos = length pre + length bs\<rparr>)"
    and "\<And>pre k. k < length bs \<Longrightarrow> isl (fst (m \<lparr>rin = pre @ take k bs, rpos = length pre\<rparr>))"
  shows "carries m w x"
  unfolding carries_def using assms by blast

lemma carriesE:
  assumes "carries m w x"
  obtains bs where "\<And>out. w out = out @ bs"
    and "\<And>pre rest. m \<lparr>rin = pre @ bs @ rest, rpos = length pre\<rparr> =
        (ok x, \<lparr>rin = pre @ bs @ rest, rpos = length pre + length bs\<rparr>)"
    and "\<And>pre k. k < length bs \<Longrightarrow> isl (fst (m \<lparr>rin = pre @ take k bs, rpos = length pre\<rparr>))"
  using assms unfolding carries_def by blast

lemma writes_Cons: "writes (w # ws) out = writes ws (w out)"
  by (simp add: writes_def)

lemma carries_rret: "carries (rret x) (writes []) x"
  by (rule carriesI [where bs = "[]"]) (simp_all add: writes_def rret_def)

text \<open>A decoder of two parts reads what the two writers appended, in the same order.\<close>

lemma carries_rbind:
  assumes m: "carries m w x" and f: "carries (f x) (writes ws) y"
  shows "carries (rbind m f) (writes (w # ws)) y"
proof -
  obtain bs where b: "\<And>out. w out = out @ bs"
    "\<And>pre rest. m \<lparr>rin = pre @ bs @ rest, rpos = length pre\<rparr> =
        (ok x, \<lparr>rin = pre @ bs @ rest, rpos = length pre + length bs\<rparr>)"
    "\<And>pre k. k < length bs \<Longrightarrow> isl (fst (m \<lparr>rin = pre @ take k bs, rpos = length pre\<rparr>))"
    using m by (rule carriesE) blast
  obtain cs where c: "\<And>out. writes ws out = out @ cs"
    "\<And>pre rest. f x \<lparr>rin = pre @ cs @ rest, rpos = length pre\<rparr> =
        (ok y, \<lparr>rin = pre @ cs @ rest, rpos = length pre + length cs\<rparr>)"
    "\<And>pre k. k < length cs \<Longrightarrow> isl (fst (f x \<lparr>rin = pre @ take k cs, rpos = length pre\<rparr>))"
    using f by (rule carriesE) blast
  show ?thesis
  proof (rule carriesI [where bs = "bs @ cs"])
    show "writes (w # ws) out = out @ bs @ cs" for out by (simp add: writes_Cons b(1) c(1))
    show "rbind m f \<lparr>rin = pre @ (bs @ cs) @ rest, rpos = length pre\<rparr> =
        (ok y, \<lparr>rin = pre @ (bs @ cs) @ rest, rpos = length pre + length (bs @ cs)\<rparr>)" for pre rest
      using b(2) [of pre "cs @ rest"] c(2) [of "pre @ bs" rest] by (simp add: rbind_def add.assoc)
    show "isl (fst (rbind m f \<lparr>rin = pre @ take k (bs @ cs), rpos = length pre\<rparr>))"
      if "k < length (bs @ cs)" for pre k
    proof (cases "k < length bs")
      case True
      then show ?thesis using b(3) [of k pre]
        by (cases "m \<lparr>rin = pre @ take k bs, rpos = length pre\<rparr>") (auto simp: rbind_def split: sum.split)
    next
      case False
      then show ?thesis using b(2) [of pre "take (k - length bs) cs"] c(3) [of "k - length bs" "pre @ bs"] that
        by (simp add: rbind_def)
    qed
  qed
qed

lemma carries_rcheck:
  assumes "carries k (writes ws) y" and "n \<le> length (writes ws [])"
  shows "carries (rcheck n e k) (writes ws) y"
proof -
  obtain bs where b: "\<And>out. writes ws out = out @ bs"
    "\<And>pre rest. k \<lparr>rin = pre @ bs @ rest, rpos = length pre\<rparr> =
        (ok y, \<lparr>rin = pre @ bs @ rest, rpos = length pre + length bs\<rparr>)"
    "\<And>pre j. j < length bs \<Longrightarrow> isl (fst (k \<lparr>rin = pre @ take j bs, rpos = length pre\<rparr>))"
    using assms(1) by (rule carriesE) blast
  have "n \<le> length bs" using assms(2) b(1) by simp
  then show ?thesis using b by (intro carriesI [where bs = bs]) (simp_all add: rcheck_def remaining_def)
qed

text \<open>A single writer is a list of one, and a decoder that ends with a pure function still reads it.\<close>

lemma carries_single: "carries m w x \<Longrightarrow> carries m (writes [w]) x"
  by (simp add: carries_def writes_def)

lemma carries_map: "carries m w x \<Longrightarrow> carries (rbind m (\<lambda>v. rret (g v))) w (g x)"
  using carries_rbind [where f = "\<lambda>v. rret (g v)", OF _ carries_rret] by (simp add: carries_def writes_def)

lemma carries_if: "b \<Longrightarrow> carries m w x \<Longrightarrow> carries (if b then m else k) w x"
  "\<not> b \<Longrightarrow> carries k w x \<Longrightarrow> carries (if b then m else k) w x"
  by simp_all

section \<open>Primitives\<close>

named_theorems carried \<open>what the primitive readers read back\<close>

lemma carries_u8 [carried]: "carries Reader_u8 (Writer_u8 v) v"
  by (rule carriesI [where bs = "[v]"]) (simp_all add: Writer_u8_def Reader_u8_def remaining_def)

lemma carries_le:
  assumes "\<And>out. w out = out @ put_le v n"
  shows "carries (Reader_le n) w (take_bit (8 * n) v)"
  by (rule carriesI [where bs = "put_le v n"]) (simp_all add: assms Reader_le_def remaining_def get_put_le)

lemma carries_u64 [carried]: "carries Reader_u64 (Writer_u64 v) v"
  using carries_le [of "Writer_u64 v" v 8] take_bit_length_eq [of v]
  by (simp add: Reader_u64_def Writer_u64_def)

lemma carries_i64 [carried]: "carries Reader_i64 (Writer_i64 v) v"
  using carries_map [OF carries_u64, of "\<lambda>v. v" v]
  by (simp add: Reader_i64_def Writer_i64_def [abs_def])

lemma ucast_take_bit_ucast:
  "LENGTH('a::len) = n \<Longrightarrow> n \<le> 64 \<Longrightarrow> (ucast (take_bit n (ucast (v :: 'a word) :: u64)) :: 'a word) = v"
  by (rule bit_word_eqI) (auto simp: bit_simps)

lemma carries_u32 [carried]: "carries Reader_u32 (Writer_u32 v) v"
  using carries_map [OF carries_le [of "Writer_u32 v" "ucast v" 4], of "\<lambda>v. ucast v :: u32"]
  by (simp add: Reader_u32_def Writer_u32_def ucast_take_bit_ucast)

lemma carries_u16 [carried]: "carries Reader_u16 (Writer_u16 v) v"
  using carries_map [OF carries_le [of "Writer_u16 v" "ucast v" 2], of "\<lambda>v. ucast v :: u16"]
  by (simp add: Reader_u16_def Writer_u16_def ucast_take_bit_ucast)

subsection \<open>Varints\<close>

function varint_bytes :: "u64 \<Rightarrow> bytes" where
  "varint_bytes v = (if 0x80 \<le> v then ucast ((v AND 0x7F) OR 0x80) # varint_bytes (drop_bit 7 v) else [ucast v])"
  by pat_completeness auto
termination
proof (relation "measure unat")
  fix v :: u64
  assume "0x80 \<le> v"
  then have "0x80 \<le> unat v" by (simp add: word_le_nat_alt)
  then have "unat v div 2 ^ 7 < unat v" by simp
  then show "(drop_bit 7 v, v) \<in> measure unat" by (simp add: drop_bit_eq_div unat_div_distrib)
qed simp

declare varint_bytes.simps [simp del]

lemma Writer_varint_append: "Writer_varint v out = out @ varint_bytes v"
proof (induction v out rule: Writer_varint.induct)
  case (1 v out)
  then show ?case by (subst Writer_varint.simps, subst varint_bytes.simps) simp
qed

lemma low7_ucast: "(ucast ((ucast ((v AND 0x7F) OR 0x80) :: u8) AND 0x7F) :: u64) = v AND 0x7F"
proof -
  have m: "(0x7F :: u64) = mask 7" "(0x7F :: u8) = mask 7" by (simp_all add: mask_eq_exp_minus_1)
  have e: "(0x80 :: u64) = push_bit 7 1" by simp
  show ?thesis unfolding m e by (rule bit_word_eqI) (auto simp del: push_bit_of_1 simp: bit_simps)
qed

lemma high_bit_set: "(ucast ((v AND 0x7F) OR 0x80) :: u8) AND 0x80 \<noteq> 0" for v :: u64
proof -
  have "(0x80 :: u64) = push_bit 7 1" "(0x80 :: u8) = push_bit 7 1" by simp_all
  then have "bit ((ucast ((v AND 0x7F) OR 0x80) :: u8) AND 0x80) 7" by (simp add: bit_simps)
  then show ?thesis by (metis bit_0_eq bot_apply bot_bool_def)
qed

lemma split7: "(v AND 0x7F) OR push_bit 7 (drop_bit 7 v) = (v :: u64)"
proof -
  have m: "(0x7F :: u64) = mask 7" by (simp add: mask_eq_exp_minus_1)
  have "bit ((v AND mask 7) OR push_bit 7 (drop_bit 7 v)) n = bit v n" if "n < 64" for n
    using that by (cases "n < 7") (simp_all add: bit_simps)
  then show ?thesis unfolding m by (intro bit_word_eqI) simp
qed

lemma last_byte:
  assumes "\<not> 0x80 \<le> (v :: u64)"
  shows "(ucast v :: u8) AND 0x80 = 0" and "(ucast ((ucast v :: u8) AND 0x7F) :: u64) = v"
proof -
  have lt: "unat v < 2 ^ 7" using assms by (simp add: word_le_nat_alt not_le)
  then have t: "take_bit 7 v = v"
    by (metis unat_inj take_bit_nat_eq_self unsigned_take_bit_eq)
  have b: "\<not> bit v n" if "7 \<le> n" for n using t that by (metis bit_take_bit_iff not_less)
  have e: "(0x80 :: u8) = push_bit 7 1" by simp
  show "(ucast v :: u8) AND 0x80 = 0"
    unfolding e using b
    by (intro bit_word_eqI) (auto simp del: push_bit_of_1 simp: bit_simps)
  have m: "(0x7F :: u8) = mask 7" by (simp add: mask_eq_exp_minus_1)
  show "(ucast ((ucast v :: u8) AND 0x7F) :: u64) = v"
    unfolding m
  proof (rule bit_word_eqI)
    fix n
    assume "n < LENGTH(64)"
    show "bit (ucast ((ucast v :: u8) AND mask 7) :: u64) n = bit v n"
      using b [of n] by (cases "n < 7") (auto simp: bit_simps)
  qed
qed

lemma varint_loop_step:
  assumes "shift < 64" and "b AND 0x80 \<noteq> 0"
  shows "varint_loop shift v \<lparr>rin = pre @ b # rest, rpos = length pre\<rparr> =
    varint_loop (shift + 7) (v OR push_bit shift (ucast (b AND 0x7F)))
      \<lparr>rin = (pre @ [b]) @ rest, rpos = length (pre @ [b])\<rparr>"
  using assms by (subst varint_loop.simps) (simp add: Let_def)

lemma varint_loop_last:
  assumes "shift < 64" and "b AND 0x80 = 0" and "shift = 63 \<longrightarrow> b \<le> 1"
  shows "varint_loop shift v \<lparr>rin = pre @ b # rest, rpos = length pre\<rparr> =
    (ok (v OR push_bit shift (ucast (b AND 0x7F))), \<lparr>rin = pre @ b # rest, rpos = length pre + 1\<rparr>)"
  using assms by (subst varint_loop.simps) (auto simp: Let_def)

lemma varint_loop_end:
  "shift < 64 \<Longrightarrow> fst (varint_loop shift v \<lparr>rin = pre, rpos = length pre\<rparr>) = fail Truncated"
  by (subst varint_loop.simps) simp

lemma push_split7:
  "push_bit shift (v AND 0x7F) OR push_bit (shift + 7) (drop_bit 7 v) = push_bit shift (v :: u64)"
proof -
  have "push_bit shift (v AND 0x7F) OR push_bit (shift + 7) (drop_bit 7 v) =
      push_bit shift ((v AND 0x7F) OR push_bit 7 (drop_bit 7 v))"
    by simp
  then show ?thesis by (simp only: split7)
qed

text \<open>
  At shift \<open>7 i\<close> the value left to write fits the remaining bits, so an encoding of at most ten bytes
  is read back and the tenth byte carries at most one bit.
\<close>

lemma varint_loop_carries:
  fixes v :: u64
  assumes "unat v < 2 ^ (64 - 7 * i)" and "i \<le> 9"
  shows "varint_loop (7 * i) a \<lparr>rin = pre @ varint_bytes v @ rest, rpos = length pre\<rparr> =
      (ok (a OR push_bit (7 * i) v), \<lparr>rin = pre @ varint_bytes v @ rest, rpos = length pre + length (varint_bytes v)\<rparr>) \<and>
    (\<forall>k < length (varint_bytes v).
      isl (fst (varint_loop (7 * i) a \<lparr>rin = pre @ take k (varint_bytes v), rpos = length pre\<rparr>)))"
  using assms
proof (induction v arbitrary: i a pre rule: varint_bytes.induct)
  case (1 v)
  have sh: "7 * i < 64" using 1(3) by simp
  show ?case
  proof (cases "0x80 \<le> v")
    case False
    note lb = last_byte [OF False]
    have le: "7 * i = 63 \<longrightarrow> (ucast v :: u8) \<le> 1"
    proof
      assume "7 * i = 63"
      then have "unat v \<le> 1" using 1(2) by simp
      then show "(ucast v :: u8) \<le> 1" by (simp add: word_le_nat_alt unsigned_ucast_eq take_bit_nat_eq_self)
    qed
    show ?thesis using varint_loop_last [OF sh lb(1) le, of a pre rest] False lb(2) varint_loop_end [OF sh, of a pre]
      by (subst (1 2 3 4) varint_bytes.simps) simp
  next
    case True
    then have big: "2 ^ 7 \<le> unat v" by (simp add: word_le_nat_alt)
    have i: "i \<le> 8"
    proof (rule ccontr)
      assume "\<not> i \<le> 8"
      then have "64 - 7 * i \<le> 1" by simp
      then have "(2 :: nat) ^ (64 - 7 * i) \<le> 2 ^ 1" by (rule power_increasing) simp
      then show False using big 1(2) by simp
    qed
    have "unat (drop_bit 7 v) = unat v div 2 ^ 7" by (simp add: drop_bit_eq_div unat_div_distrib)
    moreover have "(2 :: nat) ^ (64 - 7 * i) = 2 ^ (64 - 7 * Suc i) * 2 ^ 7"
    proof -
      have "64 - 7 * i = (64 - 7 * Suc i) + 7" using i by simp
      then show ?thesis by (simp only: power_add)
    qed
    ultimately have small: "unat (drop_bit 7 v) < 2 ^ (64 - 7 * Suc i)"
      using 1(2) by (simp add: less_mult_imp_div_less)
    let ?b = "ucast ((v AND 0x7F) OR 0x80) :: u8"
    let ?a = "a OR push_bit (7 * i) (v AND 0x7F)"
    have sum: "?a OR push_bit (7 * Suc i) (drop_bit 7 v) = a OR push_bit (7 * i) v"
      using push_split7 [of "7 * i" v] by (simp add: or.assoc add.commute)
    note IH = 1(1) [OF True small, of ?a "pre @ [?b]"]
    have step: "varint_loop (7 * i) a \<lparr>rin = pre @ ?b # tl, rpos = length pre\<rparr> =
        varint_loop (7 * Suc i) ?a \<lparr>rin = (pre @ [?b]) @ tl, rpos = length (pre @ [?b])\<rparr>" for tl
      using varint_loop_step [OF sh high_bit_set, of a pre v tl] by (simp add: low7_ucast add.commute)
    have vb: "varint_bytes v = ?b # varint_bytes (drop_bit 7 v)"
      using True by (subst varint_bytes.simps) simp
    have "isl (fst (varint_loop (7 * i) a \<lparr>rin = pre @ take k (varint_bytes v), rpos = length pre\<rparr>))"
      if k: "k < length (varint_bytes v)" for k
    proof (cases k)
      case 0
      then show ?thesis using varint_loop_end [OF sh, of a pre] by simp
    next
      case (Suc j)
      then show ?thesis using IH i k step [of "take j (varint_bytes (drop_bit 7 v))"] vb by auto
    qed
    then show ?thesis using IH i step [of "varint_bytes (drop_bit 7 v) @ rest"] vb sum by simp
  qed
qed

lemma carries_varint [carried]: "carries Reader_varint (Writer_varint v) v"
  using varint_loop_carries [of v 0 0] unat_word_less_2p [of v]
  by (intro carriesI [where bs = "varint_bytes v"]) (simp_all add: Writer_varint_append Reader_varint_def)

subsection \<open>Strings, blobs and sequences\<close>

lemma carries_take:
  assumes "\<And>out. w out = out @ s" and "length s = n"
    and "\<And>r. n \<le> remaining r \<Longrightarrow> k r = (ok (substr (rin r) (rpos r) n), r\<lparr>rpos := rpos r + n\<rparr>)"
  shows "carries (rcheck n e k) w s"
  using assms by (intro carriesI [where bs = s]) (auto simp: rcheck_def remaining_def)

lemma unat_length: "length s < 2 ^ 64 \<Longrightarrow> unat (of_nat (length s) :: u64) = length s"
  by (simp add: unat_of_nat_small)

lemma Writer_string_eq: "Writer_string s = writes [Writer_varint (of_nat (length s)), Writer_raw s]"
  by (simp add: fun_eq_iff Writer_string_def writes_def Writer_raw_def Let_def)

lemma Writer_blob_eq: "Writer_blob s = writes [Writer_varint (of_nat (length s)), Writer_raw s]"
  by (simp add: fun_eq_iff Writer_blob_def writes_def)

lemma carries_string [carried]: "length s < 2 ^ 64 \<Longrightarrow> carries Reader_string (Writer_string s) s"
  unfolding Writer_string_eq Reader_string_def
  by (intro carries_rbind [OF carries_varint] carries_single carries_take) (simp_all add: Writer_raw_def unat_length)

lemma carries_blob [carried]: "length s < 2 ^ 64 \<Longrightarrow> carries Reader_blob (Writer_blob s) s"
  unfolding Writer_blob_eq Reader_blob_def
  by (intro carries_rbind [OF carries_varint] carries_single carries_take)
    (simp_all add: Writer_raw_def Reader_raw_def unat_length)

lemma carries_read_n:
  assumes "\<And>x. x \<in> set xs \<Longrightarrow> carries m (w x) (g x)"
  shows "carries (read_n m (length xs)) (writes (map w xs)) (map g xs)"
  using assms
proof (induction xs)
  case Nil
  then show ?case by (simp add: carries_rret)
next
  case (Cons x xs)
  have "carries (rbind (read_n m (length xs)) (\<lambda>ys. rret (g x # ys))) (writes (map w xs)) (map g (x # xs))"
    using carries_map [OF Cons.IH, of "\<lambda>ys. g x # ys"] Cons.prems by simp
  moreover have "carries m (w x) (g x)" using Cons.prems by simp
  ultimately show ?case using carries_rbind [where f = "\<lambda>x. rbind (read_n m (length xs)) (\<lambda>ys. rret (x # ys))"]
    by simp
qed

text \<open>How many bytes a writer appends: at least as many as it has non-empty parts.\<close>

lemma carries_appends: "carries m w x \<Longrightarrow> w out = out @ w []"
  by (elim carriesE) simp

lemma carries_bytes:
  assumes "carries m w x" and "c \<le> length (w [])"
  shows "\<exists>bs. length bs \<ge> c \<and> (\<forall>out. w out = out @ bs)"
  using carries_appends [OF assms(1)] assms(2) by blast

lemma length_writes_map:
  assumes "\<And>x. x \<in> set xs \<Longrightarrow> \<exists>bs. length bs \<ge> c \<and> (\<forall>out. w x out = out @ bs)"
  shows "length (writes (map w xs) out) \<ge> length out + c * length xs"
  using assms
proof (induction xs arbitrary: out)
  case Nil
  then show ?case by (simp add: writes_def)
next
  case (Cons x xs)
  obtain bs where bs: "length bs \<ge> c" "\<And>out. w x out = out @ bs"
    using Cons.prems [of x] by auto
  have "length (writes (map w xs) (w x out)) \<ge> length (w x out) + c * length xs"
    using Cons by auto
  then show ?case using bs by (simp add: writes_Cons)
qed

section \<open>Codecs\<close>

text \<open>
  The contract between a message's writer and its reader, and what follows from it for every message:
  the round trip, that encodings are injective and prefix-free (so frames can be concatenated), and
  that a truncated encoding is refused.
\<close>

locale codec =
  fixes good :: "'a \<Rightarrow> bool"
    and wr :: "'a \<Rightarrow> bytes \<Rightarrow> bytes"
    and rd :: "'a rd"
  assumes carried: "good x \<Longrightarrow> carries rd (wr x) x"
    and contained: "safe rd"
begin

lemma appends: "good x \<Longrightarrow> wr x out = out @ wr x []"
  using carried by (rule carries_appends)

lemma round_trip:
  assumes "good x"
  shows "rd \<lparr>rin = pre @ wr x [] @ rest, rpos = length pre\<rparr> =
    (ok x, \<lparr>rin = pre @ wr x [] @ rest, rpos = length pre + length (wr x [])\<rparr>)"
  using carried [OF assms] by (elim carriesE) simp

lemma prefix_free:
  assumes "good x" and "good y" and "wr x [] @ r = wr y [] @ s"
  shows "x = y \<and> r = s"
proof -
  have "(ok x, \<lparr>rin = wr x [] @ r, rpos = length (wr x [])\<rparr>) = (ok y, \<lparr>rin = wr y [] @ s, rpos = length (wr y [])\<rparr>)"
    using round_trip [OF assms(1), of "[]" r] round_trip [OF assms(2), of "[]" s] assms(3) by simp
  then show ?thesis using assms(3) by simp
qed

lemma truncated_refused:
  assumes "good x" and "k < length (wr x [])"
  shows "isl (fst (rd (Reader_init (take k (wr x [])))))"
  using carried [OF assms(1)]
proof (rule carriesE)
  fix bs
  assume "\<And>out. wr x out = out @ bs"
    and s: "\<And>pre k. k < length bs \<Longrightarrow> isl (fst (rd \<lparr>rin = pre @ take k bs, rpos = length pre\<rparr>))"
  then show ?thesis using s [of k "[]"] assms(2) by (simp add: Reader_init_def)
qed

lemma stays_inside:
  "reader_ok r \<Longrightarrow> rin (snd (rd r)) = rin r \<and> rpos r \<le> rpos (snd (rd r)) \<and> reader_ok (snd (rd r))"
  using contained by (auto simp: safe_def reader_ok_def)

end

interpretation varint: codec "\<lambda>_. True" Writer_varint Reader_varint
  by unfold_locales (simp_all add: carries_varint safe_primitives)

interpretation wstring: codec "\<lambda>s. length s < 2 ^ 64" Writer_string Reader_string
  by unfold_locales (simp_all add: carries_string safe_primitives)

interpretation wblob: codec "\<lambda>s. length s < 2 ^ 64" Writer_blob Reader_blob
  by unfold_locales (simp_all add: carries_blob safe_primitives)

end
