(* ===== verification/Protocol.thy ===== *)
theory Protocol
  imports Wire
begin

text \<open>
  The wire protocol between the two agents (\<open>src/core/protocol.hpp\<close>, \<open>protocol.cpp\<close>): the 24-byte
  frame header, one record per message with its writer and reader, and \<open>write_frame\<close>.  Every message
  is an interpretation of the \<open>codec\<close> contract of \<open>Wire\<close>.

  \<open>MsgType\<close> is an enumeration with a fixed 16-bit underlying type and the header decoder casts any
  16-bit value into it, so it is a \<open>16 word\<close> with the enumerators as constants.
\<close>

section \<open>Constants and the frame header\<close>

definition kMagic :: u32 where "kMagic = 0x444C5357"

definition kVersion :: u16 where "kVersion = 4"

definition kHeaderSize :: nat where "kHeaderSize = 24"

definition kMaxPayload :: u32 where "kMaxPayload = push_bit 20 64"

definition kMaxReadManyPaths :: nat where "kMaxReadManyPaths = 4096"

definition kMaxFileOffset :: u64 where "kMaxFileOffset = push_bit 44 1"

definition kFlagMore :: u32 where "kFlagMore = 1"

definition kMaxPreReserve :: nat where "kMaxPreReserve = 4096"

definition reserve_bounded :: "nat \<Rightarrow> nat" where
  "reserve_bounded claimed = min claimed kMaxPreReserve"

type_synonym MsgType = u16

abbreviation MsgHello :: MsgType where "MsgHello \<equiv> 1"
abbreviation MsgHelloAck :: MsgType where "MsgHelloAck \<equiv> 2"
abbreviation MsgSnapshotRequest :: MsgType where "MsgSnapshotRequest \<equiv> 3"
abbreviation MsgSnapshot :: MsgType where "MsgSnapshot \<equiv> 4"
abbreviation MsgInvalidation :: MsgType where "MsgInvalidation \<equiv> 5"
abbreviation MsgReadRequest :: MsgType where "MsgReadRequest \<equiv> 6"
abbreviation MsgReadResponse :: MsgType where "MsgReadResponse \<equiv> 7"
abbreviation MsgError :: MsgType where "MsgError \<equiv> 8"
abbreviation MsgPing :: MsgType where "MsgPing \<equiv> 9"
abbreviation MsgPong :: MsgType where "MsgPong \<equiv> 10"
abbreviation MsgWriteRequest :: MsgType where "MsgWriteRequest \<equiv> 11"
abbreviation MsgWriteResponse :: MsgType where "MsgWriteResponse \<equiv> 12"
abbreviation MsgCreateRequest :: MsgType where "MsgCreateRequest \<equiv> 13"
abbreviation MsgCreateResponse :: MsgType where "MsgCreateResponse \<equiv> 14"
abbreviation MsgMkdirRequest :: MsgType where "MsgMkdirRequest \<equiv> 15"
abbreviation MsgUnlinkRequest :: MsgType where "MsgUnlinkRequest \<equiv> 16"
abbreviation MsgRmdirRequest :: MsgType where "MsgRmdirRequest \<equiv> 17"
abbreviation MsgRenameRequest :: MsgType where "MsgRenameRequest \<equiv> 18"
abbreviation MsgTruncateRequest :: MsgType where "MsgTruncateRequest \<equiv> 19"
abbreviation MsgOk :: MsgType where "MsgOk \<equiv> 20"
abbreviation MsgReadManyRequest :: MsgType where "MsgReadManyRequest \<equiv> 21"
abbreviation MsgReadManyResponse :: MsgType where "MsgReadManyResponse \<equiv> 22"
abbreviation MsgReadlinkRequest :: MsgType where "MsgReadlinkRequest \<equiv> 23"
abbreviation MsgReadlinkResponse :: MsgType where "MsgReadlinkResponse \<equiv> 24"
abbreviation MsgAuth :: MsgType where "MsgAuth \<equiv> 25"

record FrameHeader =
  ftype :: MsgType
  flags :: u32
  payload_len :: u32
  request_id :: u64

definition encode_header :: "FrameHeader \<Rightarrow> bytes \<Rightarrow> bytes" where
  "encode_header h out =
    (let out = put_at out 0 (put_le (ucast kMagic) 4);
         out = put_at out 4 (put_le (ucast kVersion) 2);
         out = put_at out 6 (put_le (ucast (ftype h)) 2);
         out = put_at out 8 (put_le (ucast (flags h)) 4);
         out = put_at out 12 (put_le (ucast (payload_len h)) 4)
     in put_at out 16 (put_le (request_id h) 8))"

definition decode_header :: "bytes \<Rightarrow> FrameHeader result" where
  "decode_header p =
    (if length p < kHeaderSize then fail Truncated
     else if get_le p 4 \<noteq> ucast kMagic then fail BadMagic
     else if get_le (drop 4 p) 2 \<noteq> ucast kVersion then fail UnsupportedVersion
     else
       let h = \<lparr>ftype = ucast (get_le (drop 6 p) 2),
                flags = ucast (get_le (drop 8 p) 4),
                payload_len = ucast (get_le (drop 12 p) 4),
                request_id = get_le (drop 16 p) 8\<rparr>
       in if payload_len h > kMaxPayload then fail TooLarge else ok h)"

text \<open>\<open>write_frame\<close>: reserve a header, let the body append, fill the header in.\<close>

definition write_frame :: "bytes \<Rightarrow> MsgType \<Rightarrow> u64 \<Rightarrow> (bytes \<Rightarrow> bytes) \<Rightarrow> u32 \<Rightarrow> bytes" where
  "write_frame buf type rid body fl =
    (let start = length buf;
         buf = body (buf @ replicate kHeaderSize 0);
         h = \<lparr>ftype = type, flags = fl,
              payload_len = of_nat (length buf - start - kHeaderSize), request_id = rid\<rparr>
     in put_at buf start (encode_header h (substr buf start kHeaderSize)))"

section \<open>Messages\<close>

record Hello =
  protocol_version :: u32
  capabilities :: u64
  agent :: bytes
  nonce :: bytes
  proof_of :: bytes

record InvalidationOp =
  op_kind :: InvalidationKind
  op_path :: bytes
  op_attr :: Attributes
  op_change :: ChangeKind
  op_cookie :: u32

record InvalidationBatch =
  generation :: u64
  ops :: "InvalidationOp list"

record ReadRequest =
  rr_path :: bytes
  rr_offset :: u64
  rr_length :: u32

record ReadResponse =
  file_size :: u64
  rs_data :: bytes

record ErrorMessage =
  code :: u32
  detail :: bytes

record WriteRequest =
  wr_path :: bytes
  wr_offset :: u64
  wr_data :: bytes

record MutationAck =
  ack_generation :: u64

record WriteResponse =
  written :: u64
  wrs_generation :: u64

record CreateRequest =
  cr_path :: bytes
  cr_mode :: u32

record MkdirRequest =
  mk_path :: bytes
  mk_mode :: u32

record PathRequest =
  pr_path :: bytes

record TruncateRequest =
  tr_path :: bytes
  tr_size :: u64

record RenameRequest =
  from_path :: bytes
  to_path :: bytes

record ReadManyRequest =
  paths :: "bytes list"

record ReadManyItem =
  item_ok :: bool
  item_data :: bytes

record ReadManyResponse =
  items :: "ReadManyItem list"

record ReadlinkResponse =
  target :: bytes

record SnapshotHeader =
  sh_generation :: u64
  sh_count :: u32

subsection \<open>Attributes, hello, snapshot\<close>

definition write_attributes :: "Attributes \<Rightarrow> bytes \<Rightarrow> bytes" where
  "write_attributes a = writes
    [Writer_u8 (NodeKind_code (kind a)), Writer_varint (ucast (mode a)), Writer_varint (size_of a),
     Writer_i64 (mtime_ns a)]"

definition read_attributes :: "Attributes rd" where
  "read_attributes =
    rbind Reader_u8 (\<lambda>k. if k > NodeKind_code Other then rfail Corrupt else
    rbind Reader_varint (\<lambda>m. if m > 0xFFFFFFFF then rfail Corrupt else
    rbind Reader_varint (\<lambda>sz.
    rbind Reader_i64 (\<lambda>t.
    rret \<lparr>size_of = sz, mtime_ns = t, mode = ucast m, kind = NodeKind_of k\<rparr>))))"

definition write_hello :: "Hello \<Rightarrow> bytes \<Rightarrow> bytes" where
  "write_hello h = writes
    [Writer_u32 (protocol_version h), Writer_u64 (capabilities h), Writer_string (agent h),
     Writer_string (nonce h), Writer_string (proof_of h)]"

definition read_hello :: "Hello rd" where
  "read_hello =
    rbind Reader_u32 (\<lambda>v. rbind Reader_u64 (\<lambda>caps. rbind Reader_string (\<lambda>a.
    rbind Reader_string (\<lambda>n. rbind Reader_string (\<lambda>p.
    rret \<lparr>protocol_version = v, capabilities = caps, agent = a, nonce = n, proof_of = p\<rparr>)))))"

definition write_snapshot_header :: "u64 \<Rightarrow> u32 \<Rightarrow> bytes \<Rightarrow> bytes" where
  "write_snapshot_header gen count = writes [Writer_u64 gen, Writer_u32 count]"

definition write_snapshot_entry :: "SnapshotEntry \<Rightarrow> bytes \<Rightarrow> bytes" where
  "write_snapshot_entry e = writes
    [Writer_u32 (e_parent e), write_attributes (e_attr e), Writer_string (e_name e)]"

definition read_snapshot_header :: "SnapshotHeader rd" where
  "read_snapshot_header =
    rbind Reader_u64 (\<lambda>gen. rbind Reader_u32 (\<lambda>count.
    rcheck (unat (ucast count * 16 :: u64)) Corrupt
      (rret \<lparr>sh_generation = gen, sh_count = count\<rparr>)))"

definition read_snapshot_entry :: "SnapshotEntry rd" where
  "read_snapshot_entry =
    rbind Reader_u32 (\<lambda>parent. rbind read_attributes (\<lambda>attr. rbind Reader_string (\<lambda>name.
    rret \<lparr>e_parent = parent, e_name = name, e_attr = attr\<rparr>)))"

text \<open>
  The template \<open>read_snapshot\<close> hands each entry to a callback as it is decoded; the callback's effect is
  a state transformer, and entries decoded before a failure have been handed over.
\<close>

primrec snapshot_loop ::
  "(SnapshotEntry \<Rightarrow> 's \<Rightarrow> 's) \<Rightarrow> nat \<Rightarrow> Reader \<Rightarrow> 's \<Rightarrow> unit result \<times> Reader \<times> 's" where
  "snapshot_loop on_entry 0 r s = (ok (), r, s)"
| "snapshot_loop on_entry (Suc n) r s =
    (case read_snapshot_entry r of
       (Inl e, r') \<Rightarrow> (fail e, r', s)
     | (Inr e, r') \<Rightarrow> snapshot_loop on_entry n r' (on_entry e s))"

definition read_snapshot ::
  "(SnapshotEntry \<Rightarrow> 's \<Rightarrow> 's) \<Rightarrow> Reader \<Rightarrow> 's \<Rightarrow> u64 result \<times> Reader \<times> 's" where
  "read_snapshot on_entry r s =
    (case read_snapshot_header r of
       (Inl e, r') \<Rightarrow> (fail e, r', s)
     | (Inr hdr, r') \<Rightarrow>
         (case snapshot_loop on_entry (unat (sh_count hdr)) r' s of
            (Inl e, r'', s') \<Rightarrow> (fail e, r'', s')
          | (Inr _, r'', s') \<Rightarrow> (ok (sh_generation hdr), r'', s')))"

subsection \<open>Invalidation batches\<close>

definition write_invalidation_op :: "InvalidationOp \<Rightarrow> bytes \<Rightarrow> bytes" where
  "write_invalidation_op p = writes
    [Writer_u8 (InvalidationKind_code (op_kind p)), Writer_string (op_path p),
     (if op_kind p = Upsert then write_attributes (op_attr p) else (\<lambda>out. out)),
     Writer_u8 (ChangeKind_code (op_change p)),
     (if is_move (op_change p) then Writer_u32 (op_cookie p) else (\<lambda>out. out))]"

definition write_invalidation :: "InvalidationBatch \<Rightarrow> bytes \<Rightarrow> bytes" where
  "write_invalidation b = writes
    (Writer_u64 (generation b) # Writer_varint (of_nat (length (ops b))) # map write_invalidation_op (ops b))"

definition read_invalidation_op :: "InvalidationOp rd" where
  "read_invalidation_op =
    rbind Reader_u8 (\<lambda>k. if k > InvalidationKind_code Rescan then rfail Corrupt else
    rbind Reader_string (\<lambda>path.
    rbind (if InvalidationKind_of k = Upsert then read_attributes else rret default_attributes) (\<lambda>attr.
    rbind Reader_u8 (\<lambda>change. if change > kMaxChangeKind then rfail Corrupt else
    rbind (if is_move (ChangeKind_of change) then Reader_u32 else rret 0) (\<lambda>cookie.
    rret \<lparr>op_kind = InvalidationKind_of k, op_path = path, op_attr = attr,
          op_change = ChangeKind_of change, op_cookie = cookie\<rparr>)))))"

definition read_invalidation :: "InvalidationBatch rd" where
  "read_invalidation =
    rbind Reader_u64 (\<lambda>gen. rbind Reader_varint (\<lambda>count.
    rcheck (unat count) Corrupt (rbind (read_n read_invalidation_op (unat count)) (\<lambda>os.
    rret \<lparr>generation = gen, ops = os\<rparr>))))"

subsection \<open>Requests and responses\<close>

definition write_read_request :: "ReadRequest \<Rightarrow> bytes \<Rightarrow> bytes" where
  "write_read_request q = writes [Writer_u64 (rr_offset q), Writer_u32 (rr_length q), Writer_string (rr_path q)]"

definition read_read_request :: "ReadRequest rd" where
  "read_read_request =
    rbind Reader_u64 (\<lambda>off. rbind Reader_u32 (\<lambda>len. rbind Reader_string (\<lambda>path.
    rret \<lparr>rr_path = path, rr_offset = off, rr_length = len\<rparr>)))"

definition write_read_response :: "ReadResponse \<Rightarrow> bytes \<Rightarrow> bytes" where
  "write_read_response p = writes [Writer_u64 (file_size p), Writer_blob (rs_data p)]"

definition read_read_response :: "ReadResponse rd" where
  "read_read_response =
    rbind Reader_u64 (\<lambda>size. rbind Reader_blob (\<lambda>data. rret \<lparr>file_size = size, rs_data = data\<rparr>))"

definition write_error :: "ErrorMessage \<Rightarrow> bytes \<Rightarrow> bytes" where
  "write_error e = writes [Writer_u32 (code e), Writer_string (detail e)]"

definition read_error :: "ErrorMessage rd" where
  "read_error = rbind Reader_u32 (\<lambda>c. rbind Reader_string (\<lambda>d. rret \<lparr>code = c, detail = d\<rparr>))"

definition write_write_request :: "WriteRequest \<Rightarrow> bytes \<Rightarrow> bytes" where
  "write_write_request q = writes [Writer_u64 (wr_offset q), Writer_string (wr_path q), Writer_blob (wr_data q)]"

definition read_write_request :: "WriteRequest rd" where
  "read_write_request =
    rbind Reader_u64 (\<lambda>off. rbind Reader_string (\<lambda>path. rbind Reader_blob (\<lambda>data.
    rret \<lparr>wr_path = path, wr_offset = off, wr_data = data\<rparr>)))"

definition write_write_response :: "WriteResponse \<Rightarrow> bytes \<Rightarrow> bytes" where
  "write_write_response p = writes [Writer_u64 (written p), Writer_u64 (wrs_generation p)]"

definition read_write_response :: "WriteResponse rd" where
  "read_write_response =
    rbind Reader_u64 (\<lambda>n. rbind Reader_u64 (\<lambda>g. rret \<lparr>written = n, wrs_generation = g\<rparr>))"

definition write_mutation_ack :: "MutationAck \<Rightarrow> bytes \<Rightarrow> bytes" where
  "write_mutation_ack a = writes [Writer_u64 (ack_generation a)]"

definition read_mutation_ack :: "MutationAck rd" where
  "read_mutation_ack = rbind Reader_u64 (\<lambda>g. rret \<lparr>ack_generation = g\<rparr>)"

definition write_create_request :: "CreateRequest \<Rightarrow> bytes \<Rightarrow> bytes" where
  "write_create_request q = writes [Writer_varint (ucast (cr_mode q)), Writer_string (cr_path q)]"

definition read_create_request :: "CreateRequest rd" where
  "read_create_request =
    rbind Reader_varint (\<lambda>m. if m > 0xFFFFFFFF then rfail Corrupt else
    rbind Reader_string (\<lambda>path. rret \<lparr>cr_path = path, cr_mode = ucast m\<rparr>))"

definition write_mkdir_request :: "MkdirRequest \<Rightarrow> bytes \<Rightarrow> bytes" where
  "write_mkdir_request q = writes [Writer_varint (ucast (mk_mode q)), Writer_string (mk_path q)]"

definition read_mkdir_request :: "MkdirRequest rd" where
  "read_mkdir_request =
    rbind Reader_varint (\<lambda>m. if m > 0xFFFFFFFF then rfail Corrupt else
    rbind Reader_string (\<lambda>path. rret \<lparr>mk_path = path, mk_mode = ucast m\<rparr>))"

definition write_path_request :: "PathRequest \<Rightarrow> bytes \<Rightarrow> bytes" where
  "write_path_request q = writes [Writer_string (pr_path q)]"

definition read_path_request :: "PathRequest rd" where
  "read_path_request = rbind Reader_string (\<lambda>path. rret \<lparr>pr_path = path\<rparr>)"

definition write_truncate_request :: "TruncateRequest \<Rightarrow> bytes \<Rightarrow> bytes" where
  "write_truncate_request q = writes [Writer_u64 (tr_size q), Writer_string (tr_path q)]"

definition read_truncate_request :: "TruncateRequest rd" where
  "read_truncate_request =
    rbind Reader_u64 (\<lambda>size. rbind Reader_string (\<lambda>path. rret \<lparr>tr_path = path, tr_size = size\<rparr>))"

definition write_rename_request :: "RenameRequest \<Rightarrow> bytes \<Rightarrow> bytes" where
  "write_rename_request q = writes [Writer_string (from_path q), Writer_string (to_path q)]"

definition read_rename_request :: "RenameRequest rd" where
  "read_rename_request =
    rbind Reader_string (\<lambda>f. rbind Reader_string (\<lambda>t. rret \<lparr>from_path = f, to_path = t\<rparr>))"

definition write_read_many_request :: "ReadManyRequest \<Rightarrow> bytes \<Rightarrow> bytes" where
  "write_read_many_request q = writes (Writer_varint (of_nat (length (paths q))) # map Writer_string (paths q))"

definition read_read_many_request :: "ReadManyRequest rd" where
  "read_read_many_request =
    rbind Reader_varint (\<lambda>count.
    rcheck (unat count) Corrupt
      (if unat count > kMaxReadManyPaths then rfail InvalidArgument
       else rbind (read_n Reader_string (unat count)) (\<lambda>ps. rret \<lparr>paths = ps\<rparr>)))"

definition write_read_many_item :: "ReadManyItem \<Rightarrow> bytes \<Rightarrow> bytes" where
  "write_read_many_item it = writes
    [Writer_u8 (if item_ok it then 1 else 0), if item_ok it then Writer_blob (item_data it) else (\<lambda>out. out)]"

definition write_read_many_response :: "ReadManyResponse \<Rightarrow> bytes \<Rightarrow> bytes" where
  "write_read_many_response p = writes (Writer_varint (of_nat (length (items p))) # map write_read_many_item (items p))"

definition read_read_many_item :: "ReadManyItem rd" where
  "read_read_many_item =
    rbind Reader_u8 (\<lambda>b. rbind (if b \<noteq> 0 then Reader_blob else rret []) (\<lambda>data.
    rret \<lparr>item_ok = (b \<noteq> 0), item_data = data\<rparr>))"

definition read_read_many_response :: "ReadManyResponse rd" where
  "read_read_many_response =
    rbind Reader_varint (\<lambda>count.
    rcheck (unat count) Corrupt
      (rbind (read_n read_read_many_item (unat count)) (\<lambda>its. rret \<lparr>items = its\<rparr>)))"

definition write_readlink_response :: "ReadlinkResponse \<Rightarrow> bytes \<Rightarrow> bytes" where
  "write_readlink_response p = writes [Writer_string (target p)]"

definition read_readlink_response :: "ReadlinkResponse rd" where
  "read_readlink_response = rbind Reader_string (\<lambda>t. rret \<lparr>target = t\<rparr>)"

end
