(* ===== verification/ProtocolProps.thy ===== *)
theory ProtocolProps
  imports Protocol
begin

text \<open>
  What the protocol promises: every message is a codec (read back exactly, prefix-free, refused when
  truncated, decoded without leaving the input), frames carry their header, and the decoders enforce
  the limits of the source.
\<close>

section \<open>Every message is a codec\<close>

text \<open>Sizes are \<open>std::size_t\<close>: 64 bits.\<close>

abbreviation fits :: "'a list \<Rightarrow> bool" where
  "fits s \<equiv> length s < 2 ^ 64"

lemma mode_fits [simp]: "\<not> (ucast (m :: u32) :: u64) > 0xFFFFFFFF"
proof -
  have "unat (ucast m :: u64) = unat m"
    using unat_word_less_2p [of m] by (simp add: unsigned_ucast_eq take_bit_nat_eq_self)
  then show ?thesis using unat_word_less_2p [of m] by (simp add: word_less_nat_alt)
qed

lemma ucast_mode [simp]: "ucast (ucast (m :: u32) :: u64) = m"
  by (rule bit_word_eqI) (simp add: bit_simps)

lemma carries_skip: "carries (rret x) (\<lambda>out. out) x"
  by (rule carriesI [where bs = "[]"]) (simp_all add: rret_def)

text \<open>The two shapes a decoder step takes, and its last line.\<close>

lemma carries_checked:
  assumes "carries m w x" and "\<not> bad x" and "carries (f x) (writes ws) y"
  shows "carries (rbind m (\<lambda>v. if bad v then rfail e else f v)) (writes (w # ws)) y"
  using carries_rbind [of m w x "\<lambda>v. if bad v then rfail e else f v"] assms by simp

lemma carries_done: "x = y \<Longrightarrow> carries (rret x) (writes []) y"
  by (simp add: carries_rret)

lemma carries_attributes [carried]: "carries read_attributes (write_attributes a) a"
  unfolding read_attributes_def write_attributes_def
  by (rule carries_checked [OF carries_u8], rule NodeKind_code_bound,
      rule carries_checked [OF carries_varint], rule mode_fits,
      rule carries_rbind [OF carries_varint], rule carries_rbind [OF carries_i64], rule carries_done) simp

definition hello_fits :: "Hello \<Rightarrow> bool" where
  "hello_fits h \<longleftrightarrow> fits (agent h) \<and> fits (nonce h) \<and> fits (proof_of h)"

lemma carries_hello: "hello_fits h \<Longrightarrow> carries read_hello (write_hello h) h"
  unfolding read_hello_def write_hello_def hello_fits_def
  by (intro carries_rbind [OF carries_u32] carries_rbind [OF carries_u64] carries_rbind [OF carries_string] carries_done)
    simp_all

lemma carries_snapshot_entry: "fits (e_name e) \<Longrightarrow> carries read_snapshot_entry (write_snapshot_entry e) e"
  unfolding read_snapshot_entry_def write_snapshot_entry_def
  by (intro carries_rbind [OF carries_u32] carries_rbind [OF carries_attributes] carries_rbind [OF carries_string] carries_done)
    simp_all

text \<open>
  An op carries attributes only for an upsert and a cookie only for a move; what the reader rebuilds
  is the op with the fields that did not travel reset to their defaults.
\<close>

definition wire_form :: "InvalidationOp \<Rightarrow> InvalidationOp" where
  "wire_form p = p\<lparr>op_attr := (if op_kind p = Upsert then op_attr p else default_attributes),
                  op_cookie := (if is_move (op_change p) then op_cookie p else 0)\<rparr>"

lemma carries_optional:
  "carries m w x \<Longrightarrow> carries (if b then m else rret y) (if b then w else (\<lambda>out. out)) (if b then x else y)"
  by (simp add: carries_skip)

lemma carries_invalidation_op:
  assumes "fits (op_path p)"
  shows "carries read_invalidation_op (write_invalidation_op p) (wire_form p)"
  unfolding read_invalidation_op_def write_invalidation_op_def
  by (rule carries_checked [OF carries_u8], rule InvalidationKind_code_bound, rule carries_rbind [OF carries_string [OF assms]],
      simp only: InvalidationKind_of_code, rule carries_rbind [OF carries_optional [OF carries_attributes]],
      rule carries_checked [OF carries_u8], rule ChangeKind_code_bound,
      simp only: ChangeKind_of_code, rule carries_rbind [OF carries_optional [OF carries_u32]], rule carries_done)
    (simp add: wire_form_def)

definition batch_fits :: "InvalidationBatch \<Rightarrow> bool" where
  "batch_fits b \<longleftrightarrow> fits (ops b) \<and> list_all (\<lambda>p. fits (op_path p)) (ops b)"

text \<open>A counted sequence is read back when every element takes at least one byte.\<close>

lemma carries_counted:
  assumes "\<And>x. x \<in> set xs \<Longrightarrow> carries m (w x) (g x)"
    and "\<And>x. x \<in> set xs \<Longrightarrow> w x [] \<noteq> []" and "fits xs"
    and k: "k (length xs) = rbind (read_n m (length xs)) (\<lambda>ys. rret (mk ys))"
  shows "carries (rbind Reader_varint (\<lambda>count. rcheck (unat count) e (k (unat count))))
    (writes (Writer_varint (of_nat (length xs)) # map w xs)) (mk (map g xs))"
proof (rule carries_rbind [OF carries_varint])
  have n: "unat (of_nat (length xs) :: u64) = length xs" using assms(3) by (rule unat_length)
  have "\<exists>bs. length bs \<ge> 1 \<and> (\<forall>out. w x out = out @ bs)" if "x \<in> set xs" for x
    using assms(2) [OF that] by (intro carries_bytes [OF assms(1) [OF that]]) (cases "w x []", auto)
  then have "length xs \<le> length (writes (map w xs) [])"
    using length_writes_map [of xs 1 w "[]"] by simp
  moreover have "carries (k (length xs)) (writes (map w xs)) (mk (map g xs))"
    unfolding k by (rule carries_map [OF carries_read_n [OF assms(1)]])
  ultimately show "carries (rcheck (unat (of_nat (length xs) :: u64)) e (k (unat (of_nat (length xs) :: u64))))
      (writes (map w xs)) (mk (map g xs))"
    unfolding n by (rule carries_rcheck [rotated])
qed

lemma carries_nonempty: "carries m w x \<Longrightarrow> isl (fst (m \<lparr>rin = [], rpos = 0\<rparr>)) \<Longrightarrow> w [] \<noteq> []"
proof (rule carriesE)
  fix bs
  assume "isl (fst (m \<lparr>rin = [], rpos = 0\<rparr>))" and w: "\<And>out. w out = out @ bs"
    and "\<And>pre rest. m \<lparr>rin = pre @ bs @ rest, rpos = length pre\<rparr> =
      (ok x, \<lparr>rin = pre @ bs @ rest, rpos = length pre + length bs\<rparr>)"
  from this(3) [of "[]" "[]"] this(1) w show "w [] \<noteq> []" by auto
qed

lemma carries_invalidation:
  assumes "batch_fits b"
  shows "carries read_invalidation (write_invalidation b) (b\<lparr>ops := map wire_form (ops b)\<rparr>)"
  unfolding read_invalidation_def write_invalidation_def
proof (rule carries_rbind [OF carries_u64])
  have "write_invalidation_op p [] \<noteq> []" if "fits (op_path p)" for p
    using carries_invalidation_op [OF that]
    by (rule carries_nonempty) (simp add: read_invalidation_op_def rbind_def Reader_u8_def remaining_def)
  moreover have b: "b\<lparr>ops := map wire_form (ops b)\<rparr> = \<lparr>generation = generation b, ops = map wire_form (ops b)\<rparr>"
    by (cases b) simp
  ultimately
  show "carries (rbind Reader_varint (\<lambda>count. rcheck (unat count) Corrupt
      (rbind (read_n read_invalidation_op (unat count)) (\<lambda>os. rret \<lparr>generation = generation b, ops = os\<rparr>))))
    (writes (Writer_varint (of_nat (length (ops b))) # map write_invalidation_op (ops b)))
    (b\<lparr>ops := map wire_form (ops b)\<rparr>)"
    unfolding b using carries_counted [where xs = "ops b" and m = read_invalidation_op and w = write_invalidation_op
        and g = wire_form and e = Corrupt and mk = "\<lambda>os. \<lparr>generation = generation b, ops = os\<rparr>"
        and k = "\<lambda>n. rbind (read_n read_invalidation_op n) (\<lambda>os. rret \<lparr>generation = generation b, ops = os\<rparr>)"] assms
    by (simp add: carries_invalidation_op batch_fits_def list_all_iff)
qed

lemma carries_read_request: "fits (rr_path q) \<Longrightarrow> carries read_read_request (write_read_request q) q"
  unfolding read_read_request_def write_read_request_def
  by (intro carries_rbind [OF carries_u64] carries_rbind [OF carries_u32] carries_rbind [OF carries_string] carries_done)
    simp_all

lemma carries_read_response: "fits (rs_data p) \<Longrightarrow> carries read_read_response (write_read_response p) p"
  unfolding read_read_response_def write_read_response_def
  by (intro carries_rbind [OF carries_u64] carries_rbind [OF carries_blob] carries_done) simp_all

lemma carries_error: "fits (detail e) \<Longrightarrow> carries read_error (write_error e) e"
  unfolding read_error_def write_error_def
  by (intro carries_rbind [OF carries_u32] carries_rbind [OF carries_string] carries_done) simp_all

lemma carries_write_request:
  "fits (wr_path q) \<and> fits (wr_data q) \<Longrightarrow> carries read_write_request (write_write_request q) q"
  unfolding read_write_request_def write_write_request_def
  by (intro carries_rbind [OF carries_u64] carries_rbind [OF carries_string] carries_rbind [OF carries_blob] carries_done)
    simp_all

lemma carries_write_response: "carries read_write_response (write_write_response p) p"
  unfolding read_write_response_def write_write_response_def
  by (intro carries_rbind [OF carries_u64] carries_done) simp_all

lemma carries_mutation_ack: "carries read_mutation_ack (write_mutation_ack a) a"
  unfolding read_mutation_ack_def write_mutation_ack_def
  by (intro carries_rbind [OF carries_u64] carries_done) simp_all

lemma carries_create_request: "fits (cr_path q) \<Longrightarrow> carries read_create_request (write_create_request q) q"
  unfolding read_create_request_def write_create_request_def
  by (rule carries_checked [OF carries_varint], rule mode_fits, rule carries_rbind [OF carries_string], simp,
      rule carries_done) simp

lemma carries_mkdir_request: "fits (mk_path q) \<Longrightarrow> carries read_mkdir_request (write_mkdir_request q) q"
  unfolding read_mkdir_request_def write_mkdir_request_def
  by (rule carries_checked [OF carries_varint], rule mode_fits, rule carries_rbind [OF carries_string], simp,
      rule carries_done) simp

lemma carries_path_request: "fits (pr_path q) \<Longrightarrow> carries read_path_request (write_path_request q) q"
  unfolding read_path_request_def write_path_request_def
  by (intro carries_rbind [OF carries_string] carries_done) simp_all

lemma carries_truncate_request: "fits (tr_path q) \<Longrightarrow> carries read_truncate_request (write_truncate_request q) q"
  unfolding read_truncate_request_def write_truncate_request_def
  by (intro carries_rbind [OF carries_u64] carries_rbind [OF carries_string] carries_done) simp_all

lemma carries_rename_request:
  "fits (from_path q) \<and> fits (to_path q) \<Longrightarrow> carries read_rename_request (write_rename_request q) q"
  unfolding read_rename_request_def write_rename_request_def
  by (intro carries_rbind [OF carries_string] carries_done) simp_all

lemma carries_readlink_response: "fits (target p) \<Longrightarrow> carries read_readlink_response (write_readlink_response p) p"
  unfolding read_readlink_response_def write_readlink_response_def
  by (intro carries_rbind [OF carries_string] carries_done) simp_all

definition read_many_request_fits :: "ReadManyRequest \<Rightarrow> bool" where
  "read_many_request_fits q \<longleftrightarrow> length (paths q) \<le> kMaxReadManyPaths \<and> list_all fits (paths q)"

lemma string_not_empty: "fits s \<Longrightarrow> Writer_string s [] \<noteq> []"
  by (rule carries_nonempty [OF carries_string])
    (simp_all add: Reader_string_def rbind_def Reader_varint_def varint_loop.simps)

lemma carries_read_many_request:
  assumes "read_many_request_fits q"
  shows "carries read_read_many_request (write_read_many_request q) q"
proof -
  have "carries read_read_many_request (write_read_many_request q) \<lparr>paths = map (\<lambda>s. s) (paths q)\<rparr>"
    unfolding read_read_many_request_def write_read_many_request_def
    using assms by (intro carries_counted string_not_empty)
      (auto simp: read_many_request_fits_def list_all_iff kMaxReadManyPaths_def intro: carries_string)
  then show ?thesis by (cases q) simp
qed

definition item_fits :: "ReadManyItem \<Rightarrow> bool" where
  "item_fits it \<longleftrightarrow> fits (item_data it) \<and> (item_ok it \<or> item_data it = [])"

lemma carries_read_many_item:
  assumes "item_fits it"
  shows "carries read_read_many_item (write_read_many_item it) it"
proof -
  let ?b = "if item_ok it then 1 else 0 :: u8"
  have b: "(?b \<noteq> 0) = item_ok it" by simp
  have opt: "carries (if ?b \<noteq> 0 then Reader_blob else rret [])
      (if item_ok it then Writer_blob (item_data it) else (\<lambda>out. out)) (item_data it)"
    using assms by (auto simp: item_fits_def carries_skip intro: carries_blob)
  show ?thesis
    unfolding read_read_many_item_def write_read_many_item_def
    by (rule carries_rbind [OF carries_u8], rule carries_rbind [OF opt], rule carries_done) simp
qed

definition read_many_response_fits :: "ReadManyResponse \<Rightarrow> bool" where
  "read_many_response_fits p \<longleftrightarrow> fits (items p) \<and> list_all item_fits (items p)"

lemma carries_read_many_response:
  assumes "read_many_response_fits p"
  shows "carries read_read_many_response (write_read_many_response p) p"
proof -
  have ne: "write_read_many_item it [] \<noteq> []" if "item_fits it" for it
    using carries_read_many_item [OF that]
    by (rule carries_nonempty) (simp add: read_read_many_item_def rbind_def Reader_u8_def remaining_def)
  have "carries read_read_many_response (write_read_many_response p) \<lparr>items = map (\<lambda>i. i) (items p)\<rparr>"
    unfolding read_read_many_response_def write_read_many_response_def
    using assms ne by (intro carries_counted)
      (auto simp: read_many_response_fits_def list_all_iff intro: carries_read_many_item)
  then show ?thesis by (cases p) simp
qed

section \<open>Decoders stay inside their input\<close>

lemma safe_messages [safe_intros]:
  "safe read_attributes" "safe read_hello" "safe read_snapshot_header"
  "safe read_read_request" "safe read_read_response" "safe read_error" "safe read_write_request"
  "safe read_write_response" "safe read_mutation_ack" "safe read_create_request" "safe read_mkdir_request"
  "safe read_path_request" "safe read_truncate_request" "safe read_rename_request"
  "safe read_read_many_request" "safe read_read_many_item" "safe read_readlink_response"
  unfolding read_attributes_def read_hello_def read_snapshot_header_def read_read_request_def
    read_read_response_def read_error_def read_write_request_def read_write_response_def
    read_mutation_ack_def read_create_request_def read_mkdir_request_def read_path_request_def
    read_truncate_request_def read_rename_request_def read_read_many_request_def read_read_many_item_def
    read_readlink_response_def
  by (intro safe_intros)+

lemma safe_messages2 [safe_intros]:
  "safe read_snapshot_entry" "safe read_invalidation_op" "safe read_read_many_response"
  unfolding read_snapshot_entry_def read_invalidation_op_def read_read_many_response_def
  by (intro safe_intros)+

lemma safe_invalidation [safe_intros]: "safe read_invalidation"
  unfolding read_invalidation_def by (intro safe_intros)

section \<open>The codecs of the protocol\<close>

interpretation hello: codec hello_fits write_hello read_hello
  by unfold_locales (auto intro: carries_hello safe_intros)

interpretation attributes: codec "\<lambda>_. True" write_attributes read_attributes
  by unfold_locales (auto intro: carries_attributes safe_intros)

interpretation snapshot_entry: codec "\<lambda>e. fits (e_name e)" write_snapshot_entry read_snapshot_entry
  by unfold_locales (auto intro: carries_snapshot_entry safe_intros)

definition batch_ok :: "InvalidationBatch \<Rightarrow> bool" where
  "batch_ok b \<longleftrightarrow> batch_fits b \<and> list_all (\<lambda>p. wire_form p = p) (ops b)"

interpretation invalidation: codec batch_ok write_invalidation read_invalidation
proof unfold_locales
  show "carries read_invalidation (write_invalidation b) b" if "batch_ok b" for b
  proof -
    have "map wire_form (ops b) = ops b" using that by (intro map_idI) (simp add: batch_ok_def list_all_iff)
    then show ?thesis using carries_invalidation [of b] that by (simp add: batch_ok_def)
  qed
qed (intro safe_intros)

interpretation read_request: codec "\<lambda>q. fits (rr_path q)" write_read_request read_read_request
  by unfold_locales (auto intro: carries_read_request safe_intros)

interpretation read_response: codec "\<lambda>p. fits (rs_data p)" write_read_response read_read_response
  by unfold_locales (auto intro: carries_read_response safe_intros)

interpretation error_message: codec "\<lambda>e. fits (detail e)" write_error read_error
  by unfold_locales (auto intro: carries_error safe_intros)

interpretation write_request: codec "\<lambda>q. fits (wr_path q) \<and> fits (wr_data q)" write_write_request read_write_request
  by unfold_locales (auto intro: carries_write_request safe_intros)

interpretation write_response: codec "\<lambda>_. True" write_write_response read_write_response
  by unfold_locales (auto intro: carries_write_response safe_intros)

interpretation mutation_ack: codec "\<lambda>_. True" write_mutation_ack read_mutation_ack
  by unfold_locales (auto intro: carries_mutation_ack safe_intros)

interpretation create_request: codec "\<lambda>q. fits (cr_path q)" write_create_request read_create_request
  by unfold_locales (auto intro: carries_create_request safe_intros)

interpretation mkdir_request: codec "\<lambda>q. fits (mk_path q)" write_mkdir_request read_mkdir_request
  by unfold_locales (auto intro: carries_mkdir_request safe_intros)

interpretation path_request: codec "\<lambda>q. fits (pr_path q)" write_path_request read_path_request
  by unfold_locales (auto intro: carries_path_request safe_intros)

interpretation truncate_request: codec "\<lambda>q. fits (tr_path q)" write_truncate_request read_truncate_request
  by unfold_locales (auto intro: carries_truncate_request safe_intros)

interpretation rename_request: codec "\<lambda>q. fits (from_path q) \<and> fits (to_path q)"
    write_rename_request read_rename_request
  by unfold_locales (auto intro: carries_rename_request safe_intros)

interpretation read_many_request: codec read_many_request_fits write_read_many_request read_read_many_request
  by unfold_locales (auto intro: carries_read_many_request safe_intros)

interpretation read_many_response: codec read_many_response_fits write_read_many_response read_read_many_response
  by unfold_locales (auto intro: carries_read_many_response safe_intros)

interpretation readlink_response: codec "\<lambda>p. fits (target p)" write_readlink_response read_readlink_response
  by unfold_locales (auto intro: carries_readlink_response safe_intros)

section \<open>Frames\<close>

definition header_bytes :: "FrameHeader \<Rightarrow> bytes" where
  "header_bytes h = put_le (ucast kMagic) 4 @ put_le (ucast kVersion) 2 @ put_le (ucast (ftype h)) 2 @
     put_le (ucast (flags h)) 4 @ put_le (ucast (payload_len h)) 4 @ put_le (request_id h) 8"

lemma length_header_bytes [simp]: "length (header_bytes h) = kHeaderSize"
  by (simp add: header_bytes_def kHeaderSize_def)

lemma put_at_next:
  "length a = p \<Longrightarrow> length bs = n \<Longrightarrow> put_at (a @ drop p out) p bs = (a @ bs) @ drop (p + n) out"
  by (simp add: put_at_def add.commute)

lemma encode_header_bytes:
  assumes "length out = kHeaderSize"
  shows "encode_header h out = header_bytes h"
proof -
  have "encode_header h out = header_bytes h @ drop 24 out"
    unfolding encode_header_def Let_def header_bytes_def
    using put_at_next [of "[]" 0 "put_le (ucast kMagic) 4" 4 out]
    by (simp add: put_at_next del: append_assoc)
  then show ?thesis using assms by (simp add: kHeaderSize_def)
qed

lemma ucast_small [simp]:
  "take_bit 32 (ucast (a :: u32) :: u64) = ucast a" "take_bit 16 (ucast (b :: u16) :: u64) = ucast b"
  by (auto simp: bit_eq_iff bit_simps dest: bit_imp_le_length)

lemma take_bit_u64 [simp]: "take_bit 64 (c :: u64) = c"
  using take_bit_length_eq [of c] by simp

lemma ucast_back [simp]: "ucast (ucast (b :: u16) :: u64) = b"
  by (rule bit_word_eqI) (simp add: bit_simps)

lemma decode_header_bytes:
  "decode_header (header_bytes h @ rest) = (if payload_len h > kMaxPayload then fail TooLarge else ok h)"
proof -
  have "\<lparr>ftype = ftype h, flags = flags h, payload_len = payload_len h, request_id = request_id h\<rparr> = h"
    by simp
  moreover have "length (header_bytes h @ rest) \<ge> kHeaderSize" by simp
  ultimately show ?thesis
    by (simp add: decode_header_def header_bytes_def get_put_le Let_def)
qed

lemma put_at_start: "length bs = n \<Longrightarrow> put_at (a @ x @ y) (length a) bs = a @ bs @ y" if "length x = n"
  using that by (simp add: put_at_def)

lemma write_frame_bytes:
  assumes "\<And>out. body out = out @ payload"
  shows "write_frame buf t rid body fl = buf @ header_bytes \<lparr>ftype = t, flags = fl,
      payload_len = of_nat (length payload), request_id = rid\<rparr> @ payload"
  by (simp add: write_frame_def assms Let_def encode_header_bytes put_at_start substr_def)

section \<open>Snapshots\<close>

lemma varint_bytes_pos: "1 \<le> length (varint_bytes v)"
  by (subst varint_bytes.simps) simp

lemma snapshot_entry_min: "16 \<le> length (write_snapshot_entry e [])"
  using varint_bytes_pos [of "ucast (mode (e_attr e))"] varint_bytes_pos [of "size_of (e_attr e)"]
    varint_bytes_pos [of "of_nat (length (e_name e))"]
  by (simp add: write_snapshot_entry_def write_attributes_def writes_def Writer_u8_def
      Writer_fixed Writer_varint_append Writer_string_eq Writer_raw_def)

lemma snapshot_loop_reads:
  assumes "list_all (\<lambda>e. fits (e_name e)) es"
  shows "snapshot_loop on_entry (length es)
      \<lparr>rin = pre @ writes (map write_snapshot_entry es) [] @ rest, rpos = length pre\<rparr> s =
    (ok (), \<lparr>rin = pre @ writes (map write_snapshot_entry es) [] @ rest,
            rpos = length pre + length (writes (map write_snapshot_entry es) [])\<rparr>, fold on_entry es s)"
  using assms
proof (induction es arbitrary: pre s)
  case Nil
  then show ?case by (simp add: writes_def)
next
  case (Cons e es)
  have "carries (read_n read_snapshot_entry (length es)) (writes (map write_snapshot_entry es)) (map (\<lambda>e. e) es)"
    using Cons.prems by (intro carries_read_n) (auto simp: list_all_iff intro: carries_snapshot_entry)
  then have w: "writes (map write_snapshot_entry (e # es)) [] =
      write_snapshot_entry e [] @ writes (map write_snapshot_entry es) []"
    using carries_appends [of _ _ _ "write_snapshot_entry e []"] by (simp only: list.map writes_Cons)
  then show ?case
    using Cons.IH [of "pre @ write_snapshot_entry e []" "on_entry e s"] Cons.prems
      snapshot_entry.round_trip [of e pre "writes (map write_snapshot_entry es) [] @ rest"]
    by (simp add: add.assoc)
qed

definition write_snapshot :: "u64 \<Rightarrow> SnapshotEntry list \<Rightarrow> bytes \<Rightarrow> bytes" where
  "write_snapshot gen es = writes (write_snapshot_header gen (of_nat (length es)) # map write_snapshot_entry es)"

lemma unat_count_16:
  assumes "n < 2 ^ 32"
  shows "unat (ucast (of_nat n :: u32) * 16 :: u64) = n * 16"
proof -
  have "(ucast (of_nat n :: u32) :: u64) = of_nat n"
    using assms by (simp add: word_unat_eq_iff unsigned_ucast_eq unat_of_nat take_bit_nat_eq_self)
  then have "(ucast (of_nat n :: u32) * 16 :: u64) = of_nat (n * 16)" by simp
  then show ?thesis using assms by (simp only: unat_of_nat) simp
qed

lemma read_snapshot_header_reads:
  assumes "n < 2 ^ 32" and "16 * n \<le> length body"
  shows "read_snapshot_header \<lparr>rin = pre @ write_snapshot_header gen (of_nat n) [] @ body, rpos = length pre\<rparr> =
    (ok \<lparr>sh_generation = gen, sh_count = of_nat n\<rparr>,
     \<lparr>rin = pre @ write_snapshot_header gen (of_nat n) [] @ body,
      rpos = length (pre @ write_snapshot_header gen (of_nat n) [])\<rparr>)"
proof -
  have "carries (rbind Reader_u64 (\<lambda>gen. rbind Reader_u32 (\<lambda>count. rret (gen, count))))
      (write_snapshot_header gen (of_nat n)) (gen, of_nat n)"
    unfolding write_snapshot_header_def
    by (intro carries_rbind [OF carries_u64] carries_rbind [OF carries_u32] carries_rret)
  then obtain bs where w: "\<And>out. write_snapshot_header gen (of_nat n) out = out @ bs" and
    r: "\<And>pre rest. rbind Reader_u64 (\<lambda>gen. rbind Reader_u32 (\<lambda>count. rret (gen, count)))
        \<lparr>rin = pre @ bs @ rest, rpos = length pre\<rparr> =
      (ok (gen, of_nat n), \<lparr>rin = pre @ bs @ rest, rpos = length pre + length bs\<rparr>)"
    by (rule carriesE) blast
  have "read_snapshot_header r0 = rbind (rbind Reader_u64 (\<lambda>gen. rbind Reader_u32 (\<lambda>count. rret (gen, count))))
      (\<lambda>(gen, count). rcheck (unat (ucast count * 16 :: u64)) Corrupt
        (rret \<lparr>sh_generation = gen, sh_count = count\<rparr>)) r0" for r0
    by (auto simp: read_snapshot_header_def rbind_def rret_def split: sum.split prod.split)
  then show ?thesis
    using assms by (simp add: w rbind_def [of "rbind Reader_u64 _"] r rcheck_def rret_def remaining_def unat_count_16)
qed

lemma read_snapshot_reads:
  assumes "length es < 2 ^ 32" and "list_all (\<lambda>e. fits (e_name e)) es"
  shows "read_snapshot on_entry \<lparr>rin = pre @ write_snapshot gen es [] @ rest, rpos = length pre\<rparr> s =
    (ok gen, \<lparr>rin = pre @ write_snapshot gen es [] @ rest,
             rpos = length pre + length (write_snapshot gen es [])\<rparr>, fold on_entry es s)"
proof -
  let ?h = "write_snapshot_header gen (of_nat (length es)) []" and ?b = "writes (map write_snapshot_entry es) []"
  have c: "carries (read_n read_snapshot_entry (length es)) (writes (map write_snapshot_entry es)) (map (\<lambda>e. e) es)"
    using assms(2) by (intro carries_read_n) (auto simp: list_all_iff intro: carries_snapshot_entry)
  have w: "write_snapshot gen es [] = ?h @ ?b"
    unfolding write_snapshot_def writes_Cons using c by (rule carries_appends)
  have "\<exists>bs. 16 \<le> length bs \<and> (\<forall>out. write_snapshot_entry e out = out @ bs)" if "e \<in> set es" for e
    using snapshot_entry_min [of e] assms(2) that
    by (intro carries_bytes [OF carries_snapshot_entry]) (simp_all add: list_all_iff)
  then have "16 * length es \<le> length ?b" using length_writes_map [of es 16 write_snapshot_entry "[]"] by simp
  then show ?thesis
    using read_snapshot_header_reads [OF assms(1), of "?b @ rest" pre gen] assms(1)
      snapshot_loop_reads [OF assms(2), of on_entry "pre @ ?h" rest s]
    by (simp add: read_snapshot_def w unat_of_nat_small add.assoc)
qed

section \<open>Bounds and canonical headers\<close>

lemma varint_bytes_length: "unat v < 2 ^ (7 * Suc n) \<Longrightarrow> length (varint_bytes v) \<le> Suc n"
proof (induction v arbitrary: n rule: varint_bytes.induct)
  case (1 v)
  show ?case
  proof (cases "0x80 \<le> v")
    case True
    then have big: "2 ^ 7 \<le> unat v" by (simp add: word_le_nat_alt)
    then obtain k where n: "n = Suc k" using 1(2) by (cases n) auto
    have "unat (drop_bit 7 v) = unat v div 2 ^ 7" by (simp add: drop_bit_eq_div unat_div_distrib)
    moreover have "(2::nat) ^ (7 * Suc n) = 2 ^ (7 * Suc k) * 2 ^ 7" by (simp add: n power_add)
    ultimately have "unat (drop_bit 7 v) < 2 ^ (7 * Suc k)"
      using 1(2) by (simp only: less_mult_imp_div_less)
    from 1(1) [OF True this] n True show ?thesis by (subst varint_bytes.simps) simp
  next
    case False
    then show ?thesis by (subst varint_bytes.simps) simp
  qed
qed

lemma bit_get_le: "n \<le> 8 \<Longrightarrow> bit (get_le p n) i \<longleftrightarrow> i < 8 * n \<and> bit (p ! (i div 8)) (i mod 8)"
proof (induction n)
  case 0
  then show ?case by (simp add: get_le_def)
next
  case (Suc n)
  have "bit (push_bit (8 * n) (ucast (p ! n)) :: u64) i \<longleftrightarrow> 8 * n \<le> i \<and> i < 8 * Suc n \<and> bit (p ! (i div 8)) (i mod 8)"
  proof (cases "8 * n \<le> i \<and> i < 8 * Suc n")
    case True
    then obtain d where "i = 8 * n + d" "d < 8" by (metis le_Suc_ex mult_Suc_right nat_add_left_cancel_less add.commute)
    then have "i div 8 = n" "i mod 8 = i - 8 * n" by simp_all
    then show ?thesis using True Suc.prems by (auto simp: bit_simps)
  next
    case False
    then show ?thesis by (auto simp: bit_simps dest: bit_imp_le_length)
  qed
  then show ?case using Suc by (auto simp: get_le_Suc bit_or_iff)
qed

lemma put_get_le:
  assumes "n \<le> 8" and "n \<le> length p"
  shows "put_le (get_le p n) n = take n p"
proof (rule nth_equalityI)
  fix j
  assume j: "j < length (put_le (get_le p n) n)"
  have "(ucast (drop_bit (8 * j) (get_le p n) AND 0xFF) :: u8) = p ! j"
  proof (rule bit_word_eqI)
    fix i
    assume i: "i < LENGTH(8)"
    have m: "(0xFF :: u64) = mask 8" by (simp add: mask_eq_exp_minus_1)
    show "bit (ucast (drop_bit (8 * j) (get_le p n) AND 0xFF) :: u8) i = bit (p ! j) i"
      unfolding m using i j assms by (simp add: bit_simps bit_get_le)
  qed
  then show "put_le (get_le p n) n ! j = take n p ! j" using j by (simp add: put_le_def)
qed (use assms in simp)

lemma get_le_narrow: "n \<le> 8 \<Longrightarrow> LENGTH('a::len) = 8 * n \<Longrightarrow> (ucast (ucast (get_le p n) :: 'a word) :: u64) = get_le p n"
  by (rule bit_word_eqI) (auto simp: bit_simps bit_get_le)

lemma header_bytes_decoded:
  assumes "decode_header p = ok h"
  shows "take kHeaderSize p = header_bytes h" and "payload_len h \<le> kMaxPayload" and "kHeaderSize \<le> length p"
proof -
  have len: "24 \<le> length p" and magic: "get_le p 4 = ucast kMagic" and ver: "get_le (drop 4 p) 2 = ucast kVersion"
    and h: "h = \<lparr>ftype = ucast (get_le (drop 6 p) 2), flags = ucast (get_le (drop 8 p) 4),
        payload_len = ucast (get_le (drop 12 p) 4), request_id = get_le (drop 16 p) 8\<rparr>"
    and max: "payload_len h \<le> kMaxPayload"
    using assms by (auto simp: decode_header_def kHeaderSize_def Let_def not_less split: if_splits)
  show "payload_len h \<le> kMaxPayload" "kHeaderSize \<le> length p" using max len by (simp_all add: kHeaderSize_def)
  have "header_bytes h = take 4 p @ take 2 (drop 4 p) @ take 2 (drop 6 p) @ take 4 (drop 8 p) @
      take 4 (drop 12 p) @ take 8 (drop 16 p)"
    unfolding header_bytes_def magic [symmetric] ver [symmetric] using len
    by (simp add: h get_le_narrow put_get_le)
  moreover have "take (a + b) p = take a p @ take b (drop a p)" for a b by (rule take_add)
  from this [of 16 8] this [of 12 4] this [of 8 4] this [of 6 2] this [of 4 2] have
    "take 24 p = take 4 p @ take 2 (drop 4 p) @ take 2 (drop 6 p) @ take 4 (drop 8 p) @
      take 4 (drop 12 p) @ take 8 (drop 16 p)" by simp
  ultimately show "take kHeaderSize p = header_bytes h" by (simp add: kHeaderSize_def)
qed

section \<open>Properties\<close>

text \<open>
  A varint written by \<open>Writer::varint\<close> takes between one and ten bytes, and \<open>Reader::varint\<close> reads it
  back to the same 64-bit value wherever it stands in the input and whatever follows it, moving the
  position exactly past it.
\<close>

theorem varint_roundtrip:
  "Reader_varint \<lparr>rin = pre @ Writer_varint v [] @ rest, rpos = length pre\<rparr> =
     (ok v, \<lparr>rin = pre @ Writer_varint v [] @ rest, rpos = length pre + length (Writer_varint v [])\<rparr>) \<and>
   length (Writer_varint v []) \<in> {1..10}"
proof -
  have "unat v < 2 ^ (7 * Suc 9)" using unat_word_less_2p [of v] by simp
  then show ?thesis
    using varint.round_trip [of pre v rest] varint_bytes_length [of v 9] varint_bytes_pos [of v]
    by (simp add: Writer_varint_append)
qed

text \<open>
  \<open>write_frame\<close> leaves the buffer before it alone, and \<open>decode_header\<close> on the frame it wrote gives back
  the message type, flags and request id with the exact payload length, as long as the payload is
  within \<open>kMaxPayload\<close>; the payload follows the 24 header bytes unchanged.
\<close>

theorem frame_roundtrip:
  assumes "\<And>out. body out = out @ payload" and "length payload \<le> unat kMaxPayload"
  shows "\<exists>frame. write_frame buf t rid body fl = buf @ frame \<and>
    drop kHeaderSize frame = payload \<and>
    decode_header (frame @ rest) =
      ok \<lparr>ftype = t, flags = fl, payload_len = of_nat (length payload), request_id = rid\<rparr>"
proof -
  let ?h = "\<lparr>ftype = t, flags = fl, payload_len = of_nat (length payload) :: u32, request_id = rid\<rparr>"
  have "\<not> payload_len ?h > kMaxPayload"
    using assms(2) by (simp add: word_less_nat_alt unat_of_nat kMaxPayload_def not_less)
  then have "decode_header ((header_bytes ?h @ payload) @ rest) = ok ?h"
    using decode_header_bytes [of ?h "payload @ rest"] by simp
  then show ?thesis using write_frame_bytes [OF assms(1), of buf t rid fl]
    by (intro exI [of _ "header_bytes ?h @ payload"]) simp
qed

theorem frame_roundtrip_witness:
  "\<exists>frame. write_frame [9] MsgPing 5 (\<lambda>out. out @ [1, 2]) 0 = [9] @ frame \<and>
    drop kHeaderSize frame = [1, 2] \<and>
    decode_header (frame @ []) = ok \<lparr>ftype = MsgPing, flags = 0, payload_len = of_nat (length [1 :: u8, 2]), request_id = 5\<rparr>"
  by (rule frame_roundtrip) (simp_all add: kMaxPayload_def)

text \<open>
  \<open>decode_header\<close> accepts exactly the headers \<open>encode_header\<close> produces: it answers \<open>h\<close> if and only if
  the input starts with the encoding of \<open>h\<close> and the announced payload is at most 64 MiB.  So bad magic,
  another protocol version, an oversized payload and a short buffer are all refused.
\<close>

theorem decode_header_iff:
  "decode_header p = ok h \<longleftrightarrow>
    (\<exists>rest. p = encode_header h (replicate kHeaderSize 0) @ rest) \<and> payload_len h \<le> kMaxPayload"
proof
  assume "decode_header p = ok h"
  from header_bytes_decoded [OF this] show
    "(\<exists>rest. p = encode_header h (replicate kHeaderSize 0) @ rest) \<and> payload_len h \<le> kMaxPayload"
    by (metis append_take_drop_id encode_header_bytes length_replicate)
next
  assume "(\<exists>rest. p = encode_header h (replicate kHeaderSize 0) @ rest) \<and> payload_len h \<le> kMaxPayload"
  then show "decode_header p = ok h"
    by (auto simp: encode_header_bytes decode_header_bytes)
qed

text \<open>
  All framed messages together: the frame type selects the reader, as the dispatchers of the server
  and the client do.
\<close>

datatype Message =
    HelloMsg Hello | HelloAckMsg Hello | AuthMsg Hello
  | InvalidationMsg InvalidationBatch
  | ReadRequestMsg ReadRequest | ReadResponseMsg ReadResponse
  | ErrorMsg ErrorMessage
  | WriteRequestMsg WriteRequest | WriteResponseMsg WriteResponse
  | CreateRequestMsg CreateRequest | CreateResponseMsg Attributes MutationAck
  | MkdirRequestMsg MkdirRequest | UnlinkRequestMsg PathRequest | RmdirRequestMsg PathRequest
  | RenameRequestMsg RenameRequest | TruncateRequestMsg TruncateRequest
  | OkMsg MutationAck
  | ReadManyRequestMsg ReadManyRequest | ReadManyResponseMsg ReadManyResponse
  | ReadlinkRequestMsg PathRequest | ReadlinkResponseMsg ReadlinkResponse

fun message_type :: "Message \<Rightarrow> MsgType" where
  "message_type (HelloMsg _) = MsgHello"
| "message_type (HelloAckMsg _) = MsgHelloAck"
| "message_type (AuthMsg _) = MsgAuth"
| "message_type (InvalidationMsg _) = MsgInvalidation"
| "message_type (ReadRequestMsg _) = MsgReadRequest"
| "message_type (ReadResponseMsg _) = MsgReadResponse"
| "message_type (ErrorMsg _) = MsgError"
| "message_type (WriteRequestMsg _) = MsgWriteRequest"
| "message_type (WriteResponseMsg _) = MsgWriteResponse"
| "message_type (CreateRequestMsg _) = MsgCreateRequest"
| "message_type (CreateResponseMsg _ _) = MsgCreateResponse"
| "message_type (MkdirRequestMsg _) = MsgMkdirRequest"
| "message_type (UnlinkRequestMsg _) = MsgUnlinkRequest"
| "message_type (RmdirRequestMsg _) = MsgRmdirRequest"
| "message_type (RenameRequestMsg _) = MsgRenameRequest"
| "message_type (TruncateRequestMsg _) = MsgTruncateRequest"
| "message_type (OkMsg _) = MsgOk"
| "message_type (ReadManyRequestMsg _) = MsgReadManyRequest"
| "message_type (ReadManyResponseMsg _) = MsgReadManyResponse"
| "message_type (ReadlinkRequestMsg _) = MsgReadlinkRequest"
| "message_type (ReadlinkResponseMsg _) = MsgReadlinkResponse"

fun write_message :: "Message \<Rightarrow> bytes \<Rightarrow> bytes" where
  "write_message (HelloMsg h) = write_hello h"
| "write_message (HelloAckMsg h) = write_hello h"
| "write_message (AuthMsg h) = write_hello h"
| "write_message (InvalidationMsg b) = write_invalidation b"
| "write_message (ReadRequestMsg q) = write_read_request q"
| "write_message (ReadResponseMsg p) = write_read_response p"
| "write_message (ErrorMsg e) = write_error e"
| "write_message (WriteRequestMsg q) = write_write_request q"
| "write_message (WriteResponseMsg p) = write_write_response p"
| "write_message (CreateRequestMsg q) = write_create_request q"
| "write_message (CreateResponseMsg a g) = writes [write_attributes a, write_mutation_ack g]"
| "write_message (MkdirRequestMsg q) = write_mkdir_request q"
| "write_message (UnlinkRequestMsg q) = write_path_request q"
| "write_message (RmdirRequestMsg q) = write_path_request q"
| "write_message (RenameRequestMsg q) = write_rename_request q"
| "write_message (TruncateRequestMsg q) = write_truncate_request q"
| "write_message (OkMsg g) = write_mutation_ack g"
| "write_message (ReadManyRequestMsg q) = write_read_many_request q"
| "write_message (ReadManyResponseMsg p) = write_read_many_response p"
| "write_message (ReadlinkRequestMsg q) = write_path_request q"
| "write_message (ReadlinkResponseMsg p) = write_readlink_response p"

abbreviation rmap :: "('a \<Rightarrow> 'b) \<Rightarrow> 'a rd \<Rightarrow> 'b rd" where
  "rmap f m \<equiv> rbind m (\<lambda>x. rret (f x))"

definition read_message :: "MsgType \<Rightarrow> Message rd" where
  "read_message t =
    (if t = MsgHello then rmap HelloMsg read_hello
     else if t = MsgHelloAck then rmap HelloAckMsg read_hello
     else if t = MsgAuth then rmap AuthMsg read_hello
     else if t = MsgInvalidation then rmap InvalidationMsg read_invalidation
     else if t = MsgReadRequest then rmap ReadRequestMsg read_read_request
     else if t = MsgReadResponse then rmap ReadResponseMsg read_read_response
     else if t = MsgError then rmap ErrorMsg read_error
     else if t = MsgWriteRequest then rmap WriteRequestMsg read_write_request
     else if t = MsgWriteResponse then rmap WriteResponseMsg read_write_response
     else if t = MsgCreateRequest then rmap CreateRequestMsg read_create_request
     else if t = MsgCreateResponse then
       rbind read_attributes (\<lambda>a. rbind read_mutation_ack (\<lambda>g. rret (CreateResponseMsg a g)))
     else if t = MsgMkdirRequest then rmap MkdirRequestMsg read_mkdir_request
     else if t = MsgUnlinkRequest then rmap UnlinkRequestMsg read_path_request
     else if t = MsgRmdirRequest then rmap RmdirRequestMsg read_path_request
     else if t = MsgRenameRequest then rmap RenameRequestMsg read_rename_request
     else if t = MsgTruncateRequest then rmap TruncateRequestMsg read_truncate_request
     else if t = MsgOk then rmap OkMsg read_mutation_ack
     else if t = MsgReadManyRequest then rmap ReadManyRequestMsg read_read_many_request
     else if t = MsgReadManyResponse then rmap ReadManyResponseMsg read_read_many_response
     else if t = MsgReadlinkRequest then rmap ReadlinkRequestMsg read_path_request
     else if t = MsgReadlinkResponse then rmap ReadlinkResponseMsg read_readlink_response
     else rfail ProtocolError)"

fun message_fits :: "Message \<Rightarrow> bool" where
  "message_fits (HelloMsg h) = hello_fits h"
| "message_fits (HelloAckMsg h) = hello_fits h"
| "message_fits (AuthMsg h) = hello_fits h"
| "message_fits (InvalidationMsg b) = batch_ok b"
| "message_fits (ReadRequestMsg q) = fits (rr_path q)"
| "message_fits (ReadResponseMsg p) = fits (rs_data p)"
| "message_fits (ErrorMsg e) = fits (detail e)"
| "message_fits (WriteRequestMsg q) = (fits (wr_path q) \<and> fits (wr_data q))"
| "message_fits (CreateRequestMsg q) = fits (cr_path q)"
| "message_fits (MkdirRequestMsg q) = fits (mk_path q)"
| "message_fits (UnlinkRequestMsg q) = fits (pr_path q)"
| "message_fits (RmdirRequestMsg q) = fits (pr_path q)"
| "message_fits (RenameRequestMsg q) = (fits (from_path q) \<and> fits (to_path q))"
| "message_fits (TruncateRequestMsg q) = fits (tr_path q)"
| "message_fits (ReadManyRequestMsg q) = read_many_request_fits q"
| "message_fits (ReadManyResponseMsg p) = read_many_response_fits p"
| "message_fits (ReadlinkRequestMsg q) = fits (pr_path q)"
| "message_fits (ReadlinkResponseMsg p) = fits (target p)"
| "message_fits _ = True"

lemmas message_carried =
  hello.carried invalidation.carried read_request.carried read_response.carried error_message.carried
  write_request.carried write_response.carried create_request.carried mkdir_request.carried
  path_request.carried rename_request.carried truncate_request.carried mutation_ack.carried
  read_many_request.carried read_many_response.carried readlink_response.carried

lemma carries_message:
  assumes "message_fits m"
  shows "carries (read_message (message_type m)) (write_message m) m"
proof (cases m)
  case (CreateResponseMsg a g)
  have "carries (rbind read_attributes (\<lambda>a. rbind read_mutation_ack (\<lambda>g. rret (CreateResponseMsg a g))))
      (writes [write_attributes a, write_mutation_ack g]) (CreateResponseMsg a g)"
    by (intro carries_rbind [OF carries_attributes] carries_rbind [OF carries_mutation_ack] carries_done) simp
  then show ?thesis by (simp add: CreateResponseMsg read_message_def)
qed (use assms in \<open>auto simp: read_message_def intro!: carries_map intro: message_carried\<close>)

lemma safe_message: "safe (read_message t)"
  unfolding read_message_def by (intro safe_intros)



text \<open>
  An invalidation batch of any ops (not only well-formed ones) is read back with its generation and
  its ops in order, each in wire form: kind, path, change and, for an upsert, the attributes survive,
  and the cookie survives for the two halves of a move.
\<close>

theorem invalidation_roundtrip:
  assumes "batch_fits b"
  shows "read_invalidation \<lparr>rin = pre @ write_invalidation b [] @ rest, rpos = length pre\<rparr> =
    (ok (b\<lparr>ops := map wire_form (ops b)\<rparr>),
     \<lparr>rin = pre @ write_invalidation b [] @ rest, rpos = length pre + length (write_invalidation b [])\<rparr>)"
  using carries_invalidation [OF assms] by (elim carriesE) simp

theorem invalidation_roundtrip_witness:
  "fst (read_invalidation \<lparr>rin = [] @ write_invalidation \<lparr>generation = 3, ops =
      [\<lparr>op_kind = Remove, op_path = [97], op_attr = default_attributes, op_change = MovedFrom, op_cookie = 6\<rparr>]\<rparr> [] @ [],
      rpos = length ([] :: bytes)\<rparr>) =
    ok \<lparr>generation = 3, ops =
      [\<lparr>op_kind = Remove, op_path = [97], op_attr = default_attributes, op_change = MovedFrom, op_cookie = 6\<rparr>]\<rparr>"
  by (subst invalidation_roundtrip) (simp_all add: batch_fits_def wire_form_def)

text \<open>
  A snapshot payload of fewer than \<open>2^32\<close> entries passes the reader's plausibility check on the
  count, and \<open>read_snapshot\<close> hands every entry to its callback exactly once and in order, answers the
  generation that was written and stops right behind the last entry.
\<close>

theorem snapshot_roundtrip:
  assumes "length es < 2 ^ 32" and "list_all (\<lambda>e. fits (e_name e)) es"
  shows "read_snapshot (\<lambda>e acc. acc @ [e])
      \<lparr>rin = pre @ writes (write_snapshot_header gen (of_nat (length es)) # map write_snapshot_entry es) [] @ rest,
       rpos = length pre\<rparr> [] =
    (ok gen,
     \<lparr>rin = pre @ writes (write_snapshot_header gen (of_nat (length es)) # map write_snapshot_entry es) [] @ rest,
      rpos = length pre + length (writes (write_snapshot_header gen (of_nat (length es)) # map write_snapshot_entry es) [])\<rparr>,
     es)"
proof -
  have "fold (\<lambda>e acc. acc @ [e]) es acc = acc @ es" for acc by (induction es arbitrary: acc) auto
  then show ?thesis using read_snapshot_reads [OF assms, of "\<lambda>e acc. acc @ [e]" pre gen rest "[]"]
    by (simp add: write_snapshot_def)
qed

theorem snapshot_roundtrip_witness:
  "fst (read_snapshot (\<lambda>e acc. acc @ [e])
      \<lparr>rin = [] @ writes (write_snapshot_header 9 (of_nat (length
          [\<lparr>e_parent = 0, e_name = [], e_attr = default_attributes\<rparr>])) # map write_snapshot_entry
          [\<lparr>e_parent = 0, e_name = [], e_attr = default_attributes\<rparr>]) [] @ [], rpos = length ([] :: bytes)\<rparr> []) = ok 9"
  by (subst snapshot_roundtrip) simp_all


text \<open>
  A message cut short is never taken for a message: every strict prefix of an encoded payload
  is refused with an error by the reader of its type.
\<close>

theorem truncated_message_refused:
  assumes "message_fits m" and "k < length (write_message m [])"
  shows "isl (fst (read_message (message_type m) (Reader_init (take k (write_message m [])))))"
  using carries_message [OF assms(1)]
proof (rule carriesE)
  fix bs
  assume w: "\<And>out. write_message m out = out @ bs"
    and s: "\<And>pre k. k < length bs \<Longrightarrow> isl (fst (read_message (message_type m) \<lparr>rin = pre @ take k bs, rpos = length pre\<rparr>))"
  show ?thesis using s [of k "[]"] assms(2) w by (simp add: Reader_init_def)
qed

theorem truncated_message_refused_witness:
  "isl (fst (read_message (message_type (OkMsg \<lparr>ack_generation = 5\<rparr>))
     (Reader_init (take 7 (write_message (OkMsg \<lparr>ack_generation = 5\<rparr>) [])))))"
  by (rule truncated_message_refused) (simp_all add: write_mutation_ack_def writes_def Writer_fixed)

end
