(* ===== verification/FrameChannel.thy ===== *)
theory FrameChannel
  imports Socket ProtocolProps
begin

text \<open>
  \<open>src/net/frame_channel.hpp\<close>, \<open>frame_channel.cpp\<close>: whole frames over a stream socket.  The send buffer of
  the class is a scratch area; a frame that cannot be sent leaves a prefix of its bytes on the stream.
  The properties: what one side sends the other side receives, frame by frame and in order, however the
  kernel cuts the stream into pieces; and a received frame never exceeds the limit in force.
\<close>

section \<open>The channel\<close>

record Frame =
  fr_header :: FrameHeader
  fr_payload :: bytes

record ChannelStats =
  frames_sent :: u64
  bytes_sent :: u64
  frames_received :: u64
  bytes_received :: u64

record FrameChannel =
  sock :: Socket
  ch_stats :: ChannelStats
  max_payload :: u32
  frame_timeout :: int

definition FrameChannel_init :: "Socket \<Rightarrow> FrameChannel" where
  "FrameChannel_init s =
    \<lparr>sock = s, ch_stats = \<lparr>frames_sent = 0, bytes_sent = 0, frames_received = 0, bytes_received = 0\<rparr>,
     max_payload = kMaxPayload, frame_timeout = 0\<rparr>"

definition set_receive_limits :: "u32 \<Rightarrow> int \<Rightarrow> FrameChannel \<Rightarrow> FrameChannel" where
  "set_receive_limits mp ft ch = ch\<lparr>max_payload := mp, frame_timeout := ft\<rparr>"

text \<open>The common end of both senders: hand the bytes to the socket, count what has gone out.\<close>

definition count_sent :: "bytes \<Rightarrow> FrameChannel \<Rightarrow> unit result \<times> FrameChannel" where
  "count_sent buf ch =
    (case send_all buf (sock ch) of
       (Inl e, s) \<Rightarrow> (fail e, ch\<lparr>sock := s\<rparr>)
     | (Inr _, s) \<Rightarrow>
         (ok (), ch\<lparr>sock := s, ch_stats := (ch_stats ch)\<lparr>frames_sent := frames_sent (ch_stats ch) + 1,
            bytes_sent := bytes_sent (ch_stats ch) + of_nat (length buf)\<rparr>\<rparr>))"

definition send :: "MsgType \<Rightarrow> u64 \<Rightarrow> bytes \<Rightarrow> u32 \<Rightarrow> FrameChannel \<Rightarrow> unit result \<times> FrameChannel" where
  "send type rid payload fl ch =
    (if length payload > unat kMaxPayload then (fail TooLarge, ch)
     else
       let h = \<lparr>ftype = type, flags = fl, payload_len = of_nat (length payload), request_id = rid\<rparr>;
           buf = encode_header h (replicate kHeaderSize 0) @ payload
       in count_sent buf ch)"

definition send_raw :: "bytes \<Rightarrow> FrameChannel \<Rightarrow> unit result \<times> FrameChannel" where
  "send_raw frames ch =
    (if length frames > kHeaderSize + unat kMaxPayload then (fail TooLarge, ch) else count_sent frames ch)"

definition send_with :: "MsgType \<Rightarrow> u64 \<Rightarrow> (bytes \<Rightarrow> bytes) \<Rightarrow> FrameChannel \<Rightarrow> unit result \<times> FrameChannel" where
  "send_with type rid body ch = send_raw (write_frame [] type rid body 0) ch"

text \<open>\<open>receive\<close> reads through \<open>recv\<close>, which is bounded by a deadline when a frame timeout is set.\<close>

definition recv_bytes :: "bool \<Rightarrow> int \<Rightarrow> nat \<Rightarrow> Socket \<Rightarrow> bytes result \<times> Socket" where
  "recv_bytes bounded deadline n s =
    (if bounded then recv_exact_until n [] deadline s else recv_exact n [] s)"

definition receive :: "FrameChannel \<Rightarrow> Frame result \<times> FrameChannel" where
  "receive ch =
    (let bounded = frame_timeout ch > 0;
         (now, s0) = clock_now (sock ch);
         deadline = now + frame_timeout ch * 1000000
     in case recv_bytes bounded deadline kHeaderSize s0 of
          (Inl e, s1) \<Rightarrow> (fail e, ch\<lparr>sock := s1\<rparr>)
        | (Inr hdr, s1) \<Rightarrow>
            (case decode_header hdr of
               Inl e \<Rightarrow> (fail e, ch\<lparr>sock := s1\<rparr>)
             | Inr h \<Rightarrow>
                 if payload_len h > max_payload ch then (fail TooLarge, ch\<lparr>sock := s1\<rparr>)
                 else
                   (case (if payload_len h \<noteq> 0 then recv_bytes bounded deadline (unat (payload_len h)) s1
                          else (ok [], s1)) of
                      (Inl e, s2) \<Rightarrow> (fail e, ch\<lparr>sock := s2\<rparr>)
                    | (Inr payload, s2) \<Rightarrow>
                        (ok \<lparr>fr_header = h, fr_payload = payload\<rparr>,
                         ch\<lparr>sock := s2, ch_stats := (ch_stats ch)
                           \<lparr>frames_received := frames_received (ch_stats ch) + 1,
                            bytes_received := bytes_received (ch_stats ch) + of_nat kHeaderSize + ucast (payload_len h)\<rparr>\<rparr>))))"

definition receive_for :: "int \<Rightarrow> FrameChannel \<Rightarrow> Frame result \<times> FrameChannel" where
  "receive_for timeout ch =
    (case wait_readable timeout (sock ch) of
       (Inl e, s) \<Rightarrow> (fail e, ch\<lparr>sock := s\<rparr>)
     | (Inr False, s) \<Rightarrow> (fail Timeout, ch\<lparr>sock := s\<rparr>)
     | (Inr True, s) \<Rightarrow> receive (ch\<lparr>sock := s\<rparr>))"

section \<open>Sequences of frames\<close>

text \<open>A frame as its sender names it.\<close>

record OutFrame =
  of_type :: MsgType
  of_id :: u64
  of_flags :: u32
  of_payload :: bytes

definition of_header :: "OutFrame \<Rightarrow> FrameHeader" where
  "of_header m = \<lparr>ftype = of_type m, flags = of_flags m, payload_len = of_nat (length (of_payload m)), request_id = of_id m\<rparr>"

definition of_bytes :: "OutFrame \<Rightarrow> bytes" where
  "of_bytes m = header_bytes (of_header m) @ of_payload m"

primrec send_many :: "OutFrame list \<Rightarrow> FrameChannel \<Rightarrow> unit result \<times> FrameChannel" where
  "send_many [] ch = (ok (), ch)"
| "send_many (m # ms) ch =
    (case send (of_type m) (of_id m) (of_payload m) (of_flags m) ch of
       (Inl e, ch1) \<Rightarrow> (fail e, ch1)
     | (Inr _, ch1) \<Rightarrow> send_many ms ch1)"

primrec receive_many :: "nat \<Rightarrow> FrameChannel \<Rightarrow> Frame result list \<times> FrameChannel" where
  "receive_many 0 ch = ([], ch)"
| "receive_many (Suc n) ch =
    (let (r, ch1) = receive ch; (rs, ch2) = receive_many n ch1 in (r # rs, ch2))"

lemma count_sent_ok:
  assumes "count_sent buf ch = (ok (), ch1)"
  shows "outbox (sock ch1) = outbox (sock ch) @ buf"
  using assms send_all_prefix [of buf "sock ch"]
  by (auto simp: count_sent_def split: prod.splits sum.splits)

lemma send_ok:
  assumes "send t rid p fl ch = (ok (), ch1)"
  shows "outbox (sock ch1) = outbox (sock ch) @ of_bytes \<lparr>of_type = t, of_id = rid, of_flags = fl, of_payload = p\<rparr>"
    and "length p \<le> unat kMaxPayload"
  using assms count_sent_ok
  by (auto simp: send_def of_bytes_def of_header_def encode_header_bytes Let_def split: if_splits)

lemma send_many_ok:
  "send_many ms ch = (ok (), ch1) \<Longrightarrow>
    outbox (sock ch1) = outbox (sock ch) @ concat (map of_bytes ms) \<and>
    list_all (\<lambda>m. length (of_payload m) \<le> unat kMaxPayload) ms"
proof (induction ms arbitrary: ch)
  case (Cons m ms)
  then obtain ch2 where s: "send (of_type m) (of_id m) (of_payload m) (of_flags m) ch = (ok (), ch2)"
    "send_many ms ch2 = (ok (), ch1)"
    by (auto split: prod.splits sum.splits)
  show ?case using Cons.IH [OF s(2)] send_ok [OF s(1)] by (simp add: of_bytes_def of_header_def)
qed simp

text \<open>Sending on a channel whose kernel keeps accepting bytes.\<close>

lemma count_sent_live:
  assumes "live (length buf + j) (sends (sock ch))"
  shows "\<exists>sc st. count_sent buf ch = (ok (), ch\<lparr>sock := (sock ch)\<lparr>sends := sc, outbox := outbox (sock ch) @ buf\<rparr>, ch_stats := st\<rparr>) \<and> live j sc"
proof -
  obtain sc where "send_loop (sends (sock ch)) buf (outbox (sock ch)) = (ok (), sc, outbox (sock ch) @ buf)" "live j sc"
    using send_loop_live [OF assms] by blast
  then show ?thesis by (auto simp: count_sent_def send_all_def)
qed

lemma send_live:
  assumes "live (kHeaderSize + length p + j) (sends (sock ch))" and "length p \<le> unat kMaxPayload"
  shows "\<exists>sc st. send t rid p fl ch = (ok (), ch\<lparr>sock := (sock ch)\<lparr>sends := sc, outbox := outbox (sock ch) @
      of_bytes \<lparr>of_type = t, of_id = rid, of_flags = fl, of_payload = p\<rparr>\<rparr>, ch_stats := st\<rparr>) \<and> live j sc"
  using count_sent_live [of "of_bytes \<lparr>of_type = t, of_id = rid, of_flags = fl, of_payload = p\<rparr>" j ch] assms
  by (auto simp: send_def of_bytes_def of_header_def encode_header_bytes Let_def)

lemma send_with_live:
  assumes "live (kHeaderSize + length p + j) (sends (sock ch))" and "length p \<le> unat kMaxPayload" and "\<And>out. body out = out @ p"
  shows "\<exists>sc st. send_with t rid body ch = (ok (), ch\<lparr>sock := (sock ch)\<lparr>sends := sc, outbox := outbox (sock ch) @
      of_bytes \<lparr>of_type = t, of_id = rid, of_flags = 0, of_payload = p\<rparr>\<rparr>, ch_stats := st\<rparr>) \<and> live j sc"
  using count_sent_live [of "of_bytes \<lparr>of_type = t, of_id = rid, of_flags = 0, of_payload = p\<rparr>" j ch] assms(1,2)
  by (auto simp: send_with_def send_raw_def of_bytes_def of_header_def write_frame_bytes [of body p, OF assms(3)])

lemma clock_now_fields:
  "inbox (snd (clock_now s)) = inbox s" "recvs (snd (clock_now s)) = recvs s" "sends (snd (clock_now s)) = sends s"
  "outbox (snd (clock_now s)) = outbox s" "selects (snd (clock_now s)) = selects s"
  by (simp_all add: clock_now_def split: list.split)

lemma unat_payload_len:
  "length p \<le> unat kMaxPayload \<Longrightarrow> unat (of_nat (length p) :: u32) = length p"
  by (simp add: unat_of_nat kMaxPayload_def)

text \<open>
  A socket on which the next \<open>n\<close> bytes arrive within the frame timeout \<open>ft\<close>: there is no timeout, or \<open>select\<close>
  reports data for as long as needed and the readings of the clock stay within it.
\<close>

definition timely :: "int \<Rightarrow> nat \<Rightarrow> Socket \<Rightarrow> bool" where
  "timely ft n s \<longleftrightarrow> list_all (\<lambda>k. 0 < k) (selects s) \<and> n \<le> length (selects s) \<and>
     (ft \<le> 0 \<or> clock s \<noteq> [] \<and> (\<forall>t \<in> set (clock s). \<forall>t' \<in> set (clock s). t' < t + ft * 1000000))"

lemma timely_advance:
  assumes "timely ft (n + m) s" and "i \<le> n" and "ft > 0 \<Longrightarrow> ts \<noteq> [] \<and> set ts \<subseteq> set (clock s)"
  shows "timely ft m (s\<lparr>recvs := sc, inbox := inb, selects := drop i (selects s), clock := ts\<rparr>)"
proof -
  have "list_all (\<lambda>k. 0 < k) (drop i (selects s))" using assms(1) by (auto simp: timely_def list_all_iff dest: in_set_dropD)
  moreover have "t' < t + ft * 1000000" if "ft > 0" "t \<in> set ts" "t' \<in> set ts" for t t'
    using assms(1) assms(3) [OF that(1)] that unfolding timely_def by (meson not_le subsetD)
  ultimately show ?thesis using assms by (auto simp: timely_def not_le)
qed

lemma recv_bytes_live:
  assumes "live (n + k) (recvs s)" and "n \<le> length (inbox s)" and "timely ft (n + m) s"
    and "ft > 0 \<Longrightarrow> \<forall>t \<in> set (clock s). t < d"
  shows "\<exists>sc ts i. recv_bytes (ft > 0) d n s = (ok (take n (inbox s)),
      s\<lparr>recvs := sc, inbox := drop n (inbox s), selects := drop i (selects s), clock := ts\<rparr>) \<and> live k sc \<and>
    timely ft m (s\<lparr>recvs := sc, inbox := drop n (inbox s), selects := drop i (selects s), clock := ts\<rparr>) \<and>
    (ft > 0 \<longrightarrow> ts \<noteq> [] \<and> set ts \<subseteq> set (clock s))"
proof (cases "ft > 0")
  case True
  then obtain sc ts i where r: "recv_exact_until n [] d s = (ok (take n (inbox s)),
      s\<lparr>recvs := sc, inbox := drop n (inbox s), selects := drop i (selects s), clock := ts\<rparr>)"
    "live k sc" "i \<le> n" "ts \<noteq> []" "set ts \<subseteq> set (clock s)"
    using recv_exact_until_live [OF assms(1,2), of d "[]"] assms(3,4) by (auto simp: timely_def)
  have "timely ft m (s\<lparr>recvs := sc, inbox := drop n (inbox s), selects := drop i (selects s), clock := ts\<rparr>)"
    by (rule timely_advance [OF assms(3) r(3)]) (use r in simp)
  then show ?thesis using r True
    by (intro exI [of _ sc] exI [of _ ts] exI [of _ i]) (simp add: recv_bytes_def)
next
  case False
  obtain sc where "recv_exact n [] s = (ok (take n (inbox s)), s\<lparr>recvs := sc, inbox := drop n (inbox s)\<rparr>)" "live k sc"
    using recv_exact_live [OF assms(1,2), of "[]"] by auto
  moreover have "s\<lparr>recvs := sc, inbox := drop n (inbox s)\<rparr> =
      s\<lparr>recvs := sc, inbox := drop n (inbox s), selects := drop 0 (selects s), clock := clock s\<rparr>" by simp
  ultimately show ?thesis using timely_advance [OF assms(3), of 0 "clock s"] False
    unfolding recv_bytes_def by (metis False le0)
qed

lemma clock_now_timely:
  assumes "timely ft n s"
  shows "\<exists>ts. snd (clock_now s) = s\<lparr>clock := ts\<rparr> \<and> timely ft n (s\<lparr>clock := ts\<rparr>) \<and>
    (ft > 0 \<longrightarrow> (\<forall>t \<in> set ts. t < fst (clock_now s) + ft * 1000000))"
proof (cases "clock s = []")
  case True
  then have "snd (clock_now s) = s\<lparr>clock := []\<rparr>" by (simp add: clock_now_def)
  then show ?thesis using assms True by (auto simp: timely_def intro!: exI [of _ "[]"])
next
  case False
  from clock_now_within [OF this] obtain ts where "snd (clock_now s) = s\<lparr>clock := ts\<rparr>" "ts \<noteq> []" "set ts \<subseteq> set (clock s)"
    "fst (clock_now s) \<in> set (clock s)" by blast
  then show ?thesis using assms by (intro exI [of _ ts]) (auto simp: timely_def)
qed

lemma receive_one:
  assumes len: "length (of_payload m) \<le> unat kMaxPayload" "length (of_payload m) \<le> unat (max_payload ch)"
    and time: "timely (frame_timeout ch) (length (of_bytes m) + j) (sock ch)"
    and inb: "inbox (sock ch) = of_bytes m @ rest"
    and live: "live (length (of_bytes m) + k) (recvs (sock ch))"
  shows "\<exists>ch1. receive ch = (ok \<lparr>fr_header = of_header m, fr_payload = of_payload m\<rparr>, ch1) \<and>
    inbox (sock ch1) = rest \<and> live k (recvs (sock ch1)) \<and> timely (frame_timeout ch) j (sock ch1) \<and>
    max_payload ch1 = max_payload ch \<and> frame_timeout ch1 = frame_timeout ch \<and>
    sends (sock ch1) = sends (sock ch) \<and> outbox (sock ch1) = outbox (sock ch)"
proof -
  let ?h = "of_header m" and ?p = "of_payload m" and ?ft = "frame_timeout ch"
  obtain now s0 where s0: "clock_now (sock ch) = (now, s0)" by (cases "clock_now (sock ch)")
  let ?d = "now + ?ft * 1000000"
  obtain t0 where t0: "s0 = (sock ch)\<lparr>clock := t0\<rparr>" "timely ?ft (kHeaderSize + (length ?p + j)) s0"
    "?ft > 0 \<longrightarrow> (\<forall>t \<in> set t0. t < ?d)"
    using clock_now_timely [OF time] s0 by (auto simp: of_bytes_def add.assoc)
  have f0: "inbox s0 = header_bytes ?h @ ?p @ rest" "live (kHeaderSize + (length ?p + k)) (recvs s0)"
    using t0(1) inb live by (simp_all add: of_bytes_def add.assoc)
  obtain sc ts i where r1: "recv_bytes (?ft > 0) ?d kHeaderSize s0 = (ok (header_bytes ?h),
      s0\<lparr>recvs := sc, inbox := ?p @ rest, selects := drop i (selects s0), clock := ts\<rparr>)"
    "live (length ?p + k) sc" "timely ?ft (length ?p + j) (s0\<lparr>recvs := sc, inbox := ?p @ rest, selects := drop i (selects s0), clock := ts\<rparr>)"
    "?ft > 0 \<longrightarrow> set ts \<subseteq> set (clock s0)"
    using recv_bytes_live [OF f0(2) _ t0(2), of ?d] f0(1) t0(1,3) by auto
  let ?s1 = "s0\<lparr>recvs := sc, inbox := ?p @ rest, selects := drop i (selects s0), clock := ts\<rparr>"
  have h: "unat (payload_len ?h) = length ?p" using len(1) by (simp add: of_header_def unat_payload_len)
  have dec: "decode_header (header_bytes ?h) = ok ?h"
    using decode_header_bytes [of ?h "[]"] h len(1) by (simp add: word_less_nat_alt)
  obtain s2 where r2: "(if payload_len ?h \<noteq> 0 then recv_bytes (?ft > 0) ?d (unat (payload_len ?h)) ?s1 else (ok [], ?s1)) = (ok ?p, s2)"
    "live k (recvs s2)" "inbox s2 = rest" "timely ?ft j s2" "sends s2 = sends s0" "outbox s2 = outbox s0"
  proof (cases "payload_len ?h = 0")
    case True
    then have "?p = []" using h by simp
    then show ?thesis using that [of ?s1] True r1(2,3) by simp
  next
    case False
    have "live (length ?p + k) (recvs ?s1)" "length ?p \<le> length (inbox ?s1)"
      "?ft > 0 \<Longrightarrow> \<forall>t \<in> set (clock ?s1). t < ?d"
      using r1(2,4) t0(1,3) by auto
    from recv_bytes_live [OF this(1,2) r1(3) this(3)] show ?thesis using that False h by auto
  qed
  have lim: "\<not> payload_len ?h > max_payload ch" using h len(2) by (simp add: word_less_nat_alt)
  have r2': "(case (if payload_len ?h \<noteq> 0 then recv_bytes (?ft > 0) ?d (unat (payload_len ?h)) ?s1 else (ok [], ?s1)) of
      (Inl e, s) \<Rightarrow> Q e s | (Inr p, s) \<Rightarrow> R p s) = R ?p s2" for Q R
    unfolding r2(1) by simp
  show ?thesis
    unfolding receive_def s0 Let_def prod.case r1(1) sum.case dec if_not_P [OF lim] r2'
    using r2(2-6) t0(1) by simp
qed

lemma receive_for_frame:
  assumes "length (of_payload m) \<le> unat kMaxPayload" "length (of_payload m) \<le> unat (max_payload ch)"
    and "timely (frame_timeout ch) (Suc (length (of_bytes m) + j)) (sock ch)" and "inbox (sock ch) = of_bytes m @ rest"
    and "live (length (of_bytes m) + k) (recvs (sock ch))"
  shows "\<exists>ch1. receive_for t ch = (ok \<lparr>fr_header = of_header m, fr_payload = of_payload m\<rparr>, ch1) \<and>
    inbox (sock ch1) = rest \<and> live k (recvs (sock ch1)) \<and> timely (frame_timeout ch) j (sock ch1) \<and>
    max_payload ch1 = max_payload ch \<and> frame_timeout ch1 = frame_timeout ch \<and>
    sends (sock ch1) = sends (sock ch) \<and> outbox (sock ch1) = outbox (sock ch)"
proof -
  obtain n ns where n: "selects (sock ch) = n # ns" "0 < n" using assms(3) by (cases "selects (sock ch)") (auto simp: timely_def)
  have "timely (frame_timeout ch) (length (of_bytes m) + j) ((sock ch)\<lparr>selects := ns\<rparr>)"
    using assms(3) n by (auto simp: timely_def)
  then show ?thesis
    using receive_one [of m "ch\<lparr>sock := (sock ch)\<lparr>selects := ns\<rparr>\<rparr>" j rest k] assms n
    by (simp add: receive_for_def wait_readable_def wait_read_def)
qed

text \<open>
  C30. Framing over a fragmented stream: when a sequence of frames has been sent successfully, a peer whose
  stream is those bytes receives exactly those frames, in order, with type, flags, request id and
  payload, however the kernel interrupts its reads and cuts the stream into pieces, provided each
  frame is within the size limit of the receiving channel and arrives within its frame timeout.
\<close>

theorem frames_arrive_in_order:
  assumes "send_many ms a = (ok (), a1)"
    and "list_all (\<lambda>m. length (of_payload m) \<le> unat (max_payload b)) ms"
    and "timely (frame_timeout b) (length (inbox (sock b))) (sock b)"
    and "outbox (sock a1) = outbox (sock a) @ inbox (sock b)"
    and "live (length (inbox (sock b))) (recvs (sock b))"
  shows "fst (receive_many (length ms) b) =
    map (\<lambda>m. ok \<lparr>fr_header = of_header m, fr_payload = of_payload m\<rparr>) ms"
proof -
  have "inbox (sock b) = concat (map of_bytes ms)" "list_all (\<lambda>m. length (of_payload m) \<le> unat kMaxPayload) ms"
    using send_many_ok [OF assms(1)] assms(4) by auto
  then show ?thesis using assms(2,3,5)
  proof (induction ms arbitrary: b)
    case (Cons m ms)
    let ?r = "concat (map of_bytes ms)"
    obtain b1 where b1: "receive b = (ok \<lparr>fr_header = of_header m, fr_payload = of_payload m\<rparr>, b1)"
      "inbox (sock b1) = ?r" "live (length ?r) (recvs (sock b1))"
      "max_payload b1 = max_payload b" "frame_timeout b1 = frame_timeout b" "timely (frame_timeout b) (length ?r) (sock b1)"
      using receive_one [of m b "length ?r" ?r "length ?r"] Cons.prems by auto
    then show ?case using Cons.IH [of b1] Cons.prems by (simp add: split_beta)
  qed simp
qed

definition demo_ping :: OutFrame where
  "demo_ping = \<lparr>of_type = MsgPing, of_id = 7, of_flags = 0, of_payload = [1, 2]\<rparr>"

definition demo_sender :: FrameChannel where
  "demo_sender = FrameChannel_init
    \<lparr>inbox = [], outbox = [], sends = RcErr EINTR # replicate 26 (RcN 5), recvs = [], selects = [], clock = []\<rparr>"

definition demo_receiver :: FrameChannel where
  "demo_receiver = FrameChannel_init
    \<lparr>inbox = of_bytes demo_ping, outbox = [], sends = [], recvs = RcErr EINTR # replicate 26 (RcN 3), selects = replicate 27 1, clock = [5]\<rparr>"

theorem frames_arrive_in_order_witness:
  "fst (receive_many (length [demo_ping]) demo_receiver) =
    map (\<lambda>m. ok \<lparr>fr_header = of_header m, fr_payload = of_payload m\<rparr>) [demo_ping]"
proof -
  have "live 26 (sends (sock demo_sender))" by code_simp
  then obtain a1 where a1: "send (of_type demo_ping) (of_id demo_ping) (of_payload demo_ping) (of_flags demo_ping) demo_sender = (ok (), a1)"
    using send_live [of "of_payload demo_ping" 0 demo_sender "of_type demo_ping" "of_id demo_ping" "of_flags demo_ping"]
    by (auto simp: demo_ping_def kHeaderSize_def kMaxPayload_def)
  have live: "live (length (inbox (sock demo_receiver))) (recvs (sock demo_receiver))"
    "timely (frame_timeout demo_receiver) (length (inbox (sock demo_receiver))) (sock demo_receiver)"
    "outbox (sock demo_sender) = []"
    by code_simp+
  have "outbox (sock a1) = outbox (sock demo_sender) @ inbox (sock demo_receiver)"
    using send_ok(1) [OF a1] by (simp add: demo_receiver_def demo_ping_def FrameChannel_init_def)
  then show ?thesis using a1 live
    by (intro frames_arrive_in_order [of _ demo_sender a1])
      (simp_all add: demo_ping_def demo_receiver_def FrameChannel_init_def kMaxPayload_def)
qed

lemma recv_bytes_prefix:
  assumes "recv_bytes bd d n s = (ok b, s')"
  shows "n \<le> length (inbox s) \<and> b = take n (inbox s) \<and> inbox s' = drop n (inbox s)"
  using assms recv_exact_prefix [of n "[]" s b s'] recv_exact_until_prefix [of n "[]" d s b s']
  by (auto simp: recv_bytes_def split: if_splits)

lemma received_frame_complete:
  assumes r: "receive ch = (ok f, ch1)"
  shows "length (fr_payload f) = unat (payload_len (fr_header f))" and "payload_len (fr_header f) \<le> max_payload ch"
    and "payload_len (fr_header f) \<le> kMaxPayload"
    and "inbox (sock ch) = header_bytes (fr_header f) @ fr_payload f @ inbox (sock ch1)"
proof -
  obtain now s0 where s0: "clock_now (sock ch) = (now, s0)" by (cases "clock_now (sock ch)")
  let ?recv = "recv_bytes (frame_timeout ch > 0) (now + frame_timeout ch * 1000000)"
  have i0: "inbox s0 = inbox (sock ch)" using clock_now_fields(1) [of "sock ch"] s0 by simp
  obtain hdr s1 h where h: "?recv kHeaderSize s0 = (ok hdr, s1)" "decode_header hdr = ok h" "\<not> payload_len h > max_payload ch"
    using r s0 by (auto simp: receive_def Let_def split: prod.splits sum.splits if_splits)
  obtain payload s2 where p: "(if payload_len h \<noteq> 0 then ?recv (unat (payload_len h)) s1 else (ok [], s1)) = (ok payload, s2)"
    "f = \<lparr>fr_header = h, fr_payload = payload\<rparr>" "sock ch1 = s2"
    using r s0 h by (auto simp: receive_def Let_def split: prod.splits sum.splits if_splits)
  note p1 = recv_bytes_prefix [OF h(1)]
  have p2: "length payload = unat (payload_len h)" "inbox s1 = payload @ inbox s2"
    using p(1) recv_bytes_prefix [of "frame_timeout ch > 0" "now + frame_timeout ch * 1000000" "unat (payload_len h)" s1 payload s2]
    by (auto split: if_splits)
  show "length (fr_payload f) = unat (payload_len (fr_header f))" using p(2) p2 by simp
  show "payload_len (fr_header f) \<le> max_payload ch" using p(2) h(3) by simp
  have dec: "hdr = header_bytes h \<and> payload_len h \<le> kMaxPayload"
    using header_bytes_decoded [OF h(2)] p1 by auto
  then show "payload_len (fr_header f) \<le> kMaxPayload" using p(2) by simp
  show "inbox (sock ch) = header_bytes (fr_header f) @ fr_payload f @ inbox (sock ch1)"
    using dec p1 p2 p i0 by (metis Frame.select_convs append_take_drop_id)
qed

text \<open>Receiving never sends.\<close>

lemma recv_some_outbox: "outbox (snd (recv_some n s)) = outbox s" "sends (snd (recv_some n s)) = sends s"
  by (simp_all add: recv_some_def split: prod.split)

lemma recv_exact_outbox:
  "outbox (snd (recv_exact n buf s)) = outbox s \<and> sends (snd (recv_exact n buf s)) = sends s"
proof (induction n buf s rule: recv_exact.induct)
  case (1 n buf s)
  obtain r s1 where s: "recv_some n s = (r, s1)" by (cases "recv_some n s")
  show ?case
  proof (cases "n = 0")
    case True
    then show ?thesis by (simp add: recv_exact.simps)
  next
    case False
    then show ?thesis using 1 [OF False s [symmetric]] s recv_some_outbox [of n s]
      by (cases r) (simp_all add: recv_exact.simps [of n])
  qed
qed

lemma recv_exact_until_outbox:
  "outbox (snd (recv_exact_until n buf d s)) = outbox s \<and> sends (snd (recv_exact_until n buf d s)) = sends s"
proof (induction n arbitrary: buf s rule: less_induct)
  case (less n)
  obtain now s1 where c: "clock_now s = (now, s1)" by (cases "clock_now s")
  obtain w s2 where w: "wait_readable ((d - now) div 1000000 + 1) s1 = (w, s2)" by (cases "wait_readable ((d - now) div 1000000 + 1) s1")
  obtain r s3 where r: "recv_some n s2 = (r, s3)" by (cases "recv_some n s2")
  have keep: "outbox s1 = outbox s" "sends s1 = sends s" "outbox s2 = outbox s1" "sends s2 = sends s1"
    "outbox s3 = outbox s2" "sends s3 = sends s2"
    using clock_now_fields(3,4) [of s] c w r recv_some_outbox [of n s2]
    by (auto simp: wait_readable_def wait_read_def Let_def split: list.splits prod.splits if_splits)
  have "outbox (snd (recv_exact_until (n - length b) (buf @ b) d s3)) = outbox s3 \<and>
      sends (snd (recv_exact_until (n - length b) (buf @ b) d s3)) = sends s3" if "r = ok b" "n \<noteq> 0" for b
    using less [of "n - length b" "buf @ b" s3] recv_some_got(1) [of n s2 b s3] r that by (cases b) auto
  then show ?case using c w r keep by (subst (1 2) recv_exact_until.simps) (auto split: sum.split bool.split)
qed

lemma receive_outbox: "outbox (sock (snd (receive ch))) = outbox (sock ch)" "sends (sock (snd (receive ch))) = sends (sock ch)"
proof -
  have rb: "outbox (snd (recv_bytes b d n s)) = outbox s \<and> sends (snd (recv_bytes b d n s)) = sends s" for b d n s
    using recv_exact_outbox [of n "[]" s] recv_exact_until_outbox [of n "[]" d s] by (simp add: recv_bytes_def)
  obtain now s0 where s0: "clock_now (sock ch) = (now, s0)" by (cases "clock_now (sock ch)")
  have k0: "outbox s0 = outbox (sock ch)" "sends s0 = sends (sock ch)" using clock_now_fields(3,4) [of "sock ch"] s0 by simp_all
  let ?rb = "recv_bytes (0 < frame_timeout ch) (now + frame_timeout ch * 1000000)"
  obtain hdr s1 where h: "?rb kHeaderSize s0 = (hdr, s1)" by (cases "?rb kHeaderSize s0")
  have k1: "outbox s1 = outbox s0" "sends s1 = sends s0" using rb [of "0 < frame_timeout ch" "now + frame_timeout ch * 1000000" kHeaderSize s0] h by simp_all
  have k2: "outbox s2 = outbox s1 \<and> sends s2 = sends s1" if "?rb n s1 = (x, s2)" for n x s2
    using rb [of "0 < frame_timeout ch" "now + frame_timeout ch * 1000000" n s1] that by simp
  show "outbox (sock (snd (receive ch))) = outbox (sock ch)" "sends (sock (snd (receive ch))) = sends (sock ch)"
    using s0 h k0 k1 k2 by (auto simp: receive_def Let_def split: prod.split sum.split)
qed

text \<open>
  A received frame is bounded and complete: whatever bytes arrive, the payload handed to the caller has
  exactly the announced length, which is within both the protocol limit and the limit set on the channel;
  and a header that announces more is refused with \<open>TooLarge\<close> after its 24 bytes, before any of the
  payload is read.
\<close>

theorem received_frame_bounded:
  "(\<forall>f ch1. receive ch = (ok f, ch1) \<longrightarrow>
      length (fr_payload f) = unat (payload_len (fr_header f)) \<and>
      payload_len (fr_header f) \<le> max_payload ch \<and> payload_len (fr_header f) \<le> kMaxPayload \<and>
      inbox (sock ch) = header_bytes (fr_header f) @ fr_payload f @ inbox (sock ch1)) \<and>
   (\<forall>h rest. inbox (sock ch) = header_bytes h @ rest \<and> payload_len h > max_payload ch \<and>
      live kHeaderSize (recvs (sock ch)) \<and> timely (frame_timeout ch) kHeaderSize (sock ch) \<longrightarrow>
      fst (receive ch) = fail TooLarge \<and> inbox (sock (snd (receive ch))) = rest)"
proof (intro conjI allI impI)
  fix f ch1 assume r: "receive ch = (ok f, ch1)"
  note received_frame_complete [OF r]
  then show "length (fr_payload f) = unat (payload_len (fr_header f))" "payload_len (fr_header f) \<le> max_payload ch"
    "payload_len (fr_header f) \<le> kMaxPayload"
    "inbox (sock ch) = header_bytes (fr_header f) @ fr_payload f @ inbox (sock ch1)" by simp_all
next
  fix h rest
  assume a: "inbox (sock ch) = header_bytes h @ rest \<and> payload_len h > max_payload ch \<and>
    live kHeaderSize (recvs (sock ch)) \<and> timely (frame_timeout ch) kHeaderSize (sock ch)"
  obtain now s0 where s0: "clock_now (sock ch) = (now, s0)" by (cases "clock_now (sock ch)")
  obtain t0 where t0: "s0 = (sock ch)\<lparr>clock := t0\<rparr>" "timely (frame_timeout ch) (kHeaderSize + 0) s0"
    "frame_timeout ch > 0 \<longrightarrow> (\<forall>t \<in> set t0. t < now + frame_timeout ch * 1000000)"
    using clock_now_timely [of "frame_timeout ch" kHeaderSize "sock ch"] a s0 by auto
  have f0: "live (kHeaderSize + 0) (recvs s0)" "kHeaderSize \<le> length (inbox s0)" using t0(1) a by simp_all
  obtain s1 where "recv_bytes (frame_timeout ch > 0) (now + frame_timeout ch * 1000000) kHeaderSize s0 = (ok (header_bytes h), s1)"
    "inbox s1 = rest"
    using recv_bytes_live [OF f0 t0(2), of "now + frame_timeout ch * 1000000"] t0(1,3) a by auto
  then show "fst (receive ch) = fail TooLarge" "inbox (sock (snd (receive ch))) = rest"
    using s0 a decode_header_bytes [of h "[]"] by (auto simp: receive_def split: if_splits)
qed

theorem received_frame_bounded_witness:
  "length (fr_payload \<lparr>fr_header = of_header demo_ping, fr_payload = [1, 2]\<rparr>) =
    unat (payload_len (fr_header \<lparr>fr_header = of_header demo_ping, fr_payload = [1, 2]\<rparr>))"
proof -
  have "receive demo_receiver = (ok \<lparr>fr_header = of_header demo_ping, fr_payload = [1, 2]\<rparr>, snd (receive demo_receiver))"
    by code_simp
  then show ?thesis using conjunct1 [OF received_frame_bounded [of demo_receiver]] by blast
qed

end
