(* ===== verification/Coalescer.thy ===== *)
theory Coalescer
  imports Path "HOL-Library.Multiset" "HOL-Library.Sublist"
begin

text \<open>
  \<open>src/core/coalescer.hpp\<close>, \<open>coalescer.cpp\<close>: collapsing bursts of watcher events into ordered batches.
  The hash map of pending paths is an association list with distinct keys (its iteration order is
  never observed: \<open>take\<close> sorts by path first).  Time points and durations are integers; the 64-bit event
  counter \<open>seq_\<close> is a natural number (it counts single events and does not wrap in practice).
\<close>

section \<open>Events, plans and move pairs\<close>

datatype FsEventKind = EvCreated | EvModified | EvRemoved | EvRenamedFrom | EvRenamedTo | EvOverflow

record FsEvent =
  ev_kind :: FsEventKind
  ev_path :: bytes
  ev_cookie :: u32

record PlannedOp =
  po_kind :: InvalidationKind
  po_path :: bytes
  po_appeared :: bool
  po_change :: ChangeKind
  po_cookie :: u32

text \<open>
  The template \<open>repair_move_pairs\<close> works on any type with \<open>change\<close> and \<open>cookie\<close> members: here the two
  readers and the writer of those members.  \<open>halves\<close> is the map from cookies to the halves seen.
\<close>

definition note_half :: "(u32 \<Rightarrow> nat option) \<Rightarrow> ChangeKind \<Rightarrow> u32 \<Rightarrow> (u32 \<Rightarrow> nat option)" where
  "note_half halves change cookie =
    (if cookie = 0 \<or> \<not> is_move change then halves
     else halves(cookie \<mapsto> (case halves cookie of Some m \<Rightarrow> m | None \<Rightarrow> 0) OR (if change = MovedFrom then 1 else 2)))"

definition repair_move_pairs ::
  "('op \<Rightarrow> ChangeKind) \<Rightarrow> ('op \<Rightarrow> u32) \<Rightarrow> (ChangeKind \<Rightarrow> u32 \<Rightarrow> 'op \<Rightarrow> 'op) \<Rightarrow> 'op list \<Rightarrow> 'op list" where
  "repair_move_pairs change_of cookie_of set_change xs =
    (let halves = foldl (\<lambda>h x. note_half h (change_of x) (cookie_of x)) Map.empty xs in
     if halves = Map.empty then xs
     else map (\<lambda>x.
       if \<not> is_move (change_of x) then x
       else if cookie_of x \<noteq> 0 \<and> halves (cookie_of x) = Some 3 then x
       else set_change (if change_of x = MovedFrom then Removed else Created) 0 x) xs)"

section \<open>The coalescer\<close>

record Options =
  max_pending :: nat
  quiet_period :: int
  max_latency :: int

record CEntry =
  c_kind :: InvalidationKind
  c_seq :: nat
  c_appeared :: bool
  c_change :: ChangeKind
  c_cookie :: u32

record Coalescer =
  opts :: Options
  pending :: "(bytes \<times> CEntry) list"
  cseq :: nat
  overflow :: bool
  first_at :: int
  last_at :: int

definition Coalescer_init :: "Options \<Rightarrow> Coalescer" where
  "Coalescer_init o1 = \<lparr>opts = o1, pending = [], cseq = 0, overflow = False, first_at = 0, last_at = 0\<rparr>"

text \<open>The switch of \<open>push\<close>: kind, appeared, change and cookie of an event that is not an overflow.\<close>

fun classify :: "FsEventKind \<Rightarrow> u32 \<Rightarrow> InvalidationKind \<times> bool \<times> ChangeKind \<times> u32" where
  "classify EvCreated ck = (Upsert, True, Created, 0)"
| "classify EvRenamedTo ck = (Upsert, True, MovedTo, ck)"
| "classify EvModified ck = (Upsert, False, Modified, 0)"
| "classify EvRemoved ck = (Remove, False, Removed, 0)"
| "classify EvRenamedFrom ck = (Remove, False, MovedFrom, ck)"
| "classify EvOverflow ck = (Rescan, False, Unknown, 0)"

fun alist_put :: "bytes \<Rightarrow> 'e \<Rightarrow> (bytes \<times> 'e) list \<Rightarrow> (bytes \<times> 'e) list" where
  "alist_put k e [] = [(k, e)]"
| "alist_put k e ((k1, e1) # xs) = (if k1 = k then (k, e) # xs else (k1, e1) # alist_put k e xs)"

text \<open>The entry \<open>push\<close> stores for a path: what the event says, merged with the entry already there.\<close>

definition merged_entry :: "CEntry option \<Rightarrow> FsEvent \<Rightarrow> nat \<Rightarrow> CEntry" where
  "merged_entry found ev n =
    (let (kd, appeared, change, cookie) = classify (ev_kind ev) (ev_cookie ev) in
     case found of
       Some old \<Rightarrow>
         let still_new = (kd = Upsert \<and> (appeared \<or> c_appeared old));
             keep = (change = Modified \<and> (c_change old = Created \<or> c_change old = MovedTo))
         in \<lparr>c_kind = kd, c_seq = n, c_appeared = still_new,
             c_change = (if keep then c_change old else change),
             c_cookie = (if keep then c_cookie old else cookie)\<rparr>
     | None \<Rightarrow> \<lparr>c_kind = kd, c_seq = n, c_appeared = appeared, c_change = change, c_cookie = cookie\<rparr>)"

definition push :: "Coalescer \<Rightarrow> FsEvent \<Rightarrow> int \<Rightarrow> Coalescer" where
  "push c0 ev now =
    (let c = c0\<lparr>first_at := (if pending c0 = [] \<and> \<not> overflow c0 then now else first_at c0), last_at := now\<rparr>
     in if ev_kind ev = EvOverflow then c\<lparr>overflow := True, pending := []\<rparr>
        else if overflow c then c
        else
          let n = cseq c + 1
          in c\<lparr>pending := alist_put (ev_path ev) (merged_entry (map_of (pending c) (ev_path ev)) ev n) (pending c),
               cseq := n\<rparr>)"

definition ready :: "Coalescer \<Rightarrow> int \<Rightarrow> bool" where
  "ready c now \<longleftrightarrow>
    (if overflow c then True
     else if pending c = [] then False
     else if length (pending c) \<ge> max_pending (opts c) then True
     else now - last_at c \<ge> quiet_period (opts c) \<or> now - first_at c \<ge> max_latency (opts c))"

definition deadline :: "Coalescer \<Rightarrow> int option" where
  "deadline c =
    (if overflow c then Some (last_at c)
     else if pending c = [] then None
     else if length (pending c) \<ge> max_pending (opts c) then Some (last_at c)
     else Some (min (last_at c + quiet_period (opts c)) (first_at c + max_latency (opts c))))"

definition pending_count :: "Coalescer \<Rightarrow> nat" where
  "pending_count c = (if overflow c then 1 else length (pending c))"

definition coalescer_empty :: "Coalescer \<Rightarrow> bool" where
  "coalescer_empty c \<longleftrightarrow> \<not> overflow c \<and> pending c = []"

text \<open>The pruning loop of \<open>take\<close> over the items sorted by path.\<close>

function prune :: "(bytes \<times> CEntry) list \<Rightarrow> (bytes \<times> CEntry) list" where
  "prune [] = []"
| "prune (it # rest) =
    (if c_kind (snd it) \<noteq> Remove then it # prune rest
     else
       let under = takeWhile (\<lambda>x. path_is_under (fst x) (fst it)) rest;
           after = dropWhile (\<lambda>x. path_is_under (fst x) (fst it)) rest
       in it # filter (\<lambda>x. c_seq (snd x) > c_seq (snd it)) under @ prune after)"
  by pat_completeness auto
termination
  by (relation "measure length") (auto simp: length_dropWhile_le le_imp_less_Suc)

definition planned :: "bytes \<times> CEntry \<Rightarrow> PlannedOp" where
  "planned x = \<lparr>po_kind = c_kind (snd x), po_path = fst x, po_appeared = c_appeared (snd x),
     po_change = c_change (snd x), po_cookie = c_cookie (snd x)\<rparr>"

definition repair_planned :: "PlannedOp list \<Rightarrow> PlannedOp list" where
  "repair_planned = repair_move_pairs po_change po_cookie (\<lambda>ch ck x. x\<lparr>po_change := ch, po_cookie := ck\<rparr>)"

definition take_batch :: "Coalescer \<Rightarrow> PlannedOp list \<times> Coalescer" where
  "take_batch c =
    (if overflow c then
       ([\<lparr>po_kind = Rescan, po_path = [], po_appeared = False, po_change = Unknown, po_cookie = 0\<rparr>],
        c\<lparr>overflow := False, pending := []\<rparr>)
     else if pending c = [] then ([], c)
     else
       let kept = prune (sort_key fst (pending c));
           out = map planned (sort_key (\<lambda>x. c_seq (snd x)) kept)
       in (repair_planned out, c\<lparr>pending := []\<rparr>))"

section \<open>Invariant\<close>

definition coalescer_inv :: "Coalescer \<Rightarrow> bool" where
  "coalescer_inv c \<longleftrightarrow> distinct (map fst (pending c)) \<and> distinct (map (\<lambda>x. c_seq (snd x)) (pending c)) \<and>
     list_all (\<lambda>x. c_seq (snd x) \<le> cseq c \<and> c_kind (snd x) \<noteq> Rescan) (pending c) \<and>
     (overflow c \<longrightarrow> pending c = [])"

lemma map_of_alist_put: "map_of (alist_put k e xs) = (map_of xs)(k \<mapsto> e)"
  by (induction xs) auto

lemma alist_put_keys: "set (map fst (alist_put k e xs)) = {k} \<union> set (map fst xs)"
proof (induction xs)
  case (Cons x xs)
  then show ?case by (cases x; cases "fst x = k") auto
qed simp

lemma alist_put_distinct: "distinct (map fst xs) \<Longrightarrow> distinct (map fst (alist_put k e xs))"
proof (induction xs)
  case (Cons x xs)
  then show ?case using alist_put_keys [of k e xs] by (cases x; cases "fst x = k") auto
qed simp

lemma alist_put_set:
  "distinct (map fst xs) \<Longrightarrow> set (alist_put k e xs) = {(k, e)} \<union> {x \<in> set xs. fst x \<noteq> k}"
proof (induction xs)
  case (Cons x xs)
  then show ?case by (cases x; cases "fst x = k") (auto simp: image_iff)
qed simp

lemma alist_put_map:
  "set (map f (alist_put k e xs)) \<subseteq> insert (f (k, e)) (set (map f xs))"
proof (induction xs)
  case (Cons x xs)
  then show ?case by (cases x; cases "fst x = k") auto
qed simp

lemma alist_put_seqs:
  assumes "distinct (map f xs)" and "\<forall>x \<in> set xs. f x \<noteq> f (k, e)"
  shows "distinct (map f (alist_put k e xs))"
  using assms
proof (induction xs)
  case (Cons x xs)
  have "f x \<notin> set (map f (alist_put k e xs))" if "fst x \<noteq> k"
    using alist_put_map [of f k e xs] Cons.prems by auto
  moreover have "f (k, e) \<notin> f ` set xs" using Cons.prems(2) by fastforce
  ultimately show ?case using Cons by (cases x; cases "fst x = k") auto
qed simp

lemma merged_entry_seq [simp]: "c_seq (merged_entry found ev n) = n"
  by (simp add: merged_entry_def Let_def split: prod.split option.split)

lemma merged_entry_kind: "c_kind (merged_entry found ev n) = fst (classify (ev_kind ev) (ev_cookie ev))"
  by (simp add: merged_entry_def Let_def split: prod.split option.split)

lemma classify_kind: "fst (classify k ck) = Rescan \<longleftrightarrow> k = EvOverflow"
  by (cases k) auto

lemma Coalescer_init_inv: "coalescer_inv (Coalescer_init o1)"
  by (simp add: coalescer_inv_def Coalescer_init_def)

lemma push_inv [keeps_inv]:
  assumes "coalescer_inv c"
  shows "coalescer_inv (push c ev now)"
proof (cases "ev_kind ev = EvOverflow \<or> overflow c")
  case True
  then show ?thesis using assms by (auto simp: push_def coalescer_inv_def Let_def)
next
  case False
  define e where "e = merged_entry (map_of (pending c) (ev_path ev)) ev (cseq c + 1)"
  have e: "c_seq e = cseq c + 1" "c_kind e \<noteq> Rescan"
    "pending (push c ev now) = alist_put (ev_path ev) e (pending c)" "cseq (push c ev now) = cseq c + 1"
    "overflow (push c ev now) = False"
    using False by (auto simp: push_def Let_def e_def merged_entry_kind classify_kind)
  have seqs: "\<forall>x \<in> set (pending c). c_seq (snd x) \<noteq> c_seq (snd (ev_path ev, e))"
    using assms e(1) by (auto simp: coalescer_inv_def list_all_iff)
  have d: "distinct (map (\<lambda>x. c_seq (snd x)) (pending c))" "distinct (map fst (pending c))"
    using assms by (auto simp: coalescer_inv_def)
  have s: "set (alist_put (ev_path ev) e (pending c)) = {(ev_path ev, e)} \<union> {x \<in> set (pending c). fst x \<noteq> ev_path ev}"
    by (rule alist_put_set [OF d(2)])
  show ?thesis
    unfolding coalescer_inv_def e(3,4,5) list_all_iff s
    using alist_put_seqs [OF d(1) seqs] alist_put_distinct [OF d(2)] assms e(1,2)
    by (auto simp: coalescer_inv_def list_all_iff le_Suc_eq)
qed

section \<open>Move pairs\<close>

text \<open>
  The requirement of the template on its element type, and what it gives: a planned op on the way out
  of the coalescer and an invalidation op on its way onto the wire are both instances.
\<close>

definition half_mask :: "bool \<Rightarrow> bool \<Rightarrow> nat option" where
  "half_mask from to = (if from then Some (if to then 3 else 1) else if to then Some 2 else None)"

locale change_bearing =
  fixes change_of :: "'op \<Rightarrow> ChangeKind"
    and cookie_of :: "'op \<Rightarrow> u32"
    and set_change :: "ChangeKind \<Rightarrow> u32 \<Rightarrow> 'op \<Rightarrow> 'op"
  assumes change_set: "change_of (set_change ch ck x) = ch"
    and cookie_set: "cookie_of (set_change ch ck x) = ck"
begin

definition has_half :: "ChangeKind \<Rightarrow> u32 \<Rightarrow> 'op list \<Rightarrow> bool" where
  "has_half ch ck xs \<longleftrightarrow> ck \<noteq> 0 \<and> (\<exists>x \<in> set xs. change_of x = ch \<and> cookie_of x = ck)"

lemma halves_eq:
  "foldl (\<lambda>h x. note_half h (change_of x) (cookie_of x)) Map.empty xs =
    (\<lambda>ck. half_mask (has_half MovedFrom ck xs) (has_half MovedTo ck xs))"
proof (induction xs rule: rev_induct)
  case Nil
  then show ?case by (simp add: has_half_def half_mask_def fun_eq_iff)
next
  case (snoc x xs)
  have half: "has_half ch ck (xs @ [x]) \<longleftrightarrow> has_half ch ck xs \<or> (ck \<noteq> 0 \<and> change_of x = ch \<and> cookie_of x = ck)"
    for ch ck by (auto simp: has_half_def)
  have mask: "Some ((case half_mask f t of Some m \<Rightarrow> m | None \<Rightarrow> 0) OR 1) = half_mask True t"
    "Some ((case half_mask f t of Some m \<Rightarrow> m | None \<Rightarrow> 0) OR 2) = half_mask f True" for f t
    by (cases f; cases t; simp add: half_mask_def)+
  have "note_half (\<lambda>ck. half_mask (has_half MovedFrom ck xs) (has_half MovedTo ck xs)) (change_of x) (cookie_of x) ck =
      half_mask (has_half MovedFrom ck (xs @ [x])) (has_half MovedTo ck (xs @ [x]))" for ck
    by (cases "change_of x") (simp_all add: note_half_def half mask del: One_nat_def)
  then show ?case unfolding foldl_append foldl.simps snoc by (rule ext)
qed

lemma halves_empty:
  "(\<lambda>ck. half_mask (has_half MovedFrom ck xs) (has_half MovedTo ck xs)) = Map.empty \<longleftrightarrow>
    \<not> (\<exists>x \<in> set xs. is_move (change_of x) \<and> cookie_of x \<noteq> 0)"
proof -
  have "half_mask f t = None \<longleftrightarrow> \<not> f \<and> \<not> t" for f t by (simp add: half_mask_def)
  then show ?thesis by (auto simp: fun_eq_iff has_half_def is_move_def)
qed

abbreviation repair :: "'op list \<Rightarrow> 'op list" where
  "repair \<equiv> repair_move_pairs change_of cookie_of set_change"

text \<open>An element keeps its move exactly when both halves are there; then it is not touched at all.\<close>

lemma repair_map:
  assumes "\<exists>x \<in> set xs. is_move (change_of x) \<and> cookie_of x \<noteq> 0"
  shows "repair xs = map (\<lambda>x.
    if is_move (change_of x) \<and> \<not> (has_half MovedFrom (cookie_of x) xs \<and> has_half MovedTo (cookie_of x) xs)
    then set_change (if change_of x = MovedFrom then Removed else Created) 0 x else x) xs"
proof -
  have "half_mask f t = Some 3 \<longleftrightarrow> f \<and> t" for f t by (simp add: half_mask_def)
  then show ?thesis using assms halves_empty [of xs]
    by (auto simp: repair_move_pairs_def halves_eq has_half_def)
qed

lemma repair_pairs:
  assumes "\<exists>x \<in> set xs. is_move (change_of x) \<and> cookie_of x \<noteq> 0"
    and "y \<in> set (repair xs)" and "is_move (change_of y)"
  shows "y \<in> set xs \<and> has_half MovedFrom (cookie_of y) (repair xs) \<and> has_half MovedTo (cookie_of y) (repair xs)"
proof -
  let ?both = "\<lambda>ck. has_half MovedFrom ck xs \<and> has_half MovedTo ck xs"
  have kept: "z \<in> set (repair xs)" if "z \<in> set xs" "is_move (change_of z)" "?both (cookie_of z)" for z
    using that unfolding repair_map [OF assms(1)] by (auto simp: image_iff intro!: bexI [of _ z])
  have y: "y \<in> set xs" "?both (cookie_of y)"
    using assms(2,3) unfolding repair_map [OF assms(1)] by (auto simp: change_set split: if_splits)
  then obtain a b where ab: "a \<in> set xs" "change_of a = MovedFrom" "cookie_of a = cookie_of y"
      "b \<in> set xs" "change_of b = MovedTo" "cookie_of b = cookie_of y" "cookie_of y \<noteq> 0"
    by (auto simp: has_half_def)
  then have "a \<in> set (repair xs)" "b \<in> set (repair xs)" using kept y(2) by auto
  then show ?thesis using y(1) ab by (auto simp: has_half_def)
qed

lemma repair_keeps:
  assumes "\<And>ch ck x. f (set_change ch ck x) = f x"
  shows "map f (repair xs) = map f xs"
  using assms by (auto simp: repair_move_pairs_def Let_def)

end

interpretation planned_ops: change_bearing po_change po_cookie "\<lambda>ch ck x. x\<lparr>po_change := ch, po_cookie := ck\<rparr>"
  by unfold_locales simp_all

lemma repair_planned_paths: "map po_path (repair_planned xs) = map po_path xs"
  unfolding repair_planned_def by (rule planned_ops.repair_keeps) simp

lemma repair_planned_kinds: "map po_kind (repair_planned xs) = map po_kind xs"
  unfolding repair_planned_def by (rule planned_ops.repair_keeps) simp

section \<open>Pruning\<close>

lemma prune_subset: "set (prune xs) \<subseteq> set xs"
proof (induction xs rule: prune.induct)
  case (2 it rest)
  let ?P = "\<lambda>x. path_is_under (fst x) (fst it)"
  show ?case
  proof (cases "c_kind (snd it) = Remove")
    case True
    then have "set (prune (dropWhile ?P rest)) \<subseteq> set (dropWhile ?P rest)" using 2(2) by simp
    then have "set (prune (dropWhile ?P rest)) \<subseteq> set rest" using set_dropWhileD [of _ ?P rest] by blast
    then show ?thesis using True set_takeWhileD [of _ ?P rest] by (auto simp: Let_def)
  qed (use 2(1) in auto)
qed simp

lemma prune_subseq: "subseq (prune xs) xs"
proof (induction xs rule: prune.induct)
  case (2 it rest)
  let ?P = "\<lambda>x. path_is_under (fst x) (fst it)"
  show ?case
  proof (cases "c_kind (snd it) = Remove")
    case True
    have "subseq (filter (\<lambda>x. c_seq (snd x) > c_seq (snd it)) (takeWhile ?P rest) @ prune (dropWhile ?P rest))
        (takeWhile ?P rest @ dropWhile ?P rest)"
      using 2(2) True by (intro list_emb_append_mono) auto
    then show ?thesis using True by (simp add: Let_def)
  qed (use 2(1) in auto)
qed simp

lemma subseq_distinct: "distinct ys \<Longrightarrow> subseq xs ys \<Longrightarrow> distinct xs"
  using distinct_nthsI by (auto simp: subseq_conv_nths)

lemma prune_covers:
  "x \<in> set xs \<Longrightarrow> x \<in> set (prune xs) \<or>
    (\<exists>r \<in> set (prune xs). c_kind (snd r) = Remove \<and> path_is_under (fst x) (fst r) \<and> c_seq (snd x) \<le> c_seq (snd r))"
proof (induction xs rule: prune.induct)
  case (2 it rest)
  let ?P = "\<lambda>x. path_is_under (fst x) (fst it)"
  show ?case
  proof (cases "c_kind (snd it) = Remove")
    case False
    then show ?thesis using 2 by auto
  next
    case True
    have "x = it \<or> x \<in> set (takeWhile ?P rest) \<or> x \<in> set (dropWhile ?P rest)"
      using 2(3) by (metis Un_iff set_ConsD set_append takeWhile_dropWhile_id)
    then consider "x = it" | "x \<in> set (takeWhile ?P rest)" | "x \<in> set (dropWhile ?P rest)" by blast
    then show ?thesis
    proof cases
      case 2
      then have "?P x" by (auto dest: set_takeWhileD)
      then show ?thesis using True 2 by (auto simp: Let_def not_less)
    next
      case 3
      then show ?thesis using 2(2) True by (auto simp: Let_def)
    qed (use True in \<open>simp add: Let_def\<close>)
  qed
qed simp

section \<open>Order\<close>

lemma mset_alist_put:
  "distinct (map fst xs) \<Longrightarrow> mset (alist_put k e xs) = add_mset (k, e) (mset (filter (\<lambda>x. fst x \<noteq> k) xs))"
proof (induction xs)
  case (Cons x xs)
  have "filter (\<lambda>x. fst x \<noteq> k) xs = xs" if "fst x = k"
    using that Cons.prems by (intro filter_True) (auto simp: image_iff)
  then show ?case using Cons by (cases x; cases "fst x = k") (auto simp del: mset_filter)
qed simp

lemma sort_alist_put:
  assumes "distinct (map fst xs)" and "distinct (map f xs)" and "\<forall>x \<in> set xs. f x < f (k, e)"
  shows "sort_key f (alist_put k e xs) = filter (\<lambda>x. fst x \<noteq> k) (sort_key f xs) @ [(k, e)]"
proof (rule sort_key_inj_key_eq)
  show "mset (alist_put k e xs) = mset (filter (\<lambda>x. fst x \<noteq> k) (sort_key f xs) @ [(k, e)])"
    using mset_alist_put [OF assms(1)] by simp
  have "distinct (map f (alist_put k e xs))" using assms(2,3) by (intro alist_put_seqs) auto
  then show "inj_on f (set (alist_put k e xs))" by (simp add: distinct_map)
  show "sorted (map f (filter (\<lambda>x. fst x \<noteq> k) (sort_key f xs) @ [(k, e)]))"
    using assms(3) sorted_filter [OF sorted_sort_key [of f xs]] by (auto simp: sorted_append less_imp_le)
qed

lemma remdups_snoc: "remdups (xs @ [x]) = filter (\<lambda>y. y \<noteq> x) (remdups xs) @ [x]"
  by (induction xs) auto

primrec push_all :: "Coalescer \<Rightarrow> (FsEvent \<times> int) list \<Rightarrow> Coalescer" where
  "push_all c [] = c"
| "push_all c (x # xs) = push_all (push c (fst x) (snd x)) xs"

lemma push_all_snoc: "push_all c (xs @ [x]) = push (push_all c xs) (fst x) (snd x)"
  by (induction xs arbitrary: c) auto

lemma push_all_inv: "coalescer_inv c \<Longrightarrow> coalescer_inv (push_all c xs)"
  by (induction xs arbitrary: c) (auto simp: push_inv)

definition event_kind :: "FsEvent \<Rightarrow> InvalidationKind" where
  "event_kind ev = fst (classify (ev_kind ev) (ev_cookie ev))"

lemma push_all_order:
  assumes "list_all (\<lambda>x. ev_kind (fst x) \<noteq> EvOverflow) xs"
  shows "\<not> overflow (push_all (Coalescer_init o1) xs) \<and>
    map fst (sort_key (\<lambda>x. c_seq (snd x)) (pending (push_all (Coalescer_init o1) xs))) =
      remdups (map (\<lambda>x. ev_path (fst x)) xs) \<and>
    (\<forall>p e. map_of (pending (push_all (Coalescer_init o1) xs)) p = Some e \<longrightarrow>
      map_of (rev (map (\<lambda>x. (ev_path (fst x), event_kind (fst x))) xs)) p = Some (c_kind e))"
  using assms
proof (induction xs rule: rev_induct)
  case Nil
  then show ?case by (simp add: Coalescer_init_def)
next
  case (snoc x xs)
  let ?c = "push_all (Coalescer_init o1) xs"
  let ?k = "ev_path (fst x)"
  let ?e = "merged_entry (map_of (pending ?c) ?k) (fst x) (cseq ?c + 1)"
  have inv: "coalescer_inv ?c" using push_all_inv Coalescer_init_inv by blast
  have no: "\<not> overflow ?c" using snoc by simp
  then have p: "pending (push ?c (fst x) (snd x)) = alist_put ?k ?e (pending ?c)"
      "\<not> overflow (push ?c (fst x) (snd x))"
    using snoc.prems by (simp_all add: push_def Let_def)
  have "sort_key (\<lambda>x. c_seq (snd x)) (alist_put ?k ?e (pending ?c)) =
      filter (\<lambda>x. fst x \<noteq> ?k) (sort_key (\<lambda>x. c_seq (snd x)) (pending ?c)) @ [(?k, ?e)]"
    using inv by (intro sort_alist_put) (auto simp: coalescer_inv_def list_all_iff less_Suc_eq_le)
  then have "map fst (sort_key (\<lambda>x. c_seq (snd x)) (alist_put ?k ?e (pending ?c))) =
      filter (\<lambda>q. q \<noteq> ?k) (map fst (sort_key (\<lambda>x. c_seq (snd x)) (pending ?c))) @ [?k]"
    by (simp add: filter_map o_def)
  then show ?case using snoc p
    by (auto simp: push_all_snoc remdups_snoc map_of_alist_put merged_entry_kind event_kind_def split: if_splits)
qed

section \<open>Properties\<close>

text \<open>
  The coalescer and its timer agree: at any time not before the last event, a batch is ready exactly
  when the announced deadline has passed, and there is no deadline exactly when nothing is pending.  So a
  flusher that sleeps until the deadline finds the batch ready when it wakes.
\<close>

theorem ready_iff_deadline:
  assumes "last_at c \<le> now"
  shows "(ready c now \<longleftrightarrow> (\<exists>d. deadline c = Some d \<and> d \<le> now)) \<and> (deadline c = None \<longleftrightarrow> coalescer_empty c)"
  using assms by (auto simp: ready_def deadline_def coalescer_empty_def)

theorem ready_iff_deadline_witness:
  "let c = push (Coalescer_init \<lparr>max_pending = 4, quiet_period = 2, max_latency = 25\<rparr>)
             \<lparr>ev_kind = EvCreated, ev_path = [97], ev_cookie = 0\<rparr> 10
   in (ready c 12 \<longleftrightarrow> (\<exists>d. deadline c = Some d \<and> d \<le> 12)) \<and> (deadline c = None \<longleftrightarrow> coalescer_empty c)"
  unfolding Let_def by (rule ready_iff_deadline) (simp add: push_def Coalescer_init_def Let_def)

text \<open>
  Collapsing: after any burst of events without an overflow, the pending paths in order of their
  sequence numbers are the paths of the burst in order of their last event, each once, and the kind
  pending for a path is the kind of its last event (an upsert for a creation, modification or arrival by
  rename, a removal for a removal or departure).
\<close>

theorem burst_collapses:
  assumes "list_all (\<lambda>x. ev_kind (fst x) \<noteq> EvOverflow) evs"
  shows "let c = push_all (Coalescer_init o1) evs in
    map fst (sort_key (\<lambda>x. c_seq (snd x)) (pending c)) = remdups (map (\<lambda>x. ev_path (fst x)) evs) \<and>
    (\<forall>p e. map_of (pending c) p = Some e \<longrightarrow>
      map_of (rev (map (\<lambda>x. (ev_path (fst x), event_kind (fst x))) evs)) p = Some (c_kind e))"
  using push_all_order [OF assms, of o1] by (simp add: Let_def)

theorem burst_collapses_witness:
  "let evs = [(\<lparr>ev_kind = EvCreated, ev_path = [97], ev_cookie = 0\<rparr>, 1), (\<lparr>ev_kind = EvModified, ev_path = [98], ev_cookie = 0\<rparr>, 2),
              (\<lparr>ev_kind = EvRemoved, ev_path = [97], ev_cookie = 0\<rparr>, 3)];
       c = push_all (Coalescer_init \<lparr>max_pending = 4, quiet_period = 2, max_latency = 25\<rparr>) evs in
    map fst (sort_key (\<lambda>x. c_seq (snd x)) (pending c)) = [[98], [97]]"
  using burst_collapses [of "[(\<lparr>ev_kind = EvCreated, ev_path = [97], ev_cookie = 0\<rparr>, 1),
      (\<lparr>ev_kind = EvModified, ev_path = [98], ev_cookie = 0\<rparr>, 2), (\<lparr>ev_kind = EvRemoved, ev_path = [97], ev_cookie = 0\<rparr>, 3)]"
      "\<lparr>max_pending = 4, quiet_period = 2, max_latency = 25\<rparr>"]
  by (simp add: Let_def)

text \<open>The ops that survive pruning, in the order of their last event, are the batch.\<close>

definition kept_ops :: "Coalescer \<Rightarrow> (bytes \<times> CEntry) list" where
  "kept_ops c = sort_key (\<lambda>x. c_seq (snd x)) (prune (sort_key fst (pending c)))"

lemma kept_ops_sub: "set (kept_ops c) \<subseteq> set (pending c)"
  using prune_subset [of "sort_key fst (pending c)"] by (simp add: kept_ops_def)

lemma kept_ops_distinct:
  assumes "coalescer_inv c"
  shows "distinct (map fst (kept_ops c))"
proof -
  have "distinct (map fst (sort_key fst (pending c)))" using assms by (simp add: coalescer_inv_def distinct_map)
  then have "distinct (map fst (prune (sort_key fst (pending c))))" using subseq_map [OF prune_subseq, of fst] by (rule subseq_distinct)
  then show ?thesis by (simp add: kept_ops_def distinct_map)
qed

lemma pending_lookup: "coalescer_inv c \<Longrightarrow> x \<in> set (pending c) \<Longrightarrow> the (map_of (pending c) (fst x)) = snd x"
  by (cases x) (simp add: coalescer_inv_def)

lemma take_batch_kept:
  assumes "take_batch c = (out, c')" and "\<not> overflow c" and "pending c \<noteq> []"
  shows "c' = c\<lparr>pending := []\<rparr>" "map po_path out = map fst (kept_ops c)" "map po_kind out = map (\<lambda>x. c_kind (snd x)) (kept_ops c)"
  using assms by (auto simp: take_batch_def kept_ops_def Let_def repair_planned_paths repair_planned_kinds planned_def)

lemma kept_in_batch:
  assumes "map po_path out = map fst ks" and "map po_kind out = map (\<lambda>x. c_kind (snd x)) ks" and "z \<in> set ks"
  shows "\<exists>y \<in> set out. po_path y = fst z \<and> po_kind y = c_kind (snd z)"
proof -
  obtain i where i: "i < length ks" "ks ! i = z" using assms(3) by (auto simp only: in_set_conv_nth)
  have "length out = length ks" using assms(1) map_eq_imp_length_eq by blast
  then have "out ! i \<in> set out" "po_path (out ! i) = fst z" "po_kind (out ! i) = c_kind (snd z)"
    using i assms(1,2) nth_map [of i out po_path] nth_map [of i out po_kind] by auto
  then show ?thesis by blast
qed

text \<open>
  C38. A batch loses nothing but what a later removal covers: the ops \<open>take\<close> emits have distinct paths and
  stand in the order of their last events; every pending path is emitted with its kind, or lies
  under a removed directory that is emitted and was removed after the path's last event; and the
  coalescer is empty afterwards.  After an overflow the batch is a single rescan of the root.
\<close>

theorem take_batch_complete:
  assumes "coalescer_inv c" and "take_batch c = (out, c')"
  shows "coalescer_empty c' \<and>
    (if overflow c then map (\<lambda>x. (po_kind x, po_path x)) out = [(Rescan, [])]
     else distinct (map po_path out) \<and>
       sorted (map (\<lambda>x. c_seq (the (map_of (pending c) (po_path x)))) out) \<and>
       (\<forall>x \<in> set (pending c). \<exists>y \<in> set out.
          (po_path y = fst x \<and> po_kind y = c_kind (snd x)) \<or>
          (po_kind y = Remove \<and> path_is_under (fst x) (po_path y) \<and>
           c_seq (snd x) \<le> c_seq (the (map_of (pending c) (po_path y))))))"
proof (cases "overflow c \<or> pending c = []")
  case True
  then show ?thesis using assms by (auto simp: take_batch_def coalescer_empty_def coalescer_inv_def)
next
  case False
  then have k: "c' = c\<lparr>pending := []\<rparr>" "map po_path out = map fst (kept_ops c)" "map po_kind out = map (\<lambda>x. c_kind (snd x)) (kept_ops c)"
    using take_batch_kept [OF assms(2)] by auto
  note look = pending_lookup [OF assms(1)] and sub = kept_ops_sub [of c] and mem = kept_in_batch [OF k(2,3)]
  have "map (\<lambda>x. c_seq (the (map_of (pending c) (po_path x)))) out =
      map (\<lambda>p. c_seq (the (map_of (pending c) p))) (map po_path out)" by simp
  also have "\<dots> = map (\<lambda>x. c_seq (snd x)) (kept_ops c)" unfolding k(2) using look sub by (auto simp: o_def)
  finally have srt: "sorted (map (\<lambda>x. c_seq (the (map_of (pending c) (po_path x)))) out)" by (simp add: kept_ops_def)
  have "\<exists>y \<in> set out. (po_path y = fst x \<and> po_kind y = c_kind (snd x)) \<or>
      (po_kind y = Remove \<and> path_is_under (fst x) (po_path y) \<and>
       c_seq (snd x) \<le> c_seq (the (map_of (pending c) (po_path y))))" if "x \<in> set (pending c)" for x
  proof -
    from prune_covers [of x "sort_key fst (pending c)"] that consider "x \<in> set (kept_ops c)"
      | r where "r \<in> set (kept_ops c)" "c_kind (snd r) = Remove" "path_is_under (fst x) (fst r)" "c_seq (snd x) \<le> c_seq (snd r)"
      by (auto simp: kept_ops_def)
    then show ?thesis
    proof cases
      case 1
      then show ?thesis using mem by blast
    next
      case 2
      obtain y where y: "y \<in> set out" "po_path y = fst r" "po_kind y = c_kind (snd r)" using mem [OF 2(1)] by blast
      then have "the (map_of (pending c) (po_path y)) = snd r" using look [of r] 2(1) sub by auto
      then show ?thesis using y 2(2-4) by (intro bexI [of _ y]) auto
    qed
  qed
  then show ?thesis using k(1,2) kept_ops_distinct [OF assms(1)] srt False by (simp add: coalescer_empty_def)
qed

theorem take_batch_complete_witness:
  "let c = push_all (Coalescer_init \<lparr>max_pending = 4, quiet_period = 2, max_latency = 25\<rparr>)
             [(\<lparr>ev_kind = EvCreated, ev_path = lit ''a/b'', ev_cookie = 0\<rparr>, 1),
              (\<lparr>ev_kind = EvRemoved, ev_path = lit ''a'', ev_cookie = 0\<rparr>, 2)]
   in coalescer_empty (snd (take_batch c)) \<and> distinct (map po_path (fst (take_batch c)))"
proof -
  let ?o = "\<lparr>max_pending = 4, quiet_period = 2, max_latency = 25\<rparr>"
  let ?c = "push_all (Coalescer_init ?o)
             [(\<lparr>ev_kind = EvCreated, ev_path = lit ''a/b'', ev_cookie = 0\<rparr>, 1),
              (\<lparr>ev_kind = EvRemoved, ev_path = lit ''a'', ev_cookie = 0\<rparr>, 2)]"
  have inv: "coalescer_inv ?c" using push_all_inv Coalescer_init_inv by blast
  have "\<not> overflow ?c" by (simp add: push_def Coalescer_init_def Let_def)
  then show ?thesis using take_batch_complete [OF inv, of "fst (take_batch ?c)" "snd (take_batch ?c)"]
    unfolding Let_def by simp
qed

text \<open>
  After \<open>repair_move_pairs\<close> a move is always matched, provided some move of the batch carried a
  cookie: every op that is still a move has a non-zero cookie, is unchanged, and both halves with
  that cookie are in the batch.  Paths and kinds are never touched.
\<close>

theorem repaired_moves_are_paired:
  assumes "\<exists>x \<in> set xs. is_move (po_change x) \<and> po_cookie x \<noteq> 0"
    and "y \<in> set (repair_planned xs)" and "is_move (po_change y)"
  shows "y \<in> set xs \<and> po_cookie y \<noteq> 0 \<and>
    (\<exists>a \<in> set (repair_planned xs). po_change a = MovedFrom \<and> po_cookie a = po_cookie y) \<and>
    (\<exists>b \<in> set (repair_planned xs). po_change b = MovedTo \<and> po_cookie b = po_cookie y)"
  using planned_ops.repair_pairs [OF assms(1), of y] assms(2,3)
  unfolding repair_planned_def planned_ops.has_half_def by blast

theorem repaired_moves_are_paired_witness:
  "let f = \<lparr>po_kind = Remove, po_path = [97], po_appeared = False, po_change = MovedFrom, po_cookie = 5\<rparr>;
       t = \<lparr>po_kind = Upsert, po_path = [98], po_appeared = True, po_change = MovedTo, po_cookie = 5\<rparr>
   in \<exists>b \<in> set (repair_planned [f, t]). po_change b = MovedTo \<and> po_cookie b = po_cookie f"
proof -
  let ?f = "\<lparr>po_kind = Remove, po_path = [97], po_appeared = False, po_change = MovedFrom, po_cookie = 5\<rparr>"
  let ?t = "\<lparr>po_kind = Upsert, po_path = [98], po_appeared = True, po_change = MovedTo, po_cookie = 5\<rparr>"
  have ex: "\<exists>x \<in> set [?f, ?t]. is_move (po_change x) \<and> po_cookie x \<noteq> 0" by simp
  have "repair_planned [?f, ?t] = [?f, ?t]"
    unfolding repair_planned_def planned_ops.repair_map [OF ex] by (simp add: planned_ops.has_half_def)
  then show ?thesis using repaired_moves_are_paired [OF ex, of ?f] by simp
qed

text \<open>
  Without a cookie anywhere in the batch the repair returns early and leaves half moves as they are,
  although its documentation promises to degrade every half without a partner.
\<close>

lemma repair_skips_cookieless:
  assumes "\<forall>x \<in> set xs. po_cookie x = 0"
  shows "repair_planned xs = xs"
proof -
  have "\<not> (\<exists>x \<in> set xs. is_move (po_change x) \<and> po_cookie x \<noteq> 0)" using assms by auto
  then show ?thesis
    using planned_ops.halves_empty [of xs]
    by (simp add: repair_planned_def repair_move_pairs_def planned_ops.halves_eq)
qed

text \<open>
  The pruning step relies on a removed directory being followed at once by everything below it in byte
  order.  A name that continues with a byte below the slash breaks this: here \<open>a-b\<close> sorts between \<open>a\<close>
  and \<open>a/c\<close>, so the older op on \<open>a/c\<close> survives the removal of \<open>a\<close>.
\<close>

lemma prune_keeps_stale_descendant:
  "let rm = \<lparr>c_kind = Remove, c_seq = 3, c_appeared = False, c_change = Removed, c_cookie = 0\<rparr>;
       up = \<lambda>n. \<lparr>c_kind = Upsert, c_seq = n, c_appeared = False, c_change = Modified, c_cookie = 0\<rparr>;
       items = sort_key fst [(lit ''a'', rm), (lit ''a-b'', up 1), (lit ''a/c'', up 2)]
   in path_is_under (lit ''a/c'') (lit ''a'') \<and> (lit ''a/c'', up 2) \<in> set (prune items)"
  by (simp add: Let_def path_is_under_def)

end
