(* ===== verification/Ignore.thy ===== *)
theory Ignore
  imports Path
begin

text \<open>
  \<open>src/core/ignore.cpp\<close>: the matcher for \<open>.wsldriveignore\<close>.  \<open>glob_segment\<close> walks pattern and text with
  backtracking to the last star; the indices \<open>p\<close>, \<open>t\<close>, \<open>star + 1\<close> and \<open>mark\<close> of the source are the suffixes
  they point at.  The loop is a partial function, so that not returning would be \<open>None\<close>; it is shown to
  return on every input.  Its specification is the usual recursive glob relation.
\<close>

section \<open>Glob matching\<close>

abbreviation star_char :: u8 where "star_char \<equiv> 0x2A"
abbreviation question :: u8 where "question \<equiv> 0x3F"

partial_function (option) glob_loop :: "bytes \<Rightarrow> bytes \<Rightarrow> (bytes \<times> bytes) option \<Rightarrow> bool option" where
  "glob_loop p t star =
    (if t = [] then Some (dropWhile ((=) star_char) p = [])
     else if p \<noteq> [] \<and> (hd p = question \<or> hd p = hd t) then glob_loop (tl p) (tl t) star
     else if p \<noteq> [] \<and> hd p = star_char then glob_loop (tl p) t (Some (tl p, t))
     else case star of
            Some (sp, st) \<Rightarrow> glob_loop sp (tl st) (Some (sp, tl st))
          | None \<Rightarrow> Some False)"

definition glob_segment :: "bytes \<Rightarrow> bytes \<Rightarrow> bool" where
  "glob_segment pat tx = (glob_loop pat tx None = Some True)"

text \<open>\<open>split\<close>: the non-empty fields between slashes.\<close>

function split_path :: "bytes \<Rightarrow> bytes list" where
  "split_path s =
    (if s = [] then []
     else
       let seg = takeWhile (\<lambda>c. c \<noteq> slash) s;
           rest = drop (length seg + 1) s
       in if seg \<noteq> [] then seg # split_path rest else split_path rest)"
  by pat_completeness auto
termination
  by (relation "measure length") auto

declare split_path.simps [simp del]

section \<open>Rules\<close>

record Pattern =
  segs :: "bytes list"
  anchored :: bool
  dir_only :: bool

type_synonym IgnoreRules = "Pattern list"

abbreviation is_blank :: "u8 \<Rightarrow> bool" where
  "is_blank c \<equiv> c = 0x20 \<or> c = 0x09"

definition trim_line :: "bytes \<Rightarrow> bytes" where
  "trim_line line0 =
    (let line1 = (if line0 \<noteq> [] \<and> last line0 = 0x0D then butlast line0 else line0);
         line2 = dropWhile is_blank line1
     in rev (dropWhile is_blank (rev line2)))"

definition parse_line :: "bytes \<Rightarrow> Pattern option" where
  "parse_line line0 =
    (let line = trim_line line0 in
     if line = [] \<or> hd line = 0x23 then None
     else
       let dironly = (last line = slash);
           line1 = (if dironly then butlast line else line);
           lead = (line1 \<noteq> [] \<and> hd line1 = slash);
           anch = (lead \<or> slash \<in> set line1);
           line2 = (if lead then tl line1 else line1);
           ss = split_path line2
       in if ss \<noteq> [] then Some \<lparr>segs = ss, anchored = anch, dir_only = dironly\<rparr> else None)"

function parse_loop :: "bytes \<Rightarrow> IgnoreRules \<Rightarrow> IgnoreRules" where
  "parse_loop text rules =
    (if text = [] then rules
     else
       let line = takeWhile (\<lambda>c. c \<noteq> 0x0A) text;
           rest = drop (length line + 1) text
       in case parse_line line of
            None \<Rightarrow> parse_loop rest rules
          | Some pat \<Rightarrow> parse_loop rest (rules @ [pat]))"
  by pat_completeness auto
termination
  by (relation "measure (\<lambda>(text, rules). length text)") auto

declare parse_loop.simps [simp del]

definition parse :: "bytes \<Rightarrow> IgnoreRules" where
  "parse text = parse_loop text []"

text \<open>One pattern against the segments of a path: the body of the loop in \<open>ignored\<close>.\<close>

fun prefix_matches :: "bytes list \<Rightarrow> bytes list \<Rightarrow> bool" where
  "prefix_matches [] ss = True"
| "prefix_matches (p # ps) [] = False"
| "prefix_matches (p # ps) (s # ss) = (if \<not> glob_segment p s then False else prefix_matches ps ss)"

fun any_segment :: "bytes \<Rightarrow> bool \<Rightarrow> bytes list \<Rightarrow> bool \<Rightarrow> bool" where
  "any_segment name dironly [] isdir = False"
| "any_segment name dironly (s # ss) isdir =
    (if \<not> glob_segment name s then any_segment name dironly ss isdir
     else
       let seg_is_dir = (ss \<noteq> [] \<or> isdir)
       in if \<not> dironly \<or> seg_is_dir then True else any_segment name dironly ss isdir)"

definition pattern_ignores :: "Pattern \<Rightarrow> bytes list \<Rightarrow> bool \<Rightarrow> bool" where
  "pattern_ignores pat ss isdir =
    (if anchored pat then
       if length (segs pat) > length ss then False
       else if \<not> prefix_matches (segs pat) ss then False
       else
         let prefix_is_dir = (length (segs pat) < length ss \<or> isdir)
         in \<not> dir_only pat \<or> prefix_is_dir
     else any_segment (last (segs pat)) (dir_only pat) ss isdir)"

definition ignored :: "IgnoreRules \<Rightarrow> bytes \<Rightarrow> bool \<Rightarrow> bool" where
  "ignored rules rel isdir =
    (if rules = [] \<or> rel = [] then False
     else
       let ss = split_path rel
       in if ss = [] then False else list_ex (\<lambda>pat. pattern_ignores pat ss isdir) rules)"

section \<open>The matcher returns\<close>

lemma glob_loop_returns:
  assumes "\<And>sp st. star = Some (sp, st) \<Longrightarrow> length p \<le> length sp \<and> length t \<le> length st"
  shows "\<exists>b. glob_loop p t star = Some b"
  using assms
proof (induction "(case star of None \<Rightarrow> Suc (length p) | Some (sp, st) \<Rightarrow> length sp,
    case star of None \<Rightarrow> 0 | Some (sp, st) \<Rightarrow> length st, length t)"
    arbitrary: p t star rule: wf_induct_rule [OF wf_lex_prod [OF wf_less wf_lex_prod [OF wf_less wf_less]]])
  case (1 p t star)
  note IH = 1(1) and inv = 1(2)
  consider (stop) "t = []" | (eat) "t \<noteq> []" "p \<noteq> []" "hd p = question \<or> hd p = hd t"
    | (star) "t \<noteq> []" "p \<noteq> []" "\<not> (hd p = question \<or> hd p = hd t)" "hd p = star_char"
    | (backtrack) "t \<noteq> []" "\<not> (p \<noteq> [] \<and> (hd p = question \<or> hd p = hd t))" "\<not> (p \<noteq> [] \<and> hd p = star_char)"
    by blast
  then show ?case
  proof cases
    case stop
    then show ?thesis by (subst glob_loop.simps) simp
  next
    case eat
    have lt: "length (tl p) < length p" "length (tl t) < length t" using eat by simp_all
    have "\<exists>b. glob_loop (tl p) (tl t) star = Some b"
    proof (rule IH)
      show "length (tl p) \<le> length sp \<and> length (tl t) \<le> length st" if "star = Some (sp, st)" for sp st
        using inv [OF that] lt by linarith
    qed (use lt in \<open>cases star; simp add: case_prod_beta\<close>)
    then show ?thesis using eat by (subst glob_loop.simps) simp
  next
    case star
    have "\<exists>b. glob_loop (tl p) t (Some (tl p, t)) = Some b"
    proof (rule IH)
      have lt: "length (tl p) < length p" using star by simp
      show "((case Some (tl p, t) of None \<Rightarrow> Suc (length (tl p)) | Some (sp, st) \<Rightarrow> length sp,
          case Some (tl p, t) of None \<Rightarrow> 0 | Some (sp, st) \<Rightarrow> length st, length t),
        (case star of None \<Rightarrow> Suc (length p) | Some (sp, st) \<Rightarrow> length sp,
          case star of None \<Rightarrow> 0 | Some (sp, st) \<Rightarrow> length st, length t))
        \<in> {(x, y). x < y} <*lex*> {(x, y). x < y} <*lex*> {(x, y). x < y}"
        using lt inv by (cases star) (force simp: case_prod_beta)+
    qed auto
    then show ?thesis using star by (subst glob_loop.simps) simp
  next
    case backtrack
    then show ?thesis
    proof (cases star)
      case None
      then show ?thesis using backtrack by (subst glob_loop.simps) auto
    next
      case (Some s)
      then obtain sp st where s: "star = Some (sp, st)" by (cases s) auto
      have "st \<noteq> []" "length p \<le> length sp" using inv [OF s] backtrack(1) by auto
      then have "length (tl st) < length st" by simp
      then have "\<exists>b. glob_loop sp (tl st) (Some (sp, tl st)) = Some b"
        by (intro IH) (auto simp: s)
      then show ?thesis using backtrack s by (subst glob_loop.simps) auto
    qed
  qed
qed

section \<open>The matcher is the glob relation\<close>

fun glob_matches :: "bytes \<Rightarrow> bytes \<Rightarrow> bool" where
  "glob_matches [] tx = (tx = [])"
| "glob_matches (a # p) [] = (a = star_char \<and> glob_matches p [])"
| "glob_matches (a # p) (c # tx) =
    (if a = star_char then glob_matches p (c # tx) \<or> glob_matches (a # p) tx
     else (a = question \<or> a = c) \<and> glob_matches p tx)"

lemma glob_star: "glob_matches (star_char # p) tx \<longleftrightarrow> (\<exists>k \<le> length tx. glob_matches p (drop k tx))"
proof (induction tx)
  case Nil
  then show ?case by simp
next
  case (Cons c tx)
  have "(\<exists>k \<le> length (c # tx). glob_matches p (drop k (c # tx))) \<longleftrightarrow>
      glob_matches p (c # tx) \<or> (\<exists>k \<le> length tx. glob_matches p (drop k tx))"
    by (metis Suc_le_mono drop0 drop_Suc_Cons length_Cons not0_implies_Suc zero_le)
  then show ?case using Cons by simp
qed

lemma glob_stars_only: "glob_matches p [] \<longleftrightarrow> dropWhile ((=) star_char) p = []"
  by (induction p) auto

text \<open>A star-free pattern part matches texts of its own length, character by character.\<close>

fun literal_matches :: "bytes \<Rightarrow> bytes \<Rightarrow> bool" where
  "literal_matches [] [] = True"
| "literal_matches (a # p) (c # tx) = (a \<noteq> star_char \<and> (a = question \<or> a = c) \<and> literal_matches p tx)"
| "literal_matches _ _ = False"

lemma literal_length: "literal_matches m u \<Longrightarrow> length m = length u \<and> star_char \<notin> set m"
  by (induction m u rule: literal_matches.induct) auto

lemma glob_literal_append:
  "star_char \<notin> set m \<Longrightarrow> glob_matches (m @ p) tx \<Longrightarrow> length m \<le> length tx \<and> glob_matches p (drop (length m) tx)"
proof (induction m arbitrary: tx)
  case (Cons a m)
  then show ?case by (cases tx) auto
qed simp

lemma literal_snoc:
  "literal_matches m u \<Longrightarrow> a \<noteq> star_char \<Longrightarrow> a = question \<or> a = c \<Longrightarrow> literal_matches (m @ [a]) (u @ [c])"
  by (induction m u rule: literal_matches.induct) auto

definition retry :: "(bytes \<times> bytes) option \<Rightarrow> bool" where
  "retry star = (case star of None \<Rightarrow> False
     | Some (sp, st) \<Rightarrow> \<exists>k \<le> length st. 0 < k \<and> glob_matches sp (drop k st))"

text \<open>
  The loop invariant: what has been consumed since the last star is a star-free part of the pattern
  and the text it matched.
\<close>

definition consumed :: "bytes \<Rightarrow> bytes \<Rightarrow> (bytes \<times> bytes) option \<Rightarrow> bool" where
  "consumed p t star = (case star of None \<Rightarrow> True
     | Some (sp, st) \<Rightarrow> \<exists>m u. sp = m @ p \<and> st = u @ t \<and> literal_matches m u)"

lemma retry_dropped:
  assumes "consumed (star_char # p) t (Some (sp, st))" and "retry (Some (sp, st))"
  shows "glob_matches (star_char # p) t"
proof -
  obtain m u where mu: "sp = m @ star_char # p" "st = u @ t" "literal_matches m u"
    using assms(1) by (auto simp: consumed_def)
  obtain k where k: "k \<le> length st" "0 < k" "glob_matches (m @ star_char # p) (drop k st)"
    using assms(2) mu(1) by (auto simp: retry_def)
  have len: "length m = length u" "star_char \<notin> set m" using literal_length [OF mu(3)] by auto
  have "length u \<le> length (drop k st)" "glob_matches (star_char # p) (drop (length u) (drop k st))"
    using glob_literal_append [OF len(2) k(3)] len(1) by auto
  moreover have "drop (length u) (drop k st) = drop k t" 
    by (metis add.commute append_eq_conv_conj drop_drop mu(2))
  ultimately have "glob_matches (star_char # p) (drop k t)" "k \<le> length t" using mu(2) k(1) by auto
  then obtain j where "j \<le> length (drop k t)" "glob_matches p (drop j (drop k t))" unfolding glob_star by blast
  then show ?thesis unfolding glob_star using \<open>k \<le> length t\<close> by (intro exI [of _ "j + k"]) simp
qed

lemma no_retry_at_end:
  assumes "consumed p [] star"
  shows "\<not> retry star"
proof (cases star)
  case (Some s)
  then obtain sp m u where s: "star = Some (sp, u)" "sp = m @ p" "literal_matches m u"
    using assms by (cases s) (auto simp: consumed_def)
  have "length m \<le> length (drop k u)" if "glob_matches (m @ p) (drop k u)" for k
    using glob_literal_append that literal_length [OF s(3)] by blast
  then show ?thesis using s literal_length [OF s(3)] by (fastforce simp: retry_def)
qed (simp add: retry_def)

lemma retry_step: "retry (Some (sp, st)) \<longleftrightarrow> st \<noteq> [] \<and> (glob_matches sp (tl st) \<or> retry (Some (sp, tl st)))"
proof (cases st)
  case (Cons c cs)
  have "(\<exists>k \<le> length (c # cs). 0 < k \<and> glob_matches sp (drop k (c # cs))) \<longleftrightarrow>
      (\<exists>j \<le> length cs. glob_matches sp (drop j cs))"
    by (metis Suc_le_mono drop_Suc_Cons gr0_implies_Suc length_Cons zero_less_Suc)
  also have "\<dots> \<longleftrightarrow> glob_matches sp cs \<or> (\<exists>k \<le> length cs. 0 < k \<and> glob_matches sp (drop k cs))"
    by (metis drop0 gr0I zero_le)
  finally show ?thesis using Cons by (simp add: retry_def)
qed (simp add: retry_def)

definition plain_text :: "bytes \<Rightarrow> (bytes \<times> bytes) option \<Rightarrow> bool" where
  "plain_text t star \<longleftrightarrow> star_char \<notin> set t \<and> (case star of None \<Rightarrow> True | Some (sp, st) \<Rightarrow> star_char \<notin> set st)"

lemma consumed_step:
  "consumed (a # p) (c # t) star \<Longrightarrow> a \<noteq> star_char \<Longrightarrow> a = question \<or> a = c \<Longrightarrow> consumed p t star"
proof (cases star)
  case (Some s)
  assume a: "a \<noteq> star_char" "a = question \<or> a = c" and "consumed (a # p) (c # t) star"
  then obtain sp m u where "star = Some (sp, u @ c # t)" "sp = m @ a # p" "literal_matches m u"
    using Some by (cases s) (auto simp: consumed_def)
  then show ?thesis using literal_snoc [OF _ a, of m u]
    by (auto simp: consumed_def intro!: exI [of _ "m @ [a]"] exI [of _ "u @ [c]"])
qed (simp add: consumed_def)

lemma glob_loop_step:
  fixes rec :: "bytes \<Rightarrow> bytes \<Rightarrow> (bytes \<times> bytes) option \<Rightarrow> bool option"
  assumes rec: "\<And>p t star b. rec p t star = Some b \<Longrightarrow> consumed p t star \<Longrightarrow> plain_text t star \<Longrightarrow>
      b \<longleftrightarrow> glob_matches p t \<or> retry star"
    and inv: "consumed p t star" "plain_text t star"
    and run: "(if t = [] then Some (dropWhile ((=) star_char) p = [])
      else if p \<noteq> [] \<and> (hd p = question \<or> hd p = hd t) then rec (tl p) (tl t) star
      else if p \<noteq> [] \<and> hd p = star_char then rec (tl p) t (Some (tl p, t))
      else case star of None \<Rightarrow> Some False | Some (sp, st) \<Rightarrow> rec sp (tl st) (Some (sp, tl st))) = Some b"
  shows "b \<longleftrightarrow> glob_matches p t \<or> retry star"
proof -
  consider (stop) "t = []" | (eat) c t' a p' where "t = c # t'" "p = a # p'" "a = question \<or> a = c"
    | (star) c t' p' where "t = c # t'" "p = star_char # p'" "c \<noteq> star_char"
    | (stuck) c t' where "t = c # t'" "\<not> (p \<noteq> [] \<and> (hd p = question \<or> hd p = c))" "\<not> (p \<noteq> [] \<and> hd p = star_char)"
    by (metis list.exhaust_sel)
  then show ?thesis
  proof cases
    case stop
    then show ?thesis using run no_retry_at_end inv glob_stars_only by auto
  next
    case eat
    then have a: "a \<noteq> star_char" using inv(2) by (auto simp: plain_text_def)
    have "consumed p' t' star" using consumed_step inv(1) eat a by blast
    moreover have "plain_text t' star" using inv(2) eat by (auto simp: plain_text_def)
    ultimately show ?thesis using rec [of p' t' star b] run eat a by auto
  next
    case star
    have "consumed p' t (Some (p', t))" by (auto simp: consumed_def intro: exI [of _ "[]"])
    moreover have "plain_text t (Some (p', t))" using inv(2) by (simp add: plain_text_def)
    ultimately have b: "b \<longleftrightarrow> glob_matches p' t \<or> retry (Some (p', t))"
      using rec [of p' t "Some (p', t)" b] run star by auto
    also have "\<dots> \<longleftrightarrow> glob_matches p t" unfolding star(2) glob_star retry_def
      by simp (metis drop0 gr0I zero_le)
    also have "\<dots> \<longleftrightarrow> glob_matches p t \<or> retry star"
      using retry_dropped [of p' t] inv(1) star(2) by (cases star) (auto simp: retry_def [of None])
    finally show ?thesis .
  next
    case stuck
    then have no: "\<not> glob_matches p t" by (cases p) auto
    show ?thesis
    proof (cases star)
      case None
      then show ?thesis using run stuck no by (auto simp: retry_def)
    next
      case (Some s)
      then obtain sp st where s: "star = Some (sp, st)" by (cases s) auto
      have st: "st \<noteq> []" "star_char \<notin> set (tl st)"
        using inv s stuck(1) by (cases st; auto simp: consumed_def plain_text_def)+
      have "consumed sp (tl st) (Some (sp, tl st))" by (auto simp: consumed_def intro: exI [of _ "[]"])
      moreover have "plain_text (tl st) (Some (sp, tl st))" using st by (simp add: plain_text_def)
      moreover have "rec sp (tl st) (Some (sp, tl st)) = Some b" using run stuck s by auto
      ultimately have "b \<longleftrightarrow> glob_matches sp (tl st) \<or> retry (Some (sp, tl st))" using rec by blast
      then show ?thesis using no s st(1) retry_step [of sp st] by simp
    qed
  qed
qed

lemma glob_loop_correct:
  assumes "glob_loop p t star = Some b" and "consumed p t star" and "plain_text t star"
  shows "b \<longleftrightarrow> glob_matches p t \<or> retry star"
proof -
  have "consumed p t star \<longrightarrow> plain_text t star \<longrightarrow> (b \<longleftrightarrow> glob_matches p t \<or> retry star)"
  proof (rule glob_loop.raw_induct [where P = "\<lambda>p t star b. consumed p t star \<longrightarrow> plain_text t star \<longrightarrow>
      (b \<longleftrightarrow> glob_matches p t \<or> retry star)", OF _ assms(1)], intro impI)
    fix rec p t star b
    assume r: "\<And>p t star b. rec p t star = Some b \<Longrightarrow> consumed p t star \<longrightarrow> plain_text t star \<longrightarrow>
        (b \<longleftrightarrow> glob_matches p t \<or> retry star)"
      and run: "(if t = [] then Some (dropWhile ((=) star_char) p = [])
        else if p \<noteq> [] \<and> (hd p = question \<or> hd p = hd t) then rec (tl p) (tl t) star
        else if p \<noteq> [] \<and> hd p = star_char then rec (tl p) t (Some (tl p, t))
        else case star of None \<Rightarrow> Some False | Some (sp, st) \<Rightarrow> rec sp (tl st) (Some (sp, tl st))) = Some b"
      and inv: "consumed p t star" "plain_text t star"
    show "b \<longleftrightarrow> glob_matches p t \<or> retry star"
      by (rule glob_loop_step [of rec, OF _ inv run]) (use r in blast)
  qed
  then show ?thesis using assms by blast
qed

lemma glob_segment_correct:
  assumes "star_char \<notin> set tx"
  shows "glob_segment pat tx \<longleftrightarrow> glob_matches pat tx"
proof -
  obtain b where "glob_loop pat tx None = Some b" using glob_loop_returns [of None] by auto
  moreover have "b \<longleftrightarrow> glob_matches pat tx \<or> retry None"
    using calculation assms by (intro glob_loop_correct) (simp_all add: consumed_def plain_text_def)
  ultimately show ?thesis by (auto simp: glob_segment_def retry_def)
qed

section \<open>Splitting and parsing\<close>

lemma split_path_fields: "split_path s = filter (\<lambda>f. f \<noteq> []) (split_on (\<lambda>c. c = slash) s)"
proof (induction s rule: split_path.induct)
  case (1 s)
  let ?seg = "takeWhile (\<lambda>c. c \<noteq> slash) s" and ?r = "dropWhile (\<lambda>c. c \<noteq> slash) s"
  show ?case
  proof (cases "s = []")
    case True
    then show ?thesis by (simp add: split_path.simps)
  next
    case False
    have no: "\<forall>x \<in> set ?seg. \<not> x = slash" by (auto dest: set_takeWhileD)
    have "drop (length xs + 1) (xs @ ys) = tl ys" for xs ys :: bytes by (cases ys) simp_all
    from this [of ?seg ?r] have rest: "drop (length ?seg + 1) s = tl ?r" by (simp only: takeWhile_dropWhile_id)
    have step: "split_path s = (if ?seg \<noteq> [] then [?seg] else []) @ split_path (tl ?r)"
      using split_path.simps [of s] False unfolding Let_def rest by (cases "?seg = []") simp_all
    have IH: "split_path (tl ?r) = filter (\<lambda>f. f \<noteq> []) (split_on (\<lambda>c. c = slash) (tl ?r))"
      using 1 [OF False refl refl] rest by (cases "?seg = []") simp_all
    show ?thesis
    proof (cases ?r)
      case Nil
      then have "s = ?seg" by (metis append_Nil2 takeWhile_dropWhile_id)
      then show ?thesis using step Nil fields_no_sep [OF no] by (simp add: split_path.simps [of "[]"])
    next
      case (Cons c r')
      then have "c = slash" using hd_dropWhile [of "\<lambda>c. c \<noteq> slash" s] by auto
      then have "s = ?seg @ slash # r'" using Cons takeWhile_dropWhile_id [of "\<lambda>c. c \<noteq> slash" s] by simp
      then have "split_on (\<lambda>c. c = slash) s = [?seg] @ split_on (\<lambda>c. c = slash) r'"
        using fields_append_sep [of "\<lambda>c. c = slash" slash ?seg r'] fields_no_sep [OF no] by simp
      then show ?thesis using step IH Cons by simp
    qed
  qed
qed

lemma split_path_append: "split_path (a @ slash # b) = split_path a @ split_path b"
  by (simp add: split_path_fields fields_append_sep)

lemma split_path_segment: "seg \<in> set (split_path s) \<Longrightarrow> seg \<noteq> [] \<and> slash \<notin> set seg"
  by (auto simp: split_path_fields dest: fields_parts)

text \<open>What parsing guarantees of a pattern; \<open>ignored\<close> takes the last segment of an unanchored one.\<close>

definition pattern_ok :: "Pattern \<Rightarrow> bool" where
  "pattern_ok pat \<longleftrightarrow> segs pat \<noteq> [] \<and> list_all (\<lambda>s. s \<noteq> [] \<and> slash \<notin> set s) (segs pat) \<and>
     (\<not> anchored pat \<longrightarrow> length (segs pat) = 1)"

lemma split_path_no_slash:
  assumes "slash \<notin> set s"
  shows "split_path s = (if s = [] then [] else [s])"
proof -
  have "split_on (\<lambda>c. c = slash) s = [s]" using assms by (intro fields_no_sep) auto
  then show ?thesis by (simp add: split_path_fields)
qed

lemma parse_line_ok: "parse_line l = Some pat \<Longrightarrow> pattern_ok pat"
proof -
  assume r: "parse_line l = Some pat"
  define line where "line = trim_line l"
  define line1 where "line1 = (if last line = slash then butlast line else line)"
  define lead where "lead = (line1 \<noteq> [] \<and> hd line1 = slash)"
  define line2 where "line2 = (if lead then tl line1 else line1)"
  have pat: "split_path line2 \<noteq> []" "pat = \<lparr>segs = split_path line2, anchored = (lead \<or> slash \<in> set line1),
      dir_only = (last line = slash)\<rparr>"
    using r by (auto simp: parse_line_def Let_def line_def line1_def lead_def line2_def split: if_splits)
  have "length (split_path line2) = 1" if "\<not> (lead \<or> slash \<in> set line1)"
    using that pat(1) split_path_no_slash [of line2] by (auto simp: line2_def split: if_splits)
  then show "pattern_ok pat" using pat split_path_segment by (auto simp: pattern_ok_def list_all_iff)
qed

lemma parse_loop_ok: "list_all pattern_ok rules \<Longrightarrow> list_all pattern_ok (parse_loop src rules)"
proof (induction src rules rule: parse_loop.induct)
  case (1 src rules)
  show ?case
  proof (cases "src = []")
    case True
    then show ?thesis using 1(3) by (simp add: parse_loop.simps)
  next
    case False
    let ?l = "takeWhile (\<lambda>c. c \<noteq> 0x0A) src"
    show ?thesis
    proof (cases "parse_line ?l")
      case None
      then show ?thesis using 1(1) [OF False refl refl None 1(3)] False
        by (subst parse_loop.simps) (simp add: Let_def)
    next
      case (Some pat)
      then have "list_all pattern_ok (rules @ [pat])" using 1(3) parse_line_ok by simp
      then show ?thesis using 1(2) [OF False refl refl Some] Some False
        by (subst parse_loop.simps) (simp add: Let_def)
    qed
  qed
qed

section \<open>Ignoring subtrees\<close>

lemma prefix_matches_append: "prefix_matches ps ss \<Longrightarrow> prefix_matches ps (ss @ xs)"
  by (induction ps ss rule: prefix_matches.induct) (auto split: if_splits)

lemma any_segment_append:
  "any_segment nm d ss True \<Longrightarrow> xs \<noteq> [] \<Longrightarrow> any_segment nm d (ss @ xs) isdir"
  by (induction ss) (auto simp: Let_def split: if_splits)

lemma pattern_ignores_below:
  assumes "pattern_ignores pat ss True" and "xs \<noteq> []"
  shows "pattern_ignores pat (ss @ xs) isdir"
  using assms prefix_matches_append any_segment_append
  by (cases xs) (auto simp: pattern_ignores_def Let_def split: if_splits)

section \<open>Properties\<close>



text \<open>
  A text that contains a star is the exception: the literal comparison comes before the wildcard
  test, so the pattern star meets a text that starts with a star as a plain character and then fails.
\<close>

lemma glob_star_in_text:
  "\<not> glob_segment (lit ''*'') (lit ''*a'') \<and> glob_matches (lit ''*'') (lit ''*a'')"
  by (simp add: glob_segment_def glob_loop.simps)

text \<open>
  Parsing an ignore file gives well-formed rules only: every pattern has at least one segment, no
  segment is empty or contains a slash, and a pattern that is not anchored has exactly one segment, as
  \<open>ignored\<close> assumes when it takes the last one.
\<close>

theorem parse_gives_good_patterns:
  "list_all pattern_ok (parse text)"
  unfolding parse_def by (rule parse_loop_ok) simp

text \<open>
  Ignoring is closed downwards: when a directory is ignored, every path below it is ignored too,
  whether file or directory.  So the scanner may skip an ignored directory without looking inside.
\<close>

theorem ignored_subtree:
  assumes "ignored rules dir True" and "split_path below \<noteq> []"
  shows "ignored rules (dir @ slash # below) isdir"
proof -
  obtain pat where "pat \<in> set rules" "pattern_ignores pat (split_path dir) True"
    using assms(1) by (auto simp: ignored_def Let_def list_ex_iff split: if_splits)
  then show ?thesis
    using pattern_ignores_below [OF _ assms(2)] assms(2)
    by (auto simp: ignored_def Let_def split_path_append list_ex_iff)
qed

theorem ignored_subtree_witness:
  "ignored [\<lparr>segs = [lit ''build''], anchored = False, dir_only = True\<rparr>] (lit ''build'' @ slash # lit ''x'') False"
  by (rule ignored_subtree)
    (simp_all add: ignored_def split_path.simps pattern_ignores_def glob_segment_def glob_loop.simps)

end
