(* ===== verification/ServerFiles.thy ===== *)
theory ServerFiles
  imports ServerPaths FrameChannel Coalescer Ignore
begin

text \<open>
  The file handlers of \<open>src/agent/server.cpp\<close>: reads, bulk reads, link targets and the mutations, with the
  retry loops and the mapping of file system errors; and the options of the server from \<open>server.hpp\<close>.

  The operating system is the record \<open>Host\<close> of the calls the handlers make, over an abstract state \<open>'w\<close> of
  the machine (the POSIX branch of the sources; \<open>os_transient\<close> is the sharing-violation test, constantly
  false there).  A handler works on a connection: the machine, the channel to the peer, the server's
  generation counter and the number of nonces drawn so far.
\<close>

section \<open>The host\<close>

datatype fs_error = NoSuchFile | FileExists | NotDir | IsDir | DirNotEmpty | InvalidArg | OtherFsError

record 'w Host =
  host_fs :: "'w \<Rightarrow> FileSystem"
  os_fopen :: "bytes \<Rightarrow> bytes \<Rightarrow> 'w \<Rightarrow> (fs_error + nat) \<times> 'w"
  os_fseek :: "nat \<Rightarrow> u64 \<Rightarrow> 'w \<Rightarrow> bool \<times> 'w"
  os_fread :: "nat \<Rightarrow> nat \<Rightarrow> 'w \<Rightarrow> bytes \<times> 'w"
  os_fwrite :: "nat \<Rightarrow> bytes \<Rightarrow> 'w \<Rightarrow> nat \<times> 'w"
  os_fclose :: "nat \<Rightarrow> 'w \<Rightarrow> 'w"
  os_resize_file :: "bytes \<Rightarrow> u64 \<Rightarrow> 'w \<Rightarrow> fs_error option \<times> 'w"
  os_create_directory :: "bytes \<Rightarrow> 'w \<Rightarrow> (bool \<times> fs_error option) \<times> 'w"
  os_remove :: "bytes \<Rightarrow> 'w \<Rightarrow> (bool \<times> fs_error option) \<times> 'w"
  os_rename :: "bytes \<Rightarrow> bytes \<Rightarrow> 'w \<Rightarrow> fs_error option \<times> 'w"
  os_read_symlink :: "bytes \<Rightarrow> 'w \<Rightarrow> fs_error + bytes"
  os_transient :: "bytes \<Rightarrow> fs_error \<Rightarrow> 'w \<Rightarrow> bool"
  os_getrandom :: "nat \<Rightarrow> nat \<Rightarrow> nat \<Rightarrow> bytes"

record ServerOptions =
  so_root :: bytes
  so_watch :: bool
  so_coalescer :: Options
  so_snapshot_chunk_bytes :: nat
  so_one_file_system :: bool
  so_token :: bytes
  so_handshake_timeout :: int
  so_broadcast_timeout :: int
  so_max_expanded_entries :: nat

record 'w Conn =
  cn_world :: 'w
  cn_chan :: FrameChannel
  cn_generation :: u64
  cn_nonces :: nat

definition reply :: "MsgType \<Rightarrow> u64 \<Rightarrow> (bytes \<Rightarrow> bytes) \<Rightarrow> 'w Conn \<Rightarrow> unit result \<times> 'w Conn" where
  "reply t rid body c = (let (r, ch) = send_with t rid body (cn_chan c) in (r, c\<lparr>cn_chan := ch\<rparr>))"

definition send_error :: "u64 \<Rightarrow> Errc \<Rightarrow> bytes \<Rightarrow> 'w Conn \<Rightarrow> unit result \<times> 'w Conn" where
  "send_error rid cd dt c = reply MsgError rid (write_error \<lparr>code = Errc_code cd, detail = dt\<rparr>) c"

definition run_os :: "('w \<Rightarrow> 'a \<times> 'w) \<Rightarrow> 'w Conn \<Rightarrow> 'a \<times> 'w Conn" where
  "run_os f c = (let (x, w) = f (cn_world c) in (x, c\<lparr>cn_world := w\<rparr>))"

section \<open>Errors and retries\<close>

fun map_fs_error :: "fs_error \<Rightarrow> Errc" where
  "map_fs_error NoSuchFile = NotFound"
| "map_fs_error FileExists = AlreadyExists"
| "map_fs_error NotDir = NotADirectory"
| "map_fs_error IsDir = IsADirectory"
| "map_fs_error DirNotEmpty = AlreadyExists"
| "map_fs_error InvalidArg = InvalidArgument"
| "map_fs_error OtherFsError = IoError"

definition kShareRetryMaxDelayMs :: nat where "kShareRetryMaxDelayMs = 128"

text \<open>The delays of the retry loops: \<open>1, 2, 4, \<dots>\<close> up to the maximum.\<close>

function delays_from :: "nat \<Rightarrow> nat list" where
  "delays_from d = (if 0 < d \<and> d \<le> kShareRetryMaxDelayMs then d # delays_from (d * 2) else [])"
  by pat_completeness auto
termination
  by (relation "measure (\<lambda>d. kShareRetryMaxDelayMs + 1 - d)") (auto simp: kShareRetryMaxDelayMs_def)

declare delays_from.simps [simp del]

fun share_retry_loop :: "'w Host \<Rightarrow> bytes \<Rightarrow> ('w \<Rightarrow> fs_error option \<times> 'w) \<Rightarrow> nat list \<Rightarrow> fs_error option \<times> 'w \<Rightarrow> fs_error option \<times> 'w" where
  "share_retry_loop host tgt op1 [] res = res"
| "share_retry_loop host tgt op1 (d # ds) (ec, w) =
    (case ec of
       None \<Rightarrow> (None, w)
     | Some e \<Rightarrow>
         if os_transient host tgt e w then share_retry_loop host tgt op1 ds (op1 w) else (Some e, w))"

definition with_share_retry :: "'w Host \<Rightarrow> bytes \<Rightarrow> ('w \<Rightarrow> fs_error option \<times> 'w) \<Rightarrow> 'w \<Rightarrow> fs_error option \<times> 'w" where
  "with_share_retry host tgt op1 w = share_retry_loop host tgt op1 (delays_from 1) (op1 w)"

fun fopen_loop :: "'w Host \<Rightarrow> bytes \<Rightarrow> bytes \<Rightarrow> nat list \<Rightarrow> 'w \<Rightarrow> (fs_error + nat) \<times> 'w" where
  "fopen_loop host p md [] w = os_fopen host p md w"
| "fopen_loop host p md (d # ds) w =
    (case os_fopen host p md w of
       (Inr fp, w1) \<Rightarrow> (Inr fp, w1)
     | (Inl e, w1) \<Rightarrow> if \<not> os_transient host p e w1 then (Inl e, w1) else fopen_loop host p md ds w1)"

definition fopen_with_retry :: "'w Host \<Rightarrow> bytes \<Rightarrow> bytes \<Rightarrow> 'w \<Rightarrow> (fs_error + nat) \<times> 'w" where
  "fopen_with_retry host p md w = fopen_loop host p md (delays_from 1) w"

definition seek_to :: "'w Host \<Rightarrow> nat \<Rightarrow> u64 \<Rightarrow> 'w \<Rightarrow> bool \<times> 'w" where
  "seek_to host fp offset w =
    (if offset > 0x7FFFFFFFFFFFFFFF then (False, w) else os_fseek host fp offset w)"

section \<open>Mutations\<close>

definition write_ack :: "'w Conn \<Rightarrow> bytes \<Rightarrow> bytes" where
  "write_ack c = write_mutation_ack \<lparr>ack_generation = cn_generation c\<rparr>"

definition send_ok_ack :: "u64 \<Rightarrow> 'w Conn \<Rightarrow> unit result \<times> 'w Conn" where
  "send_ok_ack rid c = reply MsgOk rid (write_ack c) c"

definition handle_create :: "'w Host \<Rightarrow> bytes \<Rightarrow> u64 \<Rightarrow> CreateRequest \<Rightarrow> 'w Conn \<Rightarrow> unit result \<times> 'w Conn" where
  "handle_create host root rid q c =
    (case resolve root (cr_path q) of
       Inl e \<Rightarrow> send_error rid e (cr_path q) c
     | Inr full \<Rightarrow>
         (case run_os (fopen_with_retry host full (lit ''wb'')) c of
            (Inl e, c1) \<Rightarrow> send_error rid IoError (cr_path q) c1
          | (Inr fp, c1) \<Rightarrow>
              let c2 = c1\<lparr>cn_world := os_fclose host fp (cn_world c1)\<rparr>
              in case fs_read_attributes (host_fs host (cn_world c2)) full of
                   Inl e \<Rightarrow> send_error rid e (cr_path q) c2
                 | Inr attr \<Rightarrow> reply MsgCreateResponse rid (\<lambda>out. write_ack c2 (write_attributes attr out)) c2))"

definition handle_write :: "'w Host \<Rightarrow> bytes \<Rightarrow> u64 \<Rightarrow> WriteRequest \<Rightarrow> 'w Conn \<Rightarrow> unit result \<times> 'w Conn" where
  "handle_write host root rid q c =
    (case resolve root (wr_path q) of
       Inl e \<Rightarrow> send_error rid e (wr_path q) c
     | Inr full \<Rightarrow>
         if wr_offset q > kMaxFileOffset then send_error rid InvalidArgument (wr_path q) c
         else
           let (f0, c0) = run_os (fopen_with_retry host full (lit ''r+b'')) c;
               (f1, c1) = (if f0 = Inl NoSuchFile then run_os (fopen_with_retry host full (lit ''w+b'')) c0 else (f0, c0))
           in case f1 of
                Inl e \<Rightarrow> send_error rid IoError (wr_path q) c1
              | Inr fp \<Rightarrow>
                  let (sought, c2) = run_os (seek_to host fp (wr_offset q)) c1
                  in if \<not> sought then send_error rid IoError (wr_path q) (c2\<lparr>cn_world := os_fclose host fp (cn_world c2)\<rparr>)
                     else
                       let (n, c3) = (if wr_data q = [] then (0, c2) else run_os (os_fwrite host fp (wr_data q)) c2);
                           c4 = c3\<lparr>cn_world := os_fclose host fp (cn_world c3)\<rparr>
                       in if n \<noteq> length (wr_data q) then send_error rid IoError (wr_path q) c4
                          else reply MsgWriteResponse rid
                            (write_write_response \<lparr>written = of_nat n, wrs_generation = cn_generation c4\<rparr>) c4)"

definition handle_truncate :: "'w Host \<Rightarrow> bytes \<Rightarrow> u64 \<Rightarrow> TruncateRequest \<Rightarrow> 'w Conn \<Rightarrow> unit result \<times> 'w Conn" where
  "handle_truncate host root rid q c =
    (case resolve root (tr_path q) of
       Inl e \<Rightarrow> send_error rid e (tr_path q) c
     | Inr full \<Rightarrow>
         if tr_size q > kMaxFileOffset then send_error rid InvalidArgument (tr_path q) c
         else case run_os (with_share_retry host full (os_resize_file host full (tr_size q))) c of
           (Some ec, c1) \<Rightarrow> send_error rid (map_fs_error ec) (tr_path q) c1
         | (None, c1) \<Rightarrow> send_ok_ack rid c1)"

definition handle_mkdir :: "'w Host \<Rightarrow> bytes \<Rightarrow> u64 \<Rightarrow> MkdirRequest \<Rightarrow> 'w Conn \<Rightarrow> unit result \<times> 'w Conn" where
  "handle_mkdir host root rid q c =
    (case resolve root (mk_path q) of
       Inl e \<Rightarrow> send_error rid e (mk_path q) c
     | Inr full \<Rightarrow>
         let ((created, ec), c1) = run_os (os_create_directory host full) c
         in if \<not> created \<or> ec \<noteq> None
            then send_error rid (case ec of Some e \<Rightarrow> map_fs_error e | None \<Rightarrow> AlreadyExists) (mk_path q) c1
            else send_ok_ack rid c1)"

text \<open>The operation \<open>unlink\<close> retries: the removal flag of the last attempt is kept with the error.\<close>

fun unlink_loop :: "'w Host \<Rightarrow> bytes \<Rightarrow> nat list \<Rightarrow> (bool \<times> fs_error option) \<times> 'w \<Rightarrow> (bool \<times> fs_error option) \<times> 'w" where
  "unlink_loop host p [] res = res"
| "unlink_loop host p (d # ds) ((removed, ec), w) =
    (case ec of
       None \<Rightarrow> ((removed, ec), w)
     | Some e \<Rightarrow> if os_transient host p e w then unlink_loop host p ds (os_remove host p w) else ((removed, ec), w))"

definition handle_unlink :: "'w Host \<Rightarrow> bytes \<Rightarrow> u64 \<Rightarrow> PathRequest \<Rightarrow> 'w Conn \<Rightarrow> unit result \<times> 'w Conn" where
  "handle_unlink host root rid q c =
    (case resolve root (pr_path q) of
       Inl e \<Rightarrow> send_error rid e (pr_path q) c
     | Inr full \<Rightarrow>
         if is_directory (host_fs host (cn_world c)) full then send_error rid IsADirectory (pr_path q) c
         else
           let ((removed, ec), c1) = run_os (\<lambda>w. unlink_loop host full (delays_from 1) (os_remove host full w)) c
           in case ec of
                Some e \<Rightarrow> send_error rid (map_fs_error e) (pr_path q) c1
              | None \<Rightarrow> if \<not> removed then send_error rid NotFound (pr_path q) c1 else send_ok_ack rid c1)"

definition handle_rmdir :: "'w Host \<Rightarrow> bytes \<Rightarrow> u64 \<Rightarrow> PathRequest \<Rightarrow> 'w Conn \<Rightarrow> unit result \<times> 'w Conn" where
  "handle_rmdir host root rid q c =
    (case resolve root (pr_path q) of
       Inl e \<Rightarrow> send_error rid e (pr_path q) c
     | Inr full \<Rightarrow>
         if \<not> is_directory (host_fs host (cn_world c)) full then send_error rid NotADirectory (pr_path q) c
         else
           let ((removed, ec), c1) = run_os (os_remove host full) c
           in if \<not> removed \<or> ec \<noteq> None
              then send_error rid (case ec of Some e \<Rightarrow> map_fs_error e | None \<Rightarrow> NotFound) (pr_path q) c1
              else send_ok_ack rid c1)"

definition handle_rename :: "'w Host \<Rightarrow> bytes \<Rightarrow> u64 \<Rightarrow> RenameRequest \<Rightarrow> 'w Conn \<Rightarrow> unit result \<times> 'w Conn" where
  "handle_rename host root rid q c =
    (case (resolve root (from_path q), resolve root (to_path q)) of
       (Inl e, _) \<Rightarrow> send_error rid e (from_path q) c
     | (Inr from, Inl e) \<Rightarrow> send_error rid e (to_path q) c
     | (Inr from, Inr to) \<Rightarrow>
         (case run_os (with_share_retry host to (os_rename host from to)) c of
            (Some ec, c1) \<Rightarrow> send_error rid (map_fs_error ec) (to_path q) c1
          | (None, c1) \<Rightarrow> send_ok_ack rid c1))"

text \<open>Decoding the request is common to all branches: a payload that does not parse ends the session.\<close>

definition with_request :: "'q rd \<Rightarrow> Frame \<Rightarrow> ('q \<Rightarrow> 'w Conn \<Rightarrow> unit result \<times> 'w Conn) \<Rightarrow> 'w Conn \<Rightarrow> unit result \<times> 'w Conn" where
  "with_request rd f k c =
    (case fst (rd (Reader_init (fr_payload f))) of Inl e \<Rightarrow> (fail e, c) | Inr q \<Rightarrow> k q c)"

definition handle_mutation :: "'w Host \<Rightarrow> bytes \<Rightarrow> Frame \<Rightarrow> 'w Conn \<Rightarrow> unit result \<times> 'w Conn" where
  "handle_mutation host root f c =
    (let rid = request_id (fr_header f); t = ftype (fr_header f) in
     if t = MsgCreateRequest then with_request read_create_request f (handle_create host root rid) c
     else if t = MsgWriteRequest then with_request read_write_request f (handle_write host root rid) c
     else if t = MsgTruncateRequest then with_request read_truncate_request f (handle_truncate host root rid) c
     else if t = MsgMkdirRequest then with_request read_mkdir_request f (handle_mkdir host root rid) c
     else if t = MsgUnlinkRequest then with_request read_path_request f (handle_unlink host root rid) c
     else if t = MsgRmdirRequest then with_request read_path_request f (handle_rmdir host root rid) c
     else if t = MsgRenameRequest then with_request read_rename_request f (handle_rename host root rid) c
     else send_error rid ProtocolError (lit ''not a mutation'') c)"

section \<open>Reads\<close>

text \<open>The part of \<open>send_read\<close> behind the size check: fetch \<open>want\<close> bytes at \<open>offset\<close> and answer.\<close>

definition read_slice ::
  "'w Host \<Rightarrow> u64 \<Rightarrow> bytes \<Rightarrow> bytes \<Rightarrow> u64 \<Rightarrow> u64 \<Rightarrow> u64 \<Rightarrow> 'w Conn \<Rightarrow> unit result \<times> 'w Conn" where
  "read_slice host rid rel full sz offset want c =
    (if want = 0 then reply MsgReadResponse rid (write_read_response \<lparr>file_size = sz, rs_data = []\<rparr>) c
     else
       (case run_os (os_fopen host full (lit ''rb'')) c of
          (Inl e, c1) \<Rightarrow> send_error rid IoError rel c1
        | (Inr fp, c1) \<Rightarrow>
            let (sought, c2) = run_os (seek_to host fp offset) c1
            in if \<not> sought then send_error rid IoError rel (c2\<lparr>cn_world := os_fclose host fp (cn_world c2)\<rparr>)
               else
                 let (got, c3) = run_os (os_fread host fp (unat want)) c2;
                     c4 = c3\<lparr>cn_world := os_fclose host fp (cn_world c3)\<rparr>
                 in reply MsgReadResponse rid (write_read_response \<lparr>file_size = sz, rs_data = got\<rparr>) c4))"

definition send_read :: "'w Host \<Rightarrow> bytes \<Rightarrow> u64 \<Rightarrow> ReadRequest \<Rightarrow> 'w Conn \<Rightarrow> unit result \<times> 'w Conn" where
  "send_read host root rid q c =
    (let rel = normalize_path (rr_path q) in
     case resolve root rel of
       Inl e \<Rightarrow> send_error rid InvalidPath (lit ''path outside the served root'') c
     | Inr full \<Rightarrow>
         (case fs_file_size (host_fs host (cn_world c)) full of
            None \<Rightarrow> send_error rid NotFound rel c
          | Some sz \<Rightarrow>
              let offset = min (rr_offset q) sz;
                  want = min (ucast (rr_length q)) (sz - offset)
              in if want > ucast (kMaxPayload - 64) then send_error rid TooLarge (lit ''read too large'') c
                 else read_slice host rid rel full sz offset want c))"

text \<open>One path of a bulk read: the item, the running tot and the connection afterwards.\<close>

definition read_many_one :: "'w Host \<Rightarrow> bytes \<Rightarrow> bytes \<Rightarrow> nat \<Rightarrow> 'w Conn \<Rightarrow> ReadManyItem \<times> nat \<times> 'w Conn" where
  "read_many_one host root p tot c =
    (let skipped = (\<lparr>item_ok = False, item_data = []\<rparr>, tot, c);
         cap = unat kMaxPayload - 0x10000
     in case resolve root (normalize_path p) of
          Inl e \<Rightarrow> skipped
        | Inr full \<Rightarrow>
            (case fs_file_size (host_fs host (cn_world c)) full of
               None \<Rightarrow> skipped
             | Some sz \<Rightarrow>
                 if unat sz > 0x1000000 \<or> tot + unat sz > cap then skipped
                 else
                   (case run_os (os_fopen host full (lit ''rb'')) c of
                      (Inl e, c1) \<Rightarrow> (\<lparr>item_ok = False, item_data = []\<rparr>, tot, c1)
                    | (Inr fp, c1) \<Rightarrow>
                        let (got, c2) = (if sz = 0 then ([], c1) else run_os (os_fread host fp (unat sz)) c1)
                        in (\<lparr>item_ok = True, item_data = got\<rparr>, tot + length got,
                            c2\<lparr>cn_world := os_fclose host fp (cn_world c2)\<rparr>))))"

primrec read_many_loop :: "'w Host \<Rightarrow> bytes \<Rightarrow> bytes list \<Rightarrow> nat \<Rightarrow> 'w Conn \<Rightarrow> ReadManyItem list \<times> 'w Conn" where
  "read_many_loop host root [] tot c = ([], c)"
| "read_many_loop host root (p # ps) tot c =
    (let (it, total1, c1) = read_many_one host root p tot c;
         (its, c2) = read_many_loop host root ps total1 c1
     in (it # its, c2))"

definition send_read_many :: "'w Host \<Rightarrow> bytes \<Rightarrow> u64 \<Rightarrow> ReadManyRequest \<Rightarrow> 'w Conn \<Rightarrow> unit result \<times> 'w Conn" where
  "send_read_many host root rid q c =
    (let (its, c1) = read_many_loop host root (paths q) 0 c
     in reply MsgReadManyResponse rid (write_read_many_response \<lparr>items = its\<rparr>) c1)"

definition send_readlink :: "'w Host \<Rightarrow> bytes \<Rightarrow> u64 \<Rightarrow> PathRequest \<Rightarrow> 'w Conn \<Rightarrow> unit result \<times> 'w Conn" where
  "send_readlink host root rid q c =
    (case resolve root (pr_path q) of
       Inl e \<Rightarrow> send_error rid InvalidPath (lit ''path outside the served root'') c
     | Inr full \<Rightarrow>
         (case os_read_symlink host full (cn_world c) of
            Inl ec \<Rightarrow> send_error rid (if ec = InvalidArg then InvalidArgument else map_fs_error ec) (pr_path q) c
          | Inr t \<Rightarrow> reply MsgReadlinkResponse rid (write_readlink_response \<lparr>target = t\<rparr>) c))"

end
