(* ===== verification/Server.thy ===== *)
theory Server
  imports ServerFiles
begin

text \<open>
  The session side of \<open>src/agent/server.hpp\<close>, \<open>server.cpp\<close>: the mutual handshake, the dispatch of requests,
  snapshot streaming, the session loop \<open>serve\<close> and the set of peers that receive invalidations.

  One session runs sequentially; the other threads of the server reach it through the shared peer list,
  the stop flag and the generation counter, which the step relation below lets change at any point
  between two iterations of the loop.
\<close>

section \<open>Environment and session state\<close>

record Handshake =
  greeted :: bool
  client_nonce :: bytes
  server_nonce :: bytes

definition Handshake_init :: Handshake where
  "Handshake_init = \<lparr>greeted = False, client_nonce = [], server_nonce = []\<rparr>"

text \<open>
  What a session reads but never writes: the options, the host, BLAKE3, the agent string (generated by
  the build), the ignore rules, whether a watcher runs, and the fuel of the directory walk.
\<close>

record ('w, 'h) ServerEnv =
  env_opts :: ServerOptions
  env_host :: "'w Host"
  env_api :: "'h blake3_api"
  env_agent :: bytes
  env_ignore :: IgnoreRules
  env_watching :: bool
  env_fuel :: nat

record Session =
  authed :: bool
  registered :: bool
  hs :: Handshake

section \<open>Snapshots\<close>

record 'w SnapshotSend =
  ss_entries :: bytes
  ss_count :: u32
  ss_rc :: "unit result"
  ss_conn :: "'w Conn"

definition snapshot_flush :: "u64 \<Rightarrow> u64 \<Rightarrow> bool \<Rightarrow> 'w SnapshotSend \<Rightarrow> unit result \<times> 'w SnapshotSend" where
  "snapshot_flush rid gen has_more st =
    (let frame = write_frame [] MsgSnapshot rid
           (\<lambda>w. Writer_raw (ss_entries st) (write_snapshot_header gen (ss_count st) w)) (if has_more then kFlagMore else 0);
         (r, ch) = send_raw frame (cn_chan (ss_conn st))
     in (r, st\<lparr>ss_entries := [], ss_count := 0, ss_conn := (ss_conn st)\<lparr>cn_chan := ch\<rparr>\<rparr>))"

definition snapshot_on_entry :: "u64 \<Rightarrow> u64 \<Rightarrow> nat \<Rightarrow> SnapshotEntry \<Rightarrow> 'w SnapshotSend \<Rightarrow> 'w SnapshotSend" where
  "snapshot_on_entry rid gen budget e st =
    (if isl (ss_rc st) then st
     else
       let st1 = st\<lparr>ss_entries := write_snapshot_entry e (ss_entries st), ss_count := ss_count st + 1\<rparr>
       in if length (ss_entries st1) \<ge> budget
          then let (r, st2) = snapshot_flush rid gen True st1 in st2\<lparr>ss_rc := r\<rparr>
          else st1)"

definition snapshot_skip :: "IgnoreRules \<Rightarrow> bytes \<Rightarrow> bool \<Rightarrow> 's \<Rightarrow> bool" where
  "snapshot_skip rules rel isdir s = (if rules = [] then False else ignored rules rel isdir)"

definition send_snapshot :: "('w, 'h) ServerEnv \<Rightarrow> u64 \<Rightarrow> 'w Conn \<Rightarrow> (unit result \<times> 'w Conn) option" where
  "send_snapshot env rid c =
    (let gen = cn_generation c; o1 = env_opts env;
         budget = so_snapshot_chunk_bytes o1;
         st0 = \<lparr>ss_entries = [], ss_count = 0, ss_rc = ok (), ss_conn = c\<rparr>
     in case scan_tree (env_fuel env) (host_fs (env_host env) (cn_world c)) (so_root o1)
            (snapshot_on_entry rid gen budget) (snapshot_skip (env_ignore env)) (so_one_file_system o1) st0 of
          None \<Rightarrow> None
        | Some (Inl e, st) \<Rightarrow> Some (send_error rid e (lit ''scan failed'') (ss_conn st))
        | Some (Inr _, st) \<Rightarrow>
            if isl (ss_rc st) then Some (ss_rc st, ss_conn st)
            else let (r, st1) = snapshot_flush rid gen False st in Some (r, ss_conn st1))"

section \<open>Dispatch\<close>

type_synonym 'w handled = "unit result \<times> Session \<times> 'w Conn"

definition server_hello :: "('w, 'h) ServerEnv \<Rightarrow> bytes \<Rightarrow> bytes \<Rightarrow> Hello" where
  "server_hello env nonce1 proof1 =
    \<lparr>protocol_version = ucast kVersion, capabilities = (if env_watching env then 1 else 0),
     agent = env_agent env, nonce = nonce1, proof_of = proof1\<rparr>"

text \<open>Send an error, ignore whether that worked, and end the session with \<open>e\<close>.\<close>

definition refuse :: "u64 \<Rightarrow> Errc \<Rightarrow> bytes \<Rightarrow> Session \<Rightarrow> 'w Conn \<Rightarrow> 'w handled" where
  "refuse rid e dt s c = (fail e, s, snd (send_error rid e dt c))"

definition handle_hello :: "('w, 'h) ServerEnv \<Rightarrow> Frame \<Rightarrow> Session \<Rightarrow> 'w Conn \<Rightarrow> 'w handled" where
  "handle_hello env f s c =
    (let rid = request_id (fr_header f) in
     case fst (read_hello (Reader_init (fr_payload f))) of
       Inl e \<Rightarrow> (fail e, s, c)
     | Inr hello \<Rightarrow>
         if protocol_version hello \<noteq> ucast kVersion
         then refuse rid UnsupportedVersion (lit ''protocol version mismatch'') s c
         else
           let s1 = s\<lparr>hs := (hs s)\<lparr>client_nonce := nonce hello\<rparr>\<rparr>
           in if so_token (env_opts env) = [] then
                let s2 = s1\<lparr>authed := True\<rparr>;
                    (r, c1) = reply MsgHelloAck rid (write_hello (server_hello env [] [])) c
                in (r, s2, c1)
              else if client_nonce (hs s1) = [] then
                refuse rid Unauthorized (lit ''authentication failed'') s1 c
              else
                let sn = generate_auth_nonce (os_getrandom (env_host env) (cn_nonces c));
                    c1 = c\<lparr>cn_nonces := cn_nonces c + 1\<rparr>;
                    s2 = s1\<lparr>hs := (hs s1)\<lparr>server_nonce := sn\<rparr>\<rparr>
                in if sn = [] then refuse rid IoError (lit ''no entropy source for the handshake'') s2 c1
                   else
                     let server_proof = auth_proof (env_api env) (so_token (env_opts env)) (client_nonce (hs s2)) sn True;
                         s3 = s2\<lparr>hs := (hs s2)\<lparr>greeted := True\<rparr>\<rparr>;
                         (r, c2) = reply MsgHelloAck rid (write_hello (server_hello env sn server_proof)) c1
                     in (r, s3, c2))"

definition handle_auth :: "('w, 'h) ServerEnv \<Rightarrow> Frame \<Rightarrow> Session \<Rightarrow> 'w Conn \<Rightarrow> 'w handled" where
  "handle_auth env f s c =
    (let rid = request_id (fr_header f) in
     if \<not> greeted (hs s) then refuse rid Unauthorized (lit ''Auth before Hello'') s c
     else
       case fst (read_hello (Reader_init (fr_payload f))) of
         Inl e \<Rightarrow> (fail e, s, c)
       | Inr msg \<Rightarrow>
           let expected = auth_proof (env_api env) (so_token (env_opts env)) (client_nonce (hs s)) (server_nonce (hs s)) False
           in if \<not> constant_time_equal (proof_of msg) expected
              then refuse rid Unauthorized (lit ''authentication failed'') s c
              else
                let s1 = s\<lparr>authed := True\<rparr>;
                    (r, ch) = send MsgOk rid [] 0 (cn_chan c)
                in (r, s1, c\<lparr>cn_chan := ch\<rparr>))"

definition keep_session :: "Session \<Rightarrow> unit result \<times> 'w Conn \<Rightarrow> 'w handled" where
  "keep_session s rc = (let (r, c) = rc in (r, s, c))"

definition is_mutation :: "MsgType \<Rightarrow> bool" where
  "is_mutation t \<longleftrightarrow> t \<in> set [MsgWriteRequest, MsgCreateRequest, MsgMkdirRequest, MsgUnlinkRequest, MsgRmdirRequest,
     MsgRenameRequest, MsgTruncateRequest]"

definition handle :: "('w, 'h) ServerEnv \<Rightarrow> Frame \<Rightarrow> Session \<Rightarrow> 'w Conn \<Rightarrow> 'w handled option" where
  "handle env f s c =
    (let t = ftype (fr_header f); rid = request_id (fr_header f);
         host = env_host env; rt = so_root (env_opts env)
     in if t \<noteq> MsgHello \<and> t \<noteq> MsgAuth \<and> \<not> authed s
        then Some (refuse rid Unauthorized (lit ''authenticate first'') s c)
        else if t = MsgHello then Some (handle_hello env f s c)
        else if t = MsgAuth then Some (handle_auth env f s c)
        else if t = MsgPing then
          (let (r, ch) = send MsgPong rid [] 0 (cn_chan c) in Some (r, s, c\<lparr>cn_chan := ch\<rparr>))
        else if t = MsgSnapshotRequest then map_option (keep_session s) (send_snapshot env rid c)
        else if t = MsgReadRequest then
          Some (keep_session s (with_request read_read_request f (send_read host rt rid) c))
        else if t = MsgReadManyRequest then
          Some (keep_session s (with_request read_read_many_request f (send_read_many host rt rid) c))
        else if t = MsgReadlinkRequest then
          Some (keep_session s (with_request read_path_request f (send_readlink host rt rid) c))
        else if is_mutation t then Some (keep_session s (handle_mutation host rt f c))
        else Some (keep_session s (send_error rid ProtocolError (lit ''unexpected message type'') c)))"

section \<open>The session loop\<close>

record 'w ServeState =
  sv_conn :: "'w Conn"
  sv_sess :: Session
  sv_peers :: "nat list"
  sv_stopping :: bool

text \<open>The answer of one iteration: go round again, or leave the loop.\<close>

datatype 'w serve_next = Again "'w ServeState" | Leave "'w ServeState"

definition kPreAuthMaxPayload :: u32 where "kPreAuthMaxPayload = 4096"

text \<open>\<open>me\<close> stands for the address of the session's channel.\<close>

definition add_peer :: "nat \<Rightarrow> 'w ServeState \<Rightarrow> bool \<times> 'w ServeState" where
  "add_peer me st =
    (if sv_stopping st then (False, st) else (True, st\<lparr>sv_peers := sv_peers st @ [me]\<rparr>))"

definition after_handle :: "nat \<Rightarrow> bool \<Rightarrow> 'w ServeState \<Rightarrow> 'w serve_next" where
  "after_handle me was_authed st =
    (let st1 = (if authed (sv_sess st) \<and> \<not> was_authed
                then st\<lparr>sv_conn := (sv_conn st)\<lparr>cn_chan := set_receive_limits kMaxPayload 0 (cn_chan (sv_conn st))\<rparr>\<rparr>
                else st)
     in if authed (sv_sess st1) \<and> \<not> registered (sv_sess st1) then
          (let (reg, st2) = add_peer me st1
           in if reg then Again (st2\<lparr>sv_sess := (sv_sess st2)\<lparr>registered := True\<rparr>\<rparr>) else Leave st2)
        else Again st1)"

definition on_poll_timeout :: "int \<Rightarrow> 'w ServeState \<Rightarrow> 'w serve_next" where
  "on_poll_timeout limit st =
    (if sv_stopping st then Leave st
     else if authed (sv_sess st) then Again st
     else
       let c = sv_conn st;
           (now, s) = clock_now (sock (cn_chan c));
           c1 = c\<lparr>cn_chan := (cn_chan c)\<lparr>sock := s\<rparr>\<rparr>
       in if now \<ge> limit
          then Leave (st\<lparr>sv_conn := snd (send_error 0 Timeout (lit ''handshake timeout'') c1)\<rparr>)
          else Again (st\<lparr>sv_conn := c1\<rparr>))"

definition serve_step :: "('w, 'h) ServerEnv \<Rightarrow> nat \<Rightarrow> int \<Rightarrow> 'w ServeState \<Rightarrow> 'w serve_next option" where
  "serve_step env me limit st =
    (let (f, ch) = receive_for 200 (cn_chan (sv_conn st));
         st1 = st\<lparr>sv_conn := (sv_conn st)\<lparr>cn_chan := ch\<rparr>\<rparr>
     in case f of
          Inl e \<Rightarrow> Some (if e = Timeout then on_poll_timeout limit st1 else Leave st1)
        | Inr fr \<Rightarrow>
            (case handle env fr (sv_sess st1) (sv_conn st1) of
               None \<Rightarrow> None
             | Some (r, s, c) \<Rightarrow>
                 let st2 = st1\<lparr>sv_sess := s, sv_conn := c\<rparr>
                 in Some (if isl r then Leave st2 else after_handle me (authed (sv_sess st1)) st2)))"

fun serve_loop :: "nat \<Rightarrow> ('w, 'h) ServerEnv \<Rightarrow> nat \<Rightarrow> int \<Rightarrow> 'w ServeState \<Rightarrow> 'w ServeState option" where
  "serve_loop 0 env me limit st = None"
| "serve_loop (Suc fuel) env me limit st =
    (case serve_step env me limit st of
       None \<Rightarrow> None
     | Some (Leave st1) \<Rightarrow> Some st1
     | Some (Again st1) \<Rightarrow> serve_loop fuel env me limit st1)"

text \<open>The code before the loop: \<open>None\<close> when the session is turned away, else the state and the deadline.\<close>

definition serve_start :: "('w, 'h) ServerEnv \<Rightarrow> nat \<Rightarrow> 'w Conn \<Rightarrow> nat list \<Rightarrow> bool \<Rightarrow> ('w ServeState \<times> int) option" where
  "serve_start env me c peers stopping =
    (let unguarded = (so_token (env_opts env) = []);
         st0 = \<lparr>sv_conn = c, sv_sess = \<lparr>authed = unguarded, registered = False, hs = Handshake_init\<rparr>,
                sv_peers = peers, sv_stopping = stopping\<rparr>
     in if stopping then None
        else
          let st1 = (if unguarded then (snd (add_peer me st0))\<lparr>sv_sess := (sv_sess st0)\<lparr>registered := True\<rparr>\<rparr> else st0);
              (now, s) = clock_now (sock (cn_chan c));
              ch1 = (cn_chan c)\<lparr>sock := s\<rparr>;
              ch2 = (if unguarded then ch1
                     else set_receive_limits kPreAuthMaxPayload (so_handshake_timeout (env_opts env)) ch1)
          in Some (st1\<lparr>sv_conn := c\<lparr>cn_chan := ch2\<rparr>\<rparr>, now + so_handshake_timeout (env_opts env) * 1000000))"

definition serve_finish :: "nat \<Rightarrow> 'w ServeState \<Rightarrow> 'w ServeState" where
  "serve_finish me st = st\<lparr>sv_peers := filter (\<lambda>p. p \<noteq> me) (sv_peers st)\<rparr>"

definition serve :: "nat \<Rightarrow> ('w, 'h) ServerEnv \<Rightarrow> nat \<Rightarrow> 'w Conn \<Rightarrow> nat list \<Rightarrow> bool \<Rightarrow> 'w ServeState option" where
  "serve fuel env me c peers stopping =
    (case serve_start env me c peers stopping of
       None \<Rightarrow> Some \<lparr>sv_conn = c, sv_sess = \<lparr>authed = so_token (env_opts env) = [], registered = False, hs = Handshake_init\<rparr>,
                     sv_peers = peers, sv_stopping = stopping\<rparr>
     | Some (st, limit) \<Rightarrow> map_option (serve_finish me) (serve_loop fuel env me limit st))"

end
