(* ===== verification/ServerFlush.thy ===== *)
theory ServerFlush
  imports Server
begin

text \<open>
  The flusher of \<open>src/agent/server.cpp\<close>: events enter the coalescer, a batch that is ready is resolved
  against the disk, directories that have appeared are expanded, and the batch goes out to every peer in
  frames of bounded size.

  The pass over one batch runs without the locks and is a function; the waits of \<open>flush_loop\<close> are the
  answer \<open>FlushWait\<close>.  A shut-down channel is one whose kernel scripts have ended.
\<close>

section \<open>Broadcasting\<close>

definition FrameChannel_shutdown :: "FrameChannel \<Rightarrow> FrameChannel" where
  "FrameChannel_shutdown ch = ch\<lparr>sock := (sock ch)\<lparr>sends := [], recvs := [], selects := []\<rparr>\<rparr>"

definition broadcast_one :: "bytes \<Rightarrow> FrameChannel \<Rightarrow> FrameChannel" where
  "broadcast_one frame ch =
    (let (r, ch1) = send_raw frame ch in if r = fail Timeout then FrameChannel_shutdown ch1 else ch1)"

definition broadcast :: "bytes \<Rightarrow> FrameChannel list \<Rightarrow> FrameChannel list" where
  "broadcast frame peers = map (broadcast_one frame) peers"

text \<open>The inner loop of \<open>broadcast_batch\<close>: what goes into the frame, and the rest.\<close>

fun split_chunk :: "nat \<Rightarrow> nat \<Rightarrow> bool \<Rightarrow> InvalidationOp list \<Rightarrow> InvalidationOp list \<times> InvalidationOp list" where
  "split_chunk budget n started [] = ([], [])"
| "split_chunk budget n started (x # xs) =
    (let n1 = n + length (op_path x) + 32 in
     if n1 > budget \<and> started then ([], x # xs)
     else let (c, r) = split_chunk budget n1 True xs in (x # c, r))"

lemma split_chunk_append: "fst (split_chunk b n s xs) @ snd (split_chunk b n s xs) = xs"
  by (induction b n s xs rule: split_chunk.induct) (auto simp: Let_def split_beta)

lemma split_chunk_rest: "length (snd (split_chunk b n s xs)) \<le> length xs"
  by (metis length_append le_add2 split_chunk_append)

function batch_chunks :: "nat \<Rightarrow> InvalidationOp list \<Rightarrow> InvalidationOp list list" where
  "batch_chunks budget xs =
    (if xs = [] then [] else let (c, r) = split_chunk budget 0 False xs in c # batch_chunks budget r)"
  by pat_completeness auto
termination
proof (relation "measure (\<lambda>(b, xs). length xs)", goal_cases)
  case (2 b xs y c r)
  then obtain x ys where "xs = x # ys" by (cases xs) auto
  then show ?case using 2 split_chunk_rest [of b "length (op_path x) + 32" True ys]
    by (auto simp: Let_def split_beta)
qed simp

declare batch_chunks.simps [simp del]

definition batch_budget :: "ServerOptions \<Rightarrow> nat" where
  "batch_budget o1 = min (so_snapshot_chunk_bytes o1) (unat (kMaxPayload div 2))"

definition batch_frame :: "u64 \<Rightarrow> InvalidationOp list \<Rightarrow> bytes" where
  "batch_frame gen chunk = write_frame [] MsgInvalidation 0 (write_invalidation \<lparr>generation = gen, ops = chunk\<rparr>) 0"

definition broadcast_batch :: "ServerOptions \<Rightarrow> InvalidationBatch \<Rightarrow> FrameChannel list \<Rightarrow> FrameChannel list" where
  "broadcast_batch o1 batch peers =
    foldl (\<lambda>ps chunk. broadcast (batch_frame (generation batch) chunk) ps) peers (batch_chunks (batch_budget o1) (ops batch))"

section \<open>Expanding directories\<close>

record SubtreeScan =
  su_ops :: "InvalidationOp list"
  su_appended :: nat
  su_over :: bool
  su_rels :: "bytes list"

definition subtree_on_entry :: "nat \<Rightarrow> bytes set \<Rightarrow> SnapshotEntry \<Rightarrow> SubtreeScan \<Rightarrow> SubtreeScan" where
  "subtree_on_entry max_entries present e st =
    (let p = su_rels st ! unat (e_parent e) @ slash # e_name e;
         n = su_appended st + 1;
         ov = (su_over st \<or> n > max_entries);
         os = (if \<not> ov \<and> p \<notin> present
               then su_ops st @ [\<lparr>op_kind = Upsert, op_path = p, op_attr = e_attr e, op_change = Created, op_cookie = 0\<rparr>]
               else su_ops st)
     in \<lparr>su_ops = os, su_appended = n, su_over = ov, su_rels = su_rels st @ [p]\<rparr>)"

definition subtree_skip :: "IgnoreRules \<Rightarrow> bytes \<Rightarrow> bytes \<Rightarrow> bool \<Rightarrow> SubtreeScan \<Rightarrow> bool" where
  "subtree_skip rules rel sub isdir st =
    (if su_over st then True else rules \<noteq> [] \<and> ignored rules (rel @ slash # sub) isdir)"

fun subtrees_loop ::
  "('w, 'h) ServerEnv \<Rightarrow> 'w \<Rightarrow> bytes set \<Rightarrow> bytes list \<Rightarrow> bytes \<Rightarrow> SubtreeScan \<Rightarrow> SubtreeScan option" where
  "subtrees_loop env w present [] last_root st = Some st"
| "subtrees_loop env w present (rel # dirs) last_root st =
    (if last_root \<noteq> [] \<and> path_is_under rel last_root then subtrees_loop env w present dirs last_root st
     else
       case scan_tree (env_fuel env) (host_fs (env_host env) w) (join_relative (so_root (env_opts env)) rel)
              (subtree_on_entry (so_max_expanded_entries (env_opts env)) present)
              (subtree_skip (env_ignore env) rel) (so_one_file_system (env_opts env)) (st\<lparr>su_rels := [rel]\<rparr>) of
         None \<Rightarrow> None
       | Some (_, st1) \<Rightarrow> if su_over st1 then Some st1 else subtrees_loop env w present dirs rel st1)"

definition rescan_op :: InvalidationOp where
  "rescan_op = \<lparr>op_kind = Rescan, op_path = [], op_attr = default_attributes, op_change = Unknown, op_cookie = 0\<rparr>"

definition append_subtrees ::
  "('w, 'h) ServerEnv \<Rightarrow> 'w \<Rightarrow> bytes list \<Rightarrow> InvalidationOp list \<Rightarrow> InvalidationOp list option" where
  "append_subtrees env w dirs os =
    (case subtrees_loop env w (op_path ` set os) (sort dirs) []
        \<lparr>su_ops = os, su_appended = 0, su_over = False, su_rels = []\<rparr> of
       None \<Rightarrow> None
     | Some st \<Rightarrow> Some (if su_over st then os @ [rescan_op] else su_ops st))"

section \<open>Resolving a batch\<close>

definition op_ignored :: "IgnoreRules \<Rightarrow> PlannedOp \<Rightarrow> bool" where
  "op_ignored rules x \<longleftrightarrow> rules \<noteq> [] \<and> po_kind x \<noteq> Rescan \<and>
     (ignored rules (po_path x) False \<or> ignored rules (po_path x) True)"

text \<open>One planned operation against the disk: \<open>None\<close> when it is not sent.\<close>

definition resolve_op :: "('w, 'h) ServerEnv \<Rightarrow> 'w \<Rightarrow> PlannedOp \<Rightarrow> InvalidationOp option" where
  "resolve_op env w x =
    (if op_ignored (env_ignore env) x then None
     else
       let out = \<lparr>op_kind = po_kind x, op_path = po_path x, op_attr = default_attributes,
                  op_change = po_change x, op_cookie = po_cookie x\<rparr>
       in if po_kind x = Rescan then Some out
          else case fs_read_attributes (host_fs (env_host env) w) (join_relative (so_root (env_opts env)) (po_path x)) of
            Inl e \<Rightarrow>
              Some (if op_change out \<noteq> MovedFrom then out\<lparr>op_kind := Remove, op_change := Removed, op_cookie := 0\<rparr>
                    else out\<lparr>op_kind := Remove\<rparr>)
          | Inr attr \<Rightarrow>
              if kind attr = Other then None
              else
                let out1 = out\<lparr>op_kind := Upsert, op_attr := attr\<rparr>
                in Some (if op_change out1 = Removed \<or> op_change out1 = MovedFrom
                         then out1\<lparr>op_change := Modified, op_cookie := 0\<rparr> else out1))"

definition wants_expansion :: "PlannedOp \<Rightarrow> InvalidationOp \<Rightarrow> bool" where
  "wants_expansion x out \<longleftrightarrow> po_appeared x \<and> op_kind out = Upsert \<and> kind (op_attr out) = Directory"

fun resolve_ops :: "('w, 'h) ServerEnv \<Rightarrow> 'w \<Rightarrow> PlannedOp list \<Rightarrow> InvalidationOp list \<times> bytes list" where
  "resolve_ops env w [] = ([], [])"
| "resolve_ops env w (x # xs) =
    (let (os, ds) = resolve_ops env w xs in
     case resolve_op env w x of
       None \<Rightarrow> (os, ds)
     | Some out \<Rightarrow> (out # os, if wants_expansion x out then op_path out # ds else ds))"

definition repair_ops :: "InvalidationOp list \<Rightarrow> InvalidationOp list" where
  "repair_ops = repair_move_pairs op_change op_cookie (\<lambda>ch ck x. x\<lparr>op_change := ch, op_cookie := ck\<rparr>)"

definition resolve_batch :: "('w, 'h) ServerEnv \<Rightarrow> 'w \<Rightarrow> PlannedOp list \<Rightarrow> InvalidationOp list option" where
  "resolve_batch env w plan =
    (let (os, ds) = resolve_ops env w plan in
     case (if ds \<noteq> [] then append_subtrees env w ds os else Some os) of
       None \<Rightarrow> None
     | Some os1 \<Rightarrow> Some (repair_ops os1))"

section \<open>The flusher\<close>

record Flusher =
  fl_coalescer :: Coalescer
  fl_generation :: u64
  fl_peers :: "FrameChannel list"

definition on_event :: "FsEvent \<Rightarrow> int \<Rightarrow> Flusher \<Rightarrow> Flusher" where
  "on_event ev now fl = fl\<lparr>fl_coalescer := push (fl_coalescer fl) ev now\<rparr>"

text \<open>One turn of the loop at time \<open>now\<close>: wait for events, wait for the deadline, or flush.\<close>

datatype flush_turn = FlushWait | FlushUntil int | Flushed "InvalidationOp list" Flusher

definition flush_step :: "('w, 'h) ServerEnv \<Rightarrow> 'w \<Rightarrow> int \<Rightarrow> Flusher \<Rightarrow> flush_turn option" where
  "flush_step env w now fl =
    (if coalescer_empty (fl_coalescer fl) then Some FlushWait
     else if \<not> ready (fl_coalescer fl) now then Some (FlushUntil (the (deadline (fl_coalescer fl))))
     else
       let (plan, c1) = take_batch (fl_coalescer fl); gen = fl_generation fl + 1
       in case resolve_batch env w plan of
            None \<Rightarrow> None
          | Some os \<Rightarrow>
              Some (Flushed os (fl\<lparr>fl_coalescer := c1, fl_generation := gen,
                fl_peers := (if os \<noteq> [] then broadcast_batch (env_opts env) \<lparr>generation = gen, ops = os\<rparr> (fl_peers fl)
                             else fl_peers fl)\<rparr>)))"

end
