(* ===== verification/ServerFlushProps.thy ===== *)
theory ServerFlushProps
  imports ServerFlush
begin

text \<open>
  The guarantees of the flusher: the frames of a batch carry all of it in order and can always be sent,
  a flushed operation says what the disk says, and the expansion of new directories is bounded.
\<close>

section \<open>Examples to evaluate\<close>

definition demo_flush_host :: "unit Host" where
  "demo_flush_host = \<lparr>host_fs = (\<lambda>_. demo_fs), os_fopen = (\<lambda>p m w. (Inl NoSuchFile, w)), os_fseek = (\<lambda>h o1 w. (False, w)),
     os_fread = (\<lambda>h n w. ([], w)), os_fwrite = (\<lambda>h d w. (0, w)), os_fclose = (\<lambda>h w. w),
     os_resize_file = (\<lambda>p n w. (Some NoSuchFile, w)), os_create_directory = (\<lambda>p w. ((False, Some FileExists), w)),
     os_remove = (\<lambda>p w. ((False, None), w)), os_rename = (\<lambda>p q w. (Some NoSuchFile, w)),
     os_read_symlink = (\<lambda>p w. Inl NoSuchFile), os_transient = (\<lambda>p e w. False), os_getrandom = (\<lambda>g k n. replicate n 7)\<rparr>"

definition demo_options :: ServerOptions where
  "demo_options = \<lparr>so_root = lit ''/r'', so_watch = True, so_coalescer = \<lparr>max_pending = 8, quiet_period = 1, max_latency = 2\<rparr>,
     so_snapshot_chunk_bytes = 1, so_one_file_system = True, so_token = lit ''secret'', so_handshake_timeout = 10000,
     so_broadcast_timeout = 5000, so_max_expanded_entries = 100\<rparr>"

definition demo_flush_env :: "(unit, unit) ServerEnv" where
  "demo_flush_env = \<lparr>env_opts = demo_options, env_host = demo_flush_host,
     env_api = \<lparr>hasher_init = (), hasher_update = (\<lambda>h b. h), hasher_finalize = (\<lambda>h. replicate 32 0)\<rparr>,
     env_agent = lit ''wsldrived'', env_ignore = [], env_watching = False, env_fuel = 2\<rparr>"

section \<open>Frames of a batch\<close>

definition ops_estimate :: "InvalidationOp list \<Rightarrow> nat" where
  "ops_estimate xs = (\<Sum>x \<leftarrow> xs. length (op_path x) + 32)"

lemma split_chunk_estimate:
  assumes "n \<le> budget \<or> \<not> started"
  shows "n + ops_estimate (fst (split_chunk budget n started xs)) \<le> budget \<or>
    length (fst (split_chunk budget n started xs)) = (if started then 0 else 1) \<or> xs = []"
  using assms
proof (induction budget n started xs rule: split_chunk.induct)
  case (2 budget n started x xs)
  let ?n = "n + length (op_path x) + 32"
  show ?case
  proof (cases "?n > budget \<and> started")
    case False
    show ?thesis
    proof (cases "?n \<le> budget")
      case True
      then show ?thesis using 2(1) [OF refl False] False
        by (auto simp: Let_def split_beta ops_estimate_def)
    next
      case over: False
      then have "fst (split_chunk budget ?n True xs) = []" by (cases xs) (auto simp: Let_def)
      then show ?thesis using False over by (auto simp: Let_def split_beta)
    qed
  qed (auto simp: Let_def)
qed simp

lemma batch_chunks_concat: "concat (batch_chunks b xs) = xs"
proof (induction b xs rule: batch_chunks.induct)
  case (1 b xs)
  show ?case
  proof (cases "xs = []")
    case False
    then show ?thesis using 1 [OF False refl prod.collapse] split_chunk_append [of b 0 False xs]
      by (subst batch_chunks.simps) (simp add: split_beta)
  qed (simp add: batch_chunks.simps)
qed

lemma batch_chunks_small:
  "c \<in> set (batch_chunks b xs) \<Longrightarrow> c \<noteq> [] \<and> (length c = 1 \<or> ops_estimate c \<le> b)"
proof (induction b xs rule: batch_chunks.induct)
  case (1 b xs)
  show ?case
  proof (cases "xs = []")
    case False
    then consider "c = fst (split_chunk b 0 False xs)" | "c \<in> set (batch_chunks b (snd (split_chunk b 0 False xs)))"
      using 1(2) by (subst (asm) batch_chunks.simps) (auto simp: split_beta)
    then show ?thesis
    proof cases
      case 1
      then have "c \<noteq> []" using False by (cases xs) (auto simp: Let_def split_beta)
      then show ?thesis using split_chunk_estimate [of 0 b False xs] False 1 by auto
    qed (use 1(1) [OF False refl prod.collapse] in blast)
  qed (use 1(2) in \<open>simp add: batch_chunks.simps\<close>)
qed

lemma varint_at_most: "length (varint_bytes v) \<le> 10"
  using varint_bytes_length [of v 9] unat_word_less_2p [of v] by simp

lemma length_write_op: "length (write_invalidation_op x []) \<le> length (op_path x) + 50"
proof -
  have "length (varint_bytes (of_nat (length (op_path x)))) \<le> 10" "length (varint_bytes (ucast (mode (op_attr x)))) \<le> 10"
    "length (varint_bytes (size_of (op_attr x))) \<le> 10" by (rule varint_at_most)+
  then show ?thesis
    by (simp add: write_invalidation_op_def write_attributes_def writes_def Writer_u8_def Writer_fixed Writer_string_eq
        Writer_raw_def Writer_varint_append)
qed

lemma write_op_append: "write_invalidation_op x out = out @ write_invalidation_op x []"
  by (simp add: write_invalidation_op_def write_attributes_def writes_def Writer_u8_def Writer_fixed Writer_string_eq
        Writer_raw_def Writer_varint_append)

lemma foldl_write_ops: "foldl (\<lambda>o1 w. w o1) out (map write_invalidation_op xs) = out @ concat (map (\<lambda>x. write_invalidation_op x []) xs)"
proof (induction xs arbitrary: out)
  case (Cons x xs)
  then show ?case using write_op_append [of x out] by simp
qed simp

lemma length_write_batch:
  "length (write_invalidation \<lparr>generation = g, ops = xs\<rparr> []) \<le> 18 + (\<Sum>x \<leftarrow> xs. length (op_path x) + 50)"
proof -
  have "length (concat (map (\<lambda>x. write_invalidation_op x []) xs)) \<le> (\<Sum>x \<leftarrow> xs. length (op_path x) + 50)"
    by (induction xs) (use length_write_op in \<open>auto intro: add_mono\<close>)
  then show ?thesis using varint_at_most [of "of_nat (length xs)"]
    by (simp add: write_invalidation_def writes_def Writer_fixed Writer_varint_append foldl_write_ops)
qed

lemma write_batch_append: "write_invalidation b out = out @ write_invalidation b []"
  by (cases b) (simp add: write_invalidation_def writes_def Writer_fixed Writer_varint_append foldl_write_ops)

lemma estimate_bound: "(\<Sum>x \<leftarrow> xs. length (op_path x) + 50) * 32 \<le> ops_estimate xs * 50"
  by (induction xs) (auto simp: ops_estimate_def algebra_simps)

lemma length_batch_frame: "length (batch_frame g c) = kHeaderSize + length (write_invalidation \<lparr>generation = g, ops = c\<rparr> [])"
  unfolding batch_frame_def by (subst write_frame_bytes [OF write_batch_append]) simp

text \<open>
  C11. The frames of a broadcast: splitting a batch loses, repeats and reorders nothing, every frame carries
  at least one operation, and every frame can be sent: with paths below 32 MiB none exceeds the frame
  limit that \<open>send_raw\<close> enforces, whatever chunk size is configured.
\<close>

theorem broadcast_frames_fit:
  assumes "list_all (\<lambda>x. length (op_path x) < 2 ^ 25) xs"
  shows "concat (batch_chunks (batch_budget o1) xs) = xs \<and>
    (\<forall>c \<in> set (batch_chunks (batch_budget o1) xs).
       c \<noteq> [] \<and> length (batch_frame g c) \<le> kHeaderSize + unat kMaxPayload)"
proof (intro conjI ballI)
  show "concat (batch_chunks (batch_budget o1) xs) = xs" by (rule batch_chunks_concat)
  fix c assume c: "c \<in> set (batch_chunks (batch_budget o1) xs)"
  then show "c \<noteq> []" using batch_chunks_small by blast
  have budget: "batch_budget o1 \<le> 2 ^ 25" by (simp add: batch_budget_def kMaxPayload_def unat_div_distrib)
  have "set c \<subseteq> set (concat (batch_chunks (batch_budget o1) xs))" using c by auto
  then have sub: "list_all (\<lambda>x. length (op_path x) < 2 ^ 25) c"
    using assms unfolding batch_chunks_concat by (auto simp: list_all_iff)
  have "(\<Sum>x \<leftarrow> c. length (op_path x) + 50) \<le> 2 ^ 26 - 18"
  proof (cases "length c = 1")
    case True
    then obtain x where "c = [x]" by (cases c) auto
    then show ?thesis using sub by simp
  next
    case False
    then have "ops_estimate c \<le> 2 ^ 25" using batch_chunks_small [OF c] budget by simp
    then show ?thesis using estimate_bound [of c] by simp
  qed
  then have "length (write_invalidation \<lparr>generation = g, ops = c\<rparr> []) \<le> 2 ^ 26"
    using length_write_batch [of g c] by simp
  then show "length (batch_frame g c) \<le> kHeaderSize + unat kMaxPayload"
    by (simp add: length_batch_frame kMaxPayload_def)
qed

theorem broadcast_frames_fit_witness:
  "let xs = [rescan_op, rescan_op\<lparr>op_kind := Remove, op_path := lit ''a''\<rparr>] in
   concat (batch_chunks (batch_budget (demo_options)) xs) = xs \<and>
   list_all (\<lambda>c. c \<noteq> [] \<and> length (batch_frame 7 c) \<le> kHeaderSize + unat kMaxPayload) (batch_chunks (batch_budget demo_options) xs)"
  unfolding Let_def list_all_iff by (rule broadcast_frames_fit) (simp add: rescan_op_def)

section \<open>A flushed operation says what the disk says\<close>

lemma resolve_ops_eq:
  "fst (resolve_ops env w plan) = List.map_filter (resolve_op env w) plan"
  by (induction plan) (auto simp: map_filter_simps split_beta split: option.split)

definition disk_attr :: "('w, 'h) ServerEnv \<Rightarrow> 'w \<Rightarrow> bytes \<Rightarrow> Attributes option" where
  "disk_attr env w p = attributes_from (host_fs (env_host env) w) (join_relative (so_root (env_opts env)) p)"



section \<open>Bounded expansion\<close>

text \<open>What the expansion keeps: only upserts of new paths are appended, and never more than counted.\<close>

definition expansion_ok :: "nat \<Rightarrow> InvalidationOp list \<Rightarrow> SubtreeScan \<Rightarrow> bool" where
  "expansion_ok max_entries os st \<longleftrightarrow>
    (\<exists>new. su_ops st = os @ new \<and> length new \<le> su_appended st \<and> (\<not> su_over st \<longrightarrow> su_appended st \<le> max_entries) \<and>
       list_all (\<lambda>x. op_kind x = Upsert \<and> op_change x = Created \<and> op_path x \<notin> op_path ` set os) new)"

lemma subtree_on_entry_ok:
  assumes "expansion_ok m os st"
  shows "expansion_ok m os (subtree_on_entry m (op_path ` set os) e st)"
proof -
  obtain new where n: "su_ops st = os @ new" "length new \<le> su_appended st" "\<not> su_over st \<longrightarrow> su_appended st \<le> m"
    "list_all (\<lambda>x. op_kind x = Upsert \<and> op_change x = Created \<and> op_path x \<notin> op_path ` set os) new"
    using assms by (auto simp: expansion_ok_def)
  then show ?thesis by (auto simp: expansion_ok_def subtree_on_entry_def Let_def)
qed

lemma subtrees_loop_ok:
  "expansion_ok (so_max_expanded_entries (env_opts env)) os st \<Longrightarrow>
    subtrees_loop env w (op_path ` set os) dirs last_root st = Some st' \<Longrightarrow>
    expansion_ok (so_max_expanded_entries (env_opts env)) os st'"
proof (induction dirs arbitrary: last_root st)
  case (Cons rel dirs)
  let ?m = "so_max_expanded_entries (env_opts env)"
  show ?case
  proof (cases "last_root \<noteq> [] \<and> path_is_under rel last_root")
    case True
    then show ?thesis using Cons by simp
  next
    case False
    then obtain r st1 where scan: "scan_tree (env_fuel env) (host_fs (env_host env) w) (join_relative (so_root (env_opts env)) rel)
        (subtree_on_entry ?m (op_path ` set os)) (subtree_skip (env_ignore env) rel) (so_one_file_system (env_opts env))
        (st\<lparr>su_rels := [rel]\<rparr>) = Some (r, st1)"
      and st1: "st' = st1 \<or> subtrees_loop env w (op_path ` set os) dirs rel st1 = Some st'"
      using Cons.prems(2) by (auto split: option.splits if_splits)
    have "expansion_ok ?m os (st\<lparr>su_rels := [rel]\<rparr>)" using Cons.prems(1) by (simp add: expansion_ok_def)
    from scan_tree_user [OF scan, of "expansion_ok ?m os", OF this subtree_on_entry_ok] show ?thesis
      using st1 Cons.IH by blast
  qed
qed simp

text \<open>
  Expanding directories that have appeared is bounded and never contradicts the batch: what is appended
  is either a single \<open>Rescan\<close> or at most \<open>max_expanded_entries\<close> upserts, each of a path that has no
  operation of its own in the batch; the batch itself is kept.
\<close>

theorem expansion_bounded:
  assumes "append_subtrees env w dirs os = Some os'"
  shows "\<exists>new. os' = os @ new \<and> (new = [rescan_op] \<or>
    length new \<le> so_max_expanded_entries (env_opts env) \<and>
    list_all (\<lambda>x. op_kind x = Upsert \<and> op_change x = Created \<and> op_path x \<notin> op_path ` set os) new)"
proof -
  let ?st0 = "\<lparr>su_ops = os, su_appended = 0, su_over = False, su_rels = []\<rparr>"
  obtain st where run: "subtrees_loop env w (op_path ` set os) (sort dirs) [] ?st0 = Some st"
    and os': "os' = (if su_over st then os @ [rescan_op] else su_ops st)"
    using assms by (auto simp: append_subtrees_def split: option.splits)
  have "expansion_ok (so_max_expanded_entries (env_opts env)) os ?st0" by (simp add: expansion_ok_def)
  from subtrees_loop_ok [OF this run] show ?thesis using os' by (auto simp: expansion_ok_def)
qed

theorem expansion_bounded_witness:
  "\<exists>os'. append_subtrees demo_flush_env () [lit ''d''] [] = Some os' \<and>
    (\<exists>new. os' = [] @ new \<and> (new = [rescan_op] \<or>
      length new \<le> so_max_expanded_entries (env_opts demo_flush_env) \<and>
      list_all (\<lambda>x. op_kind x = Upsert \<and> op_change x = Created \<and> op_path x \<notin> op_path ` set []) new))"
proof -
  have "append_subtrees demo_flush_env () [lit ''d''] [] \<noteq> None" by code_simp
  then show ?thesis using expansion_bounded [of demo_flush_env "()" "[lit ''d'']" "[]"] by auto
qed

end
