(* ===== verification/ClientCache.thy ===== *)
theory ClientCache
  imports Path "HOL-Library.AList"
begin

text \<open>
  The content cache of \<open>src/agent/client.hpp\<close> and \<open>client.cpp\<close>: whole files by path, validated against the
  mirror's modification time and size, with a byte budget kept by evicting the least recently used
  entry; and the cache of link targets beside it.

  The hash maps are association lists.  \<open>CacheEntry::lru\<close>, the iterator of the entry's key in the list
  \<open>lru_\<close>, is the key itself: no key stands twice in the list.
\<close>

section \<open>State and operations\<close>

record CacheEntry =
  ce_mtime :: i64
  ce_size :: u64
  ce_data :: bytes

record ReadCache =
  rcache :: "(bytes \<times> CacheEntry) list"
  lru :: "bytes list"
  rcache_bytes :: u64
  rcache_cap :: u64
  link_cache :: "(bytes \<times> bytes) list"
  stat_cache_bytes :: u64

definition ReadCache_init :: ReadCache where
  "ReadCache_init = \<lparr>rcache = [], lru = [], rcache_bytes = 0, rcache_cap = push_bit 20 256, link_cache = [],
     stat_cache_bytes = 0\<rparr>"

definition kMaxCacheableFile :: u64 where "kMaxCacheableFile = push_bit 20 8"

definition slice :: "bytes \<Rightarrow> u64 \<Rightarrow> u32 \<Rightarrow> bytes" where
  "slice data offset len =
    (if unat offset \<ge> length data then []
     else
       let stop = min (offset + ucast len) (of_nat (length data))
       in substr data (unat offset) (unat stop - unat offset))"

definition cache_erase :: "bytes \<Rightarrow> ReadCache \<Rightarrow> ReadCache" where
  "cache_erase k c =
    (case map_of (rcache c) k of
       None \<Rightarrow> c
     | Some e \<Rightarrow> c\<lparr>rcache_bytes := rcache_bytes c - of_nat (length (ce_data e)), lru := remove1 k (lru c),
                  rcache := AList.delete k (rcache c)\<rparr>)"

lemma lru_cache_erase: "map_of (rcache c) k \<noteq> None \<Longrightarrow> lru (cache_erase k c) = remove1 k (lru c)"
  by (auto simp: cache_erase_def)

text \<open>The loop of \<open>evict_locked\<close>; \<open>lru_.back()\<close> of an empty list, which the invariant excludes, ends it.\<close>

function evict_locked :: "ReadCache \<Rightarrow> ReadCache" where
  "evict_locked c =
    (if rcache_bytes c > rcache_cap c \<and> length (rcache c) > 1 \<and> lru c \<noteq> [] then
       (if map_of (rcache c) (last (lru c)) = None then evict_locked (c\<lparr>lru := butlast (lru c)\<rparr>)
        else evict_locked (cache_erase (last (lru c)) c))
     else c)"
  by pat_completeness auto
termination
  by (relation "measure (\<lambda>c. length (lru c))") (auto simp: lru_cache_erase length_remove1 length_greater_0_conv [symmetric] simp del: length_greater_0_conv)

declare evict_locked.simps [simp del]

definition count_bytes :: "ReadCache \<Rightarrow> ReadCache" where
  "count_bytes c = c\<lparr>stat_cache_bytes := rcache_bytes c\<rparr>"

definition set_read_cache_limit :: "u64 \<Rightarrow> ReadCache \<Rightarrow> ReadCache" where
  "set_read_cache_limit n c = count_bytes (evict_locked (c\<lparr>rcache_cap := n\<rparr>))"

definition cache_put :: "bytes \<Rightarrow> i64 \<Rightarrow> u64 \<Rightarrow> bytes \<Rightarrow> ReadCache \<Rightarrow> ReadCache" where
  "cache_put path mt sz data c =
    (let c1 = (if map_of (rcache c) path \<noteq> None then cache_erase path c else c);
         c2 = c1\<lparr>rcache_bytes := rcache_bytes c1 + of_nat (length data), lru := path # lru c1,
                 rcache := AList.update path \<lparr>ce_mtime = mt, ce_size = sz, ce_data = data\<rparr> (rcache c1)\<rparr>
     in count_bytes (evict_locked c2))"

text \<open>The lookup of a read: a hit of the current version moves to the front.\<close>

definition cache_hit :: "bytes \<Rightarrow> i64 \<Rightarrow> u64 \<Rightarrow> ReadCache \<Rightarrow> bytes option \<times> ReadCache" where
  "cache_hit k mt sz c =
    (case map_of (rcache c) k of
       None \<Rightarrow> (None, c)
     | Some e \<Rightarrow>
         if ce_mtime e = mt \<and> ce_size e = sz then (Some (ce_data e), c\<lparr>lru := k # remove1 k (lru c)\<rparr>)
         else (None, c))"

definition drop_cached :: "bytes \<Rightarrow> ReadCache \<Rightarrow> ReadCache" where
  "drop_cached path c =
    (let c1 = (if map_of (rcache c) path \<noteq> None then cache_erase path c else c);
         c2 = c1\<lparr>link_cache := AList.delete path (link_cache c1)\<rparr>
     in count_bytes c2)"

definition key_under :: "bytes \<Rightarrow> bytes \<Rightarrow> bool" where
  "key_under dir k \<longleftrightarrow> k = dir \<or> take (length dir + 1) k = dir @ [slash]"

definition drop_cached_prefix :: "bytes \<Rightarrow> ReadCache \<Rightarrow> ReadCache" where
  "drop_cached_prefix dir c =
    (let gone = (\<lambda>k. dir = [] \<or> key_under dir k);
         c1 = fold cache_erase (filter gone (map fst (rcache c))) c
     in count_bytes (c1\<lparr>link_cache := filter (\<lambda>x. \<not> gone (fst x)) (link_cache c1)\<rparr>))"

section \<open>The invariant\<close>

text \<open>The entries from the most to the least recently used.\<close>

definition lru_view :: "ReadCache \<Rightarrow> (bytes \<times> CacheEntry) list" where
  "lru_view c = map (\<lambda>k. (k, the (map_of (rcache c) k))) (lru c)"

definition view_bytes :: "(bytes \<times> CacheEntry) list \<Rightarrow> nat" where
  "view_bytes xs = (\<Sum>x \<leftarrow> xs. length (ce_data (snd x)))"

text \<open>What holds inside the operations; no wrap-around of the counter needs bounded entries and budget.\<close>

definition cache_keys :: "ReadCache \<Rightarrow> bool" where
  "cache_keys c \<longleftrightarrow> distinct (lru c) \<and> distinct (map fst (rcache c)) \<and> set (lru c) = fst ` set (rcache c)"

definition entry_small :: "bytes \<times> CacheEntry \<Rightarrow> bool" where
  "entry_small x \<longleftrightarrow> length (ce_data (snd x)) < 2 ^ 62"

definition cache_count :: "ReadCache \<Rightarrow> bool" where
  "cache_count c \<longleftrightarrow> unat (rcache_bytes c) = view_bytes (lru_view c) \<and> list_all entry_small (lru_view c) \<and>
     unat (rcache_cap c) \<le> 2 ^ 63"

definition in_budget :: "nat \<Rightarrow> (bytes \<times> CacheEntry) list \<Rightarrow> bool" where
  "in_budget cap xs \<longleftrightarrow> view_bytes xs \<le> cap \<or> length xs \<le> 1"

definition cache_inv :: "ReadCache \<Rightarrow> bool" where
  "cache_inv c \<longleftrightarrow> cache_keys c \<and> cache_count c \<and> in_budget (unat (rcache_cap c)) (lru_view c)"

lemma keys_length: "cache_keys c \<Longrightarrow> length (rcache c) = length (lru c)"
  unfolding cache_keys_def by (metis distinct_card length_map list.set_map)

lemma view_keys: "map fst (lru_view c) = lru c"
  by (simp add: lru_view_def comp_def)

lemma length_view [simp]: "length (lru_view c) = length (lru c)"
  by (simp add: lru_view_def)

lemma map_of_view: "cache_keys c \<Longrightarrow> map_of (lru_view c) k = map_of (rcache c) k"
proof (cases "k \<in> set (lru c)")
  case True
  assume "cache_keys c"
  then obtain e where e: "map_of (rcache c) k = Some e" using True by (auto simp: cache_keys_def dest: map_of_is_SomeI)
  have "(k, e) \<in> set (lru_view c)" using True e by (auto simp: lru_view_def image_iff intro!: bexI [of _ k])
  then show ?thesis using e \<open>cache_keys c\<close> view_keys [of c] by (simp add: cache_keys_def map_of_is_SomeI)
next
  case False
  assume "cache_keys c"
  then have "k \<notin> fst ` set (lru_view c)" "k \<notin> fst ` set (rcache c)"
    using False view_keys [of c] unfolding cache_keys_def by (metis list.set_map, metis)
  then show ?thesis by (simp add: map_of_eq_None_iff [symmetric])
qed

section \<open>Against a list in order of use\<close>

text \<open>
  The specification: one list of entries, most recently used first.  Looking up moves an entry to the
  front, storing puts it there, and while the entries exceed the budget the last one goes, unless it is
  the only one.
\<close>

definition without :: "bytes \<Rightarrow> (bytes \<times> CacheEntry) list \<Rightarrow> (bytes \<times> CacheEntry) list" where
  "without k xs = filter (\<lambda>x. fst x \<noteq> k) xs"

function lru_trim :: "nat \<Rightarrow> (bytes \<times> CacheEntry) list \<Rightarrow> (bytes \<times> CacheEntry) list" where
  "lru_trim cap xs = (if view_bytes xs > cap \<and> length xs > 1 then lru_trim cap (butlast xs) else xs)"
  by pat_completeness auto
termination
  by (relation "measure (\<lambda>(_, xs). length xs)") auto

declare lru_trim.simps [simp del]

datatype CacheOp = CGet bytes i64 u64 | CPut bytes i64 u64 bytes | CDrop bytes | CDropUnder bytes | CLimit u64

fun lru_step :: "nat \<times> (bytes \<times> CacheEntry) list \<Rightarrow> CacheOp \<Rightarrow> bytes option \<times> nat \<times> (bytes \<times> CacheEntry) list" where
  "lru_step (cap, xs) (CGet k mt sz) =
    (case map_of xs k of
       Some e \<Rightarrow> if ce_mtime e = mt \<and> ce_size e = sz then (Some (ce_data e), cap, (k, e) # without k xs) else (None, cap, xs)
     | None \<Rightarrow> (None, cap, xs))"
| "lru_step (cap, xs) (CPut k mt sz data) =
    (None, cap, lru_trim cap ((k, \<lparr>ce_mtime = mt, ce_size = sz, ce_data = data\<rparr>) # without k xs))"
| "lru_step (cap, xs) (CDrop k) = (None, cap, without k xs)"
| "lru_step (cap, xs) (CDropUnder d) = (None, cap, filter (\<lambda>x. \<not> (d = [] \<or> key_under d (fst x))) xs)"
| "lru_step (cap, xs) (CLimit n) = (None, unat n, lru_trim (unat n) xs)"

fun cache_step :: "ReadCache \<Rightarrow> CacheOp \<Rightarrow> bytes option \<times> ReadCache" where
  "cache_step c (CGet k mt sz) = cache_hit k mt sz c"
| "cache_step c (CPut k mt sz data) = (None, cache_put k mt sz data c)"
| "cache_step c (CDrop k) = (None, drop_cached k c)"
| "cache_step c (CDropUnder d) = (None, drop_cached_prefix d c)"
| "cache_step c (CLimit n) = (None, set_read_cache_limit n c)"

fun cache_op_ok :: "CacheOp \<Rightarrow> bool" where
  "cache_op_ok (CPut k mt sz data) \<longleftrightarrow> length data < 2 ^ 62"
| "cache_op_ok (CLimit n) \<longleftrightarrow> unat n \<le> 2 ^ 63"
| "cache_op_ok _ \<longleftrightarrow> True"

definition cache_abs :: "ReadCache \<Rightarrow> nat \<times> (bytes \<times> CacheEntry) list" where
  "cache_abs c = (unat (rcache_cap c), lru_view c)"

subsection \<open>Erasing\<close>

lemma view_bytes_Cons [simp]: "view_bytes (x # xs) = length (ce_data (snd x)) + view_bytes xs"
  and view_bytes_Nil [simp]: "view_bytes [] = 0"
  by (simp_all add: view_bytes_def)

lemma view_bytes_without:
  "distinct (map fst xs) \<Longrightarrow> map_of xs k = Some e \<Longrightarrow> view_bytes xs = length (ce_data e) + view_bytes (without k xs)"
proof (induction xs)
  case (Cons x xs)
  show ?case
  proof (cases "fst x = k")
    case True
    then have "without k xs = xs" using Cons.prems(1) by (fastforce simp: without_def filter_id_conv image_iff)
    then show ?thesis using Cons.prems True by (cases x) (simp add: without_def)
  next
    case False
    then show ?thesis using Cons by (cases x) (auto simp: without_def)
  qed
qed simp

lemma erase_view:
  assumes "cache_keys c" and "map_of (rcache c) k \<noteq> None"
  shows "lru_view (cache_erase k c) = without k (lru_view c)" and "cache_keys (cache_erase k c)"
proof -
  have r: "remove1 k (lru c) = filter (\<lambda>x. x \<noteq> k) (lru c)"
    using assms(1) by (simp add: cache_keys_def distinct_remove1_removeAll removeAll_filter_not_eq neq_commute)
  have "lru_view (cache_erase k c) = map (\<lambda>x. (x, the (map_of (rcache c) x))) (filter (\<lambda>x. x \<noteq> k) (lru c))"
    using assms(2) by (auto simp: lru_view_def cache_erase_def r AList.delete_conv)
  then show "lru_view (cache_erase k c) = without k (lru_view c)"
    by (simp add: lru_view_def without_def filter_map comp_def)
  show "cache_keys (cache_erase k c)"
  proof -
    have "fst ` set (AList.delete k (rcache c)) = fst ` set (rcache c) - {k}"
      using arg_cong [OF AList.delete_keys [of k "rcache c"], of set] by (auto simp: set_removeAll)
    moreover obtain e where "map_of (rcache c) k = Some e" using assms(2) by blast
    moreover have "{x \<in> fst ` set (rcache c). x \<noteq> k} = fst ` set (rcache c) - {k}" by blast
    ultimately show ?thesis using assms(1) by (simp add: cache_keys_def cache_erase_def r AList.distinct_delete)
  qed
qed

lemma erase_count:
  assumes "cache_keys c" and "cache_count c" and "map_of (rcache c) k \<noteq> None"
  shows "cache_count (cache_erase k c)"
proof -
  obtain e where e: "map_of (rcache c) k = Some e" using assms(3) by blast
  have d: "distinct (map fst (lru_view c))" using assms(1) by (simp add: view_keys cache_keys_def)
  have b: "view_bytes (lru_view c) = length (ce_data e) + view_bytes (without k (lru_view c))"
    using view_bytes_without [OF d] map_of_view [OF assms(1)] e by simp
  have u: "unat (rcache_bytes c) = view_bytes (lru_view c)" using assms(2) by (simp add: cache_count_def)
  have "length (ce_data e) < 2 ^ 64" using b u unat_word_less_2p [of "rcache_bytes c"] by simp
  then have l: "unat (of_nat (length (ce_data e)) :: u64) = length (ce_data e)" by (simp add: unat_of_nat)
  have "of_nat (length (ce_data e)) \<le> rcache_bytes c" using b u l by (simp add: word_le_nat_alt)
  then have "unat (rcache_bytes c - of_nat (length (ce_data e))) = view_bytes (without k (lru_view c))"
    using b u l by (simp add: unat_sub)
  then show ?thesis using assms erase_view(1) [OF assms(1,3)] e
    by (auto simp: cache_count_def cache_erase_def without_def list_all_iff)
qed

lemma without_absent: "map_of xs k = None \<Longrightarrow> without k xs = xs"
  by (force simp: without_def map_of_eq_None_iff intro: filter_True)

lemma erase_if:
  fixes k :: bytes
  assumes "cache_keys c" and "cache_count c"
  defines "c1 \<equiv> (if map_of (rcache c) k \<noteq> None then cache_erase k c else c)"
  shows "lru_view c1 = without k (lru_view c)" and "cache_keys c1" and "cache_count c1" and "rcache_cap c1 = rcache_cap c"
    and "map_of (rcache c1) k = None"
  using assms(1,2) erase_view [OF assms(1)] erase_count [OF assms(1,2)] without_absent [of "lru_view c" k] map_of_view [OF assms(1)]
  by (auto simp: c1_def cache_erase_def AList.delete_conv split: option.split)

text \<open>The budget survives when entries leave.\<close>

lemma view_bytes_filter: "view_bytes (filter P xs) \<le> view_bytes xs"
  by (induction xs) auto

lemma in_budget_filter: "in_budget cap xs \<Longrightarrow> in_budget cap (filter P xs)"
  using view_bytes_filter [of P xs] length_filter_le [of P xs] unfolding in_budget_def by linarith

subsection \<open>Evicting\<close>

lemma lru_trim_in_budget: "in_budget cap (lru_trim cap xs)"
proof (induction cap xs rule: lru_trim.induct)
  case (1 cap xs)
  then show ?case by (subst lru_trim.simps) (auto simp: in_budget_def)
qed

lemma without_last:
  assumes "distinct (map fst xs)" and "xs \<noteq> []"
  shows "without (fst (last xs)) xs = butlast xs"
proof -
  obtain ys y where x: "xs = ys @ [y]" using assms(2) by (metis append_butlast_last_id)
  then have "filter (\<lambda>x. fst x \<noteq> fst y) ys = ys" using assms(1) by (fastforce simp: filter_id_conv image_iff)
  then show ?thesis using x by (simp add: without_def)
qed

lemma evict_ok:
  "cache_keys c \<Longrightarrow> cache_count c \<Longrightarrow>
    lru_view (evict_locked c) = lru_trim (unat (rcache_cap c)) (lru_view c) \<and> cache_keys (evict_locked c) \<and>
    cache_count (evict_locked c) \<and> rcache_cap (evict_locked c) = rcache_cap c"
proof (induction c rule: evict_locked.induct)
  case (1 c)
  have over: "rcache_bytes c > rcache_cap c \<longleftrightarrow> view_bytes (lru_view c) > unat (rcache_cap c)"
    using 1(4) by (simp add: cache_count_def word_less_nat_alt)
  have len: "length (rcache c) = length (lru_view c)" using keys_length [OF 1(3)] by simp
  show ?case
  proof (cases "rcache_bytes c > rcache_cap c \<and> length (rcache c) > 1 \<and> lru c \<noteq> []")
    case True
    let ?k = "last (lru c)"
    have "?k \<in> fst ` set (rcache c)" using True 1(3) last_in_set [of "lru c"] unfolding cache_keys_def by metis
    then have some: "map_of (rcache c) ?k \<noteq> None" by (simp add: map_of_eq_None_iff)
    have "?k = fst (last (lru_view c))" using True by (simp add: lru_view_def last_map)
    then have v: "lru_view (cache_erase ?k c) = butlast (lru_view c)"
    proof -
      have "distinct (map fst (lru_view c))" using 1(3) by (simp add: view_keys cache_keys_def)
      moreover have "lru_view c \<noteq> []" using True by (simp add: lru_view_def)
      ultimately show ?thesis using erase_view(1) [OF 1(3) some] without_last \<open>?k = fst (last (lru_view c))\<close> by metis
    qed
    have cap: "rcache_cap (cache_erase ?k c) = rcache_cap c" by (simp add: cache_erase_def split: option.split)
    have "evict_locked c = evict_locked (cache_erase ?k c)" using True some by (subst evict_locked.simps) auto
    moreover have "lru_trim (unat (rcache_cap c)) (lru_view c) = lru_trim (unat (rcache_cap c)) (butlast (lru_view c))"
      using True over len by (subst lru_trim.simps) simp
    moreover note 1(2) [OF True some erase_view(2) [OF 1(3) some] erase_count [OF 1(3,4) some]]
    ultimately show ?thesis by (simp add: v cap)
  next
    case False
    then have "evict_locked c = c" by (subst evict_locked.simps) auto
    moreover have "lru_trim (unat (rcache_cap c)) (lru_view c) = lru_view c"
      using False over len by (subst lru_trim.simps) auto
    ultimately show ?thesis using 1(3,4) by simp
  qed
qed

lemma count_bytes_simps [simp]:
  "lru_view (count_bytes c) = lru_view c" "cache_keys (count_bytes c) = cache_keys c" "cache_count (count_bytes c) = cache_count c"
  "rcache_cap (count_bytes c) = rcache_cap c" "rcache (count_bytes c) = rcache c" "lru (count_bytes c) = lru c"
  "link_cache (count_bytes c) = link_cache c"
  by (simp_all add: count_bytes_def lru_view_def cache_keys_def cache_count_def)

lemma link_cache_simps [simp]:
  "lru_view (c\<lparr>link_cache := l\<rparr>) = lru_view c" "cache_keys (c\<lparr>link_cache := l\<rparr>) = cache_keys c"
  "cache_count (c\<lparr>link_cache := l\<rparr>) = cache_count c"
  by (simp_all add: lru_view_def cache_keys_def cache_count_def)

lemma evicted:
  assumes "cache_keys c" and "cache_count c"
  shows "cache_inv (count_bytes (evict_locked c)) \<and>
    cache_abs (count_bytes (evict_locked c)) = (unat (rcache_cap c), lru_trim (unat (rcache_cap c)) (lru_view c))"
  using evict_ok [OF assms] lru_trim_in_budget by (simp add: cache_inv_def cache_abs_def)

subsection \<open>The operations\<close>

lemma put_ok:
  assumes "cache_inv c" and "length data < 2 ^ 62"
  shows "cache_inv (cache_put k mt sz data c) \<and>
    cache_abs (cache_put k mt sz data c) = snd (lru_step (cache_abs c) (CPut k mt sz data))"
proof -
  define c1 where "c1 = (if map_of (rcache c) k \<noteq> None then cache_erase k c else c)"
  define e where "e = \<lparr>ce_mtime = mt, ce_size = sz, ce_data = data\<rparr>"
  define c2 where "c2 = c1\<lparr>rcache_bytes := rcache_bytes c1 + of_nat (length data), lru := k # lru c1, rcache := AList.update k e (rcache c1)\<rparr>"
  have pre: "cache_keys c" "cache_count c" "in_budget (unat (rcache_cap c)) (lru_view c)" using assms(1) by (simp_all add: cache_inv_def)
  note e1 = erase_if [OF pre(1,2), of k, folded c1_def]
  have fresh: "k \<notin> set (lru c1)" using e1(2,5) by (simp add: cache_keys_def map_of_eq_None_iff)
  have keys: "cache_keys c2"
    using e1(2) fresh by (auto simp: cache_keys_def c2_def AList.distinct_update AList.dom_update AList.update_keys map_of_eq_None_iff)
  have view: "lru_view c2 = (k, e) # without k (lru_view c)"
  proof -
    have "the (map_of (AList.update k e (rcache c1)) x) = the (map_of (rcache c1) x)" if "x \<in> set (lru c1)" for x
      using that fresh by (auto simp: AList.update_conv)
    then have "lru_view c2 = (k, e) # lru_view c1" by (simp add: lru_view_def c2_def AList.update_conv)
    then show ?thesis using e1(1) by simp
  qed
  have small: "list_all entry_small (lru_view c1)" using e1(3) by (simp add: cache_count_def)
  have "view_bytes (lru_view c1) \<le> 2 ^ 63"
  proof (cases "length (lru_view c1) \<le> 1")
    case True
    then show ?thesis using small by (cases "lru_view c1") (auto simp: entry_small_def)
  next
    case False
    then have "in_budget (unat (rcache_cap c)) (lru_view c1)" using pre(3) in_budget_filter unfolding e1(1) without_def by blast
    then show ?thesis using False e1(3,4) by (auto simp: in_budget_def cache_count_def)
  qed
  then have "unat (rcache_bytes c1 + of_nat (length data)) = view_bytes (lru_view c1) + length data"
    using e1(3) assms(2) by (simp add: cache_count_def unat_word_ariths unat_of_nat)
  then have count: "cache_count c2"
    using e1(1,3,4) assms(2) small view by (simp add: cache_count_def c2_def e_def entry_small_def)
  have "cache_put k mt sz data c = count_bytes (evict_locked c2)"
    unfolding cache_put_def Let_def c2_def c1_def e_def ..
  moreover have "rcache_cap c2 = rcache_cap c" using e1(4) by (simp add: c2_def)
  ultimately show ?thesis using evicted [OF keys count] view by (simp add: cache_abs_def e_def)
qed

lemma hit_ok:
  assumes "cache_inv c"
  shows "cache_inv (snd (cache_hit k mt sz c)) \<and>
    lru_step (cache_abs c) (CGet k mt sz) = (fst (cache_hit k mt sz c), cache_abs (snd (cache_hit k mt sz c)))"
proof (cases "map_of (rcache c) k")
  case None
  then show ?thesis using assms map_of_view [of c k] by (simp add: cache_hit_def cache_abs_def cache_inv_def)
next
  case (Some e)
  have keys: "cache_keys c" using assms by (simp add: cache_inv_def)
  have k: "k \<in> set (lru c)" using keys Some by (auto simp: cache_keys_def dest: map_of_SomeD intro: rev_image_eqI)
  let ?c = "c\<lparr>lru := k # remove1 k (lru c)\<rparr>"
  have keys': "cache_keys ?c" using keys k by (auto simp: cache_keys_def)
  have view: "lru_view ?c = (k, e) # without k (lru_view c)"
    using keys Some by (simp add: lru_view_def without_def filter_map comp_def cache_keys_def distinct_remove1_removeAll removeAll_filter_not_eq neq_commute)
  have "view_bytes (lru_view ?c) = view_bytes (lru_view c)"
    using view_bytes_without [of "lru_view c" k e] keys Some map_of_view [OF keys] by (simp add: view view_keys cache_keys_def)
  moreover have "length (lru_view ?c) = length (lru_view c)" using k by (simp add: length_remove1) (metis Suc_pred length_pos_if_in_set)
  moreover have "list_all entry_small (lru_view ?c)"
    using assms Some map_of_view [OF keys, of k] unfolding view
    by (auto simp: cache_inv_def cache_count_def without_def list_all_iff dest!: map_of_SomeD)
  ultimately have "cache_inv ?c" using assms keys' by (auto simp: cache_inv_def cache_count_def in_budget_def)
  then show ?thesis using assms Some map_of_view [OF keys, of k] view by (simp add: cache_hit_def cache_abs_def)
qed

lemma drop_ok:
  assumes "cache_inv c"
  shows "cache_inv (drop_cached k c) \<and> cache_abs (drop_cached k c) = snd (lru_step (cache_abs c) (CDrop k))"
proof -
  have pre: "cache_keys c" "cache_count c" "in_budget (unat (rcache_cap c)) (lru_view c)" using assms by (simp_all add: cache_inv_def)
  show ?thesis using erase_if [OF pre(1,2), of k] in_budget_filter [OF pre(3)]
    by (auto simp: drop_cached_def cache_inv_def cache_abs_def Let_def without_def)
qed

lemma erase_all:
  "cache_keys c \<Longrightarrow> cache_count c \<Longrightarrow>
    lru_view (fold cache_erase ks c) = filter (\<lambda>x. fst x \<notin> set ks) (lru_view c) \<and> cache_keys (fold cache_erase ks c) \<and>
    cache_count (fold cache_erase ks c) \<and> rcache_cap (fold cache_erase ks c) = rcache_cap c"
proof (induction ks arbitrary: c)
  case (Cons k ks)
  have "cache_erase k c = (if map_of (rcache c) k \<noteq> None then cache_erase k c else c)" by (auto simp: cache_erase_def)
  then show ?case using erase_if [OF Cons.prems, of k] Cons.IH [of "cache_erase k c"]
    by (simp add: without_def conj_commute)
qed simp

lemma drop_prefix_ok:
  assumes "cache_inv c"
  shows "cache_inv (drop_cached_prefix d c) \<and> cache_abs (drop_cached_prefix d c) = snd (lru_step (cache_abs c) (CDropUnder d))"
proof -
  have pre: "cache_keys c" "cache_count c" "in_budget (unat (rcache_cap c)) (lru_view c)" using assms by (simp_all add: cache_inv_def)
  let ?ks = "filter (\<lambda>k. d = [] \<or> key_under d k) (map fst (rcache c))"
  have "fst x \<in> set (map fst (rcache c))" if "x \<in> set (lru_view c)" for x
    using that pre(1) by (auto simp: lru_view_def cache_keys_def)
  then have "filter (\<lambda>x. fst x \<notin> set ?ks) (lru_view c) = filter (\<lambda>x. \<not> (d = [] \<or> key_under d (fst x))) (lru_view c)"
    by (intro filter_cong) auto
  then show ?thesis using erase_all [OF pre(1,2), of ?ks] in_budget_filter [OF pre(3)]
    by (auto simp: drop_cached_prefix_def cache_inv_def cache_abs_def Let_def)
qed

lemma limit_ok:
  assumes "cache_inv c" and "unat n \<le> 2 ^ 63"
  shows "cache_inv (set_read_cache_limit n c) \<and> cache_abs (set_read_cache_limit n c) = snd (lru_step (cache_abs c) (CLimit n))"
proof -
  have "cache_keys (c\<lparr>rcache_cap := n\<rparr>)" "cache_count (c\<lparr>rcache_cap := n\<rparr>)" "lru_view (c\<lparr>rcache_cap := n\<rparr>) = lru_view c"
    using assms by (simp_all add: cache_inv_def cache_keys_def cache_count_def lru_view_def)
  then show ?thesis using evicted [of "c\<lparr>rcache_cap := n\<rparr>"] by (simp add: set_read_cache_limit_def cache_abs_def)
qed

lemmas cache_ops_ok [refines] = put_ok hit_ok drop_ok drop_prefix_ok limit_ok

interpretation lru_sim: op_simulation cache_inv cache_abs cache_op_ok cache_step lru_step
proof unfold_locales
  fix c x assume a: "cache_inv c" "cache_op_ok x"
  show "cache_inv (snd (cache_step c x))" using a cache_ops_ok by (cases x) auto
  have "fst (lru_step (cache_abs c) y) = None" if "\<forall>k mt sz. y \<noteq> CGet k mt sz" for y using that by (cases y) (auto simp: cache_abs_def)
  then show "lru_step (cache_abs c) x = (fst (cache_step c x), cache_abs (snd (cache_step c x)))"
    using a cache_ops_ok by (cases x) (auto simp: prod_eq_iff)
qed

lemma ReadCache_init_inv: "cache_inv ReadCache_init" and ReadCache_init_abs: "cache_abs ReadCache_init = (2 ^ 28, [])"
  by (simp_all add: ReadCache_init_def cache_inv_def cache_keys_def cache_count_def in_budget_def lru_view_def cache_abs_def)

section \<open>What the cache guarantees\<close>

text \<open>
  C19. The content cache behaves as one list of entries in order of use: any sequence of lookups, stores,
  drops, subtree drops and changes of the budget gives the answers of that list, a lookup answering only
  for the stored modification time and size, and evicting takes exactly the entries used longest ago;
  the hash map, the list of keys and the byte counter stay in step.
\<close>

theorem cache_is_lru:
  assumes "list_all cache_op_ok xs"
  shows "run_ops lru_step (2 ^ 28, []) xs =
    (fst (run_ops cache_step ReadCache_init xs), cache_abs (snd (run_ops cache_step ReadCache_init xs)))"
  using lru_sim.run_sim [OF ReadCache_init_inv assms] by (simp add: ReadCache_init_abs)

theorem cache_is_lru_witness:
  "let xs = [CPut (lit ''a'') 1 2 (lit ''xy''), CPut (lit ''b'') 1 1 (lit ''z''), CGet (lit ''a'') 1 2, CLimit 2, CGet (lit ''b'') 1 1] in
   run_ops lru_step (2 ^ 28, []) xs =
    (fst (run_ops cache_step ReadCache_init xs), cache_abs (snd (run_ops cache_step ReadCache_init xs)))"
  unfolding Let_def by (rule cache_is_lru) simp

text \<open>
  The byte budget is kept: after any sequence of operations the counter is exactly the number of bytes
  held, without wrap-around, and it exceeds the budget only when a single entry is left.
\<close>

theorem cache_within_budget:
  assumes "list_all cache_op_ok xs" and "snd (run_ops cache_step ReadCache_init xs) = c"
  shows "unat (rcache_bytes c) = (\<Sum>x \<leftarrow> rcache c. length (ce_data (snd x))) \<and>
    (rcache_bytes c \<le> rcache_cap c \<or> length (rcache c) \<le> 1)"
proof -
  have inv: "cache_inv c" using lru_sim.run_inv [OF ReadCache_init_inv assms(1)] assms(2) by simp
  then have keys: "cache_keys c" by (simp add: cache_inv_def)
  have d: "distinct (rcache c)" "distinct (lru_view c)"
    using keys view_keys [of c] unfolding cache_keys_def by (metis distinct_map)+
  have "set (lru_view c) = set (rcache c)"
    using keys by (force simp: lru_view_def cache_keys_def dest: map_of_is_SomeI intro: rev_image_eqI)
  then have "view_bytes (lru_view c) = (\<Sum>x \<leftarrow> rcache c. length (ce_data (snd x)))"
    using d by (simp add: view_bytes_def sum_list_distinct_conv_sum_set)
  then show ?thesis using inv keys_length [OF keys]
    by (auto simp: cache_inv_def cache_count_def in_budget_def word_le_nat_alt)
qed

theorem cache_within_budget_witness:
  "let c = snd (run_ops cache_step ReadCache_init [CPut (lit ''a'') 1 2 (lit ''xy''), CLimit 1]) in
   unat (rcache_bytes c) = (\<Sum>x \<leftarrow> rcache c. length (ce_data (snd x))) \<and>
    (rcache_bytes c \<le> rcache_cap c \<or> length (rcache c) \<le> 1)"
  unfolding Let_def by (rule cache_within_budget [OF _ refl]) simp

section \<open>Facts for the client\<close>

lemma slice_eq:
  assumes "length data < 2 ^ 63"
  shows "slice data offset len = take (unat len) (drop (unat offset) data)"
proof (cases "unat offset < length data")
  case True
  have l: "unat (ucast len :: u64) = unat len"
    using unat_word_less_2p [of len] by (simp add: unsigned_ucast_eq take_bit_nat_eq_self_iff)
  have "unat offset + unat len < 2 ^ 64" using True assms unat_word_less_2p [of len] by simp
  then have "unat (offset + ucast len) = unat offset + unat len" using l by (simp add: unat_word_ariths)
  then have "unat (min (offset + ucast len) (of_nat (length data))) = min (unat offset + unat len) (length data)"
    using assms by (auto simp: min_def word_le_nat_alt unat_of_nat)
  then have "slice data offset len = take (min (unat len) (length data - unat offset)) (drop (unat offset) data)"
    using True by (simp add: slice_def substr_def min_diff [symmetric])
  then show ?thesis by (cases "unat len \<le> length data - unat offset") (simp_all add: min_def)
qed (simp add: slice_def)

lemma dropped_absent: "map_of (rcache (drop_cached k c)) k = None" "map_of (link_cache (drop_cached k c)) k = None"
  by (auto simp: drop_cached_def Let_def cache_erase_def AList.delete_conv' split: option.split)

end
