(* ===== verification/Client.thy ===== *)
theory Client
  imports ClientCache TreePaths FrameChannel Coalescer
begin

text \<open>
  The client of a served root, \<open>src/agent/client.hpp\<close> and \<open>client.cpp\<close>: the table of pending requests and
  the reader of the connection, the handshake, the snapshot with the replay of what changed meanwhile,
  the application of pushed invalidations to the mirror, and the write-through mutations.

  The threads of the client meet at \<open>request\<close>: the caller sends and waits while the reader thread takes
  frames from the connection.  Here the caller's wait runs the reader: \<open>await n\<close> lets the reader take at
  most \<open>n\<close> frames before the wait times out, and the frames that arrive for other requests, and the
  invalidations, are handled in between exactly as the reader thread handles them.  A completed request
  leaves the table of pending requests and is kept in \<open>cl_answered\<close> until its caller fetches it (the
  \<open>shared_ptr\<close> the caller holds).  The callbacks the mount installs are the lists of their arguments.
  Durations that only feed statistics are left out.
\<close>

section \<open>State\<close>

record AppliedChange =
  ac_change :: ChangeKind
  ac_path :: bytes
  ac_cookie :: u32
  ac_kind :: NodeKind
  ac_rescan :: bool

record ClientPending =
  pd_done :: bool
  pd_type :: MsgType
  pd_payload :: bytes
  pd_streaming :: bool
  pd_stream_ok :: bool
  pd_generation :: u64
  pd_snap_bytes :: nat
  pd_names :: "bytes list"
  pd_entries :: "SnapshotEntry list"

record ClientStats =
  cs_batches :: u64
  cs_ops :: u64
  cs_generation :: u64
  cs_snapshot_bytes :: nat
  cs_hits :: u64
  cs_misses :: u64
  cs_prefetch_files :: u64
  cs_prefetch_bytes :: u64
  cs_rescans :: u64
  cs_rescan_failures :: u64

record RemoteRoot =
  cl_token :: bytes
  cl_chan :: FrameChannel
  cl_closed :: bool
  cl_next :: u64
  cl_pending :: "(u64 \<times> ClientPending) list"
  cl_answered :: "(u64 \<times> ClientPending) list"
  cl_mode :: LookupMode
  cl_tree :: MetadataTree
  cl_in_flight :: bool
  cl_replay :: "InvalidationBatch list"
  cl_overflow :: bool
  cl_mutations :: "(bytes \<times> u64) list"
  cl_rs_requested :: bool
  cl_cache :: ReadCache
  cl_pf_queue :: "bytes list"
  cl_pf_seen :: "bytes list"
  cl_pf_pending :: nat
  cl_pf_stop :: bool
  cl_stats :: ClientStats
  cl_reports :: "AppliedChange list list"

definition kMaxSnapshotEntries :: nat where "kMaxSnapshotEntries = 2 ^ 20"

definition kMaxSnapshotBytes :: nat where "kMaxSnapshotBytes = 2 ^ 30"

definition kMaxSnapshotReplay :: nat where "kMaxSnapshotReplay = 4096"

definition RemoteRoot_init :: "bytes \<Rightarrow> LookupMode \<Rightarrow> FrameChannel \<Rightarrow> RemoteRoot" where
  "RemoteRoot_init token m ch =
    \<lparr>cl_token = token, cl_chan = ch, cl_closed = False, cl_next = 1, cl_pending = [], cl_answered = [], cl_mode = m,
     cl_tree = MetadataTree_init, cl_in_flight = False, cl_replay = [], cl_overflow = False, cl_mutations = [],
     cl_rs_requested = False, cl_cache = ReadCache_init, cl_pf_queue = [], cl_pf_seen = [], cl_pf_pending = 0,
     cl_pf_stop = False,
     cl_stats = \<lparr>cs_batches = 0, cs_ops = 0, cs_generation = 0, cs_snapshot_bytes = 0, cs_hits = 0, cs_misses = 0,
       cs_prefetch_files = 0, cs_prefetch_bytes = 0, cs_rescans = 0, cs_rescan_failures = 0\<rparr>,
     cl_reports = []\<rparr>"

definition ClientPending_init :: "bool \<Rightarrow> ClientPending" where
  "ClientPending_init streaming =
    \<lparr>pd_done = False, pd_type = 0, pd_payload = [], pd_streaming = streaming, pd_stream_ok = True, pd_generation = 0,
     pd_snap_bytes = 0, pd_names = [], pd_entries = []\<rparr>"

section \<open>Invalidations\<close>

text \<open>What the pass over a batch works on: the locals of \<open>apply_invalidation\<close> and the state under the tree lock.\<close>

record ApplyState =
  as_tree :: MetadataTree
  as_mutations :: "(bytes \<times> u64) list"
  as_applied :: "AppliedChange list"
  as_removed :: "bytes list"
  as_rescan :: bool

text \<open>The test against the client's own mutations: the operation is stale, or the path is caught up.\<close>

definition stale_op :: "u64 \<Rightarrow> InvalidationOp \<Rightarrow> (bytes \<times> u64) list \<Rightarrow> bool" where
  "stale_op gen x muts \<longleftrightarrow> op_kind x \<noteq> Rescan \<and>
     (case map_of muts (op_path x) of None \<Rightarrow> False | Some g \<Rightarrow> gen \<le> g)"

definition caught_up :: "InvalidationOp \<Rightarrow> (bytes \<times> u64) list \<Rightarrow> (bytes \<times> u64) list" where
  "caught_up x muts = (if op_kind x \<noteq> Rescan then AList.delete (op_path x) muts else muts)"

definition apply_upsert :: "LookupMode \<Rightarrow> InvalidationOp \<Rightarrow> ApplyState \<Rightarrow> ApplyState" where
  "apply_upsert m x st =
    (let existed = lookup (as_tree st) (op_path x) m \<noteq> None;
         change = (if \<not> is_move (op_change x) then (if existed then Modified else Created) else op_change x);
         ch = \<lparr>ac_change = change, ac_path = op_path x, ac_cookie = op_cookie x, ac_kind = kind (op_attr x), ac_rescan = False\<rparr>
     in st\<lparr>as_applied := as_applied st @ [ch], as_tree := snd (upsert_path (as_tree st) (op_path x) (op_attr x))\<rparr>)"

definition apply_remove :: "LookupMode \<Rightarrow> InvalidationOp \<Rightarrow> ApplyState \<Rightarrow> ApplyState" where
  "apply_remove m x st =
    (let t = as_tree st; i = lookup t (op_path x) m;
         was_dir = (case i of Some n \<Rightarrow> is_dir (node t n) | None \<Rightarrow> False);
         k = (case i of Some n \<Rightarrow> kind (attr (node t n)) | None \<Rightarrow> File);
         ch = \<lparr>ac_change = (if op_change x = MovedFrom then MovedFrom else Removed), ac_path = op_path x,
               ac_cookie = op_cookie x, ac_kind = k, ac_rescan = False\<rparr>
     in st\<lparr>as_removed := (if was_dir then as_removed st @ [op_path x] else as_removed st),
           as_applied := (if i \<noteq> None \<or> op_change x = MovedFrom then as_applied st @ [ch] else as_applied st),
           as_tree := snd (remove_path t (op_path x) m)\<rparr>)"

definition apply_op :: "LookupMode \<Rightarrow> u64 \<Rightarrow> InvalidationOp \<Rightarrow> ApplyState \<Rightarrow> ApplyState" where
  "apply_op m gen x st =
    (if stale_op gen x (as_mutations st) then st
     else
       let st1 = st\<lparr>as_mutations := caught_up x (as_mutations st)\<rparr>
       in case op_kind x of
            Upsert \<Rightarrow> apply_upsert m x st1
          | Remove \<Rightarrow> apply_remove m x st1
          | Rescan \<Rightarrow> st1\<lparr>as_rescan := True\<rparr>)"

definition apply_ops :: "LookupMode \<Rightarrow> u64 \<Rightarrow> InvalidationOp list \<Rightarrow> ApplyState \<Rightarrow> ApplyState" where
  "apply_ops m gen xs st = fold (apply_op m gen) xs st"

definition repair_applied :: "AppliedChange list \<Rightarrow> AppliedChange list" where
  "repair_applied = repair_move_pairs ac_change ac_cookie (\<lambda>ch ck x. x\<lparr>ac_change := ch, ac_cookie := ck\<rparr>)"

definition drop_op :: "InvalidationOp \<Rightarrow> ReadCache \<Rightarrow> ReadCache" where
  "drop_op x c =
    (let c1 = (if map_of (rcache c) (op_path x) \<noteq> None then cache_erase (op_path x) c else c)
     in c1\<lparr>link_cache := AList.delete (op_path x) (link_cache c1)\<rparr>)"

definition record_replay :: "InvalidationBatch \<Rightarrow> RemoteRoot \<Rightarrow> RemoteRoot" where
  "record_replay b c =
    (if \<not> cl_in_flight c then c
     else if length (cl_replay c) < kMaxSnapshotReplay then c\<lparr>cl_replay := cl_replay c @ [b]\<rparr>
     else c\<lparr>cl_overflow := True\<rparr>)"

definition apply_batch :: "InvalidationBatch \<Rightarrow> RemoteRoot \<Rightarrow> RemoteRoot" where
  "apply_batch b c =
    (let st = apply_ops (cl_mode c) (generation b) (ops b)
           \<lparr>as_tree = cl_tree c, as_mutations = cl_mutations c, as_applied = [], as_removed = [], as_rescan = False\<rparr>;
         c1 = record_replay b (c\<lparr>cl_tree := as_tree st, cl_mutations := as_mutations st\<rparr>);
         applied = repair_applied (as_applied st);
         cache1 = fold drop_op (ops b) (fold drop_cached_prefix (as_removed st) (cl_cache c1));
         cache2 = (if as_rescan st then cache1\<lparr>link_cache := []\<rparr> else cache1)
     in c1\<lparr>cl_rs_requested := (cl_rs_requested c1 \<or> as_rescan st), cl_cache := cache2,
           cl_pf_seen := filter (\<lambda>d. d \<notin> set (map (\<lambda>x. fst (split_parent (op_path x))) (ops b))) (cl_pf_seen c1),
           cl_stats := (cl_stats c1)\<lparr>cs_batches := cs_batches (cl_stats c1) + 1,
             cs_ops := cs_ops (cl_stats c1) + of_nat (length (ops b)), cs_generation := generation b\<rparr>,
           cl_reports := (if applied \<noteq> [] then cl_reports c1 @ [applied] else cl_reports c1)\<rparr>)"

definition apply_invalidation :: "bytes \<Rightarrow> RemoteRoot \<Rightarrow> RemoteRoot" where
  "apply_invalidation payload c =
    (case fst (read_invalidation (Reader_init payload)) of Inl e \<Rightarrow> c | Inr b \<Rightarrow> apply_batch b c)"

section \<open>The reader\<close>

primrec stream_entries :: "nat \<Rightarrow> Reader \<Rightarrow> ClientPending \<Rightarrow> ClientPending" where
  "stream_entries 0 r p = p"
| "stream_entries (Suc n) r p =
    (if length (pd_entries p) \<ge> kMaxSnapshotEntries then p\<lparr>pd_stream_ok := False\<rparr>
     else case read_snapshot_entry r of
       (Inl e, r1) \<Rightarrow> p\<lparr>pd_stream_ok := False\<rparr>
     | (Inr e, r1) \<Rightarrow>
         stream_entries n r1 (p\<lparr>pd_names := pd_names p @ [e_name e], pd_entries := pd_entries p @ [e\<lparr>e_name := []\<rparr>]\<rparr>))"

definition stream_frame :: "Frame \<Rightarrow> ClientPending \<Rightarrow> ClientPending" where
  "stream_frame f p =
    (let p1 = p\<lparr>pd_snap_bytes := pd_snap_bytes p + length (fr_payload f)\<rparr>;
         p2 = (if pd_snap_bytes p1 > kMaxSnapshotBytes then p1\<lparr>pd_stream_ok := False\<rparr>
               else case read_snapshot_header (Reader_init (fr_payload f)) of
                 (Inr hdr, r) \<Rightarrow> stream_entries (unat (sh_count hdr)) r (p1\<lparr>pd_generation := sh_generation hdr\<rparr>)
               | (Inl e, r) \<Rightarrow> p1\<lparr>pd_stream_ok := False\<rparr>)
     in if flags (fr_header f) AND kFlagMore = 0 \<or> \<not> pd_stream_ok p2
        then p2\<lparr>pd_type := MsgSnapshot, pd_done := True\<rparr> else p2)"

definition answer :: "u64 \<Rightarrow> ClientPending \<Rightarrow> RemoteRoot \<Rightarrow> RemoteRoot" where
  "answer rid p c = c\<lparr>cl_pending := AList.delete rid (cl_pending c), cl_answered := AList.update rid p (cl_answered c)\<rparr>"

definition deliver :: "Frame \<Rightarrow> RemoteRoot \<Rightarrow> RemoteRoot" where
  "deliver f c =
    (let rid = request_id (fr_header f) in
     case map_of (cl_pending c) rid of
       None \<Rightarrow> c
     | Some p \<Rightarrow>
         if pd_streaming p \<and> ftype (fr_header f) = MsgSnapshot then
           (let p1 = stream_frame f p
            in if pd_done p1 then answer rid p1 c else c\<lparr>cl_pending := AList.update rid p1 (cl_pending c)\<rparr>)
         else answer rid (p\<lparr>pd_type := ftype (fr_header f), pd_payload := fr_payload f, pd_done := True\<rparr>) c)"

definition fail_all_pending :: "RemoteRoot \<Rightarrow> RemoteRoot" where
  "fail_all_pending c =
    fold (\<lambda>(rid, p). answer rid (p\<lparr>pd_type := MsgPing, pd_payload := [], pd_done := True\<rparr>)) (cl_pending c) c"

text \<open>One turn of \<open>reader_loop\<close>; the last one, on a closed or broken connection, releases every caller.\<close>

definition reader_turn :: "RemoteRoot \<Rightarrow> RemoteRoot" where
  "reader_turn c =
    (if cl_closed c then fail_all_pending c
     else case receive (cl_chan c) of
       (Inl e, ch) \<Rightarrow> fail_all_pending (c\<lparr>cl_chan := ch, cl_closed := True\<rparr>)
     | (Inr f, ch) \<Rightarrow>
         let c1 = c\<lparr>cl_chan := ch\<rparr>
         in if ftype (fr_header f) = MsgInvalidation then apply_invalidation (fr_payload f) c1 else deliver f c1)"

section \<open>Requests\<close>

definition finish_request :: "ClientPending \<Rightarrow> ClientPending result" where
  "finish_request p =
    (if pd_type p = MsgError then
       (case fst (read_error (Reader_init (pd_payload p))) of
          Inr e \<Rightarrow> (case Errc_of (code e) of Some x \<Rightarrow> fail x | None \<Rightarrow> fail ProtocolError)
        | Inl e \<Rightarrow> fail ProtocolError)
     else if pd_payload p = [] \<and> pd_type p = MsgPing then fail ConnectionClosed
     else ok p)"

primrec await :: "nat \<Rightarrow> u64 \<Rightarrow> RemoteRoot \<Rightarrow> ClientPending result \<times> RemoteRoot" where
  "await 0 rid c =
    (case map_of (cl_answered c) rid of
       Some p \<Rightarrow> (finish_request p, c\<lparr>cl_answered := AList.delete rid (cl_answered c)\<rparr>)
     | None \<Rightarrow> (fail Timeout, c\<lparr>cl_pending := AList.delete rid (cl_pending c)\<rparr>))"
| "await (Suc n) rid c =
    (case map_of (cl_answered c) rid of
       Some p \<Rightarrow> (finish_request p, c\<lparr>cl_answered := AList.delete rid (cl_answered c)\<rparr>)
     | None \<Rightarrow> await n rid (reader_turn c))"

definition request :: "nat \<Rightarrow> MsgType \<Rightarrow> bytes \<Rightarrow> bool \<Rightarrow> RemoteRoot \<Rightarrow> ClientPending result \<times> RemoteRoot" where
  "request n t payload streaming c =
    (if cl_closed c then (fail ConnectionClosed, c)
     else
       let rid = cl_next c;
           c1 = c\<lparr>cl_next := rid + 1, cl_pending := AList.update rid (ClientPending_init streaming) (cl_pending c)\<rparr>
       in case send t rid payload 0 (cl_chan c1) of
            (Inl e, ch) \<Rightarrow> (fail e, c1\<lparr>cl_chan := ch, cl_pending := AList.delete rid (cl_pending c1)\<rparr>)
          | (Inr _, ch) \<Rightarrow> await n rid (c1\<lparr>cl_chan := ch\<rparr>))"

text \<open>The common shape of the calls: an answer of the expected type, decoded.\<close>

definition call :: "nat \<Rightarrow> MsgType \<Rightarrow> bytes \<Rightarrow> MsgType \<Rightarrow> 'a rd \<Rightarrow> RemoteRoot \<Rightarrow> 'a result \<times> RemoteRoot" where
  "call n t payload want rd c =
    (case request n t payload False c of
       (Inl e, c1) \<Rightarrow> (fail e, c1)
     | (Inr p, c1) \<Rightarrow>
         if pd_type p \<noteq> want then (fail ProtocolError, c1) else (fst (rd (Reader_init (pd_payload p))), c1))"

end
