(* ===== verification/ClientOps.thy ===== *)
theory ClientOps
  imports Client
begin

text \<open>
  The calls of \<open>RemoteRoot\<close> in \<open>src/agent/client.cpp\<close>: the mutual handshake, the snapshot, reads through the
  content cache with read-ahead, link targets, the background prefetcher and rescans, and the mutations
  that are carried out on the far side and then written into the mirror.

  Every call takes the number \<open>n\<close> of frames the reader may handle before the wait times out; the wall clock of
  \<open>bump_mtime\<close> is an argument.
\<close>

section \<open>Handshake\<close>

definition client_hello :: "bytes \<Rightarrow> bytes \<Rightarrow> Hello" where
  "client_hello agent1 nonce1 =
    \<lparr>protocol_version = ucast kVersion, capabilities = 0, agent = agent1, nonce = nonce1, proof_of = []\<rparr>"

definition client_auth :: "'h blake3_api \<Rightarrow> bytes \<Rightarrow> bytes \<Rightarrow> Hello \<Rightarrow> Hello" where
  "client_auth api token cn ack =
    \<lparr>protocol_version = ucast kVersion, capabilities = 0, agent = [], nonce = [],
     proof_of = auth_proof api token cn (nonce ack) False\<rparr>"

definition scrub :: "Hello \<Rightarrow> Hello" where
  "scrub ack = ack\<lparr>agent := [], nonce := [], proof_of := []\<rparr>"

text \<open>The second half: check the agent's proof before anything is proved to it.\<close>

definition connect_auth :: "'h blake3_api \<Rightarrow> nat \<Rightarrow> bytes \<Rightarrow> Hello \<Rightarrow> RemoteRoot \<Rightarrow> Hello result \<times> RemoteRoot" where
  "connect_auth api n cn ack c =
    (if \<not> constant_time_equal (proof_of ack) (auth_proof api (cl_token c) cn (nonce ack) True) then (fail Unauthorized, c)
     else case request n MsgAuth (write_hello (client_auth api (cl_token c) cn ack) []) False c of
       (Inl e, c1) \<Rightarrow> (fail e, c1)
     | (Inr p, c1) \<Rightarrow> if pd_type p \<noteq> MsgOk then (fail Unauthorized, c1) else (ok (scrub ack), c1))"

definition connect ::
  "'h blake3_api \<Rightarrow> bytes \<Rightarrow> (nat \<Rightarrow> nat \<Rightarrow> bytes) \<Rightarrow> nat \<Rightarrow> RemoteRoot \<Rightarrow> Hello result \<times> RemoteRoot" where
  "connect api agent1 getrandom n c =
    (let cn = (if cl_token c = [] then [] else generate_auth_nonce getrandom) in
     if cl_token c \<noteq> [] \<and> cn = [] then (fail IoError, c)
     else case call n MsgHello (write_hello (client_hello agent1 cn) []) MsgHelloAck read_hello c of
       (Inl e, c1) \<Rightarrow> (fail e, c1)
     | (Inr ack, c1) \<Rightarrow> if cl_token c = [] then (ok (scrub ack), c1) else connect_auth api n cn ack c1)"

section \<open>Snapshots\<close>

definition replay_op :: "InvalidationOp \<Rightarrow> MetadataTree \<Rightarrow> MetadataTree" where
  "replay_op x t =
    (case op_kind x of
       Upsert \<Rightarrow> snd (upsert_path t (op_path x) (op_attr x))
     | Remove \<Rightarrow> snd (remove_path t (op_path x) Exact)
     | Rescan \<Rightarrow> t)"

definition replay_batches :: "u64 \<Rightarrow> InvalidationBatch list \<Rightarrow> MetadataTree \<Rightarrow> MetadataTree" where
  "replay_batches snap_gen bs t = fold (\<lambda>b t. if generation b \<le> snap_gen then t else fold replay_op (ops b) t) bs t"

definition end_recording :: "RemoteRoot \<Rightarrow> RemoteRoot" where
  "end_recording c = c\<lparr>cl_in_flight := False, cl_replay := [], cl_overflow := False\<rparr>"

definition named_entries :: "ClientPending \<Rightarrow> SnapshotEntry list" where
  "named_entries p = map (\<lambda>(e, nm). e\<lparr>e_name := nm\<rparr>) (zip (pd_entries p) (pd_names p))"

definition fetch_snapshot :: "nat \<Rightarrow> RemoteRoot \<Rightarrow> unit result \<times> RemoteRoot" where
  "fetch_snapshot n c =
    (case request n MsgSnapshotRequest [] True (c\<lparr>cl_in_flight := True, cl_replay := []\<rparr>) of
       (Inl e, c1) \<Rightarrow> (fail e, end_recording c1)
     | (Inr p, c1) \<Rightarrow>
         if pd_type p \<noteq> MsgSnapshot then (fail ProtocolError, end_recording c1)
         else if \<not> pd_stream_ok p then (fail Corrupt, end_recording c1)
         else case load_snapshot (cl_tree c1) (named_entries p) of
           (Inl e, t) \<Rightarrow> (fail e, end_recording (c1\<lparr>cl_tree := t\<rparr>))
         | (Inr _, t) \<Rightarrow>
             let c2 = end_recording (c1\<lparr>cl_tree := replay_batches (pd_generation p) (cl_replay c1) t,
                   cl_stats := (cl_stats c1)\<lparr>cs_generation := pd_generation p, cs_snapshot_bytes := pd_snap_bytes p\<rparr>\<rparr>)
             in (ok (), c2\<lparr>cl_rs_requested := cl_rs_requested c2 \<or> cl_overflow c1\<rparr>))"

section \<open>Reads\<close>

record ReadTarget =
  rt_is_file :: bool
  rt_mtime :: i64
  rt_size :: u64
  rt_canonical :: bytes

definition ReadTarget_init :: ReadTarget where
  "ReadTarget_init = \<lparr>rt_is_file = False, rt_mtime = 0, rt_size = 0, rt_canonical = []\<rparr>"

definition resolve_for_read :: "bytes \<Rightarrow> RemoteRoot \<Rightarrow> ReadTarget" where
  "resolve_for_read path c =
    (let t = cl_tree c;
         (i, canon) = (case lookup t path Exact of
            Some i \<Rightarrow> (Some i, [])
          | None \<Rightarrow>
              if cl_mode c \<noteq> Exact then
                (case lookup t path (cl_mode c) of Some i \<Rightarrow> (Some i, path_of t i slash) | None \<Rightarrow> (None, []))
              else (None, []))
     in case i of
          None \<Rightarrow> ReadTarget_init
        | Some j \<Rightarrow> \<lparr>rt_is_file = kind (attr (node t j)) = File, rt_mtime = mtime_ns (attr (node t j)),
                     rt_size = size_of (attr (node t j)), rt_canonical = canon\<rparr>)"

definition read_key :: "bytes \<Rightarrow> ReadTarget \<Rightarrow> bytes" where
  "read_key path t = (if rt_canonical t = [] then path else rt_canonical t)"

definition read_remote :: "nat \<Rightarrow> bytes \<Rightarrow> u64 \<Rightarrow> u32 \<Rightarrow> RemoteRoot \<Rightarrow> bytes result \<times> RemoteRoot" where
  "read_remote n path offset cnt c =
    (case call n MsgReadRequest (write_read_request \<lparr>rr_path = path, rr_offset = offset, rr_length = cnt\<rparr> [])
            MsgReadResponse read_read_response c of
       (Inl e, c1) \<Rightarrow> (fail e, c1)
     | (Inr resp, c1) \<Rightarrow> (ok (rs_data resp), c1))"

definition item_option :: "ReadManyItem \<Rightarrow> bytes option" where
  "item_option it = (if item_ok it then Some (item_data it) else None)"

text \<open>The answers by position: what the reply does not cover stays empty.\<close>

definition read_many :: "nat \<Rightarrow> bytes list \<Rightarrow> RemoteRoot \<Rightarrow> bytes option list result \<times> RemoteRoot" where
  "read_many n ps c =
    (case call n MsgReadManyRequest (write_read_many_request \<lparr>paths = ps\<rparr> []) MsgReadManyResponse read_read_many_response c of
       (Inl e, c1) \<Rightarrow> (fail e, c1)
     | (Inr resp, c1) \<Rightarrow>
         let got = take (length ps) (map item_option (items resp))
         in (ok (got @ replicate (length ps - length got) None), c1))"

text \<open>
  The children a walk visits.  Under the invariant of the tree \<open>for_each_child\<close> always ends
  (\<open>inv_children\<close>), so that the other branch is never taken.
\<close>

definition children :: "MetadataTree \<Rightarrow> NodeId \<Rightarrow> NodeId list" where
  "children t i = (case for_each_child t i of Some cs \<Rightarrow> cs | None \<Rightarrow> [])"

definition child_path :: "bytes \<Rightarrow> bytes \<Rightarrow> bytes" where
  "child_path dir nm = (if dir = [] then nm else dir @ slash # nm)"

record FileMeta =
  fm_path :: bytes
  fm_mtime :: i64
  fm_size :: u64

definition small_file :: "Node \<Rightarrow> bool" where
  "small_file n \<longleftrightarrow> kind (attr n) = File \<and> size_of (attr n) \<noteq> 0 \<and> size_of (attr n) \<le> kMaxCacheableFile"

definition sibling :: "MetadataTree \<Rightarrow> bytes \<Rightarrow> bytes \<Rightarrow> NodeId \<Rightarrow> FileMeta list \<times> u64 \<Rightarrow> FileMeta list \<times> u64" where
  "sibling t dir target1 i st =
    (let (batch, n) = st; nd = node t i; p = child_path dir (name_of t i) in
     if length batch \<ge> 256 \<or> n \<ge> push_bit 20 2 then st
     else if \<not> small_file nd then st
     else if p = target1 then st
     else (batch @ [\<lparr>fm_path = p, fm_mtime = mtime_ns (attr nd), fm_size = size_of (attr nd)\<rparr>], n + size_of (attr nd)))"

definition read_ahead :: "bytes \<Rightarrow> ReadTarget \<Rightarrow> RemoteRoot \<Rightarrow> FileMeta list" where
  "read_ahead key1 t c =
    (let dir = fst (split_parent key1);
         st = ([\<lparr>fm_path = key1, fm_mtime = rt_mtime t, fm_size = rt_size t\<rparr>], rt_size t)
     in case lookup (cl_tree c) dir Exact of
          Some d \<Rightarrow>
            if is_dir (node (cl_tree c) d)
            then fst (fold (sibling (cl_tree c) dir key1) (children (cl_tree c) d) st) else fst st
        | None \<Rightarrow> fst st)"

definition put_fetched :: "FileMeta \<times> bytes option \<Rightarrow> RemoteRoot \<Rightarrow> RemoteRoot" where
  "put_fetched x c =
    (case snd x of
       None \<Rightarrow> c
     | Some bs \<Rightarrow> c\<lparr>cl_cache := cache_put (fm_path (fst x)) (fm_mtime (fst x)) (fm_size (fst x)) bs (cl_cache c)\<rparr>)"

definition enqueue_prefetch :: "bytes \<Rightarrow> RemoteRoot \<Rightarrow> RemoteRoot" where
  "enqueue_prefetch dir c =
    (if cl_pf_stop c \<or> dir \<in> set (cl_pf_seen c) then c
     else c\<lparr>cl_pf_seen := dir # cl_pf_seen c, cl_pf_pending := cl_pf_pending c + 1, cl_pf_queue := cl_pf_queue c @ [dir]\<rparr>)"

definition count_hit :: "RemoteRoot \<Rightarrow> RemoteRoot" where
  "count_hit c = c\<lparr>cl_stats := (cl_stats c)\<lparr>cs_hits := cs_hits (cl_stats c) + 1\<rparr>\<rparr>"

definition count_miss :: "RemoteRoot \<Rightarrow> RemoteRoot" where
  "count_miss c = c\<lparr>cl_stats := (cl_stats c)\<lparr>cs_misses := cs_misses (cl_stats c) + 1\<rparr>\<rparr>"

text \<open>The miss: one bulk request for the file and its small siblings, or the file alone if that fails.\<close>

definition fetch_target :: "nat \<Rightarrow> bytes \<Rightarrow> ReadTarget \<Rightarrow> FileMeta list \<Rightarrow> RemoteRoot \<Rightarrow> bytes result \<times> RemoteRoot" where
  "fetch_target n key1 t batch c =
    (let (res, c1) = read_many n (map fm_path batch) c in
     case (case res of Inr (Some bs # _) \<Rightarrow> Some bs | _ \<Rightarrow> None) of
       Some bs \<Rightarrow> (ok bs, fold put_fetched (zip batch (projr res)) c1)
     | None \<Rightarrow>
         (case read_remote n key1 0 (ucast (rt_size t)) c1 of
            (Inl e, c2) \<Rightarrow> (fail e, c2)
          | (Inr whole, c2) \<Rightarrow>
              (ok whole, c2\<lparr>cl_cache := cache_put key1 (rt_mtime t) (rt_size t) whole (cl_cache c2)\<rparr>)))"

definition RemoteRoot_read :: "nat \<Rightarrow> bytes \<Rightarrow> u64 \<Rightarrow> u32 \<Rightarrow> RemoteRoot \<Rightarrow> bytes result \<times> RemoteRoot" where
  "RemoteRoot_read n path offset cnt c =
    (let t = resolve_for_read path c; key1 = read_key path t in
     if \<not> rt_is_file t \<or> rt_size t > kMaxCacheableFile then read_remote n key1 offset cnt c
     else case cache_hit key1 (rt_mtime t) (rt_size t) (cl_cache c) of
       (Some bs, cache1) \<Rightarrow> (ok (slice bs offset cnt), count_hit (c\<lparr>cl_cache := cache1\<rparr>))
     | (None, cache1) \<Rightarrow>
         let batch = read_ahead key1 t c in
         (case fetch_target n key1 t batch c of
            (Inl e, c1) \<Rightarrow> (fail e, c1)
          | (Inr bs, c1) \<Rightarrow>
              let c2 = count_miss c1;
                  c3 = (if length batch \<ge> 256 then enqueue_prefetch (fst (split_parent key1)) c2 else c2)
              in (ok (slice bs offset cnt), c3)))"

text \<open>\<open>read_into\<close> a buffer of \<open>room\<close> bytes: the answer is what was copied to its front.\<close>

definition read_into :: "nat \<Rightarrow> bytes \<Rightarrow> u64 \<Rightarrow> nat \<Rightarrow> RemoteRoot \<Rightarrow> bytes result \<times> RemoteRoot" where
  "read_into n path offset space c =
    (let t = resolve_for_read path c; key1 = read_key path t;
         probe = (if rt_is_file t \<and> rt_size t \<le> kMaxCacheableFile
                  then cache_hit key1 (rt_mtime t) (rt_size t) (cl_cache c) else (None, cl_cache c))
     in case probe of
          (Some bs, cache1) \<Rightarrow>
            let k = (if unat offset \<ge> length bs then 0 else min space (length bs - unat offset))
            in (ok (take k (drop (unat offset) bs)), count_hit (c\<lparr>cl_cache := cache1\<rparr>))
        | (None, cache1) \<Rightarrow>
            (case RemoteRoot_read n key1 offset (of_nat (min space 0xFFFFFFFF)) c of
               (Inl e, c1) \<Rightarrow> (fail e, c1)
             | (Inr bs, c1) \<Rightarrow> (ok (take (min space (length bs)) bs), c1)))"

definition readlink :: "nat \<Rightarrow> bytes \<Rightarrow> RemoteRoot \<Rightarrow> bytes result \<times> RemoteRoot" where
  "readlink n path c =
    (case map_of (link_cache (cl_cache c)) path of
       Some x \<Rightarrow> (ok x, c)
     | None \<Rightarrow>
         (case call n MsgReadlinkRequest (write_path_request \<lparr>pr_path = path\<rparr> []) MsgReadlinkResponse read_readlink_response c of
            (Inl e, c1) \<Rightarrow> (fail e, c1)
          | (Inr resp, c1) \<Rightarrow>
              (ok (target resp),
               c1\<lparr>cl_cache := (cl_cache c1)\<lparr>link_cache := AList.update path (target resp) (link_cache (cl_cache c1))\<rparr>\<rparr>)))"

definition ping :: "nat \<Rightarrow> RemoteRoot \<Rightarrow> unit result \<times> RemoteRoot" where
  "ping n c =
    (case request n MsgPing [] False c of
       (Inl e, c1) \<Rightarrow> (fail e, c1)
     | (Inr p, c1) \<Rightarrow> if pd_type p \<noteq> MsgPong then (fail ProtocolError, c1) else (ok (), c1))"

section \<open>Mutations\<close>

definition bump_mtime :: "i64 \<Rightarrow> i64 \<Rightarrow> i64" where
  "bump_mtime now previous = (if sint now < sint (previous + 1) then previous + 1 else now)"

definition note_mutation :: "bytes \<Rightarrow> u64 \<Rightarrow> RemoteRoot \<Rightarrow> RemoteRoot" where
  "note_mutation path gen c =
    (let m = (if length (cl_mutations c) > 65536 then [] else cl_mutations c)
     in c\<lparr>cl_mutations := AList.update (normalize_path path) gen m\<rparr>)"

definition take_ack :: "u64 rd" where
  "take_ack = rbind read_mutation_ack (\<lambda>a. rret (ack_generation a))"

definition on_cache :: "(ReadCache \<Rightarrow> ReadCache) \<Rightarrow> RemoteRoot \<Rightarrow> RemoteRoot" where
  "on_cache f c = c\<lparr>cl_cache := f (cl_cache c)\<rparr>"

definition on_tree :: "(MetadataTree \<Rightarrow> MetadataTree) \<Rightarrow> RemoteRoot \<Rightarrow> RemoteRoot" where
  "on_tree f c = c\<lparr>cl_tree := f (cl_tree c)\<rparr>"

definition create_file :: "nat \<Rightarrow> bytes \<Rightarrow> u32 \<Rightarrow> RemoteRoot \<Rightarrow> unit result \<times> RemoteRoot" where
  "create_file n path md c =
    (case call n MsgCreateRequest (write_create_request \<lparr>cr_path = path, cr_mode = md\<rparr> []) MsgCreateResponse
            (rbind read_attributes (\<lambda>a. rbind take_ack (\<lambda>g. rret (a, g)))) c of
       (Inl e, c1) \<Rightarrow> (fail e, c1)
     | (Inr (a, g), c1) \<Rightarrow> (ok (), note_mutation path g (on_tree (\<lambda>t. snd (upsert_path t path a)) c1)))"

definition RemoteRoot_write :: "nat \<Rightarrow> i64 \<Rightarrow> bytes \<Rightarrow> u64 \<Rightarrow> bytes \<Rightarrow> RemoteRoot \<Rightarrow> u64 result \<times> RemoteRoot" where
  "RemoteRoot_write n now path offset bs c =
    (case call n MsgWriteRequest (write_write_request \<lparr>wr_path = path, wr_offset = offset, wr_data = bs\<rparr> []) MsgWriteResponse
            read_write_response c of
       (Inl e, c1) \<Rightarrow> (fail e, c1)
     | (Inr resp, c1) \<Rightarrow>
         let stop = offset + written resp;
             c2 = on_cache (drop_cached path) c1;
             t = cl_tree c2;
             t1 = (case lookup t path (cl_mode c2) of
                     Some i \<Rightarrow>
                       let a = attr (node t i)
                       in snd (set_attributes t i (a\<lparr>size_of := max (size_of a) stop, mtime_ns := bump_mtime now (mtime_ns a)\<rparr>))
                   | None \<Rightarrow>
                       snd (upsert_path t path \<lparr>size_of = stop, mtime_ns = bump_mtime now 0, mode = 420, kind = File\<rparr>))
         in (ok (written resp), note_mutation path (wrs_generation resp) (c2\<lparr>cl_tree := t1\<rparr>)))"

definition RemoteRoot_truncate :: "nat \<Rightarrow> i64 \<Rightarrow> bytes \<Rightarrow> u64 \<Rightarrow> RemoteRoot \<Rightarrow> unit result \<times> RemoteRoot" where
  "RemoteRoot_truncate n now path sz c =
    (case call n MsgTruncateRequest (write_truncate_request \<lparr>tr_path = path, tr_size = sz\<rparr> []) MsgOk take_ack c of
       (Inl e, c1) \<Rightarrow> (fail e, c1)
     | (Inr g, c1) \<Rightarrow>
         let c2 = on_cache (drop_cached path) c1;
             t = cl_tree c2;
             t1 = (case lookup t path (cl_mode c2) of
                     Some i \<Rightarrow>
                       let a = attr (node t i)
                       in snd (set_attributes t i (a\<lparr>size_of := sz, mtime_ns := bump_mtime now (mtime_ns a)\<rparr>))
                   | None \<Rightarrow> t)
         in (ok (), note_mutation path g (c2\<lparr>cl_tree := t1\<rparr>)))"

definition mkdir :: "nat \<Rightarrow> bytes \<Rightarrow> u32 \<Rightarrow> RemoteRoot \<Rightarrow> unit result \<times> RemoteRoot" where
  "mkdir n path md c =
    (case call n MsgMkdirRequest (write_mkdir_request \<lparr>mk_path = path, mk_mode = md\<rparr> []) MsgOk take_ack c of
       (Inl e, c1) \<Rightarrow> (fail e, c1)
     | (Inr g, c1) \<Rightarrow>
         (ok (), note_mutation path g
           (on_tree (\<lambda>t. snd (upsert_path t path \<lparr>size_of = 0, mtime_ns = 0, mode = md, kind = Directory\<rparr>)) c1)))"

definition unlink :: "nat \<Rightarrow> bytes \<Rightarrow> RemoteRoot \<Rightarrow> unit result \<times> RemoteRoot" where
  "unlink n path c =
    (case call n MsgUnlinkRequest (write_path_request \<lparr>pr_path = path\<rparr> []) MsgOk take_ack c of
       (Inl e, c1) \<Rightarrow> (fail e, c1)
     | (Inr g, c1) \<Rightarrow>
         (ok (), note_mutation path g (on_tree (\<lambda>t. snd (remove_path t path (cl_mode c1))) (on_cache (drop_cached path) c1))))"

definition rmdir :: "nat \<Rightarrow> bytes \<Rightarrow> RemoteRoot \<Rightarrow> unit result \<times> RemoteRoot" where
  "rmdir n path c =
    (case call n MsgRmdirRequest (write_path_request \<lparr>pr_path = path\<rparr> []) MsgOk take_ack c of
       (Inl e, c1) \<Rightarrow> (fail e, c1)
     | (Inr g, c1) \<Rightarrow>
         (ok (), note_mutation path g
           (on_tree (\<lambda>t. snd (remove_path t path (cl_mode c1))) (on_cache (drop_cached_prefix path) c1))))"

text \<open>The mirror's part of a rename, on normalised paths: \<open>id\<close> is the node at the source.\<close>

definition move_node :: "LookupMode \<Rightarrow> NodeId \<Rightarrow> bytes \<Rightarrow> MetadataTree \<Rightarrow> MetadataTree" where
  "move_node m i nto t =
    (let (p, leaf) = split_parent nto;
         (dir, t1) = (if p = [] then (ok root, t) else ensure_directory_path t p)
     in case dir of
          Inl e \<Rightarrow> t1
        | Inr d \<Rightarrow>
            (case rename t1 i d leaf of
               (Inr _, t2) \<Rightarrow> t2
             | (Inl e, t2) \<Rightarrow>
                 let t3 = (case lookup t2 nto m of
                             Some blocker \<Rightarrow> if blocker \<noteq> i then snd (remove t2 blocker) else t2
                           | None \<Rightarrow> t2)
                 in snd (rename t3 i d leaf)))"

definition move_path :: "LookupMode \<Rightarrow> bytes \<Rightarrow> bytes \<Rightarrow> MetadataTree \<Rightarrow> MetadataTree" where
  "move_path m nfrom nto t =
    (let i = lookup t nfrom m;
         t1 = (case lookup t nto m of
                 Some victim \<Rightarrow> if Some victim \<noteq> i then snd (remove t victim) else t
               | None \<Rightarrow> t)
     in case i of None \<Rightarrow> t1 | Some j \<Rightarrow> move_node m j nto t1)"

definition RemoteRoot_rename :: "nat \<Rightarrow> bytes \<Rightarrow> bytes \<Rightarrow> RemoteRoot \<Rightarrow> unit result \<times> RemoteRoot" where
  "RemoteRoot_rename n from to c =
    (case call n MsgRenameRequest (write_rename_request \<lparr>from_path = from, to_path = to\<rparr> []) MsgOk take_ack c of
       (Inl e, c1) \<Rightarrow> (fail e, c1)
     | (Inr g, c1) \<Rightarrow>
         let c2 = on_cache (drop_cached to \<circ> drop_cached from) c1;
             nfrom = normalize_path from; nto = normalize_path to
         in if nfrom = nto then (ok (), c2)
            else
              let moved_dir = (case lookup (cl_tree c2) nfrom (cl_mode c2) of Some i \<Rightarrow> is_dir (node (cl_tree c2) i) | None \<Rightarrow> False);
                  c3 = (if moved_dir then on_cache (drop_cached_prefix nto \<circ> drop_cached_prefix nfrom) c2 else c2);
                  c4 = note_mutation nto g (note_mutation nfrom g c3)
              in (ok (), on_tree (move_path (cl_mode c4) nfrom nto) c4))"

section \<open>Prefetching\<close>

definition kPrefetchBatchBytes :: u64 where "kPrefetchBatchBytes = push_bit 20 4"

definition kPrefetchBatchCount :: nat where "kPrefetchBatchCount = 512"

definition small_files :: "bytes \<Rightarrow> MetadataTree \<Rightarrow> FileMeta list" where
  "small_files dir t =
    (case lookup t dir Exact of
       Some i \<Rightarrow>
         if is_dir (node t i)
         then map (\<lambda>k. \<lparr>fm_path = child_path dir (name_of t k), fm_mtime = mtime_ns (attr (node t k)),
                        fm_size = size_of (attr (node t k))\<rparr>)
                (filter (\<lambda>k. small_file (node t k)) (children t i))
         else []
     | None \<Rightarrow> [])"

record Prefetch =
  pr_batch :: "FileMeta list"
  pr_bytes :: u64
  pr_files :: u64
  pr_got :: u64
  pr_sent :: "nat list"

text \<open>The lambda \<open>flush\<close>; \<open>pr_sent\<close> records the sizes of the batches it asked for.\<close>

definition prefetch_flush :: "nat \<Rightarrow> Prefetch \<times> RemoteRoot \<Rightarrow> Prefetch \<times> RemoteRoot" where
  "prefetch_flush n st =
    (let (p, c) = st; p0 = p\<lparr>pr_batch := [], pr_bytes := 0\<rparr> in
     if pr_batch p = [] \<or> cl_pf_stop c then (p0, c)
     else
       let (res, c1) = read_many n (map fm_path (pr_batch p)) c;
           p1 = p0\<lparr>pr_sent := pr_sent p @ [length (pr_batch p)]\<rparr>
       in case res of
            Inl e \<Rightarrow> (p1, c1)
          | Inr rs \<Rightarrow>
              let got = filter (\<lambda>x. x \<noteq> None) rs
              in (p1\<lparr>pr_files := pr_files p + of_nat (length got),
                     pr_got := pr_got p + of_nat (\<Sum>x \<leftarrow> got. length (the x))\<rparr>,
                  fold put_fetched (zip (pr_batch p) rs) c1))"

definition cached_now :: "FileMeta \<Rightarrow> ReadCache \<Rightarrow> bool" where
  "cached_now fm c =
    (case map_of (rcache c) (fm_path fm) of
       Some e \<Rightarrow> ce_mtime e = fm_mtime fm \<and> ce_size e = fm_size fm
     | None \<Rightarrow> False)"

primrec prefetch_files :: "nat \<Rightarrow> FileMeta list \<Rightarrow> Prefetch \<times> RemoteRoot \<Rightarrow> Prefetch \<times> RemoteRoot" where
  "prefetch_files n [] st = st"
| "prefetch_files n (fm # fms) st =
    (let (p, c) = st in
     if cl_pf_stop c then st
     else if cached_now fm (cl_cache c) then prefetch_files n fms st
     else
       let p1 = p\<lparr>pr_batch := pr_batch p @ [fm], pr_bytes := pr_bytes p + fm_size fm\<rparr>;
           st1 = (if length (pr_batch p1) \<ge> kPrefetchBatchCount \<or> pr_bytes p1 \<ge> kPrefetchBatchBytes
                  then prefetch_flush n (p1, c) else (p1, c))
       in prefetch_files n fms st1)"

definition Prefetch_init :: Prefetch where
  "Prefetch_init = \<lparr>pr_batch = [], pr_bytes = 0, pr_files = 0, pr_got = 0, pr_sent = []\<rparr>"

text \<open>One directory of \<open>prefetch_loop\<close>; \<open>None\<close> while the queue is empty or the thread is to stop.\<close>

definition prefetch_turn :: "nat \<Rightarrow> RemoteRoot \<Rightarrow> (Prefetch \<times> RemoteRoot) option" where
  "prefetch_turn n c =
    (if cl_pf_stop c then None
     else case cl_pf_queue c of
       [] \<Rightarrow> None
     | dir # q \<Rightarrow>
         let c1 = c\<lparr>cl_pf_queue := q\<rparr>;
             (p, c2) = prefetch_flush n (prefetch_files n (small_files dir (cl_tree c1)) (Prefetch_init, c1));
             c3 = c2\<lparr>cl_stats := (cl_stats c2)\<lparr>cs_prefetch_files := cs_prefetch_files (cl_stats c2) + pr_files p,
                    cs_prefetch_bytes := cs_prefetch_bytes (cl_stats c2) + pr_got p\<rparr>,
                    cl_pf_pending := cl_pf_pending c2 - 1\<rparr>
         in Some (p, c3))"

section \<open>Rescans\<close>

record RescanClock =
  rs_last :: "int option"
  rs_backoff :: int

definition kRescanMinInterval :: int where "kRescanMinInterval = 500000000"

definition kRescanMaxInterval :: int where "kRescanMaxInterval = 30000000000"

definition RescanClock_init :: RescanClock where
  "RescanClock_init = \<lparr>rs_last = None, rs_backoff = kRescanMinInterval\<rparr>"

text \<open>
  The back-off of \<open>rescan_loop\<close> (in nanoseconds) for a rescan that is noticed at time \<open>now\<close>: the earliest
  time it may begin, and the state when it begins at time \<open>start\<close>.
\<close>

definition rescan_backoff :: "int \<Rightarrow> RescanClock \<Rightarrow> int" where
  "rescan_backoff now k =
    (case rs_last k of
       None \<Rightarrow> rs_backoff k
     | Some l \<Rightarrow> if now - l > kRescanMaxInterval then kRescanMinInterval else rs_backoff k)"

definition rescan_earliest :: "int \<Rightarrow> RescanClock \<Rightarrow> int" where
  "rescan_earliest now k =
    (case rs_last k of None \<Rightarrow> now | Some l \<Rightarrow> max now (l + rescan_backoff now k))"

definition rescan_begin :: "int \<Rightarrow> int \<Rightarrow> RescanClock \<Rightarrow> RescanClock" where
  "rescan_begin now start k =
    \<lparr>rs_last = Some start,
     rs_backoff = (if rs_last k = None then rs_backoff k else min (rescan_backoff now k * 2) kRescanMaxInterval)\<rparr>"

definition rescan_change :: AppliedChange where
  "rescan_change = \<lparr>ac_change = Unknown, ac_path = [], ac_cookie = 0, ac_kind = Directory, ac_rescan = True\<rparr>"

text \<open>One pass of the loop behind the wait.\<close>

definition rescan_turn :: "nat \<Rightarrow> RemoteRoot \<Rightarrow> RemoteRoot" where
  "rescan_turn n c =
    (let c0 = c\<lparr>cl_rs_requested := False\<rparr> in
     if cl_closed c0 then c0
     else case fetch_snapshot n c0 of
       (Inl e, c1) \<Rightarrow> c1\<lparr>cl_stats := (cl_stats c1)\<lparr>cs_rescan_failures := cs_rescan_failures (cl_stats c1) + 1\<rparr>\<rparr>
     | (Inr _, c1) \<Rightarrow>
         c1\<lparr>cl_pf_seen := [], cl_stats := (cl_stats c1)\<lparr>cs_rescans := cs_rescans (cl_stats c1) + 1\<rparr>,
            cl_reports := cl_reports c1 @ [[rescan_change]]\<rparr>)"

end
