(* ===== verification/ClientInv.thy ===== *)
theory ClientInv
  imports ClientProps
begin

text \<open>
  The invariant of the whole client: whatever the server sends, and in whatever order the calls are made,
  the state of the client stays within fixed bounds and the content cache stays consistent.
\<close>

section \<open>The invariant\<close>

definition pending_ok :: "ClientPending \<Rightarrow> bool" where
  "pending_ok p \<longleftrightarrow> length (pd_entries p) \<le> kMaxSnapshotEntries \<and> length (pd_names p) = length (pd_entries p) \<and>
     length (pd_payload p) \<le> unat kMaxPayload"

definition client_inv :: "RemoteRoot \<Rightarrow> bool" where
  "client_inv c \<longleftrightarrow> list_all (\<lambda>x. pending_ok (snd x)) (cl_pending c) \<and> list_all (\<lambda>x. pending_ok (snd x)) (cl_answered c) \<and>
     length (cl_replay c) \<le> kMaxSnapshotReplay \<and> length (cl_mutations c) \<le> 65537 \<and> cache_inv (cl_cache c)"

named_theorems client_keeps \<open>operations of the client that keep its invariant\<close>

lemma alist_update_all: "list_all P xs \<Longrightarrow> P (k, v) \<Longrightarrow> list_all P (AList.update k v xs)"
  by (induction xs) auto

lemma alist_delete_all: "list_all P xs \<Longrightarrow> list_all P (AList.delete k xs)"
  by (auto simp: AList.delete_eq list_all_iff)

lemma alist_update_length: "length (AList.update k v xs) \<le> Suc (length xs)"
  by (induction xs) auto

lemma alist_delete_length: "length (AList.delete k xs) \<le> length xs"
  by (simp add: AList.delete_eq)

section \<open>The reader\<close>

lemma stream_entries_ok: "pending_ok p \<Longrightarrow> pending_ok (stream_entries n r p)"
proof (induction n arbitrary: r p)
  case (Suc n)
  show ?case
  proof (cases "length (pd_entries p) \<ge> kMaxSnapshotEntries")
    case True
    then show ?thesis using Suc.prems by (simp add: pending_ok_def)
  next
    case False
    obtain e r1 where e: "read_snapshot_entry r = (e, r1)" by (cases "read_snapshot_entry r")
    show ?thesis
    proof (cases e)
      case (Inl a)
      then show ?thesis using Suc.prems e False by (simp add: pending_ok_def)
    next
      case (Inr a)
      let ?p = "p\<lparr>pd_names := pd_names p @ [e_name a], pd_entries := pd_entries p @ [a\<lparr>e_name := []\<rparr>]\<rparr>"
      have "pending_ok ?p" using Suc.prems False by (simp add: pending_ok_def)
      then show ?thesis using Suc.IH [of ?p r1] e Inr False by simp
    qed
  qed
qed simp

lemma stream_frame_ok: "pending_ok p \<Longrightarrow> pending_ok (stream_frame f p)"
proof -
  assume p: "pending_ok p"
  have "pending_ok (stream_entries k r (p\<lparr>pd_snap_bytes := a, pd_generation := g\<rparr>))" for k r a g
    by (rule stream_entries_ok) (use p in \<open>simp add: pending_ok_def\<close>)
  moreover have "pending_ok (q\<lparr>pd_type := t, pd_done := d\<rparr>) = pending_ok q" "pending_ok (q\<lparr>pd_stream_ok := b\<rparr>) = pending_ok q" for q t d b
    by (simp_all add: pending_ok_def)
  ultimately show ?thesis using p by (auto simp: stream_frame_def Let_def pending_ok_def split: prod.split sum.split)
qed

lemma answer_inv: "client_inv c \<Longrightarrow> pending_ok p \<Longrightarrow> client_inv (answer rid p c)"
  by (simp add: client_inv_def answer_def alist_delete_all alist_update_all)

lemma deliver_inv:
  assumes "client_inv c" and "length (fr_payload f) \<le> unat kMaxPayload"
  shows "client_inv (deliver f c)"
proof (cases "map_of (cl_pending c) (request_id (fr_header f))")
  case None
  then show ?thesis using assms(1) by (simp add: deliver_def)
next
  case (Some p)
  then have p: "pending_ok p" using assms(1) by (auto simp: client_inv_def list_all_iff dest!: map_of_SomeD)
  have q: "pending_ok (p\<lparr>pd_type := t, pd_payload := fr_payload f, pd_done := True\<rparr>)" for t
    using p assms(2) by (simp add: pending_ok_def)
  have "client_inv (c\<lparr>cl_pending := AList.update rid (stream_frame f p) (cl_pending c)\<rparr>)" for rid
    using assms(1) stream_frame_ok [OF p, of f] by (simp add: client_inv_def alist_update_all)
  then show ?thesis using Some answer_inv [OF assms(1)] stream_frame_ok [OF p, of f] q by (simp add: deliver_def Let_def)
qed

lemma fail_all_pending_inv: "client_inv c \<Longrightarrow> client_inv (fail_all_pending c)"
proof -
  assume c: "client_inv c"
  have "client_inv d \<Longrightarrow> list_all (\<lambda>x. pending_ok (snd x)) xs \<Longrightarrow>
      client_inv (fold (\<lambda>(rid, p). answer rid (p\<lparr>pd_type := MsgPing, pd_payload := [], pd_done := True\<rparr>)) xs d)" for xs d
  proof (induction xs arbitrary: d)
    case (Cons x xs)
    obtain rid p where x: "x = (rid, p)" by (cases x)
    have "pending_ok (p\<lparr>pd_type := MsgPing, pd_payload := [], pd_done := True\<rparr>)" using Cons.prems(2) x by (simp add: pending_ok_def)
    then show ?case using Cons answer_inv x by simp
  qed simp
  then show ?thesis using c by (simp add: fail_all_pending_def client_inv_def)
qed

lemma apply_ops_mutations_length: "length (as_mutations (apply_ops m g xs st)) \<le> length (as_mutations st)"
proof (induction xs arbitrary: st)
  case (Cons x xs)
  have "length (as_mutations (apply_op m g x st)) \<le> length (as_mutations st)"
    by (simp add: apply_op_mutations caught_up_def alist_delete_length)
  then show ?case using Cons [of "apply_op m g x st"] by (simp add: apply_ops_def)
qed (simp add: apply_ops_def)

lemma apply_batch_inv: "client_inv c \<Longrightarrow> client_inv (apply_batch b c)"
proof -
  assume c: "client_inv c"
  let ?st = "apply_ops (cl_mode c) (generation b) (ops b)
    \<lparr>as_tree = cl_tree c, as_mutations = cl_mutations c, as_applied = [], as_removed = [], as_rescan = False\<rparr>"
  have "length (cl_mutations (apply_batch b c)) \<le> 65537"
    using apply_ops_mutations_length [of "cl_mode c" "generation b" "ops b"
        "\<lparr>as_tree = cl_tree c, as_mutations = cl_mutations c, as_applied = [], as_removed = [], as_rescan = False\<rparr>"] c
    by (simp add: apply_batch_def Let_def client_inv_def)
  moreover have "length (cl_replay (apply_batch b c)) \<le> kMaxSnapshotReplay"
    using c by (simp add: apply_batch_def Let_def client_inv_def record_replay_def)
  moreover have "cl_pending (apply_batch b c) = cl_pending c" "cl_answered (apply_batch b c) = cl_answered c"
    by (simp_all add: apply_batch_def Let_def)
  ultimately show ?thesis using c batch_cache_inv [of c b] by (simp add: client_inv_def)
qed

lemma client_inv_fields [simp]:
  "client_inv (c\<lparr>cl_chan := ch\<rparr>) = client_inv c" "client_inv (c\<lparr>cl_closed := b\<rparr>) = client_inv c"
  "client_inv (c\<lparr>cl_tree := t\<rparr>) = client_inv c" "client_inv (c\<lparr>cl_stats := s\<rparr>) = client_inv c"
  "client_inv (c\<lparr>cl_next := k\<rparr>) = client_inv c" "client_inv (c\<lparr>cl_in_flight := b\<rparr>) = client_inv c"
  "client_inv (c\<lparr>cl_overflow := b\<rparr>) = client_inv c" "client_inv (c\<lparr>cl_rs_requested := b\<rparr>) = client_inv c"
  "client_inv (c\<lparr>cl_pf_queue := q\<rparr>) = client_inv c" "client_inv (c\<lparr>cl_pf_seen := q\<rparr>) = client_inv c"
  "client_inv (c\<lparr>cl_pf_pending := j\<rparr>) = client_inv c" "client_inv (c\<lparr>cl_reports := r\<rparr>) = client_inv c"
  by (simp_all add: client_inv_def)

lemma reader_turn_inv [client_keeps]:
  assumes "client_inv c"
  shows "client_inv (reader_turn c)"
proof (cases "cl_closed c")
  case False
  obtain r ch where r: "receive (cl_chan c) = (r, ch)" by (cases "receive (cl_chan c)")
  show ?thesis
  proof (cases r)
    case (Inl e)
    then show ?thesis using r False assms fail_all_pending_inv [of "c\<lparr>cl_chan := ch, cl_closed := True\<rparr>"]
      by (simp add: reader_turn_def)
  next
    case (Inr f)
    have "length (fr_payload f) \<le> unat kMaxPayload"
      using received_frame_complete(1,3) [of "cl_chan c" f ch] r Inr by (simp add: word_le_nat_alt)
    then show ?thesis using r Inr False assms deliver_inv [of "c\<lparr>cl_chan := ch\<rparr>" f] apply_batch_inv [of "c\<lparr>cl_chan := ch\<rparr>"]
      by (auto simp: reader_turn_def apply_invalidation_def Let_def split: sum.split)
  qed
qed (use assms fail_all_pending_inv in \<open>simp add: reader_turn_def\<close>)

section \<open>Requests\<close>

lemma finish_request_ok: "finish_request p = ok q \<Longrightarrow> q = p"
  by (auto simp: finish_request_def split: if_splits sum.splits option.splits)

lemma await_inv:
  "client_inv c \<Longrightarrow> await n rid c = (r, c1) \<Longrightarrow> client_inv c1 \<and> (\<forall>p. r = ok p \<longrightarrow> pending_ok p)"
proof (induction n arbitrary: c)
  case 0
  then show ?case
    by (auto simp: client_inv_def alist_delete_all list_all_iff [of _ "cl_answered c"] split: option.splits
        dest!: finish_request_ok map_of_SomeD)
next
  case (Suc n)
  show ?case
  proof (cases "map_of (cl_answered c) rid")
    case None
    then show ?thesis using Suc.IH [OF reader_turn_inv [OF Suc.prems(1)]] Suc.prems(2) by simp
  next
    case (Some p)
    then have "pending_ok p" using Suc.prems(1) by (auto simp: client_inv_def list_all_iff dest!: map_of_SomeD)
    then show ?thesis using Some Suc.prems by (auto simp: client_inv_def alist_delete_all dest!: finish_request_ok)
  qed
qed

lemma ClientPending_init_ok: "pending_ok (ClientPending_init b)"
  by (simp add: pending_ok_def ClientPending_init_def)

lemma request_inv:
  assumes "client_inv c" and "request n t payload streaming c = (r, c1)"
  shows "client_inv c1 \<and> (\<forall>p. r = ok p \<longrightarrow> pending_ok p)"
proof (cases "cl_closed c")
  case False
  let ?c = "c\<lparr>cl_next := cl_next c + 1, cl_pending := AList.update (cl_next c) (ClientPending_init streaming) (cl_pending c)\<rparr>"
  have i: "client_inv ?c" using assms(1) ClientPending_init_ok by (simp add: client_inv_def alist_update_all)
  obtain s ch where s: "send t (cl_next c) payload 0 (cl_chan c) = (s, ch)" by (cases "send t (cl_next c) payload 0 (cl_chan c)")
  show ?thesis
  proof (cases s)
    case (Inl e)
    then show ?thesis using assms False s i by (auto simp: request_def Let_def client_inv_def alist_delete_all)
  next
    case (Inr u)
    have "client_inv (?c\<lparr>cl_chan := ch\<rparr>)" using i by simp
    from await_inv [OF this] show ?thesis using assms(2) False s Inr by (simp add: request_def Let_def)
  qed
qed (use assms in \<open>auto simp: request_def\<close>)

lemma request_keeps [client_keeps]: "client_inv c \<Longrightarrow> client_inv (snd (request n t payload streaming c))"
  using request_inv [of c n t payload streaming] by (cases "request n t payload streaming c") auto

lemma call_keeps [client_keeps]: "client_inv c \<Longrightarrow> client_inv (snd (call n t payload want rd c))"
  using request_keeps [of c n t payload False] by (auto simp: call_def split: prod.split sum.split)

lemma call_payload:
  assumes "client_inv c" and "call n t payload want rd c = (ok v, c1)"
  shows "\<exists>bs. length bs \<le> unat kMaxPayload \<and> fst (rd (Reader_init bs)) = ok v"
proof -
  obtain p c2 where p: "request n t payload False c = (ok p, c2)" "fst (rd (Reader_init (pd_payload p))) = ok v"
    using assms(2) by (auto simp: call_def split: prod.splits sum.splits if_splits)
  then show ?thesis using request_inv [OF assms(1) p(1)] by (auto simp: pending_ok_def)
qed

section \<open>What a reply can carry\<close>

lemma rbind_ok: "fst (rbind m f r) = ok v \<Longrightarrow> \<exists>x r1. m r = (ok x, r1) \<and> fst (f x r1) = ok v"
  by (auto simp: rbind_def split: prod.splits sum.splits)

lemma safe_rin: "safe m \<Longrightarrow> reader_ok r \<Longrightarrow> m r = (x, r1) \<Longrightarrow> rin r1 = rin r \<and> reader_ok r1"
  unfolding safe_def reader_ok_def by (metis snd_conv)

lemma blob_length:
  assumes "reader_ok r" and "fst (Reader_blob r) = ok bs"
  shows "length bs \<le> length (rin r)"
proof -
  obtain n r1 where n: "Reader_varint r = (ok n, r1)" "fst (rcheck (unat n) Truncated (Reader_raw (unat n)) r1) = ok bs"
    using rbind_ok [OF assms(2) [unfolded Reader_blob_def]] by blast
  have "safe Reader_varint" by (intro safe_intros)
  then have "rin r1 = rin r" using safe_rin assms(1) n(1) by blast
  then show ?thesis using n(2) by (auto simp: rcheck_def Reader_raw_def split: if_splits)
qed

lemma read_response_length:
  assumes "fst (read_read_response (Reader_init bs)) = ok v"
  shows "length (rs_data v) \<le> length bs"
proof -
  obtain x r1 where x: "Reader_u64 (Reader_init bs) = (ok x, r1)"
    "fst (rbind Reader_blob (\<lambda>d. rret \<lparr>file_size = x, rs_data = d\<rparr>) r1) = ok v"
    using rbind_ok [OF assms [unfolded read_read_response_def]] by blast
  obtain d r2 where d: "Reader_blob r1 = (ok d, r2)" "v = \<lparr>file_size = x, rs_data = d\<rparr>"
    using rbind_ok [OF x(2)] by (auto simp: rret_def)
  have "safe Reader_u64" unfolding Reader_u64_def by (intro safe_intros)
  moreover have "reader_ok (Reader_init bs)" by (simp add: reader_ok_def Reader_init_def)
  ultimately have "rin r1 = bs \<and> reader_ok r1" using safe_rin [of Reader_u64 "Reader_init bs" "ok x" r1] x(1) by (simp add: Reader_init_def)
  then show ?thesis using blob_length [of r1 d] d by simp
qed

lemma item_length:
  assumes "reader_ok r" and "read_read_many_item r = (ok it, r1)"
  shows "length (item_data it) \<le> length (rin r)"
proof -
  have f: "fst (read_read_many_item r) = ok it" using assms(2) by simp
  obtain b r2 where b: "Reader_u8 r = (ok b, r2)"
    "fst (rbind (if b \<noteq> 0 then Reader_blob else rret []) (\<lambda>d. rret \<lparr>item_ok = (b \<noteq> 0), item_data = d\<rparr>) r2) = ok it"
    using rbind_ok [OF f [unfolded read_read_many_item_def]] by blast
  obtain d r3 where d: "(if b \<noteq> 0 then Reader_blob else rret []) r2 = (ok d, r3)" "it = \<lparr>item_ok = (b \<noteq> 0), item_data = d\<rparr>"
    using rbind_ok [OF b(2)] by (auto simp: rret_def)
  have "safe Reader_u8" by (intro safe_intros)
  then have "rin r2 = rin r \<and> reader_ok r2" using safe_rin assms(1) b(1) by blast
  then show ?thesis using blob_length [of r2 d] d by (auto simp: rret_def split: if_splits)
qed

lemma safe_item: "safe read_read_many_item"
  unfolding read_read_many_item_def by (intro safe_intros)

lemma items_length:
  "reader_ok r \<Longrightarrow> read_n read_read_many_item n r = (ok its, r1) \<Longrightarrow> list_all (\<lambda>it. length (item_data it) \<le> length (rin r)) its"
proof (induction n arbitrary: r its r1)
  case (Suc n)
  have f: "fst (rbind read_read_many_item (\<lambda>x. rbind (read_n read_read_many_item n) (\<lambda>xs. rret (x # xs))) r) = ok its"
    using Suc.prems(2) by simp
  obtain x r2 where x: "read_read_many_item r = (ok x, r2)" "fst (rbind (read_n read_read_many_item n) (\<lambda>xs. rret (x # xs)) r2) = ok its"
    using rbind_ok [OF f] by blast
  obtain xs r3 where xs: "read_n read_read_many_item n r2 = (ok xs, r3)" "its = x # xs"
    using rbind_ok [OF x(2)] by (auto simp: rret_def)
  have r2: "rin r2 = rin r" "reader_ok r2" using safe_rin [OF safe_item Suc.prems(1) x(1)] by auto
  show ?case using item_length [OF Suc.prems(1) x(1)] Suc.IH [OF r2(2) xs(1)] r2(1) xs(2) by simp
qed (simp add: rret_def)

lemma many_response_length:
  assumes "fst (read_read_many_response (Reader_init bs)) = ok v"
  shows "list_all (\<lambda>it. length (item_data it) \<le> length bs) (items v)"
proof -
  have r0: "reader_ok (Reader_init bs)" "rin (Reader_init bs) = bs" by (simp_all add: reader_ok_def Reader_init_def)
  obtain n r1 where n: "Reader_varint (Reader_init bs) = (ok n, r1)"
    "fst (rcheck (unat n) Corrupt (rbind (read_n read_read_many_item (unat n)) (\<lambda>its. rret \<lparr>items = its\<rparr>)) r1) = ok v"
    using rbind_ok [OF assms [unfolded read_read_many_response_def]] by blast
  have "safe Reader_varint" by (intro safe_intros)
  then have r1: "rin r1 = bs" "reader_ok r1" using safe_rin [of Reader_varint "Reader_init bs"] r0 n(1) by auto
  have "fst (rbind (read_n read_read_many_item (unat n)) (\<lambda>its. rret \<lparr>items = its\<rparr>) r1) = ok v"
    using n(2) by (auto simp: rcheck_def split: if_splits)
  then obtain its r2 where "read_n read_read_many_item (unat n) r1 = (ok its, r2)" "v = \<lparr>items = its\<rparr>"
    by (auto dest!: rbind_ok simp: rret_def)
  then show ?thesis using items_length [OF r1(2)] r1(1) by auto
qed

section \<open>Reads\<close>

lemma payload_small: "n \<le> unat kMaxPayload \<Longrightarrow> n < 2 ^ 62"
  by (simp add: kMaxPayload_def)

lemma read_remote_inv:
  assumes "client_inv c" and "read_remote n path off cnt c = (r, c1)"
  shows "client_inv c1 \<and> (\<forall>bs. r = ok bs \<longrightarrow> length bs < 2 ^ 62)"
proof -
  let ?call = "call n MsgReadRequest (write_read_request \<lparr>rr_path = path, rr_offset = off, rr_length = cnt\<rparr> []) MsgReadResponse read_read_response c"
  have "length (rs_data v) < 2 ^ 62" if "?call = (ok v, c2)" for v c2
    using call_payload [OF assms(1) that] read_response_length payload_small by (metis le_trans)
  then show ?thesis using call_keeps [OF assms(1), of n MsgReadRequest _ MsgReadResponse read_read_response] assms(2)
    by (auto simp: read_remote_def split: prod.splits sum.splits) (metis snd_conv)+
qed

lemma read_many_inv:
  assumes "client_inv c" and "read_many n ps c = (r, c1)"
  shows "client_inv c1 \<and> (\<forall>rs. r = ok rs \<longrightarrow> list_all (\<lambda>x. \<forall>bs. x = Some bs \<longrightarrow> length bs < 2 ^ 62) rs)"
proof -
  let ?call = "call n MsgReadManyRequest (write_read_many_request \<lparr>paths = ps\<rparr> []) MsgReadManyResponse read_read_many_response c"
  obtain v c2 where v: "?call = (v, c2)" by (cases ?call)
  have c2: "client_inv c2" using call_keeps [OF assms(1), of n MsgReadManyRequest "write_read_many_request \<lparr>paths = ps\<rparr> []"
      MsgReadManyResponse read_read_many_response] v by simp
  show ?thesis
  proof (cases v)
    case (Inl e)
    then show ?thesis using v c2 assms(2) by (auto simp: read_many_def)
  next
    case (Inr resp)
    obtain bs where bs: "length bs \<le> unat kMaxPayload" "fst (read_read_many_response (Reader_init bs)) = ok resp"
      using call_payload [OF assms(1) v [unfolded Inr]] by blast
    have "list_all (\<lambda>it. length (item_data it) \<le> length bs) (items resp)" by (rule many_response_length [OF bs(2)])
    with bs(1) have "list_all (\<lambda>x. \<forall>bs. x = Some bs \<longrightarrow> length bs < 2 ^ 62) (map item_option (items resp))"
      using payload_small by (fastforce simp: list_all_iff item_option_def)
    then have "list_all (\<lambda>x. \<forall>bs. x = Some bs \<longrightarrow> length bs < 2 ^ 62) (take k (map item_option (items resp)) @ replicate j None)" for k j
      by (force simp: list_all_iff dest: in_set_takeD)
    then show ?thesis using v c2 Inr assms(2) by (auto simp: read_many_def Let_def)
  qed
qed

lemma cache_field_inv: "client_inv c \<Longrightarrow> cache_inv k \<Longrightarrow> client_inv (c\<lparr>cl_cache := k\<rparr>)"
  by (simp add: client_inv_def)

lemma client_cache: "client_inv c \<Longrightarrow> cache_inv (cl_cache c)"
  by (simp add: client_inv_def)

lemma put_fetched_inv:
  assumes "client_inv c" and "\<forall>bs. snd x = Some bs \<longrightarrow> length bs < 2 ^ 62"
  shows "client_inv (put_fetched x c)"
  using assms put_ok [OF client_cache [OF assms(1)]] by (auto simp: put_fetched_def cache_field_inv split: option.split)

lemma put_all_inv:
  "client_inv c \<Longrightarrow> list_all (\<lambda>x. \<forall>bs. x = Some bs \<longrightarrow> length bs < 2 ^ 62) rs \<Longrightarrow> client_inv (fold put_fetched (zip fms rs) c)"
proof (induction fms rs arbitrary: c rule: list_induct2')
  case (4 fm fms r rs)
  then show ?case using put_fetched_inv [of c "(fm, r)"] by simp
qed simp_all

lemma fetch_target_inv:
  assumes "client_inv c" and "fetch_target n k t batch c = (r, c1)"
  shows "client_inv c1"
proof -
  obtain res c2 where m: "read_many n (map fm_path batch) c = (res, c2)" by (cases "read_many n (map fm_path batch) c")
  note i2 = read_many_inv [OF assms(1) m]
  obtain w c3 where w: "read_remote n k 0 (ucast (rt_size t)) c2 = (w, c3)" by (cases "read_remote n k 0 (ucast (rt_size t)) c2")
  have i3: "client_inv c3" "\<forall>bs. w = ok bs \<longrightarrow> length bs < 2 ^ 62" using read_remote_inv [OF conjunct1 [OF i2] w] by auto
  have "client_inv (c3\<lparr>cl_cache := cache_put k (rt_mtime t) (rt_size t) bs (cl_cache c3)\<rparr>)" if "w = ok bs" for bs
    using put_ok [OF client_cache [OF i3(1)]] i3 that by (simp add: cache_field_inv)
  moreover have "client_inv (fold put_fetched (zip batch rs) c2)" if "res = ok rs" for rs
    using put_all_inv [OF conjunct1 [OF i2]] i2 that by blast
  ultimately show ?thesis using assms(2) m w i3(1)
    by (auto simp: fetch_target_def Let_def split: sum.splits list.splits option.splits)
qed

lemma enqueue_prefetch_inv: "client_inv c \<Longrightarrow> client_inv (enqueue_prefetch d c)"
  by (simp add: enqueue_prefetch_def)

lemma read_keeps [client_keeps]: "client_inv c \<Longrightarrow> client_inv (snd (RemoteRoot_read n path off cnt c))"
proof -
  assume c: "client_inv c"
  let ?t = "resolve_for_read path c" let ?k = "read_key path ?t"
  obtain h k1 where h: "cache_hit ?k (rt_mtime ?t) (rt_size ?t) (cl_cache c) = (h, k1)"
    by (cases "cache_hit ?k (rt_mtime ?t) (rt_size ?t) (cl_cache c)")
  have k1: "cache_inv k1" using hit_ok [OF client_cache [OF c], of ?k "rt_mtime ?t" "rt_size ?t"] h by simp
  obtain r c1 where f: "fetch_target n ?k ?t (read_ahead ?k ?t c) c = (r, c1)" by (cases "fetch_target n ?k ?t (read_ahead ?k ?t c) c")
  have c1: "client_inv c1" using fetch_target_inv [OF c f] .
  obtain w c2 where w: "read_remote n ?k off cnt c = (w, c2)" by (cases "read_remote n ?k off cnt c")
  have c2: "client_inv c2" using read_remote_inv [OF c w] by simp
  show ?thesis using h f w c1 c2 k1 c
    by (auto simp: RemoteRoot_read_def Let_def count_hit_def count_miss_def enqueue_prefetch_inv cache_field_inv
        split: option.split sum.split)
qed

lemma read_into_keeps [client_keeps]: "client_inv c \<Longrightarrow> client_inv (snd (read_into n path off space c))"
proof -
  assume c: "client_inv c"
  let ?t = "resolve_for_read path c" let ?k = "read_key path ?t"
  obtain h k1 where h: "cache_hit ?k (rt_mtime ?t) (rt_size ?t) (cl_cache c) = (h, k1)"
    by (cases "cache_hit ?k (rt_mtime ?t) (rt_size ?t) (cl_cache c)")
  have k1: "cache_inv k1" using hit_ok [OF client_cache [OF c], of ?k "rt_mtime ?t" "rt_size ?t"] h by simp
  obtain r c1 where r: "RemoteRoot_read n ?k off (of_nat (min space 0xFFFFFFFF)) c = (r, c1)"
    by (cases "RemoteRoot_read n ?k off (of_nat (min space 0xFFFFFFFF)) c")
  have c1: "client_inv c1" using read_keeps [OF c, of n ?k off "of_nat (min space 0xFFFFFFFF)"] r by simp
  show ?thesis using h r c1 k1 c
    by (auto simp: read_into_def Let_def count_hit_def cache_field_inv split: option.split sum.split)
qed

lemma readlink_keeps [client_keeps]: "client_inv c \<Longrightarrow> client_inv (snd (readlink n path c))"
proof -
  assume c: "client_inv c"
  obtain v c1 where v: "call n MsgReadlinkRequest (write_path_request \<lparr>pr_path = path\<rparr> []) MsgReadlinkResponse read_readlink_response c = (v, c1)"
    by (cases "call n MsgReadlinkRequest (write_path_request \<lparr>pr_path = path\<rparr> []) MsgReadlinkResponse read_readlink_response c")
  have c1: "client_inv c1" using call_keeps [OF c, of n MsgReadlinkRequest _ MsgReadlinkResponse read_readlink_response] v by (metis snd_conv)
  show ?thesis using c c1 v client_cache [OF c1]
    by (auto simp: readlink_def cache_field_inv links_cleared_inv split: option.split sum.split)
qed

lemma ping_keeps [client_keeps]: "client_inv c \<Longrightarrow> client_inv (snd (ping n c))"
  using request_keeps [of c n MsgPing "[]" False] by (auto simp: ping_def split: prod.split sum.split)

section \<open>Handshake, snapshot, mutations\<close>

lemma connect_keeps [client_keeps]: "client_inv c \<Longrightarrow> client_inv (snd (connect api ag rnd n c))"
proof -
  assume c: "client_inv c"
  let ?p = "\<lambda>cn. write_hello (client_hello ag cn) []"
  have "client_inv (snd (connect_auth api n cn ack d))" if "client_inv d" for cn ack d
    using request_keeps [OF that, of n MsgAuth "write_hello (client_auth api (cl_token d) cn ack) []" False] that
    by (auto simp: connect_auth_def split: prod.split sum.split)
  then show ?thesis using c call_keeps [OF c, of n MsgHello "?p (generate_auth_nonce rnd)" MsgHelloAck read_hello]
      call_keeps [OF c, of n MsgHello "?p []" MsgHelloAck read_hello]
    by (auto simp: connect_def Let_def split: prod.split sum.split)
qed

lemma end_recording_inv: "client_inv c \<Longrightarrow> client_inv (end_recording c)"
  by (simp add: end_recording_def client_inv_def)

lemma fetch_snapshot_keeps [client_keeps]: "client_inv c \<Longrightarrow> client_inv (snd (fetch_snapshot n c))"
proof -
  assume "client_inv c"
  then have "client_inv (c\<lparr>cl_in_flight := True, cl_replay := []\<rparr>)" by (simp add: client_inv_def)
  then have "client_inv (snd (request n MsgSnapshotRequest [] True (c\<lparr>cl_in_flight := True, cl_replay := []\<rparr>)))"
    by (rule request_keeps)
  then show ?thesis by (auto simp: fetch_snapshot_def Let_def end_recording_inv split: prod.split sum.split)
qed

lemma note_mutation_inv [simp]: "client_inv c \<Longrightarrow> client_inv (note_mutation p g c)"
  using alist_update_length [of "normalize_path p" g "cl_mutations c"]
  by (auto simp: note_mutation_def Let_def client_inv_def)

lemma on_tree_inv [simp]: "client_inv (on_tree f c) = client_inv c"
  by (simp add: on_tree_def)

lemma on_cache_inv: "client_inv c \<Longrightarrow> (\<And>k. cache_inv k \<Longrightarrow> cache_inv (f k)) \<Longrightarrow> client_inv (on_cache f c)"
  by (simp add: on_cache_def cache_field_inv client_cache)

lemma drops_inv:
  "client_inv c \<Longrightarrow> client_inv (on_cache (drop_cached p) c)" "client_inv c \<Longrightarrow> client_inv (on_cache (drop_cached_prefix p) c)"
  "client_inv c \<Longrightarrow> client_inv (on_cache (drop_cached p \<circ> drop_cached q) c)"
  "client_inv c \<Longrightarrow> client_inv (on_cache (drop_cached_prefix p \<circ> drop_cached_prefix q) c)"
  using drop_ok drop_prefix_ok by (auto intro!: on_cache_inv)

lemma mutation_keeps [client_keeps]:
  assumes "client_inv c"
  shows "client_inv (snd (create_file n path md c))" and "client_inv (snd (RemoteRoot_write n now path off bs c))"
    and "client_inv (snd (RemoteRoot_truncate n now path sz c))" and "client_inv (snd (mkdir n path md c))"
    and "client_inv (snd (unlink n path c))" and "client_inv (snd (rmdir n path c))"
    and "client_inv (snd (RemoteRoot_rename n path to c))"
proof -
  note k = call_keeps [OF assms, of n]
  show "client_inv (snd (create_file n path md c))"
  proof -
    let ?call = "call n MsgCreateRequest (write_create_request \<lparr>cr_path = path, cr_mode = md\<rparr> []) MsgCreateResponse (rbind read_attributes (\<lambda>a. rbind take_ack (\<lambda>g. rret (a, g)))) c"
    have "client_inv (snd ?call)" by (rule k)
    then show ?thesis by (cases ?call) (auto simp: create_file_def split: sum.split)
  qed
  show "client_inv (snd (mkdir n path md c))"
  proof -
    let ?call = "call n MsgMkdirRequest (write_mkdir_request \<lparr>mk_path = path, mk_mode = md\<rparr> []) MsgOk take_ack c"
    have "client_inv (snd ?call)" by (rule k)
    then show ?thesis by (cases ?call) (auto simp: mkdir_def split: sum.split)
  qed
  show "client_inv (snd (unlink n path c))"
  proof -
    let ?call = "call n MsgUnlinkRequest (write_path_request \<lparr>pr_path = path\<rparr> []) MsgOk take_ack c"
    have "client_inv (snd ?call)" by (rule k)
    then show ?thesis by (cases ?call) (auto simp: unlink_def drops_inv split: sum.split)
  qed
  show "client_inv (snd (rmdir n path c))"
  proof -
    let ?call = "call n MsgRmdirRequest (write_path_request \<lparr>pr_path = path\<rparr> []) MsgOk take_ack c"
    have "client_inv (snd ?call)" by (rule k)
    then show ?thesis by (cases ?call) (auto simp: rmdir_def drops_inv split: sum.split)
  qed
  show "client_inv (snd (RemoteRoot_write n now path off bs c))"
  proof -
    let ?call = "call n MsgWriteRequest (write_write_request \<lparr>wr_path = path, wr_offset = off, wr_data = bs\<rparr> []) MsgWriteResponse read_write_response c"
    have "client_inv (snd ?call)" by (rule k)
    then show ?thesis by (cases ?call) (auto simp: RemoteRoot_write_def Let_def drops_inv split: sum.split)
  qed
  show "client_inv (snd (RemoteRoot_truncate n now path sz c))"
  proof -
    let ?call = "call n MsgTruncateRequest (write_truncate_request \<lparr>tr_path = path, tr_size = sz\<rparr> []) MsgOk take_ack c"
    have "client_inv (snd ?call)" by (rule k)
    then show ?thesis by (cases ?call) (auto simp: RemoteRoot_truncate_def Let_def drops_inv split: sum.split)
  qed
  show "client_inv (snd (RemoteRoot_rename n path to c))"
  proof -
    let ?call = "call n MsgRenameRequest (write_rename_request \<lparr>from_path = path, to_path = to\<rparr> []) MsgOk take_ack c"
    have "client_inv (snd ?call)" by (rule k)
    then show ?thesis by (cases ?call) (auto simp: RemoteRoot_rename_def Let_def drops_inv split: sum.split)
  qed
qed

section \<open>Background work\<close>

lemma prefetch_flush_inv: "client_inv (snd st) \<Longrightarrow> client_inv (snd (prefetch_flush n st))"
proof -
  assume c: "client_inv (snd st)"
  obtain p c0 where st: "st = (p, c0)" by (cases st)
  obtain res c1 where m: "read_many n (map fm_path (pr_batch p)) c0 = (res, c1)" by (cases "read_many n (map fm_path (pr_batch p)) c0")
  have i: "client_inv c0" using c st by simp
  note r = read_many_inv [OF i m]
  have "client_inv (fold put_fetched (zip (pr_batch p) rs) c1)" if "res = ok rs" for rs
    using put_all_inv [OF conjunct1 [OF r]] r that by blast
  then show ?thesis using st m r i by (auto simp: prefetch_flush_def Let_def split: sum.split)
qed

lemma prefetch_files_inv: "client_inv (snd st) \<Longrightarrow> client_inv (snd (prefetch_files n fms st))"
proof (induction fms arbitrary: st)
  case (Cons fm fms)
  obtain p c where st: "st = (p, c)" by (cases st)
  let ?p = "p\<lparr>pr_batch := pr_batch p @ [fm], pr_bytes := pr_bytes p + fm_size fm\<rparr>"
  have "client_inv (snd (prefetch_flush n (?p, c)))" using prefetch_flush_inv [of "(?p, c)" n] Cons.prems st by simp
  then show ?case using Cons st by (simp add: Let_def)
qed simp

lemma prefetch_turn_keeps: "client_inv c \<Longrightarrow> prefetch_turn n c = Some (p, c1) \<Longrightarrow> client_inv c1"
proof -
  assume c: "client_inv c" and t: "prefetch_turn n c = Some (p, c1)"
  then obtain dir q where q: "cl_pf_queue c = dir # q" "\<not> cl_pf_stop c"
    by (auto simp: prefetch_turn_def split: if_splits list.splits)
  let ?st = "prefetch_flush n (prefetch_files n (small_files dir (cl_tree c)) (Prefetch_init, c\<lparr>cl_pf_queue := q\<rparr>))"
  have "client_inv (snd ?st)" using c prefetch_flush_inv prefetch_files_inv by simp
  then show ?thesis using t q by (cases ?st) (auto simp: prefetch_turn_def Let_def)
qed

lemma rescan_turn_keeps [client_keeps]: "client_inv c \<Longrightarrow> client_inv (rescan_turn n c)"
proof -
  assume "client_inv c"
  then have i: "client_inv (c\<lparr>cl_rs_requested := False\<rparr>)" by simp
  from fetch_snapshot_keeps [OF i, of n] i show ?thesis
    by (cases "fetch_snapshot n (c\<lparr>cl_rs_requested := False\<rparr>)") (auto simp: rescan_turn_def Let_def split: sum.split)
qed

lemma limit_keeps [client_keeps]: "client_inv c \<Longrightarrow> unat k \<le> 2 ^ 63 \<Longrightarrow> client_inv (on_cache (set_read_cache_limit k) c)"
  using limit_ok by (intro on_cache_inv) auto

section \<open>Every reachable state\<close>

text \<open>The calls and the turns of the background threads, in any order.\<close>

inductive client_reach :: "'h blake3_api \<Rightarrow> RemoteRoot \<Rightarrow> bool" for api :: "'h blake3_api" where
  start: "client_reach api (RemoteRoot_init token m ch)"
| turn: "client_reach api c \<Longrightarrow> client_reach api (reader_turn c)"
| connected: "client_reach api c \<Longrightarrow> client_reach api (snd (connect api ag rnd n c))"
| snapshot: "client_reach api c \<Longrightarrow> client_reach api (snd (fetch_snapshot n c))"
| rescanned: "client_reach api c \<Longrightarrow> client_reach api (rescan_turn n c)"
| read: "client_reach api c \<Longrightarrow> client_reach api (snd (RemoteRoot_read n path off cnt c))"
| read_to: "client_reach api c \<Longrightarrow> client_reach api (snd (read_into n path off space c))"
| link: "client_reach api c \<Longrightarrow> client_reach api (snd (readlink n path c))"
| pinged: "client_reach api c \<Longrightarrow> client_reach api (snd (ping n c))"
| prefetched: "client_reach api c \<Longrightarrow> prefetch_turn n c = Some (p, c1) \<Longrightarrow> client_reach api c1"
| queued: "client_reach api c \<Longrightarrow> client_reach api (enqueue_prefetch path c)"
| limited: "client_reach api c \<Longrightarrow> unat k \<le> 2 ^ 63 \<Longrightarrow> client_reach api (on_cache (set_read_cache_limit k) c)"
| created: "client_reach api c \<Longrightarrow> client_reach api (snd (create_file n path md c))"
| wrote: "client_reach api c \<Longrightarrow> client_reach api (snd (RemoteRoot_write n now path off bs c))"
| truncated: "client_reach api c \<Longrightarrow> client_reach api (snd (RemoteRoot_truncate n now path sz c))"
| made_dir: "client_reach api c \<Longrightarrow> client_reach api (snd (mkdir n path md c))"
| unlinked: "client_reach api c \<Longrightarrow> client_reach api (snd (unlink n path c))"
| removed_dir: "client_reach api c \<Longrightarrow> client_reach api (snd (rmdir n path c))"
| renamed: "client_reach api c \<Longrightarrow> client_reach api (snd (RemoteRoot_rename n path to c))"

lemma RemoteRoot_init_inv: "client_inv (RemoteRoot_init token m ch)"
  using ReadCache_init_inv by (simp add: client_inv_def RemoteRoot_init_def)


definition demo_api :: "unit blake3_api" where
  "demo_api = \<lparr>hasher_init = (), hasher_update = (\<lambda>h b. h), hasher_finalize = (\<lambda>h. replicate 32 0)\<rparr>"


end
