(* ===== verification/ClientSession.thy ===== *)
theory ClientSession
  imports ClientInv
begin

text \<open>
  Sessions of the client: what its calls put on the connection, where an answer comes from, what a broken
  connection does to the callers that wait, and the pace of reads, prefetches and rescans.
\<close>

section \<open>The reader leaves the outgoing side alone\<close>

text \<open>The parts of the client that handling a frame does not touch.\<close>

definition same_side :: "RemoteRoot \<Rightarrow> RemoteRoot \<Rightarrow> bool" where
  "same_side c d \<longleftrightarrow> outbox (sock (cl_chan d)) = outbox (sock (cl_chan c)) \<and>
     sends (sock (cl_chan d)) = sends (sock (cl_chan c)) \<and> cl_next d = cl_next c \<and> cl_token d = cl_token c"

lemma same_side_refl [simp]: "same_side c c"
  by (simp add: same_side_def)

lemma same_side_trans: "same_side c d \<Longrightarrow> same_side d e \<Longrightarrow> same_side c e"
  by (simp add: same_side_def)

lemma answer_fields [simp]:
  "cl_chan (answer rid p c) = cl_chan c" "cl_next (answer rid p c) = cl_next c" "cl_token (answer rid p c) = cl_token c"
  "cl_closed (answer rid p c) = cl_closed c"
  "cl_pending (answer rid p c) = AList.delete rid (cl_pending c)" "cl_answered (answer rid p c) = AList.update rid p (cl_answered c)"
  by (simp_all add: answer_def)

lemma deliver_fields [simp]:
  "cl_chan (deliver f c) = cl_chan c" "cl_next (deliver f c) = cl_next c" "cl_token (deliver f c) = cl_token c"
  "cl_closed (deliver f c) = cl_closed c"
  by (simp_all add: deliver_def Let_def split: option.split)

lemma record_replay_next [simp]: "cl_next (record_replay b c) = cl_next c"
  by (simp add: record_replay_def)

lemma apply_invalidation_fields [simp]:
  "cl_chan (apply_invalidation p c) = cl_chan c" "cl_next (apply_invalidation p c) = cl_next c"
  "cl_token (apply_invalidation p c) = cl_token c" "cl_closed (apply_invalidation p c) = cl_closed c"
  "cl_pending (apply_invalidation p c) = cl_pending c" "cl_answered (apply_invalidation p c) = cl_answered c"
  by (simp_all add: apply_invalidation_def apply_batch_def Let_def split: sum.split)

text \<open>The answer that a broken connection gives to every waiting caller.\<close>

definition released :: "ClientPending \<Rightarrow> ClientPending" where
  "released p = p\<lparr>pd_type := MsgPing, pd_payload := [], pd_done := True\<rparr>"

lemma finish_released [simp]: "finish_request (released p) = fail ConnectionClosed"
  by (simp add: finish_request_def released_def)

lemma release_fold:
  assumes "d = fold (\<lambda>(rid, p). answer rid (released p)) xs c"
  shows "cl_chan d = cl_chan c \<and> cl_next d = cl_next c \<and> cl_token d = cl_token c \<and> cl_closed d = cl_closed c \<and>
    cl_pending d = filter (\<lambda>x. fst x \<notin> fst ` set xs) (cl_pending c) \<and>
    (\<forall>rid. if rid \<in> fst ` set xs then \<exists>p. map_of (cl_answered d) rid = Some (released p)
           else map_of (cl_answered d) rid = map_of (cl_answered c) rid)"
  using assms
proof (induction xs arbitrary: c d)
  case Nil
  then show ?case by simp
next
  case (Cons x xs)
  obtain rid p where x: "x = (rid, p)" by (cases x)
  have d: "d = fold (\<lambda>(rid, p). answer rid (released p)) xs (answer rid (released p) c)" using Cons.prems x by simp
  have f: "filter (\<lambda>y. fst y \<notin> fst ` set xs) (AList.delete rid (cl_pending c)) =
      filter (\<lambda>y. fst y \<notin> fst ` set (x # xs)) (cl_pending c)"
    by (auto simp: AList.delete_eq x intro: filter_cong)
  show ?case using Cons.IH [OF d] f by (auto simp: x AList.update_conv' split: if_splits)
qed

lemma fail_all_pending_fields:
  "cl_chan (fail_all_pending c) = cl_chan c" "cl_next (fail_all_pending c) = cl_next c" "cl_token (fail_all_pending c) = cl_token c"
  "cl_closed (fail_all_pending c) = cl_closed c" "cl_pending (fail_all_pending c) = []"
  "rid \<in> fst ` set (cl_pending c) \<Longrightarrow> \<exists>p. map_of (cl_answered (fail_all_pending c)) rid = Some (released p)"
  "rid \<notin> fst ` set (cl_pending c) \<Longrightarrow> map_of (cl_answered (fail_all_pending c)) rid = map_of (cl_answered c) rid"
proof -
  have e: "fail_all_pending c = fold (\<lambda>(rid, p). answer rid (released p)) (cl_pending c) c"
    by (simp add: fail_all_pending_def released_def)
  note r = release_fold [OF e]
  show "cl_chan (fail_all_pending c) = cl_chan c" "cl_next (fail_all_pending c) = cl_next c" "cl_token (fail_all_pending c) = cl_token c"
    "cl_closed (fail_all_pending c) = cl_closed c"
    using r by simp_all
  show "cl_pending (fail_all_pending c) = []" using r by (auto simp: filter_empty_conv)
  show "\<exists>p. map_of (cl_answered (fail_all_pending c)) rid = Some (released p)" if "rid \<in> fst ` set (cl_pending c)"
    using r that by metis
  show "map_of (cl_answered (fail_all_pending c)) rid = map_of (cl_answered c) rid" if "rid \<notin> fst ` set (cl_pending c)"
    using r that by metis
qed

lemma reader_turn_side: "same_side c (reader_turn c)"
proof (cases "cl_closed c")
  case False
  obtain r ch where r: "receive (cl_chan c) = (r, ch)" by (cases "receive (cl_chan c)")
  then have "outbox (sock ch) = outbox (sock (cl_chan c))" "sends (sock ch) = sends (sock (cl_chan c))"
    using receive_outbox [of "cl_chan c"] by simp_all
  then show ?thesis using r False
    by (cases r) (auto simp: reader_turn_def same_side_def fail_all_pending_fields Let_def)
qed (simp add: reader_turn_def same_side_def fail_all_pending_fields)

lemma await_side: "same_side c (snd (await n rid c))"
proof (induction n arbitrary: c)
  case 0
  then show ?case by (simp add: same_side_def split: option.split)
next
  case (Suc n)
  show ?case
  proof (cases "map_of (cl_answered c) rid")
    case None
    then show ?thesis using same_side_trans [OF reader_turn_side Suc] by simp
  qed (simp add: same_side_def)
qed

section \<open>What a request sends\<close>

definition request_frame :: "MsgType \<Rightarrow> bytes \<Rightarrow> RemoteRoot \<Rightarrow> OutFrame" where
  "request_frame t payload c = \<lparr>of_type = t, of_id = cl_next c, of_flags = 0, of_payload = payload\<rparr>"

lemma send_prefix:
  "\<exists>k. outbox (sock (snd (send t rid p fl ch))) = outbox (sock ch) @
     take k (of_bytes \<lparr>of_type = t, of_id = rid, of_flags = fl, of_payload = p\<rparr>)"
proof (cases "length p > unat kMaxPayload")
  case True
  then show ?thesis by (auto simp: send_def intro: exI [of _ 0])
next
  case False
  let ?b = "of_bytes \<lparr>of_type = t, of_id = rid, of_flags = fl, of_payload = p\<rparr>"
  obtain k where k: "outbox (snd (send_all ?b (sock ch))) = outbox (sock ch) @ take k ?b"
    using send_all_prefix [of ?b "sock ch"] by blast
  have "send t rid p fl ch = count_sent ?b ch"
    using False by (simp add: send_def of_bytes_def of_header_def encode_header_bytes Let_def)
  then show ?thesis using k by (auto simp: count_sent_def split: prod.split sum.split)
qed

lemma send_inbox: "inbox (sock (snd (send t rid p fl ch))) = inbox (sock ch)"
proof -
  have i: "inbox (snd (send_all bs s)) = inbox s" for bs s
    by (subst send_all_frame) simp
  have "inbox (sock (snd (count_sent bs ch))) = inbox (sock ch)" for bs
    using i [of bs "sock ch"] by (auto simp: count_sent_def split: prod.split sum.split)
  then show ?thesis by (simp add: send_def Let_def)
qed

text \<open>A request puts its frame on the connection, or as much of it as could be sent, and nothing else.\<close>

lemma request_sends:
  "\<exists>k. outbox (sock (cl_chan (snd (request n t payload s c)))) = outbox (sock (cl_chan c)) @
     take k (of_bytes (request_frame t payload c))"
  "cl_token (snd (request n t payload s c)) = cl_token c"
proof -
  obtain r ch where r: "send t (cl_next c) payload 0 (cl_chan c) = (r, ch)" by (cases "send t (cl_next c) payload 0 (cl_chan c)")
  obtain k where k: "outbox (sock ch) = outbox (sock (cl_chan c)) @ take k (of_bytes (request_frame t payload c))"
    using send_prefix [of t "cl_next c" payload 0 "cl_chan c"] r by (auto simp: request_frame_def)
  let ?c = "c\<lparr>cl_next := cl_next c + 1, cl_pending := AList.update (cl_next c) (ClientPending_init s) (cl_pending c), cl_chan := ch\<rparr>"
  have a: "same_side ?c (snd (await n (cl_next c) ?c))" by (rule await_side)
  then show "\<exists>k. outbox (sock (cl_chan (snd (request n t payload s c)))) = outbox (sock (cl_chan c)) @ take k (of_bytes (request_frame t payload c))"
    "cl_token (snd (request n t payload s c)) = cl_token c"
    using r k by (cases "cl_closed c"; cases r; auto simp: request_def same_side_def Let_def intro: exI [of _ 0])+
qed

lemma call_sends:
  "\<exists>k. outbox (sock (cl_chan (snd (call n t payload want rd c)))) = outbox (sock (cl_chan c)) @
     take k (of_bytes (request_frame t payload c))"
  "cl_token (snd (call n t payload want rd c)) = cl_token c"
  using request_sends [of n t payload False c] by (auto simp: call_def split: prod.split sum.split)

section \<open>Where an answer comes from\<close>

text \<open>A frame with this id, type and payload is in what the peer has sent.\<close>

definition arrived :: "RemoteRoot \<Rightarrow> u64 \<Rightarrow> MsgType \<Rightarrow> bytes \<Rightarrow> bool" where
  "arrived c rid t p \<longleftrightarrow> (\<exists>pre h post. inbox (sock (cl_chan c)) = pre @ header_bytes h @ p @ post \<and>
     request_id h = rid \<and> ftype h = t \<and> unat (payload_len h) = length p)"

text \<open>A caller waits for one plain frame, or its request is gone.\<close>

definition waits :: "u64 \<Rightarrow> RemoteRoot \<Rightarrow> bool" where
  "waits rid c \<longleftrightarrow> (\<forall>p. map_of (cl_pending c) rid = Some p \<longrightarrow> \<not> pd_streaming p)"

lemma deliver_other:
  "request_id (fr_header f) \<noteq> rid \<Longrightarrow> map_of (cl_answered (deliver f c)) rid = map_of (cl_answered c) rid \<and>
    map_of (cl_pending (deliver f c)) rid = map_of (cl_pending c) rid"
  by (auto simp: deliver_def Let_def AList.update_conv' AList.delete_conv' split: option.split)

lemma deliver_own:
  assumes "request_id (fr_header f) = rid" and "waits rid c"
  shows "map_of (cl_pending (deliver f c)) rid = None"
    "map_of (cl_answered c) rid = None \<Longrightarrow> map_of (cl_answered (deliver f c)) rid = Some p \<Longrightarrow>
      pd_type p = ftype (fr_header f) \<and> pd_payload p = fr_payload f"
  using assms by (auto simp: deliver_def waits_def Let_def AList.update_conv' AList.delete_conv' split: option.split_asm option.split)

lemma turn_answers:
  assumes none: "map_of (cl_answered c) rid = None" and w: "waits rid c"
  shows "waits rid (reader_turn c)"
    and "map_of (cl_answered (reader_turn c)) rid = Some p \<Longrightarrow>
      finish_request p = fail ConnectionClosed \<or> arrived c rid (pd_type p) (pd_payload p)"
    and "map_of (cl_answered (reader_turn c)) rid = None \<Longrightarrow> arrived (reader_turn c) rid t q \<Longrightarrow>
      arrived c rid t q \<or> map_of (cl_pending (reader_turn c)) rid = None"
proof -
  have gone: "waits rid (fail_all_pending d)" for d by (simp add: waits_def fail_all_pending_fields)
  have lost: "finish_request p = fail ConnectionClosed" if "map_of (cl_answered (fail_all_pending d)) rid = Some p"
      "map_of (cl_answered d) rid = None" for d p
    using that fail_all_pending_fields(6,7) [of rid d] finish_released by (cases "rid \<in> fst ` set (cl_pending d)") auto
  obtain r ch where r: "receive (cl_chan c) = (r, ch)" by (cases "receive (cl_chan c)")
  let ?c = "c\<lparr>cl_chan := ch\<rparr>"
  have dead: "reader_turn c = fail_all_pending d \<and> map_of (cl_answered d) rid = None"
    if "cl_closed c \<or> isl r" "d = (if cl_closed c then c else c\<lparr>cl_chan := ch, cl_closed := True\<rparr>)" for d
    using that r none by (cases r) (auto simp: reader_turn_def)
  have live: "reader_turn c = (if ftype (fr_header f) = MsgInvalidation then apply_invalidation (fr_payload f) ?c else deliver f ?c)"
    if "\<not> cl_closed c" "r = Inr f" for f
    using that r by (simp add: reader_turn_def Let_def)
  have w': "waits rid ?c" using w by (simp add: waits_def)
  have got: "inbox (sock (cl_chan c)) = header_bytes (fr_header f) @ fr_payload f @ inbox (sock ch)"
    "unat (payload_len (fr_header f)) = length (fr_payload f)" if "r = Inr f" for f
    using received_frame_complete(1,4) [of "cl_chan c" f ch] r that by simp_all
  show "waits rid (reader_turn c)"
  proof (cases "cl_closed c \<or> isl r")
    case True
    then show ?thesis using dead gone by metis
  next
    case False
    then obtain f where f: "\<not> cl_closed c" "r = Inr f" by (cases r) auto
    show ?thesis unfolding live [OF f]
      using w' deliver_other [of f rid ?c] deliver_own(1) [of f rid ?c] by (cases "request_id (fr_header f) = rid") (auto simp: waits_def)
  qed
  show "finish_request p = fail ConnectionClosed \<or> arrived c rid (pd_type p) (pd_payload p)"
    if a: "map_of (cl_answered (reader_turn c)) rid = Some p"
  proof (cases "cl_closed c \<or> isl r")
    case True
    then show ?thesis using dead lost a by metis
  next
    case False
    then obtain f where f: "\<not> cl_closed c" "r = Inr f" by (cases r) auto
    have t: "ftype (fr_header f) \<noteq> MsgInvalidation" "request_id (fr_header f) = rid"
      using a none deliver_other [of f rid ?c] unfolding live [OF f] by (auto split: if_splits)
    have "pd_type p = ftype (fr_header f) \<and> pd_payload p = fr_payload f"
      using deliver_own(2) [OF t(2) w'] a none t(1) unfolding live [OF f] by simp
    then show ?thesis unfolding arrived_def using got [OF f(2)] t(2) by (metis append_Nil)
  qed
  show "arrived c rid t q \<or> map_of (cl_pending (reader_turn c)) rid = None"
    if a: "arrived (reader_turn c) rid t q"
  proof (cases "cl_closed c \<or> isl r")
    case True
    then show ?thesis using dead by (metis fail_all_pending_fields(5) map_of.simps(1))
  next
    case False
    then obtain f where f: "\<not> cl_closed c" "r = Inr f" by (cases r) auto
    obtain pre h post where q: "inbox (sock ch) = pre @ header_bytes h @ q @ post" "request_id h = rid" "ftype h = t"
        "unat (payload_len h) = length q"
      using a unfolding arrived_def live [OF f] by (auto split: if_splits)
    then have "inbox (sock (cl_chan c)) = (header_bytes (fr_header f) @ fr_payload f @ pre) @ header_bytes h @ q @ post"
      using got [OF f(2)] by simp
    then show ?thesis using q(2-4) unfolding arrived_def by metis
  qed
qed

lemma unrequested_turn:
  assumes "map_of (cl_pending c) rid = None" and "map_of (cl_answered c) rid = None"
  shows "map_of (cl_pending (reader_turn c)) rid = None" and "map_of (cl_answered (reader_turn c)) rid = None"
proof -
  have f: "map_of (cl_answered (fail_all_pending d)) rid = None" if "map_of (cl_pending d) rid = None" "map_of (cl_answered d) rid = None" for d
    using that fail_all_pending_fields(7) [of rid d] by (simp add: map_of_eq_None_iff)
  have d: "map_of (cl_pending (deliver fr d)) rid = None \<and> map_of (cl_answered (deliver fr d)) rid = None"
    if "map_of (cl_pending d) rid = None" "map_of (cl_answered d) rid = None" for fr d
    using that deliver_other [of fr rid d] by (cases "request_id (fr_header fr) = rid") (auto simp: deliver_def)
  obtain r ch where r: "receive (cl_chan c) = (r, ch)" by (cases "receive (cl_chan c)")
  show "map_of (cl_pending (reader_turn c)) rid = None" "map_of (cl_answered (reader_turn c)) rid = None"
    using assms f d r by (cases r; simp add: reader_turn_def Let_def fail_all_pending_fields(5))+
qed

lemma unrequested_await:
  "map_of (cl_pending c) rid = None \<Longrightarrow> map_of (cl_answered c) rid = None \<Longrightarrow> fst (await n rid c) = fail Timeout"
  by (induction n arbitrary: c) (simp_all add: unrequested_turn)

lemma await_answer:
  "map_of (cl_answered c) rid = None \<Longrightarrow> waits rid c \<Longrightarrow> await n rid c = (ok p, c1) \<Longrightarrow>
    arrived c rid (pd_type p) (pd_payload p)"
proof (induction n arbitrary: c)
  case (Suc n)
  let ?d = "reader_turn c"
  show ?case
  proof (cases "map_of (cl_answered ?d) rid")
    case (Some q)
    have "await n rid ?d = (finish_request q, ?d\<lparr>cl_answered := AList.delete rid (cl_answered ?d)\<rparr>)"
      using Some by (cases n) simp_all
    then have "finish_request q = ok p" "q = p" using Suc.prems finish_request_ok by auto
    then show ?thesis using turn_answers(2) [OF Suc.prems(1,2) Some] by auto
  next
    case None
    show ?thesis
    proof (cases "map_of (cl_pending ?d) rid = None")
      case True
      then show ?thesis using unrequested_await [OF True None, of n] Suc.prems by simp
    next
      case False
      have "await n rid ?d = (ok p, c1)" using Suc.prems(1,3) by simp
      from Suc.IH [OF None turn_answers(1) [OF Suc.prems(1,2)] this] show ?thesis
        using turn_answers(3) [OF Suc.prems(1,2) None] False by metis
    qed
  qed
qed simp

text \<open>The ids of the coming requests have not been used.\<close>

definition fresh_id :: "RemoteRoot \<Rightarrow> bool" where
  "fresh_id c \<longleftrightarrow> map_of (cl_answered c) (cl_next c) = None"

lemma call_answer:
  assumes "fresh_id c" and "call n t payload want rd c = (ok v, c1)"
  shows "\<exists>bs. arrived c (cl_next c) want bs \<and> fst (rd (Reader_init bs)) = ok v"
proof -
  obtain p c2 where p: "request n t payload False c = (ok p, c2)" "pd_type p = want" "fst (rd (Reader_init (pd_payload p))) = ok v"
    using assms(2) by (auto simp: call_def split: prod.splits sum.splits if_splits)
  let ?c = "\<lambda>ch. c\<lparr>cl_next := cl_next c + 1, cl_pending := AList.update (cl_next c) (ClientPending_init False) (cl_pending c), cl_chan := ch\<rparr>"
  obtain u ch where s: "send t (cl_next c) payload 0 (cl_chan c) = (Inr u, ch)" "await n (cl_next c) (?c ch) = (ok p, c2)"
    using p(1) by (auto simp: request_def Let_def split: if_splits prod.splits sum.splits)
  have i: "inbox (sock ch) = inbox (sock (cl_chan c))"
    using send_inbox [of t "cl_next c" payload 0 "cl_chan c"] s(1) by simp
  have "arrived (?c ch) (cl_next c) (pd_type p) (pd_payload p)"
    by (rule await_answer [OF _ _ s(2)]) (use assms(1) in \<open>auto simp: fresh_id_def waits_def AList.update_conv' ClientPending_init_def\<close>)
  then show ?thesis using p i by (auto simp: arrived_def)
qed

section \<open>The handshake\<close>

text \<open>
  C13. The agent proves itself first.  A client with a token sends its greeting and, unless a frame has
  arrived that answers it and carries the proof for the token and the two nonces in the server's
  direction, nothing more: the call fails, and what has left is at most the greeting.  So the client's own
  proof, and every request after it, only ever goes to an agent that has shown that it holds the token.
\<close>

theorem agent_proves_itself_first:
  assumes tok: "cl_token c \<noteq> []" and fresh: "fresh_id c" and con: "connect api ag rnd n c = (r, c1)"
  shows "(\<exists>bs ack. arrived c (cl_next c) MsgHelloAck bs \<and> fst (read_hello (Reader_init bs)) = ok ack \<and>
            proof_of ack = auth_proof api (cl_token c) (generate_auth_nonce rnd) (nonce ack) True) \<or>
         isl r \<and> (\<exists>k. outbox (sock (cl_chan c1)) = outbox (sock (cl_chan c)) @
            take k (of_bytes (request_frame MsgHello (write_hello (client_hello ag (generate_auth_nonce rnd)) []) c)))"
proof -
  let ?cn = "generate_auth_nonce rnd" let ?p = "write_hello (client_hello ag ?cn) []"
  obtain v c2 where v: "call n MsgHello ?p MsgHelloAck read_hello c = (v, c2)" by (cases "call n MsgHello ?p MsgHelloAck read_hello c")
  have s: "\<exists>k. outbox (sock (cl_chan c2)) = outbox (sock (cl_chan c)) @ take k (of_bytes (request_frame MsgHello ?p c))" "cl_token c2 = cl_token c"
    using call_sends [of n MsgHello ?p MsgHelloAck read_hello c] v by simp_all
  show ?thesis
  proof (cases "?cn = []")
    case True
    then show ?thesis using con tok by (auto simp: connect_def intro: exI [of _ 0])
  next
    case cn: False
    show ?thesis
    proof (cases v)
      case (Inl e)
      then show ?thesis using con tok v s cn by (auto simp: connect_def)
    next
      case (Inr ack)
      obtain bs where bs: "arrived c (cl_next c) MsgHelloAck bs" "fst (read_hello (Reader_init bs)) = ok ack"
        using call_answer [OF fresh, of n MsgHello ?p MsgHelloAck read_hello ack c2] v Inr by blast
      show ?thesis
      proof (cases "proof_of ack = auth_proof api (cl_token c) ?cn (nonce ack) True")
        case False
        then have "connect_auth api n ?cn ack c2 = (fail Unauthorized, c2)"
          using s(2) by (simp add: connect_auth_def constant_time_equal_def ct_loop_zero)
        then have "r = fail Unauthorized" "c1 = c2" using con tok v cn Inr by (simp_all add: connect_def)
        then show ?thesis using s(1) by simp
      qed (use bs in blast)
    qed
  qed
qed

definition demo_guarded :: RemoteRoot where
  "demo_guarded = RemoteRoot_init (lit ''secret'') Exact (FrameChannel_init
    \<lparr>inbox = [], outbox = [], sends = replicate 100 (RcN 10), recvs = [], selects = [], clock = [0]\<rparr>)"

theorem agent_proves_itself_first_witness:
  "let c = demo_guarded; rnd = (\<lambda>k n. replicate n 7); (r, c1) = connect demo_api [] rnd 1 c in
   (\<exists>bs ack. arrived c (cl_next c) MsgHelloAck bs \<and> fst (read_hello (Reader_init bs)) = ok ack \<and>
            proof_of ack = auth_proof demo_api (cl_token c) (generate_auth_nonce rnd) (nonce ack) True) \<or>
         isl r \<and> (\<exists>k. outbox (sock (cl_chan c1)) = outbox (sock (cl_chan c)) @
            take k (of_bytes (request_frame MsgHello (write_hello (client_hello [] (generate_auth_nonce rnd)) []) c)))"
proof -
  obtain r c1 where con: "connect demo_api [] (\<lambda>k n. replicate n 7) 1 demo_guarded = (r, c1)"
    by (cases "connect demo_api [] (\<lambda>k n. replicate n 7) 1 demo_guarded")
  have "cl_token demo_guarded \<noteq> []" "fresh_id demo_guarded"
    by (simp_all add: demo_guarded_def RemoteRoot_init_def fresh_id_def)
  from agent_proves_itself_first [OF this con] show ?thesis unfolding Let_def con prod.case .
qed

section \<open>A broken connection\<close>

text \<open>
  C14. A broken connection releases every caller.  When the reader fails to receive (the peer is gone, or
  sent something that is no frame), its last turn empties the table of pending requests and every caller
  that was waiting returns at once with \<open>ConnectionClosed\<close>, without any further frame and not only when
  its time is up; and every later request is refused the same way, without sending anything.
\<close>

theorem broken_connection_releases_callers:
  assumes "receive (cl_chan c) = (fail e, ch)" and "c1 = reader_turn c"
  shows "cl_pending c1 = [] \<and> cl_closed c1 \<and>
    (\<forall>rid n. rid \<in> fst ` set (cl_pending c) \<longrightarrow> fst (await n rid c1) = fail ConnectionClosed) \<and>
    (\<forall>n t p s. request n t p s c1 = (fail ConnectionClosed, c1))"
proof -
  obtain d where d: "c1 = fail_all_pending d" "cl_pending d = cl_pending c" "cl_closed d"
    using assms by (cases "cl_closed c") (auto simp: reader_turn_def)
  have "fst (await n rid c1) = fail ConnectionClosed" if a: "rid \<in> fst ` set (cl_pending c)" for rid n
  proof -
    obtain p where "map_of (cl_answered c1) rid = Some (released p)" using fail_all_pending_fields(6) [of rid d] d a by auto
    then show ?thesis by (cases n) simp_all
  qed
  moreover have "cl_closed c1" "cl_pending c1 = []" using d fail_all_pending_fields(4,5) [of d] by simp_all
  ultimately show ?thesis by (simp add: request_def)
qed

theorem broken_connection_releases_callers_witness:
  "let c = demo_client\<lparr>cl_pending := [(4, ClientPending_init False)]\<rparr>
   in fst (await 7 4 (reader_turn c)) = fail ConnectionClosed"
proof -
  let ?c = "demo_client\<lparr>cl_pending := [(4, ClientPending_init False)]\<rparr>"
  have "isl (fst (receive (cl_chan ?c)))" by code_simp
  then obtain e ch where "receive (cl_chan ?c) = (fail e, ch)" by (cases "receive (cl_chan ?c)"; cases "fst (receive (cl_chan ?c))") auto
  from broken_connection_releases_callers [OF this refl] show ?thesis unfolding Let_def by simp
qed

section \<open>The two ways of reading\<close>

lemma lookup_valid:
  assumes "tree_inv t" and "lookup t path m = Some i"
  shows "valid t i"
proof -
  obtain ch ss where c: "tree_core t ch {} {} ss" using assms(1) by (auto simp: tree_inv_def)
  have up: "valid t (if parent (node t j) \<noteq> kInvalidNode then parent (node t j) else j)" if "valid t j" for j
    using that child_parent_ok [OF core_shape [OF c], of j] shape_root [OF core_shape [OF c]] by (cases "j = root") auto
  have down: "valid t j" if "find_child t p nm m = Some j" for p nm j
    using that find_child_spec [OF assms(1), of p nm j]
    by (cases m; cases "find_child t p nm Exact") (auto simp: child_of_inodes child_named_def)
  have "valid t j \<Longrightarrow> resolve_names t m j xs = Some i \<Longrightarrow> valid t i" for j xs
  proof (induction xs arbitrary: j)
    case (Cons x xs)
    then show ?case using up [of j] down [of j x] by (auto split: if_splits option.splits)
  qed simp
  moreover have "valid t root" using core_slots [OF c] by (simp add: slots_ok_def)
  ultimately show ?thesis using assms(2) by (auto simp: lookup_resolve)
qed

text \<open>The canonical path names the same file, exactly.\<close>

lemma canonical_key:
  assumes "tree_inv (cl_tree c)" and "t = resolve_for_read path c" and "u = resolve_for_read (read_key path t) c"
  shows "rt_is_file u = rt_is_file t" "rt_mtime u = rt_mtime t" "rt_size u = rt_size t"
    "read_key (read_key path t) u = read_key path t"
proof -
  have "rt_is_file u = rt_is_file t \<and> rt_mtime u = rt_mtime t \<and> rt_size u = rt_size t \<and> read_key (read_key path t) u = read_key path t"
  proof (cases "rt_canonical t = []")
    case True
    then show ?thesis using assms by (simp add: read_key_def)
  next
    case False
    then obtain i where i: "lookup (cl_tree c) path (cl_mode c) = Some i" "rt_canonical t = path_of (cl_tree c) i slash"
      "t = \<lparr>rt_is_file = kind (attr (node (cl_tree c) i)) = File, rt_mtime = mtime_ns (attr (node (cl_tree c) i)),
            rt_size = size_of (attr (node (cl_tree c) i)), rt_canonical = path_of (cl_tree c) i slash\<rparr>"
      using assms(2) by (auto simp: resolve_for_read_def ReadTarget_init_def Let_def split: option.splits if_splits)
    have "lookup (cl_tree c) (path_of (cl_tree c) i slash) Exact = Some i"
      using path_of_resolves [OF assms(1) lookup_valid [OF assms(1) i(1)]] .
    then show ?thesis using assms(3) i(2,3) False by (simp add: read_key_def resolve_for_read_def Let_def)
  qed
  then show "rt_is_file u = rt_is_file t" "rt_mtime u = rt_mtime t" "rt_size u = rt_size t"
    "read_key (read_key path t) u = read_key path t" by simp_all
qed

lemma read_canonical:
  assumes "tree_inv (cl_tree c)"
  shows "RemoteRoot_read n (read_key path (resolve_for_read path c)) off cnt c = RemoteRoot_read n path off cnt c"
proof -
  let ?t = "resolve_for_read path c" let ?u = "resolve_for_read (read_key path ?t) c"
  note k = canonical_key [OF assms refl refl, of path]
  have a: "read_ahead k ?u c = read_ahead k ?t c" for k using k by (simp add: read_ahead_def)
  have f: "fetch_target n k ?u b d = fetch_target n k ?t b d" for k b d unfolding fetch_target_def k(2,3) ..
  show ?thesis unfolding RemoteRoot_read_def Let_def k a f ..
qed

lemma hit_small: "cache_inv k \<Longrightarrow> cache_hit p mt sz k = (Some bs, k1) \<Longrightarrow> length bs < 2 ^ 62"
proof -
  assume inv: "cache_inv k" and h: "cache_hit p mt sz k = (Some bs, k1)"
  then obtain e where e: "map_of (rcache k) p = Some e" "bs = ce_data e"
    by (auto simp: cache_hit_def split: option.splits if_splits)
  have "cache_keys k" "list_all entry_small (lru_view k)" using inv by (auto simp: cache_inv_def cache_count_def)
  then show ?thesis using e map_of_view [of k p] by (auto simp: entry_small_def list_all_iff dest!: map_of_SomeD)
qed

text \<open>
  C15. Reading into a buffer is reading: \<open>read_into\<close>, the variant that copies from the cache under the lock and
  saves the callers of the mount an allocation, leaves the client in the state in which \<open>read\<close> leaves it
  and delivers the bytes \<open>read\<close> delivers, cut to the buffer; although on a miss it resolves a second time,
  now from the canonical spelling of the path.
\<close>

theorem read_into_agrees:
  assumes "tree_inv (cl_tree c)" and "client_inv c" and "space < 2 ^ 32"
  shows "read_into n path off space c =
    (let (r, c1) = RemoteRoot_read n path off (of_nat space) c in (map_sum id (take space) r, c1))"
proof -
  let ?t = "resolve_for_read path c" let ?k = "read_key path ?t"
  have sp: "unat (of_nat space :: u32) = space" "min space 0xFFFFFFFF = space" using assms(3) by (simp_all add: unat_of_nat)
  obtain h k1 where h: "cache_hit ?k (rt_mtime ?t) (rt_size ?t) (cl_cache c) = (h, k1)"
    by (cases "cache_hit ?k (rt_mtime ?t) (rt_size ?t) (cl_cache c)")
  have miss: "(case RemoteRoot_read n ?k off (of_nat (min space 0xFFFFFFFF)) c of
      (Inl e, c1) \<Rightarrow> (fail e, c1) | (Inr bs, c1) \<Rightarrow> (ok (take (min space (length bs)) bs), c1)) =
    (let (r, c1) = RemoteRoot_read n path off (of_nat space) c in (map_sum id (take space) r, c1))"
    unfolding sp(2) read_canonical [OF assms(1)] by (auto simp: min_def split: prod.split sum.split)
  show ?thesis
  proof (cases "rt_is_file ?t \<and> rt_size ?t \<le> kMaxCacheableFile")
    case False
    then show ?thesis unfolding read_into_def Let_def if_not_P [OF False] prod.case option.case using miss by (simp add: Let_def)
  next
    case True
    show ?thesis
    proof (cases h)
      case None
      then show ?thesis using miss h True by (simp add: read_into_def Let_def)
    next
      case (Some bs)
      have "length bs < 2 ^ 63" using hit_small [OF client_cache [OF assms(2)]] h Some by force
      then have "slice bs off (of_nat space) = take space (drop (unat off) bs)" using slice_eq [of bs off "of_nat space"] sp(1) by simp
      then show ?thesis using h Some True by (auto simp: read_into_def RemoteRoot_read_def Let_def not_less min_def)
    qed
  qed
qed

theorem read_into_agrees_witness:
  "read_into 1 (lit ''a'') 0 10 demo_guarded =
    (let (r, c1) = RemoteRoot_read 1 (lit ''a'') 0 10 demo_guarded in (map_sum id (take 10) r, c1))"
proof -
  have "tree_inv (cl_tree demo_guarded)" using tree_invI [OF MetadataTree_init_core] by (simp add: demo_guarded_def RemoteRoot_init_def)
  moreover have "client_inv demo_guarded" unfolding demo_guarded_def by (rule RemoteRoot_init_inv)
  ultimately show ?thesis using read_into_agrees [of demo_guarded 10 1 "lit ''a''" 0] by simp
qed

section \<open>The pace of the background work\<close>

text \<open>
  A run of \<open>rescan_loop\<close>: each rescan is noticed at some time \<open>now\<close> and begins at a time \<open>start\<close> that is not
  before the one computed for it.
\<close>

fun paced :: "(int \<times> int) list \<Rightarrow> RescanClock \<Rightarrow> bool" where
  "paced [] k \<longleftrightarrow> True"
| "paced ((now, start) # ps) k \<longleftrightarrow> rescan_earliest now k \<le> start \<and> paced ps (rescan_begin now start k)"

definition pace_ok :: "RescanClock \<Rightarrow> bool" where
  "pace_ok k \<longleftrightarrow> kRescanMinInterval \<le> rs_backoff k \<and> rs_backoff k \<le> kRescanMaxInterval"

lemmas pace_defs = pace_ok_def rescan_begin_def rescan_backoff_def rescan_earliest_def kRescanMinInterval_def kRescanMaxInterval_def

lemma begin_pace: "pace_ok k \<Longrightarrow> pace_ok (rescan_begin now start k)"
  by (auto simp: pace_defs split: option.split)

lemma earliest_spaced: "pace_ok k \<Longrightarrow> rs_last k = Some l \<Longrightarrow> l + kRescanMinInterval \<le> rescan_earliest now k"
  by (auto simp: pace_defs split: option.split)

text \<open>
  Rescans are spaced out, whatever the server asks for: between the beginnings of two successive
  rescans lie at least 500 milliseconds, so that at most one more than the elapsed half seconds can have
  begun; and the delay never grows beyond 30 seconds, so that a requested rescan is never put off for longer.
\<close>

theorem rescans_spaced:
  assumes "paced ps RescanClock_init"
  shows "sorted_wrt (\<lambda>a b. a + kRescanMinInterval \<le> b) (map snd ps) \<and>
    (\<forall>now. rescan_earliest now (fold (\<lambda>p k. rescan_begin (fst p) (snd p) k) ps RescanClock_init) \<le>
       max now ((if ps = [] then now else snd (last ps)) + kRescanMaxInterval))"
proof -
  let ?k = "fold (\<lambda>p k. rescan_begin (fst p) (snd p) k) ps RescanClock_init"
  have spaced: "sorted_wrt (\<lambda>a b. a + kRescanMinInterval \<le> b) (map snd ps) \<and>
      (\<forall>l. rs_last k = Some l \<longrightarrow> (\<forall>p \<in> set ps. l + kRescanMinInterval \<le> snd p))" if "pace_ok k" "paced ps k" for k
    using that
  proof (induction ps arbitrary: k)
    case (Cons p ps)
    obtain now start where p: "p = (now, start)" by (cases p)
    have ih: "sorted_wrt (\<lambda>a b. a + kRescanMinInterval \<le> b) (map snd ps)" "\<forall>p \<in> set ps. start + kRescanMinInterval \<le> snd p"
      using Cons.IH [OF begin_pace [OF Cons.prems(1)]] Cons.prems(2) p by (auto simp: rescan_begin_def)
    moreover have "l + kRescanMinInterval \<le> start" if "rs_last k = Some l" for l
      using earliest_spaced [OF Cons.prems(1) that, of now] Cons.prems(2) p by simp
    ultimately show ?case using p by (force simp: kRescanMinInterval_def)
  qed simp
  have start: "pace_ok RescanClock_init" by (simp add: pace_defs RescanClock_init_def)
  have keep: "pace_ok (fold (\<lambda>p k. rescan_begin (fst p) (snd p) k) qs k) \<and>
      rs_last (fold (\<lambda>p k. rescan_begin (fst p) (snd p) k) qs k) = (if qs = [] then rs_last k else Some (snd (last qs)))"
    if "pace_ok k" for qs k
    using that by (induction qs rule: rev_induct) (auto simp: begin_pace, simp add: rescan_begin_def)
  have late: "rescan_earliest now k \<le> max now ((case rs_last k of None \<Rightarrow> now | Some l \<Rightarrow> l) + kRescanMaxInterval)" if "pace_ok k" for now k
    using that by (auto simp: pace_defs split: option.split)
  have k: "pace_ok ?k" "rs_last ?k = (if ps = [] then None else Some (snd (last ps)))"
    using keep [OF start, of ps] by (simp_all add: RescanClock_init_def)
  have "rescan_earliest now ?k \<le> max now ((if ps = [] then now else snd (last ps)) + kRescanMaxInterval)" for now
    using late [OF k(1), of now] k(2) by (simp split: if_splits)
  then show ?thesis using spaced [OF start assms] by blast
qed

theorem rescans_spaced_witness:
  "sorted_wrt (\<lambda>a b. a + kRescanMinInterval \<le> b) (map snd [(0 :: int, 0 :: int), (1, 500000000), (600000000, 1500000000)])"
proof -
  have "paced [(0, 0), (1, 500000000), (600000000, 1500000000)] RescanClock_init" by code_simp
  from conjunct1 [OF rescans_spaced [OF this]] show ?thesis .
qed

text \<open>The sizes of the bulk requests of one prefetched directory and of a read.\<close>

lemma flush_sent: "pr_sent (fst (prefetch_flush n (p, c))) \<in> {pr_sent p, pr_sent p @ [length (pr_batch p)]} \<and>
    pr_batch (fst (prefetch_flush n (p, c))) = []"
  by (auto simp: prefetch_flush_def Let_def split: prod.split sum.split)

lemma files_sent:
  "list_all (\<lambda>k. k \<le> kPrefetchBatchCount) (pr_sent (fst st)) \<Longrightarrow> length (pr_batch (fst st)) < kPrefetchBatchCount \<Longrightarrow>
    list_all (\<lambda>k. k \<le> kPrefetchBatchCount) (pr_sent (fst (prefetch_files n fms st))) \<and>
    length (pr_batch (fst (prefetch_files n fms st))) < kPrefetchBatchCount"
proof (induction fms arbitrary: st)
  case (Cons fm fms)
  obtain p c where st: "st = (p, c)" by (cases st)
  let ?p = "p\<lparr>pr_batch := pr_batch p @ [fm], pr_bytes := pr_bytes p + fm_size fm\<rparr>"
  have f: "list_all (\<lambda>k. k \<le> kPrefetchBatchCount) (pr_sent (fst (prefetch_flush n (?p, c))))"
    "length (pr_batch (fst (prefetch_flush n (?p, c)))) < kPrefetchBatchCount"
    using flush_sent [of n ?p c] Cons.prems st by (auto simp: kPrefetchBatchCount_def)
  show ?case using Cons.IH [of st] Cons.IH [OF f] Cons.IH [of "(?p, c)"] Cons.prems st by (simp add: Let_def)
qed simp

lemma ahead_length: "length (fst (fold (sibling t dir k) is st)) \<le> max 256 (length (fst st))"
proof (induction "is" arbitrary: st)
  case (Cons i "is")
  have "length (fst (sibling t dir k i st)) \<le> max 256 (length (fst st))" by (auto simp: sibling_def Let_def split: prod.split)
  then show ?case using Cons [of "sibling t dir k i st"] by simp
qed simp

text \<open>
  Bulk requests stay within what a server accepts: a read asks for at most 256 files, itself included,
  and a prefetched directory, however large, is fetched in batches of at most 512, both below the
  protocol's limit on the paths of one request.
\<close>

theorem bulk_requests_bounded:
  "length (read_ahead k t c) \<le> 256 \<and>
   (prefetch_turn n c = Some (p, c1) \<longrightarrow> list_all (\<lambda>b. b \<le> kMaxReadManyPaths) (pr_sent p))"
proof
  show "length (read_ahead k t c) \<le> 256"
    using ahead_length [of _ _ _ _ "([\<lparr>fm_path = k, fm_mtime = rt_mtime t, fm_size = rt_size t\<rparr>], rt_size t)"]
    by (auto simp: read_ahead_def Let_def split: option.split)
  show "prefetch_turn n c = Some (p, c1) \<longrightarrow> list_all (\<lambda>b. b \<le> kMaxReadManyPaths) (pr_sent p)"
  proof
    assume t: "prefetch_turn n c = Some (p, c1)"
    then obtain dir q where q: "cl_pf_queue c = dir # q" "\<not> cl_pf_stop c"
      by (auto simp: prefetch_turn_def split: if_splits list.splits)
    let ?c = "c\<lparr>cl_pf_queue := q\<rparr>" let ?st = "prefetch_files n (small_files dir (cl_tree c)) (Prefetch_init, ?c)"
    have f: "list_all (\<lambda>k. k \<le> kPrefetchBatchCount) (pr_sent (fst ?st))" "length (pr_batch (fst ?st)) < kPrefetchBatchCount"
      using files_sent [of "(Prefetch_init, ?c)" n "small_files dir (cl_tree c)"] by (simp_all add: Prefetch_init_def kPrefetchBatchCount_def)
    have "p = fst (prefetch_flush n ?st)" using t q by (auto simp: prefetch_turn_def Let_def split: prod.splits)
    then have "list_all (\<lambda>k. k \<le> kPrefetchBatchCount) (pr_sent p)" using flush_sent [of n "fst ?st" "snd ?st"] f by auto
    then show "list_all (\<lambda>b. b \<le> kMaxReadManyPaths) (pr_sent p)"
      by (auto simp: list_all_iff kPrefetchBatchCount_def kMaxReadManyPaths_def)
  qed
qed

definition demo_prefetch :: RemoteRoot where
  "demo_prefetch = demo_guarded\<lparr>cl_pf_queue := [[]]\<rparr>"

theorem bulk_requests_bounded_witness:
  "\<exists>p c1. prefetch_turn 1 demo_prefetch = Some (p, c1) \<and> list_all (\<lambda>b. b \<le> kMaxReadManyPaths) (pr_sent p)"
proof -
  have "\<not> cl_pf_stop demo_prefetch" "cl_pf_queue demo_prefetch = [[]]"
    by (simp_all add: demo_prefetch_def demo_guarded_def RemoteRoot_init_def)
  then obtain p c1 where "prefetch_turn 1 demo_prefetch = Some (p, c1)"
    by (cases "prefetch_turn 1 demo_prefetch") (auto simp: prefetch_turn_def Let_def split: prod.splits)
  then show ?thesis using conjunct2 [OF bulk_requests_bounded [where n = 1 and c = demo_prefetch]] by blast
qed

end
