(* ===== verification/SnapshotLoad.thy ===== *)
theory SnapshotLoad
  imports TreePaths
begin

text \<open>
  \<open>MetadataTree::load_snapshot\<close>: what the tree holds after a snapshot.  The reference is a list that gives each
  entry its place, the components of its path, or none when the tree cannot represent it; the loop over the
  entries is shown to fill the tree with exactly the places of that list.
\<close>

section \<open>An empty tree\<close>

text \<open>A tree with nothing but its root, whatever the capacity of its maps.\<close>

lemma bare_tree:
  assumes n: "nodes u = [root_node 0]" "free u = []" "live u = 1" "collisions u = 0" and pr: "pool_rep (names u) [[]]"
    and e: "U64Map_inv (exact u) \<and> U64Map_abs (exact u) = Map.empty" "U64Map_inv (folded u) \<and> U64Map_abs (folded u) = Map.empty"
  shows "tree_inv u" and "valid u i \<longleftrightarrow> i = root" and "attr (node u root) = kImplicitDirectory"
proof -
  have v: "valid u j \<longleftrightarrow> j = root" for j
    by (auto simp: valid_def n(1) node_def root_def root_node_def kInvalidName_def unat_eq_0)
  have nd: "node u root = root_node 0" by (simp add: node_def n(1) root_def)
  have "slots_ok u" by (simp add: slots_ok_def n(2,3) v) (auto simp: in_range_def n(1) root_def unat_eq_0)
  moreover have "shape_ok u (\<lambda>_. []) {}"
    by (simp add: shape_ok_def links_ok_def v dll_def nd root_node_def Node_init_def edges_def small_def n(1) acyclic_def)
  moreover have "index_ok u {}" using e by (simp add: index_ok_def exact_ok_def folded_ok_def n(4))
  moreover have "casefold [] = []" by (simp add: casefold_def casefold_append.simps)
  then have "names_ok u [[]]" using pr by (simp add: names_ok_def v nd root_node_def)
  moreover have I: "{j. valid u j \<and> j \<noteq> root \<and> j \<notin> {}} = {}" using v by auto
  ultimately have "tree_core u (\<lambda>_. []) {} {} [[]]" unfolding tree_core_def I by blast
  then show "tree_inv u" by (rule tree_invI)
  show "valid u i \<longleftrightarrow> i = root" by (rule v)
  show "attr (node u root) = kImplicitDirectory" unfolding nd by (simp add: root_node_def)
qed

text \<open>What \<open>load_snapshot\<close> starts from.\<close>

definition emptied :: "nat \<Rightarrow> MetadataTree \<Rightarrow> MetadataTree" where
  "emptied n t = (clear t)\<lparr>exact := reserve (exact (clear t)) n, folded := reserve (folded (clear t)) n\<rparr>"

lemma emptied_tree:
  assumes "tree_inv t"
  shows "tree_inv (emptied n t)" and "valid (emptied n t) i \<longleftrightarrow> i = root" and "attr (node (emptied n t) root) = kImplicitDirectory"
    and "StringPool_size (names (emptied n t)) = 1" and "length (nodes (emptied n t)) = 1" and "dropped (emptied n t) = 0"
proof -
  obtain ch ss where c: "tree_core t ch {} {} ss" using assms by (auto simp: tree_inv_def)
  obtain nid pool where ip: "intern (StringPool_clear (names t)) [] = (nid, pool)" by (cases "intern (StringPool_clear (names t)) []")
  from pool.rep_add [OF StringPool_clear_rep, of "[]" "names t" nid pool] ip have pr: "pool_rep pool [[]]" "unat nid < 1" by (auto simp: interned_def)
  have t: "nodes (emptied n t) = [root_node 0]" "free (emptied n t) = []" "names (emptied n t) = pool"
    "exact (emptied n t) = reserve (U64Map_clear (exact t)) n" "folded (emptied n t) = reserve (U64Map_clear (folded t)) n"
    "live (emptied n t) = 1" "collisions (emptied n t) = 0" "dropped (emptied n t) = 0"
    using ip pr(2) by (simp_all add: emptied_def clear_def unat_eq_0)
  have e: "U64Map_inv (exact (emptied n t)) \<and> U64Map_abs (exact (emptied n t)) = Map.empty"
    "U64Map_inv (folded (emptied n t)) \<and> U64Map_abs (folded (emptied n t)) = Map.empty"
    using core_index [OF c] U64Map_clear_ok [of "exact t"] U64Map_clear_ok [of "folded t"]
      reserve_ok [of "U64Map_clear (exact t)" n] reserve_ok [of "U64Map_clear (folded t)" n]
    by (simp_all add: t(4,5) index_ok_def exact_ok_def folded_ok_def)
  have p: "pool_rep (names (emptied n t)) [[]]" using pr(1) t(3) by simp
  note b = bare_tree [OF t(1,2,6,7) p e]
  show "tree_inv (emptied n t)" "valid (emptied n t) i \<longleftrightarrow> i = root" "attr (node (emptied n t) root) = kImplicitDirectory"
    by (rule b)+
  show "StringPool_size (names (emptied n t)) = 1" using p by (simp add: pool_rep_def StringPool_size_def)
  show "length (nodes (emptied n t)) = 1" "dropped (emptied n t) = 0" by (simp_all add: t)
qed

lemma dropped_frame [simp]:
  "inodes (t\<lparr>dropped := n\<rparr>) = inodes t" "tree_inv (t\<lparr>dropped := n\<rparr>) = tree_inv t" "room_for (t\<lparr>dropped := n\<rparr>) nms = room_for t nms"
  "valid (t\<lparr>dropped := n\<rparr>) i = valid t i"
proof -
  have v: "valid (t\<lparr>dropped := n\<rparr>) = valid t" "node (t\<lparr>dropped := n\<rparr>) = node t" "in_range (t\<lparr>dropped := n\<rparr>) = in_range t"
    "name_of (t\<lparr>dropped := n\<rparr>) = name_of t"
    by (simp_all add: fun_eq_iff valid_def node_def in_range_def name_of_def)
  show "inodes (t\<lparr>dropped := n\<rparr>) = inodes t" by (simp add: fun_eq_iff inodes_def v)
  show "room_for (t\<lparr>dropped := n\<rparr>) nms = room_for t nms" by (simp add: room_for_def)
  show "valid (t\<lparr>dropped := n\<rparr>) i = valid t i" by (simp add: v)
  have "dll (t\<lparr>dropped := n\<rparr>) = dll t" by (simp add: fun_eq_iff dll_def v)
  then show "tree_inv (t\<lparr>dropped := n\<rparr>) = tree_inv t"
    by (simp add: tree_inv_def tree_core_def slots_ok_def shape_ok_def links_ok_def small_def edges_def index_ok_def exact_ok_def
        folded_ok_def owns_def ekey_def fkey_def names_ok_def v)
qed

section \<open>Places\<close>

type_synonym places = "(bytes list \<times> Attributes) option list"

text \<open>
  The place of an entry behind those of the entries before it.  An entry has none when its parent has none
  or is no directory, when its name is not a name, and when the place is taken.
\<close>

definition entry_place :: "places \<Rightarrow> SnapshotEntry \<Rightarrow> (bytes list \<times> Attributes) option" where
  "entry_place ps e =
    (case ps ! unat (e_parent e) of
       None \<Rightarrow> None
     | Some (q, a) \<Rightarrow>
         if kind a = Directory \<and> valid_name (e_name e) \<and> (\<forall>b. Some (q @ [e_name e], b) \<notin> set ps)
         then Some (q @ [e_name e], e_attr e) else None)"

definition placed_on :: "places \<Rightarrow> SnapshotEntry list \<Rightarrow> places" where
  "placed_on ps es = foldl (\<lambda>ps e. ps @ [entry_place ps e]) ps es"

definition placed :: "SnapshotEntry list \<Rightarrow> places" where
  "placed es = placed_on [Some ([], kImplicitDirectory)] es"

definition parents_first :: "SnapshotEntry list \<Rightarrow> bool" where
  "parents_first es \<longleftrightarrow> (\<forall>k < length es. unat (e_parent (es ! k)) \<le> k)"

definition lost_count :: "places \<Rightarrow> nat" where
  "lost_count ps = length (filter (\<lambda>x. x = None) ps)"

text \<open>The tree and the list of ids hold exactly the places.\<close>

definition at_place :: "table \<Rightarrow> NodeId \<Rightarrow> (bytes list \<times> Attributes) option \<Rightarrow> bool" where
  "at_place N i x \<longleftrightarrow>
    (case x of
       None \<Rightarrow> i = kInvalidNode
     | Some (q, a) \<Rightarrow> path_to N i q \<and> (\<exists>p nm. N i = Some (p, nm, a)))"

definition loaded :: "MetadataTree \<Rightarrow> NodeId list \<Rightarrow> places \<Rightarrow> bool" where
  "loaded t ids ps \<longleftrightarrow> tree_inv t \<and> dropped t = lost_count ps \<and> {i. valid t i} \<subseteq> set ids \<and> list_all2 (at_place (inodes t)) ids ps"

lemma loaded_start: "tree_inv t \<Longrightarrow> loaded (emptied n t) [root] [Some ([], kImplicitDirectory)]"
  using emptied_tree [of t n] path_root by (auto simp: loaded_def lost_count_def inodes_def at_place_def)

lemma loaded_skip:
  assumes "loaded t ids ps" and "inodes t' = inodes t" and "tree_inv t'" and "dropped t' = dropped t"
  shows "loaded (t'\<lparr>dropped := dropped t' + 1\<rparr>) (ids @ [kInvalidNode]) (ps @ [None])"
proof -
  have "valid t' i = valid t i" for i using assms(2) by (metis inodes_None)
  then show ?thesis using assms by (auto simp: loaded_def lost_count_def at_place_def intro!: list_all2_appendI)
qed

lemma loaded_add:
  assumes l: "loaded t ids ps" and N: "inodes t i = None" "inodes t' = (inodes t)(i \<mapsto> (p, nm, a))" "i \<noteq> root"
    and p: "path_to (inodes t) p q" and t': "tree_inv t'" "dropped t' = dropped t"
  shows "loaded t' (ids @ [i]) (ps @ [Some (q @ [nm], a)])"
proof -
  have le: "inodes t \<subseteq>\<^sub>m inodes t'" using N by (simp add: map_le_def dom_def)
  have "child_of (inodes t') p nm i" using N by (simp add: child_of_def)
  then have new: "at_place (inodes t') i (Some (q @ [nm], a))" using path_child [OF path_mono [OF p le]] N by (simp add: at_place_def)
  have v: "valid t' j \<longleftrightarrow> valid t j \<or> j = i" for j
    using N(2) inodes_None [of t' j] inodes_None [of t j] by (auto split: if_splits)
  have "at_place (inodes t') j x" if "at_place (inodes t) j x" for j x
    using that path_mono [OF _ le] N by (auto simp: at_place_def split: option.splits)
  then have "list_all2 (at_place (inodes t')) ids ps" using l by (auto simp: loaded_def elim: list_all2_mono)
  then show ?thesis using l new t' v by (auto simp: loaded_def lost_count_def intro!: list_all2_appendI)
qed

lemma no_invalid: "tree_inv t \<Longrightarrow> \<not> valid t kInvalidNode"
  using valid_not_invalid shape_small core_shape unfolding tree_inv_def by blast

text \<open>Each live node is in one of the places, and each place leads to its node.\<close>

lemma loaded_node:
  assumes "loaded t ids ps" and "path_to (inodes t) i q" and "valid t i"
  shows "Some (q, attr (node t i)) \<in> set ps"
proof -
  obtain k where k: "k < length ps" "ids ! k = i" "at_place (inodes t) i (ps ! k)"
    using assms(1,3) by (auto simp: loaded_def in_set_conv_nth subset_iff list_all2_conv_all_nth)
  have "i \<noteq> kInvalidNode" using no_invalid assms(1,3) by (auto simp: loaded_def)
  then obtain r b where r: "ps ! k = Some (r, b)" "path_to (inodes t) i r" "b = attr (node t i)"
    using k(3) assms(3) by (auto simp: at_place_def inodes_def split: option.splits)
  then show ?thesis using path_of_node_unique [OF r(2) assms(2)] k(1) by (metis nth_mem)
qed

lemma loaded_place:
  assumes "loaded t ids ps" and "Some (q, a) \<in> set ps"
  shows "\<exists>i. path_to (inodes t) i q \<and> valid t i \<and> attr (node t i) = a"
proof -
  obtain k where k: "k < length ps" "ps ! k = Some (q, a)" using assms(2) by (metis in_set_conv_nth)
  then have "at_place (inodes t) (ids ! k) (Some (q, a))" using assms(1) by (auto simp: loaded_def list_all2_conv_all_nth dest!: spec [of _ k])
  then show ?thesis by (auto simp: at_place_def inodes_def split: if_splits)
qed

lemma loaded_taken:
  assumes l: "loaded t ids ps" and p: "path_to (inodes t) p q"
  shows "(\<exists>i. child_of (inodes t) p nm i) \<longleftrightarrow> (\<exists>b. Some (q @ [nm], b) \<in> set ps)"
proof
  assume "\<exists>i. child_of (inodes t) p nm i"
  then obtain i where i: "child_of (inodes t) p nm i" ..
  then have "valid t i" using inodes_None [of t i] by (auto simp: child_of_def)
  then show "\<exists>b. Some (q @ [nm], b) \<in> set ps" using loaded_node [OF l path_child [OF p i]] by blast
next
  obtain ch ss where c: "tree_core t ch {} {} ss" using l by (auto simp: loaded_def tree_inv_def)
  assume "\<exists>b. Some (q @ [nm], b) \<in> set ps"
  then obtain i where "path_to (inodes t) i (q @ [nm])" using loaded_place [OF l] by blast
  then obtain p' where "path_to (inodes t) p' q" "child_of (inodes t) p' nm i" by (rule path_to_snocE) auto
  then show "\<exists>i. child_of (inodes t) p nm i" using path_unique [OF c _ p] by blast
qed

section \<open>The loop\<close>

lemma insert_dropped: "dropped (snd (tree_insert t p nm a)) = dropped t"
proof -
  have i: "dropped (snd (intern_name u x)) = dropped u" for u x by (simp add: intern_name_def split: prod.split)
  have f: "dropped (snd (intern_folded u x k)) = dropped u" for u x k using i by (simp add: intern_folded_def split: prod.split)
  have a: "dropped (snd (alloc_node u)) = dropped u" for u by (simp add: alloc_node_def Let_def)
  have "dropped (link_child u x y) = dropped u" for u x y by (simp add: link_child_def set_node_def Let_def)
  then show ?thesis using i [of t nm] f [of "snd (intern_name t nm)" nm "fst (intern_name t nm)"]
      a [of "snd (intern_folded (snd (intern_name t nm)) nm (fst (intern_name t nm)))"]
    by (simp add: tree_insert_def set_node_def split_beta Let_def)
qed

lemma load_step:
  assumes l: "loaded t ids ps" and k: "unat (e_parent e) < length ps" and room: "room t (e_name e)"
  shows "\<exists>t' i. loaded t' (ids @ [i]) (ps @ [entry_place ps e]) \<and>
    load_loop t ids (e # es) = load_loop t' (ids @ [i]) es \<and> (\<forall>nms. room_for t (e_name e # nms) \<longrightarrow> room_for t' nms)"
proof -
  let ?p = "ids ! unat (e_parent e)" let ?nm = "e_name e"
  have len: "length ids = length ps" and inv: "tree_inv t" using l by (auto simp: loaded_def dest: list_all2_lengthD)
  have ap: "at_place (inodes t) ?p (ps ! unat (e_parent e))" using l k by (auto simp: loaded_def list_all2_conv_all_nth)
  have ok: "\<not> unat (e_parent e) > length ids - 1" using k len by simp
  show ?thesis
  proof (cases "ps ! unat (e_parent e)")
    case None
    then show ?thesis using ok ap loaded_skip [OF l refl inv refl]
      by (intro exI [of _ "t\<lparr>dropped := dropped t + 1\<rparr>"] exI [of _ kInvalidNode]) (simp add: at_place_def entry_place_def room_for_same)
  next
    case (Some x)
    obtain q a where x: "x = (q, a)" by (cases x)
    then obtain pp pn where p: "path_to (inodes t) ?p q" "inodes t ?p = Some (pp, pn, a)" using ap Some by (auto simp: at_place_def)
    have pi: "?p \<noteq> kInvalidNode" using p(2) no_invalid [OF inv] inodes_None by force
    obtain r t1 where r: "tree_insert t ?p ?nm (e_attr e) = (r, t1)" by (cases "tree_insert t ?p ?nm (e_attr e)")
    have d: "dropped t1 = dropped t" using insert_dropped [of t ?p ?nm "e_attr e"] r by simp
    obtain ch ss where c: "tree_core t ch {} {} ss" using inv by (auto simp: tree_inv_def)
    have sp: "tree_inv t1" "spec_insert (inodes t) ?p ?nm (e_attr e) r (inodes t1)" using insert_refines [OF c room r] by auto
    have dir: "dir_in (inodes t) ?p \<longleftrightarrow> kind a = Directory" using p(2) by (auto simp: dir_in_def)
    show ?thesis
    proof (cases "kind a = Directory \<and> valid_name ?nm \<and> (\<forall>b. Some (q @ [?nm], b) \<notin> set ps)")
      case True
      then obtain i where i: "r = ok i" "inodes t i = None" "inodes t1 = (inodes t)(i \<mapsto> (?p, ?nm, e_attr e))"
        using sp(2) p(2) dir loaded_taken [OF l p(1), of ?nm] by (auto simp: spec_insert_def split: if_splits)
      have "i \<noteq> root" using i(2) core_slots [OF c] unfolding slots_ok_def inodes_None by blast
      then have "loaded t1 (ids @ [i]) (ps @ [entry_place ps e])"
        using loaded_add [OF l i(2,3) _ p(1) sp(1) d] True Some x by (simp add: entry_place_def)
      then show ?thesis using ok pi r i(1) room_for_insert [OF _ r] by (intro exI [of _ t1] exI [of _ i]) simp
    next
      case False
      then have f: "isl r" "inodes t1 = inodes t"
        using sp(2) p(2) dir loaded_taken [OF l p(1), of ?nm] by (auto simp: spec_insert_def split: if_splits)
      have "loaded (t1\<lparr>dropped := dropped t1 + 1\<rparr>) (ids @ [kInvalidNode]) (ps @ [entry_place ps e])"
        using loaded_skip [OF l f(2) sp(1) d] False Some x by (auto simp: entry_place_def)
      then show ?thesis using ok pi r f(1) room_for_insert [OF _ r]
        by (intro exI [of _ "t1\<lparr>dropped := dropped t1 + 1\<rparr>"] exI [of _ kInvalidNode]) (auto simp: isl_def)
    qed
  qed
qed

lemma load_loop_places:
  "loaded t ids ps \<Longrightarrow> ps \<noteq> [] \<Longrightarrow> room_for t (map e_name es) \<Longrightarrow>
    (\<forall>k < length es. unat (e_parent (es ! k)) \<le> length ps - 1 + k) \<Longrightarrow>
    \<exists>t' ids'. load_loop t ids es = (ok (), t') \<and> loaded t' ids' (placed_on ps es)"
proof (induction es arbitrary: t ids ps)
  case Nil
  then show ?case by (auto simp: placed_on_def)
next
  case (Cons e es)
  have k: "unat (e_parent e) < length ps" using Cons.prems(2,4) by (cases ps) (auto dest!: spec [of _ 0])
  have room: "room t (e_name e)" using Cons.prems(3) room_for_Cons by auto
  obtain t' i where s: "loaded t' (ids @ [i]) (ps @ [entry_place ps e])" "load_loop t ids (e # es) = load_loop t' (ids @ [i]) es"
    "room_for t' (map e_name es)"
    using load_step [OF Cons.prems(1) k room, of es] Cons.prems(3) by auto
  have "\<forall>k < length es. unat (e_parent (es ! k)) \<le> length (ps @ [entry_place ps e]) - 1 + k"
  proof (intro allI impI)
    fix k assume "k < length es"
    then show "unat (e_parent (es ! k)) \<le> length (ps @ [entry_place ps e]) - 1 + k"
      using Cons.prems(2) Cons.prems(4) [rule_format, of "Suc k"] by (cases ps) auto
  qed
  from Cons.IH [OF s(1) _ s(3) this] show ?case using s(2) by (simp add: placed_on_def)
qed

lemma load_loop_verdict:
  "ids \<noteq> [] \<Longrightarrow> fst (load_loop t ids es) =
    (if \<forall>k < length es. unat (e_parent (es ! k)) \<le> length ids - 1 + k then ok () else fail Corrupt)"
proof (induction es arbitrary: t ids)
  case (Cons e es)
  have all: "(\<forall>k < length (e # es). unat (e_parent ((e # es) ! k)) \<le> length ids - 1 + k) \<longleftrightarrow>
      unat (e_parent e) \<le> length ids - 1 \<and> (\<forall>k < length es. unat (e_parent (es ! k)) \<le> length ids + k)"
    using Cons.prems by (cases ids) (auto simp: All_less_Suc2)
  show ?case using Cons.IH [of "ids @ [_]"] unfolding all by (auto simp: Let_def split: prod.split sum.split)
qed simp

lemma load_snapshot_ok:
  assumes inv: "tree_inv t" and first: "parents_first es"
    and fit: "2 * length es + 1 < 2 ^ 32" "list_all (\<lambda>e. length (e_name e) < 2 ^ 32 \<and> length (casefold (e_name e)) < 2 ^ 32) es"
  shows "\<exists>t'. load_snapshot t es = (ok (), t') \<and> tree_inv t' \<and> dropped t' = lost_count (placed es) \<and>
    (\<forall>q a. dotdot \<notin> set (components q) \<longrightarrow>
      (Some (components q, a) \<in> set (placed es) \<longleftrightarrow> (\<exists>i. lookup t' q Exact = Some i \<and> attr (node t' i) = a)))"
proof -
  let ?t = "emptied (length es + 1) t"
  have room: "room_for ?t (map e_name es)"
    using emptied_tree(4,5) [OF inv, of "length es + 1"] fit by (auto simp: room_for_def list_all_iff)
  obtain t' ids where l: "load_loop ?t [root] es = (ok (), t')" "loaded t' ids (placed es)"
    using load_loop_places [OF loaded_start [OF inv] _ room] first by (auto simp: parents_first_def placed_def)
  obtain ch ss where c: "tree_core t' ch {} {} ss" using l(2) by (auto simp: loaded_def tree_inv_def)
  have v: "valid t' i" if p: "path_to (inodes t') i ps" for i ps
  proof (cases ps rule: rev_cases)
    case Nil
    then show ?thesis using p core_slots [OF c] by (auto simp: slots_ok_def elim: path_to_NilE)
  next
    case (snoc xs x)
    then show ?thesis using p by (auto simp: child_of_inodes child_named_def elim!: path_to_snocE)
  qed
  have "Some (components q, a) \<in> set (placed es) \<longleftrightarrow> (\<exists>i. lookup t' q Exact = Some i \<and> attr (node t' i) = a)"
    if q: "dotdot \<notin> set (components q)" for q a
  proof -
    have "lookup t' q Exact = Some i \<longleftrightarrow> path_to (inodes t') i (components q)" for i
      using resolve_path [OF c q] by (simp add: lookup_resolve)
    then show ?thesis using v loaded_node [OF l(2)] loaded_place [OF l(2)] path_unique [OF c] by metis
  qed
  moreover have "load_snapshot t es = (ok (), t')" using l(1) by (simp add: load_snapshot_def emptied_def Let_def)
  ultimately show ?thesis using l(2) by (auto simp: loaded_def)
qed

text \<open>
  Loading a snapshot.  It succeeds exactly when every parent comes before its children (else it is
  refused as \<open>Corrupt\<close>), and then the tree
  is the snapshot: a path leads to a node with certain attributes exactly when some entry has that place
  and those attributes (or it is the root).  Entries the tree cannot hold, because of their name, a parent that is
  no directory or a place that is taken, are left out together with everything below them; they are
  counted, and cost no other entry its place.  The invariant of the tree holds again, whatever was in it.
\<close>

theorem load_snapshot_places:
  assumes "tree_inv t" and "2 * length es + 1 < 2 ^ 32"
    and "list_all (\<lambda>e. length (e_name e) < 2 ^ 32 \<and> length (casefold (e_name e)) < 2 ^ 32) es"
    and "dotdot \<notin> set (components q)"
  shows "if \<not> parents_first es then fst (load_snapshot t es) = fail Corrupt
    else \<exists>t'. load_snapshot t es = (ok (), t') \<and> tree_inv t' \<and> dropped t' = lost_count (placed es) \<and>
      (Some (components q, a) \<in> set (placed es) \<longleftrightarrow> (\<exists>i. lookup t' q Exact = Some i \<and> attr (node t' i) = a))"
proof (cases "parents_first es")
  case False
  then show ?thesis using load_loop_verdict [of "[root]" _ es] by (simp add: load_snapshot_def parents_first_def Let_def)
next
  case True
  from load_snapshot_ok [OF assms(1) True assms(2,3)] assms(4) True show ?thesis by auto
qed

theorem load_snapshot_places_witness:
  "let e = \<lparr>e_parent = 0, e_name = lit ''a'', e_attr = default_attributes\<rparr>
   in \<exists>t'. load_snapshot MetadataTree_init [e] = (ok (), t') \<and> tree_inv t' \<and>
     (\<exists>i. lookup t' (lit ''a'') Exact = Some i \<and> attr (node t' i) = default_attributes)"
proof -
  let ?e = "\<lparr>e_parent = 0, e_name = lit ''a'', e_attr = default_attributes\<rparr>"
  have c: "components (lit ''a'') = [lit ''a'']" by code_simp
  have "parents_first [?e]" by (simp add: parents_first_def)
  moreover have "Some (components (lit ''a''), default_attributes) \<in> set (placed [?e])"
    unfolding c by (simp add: placed_def placed_on_def entry_place_def kImplicitDirectory_def) (simp add: valid_name_def is_path_separator_def)
  ultimately show ?thesis
    using load_snapshot_places [OF tree_invI [OF MetadataTree_init_core], of "[?e]" "lit ''a''" default_attributes] c
    by (auto simp: casefold_lit_a)
qed

end
