(* ===== verification/ServerProps.thy ===== *)
theory ServerProps
  imports Server
begin

text \<open>
  The session guarantees of the server.  The session loop together with everything the other threads
  may do to the state it shares is a step relation; the invariants of its reachable states are
  proved by rule induction.
\<close>

section \<open>The session as a state machine\<close>

fun next_state :: "'w serve_next \<Rightarrow> 'w ServeState" where
  "next_state (Again st) = st"
| "next_state (Leave st) = st"

text \<open>
  Between two iterations other threads may stop the server, bump the generation, add or remove other
  peers, and broadcast to this session when it is registered.
\<close>

inductive serve_reach :: "('w, 'h) ServerEnv \<Rightarrow> nat \<Rightarrow> int \<Rightarrow> 'w ServeState \<Rightarrow> 'w serve_next \<Rightarrow> bool"
  for env me limit st0 where
  reach_start: "serve_reach env me limit st0 (Again st0)"
| reach_step: "serve_reach env me limit st0 (Again st) \<Longrightarrow> serve_step env me limit st = Some n \<Longrightarrow>
    serve_reach env me limit st0 n"
| reach_stop: "serve_reach env me limit st0 (Again st) \<Longrightarrow> serve_reach env me limit st0 (Again (st\<lparr>sv_stopping := True\<rparr>))"
| reach_generation: "serve_reach env me limit st0 (Again st) \<Longrightarrow>
    serve_reach env me limit st0 (Again (st\<lparr>sv_conn := (sv_conn st)\<lparr>cn_generation := g\<rparr>\<rparr>))"
| reach_peers: "serve_reach env me limit st0 (Again st) \<Longrightarrow> me \<in> set ps \<longleftrightarrow> me \<in> set (sv_peers st) \<Longrightarrow>
    serve_reach env me limit st0 (Again (st\<lparr>sv_peers := ps\<rparr>))"
| reach_broadcast: "serve_reach env me limit st0 (Again st) \<Longrightarrow> me \<in> set (sv_peers st) \<Longrightarrow>
    serve_reach env me limit st0
      (Again (st\<lparr>sv_conn := (sv_conn st)\<lparr>cn_chan := snd (send_raw frame (cn_chan (sv_conn st)))\<rparr>\<rparr>))"

section \<open>What the operations leave alone\<close>

lemma count_sent_keeps [simp]:
  "max_payload (snd (count_sent b ch)) = max_payload ch" "frame_timeout (snd (count_sent b ch)) = frame_timeout ch"
  by (auto simp: count_sent_def split: prod.split sum.split)

lemma send_keeps [simp]:
  "max_payload (snd (send t rid p fl ch)) = max_payload ch" "max_payload (snd (send_raw b ch)) = max_payload ch"
  "max_payload (snd (send_with t rid body ch)) = max_payload ch"
  by (simp_all add: send_def send_raw_def send_with_def Let_def)

lemma reply_keeps [simp]:
  "cn_world (snd (reply t rid body c)) = cn_world c" "cn_nonces (snd (reply t rid body c)) = cn_nonces c"
  "max_payload (cn_chan (snd (reply t rid body c))) = max_payload (cn_chan c)"
  "cn_world (snd (send_error rid e dt c)) = cn_world c" "cn_nonces (snd (send_error rid e dt c)) = cn_nonces c"
  "max_payload (cn_chan (snd (send_error rid e dt c))) = max_payload (cn_chan c)"
  using send_keeps(3) [of t rid body "cn_chan c"]
    send_keeps(3) [of MsgError rid "write_error \<lparr>code = Errc_code e, detail = dt\<rparr>" "cn_chan c"]
  by (simp_all add: reply_def send_error_def split_beta)

lemma receive_for_keeps [simp]: "max_payload (snd (receive_for t ch)) = max_payload ch"
  by (auto simp: receive_for_def receive_def Let_def split: prod.split sum.split bool.split)

section \<open>Before authentication\<close>

text \<open>What a session that has not authenticated has done to the world: nothing.\<close>

definition inert :: "'w \<Rightarrow> nat \<Rightarrow> 'w ServeState \<Rightarrow> bool" where
  "inert w me st \<longleftrightarrow> cn_world (sv_conn st) = w \<and> me \<notin> set (sv_peers st) \<and> \<not> registered (sv_sess st) \<and>
     max_payload (cn_chan (sv_conn st)) = kPreAuthMaxPayload"

lemma handle_hello_inert:
  assumes "so_token (env_opts env) \<noteq> []" and "handle_hello env f s c = (r, s', c')"
  shows "authed s' = authed s" "registered s' = registered s" "cn_world c' = cn_world c"
    "max_payload (cn_chan c') = max_payload (cn_chan c)"
proof -
  have "authed s' = authed s \<and> registered s' = registered s \<and> cn_world c' = cn_world c \<and>
      max_payload (cn_chan c') = max_payload (cn_chan c)"
    using assms by (simp add: handle_hello_def refuse_def Let_def split_beta split: sum.splits if_splits) auto
  then show "authed s' = authed s" "registered s' = registered s" "cn_world c' = cn_world c"
    "max_payload (cn_chan c') = max_payload (cn_chan c)" by auto
qed

lemma handle_auth_inert:
  assumes "handle_auth env f s c = (r, s', c')"
  shows "registered s' = registered s" "cn_world c' = cn_world c" "max_payload (cn_chan c') = max_payload (cn_chan c)"
proof -
  have "registered s' = registered s \<and> cn_world c' = cn_world c \<and> max_payload (cn_chan c') = max_payload (cn_chan c)"
    using assms by (simp add: handle_auth_def refuse_def Let_def split_beta split: sum.splits if_splits) auto
  then show "registered s' = registered s" "cn_world c' = cn_world c"
    "max_payload (cn_chan c') = max_payload (cn_chan c)" by auto
qed

lemma handle_unauthed:
  assumes "so_token (env_opts env) \<noteq> []" and "\<not> authed s" and "handle env f s c = Some (r, s', c')"
  shows "registered s' = registered s \<and> cn_world c' = cn_world c \<and> max_payload (cn_chan c') = max_payload (cn_chan c)"
proof -
  consider "ftype (fr_header f) = MsgHello" | "ftype (fr_header f) = MsgAuth"
    | "ftype (fr_header f) \<noteq> MsgHello" "ftype (fr_header f) \<noteq> MsgAuth" by blast
  then show ?thesis
  proof cases
    case 1
    then show ?thesis using handle_hello_inert [OF assms(1)] assms(3) by (simp add: handle_def)
  next
    case 2
    then have "handle_auth env f s c = (r, s', c')" using assms(3) by (simp add: handle_def)
    then show ?thesis using handle_auth_inert [of env f s c r s' c'] by blast
  next
    case 3
    then show ?thesis using assms(2,3) by (auto simp: handle_def refuse_def)
  qed
qed

lemma after_handle_inert:
  assumes "inert w me st" and "\<not> authed (sv_sess (next_state (after_handle me b st)))"
  shows "inert w me (next_state (after_handle me b st))"
  using assms by (auto simp: after_handle_def add_peer_def Let_def split: if_splits)

lemma on_poll_timeout_inert:
  assumes "inert w me st"
  shows "inert w me (next_state (on_poll_timeout limit st))"
  using assms by (auto simp: on_poll_timeout_def inert_def Let_def split: prod.split)

lemma serve_step_inert:
  assumes tok: "so_token (env_opts env) \<noteq> []" and inert: "inert w me st" and un: "\<not> authed (sv_sess st)"
    and step: "serve_step env me limit st = Some n" and un': "\<not> authed (sv_sess (next_state n))"
  shows "inert w me (next_state n)"
proof -
  obtain f ch where rf: "receive_for 200 (cn_chan (sv_conn st)) = (f, ch)" by (cases "receive_for 200 (cn_chan (sv_conn st))")
  let ?st1 = "st\<lparr>sv_conn := (sv_conn st)\<lparr>cn_chan := ch\<rparr>\<rparr>"
  have mp: "max_payload ch = max_payload (cn_chan (sv_conn st))" using receive_for_keeps [of 200] rf by (metis snd_conv)
  then have i1: "inert w me ?st1" using inert by (simp add: inert_def)
  show ?thesis
  proof (cases f)
    case (Inl e)
    then show ?thesis using step rf i1 on_poll_timeout_inert [OF i1] by (auto simp: serve_step_def Let_def split: if_splits)
  next
    case (Inr fr)
    then obtain r s c where h: "handle env fr (sv_sess st) (sv_conn ?st1) = Some (r, s, c)"
      and n: "n = (if isl r then Leave (?st1\<lparr>sv_sess := s, sv_conn := c\<rparr>)
                   else after_handle me (authed (sv_sess st)) (?st1\<lparr>sv_sess := s, sv_conn := c\<rparr>))"
      using step rf by (auto simp: serve_step_def Let_def split: option.splits)
    have "inert w me (?st1\<lparr>sv_sess := s, sv_conn := c\<rparr>)"
      using handle_unauthed [OF tok un h] i1 by (simp add: inert_def)
    then show ?thesis using n un' after_handle_inert by (cases "isl r") auto
  qed
qed

lemma authed_stays:
  assumes tok: "so_token (env_opts env) \<noteq> []" and step: "serve_step env me limit st = Some n"
    and "authed (sv_sess st)"
  shows "authed (sv_sess (next_state n))"
proof -
  have h: "authed s'" if "handle env f s c = Some (r, s', c')" "authed s" for f s c r s' c'
    using that handle_hello_inert(1) [OF tok, of f s c r s' c']
    by (auto simp: handle_def handle_auth_def refuse_def keep_session_def Let_def split_beta split: if_splits sum.splits)
  have a: "authed (sv_sess (next_state (after_handle me b st)))" if "authed (sv_sess st)" for b and st :: "'a ServeState"
    using that by (auto simp: after_handle_def add_peer_def Let_def)
  show ?thesis
    using step assms(3) h a by (auto simp: serve_step_def on_poll_timeout_def Let_def split: prod.splits sum.splits option.splits)
qed


section \<open>Authentication\<close>

text \<open>A session that has greeted uses a nonce of its own that it has drawn from the random source.\<close>

definition nonce_fresh :: "('w, 'h) ServerEnv \<Rightarrow> 'w ServeState \<Rightarrow> bool" where
  "nonce_fresh env st \<longleftrightarrow> (greeted (hs (sv_sess st)) \<longrightarrow>
     client_nonce (hs (sv_sess st)) \<noteq> [] \<and> server_nonce (hs (sv_sess st)) \<noteq> [] \<and>
     (\<exists>k < cn_nonces (sv_conn st). server_nonce (hs (sv_sess st)) = generate_auth_nonce (os_getrandom (env_host env) k)))"

lemma nonce_fresh_cong:
  "hs (sv_sess st') = hs (sv_sess st) \<Longrightarrow> cn_nonces (sv_conn st') = cn_nonces (sv_conn st) \<Longrightarrow>
    nonce_fresh env st' = nonce_fresh env st"
  by (simp add: nonce_fresh_def)

lemma handle_hello_fresh:
  assumes "so_token (env_opts env) \<noteq> []" and "handle_hello env f s c = (Inr u, s', c')"
  shows "nonce_fresh env (st\<lparr>sv_sess := s', sv_conn := c'\<rparr>)"
  using assms
  by (simp add: handle_hello_def refuse_def Let_def split_beta nonce_fresh_def split: sum.splits if_splits) auto

lemma handle_auth_hs:
  "handle_auth env f s c = (r, s', c') \<Longrightarrow> hs s' = hs s \<and> cn_nonces c' = cn_nonces c"
  by (simp add: handle_auth_def refuse_def Let_def split_beta split: sum.splits if_splits) auto

lemma handle_unauthed_fresh:
  assumes "so_token (env_opts env) \<noteq> []" and "\<not> authed (sv_sess st)"
    and "handle env f (sv_sess st) (sv_conn st) = Some (Inr u, s', c')" and "nonce_fresh env st"
  shows "nonce_fresh env (st\<lparr>sv_sess := s', sv_conn := c'\<rparr>)"
proof -
  consider "ftype (fr_header f) = MsgHello" | "ftype (fr_header f) = MsgAuth"
    | "ftype (fr_header f) \<noteq> MsgHello" "ftype (fr_header f) \<noteq> MsgAuth" by blast
  then show ?thesis
  proof cases
    case 1
    then show ?thesis using handle_hello_fresh [OF assms(1)] assms(3) by (simp add: handle_def)
  next
    case 2
    then have "handle_auth env f (sv_sess st) (sv_conn st) = (Inr u, s', c')" using assms(3) by (simp add: handle_def)
    from handle_auth_hs [OF this] show ?thesis using assms(4) by (simp add: nonce_fresh_def)
  next
    case 3
    then show ?thesis using assms(2,3) by (auto simp: handle_def refuse_def)
  qed
qed

lemma after_handle_fresh:
  "nonce_fresh env st \<Longrightarrow> nonce_fresh env (next_state (after_handle me b st))"
  by (auto simp: after_handle_def add_peer_def nonce_fresh_def Let_def)

lemma serve_step_fresh:
  assumes tok: "so_token (env_opts env) \<noteq> []" and un: "\<not> authed (sv_sess st)" and fr: "nonce_fresh env st"
    and step: "serve_step env me limit st = Some (Again st')"
  shows "nonce_fresh env st'"
proof -
  obtain f ch where rf: "receive_for 200 (cn_chan (sv_conn st)) = (f, ch)" by (cases "receive_for 200 (cn_chan (sv_conn st))")
  let ?st1 = "st\<lparr>sv_conn := (sv_conn st)\<lparr>cn_chan := ch\<rparr>\<rparr>"
  have f1: "nonce_fresh env ?st1" using fr by (simp add: nonce_fresh_def)
  show ?thesis
  proof (cases f)
    case (Inl e)
    then have "Again st' = on_poll_timeout limit ?st1"
      using step rf by (auto simp: serve_step_def Let_def split: if_splits)
    then show ?thesis using f1 by (auto simp: on_poll_timeout_def nonce_fresh_def Let_def split: if_splits prod.splits)
  next
    case (Inr frm)
    then obtain r s c where h: "handle env frm (sv_sess ?st1) (sv_conn ?st1) = Some (r, s, c)"
      and n: "\<not> isl r" "Again st' = after_handle me (authed (sv_sess st)) (?st1\<lparr>sv_sess := s, sv_conn := c\<rparr>)"
      using step rf by (auto simp: serve_step_def Let_def split: option.splits if_splits)
    from n(1) obtain u where "r = Inr u" by (cases r) auto
    then have "nonce_fresh env (?st1\<lparr>sv_sess := s, sv_conn := c\<rparr>)"
      using handle_unauthed_fresh [OF tok _ _ f1] h un by simp
    then show ?thesis using after_handle_fresh n(2) by (metis next_state.simps(1))
  qed
qed

lemma reach_fresh:
  assumes "so_token (env_opts env) \<noteq> []" and "serve_start env me c peers False = Some (st0, limit)"
    and "serve_reach env me limit st0 n" and "n = Again st" and "\<not> authed (sv_sess st)"
  shows "nonce_fresh env st"
  using assms(3-5)
proof (induction arbitrary: st rule: serve_reach.induct)
  case reach_start
  then show ?case using assms(1,2)
    by (auto simp: serve_start_def nonce_fresh_def Handshake_init_def Let_def split: prod.splits)
next
  case (reach_step st1 n)
  have "\<not> authed (sv_sess st1)" using authed_stays [OF assms(1) reach_step.hyps(2)] reach_step.prems by auto
  then show ?case using serve_step_fresh [OF assms(1)] reach_step by blast
qed (auto simp: nonce_fresh_def)

text \<open>
  C2. Authentication needs the proof.  When an iteration of a reachable session turns it authenticated, it
  has received an \<open>Auth\<close> frame whose proof is the keyed hash of the server's token and the two nonces of
  this very session, for the client direction; the server's nonce is one it drew from the random
  source for this session, and neither nonce is empty.
\<close>

theorem authentication_needs_proof:
  assumes "so_token (env_opts env) \<noteq> []" and "serve_start env me c peers False = Some (st0, limit)"
    and "serve_reach env me limit st0 (Again st)" and "\<not> authed (sv_sess st)"
    and "serve_step env me limit st = Some n" and "authed (sv_sess (next_state n))"
  shows "\<exists>f ch msg k. receive_for 200 (cn_chan (sv_conn st)) = (ok f, ch) \<and> ftype (fr_header f) = MsgAuth \<and>
    fst (read_hello (Reader_init (fr_payload f))) = ok msg \<and>
    proof_of msg = auth_proof (env_api env) (so_token (env_opts env))
      (client_nonce (hs (sv_sess st))) (server_nonce (hs (sv_sess st))) False \<and>
    client_nonce (hs (sv_sess st)) \<noteq> [] \<and> server_nonce (hs (sv_sess st)) \<noteq> [] \<and>
    server_nonce (hs (sv_sess st)) = generate_auth_nonce (os_getrandom (env_host env) k)"
proof -
  obtain f ch where rf: "receive_for 200 (cn_chan (sv_conn st)) = (f, ch)" by (cases "receive_for 200 (cn_chan (sv_conn st))")
  let ?st1 = "st\<lparr>sv_conn := (sv_conn st)\<lparr>cn_chan := ch\<rparr>\<rparr>"
  obtain fr where f: "f = Inr fr"
  proof (cases f)
    case (Inl e)
    then have "authed (sv_sess (next_state n)) = authed (sv_sess st)"
      using assms(5) rf by (auto simp: serve_step_def on_poll_timeout_def Let_def split: if_splits prod.splits)
    then show ?thesis using assms(4,6) by simp
  qed blast
  obtain r s c1 where h: "handle env fr (sv_sess st) (sv_conn ?st1) = Some (r, s, c1)" "authed s"
    using assms(5,6) rf f
    by (auto simp: serve_step_def after_handle_def add_peer_def Let_def split: option.splits if_splits)
  have nh: "ftype (fr_header fr) = MsgAuth"
  proof (rule ccontr)
    assume na: "ftype (fr_header fr) \<noteq> MsgAuth"
    show False
    proof (cases "ftype (fr_header fr) = MsgHello")
      case True
      then have "handle_hello env fr (sv_sess st) (sv_conn ?st1) = (r, s, c1)" using h(1) by (simp add: handle_def)
      from handle_hello_inert(1) [OF assms(1) this] show False using h(2) assms(4) by simp
    next
      case False
      then have "s = sv_sess st" using h(1) na assms(4) by (auto simp: handle_def refuse_def)
      then show False using h(2) assms(4) by simp
    qed
  qed
  then have "handle_auth env fr (sv_sess st) (sv_conn ?st1) = (r, s, c1)" using h by (simp add: handle_def)
  then obtain msg where m: "greeted (hs (sv_sess st))" "fst (read_hello (Reader_init (fr_payload fr))) = ok msg"
    "constant_time_equal (proof_of msg) (auth_proof (env_api env) (so_token (env_opts env))
      (client_nonce (hs (sv_sess st))) (server_nonce (hs (sv_sess st))) False)"
    using h(2) assms(4) by (auto simp: handle_auth_def refuse_def Let_def split: sum.splits if_splits)
  have "nonce_fresh env st" using reach_fresh [OF assms(1,2,3) refl assms(4)] .
  then show ?thesis using rf f nh m by (auto simp: nonce_fresh_def constant_time_equal_def ct_loop_zero)
qed

section \<open>A peer with the token gets in\<close>

lemma hello_payload:
  assumes "hello_fits h"
  shows "write_hello h out = out @ write_hello h []" and "fst (read_hello (Reader_init (write_hello h []))) = ok h"
proof -
  obtain bs where bs: "\<forall>out. write_hello h out = out @ bs"
    "\<forall>pre rest. read_hello \<lparr>rin = pre @ bs @ rest, rpos = length pre\<rparr> = (ok h, \<lparr>rin = pre @ bs @ rest, rpos = length pre + length bs\<rparr>)"
    using carries_hello [OF assms] by (auto simp: carries_def)
  then show "write_hello h out = out @ write_hello h []" by simp
  show "fst (read_hello (Reader_init (write_hello h []))) = ok h"
    using bs(1) bs(2) [rule_format, of "[]" "[]"] by (simp add: Reader_init_def)
qed

text \<open>The frames of the handshake.\<close>

definition hello_frame :: "MsgType \<Rightarrow> u64 \<Rightarrow> Hello \<Rightarrow> OutFrame" where
  "hello_frame t rid h = \<lparr>of_type = t, of_id = rid, of_flags = 0, of_payload = write_hello h []\<rparr>"

definition ok_frame :: "u64 \<Rightarrow> OutFrame" where
  "ok_frame rid = \<lparr>of_type = MsgOk, of_id = rid, of_flags = 0, of_payload = []\<rparr>"

text \<open>A channel on which the frames \<open>ms\<close> are about to arrive and \<open>n\<close> bytes can be sent.\<close>

definition channel_ready :: "OutFrame list \<Rightarrow> nat \<Rightarrow> FrameChannel \<Rightarrow> bool" where
  "channel_ready ms n ch \<longleftrightarrow> inbox (sock ch) = concat (map of_bytes ms) \<and>
     live (length (concat (map of_bytes ms))) (recvs (sock ch)) \<and> live n (sends (sock ch)) \<and>
     timely (frame_timeout ch) (length ms + length (concat (map of_bytes ms))) (sock ch)"

lemma channel_ready_receive:
  assumes "channel_ready (m # ms) n ch" and "length (of_payload m) \<le> unat kMaxPayload"
    and "length (of_payload m) \<le> unat (max_payload ch)"
  shows "\<exists>ch1. receive_for t ch = (ok \<lparr>fr_header = of_header m, fr_payload = of_payload m\<rparr>, ch1) \<and>
    channel_ready ms n ch1 \<and> max_payload ch1 = max_payload ch \<and> outbox (sock ch1) = outbox (sock ch)"
proof -
  let ?r = "concat (map of_bytes ms)"
  obtain ch1 where "receive_for t ch = (ok \<lparr>fr_header = of_header m, fr_payload = of_payload m\<rparr>, ch1)"
    "inbox (sock ch1) = ?r" "live (length ?r) (recvs (sock ch1))" "timely (frame_timeout ch) (length ms + length ?r) (sock ch1)"
    "max_payload ch1 = max_payload ch" "frame_timeout ch1 = frame_timeout ch" "sends (sock ch1) = sends (sock ch)"
    "outbox (sock ch1) = outbox (sock ch)"
    using receive_for_frame [of m ch "length ms + length ?r" ?r "length ?r" t] assms
    by (auto simp: channel_ready_def add_ac)
  then show ?thesis using assms(1) by (auto simp: channel_ready_def)
qed

lemma channel_ready_send_with:
  assumes "channel_ready ms (kHeaderSize + length p + n) ch" and "length p \<le> unat kMaxPayload" and "\<And>out. body out = out @ p"
  shows "\<exists>ch1. send_with t rid body ch = (ok (), ch1) \<and> channel_ready ms n ch1 \<and> max_payload ch1 = max_payload ch \<and>
    outbox (sock ch1) = outbox (sock ch) @ of_bytes \<lparr>of_type = t, of_id = rid, of_flags = 0, of_payload = p\<rparr>"
  using send_with_live [of p n ch body t rid] assms by (force simp: channel_ready_def timely_def)

lemma channel_ready_send:
  assumes "channel_ready ms (kHeaderSize + length p + n) ch" and "length p \<le> unat kMaxPayload"
  shows "\<exists>ch1. send t rid p 0 ch = (ok (), ch1) \<and> channel_ready ms n ch1 \<and> max_payload ch1 = max_payload ch \<and>
    outbox (sock ch1) = outbox (sock ch) @ of_bytes \<lparr>of_type = t, of_id = rid, of_flags = 0, of_payload = p\<rparr>"
  using send_live [of p n ch t rid 0] assms by (force simp: channel_ready_def timely_def)

text \<open>The answer of the server to a greeting, and the iteration that sends it.\<close>

definition hello_ack :: "('w, 'h) ServerEnv \<Rightarrow> bytes \<Rightarrow> bytes \<Rightarrow> Hello" where
  "hello_ack env cn sn = server_hello env sn (auth_proof (env_api env) (so_token (env_opts env)) cn sn True)"

lemma serve_hello_step:
  assumes tok: "so_token (env_opts env) \<noteq> []"
    and h: "hello_fits h" "protocol_version h = ucast kVersion" "nonce h \<noteq> []" "length (write_hello h []) \<le> unat kPreAuthMaxPayload"
    and sn: "sn = generate_auth_nonce (os_getrandom (env_host env) (cn_nonces (sv_conn st)))" "sn \<noteq> []"
    and ack: "hello_fits (hello_ack env (nonce h) sn)" "length (write_hello (hello_ack env (nonce h) sn) []) \<le> unat kMaxPayload"
    and ch: "channel_ready (hello_frame MsgHello rid h # ms)
      (kHeaderSize + length (write_hello (hello_ack env (nonce h) sn) []) + n) (cn_chan (sv_conn st))"
      "max_payload (cn_chan (sv_conn st)) = kPreAuthMaxPayload"
    and st: "\<not> authed (sv_sess st)"
  shows "\<exists>ch. serve_step env me limit st = Some (Again (st
      \<lparr>sv_sess := (sv_sess st)\<lparr>hs := \<lparr>greeted = True, client_nonce = nonce h, server_nonce = sn\<rparr>\<rparr>,
       sv_conn := (sv_conn st)\<lparr>cn_nonces := cn_nonces (sv_conn st) + 1, cn_chan := ch\<rparr>\<rparr>)) \<and>
    channel_ready ms n ch \<and> max_payload ch = kPreAuthMaxPayload \<and>
    outbox (sock ch) = outbox (sock (cn_chan (sv_conn st))) @ of_bytes (hello_frame MsgHelloAck rid (hello_ack env (nonce h) sn))"
proof -
  have pre: "unat kPreAuthMaxPayload \<le> unat kMaxPayload" by (simp add: kPreAuthMaxPayload_def kMaxPayload_def)
  obtain ch1 where r: "receive_for 200 (cn_chan (sv_conn st)) = (ok \<lparr>fr_header = of_header (hello_frame MsgHello rid h),
      fr_payload = write_hello h []\<rparr>, ch1)" "channel_ready ms (kHeaderSize + length (write_hello (hello_ack env (nonce h) sn) []) + n) ch1"
    "max_payload ch1 = kPreAuthMaxPayload" "outbox (sock ch1) = outbox (sock (cn_chan (sv_conn st)))"
    using channel_ready_receive [OF ch(1), of 200] h(4) ch(2) pre by (auto simp: hello_frame_def)
  obtain ch2 where s: "send_with MsgHelloAck rid (write_hello (hello_ack env (nonce h) sn)) ch1 = (ok (), ch2)"
    "channel_ready ms n ch2" "max_payload ch2 = max_payload ch1"
    "outbox (sock ch2) = outbox (sock ch1) @ of_bytes (hello_frame MsgHelloAck rid (hello_ack env (nonce h) sn))"
    using channel_ready_send_with [OF r(2) ack(2) hello_payload(1) [OF ack(1)]] by (auto simp: hello_frame_def)
  show ?thesis
    using r s tok h(2,3) sn hello_payload(2) [OF h(1)] st
    by (intro exI [of _ ch2])
      (simp add: serve_step_def handle_def handle_hello_def hello_frame_def of_header_def hello_ack_def reply_def
        after_handle_def Let_def)
qed

definition auth_message :: "'h blake3_api \<Rightarrow> bytes \<Rightarrow> bytes \<Rightarrow> bytes \<Rightarrow> Hello" where
  "auth_message api token cn sn = \<lparr>protocol_version = ucast kVersion, capabilities = 0, agent = [], nonce = [],
     proof_of = auth_proof api token cn sn False\<rparr>"

lemma serve_auth_step:
  assumes m: "hello_fits m" "length (write_hello m []) \<le> unat kPreAuthMaxPayload"
      "proof_of m = auth_proof (env_api env) (so_token (env_opts env)) (client_nonce (hs (sv_sess st))) (server_nonce (hs (sv_sess st))) False"
    and ch: "channel_ready (hello_frame MsgAuth rid m # ms) (kHeaderSize + n) (cn_chan (sv_conn st))"
      "max_payload (cn_chan (sv_conn st)) = kPreAuthMaxPayload"
    and st: "\<not> authed (sv_sess st)" "\<not> registered (sv_sess st)" "greeted (hs (sv_sess st))" "\<not> sv_stopping st"
  shows "\<exists>ch. serve_step env me limit st = Some (Again (st
      \<lparr>sv_sess := (sv_sess st)\<lparr>authed := True, registered := True\<rparr>, sv_peers := sv_peers st @ [me],
       sv_conn := (sv_conn st)\<lparr>cn_chan := ch\<rparr>\<rparr>)) \<and>
    max_payload ch = kMaxPayload \<and> frame_timeout ch = 0 \<and>
    outbox (sock ch) = outbox (sock (cn_chan (sv_conn st))) @ of_bytes (ok_frame rid)"
proof -
  have pre: "unat kPreAuthMaxPayload \<le> unat kMaxPayload" by (simp add: kPreAuthMaxPayload_def kMaxPayload_def)
  obtain ch1 where r: "receive_for 200 (cn_chan (sv_conn st)) = (ok \<lparr>fr_header = of_header (hello_frame MsgAuth rid m),
      fr_payload = write_hello m []\<rparr>, ch1)" "channel_ready ms (kHeaderSize + length ([] :: bytes) + n) ch1"
    "outbox (sock ch1) = outbox (sock (cn_chan (sv_conn st)))"
    using channel_ready_receive [OF ch(1), of 200] m(2) ch(2) pre by (auto simp: hello_frame_def)
  obtain ch2 where s: "send MsgOk rid [] 0 ch1 = (ok (), ch2)"
    "outbox (sock ch2) = outbox (sock ch1) @ of_bytes (ok_frame rid)"
    using channel_ready_send [OF r(2)] by (auto simp: ok_frame_def)
  have eq: "constant_time_equal (proof_of m) (auth_proof (env_api env) (so_token (env_opts env))
      (client_nonce (hs (sv_sess st))) (server_nonce (hs (sv_sess st))) False)"
    using m(3) by (simp add: constant_time_equal_def ct_loop_zero)
  show ?thesis
    using r s eq hello_payload(2) [OF m(1)] st
    by (intro exI [of _ "set_receive_limits kMaxPayload 0 ch2"])
      (simp add: serve_step_def handle_def handle_auth_def hello_frame_def of_header_def
        after_handle_def add_peer_def set_receive_limits_def Let_def)
qed

text \<open>
  A peer with the token gets in.  When a greeting with a nonce and then the proof for the two nonces
  arrive on a fresh session, and the random source and the connection work, two iterations of the loop
  answer with the server's own nonce and proof and with \<open>Ok\<close>, and the session is then authenticated,
  registered for invalidations, and open for full-size frames.
\<close>

theorem token_holder_gets_in:
  assumes tok: "so_token (env_opts env) \<noteq> []"
    and start: "serve_start env me c peers False = Some (st0, limit)"
    and h: "hello_fits h" "protocol_version h = ucast kVersion" "nonce h \<noteq> []" "length (write_hello h []) \<le> unat kPreAuthMaxPayload"
    and sn: "sn = generate_auth_nonce (os_getrandom (env_host env) (cn_nonces c))" "sn \<noteq> []"
    and ack: "hello_fits (hello_ack env (nonce h) sn)" "length (write_hello (hello_ack env (nonce h) sn) []) \<le> unat kMaxPayload"
    and m: "m = auth_message (env_api env) (so_token (env_opts env)) (nonce h) sn" "hello_fits m"
      "length (write_hello m []) \<le> unat kPreAuthMaxPayload"
    and ch: "channel_ready [hello_frame MsgHello r1 h, hello_frame MsgAuth r2 m]
      (kHeaderSize + length (write_hello (hello_ack env (nonce h) sn) []) + (kHeaderSize + n)) (cn_chan (sv_conn st0))"
  shows "\<exists>st1 st2. serve_step env me limit st0 = Some (Again st1) \<and> serve_step env me limit st1 = Some (Again st2) \<and>
    authed (sv_sess st2) \<and> registered (sv_sess st2) \<and> me \<in> set (sv_peers st2) \<and>
    max_payload (cn_chan (sv_conn st2)) = kMaxPayload \<and>
    outbox (sock (cn_chan (sv_conn st2))) = outbox (sock (cn_chan c)) @
      of_bytes (hello_frame MsgHelloAck r1 (hello_ack env (nonce h) sn)) @ of_bytes (ok_frame r2)"
proof -
  have st0: "\<not> authed (sv_sess st0)" "\<not> registered (sv_sess st0)" "\<not> sv_stopping st0"
    "cn_nonces (sv_conn st0) = cn_nonces c" "max_payload (cn_chan (sv_conn st0)) = kPreAuthMaxPayload"
    "outbox (sock (cn_chan (sv_conn st0))) = outbox (sock (cn_chan c))"
    using start tok clock_now_fields(4) [of "sock (cn_chan c)"]
    by (auto simp: serve_start_def set_receive_limits_def Let_def split: prod.splits)
  obtain ch1 where s1: "serve_step env me limit st0 = Some (Again (st0
      \<lparr>sv_sess := (sv_sess st0)\<lparr>hs := \<lparr>greeted = True, client_nonce = nonce h, server_nonce = sn\<rparr>\<rparr>,
       sv_conn := (sv_conn st0)\<lparr>cn_nonces := cn_nonces (sv_conn st0) + 1, cn_chan := ch1\<rparr>\<rparr>))"
      (is "_ = Some (Again ?st1)")
    "channel_ready [hello_frame MsgAuth r2 m] (kHeaderSize + n) ch1" "max_payload ch1 = kPreAuthMaxPayload"
    "outbox (sock ch1) = outbox (sock (cn_chan (sv_conn st0))) @ of_bytes (hello_frame MsgHelloAck r1 (hello_ack env (nonce h) sn))"
    using serve_hello_step [OF tok h _ sn(2) ack ch st0(5,1)] sn(1) st0(4) by auto
  obtain ch2 where s2: "serve_step env me limit ?st1 = Some (Again (?st1
      \<lparr>sv_sess := (sv_sess ?st1)\<lparr>authed := True, registered := True\<rparr>, sv_peers := sv_peers ?st1 @ [me],
       sv_conn := (sv_conn ?st1)\<lparr>cn_chan := ch2\<rparr>\<rparr>))"
    "max_payload ch2 = kMaxPayload"
    "outbox (sock ch2) = outbox (sock ch1) @ of_bytes (ok_frame r2)"
    using serve_auth_step [of m env ?st1 r2 "[]" n me limit] m s1(2,3) st0 by (auto simp: auth_message_def)
  show ?thesis using s1(1,4) s2 st0(6) by auto
qed

section \<open>A silent peer is dropped\<close>

text \<open>
  C12. A silent peer is dropped.  While nothing arrives on a session that has not authenticated, every poll
  times out; as soon as a reading of the clock has reached the deadline the loop ends, so the session
  does not hold its slot for ever.  It ends unauthenticated, unregistered and without having touched
  the machine.
\<close>

theorem silent_peer_dropped:
  assumes "\<not> authed (sv_sess st)" and "clock (sock (cn_chan (sv_conn st))) = ts @ [t]" and "limit \<le> t"
    and "selects (sock (cn_chan (sv_conn st))) = replicate (Suc (length ts)) 0 @ rest"
  shows "\<exists>st'. serve_loop (Suc (length ts)) env me limit st = Some st' \<and> \<not> authed (sv_sess st') \<and>
    sv_peers st' = sv_peers st \<and> cn_world (sv_conn st') = cn_world (sv_conn st)"
  using assms
proof (induction ts arbitrary: st)
  case Nil
  then show ?case
    by (auto simp: serve_step_def receive_for_def wait_readable_def wait_read_def on_poll_timeout_def clock_now_def Let_def)
next
  case (Cons u ts)
  let ?c = "sv_conn st"
  let ?s = "(sock (cn_chan ?c))\<lparr>selects := replicate (Suc (length ts)) 0 @ rest\<rparr>"
  let ?st1 = "st\<lparr>sv_conn := ?c\<lparr>cn_chan := (cn_chan ?c)\<lparr>sock := ?s\<rparr>\<rparr>\<rparr>"
  have rf: "receive_for 200 (cn_chan ?c) = (fail Timeout, (cn_chan ?c)\<lparr>sock := ?s\<rparr>)"
    using Cons.prems(4) by (simp add: receive_for_def wait_readable_def wait_read_def)
  have now: "clock_now ?s = (u, ?s\<lparr>clock := ts @ [t]\<rparr>)"
    using Cons.prems(2) by (cases ts) (simp_all add: clock_now_def)
  show ?case
  proof (cases "sv_stopping st \<or> limit \<le> u")
    case True
    then show ?thesis using Cons.prems(1) rf now
      by (auto simp: serve_step_def on_poll_timeout_def Let_def)
  next
    case False
    let ?st2 = "st\<lparr>sv_conn := ?c\<lparr>cn_chan := (cn_chan ?c)\<lparr>sock := ?s\<lparr>clock := ts @ [t]\<rparr>\<rparr>\<rparr>\<rparr>"
    have "serve_step env me limit st = Some (Again ?st2)"
      using False Cons.prems(1) rf now by (simp add: serve_step_def on_poll_timeout_def Let_def)
    then show ?thesis using Cons.IH [of ?st2] Cons.prems by simp
  qed
qed

section \<open>Examples\<close>

definition demo_host :: "unit Host" where
  "demo_host = \<lparr>host_fs = (\<lambda>_. demo_fs), os_fopen = (\<lambda>p m w. (Inl NoSuchFile, w)), os_fseek = (\<lambda>h o1 w. (False, w)),
     os_fread = (\<lambda>h n w. ([], w)), os_fwrite = (\<lambda>h d w. (0, w)), os_fclose = (\<lambda>h w. w),
     os_resize_file = (\<lambda>p n w. (Some NoSuchFile, w)), os_create_directory = (\<lambda>p w. ((False, Some FileExists), w)),
     os_remove = (\<lambda>p w. ((False, None), w)), os_rename = (\<lambda>p q w. (Some NoSuchFile, w)),
     os_read_symlink = (\<lambda>p w. Inl NoSuchFile), os_transient = (\<lambda>p e w. False), os_getrandom = (\<lambda>g k n. replicate n 7)\<rparr>"

definition demo_opts :: ServerOptions where
  "demo_opts = \<lparr>so_root = lit ''/r'', so_watch = True, so_coalescer = \<lparr>max_pending = 8, quiet_period = 1, max_latency = 2\<rparr>,
     so_snapshot_chunk_bytes = 4096, so_one_file_system = True, so_token = lit ''secret'', so_handshake_timeout = 10000,
     so_broadcast_timeout = 5000, so_max_expanded_entries = 100\<rparr>"

definition demo_env :: "(unit, unit) ServerEnv" where
  "demo_env = \<lparr>env_opts = demo_opts, env_host = demo_host,
     env_api = \<lparr>hasher_init = (), hasher_update = (\<lambda>h b. h), hasher_finalize = (\<lambda>h. replicate 32 0)\<rparr>,
     env_agent = lit ''wsldrived'', env_ignore = [], env_watching = False, env_fuel = 2\<rparr>"

definition demo_nonce :: bytes where
  "demo_nonce = generate_auth_nonce (os_getrandom demo_host 0)"

definition demo_hello :: Hello where
  "demo_hello = \<lparr>protocol_version = 4, capabilities = 0, agent = [], nonce = lit ''n'', proof_of = []\<rparr>"

definition demo_auth :: Hello where
  "demo_auth = auth_message (env_api demo_env) (so_token (env_opts demo_env)) (nonce demo_hello) demo_nonce"

definition demo_conn :: "unit Conn" where
  "demo_conn = \<lparr>cn_world = (), cn_chan = FrameChannel_init
     \<lparr>inbox = concat (map of_bytes [hello_frame MsgHello 1 demo_hello, hello_frame MsgAuth 2 demo_auth]), outbox = [],
      sends = replicate 400 (RcN 50), recvs = replicate 300 (RcN 50), selects = replicate 300 1, clock = [0]\<rparr>,
     cn_generation = 1, cn_nonces = 0\<rparr>"

definition demo_start :: "unit ServeState" where
  "demo_start = \<lparr>sv_conn = demo_conn\<lparr>cn_chan := set_receive_limits kPreAuthMaxPayload 10000 (cn_chan demo_conn)\<rparr>,
     sv_sess = \<lparr>authed = False, registered = False, hs = Handshake_init\<rparr>, sv_peers = [], sv_stopping = False\<rparr>"

lemma demo_serve_start: "serve_start demo_env 1 demo_conn [] False = Some (demo_start, 10000000000)"
proof -
  have "clock_now (sock (cn_chan demo_conn)) = (0, sock (cn_chan demo_conn))"
    by (simp add: demo_conn_def FrameChannel_init_def clock_now_def)
  then show ?thesis by (simp add: serve_start_def demo_env_def demo_opts_def demo_start_def)
qed

lemma length_write_hello:
  assumes "length (agent h) < 128" and "length (nonce h) < 128" and "length (proof_of h) < 128"
  shows "length (write_hello h []) = 15 + length (agent h) + length (nonce h) + length (proof_of h)"
proof -
  have v: "length (varint_bytes (of_nat n)) = 1" if "n < 128" for n
    using that by (subst varint_bytes.simps) (simp add: word_le_nat_alt unat_of_nat)
  show ?thesis using assms
    by (simp add: write_hello_def writes_def Writer_fixed Writer_string_eq Writer_raw_def Writer_varint_append v)
qed

lemma length_auth_proof:
  "(\<And>h. length (hasher_finalize api h) = 32) \<Longrightarrow> length (auth_proof api t c s d) = 64"
  by (simp add: auth_proof_def Digest_hex_def Blake3Hasher_finalize_def Let_def length_concat hex_pair_def sum_list_triv comp_def)

lemma demo_nonce_length: "length demo_nonce = 32"
  by code_simp

lemma demo_lengths:
  "length (write_hello demo_hello []) = 16" "length (write_hello demo_auth []) = 79"
  "length (write_hello (hello_ack demo_env (nonce demo_hello) demo_nonce) []) = 120"
  "length demo_nonce = 32" "length (proof_of demo_auth) = 64"
  "length (proof_of (hello_ack demo_env (nonce demo_hello) demo_nonce)) = 64"
proof -
  have p: "length (auth_proof (env_api demo_env) t c s d) = 64" for t c s d
    by (rule length_auth_proof) (simp add: demo_env_def)
  show "length (write_hello demo_hello []) = 16" by (subst length_write_hello) (simp_all add: demo_hello_def)
  show "length (write_hello demo_auth []) = 79" by (subst length_write_hello) (simp_all add: demo_auth_def auth_message_def p)
  show "length (write_hello (hello_ack demo_env (nonce demo_hello) demo_nonce) []) = 120"
  proof -
    have "length (env_agent demo_env) = 9" by (simp add: demo_env_def)
    then show ?thesis by (subst length_write_hello) (simp_all add: hello_ack_def server_hello_def p demo_nonce_length demo_hello_def)
  qed
  show "length demo_nonce = 32" by (rule demo_nonce_length)
  show "length (proof_of demo_auth) = 64" by (simp add: demo_auth_def auth_message_def p)
  show "length (proof_of (hello_ack demo_env (nonce demo_hello) demo_nonce)) = 64" by (simp add: hello_ack_def server_hello_def p)
qed

lemma demo_fits: "hello_fits demo_auth" "hello_fits (hello_ack demo_env (nonce demo_hello) demo_nonce)"
  using demo_lengths(4-6)
  by (simp_all add: hello_fits_def demo_auth_def auth_message_def hello_ack_def server_hello_def demo_env_def)

lemma demo_begins:
  "\<not> authed (sv_sess demo_start)" "\<not> registered (sv_sess demo_start)" "\<not> sv_stopping demo_start"
  "max_payload (cn_chan (sv_conn demo_start)) = kPreAuthMaxPayload" "cn_nonces (sv_conn demo_start) = cn_nonces demo_conn"
  by (simp_all add: demo_start_def set_receive_limits_def)

lemma live_replicate: "0 < k \<Longrightarrow> n \<le> m \<Longrightarrow> live n (replicate m (RcN k))"
proof (induction m arbitrary: n)
  case (Suc m)
  then show ?case by (cases n) auto
qed simp

lemma demo_ready:
  "channel_ready [hello_frame MsgHello 1 demo_hello, hello_frame MsgAuth 2 demo_auth]
     (kHeaderSize + length (write_hello (hello_ack demo_env (nonce demo_hello) demo_nonce) []) + (kHeaderSize + 0)) (cn_chan (sv_conn demo_start))"
  using demo_lengths(1-3)
  by (simp add: channel_ready_def demo_start_def demo_conn_def FrameChannel_init_def set_receive_limits_def timely_def
      of_bytes_def hello_frame_def kHeaderSize_def live_replicate list_all_iff)

lemma demo_token: "so_token (env_opts demo_env) \<noteq> []"
  by (simp add: demo_env_def demo_opts_def)

lemma demo_greeting:
  "hello_fits demo_hello" "protocol_version demo_hello = ucast kVersion" "nonce demo_hello \<noteq> []"
  "length (write_hello demo_hello []) \<le> unat kPreAuthMaxPayload" "length (write_hello demo_auth []) \<le> unat kPreAuthMaxPayload"
  "length (write_hello (hello_ack demo_env (nonce demo_hello) demo_nonce) []) \<le> unat kMaxPayload"
  "demo_nonce = generate_auth_nonce (os_getrandom (env_host demo_env) (cn_nonces demo_conn))"
  "demo_nonce \<noteq> []"
proof -
  show "hello_fits demo_hello" "protocol_version demo_hello = ucast kVersion" "nonce demo_hello \<noteq> []"
    by (simp_all add: hello_fits_def demo_hello_def kVersion_def)
  show "length (write_hello demo_hello []) \<le> unat kPreAuthMaxPayload" "length (write_hello demo_auth []) \<le> unat kPreAuthMaxPayload"
    "length (write_hello (hello_ack demo_env (nonce demo_hello) demo_nonce) []) \<le> unat kMaxPayload"
    unfolding demo_lengths(1-3) by (simp_all add: kPreAuthMaxPayload_def kMaxPayload_def)
  show "demo_nonce = generate_auth_nonce (os_getrandom (env_host demo_env) (cn_nonces demo_conn))"
    by (simp add: demo_nonce_def demo_env_def demo_conn_def)
  show "demo_nonce \<noteq> []" using demo_lengths(4) by auto
qed

theorem token_holder_gets_in_witness:
  "\<exists>st1 st2. serve_step demo_env 1 10000000000 demo_start = Some (Again st1) \<and>
    serve_step demo_env 1 10000000000 st1 = Some (Again st2) \<and>
    authed (sv_sess st2) \<and> registered (sv_sess st2) \<and> 1 \<in> set (sv_peers st2) \<and>
    max_payload (cn_chan (sv_conn st2)) = kMaxPayload \<and>
    outbox (sock (cn_chan (sv_conn st2))) = outbox (sock (cn_chan demo_conn)) @
      of_bytes (hello_frame MsgHelloAck 1 (hello_ack demo_env (nonce demo_hello) demo_nonce)) @ of_bytes (ok_frame 2)"
  by (rule token_holder_gets_in [OF demo_token demo_serve_start demo_greeting(1-4) demo_greeting(7,8)
        demo_fits(2) demo_greeting(6) demo_auth_def demo_fits(1) demo_greeting(5) demo_ready])

theorem authentication_needs_proof_witness:
  "\<exists>st n. serve_reach demo_env 1 10000000000 demo_start (Again st) \<and> serve_step demo_env 1 10000000000 st = Some n \<and>
    (\<exists>f ch msg k. receive_for 200 (cn_chan (sv_conn st)) = (ok f, ch) \<and> ftype (fr_header f) = MsgAuth \<and>
    fst (read_hello (Reader_init (fr_payload f))) = ok msg \<and>
    proof_of msg = auth_proof (env_api demo_env) (so_token (env_opts demo_env))
      (client_nonce (hs (sv_sess st))) (server_nonce (hs (sv_sess st))) False \<and>
    client_nonce (hs (sv_sess st)) \<noteq> [] \<and> server_nonce (hs (sv_sess st)) \<noteq> [] \<and>
    server_nonce (hs (sv_sess st)) = generate_auth_nonce (os_getrandom (env_host demo_env) k))"
proof -
  let ?L = "10000000000 :: int"
  obtain ch1 where s1: "serve_step demo_env 1 ?L demo_start = Some (Again (demo_start
      \<lparr>sv_sess := (sv_sess demo_start)\<lparr>hs := \<lparr>greeted = True, client_nonce = nonce demo_hello, server_nonce = demo_nonce\<rparr>\<rparr>,
       sv_conn := (sv_conn demo_start)\<lparr>cn_nonces := cn_nonces (sv_conn demo_start) + 1, cn_chan := ch1\<rparr>\<rparr>))"
      (is "_ = Some (Again ?st1)")
    "channel_ready [hello_frame MsgAuth 2 demo_auth] (kHeaderSize + 0) ch1" "max_payload ch1 = kPreAuthMaxPayload"
    using serve_hello_step [OF demo_token demo_greeting(1-4) _ demo_greeting(8) demo_fits(2) demo_greeting(6) demo_ready
        demo_begins(4,1)] demo_greeting(7) demo_begins(5) by auto
  obtain ch2 where s2: "serve_step demo_env 1 ?L ?st1 = Some (Again (?st1
      \<lparr>sv_sess := (sv_sess ?st1)\<lparr>authed := True, registered := True\<rparr>, sv_peers := sv_peers ?st1 @ [1],
       sv_conn := (sv_conn ?st1)\<lparr>cn_chan := ch2\<rparr>\<rparr>))"
    using serve_auth_step [OF demo_fits(1) demo_greeting(5), of demo_env ?st1 2 "[]" 0 1 ?L] s1(2,3) demo_begins(1-3)
    by (auto simp: demo_auth_def auth_message_def)
  have "serve_reach demo_env 1 ?L demo_start (Again ?st1)" by (rule reach_step [OF reach_start s1(1)])
  moreover from authentication_needs_proof [OF demo_token demo_serve_start this _ s2] demo_begins(1)
  have "\<exists>f ch msg k. receive_for 200 (cn_chan (sv_conn ?st1)) = (ok f, ch) \<and> ftype (fr_header f) = MsgAuth \<and>
    fst (read_hello (Reader_init (fr_payload f))) = ok msg \<and>
    proof_of msg = auth_proof (env_api demo_env) (so_token (env_opts demo_env))
      (client_nonce (hs (sv_sess ?st1))) (server_nonce (hs (sv_sess ?st1))) False \<and>
    client_nonce (hs (sv_sess ?st1)) \<noteq> [] \<and> server_nonce (hs (sv_sess ?st1)) \<noteq> [] \<and>
    server_nonce (hs (sv_sess ?st1)) = generate_auth_nonce (os_getrandom (env_host demo_env) k)" by simp
  ultimately show ?thesis using s2 by blast
qed


theorem silent_peer_dropped_witness:
  "let st = demo_start\<lparr>sv_conn := demo_conn\<lparr>cn_chan := FrameChannel_init
      \<lparr>inbox = [], outbox = [], sends = [], recvs = [], selects = [0, 0], clock = [5, 20]\<rparr>\<rparr>\<rparr>
   in \<exists>st'. serve_loop (Suc (length [5 :: int])) demo_env 1 10 st = Some st' \<and> \<not> authed (sv_sess st') \<and>
    sv_peers st' = sv_peers st \<and> cn_world (sv_conn st') = cn_world (sv_conn st)"
proof -
  note demo_begins(1)
  then show ?thesis unfolding Let_def
    by (intro silent_peer_dropped [where t = 20 and rest = "[]"]) (simp_all add: FrameChannel_init_def)
qed

end
