(* ===== verification/SnapshotStream.thy ===== *)
theory SnapshotStream
  imports ClientSession SnapshotLoad ServerProps
begin

text \<open>
  A snapshot from end to end: the server walks its tree and cuts the entries into frames
  (\<open>send_snapshot\<close> of \<open>server.cpp\<close>), the client collects them (\<open>reader_loop\<close> and \<open>fetch_snapshot\<close> of
  \<open>client.cpp\<close>) and loads them into its mirror.  The theorem composes the walk, the chunks, the frames on
  the connection, the accumulation and the loading.
\<close>

section \<open>The walk with any callback\<close>

definition with_user :: "(SnapshotEntry \<Rightarrow> 's \<Rightarrow> 's) \<Rightarrow> 's \<Rightarrow> SnapshotEntry list ScanState \<Rightarrow> 's ScanState" where
  "with_user f s st = \<lparr>sc_user = fold f (sc_user st) s, sc_stats = sc_stats st, sc_queue = sc_queue st, sc_next = sc_next st\<rparr>"

lemma with_user_fields [simp]:
  "sc_user (with_user f s st) = fold f (sc_user st) s" "sc_stats (with_user f s st) = sc_stats st"
  "sc_queue (with_user f s st) = sc_queue st" "sc_next (with_user f s st) = sc_next st"
  "with_user f s (st\<lparr>sc_queue := q\<rparr>) = (with_user f s st)\<lparr>sc_queue := q\<rparr>"
  "with_user f s (note_skipped st) = note_skipped (with_user f s st)"
  by (simp_all add: with_user_def note_skipped_def)

lemma with_user_entry:
  "with_user f s (note_entry fs dev p rel k (st\<lparr>sc_user := sc_user st @ [e]\<rparr>)) =
    note_entry fs dev p rel k ((with_user f s st)\<lparr>sc_user := f e (fold f (sc_user st) s)\<rparr>)"
  by (cases k) (simp_all add: note_entry_def with_user_def note_skipped_def Let_def split: option.split)

text \<open>Whatever the callback does, it is called with the entries of the plain walk, in order.\<close>

lemma scan_entry_fold:
  "scan_entry fs f (\<lambda>r d _. skip r d) dev dir nm (with_user f s st) =
    with_user f s (scan_entry fs collect (\<lambda>r d _. skip r d) dev dir nm st)"
  by (simp add: scan_entry_def Let_def with_user_entry split: option.split)

lemma scan_entries_fold:
  "scan_entries fs f (\<lambda>r d _. skip r d) dev dir nms (with_user f s st) =
    with_user f s (scan_entries fs collect (\<lambda>r d _. skip r d) dev dir nms st)"
  by (induction nms arbitrary: st) (simp_all add: scan_entry_fold)

lemma scan_loop_fold:
  "scan_loop fuel fs f (\<lambda>r d _. skip r d) dev (with_user f s st) =
    map_option (with_user f s) (scan_loop fuel fs collect (\<lambda>r d _. skip r d) dev st)"
proof (induction fuel arbitrary: st)
  case 0
  then show ?case by (simp add: scan_loop.simps [of 0] split: list.split)
next
  case (Suc fuel)
  show ?case
  proof (cases "sc_queue st")
    case (Cons dir q)
    let ?st = "\<lambda>st. case directory_names fs (sp_path dir) of None \<Rightarrow> note_skipped (st\<lparr>sc_queue := q\<rparr>)
        | Some nms \<Rightarrow> scan_entries fs collect (\<lambda>r d _. skip r d) dev dir nms (st\<lparr>sc_queue := q\<rparr>)"
    have "(case directory_names fs (sp_path dir) of None \<Rightarrow> note_skipped ((with_user f s st)\<lparr>sc_queue := q\<rparr>)
        | Some nms \<Rightarrow> scan_entries fs f (\<lambda>r d _. skip r d) dev dir nms ((with_user f s st)\<lparr>sc_queue := q\<rparr>)) = with_user f s (?st st)"
      using scan_entries_fold [of fs f skip dev dir _ s "st\<lparr>sc_queue := q\<rparr>"] by (simp split: option.split)
    then show ?thesis using Suc [of "?st st"] Cons
      by (simp add: scan_loop.simps [of "Suc fuel"] Let_def)
  qed (simp add: scan_loop.simps [of "Suc fuel"])
qed

lemma scan_tree_fold:
  "scan_tree fuel fs rt f (\<lambda>r d _. skip r d) ofs s =
    map_option (\<lambda>(r, es). (r, fold f es s)) (scan_tree fuel fs rt collect (\<lambda>r d _. skip r d) ofs [])"
proof -
  have "scan_start rt s = with_user f s (scan_start rt [])" by (simp add: scan_start_def with_user_def)
  then show ?thesis using scan_loop_fold [of fuel fs f skip _ s "scan_start rt []"]
    by (simp add: scan_tree_def Let_def split: option.split)
qed

section \<open>The chunks\<close>

lemma write_snapshot_entry_append: "write_snapshot_entry e out = out @ write_snapshot_entry e []"
  by (simp add: write_snapshot_entry_def write_attributes_def writes_def Writer_u8_def Writer_fixed Writer_varint_append
      Writer_string_eq Writer_raw_def)

definition entry_bytes :: "SnapshotEntry list \<Rightarrow> bytes" where
  "entry_bytes es = writes (map write_snapshot_entry es) []"

lemma writes_append: "writes (xs @ ys) out = writes ys (writes xs out)"
  by (simp add: writes_def)

lemma entry_bytes_snoc: "entry_bytes (es @ [e]) = write_snapshot_entry e (entry_bytes es)"
  by (simp add: entry_bytes_def writes_append) (simp add: writes_def)

lemma writes_entries: "writes (map write_snapshot_entry es) out = out @ entry_bytes es"
proof (induction es rule: rev_induct)
  case (snoc e es)
  have "writes (map write_snapshot_entry (es @ [e])) out = write_snapshot_entry e (writes (map write_snapshot_entry es) out)"
    by (simp add: writes_append) (simp add: writes_def)
  then show ?case using snoc write_snapshot_entry_append [of e "out @ entry_bytes es"] write_snapshot_entry_append [of e "entry_bytes es"]
    by (simp add: entry_bytes_snoc)
qed (simp add: entry_bytes_def writes_def)

text \<open>The finished chunks and the one that is being filled.\<close>

definition cut :: "nat \<Rightarrow> SnapshotEntry \<Rightarrow> SnapshotEntry list list \<times> SnapshotEntry list \<Rightarrow> SnapshotEntry list list \<times> SnapshotEntry list" where
  "cut budget e st =
    (let (fin, cur) = st; cur1 = cur @ [e]
     in if budget \<le> length (entry_bytes cur1) then (fin @ [cur1], []) else (fin, cur1))"

definition cuts :: "nat \<Rightarrow> SnapshotEntry list \<Rightarrow> SnapshotEntry list list \<times> SnapshotEntry list" where
  "cuts budget es = fold (cut budget) es ([], [])"

lemma cuts_snoc: "cuts budget (es @ [e]) = cut budget e (cuts budget es)"
  by (simp add: cuts_def)

lemma cuts_concat: "cuts budget es = (fin, cur) \<Longrightarrow> concat fin @ cur = es \<and> length fin \<le> length es"
proof (induction es arbitrary: fin cur rule: rev_induct)
  case (snoc e es)
  obtain f c where "cuts budget es = (f, c)" by (cases "cuts budget es")
  then show ?case using snoc by (auto simp: cuts_snoc cut_def Let_def split: if_splits)
qed (simp add: cuts_def)

definition snapshot_frame :: "u64 \<Rightarrow> u64 \<Rightarrow> bool \<Rightarrow> SnapshotEntry list \<Rightarrow> OutFrame" where
  "snapshot_frame rid gen has_more es = \<lparr>of_type = MsgSnapshot, of_id = rid, of_flags = (if has_more then kFlagMore else 0),
     of_payload = write_snapshot gen es []\<rparr>"

lemma snapshot_frame_fields [simp]:
  "of_type (snapshot_frame rid gen b es) = MsgSnapshot" "of_payload (snapshot_frame rid gen b es) = write_snapshot gen es []"
  by (simp_all add: snapshot_frame_def)

definition snapshot_frames :: "u64 \<Rightarrow> u64 \<Rightarrow> nat \<Rightarrow> SnapshotEntry list \<Rightarrow> OutFrame list" where
  "snapshot_frames rid gen budget es =
    (let (fin, cur) = cuts budget es in map (snapshot_frame rid gen True) fin @ [snapshot_frame rid gen False cur])"

lemma write_snapshot_payload:
  "Writer_raw (entry_bytes es) (write_snapshot_header gen (of_nat (length es)) out) = out @ write_snapshot gen es []"
proof -
  have h: "write_snapshot_header gen k o1 = o1 @ write_snapshot_header gen k []" for k o1
    by (simp add: write_snapshot_header_def writes_def Writer_fixed)
  have "write_snapshot gen es [] = writes (map write_snapshot_entry es) (write_snapshot_header gen (of_nat (length es)) [])"
    by (simp add: write_snapshot_def writes_def)
  then show ?thesis using h [of "of_nat (length es)" out] by (simp add: writes_entries Writer_raw_def)
qed

lemma flush_frame:
  assumes "snapshot_flush rid gen has_more st = (Inr u, st1)" and "ss_entries st = entry_bytes cur" and "ss_count st = of_nat (length cur)"
  shows "ss_entries st1 = []" "ss_count st1 = 0" "ss_rc st1 = ss_rc st" "cn_world (ss_conn st1) = cn_world (ss_conn st)"
    "outbox (sock (cn_chan (ss_conn st1))) = outbox (sock (cn_chan (ss_conn st))) @ of_bytes (snapshot_frame rid gen has_more cur)"
    "length (write_snapshot gen cur []) \<le> unat kMaxPayload"
proof -
  let ?f = "write_frame [] MsgSnapshot rid (\<lambda>w. Writer_raw (ss_entries st) (write_snapshot_header gen (ss_count st) w)) (if has_more then kFlagMore else 0)"
  have f: "?f = of_bytes (snapshot_frame rid gen has_more cur)"
    using write_frame_bytes [of "\<lambda>w. Writer_raw (ss_entries st) (write_snapshot_header gen (ss_count st) w)" "write_snapshot gen cur []"]
      write_snapshot_payload [of cur gen] assms(2,3) by (simp add: of_bytes_def of_header_def snapshot_frame_def)
  obtain ch where s: "send_raw ?f (cn_chan (ss_conn st)) = (Inr u, ch)"
    "st1 = st\<lparr>ss_entries := [], ss_count := 0, ss_conn := (ss_conn st)\<lparr>cn_chan := ch\<rparr>\<rparr>"
    using assms(1) by (auto simp: snapshot_flush_def Let_def split: prod.splits)
  then have o: "outbox (sock ch) = outbox (sock (cn_chan (ss_conn st))) @ ?f" "length ?f \<le> kHeaderSize + unat kMaxPayload"
    using count_sent_ok [of ?f "cn_chan (ss_conn st)" ch] by (auto simp: send_raw_def split: if_splits)
  show "ss_entries st1 = []" "ss_count st1 = 0" "ss_rc st1 = ss_rc st" "cn_world (ss_conn st1) = cn_world (ss_conn st)"
    "outbox (sock (cn_chan (ss_conn st1))) = outbox (sock (cn_chan (ss_conn st))) @ of_bytes (snapshot_frame rid gen has_more cur)"
    using s(2) o(1) f by simp_all
  show "length (write_snapshot gen cur []) \<le> unat kMaxPayload" using o(2) unfolding f by (simp add: of_bytes_def snapshot_frame_def)
qed

text \<open>The state of the sender after some entries, unless sending has failed.\<close>

definition sent_state :: "u64 \<Rightarrow> u64 \<Rightarrow> bytes \<Rightarrow> SnapshotEntry list list \<times> SnapshotEntry list \<Rightarrow> 'w SnapshotSend \<Rightarrow> bool" where
  "sent_state rid gen out x st \<longleftrightarrow> ss_entries st = entry_bytes (snd x) \<and> ss_count st = of_nat (length (snd x)) \<and>
     outbox (sock (cn_chan (ss_conn st))) = out @ concat (map (\<lambda>es. of_bytes (snapshot_frame rid gen True es)) (fst x)) \<and>
     list_all (\<lambda>es. length (write_snapshot gen es []) \<le> unat kMaxPayload) (fst x)"

lemma on_entry_sent:
  assumes "sent_state rid gen out x st" and "ss_rc st = ok ()" and "st1 = snapshot_on_entry rid gen budget e st" and "\<not> isl (ss_rc st1)"
  shows "sent_state rid gen out (cut budget e x) st1 \<and> ss_rc st1 = ok ()"
proof -
  obtain fin cur where x: "x = (fin, cur)" by (cases x)
  let ?st = "st\<lparr>ss_entries := write_snapshot_entry e (ss_entries st), ss_count := ss_count st + 1\<rparr>"
  have e: "ss_entries ?st = entry_bytes (cur @ [e])" "ss_count ?st = of_nat (length (cur @ [e]))"
    using assms(1) x by (simp_all add: sent_state_def entry_bytes_snoc)
  show ?thesis
  proof (cases "budget \<le> length (entry_bytes (cur @ [e]))")
    case False
    then show ?thesis using assms x e by (simp add: snapshot_on_entry_def sent_state_def cut_def Let_def)
  next
    case True
    obtain r st2 where f: "snapshot_flush rid gen True ?st = (r, st2)" by (cases "snapshot_flush rid gen True ?st")
    have st1: "st1 = st2\<lparr>ss_rc := r\<rparr>" using assms(2,3) True f e(1) by (simp add: snapshot_on_entry_def Let_def)
    then obtain u where u: "r = Inr u" using assms(4) by (cases r) auto
    note fr = flush_frame [OF f [unfolded u] e]
    show ?thesis using fr st1 u assms(1) x True
      by (simp add: sent_state_def cut_def Let_def) (simp add: entry_bytes_def writes_def)
  qed
qed

lemma fold_sent:
  assumes "sent_state rid gen out ([], []) st0" and "ss_rc st0 = ok ()"
  shows "\<not> isl (ss_rc (fold (snapshot_on_entry rid gen budget) es st0)) \<longrightarrow>
    sent_state rid gen out (cuts budget es) (fold (snapshot_on_entry rid gen budget) es st0) \<and>
    ss_rc (fold (snapshot_on_entry rid gen budget) es st0) = ok ()"
proof (induction es rule: rev_induct)
  case Nil
  then show ?case using assms by (simp add: cuts_def)
next
  case (snoc e es)
  let ?st = "fold (snapshot_on_entry rid gen budget) es st0"
  show ?case
  proof
    assume n: "\<not> isl (ss_rc (fold (snapshot_on_entry rid gen budget) (es @ [e]) st0))"
    then have k: "\<not> isl (ss_rc (snapshot_on_entry rid gen budget e ?st))" by simp
    then have "\<not> isl (ss_rc ?st)" by (auto simp: snapshot_on_entry_def)
    then have "sent_state rid gen out (cuts budget es) ?st" "ss_rc ?st = ok ()" using snoc by blast+
    from on_entry_sent [OF this refl k] show "sent_state rid gen out (cuts budget (es @ [e])) (fold (snapshot_on_entry rid gen budget) (es @ [e]) st0) \<and>
      ss_rc (fold (snapshot_on_entry rid gen budget) (es @ [e]) st0) = ok ()" by (simp add: cuts_snoc)
  qed
qed

text \<open>A snapshot that was sent without an error is on the connection as the frames of its chunks.\<close>

lemma send_snapshot_frames:
  assumes scan: "scan_tree (env_fuel env) (host_fs (env_host env) (cn_world c)) (so_root (env_opts env)) collect
      (\<lambda>r d _. env_ignore env \<noteq> [] \<and> ignored (env_ignore env) r d) (so_one_file_system (env_opts env)) [] = Some (ok sst, es)"
    and sent: "send_snapshot env rid c = Some (ok (), c1)"
  shows "outbox (sock (cn_chan c1)) = outbox (sock (cn_chan c)) @
      concat (map of_bytes (snapshot_frames rid (cn_generation c) (so_snapshot_chunk_bytes (env_opts env)) es))"
    and "list_all (\<lambda>m. length (of_payload m) \<le> unat kMaxPayload)
      (snapshot_frames rid (cn_generation c) (so_snapshot_chunk_bytes (env_opts env)) es)"
proof -
  let ?b = "so_snapshot_chunk_bytes (env_opts env)" let ?gen = "cn_generation c"
  let ?f = "snapshot_on_entry rid ?gen ?b" let ?init = "\<lparr>ss_entries = [], ss_count = 0, ss_rc = ok (), ss_conn = c\<rparr>"
  have skip: "snapshot_skip (env_ignore env) = (\<lambda>r d _. env_ignore env \<noteq> [] \<and> ignored (env_ignore env) r d)"
    by (simp add: fun_eq_iff snapshot_skip_def)
  have run: "scan_tree (env_fuel env) (host_fs (env_host env) (cn_world c)) (so_root (env_opts env)) ?f
      (snapshot_skip (env_ignore env)) (so_one_file_system (env_opts env)) ?init = Some (ok sst, fold ?f es ?init)"
    unfolding skip using scan by (subst scan_tree_fold) simp
  let ?st = "fold ?f es ?init"
  have nok: "\<not> isl (ss_rc ?st)" using sent run by (auto simp: send_snapshot_def Let_def split: if_splits)
  obtain r st1 where fl: "snapshot_flush rid ?gen False ?st = (r, st1)" by (cases "snapshot_flush rid ?gen False ?st")
  have r: "r = ok ()" "c1 = ss_conn st1" using sent run nok fl by (simp_all add: send_snapshot_def Let_def)
  obtain fin cur where x: "cuts ?b es = (fin, cur)" by (cases "cuts ?b es")
  have "sent_state rid ?gen (outbox (sock (cn_chan c))) ([], []) ?init" by (simp add: sent_state_def entry_bytes_def writes_def)
  from fold_sent [OF this, of ?b es] nok have st: "sent_state rid ?gen (outbox (sock (cn_chan c))) (fin, cur) ?st" using x by simp
  then have "ss_entries ?st = entry_bytes cur" "ss_count ?st = of_nat (length cur)" by (simp_all add: sent_state_def)
  note fr = flush_frame(5,6) [OF fl [unfolded r(1)] this]
  show "outbox (sock (cn_chan c1)) = outbox (sock (cn_chan c)) @ concat (map of_bytes (snapshot_frames rid ?gen ?b es))"
    using st fr r(2) x by (simp add: sent_state_def snapshot_frames_def comp_def)
  show "list_all (\<lambda>m. length (of_payload m) \<le> unat kMaxPayload) (snapshot_frames rid ?gen ?b es)"
    using st fr x by (simp add: sent_state_def snapshot_frames_def snapshot_frame_def list_all_iff)
qed

section \<open>The collection\<close>

lemma stream_entries_reads:
  assumes "list_all (\<lambda>e. fits (e_name e)) es" and "length (pd_entries p) + length es \<le> kMaxSnapshotEntries"
  shows "stream_entries (length es) \<lparr>rin = pre @ entry_bytes es @ rest, rpos = length pre\<rparr> p =
    p\<lparr>pd_names := pd_names p @ map e_name es, pd_entries := pd_entries p @ map (\<lambda>e. e\<lparr>e_name := []\<rparr>) es\<rparr>"
  using assms
proof (induction es arbitrary: pre p)
  case (Cons e es)
  let ?p = "p\<lparr>pd_names := pd_names p @ [e_name e], pd_entries := pd_entries p @ [e\<lparr>e_name := []\<rparr>]\<rparr>"
  have b: "entry_bytes (e # es) = write_snapshot_entry e [] @ entry_bytes es"
    using writes_entries [of es "write_snapshot_entry e []"] by (simp add: entry_bytes_def writes_def)
  show ?case
    using Cons.IH [of ?p "pre @ write_snapshot_entry e []"] Cons.prems snapshot_entry.round_trip [of e pre "entry_bytes es @ rest"]
    by (simp add: b add.assoc)
qed simp

text \<open>What the client has after it has taken in some chunks.\<close>

definition took :: "u64 \<Rightarrow> SnapshotEntry list \<Rightarrow> nat \<Rightarrow> ClientPending \<Rightarrow> ClientPending" where
  "took gen es k p = p\<lparr>pd_snap_bytes := pd_snap_bytes p + k, pd_generation := gen,
     pd_names := pd_names p @ map e_name es, pd_entries := pd_entries p @ map (\<lambda>e. e\<lparr>e_name := []\<rparr>) es\<rparr>"

definition frame_of :: "OutFrame \<Rightarrow> Frame" where
  "frame_of m = \<lparr>fr_header = of_header m, fr_payload = of_payload m\<rparr>"

lemma stream_frame_takes:
  assumes fit: "list_all (\<lambda>e. fits (e_name e)) es" and cnt: "length (pd_entries p) + length es \<le> kMaxSnapshotEntries"
    and bytes: "pd_snap_bytes p + length (write_snapshot gen es []) \<le> kMaxSnapshotBytes" and ok: "pd_stream_ok p"
  shows "stream_frame (frame_of (snapshot_frame rid gen has_more es)) p =
    (let q = took gen es (length (write_snapshot gen es [])) p in if has_more then q else q\<lparr>pd_type := MsgSnapshot, pd_done := True\<rparr>)"
proof -
  let ?h = "write_snapshot_header gen (of_nat (length es)) []"
  have n: "length es < 2 ^ 32" using cnt by (simp add: kMaxSnapshotEntries_def)
  have w: "write_snapshot gen es [] = ?h @ entry_bytes es"
    using write_snapshot_payload [of es gen "[]"] by (simp add: Writer_raw_def)
  have "\<exists>bs. 16 \<le> length bs \<and> (\<forall>out. write_snapshot_entry e out = out @ bs)" if "e \<in> set es" for e
    using snapshot_entry_min [of e] write_snapshot_entry_append [of e] by blast
  then have "16 * length es \<le> length (entry_bytes es)" using length_writes_map [of es 16 write_snapshot_entry "[]"] by (simp add: entry_bytes_def)
  then have h: "read_snapshot_header (Reader_init (write_snapshot gen es [])) =
      (ok \<lparr>sh_generation = gen, sh_count = of_nat (length es)\<rparr>, \<lparr>rin = ?h @ entry_bytes es @ [], rpos = length ?h\<rparr>)"
    using read_snapshot_header_reads [OF n, of "entry_bytes es" "[]" gen] by (simp add: w Reader_init_def)
  have more: "(if has_more then kFlagMore else 0) AND kFlagMore = (0 :: u32) \<longleftrightarrow> \<not> has_more" by (simp add: kFlagMore_def)
  have u: "unat (of_nat (length es) :: u32) = length es" using n by (simp add: unat_of_nat)
  have "stream_entries (length es) \<lparr>rin = ?h @ entry_bytes es @ [], rpos = length ?h\<rparr>
      (p\<lparr>pd_snap_bytes := pd_snap_bytes p + length (write_snapshot gen es []), pd_generation := gen\<rparr>) =
    took gen es (length (write_snapshot gen es [])) p"
    using stream_entries_reads [OF fit, of "p\<lparr>pd_snap_bytes := pd_snap_bytes p + length (write_snapshot gen es []), pd_generation := gen\<rparr>" ?h "[]"] cnt
    by (simp add: took_def)
  then show ?thesis using bytes ok more h u
    by (simp add: stream_frame_def frame_of_def snapshot_frame_def of_header_def Let_def not_less took_def)
qed

lemma took_took: "took gen b j (took gen a i p) = took gen (a @ b) (i + j) p"
  by (simp add: took_def add.assoc)

lemma ready_turn:
  assumes "\<not> cl_closed c" and "channel_ready (m # ms) n (cl_chan c)" and "of_type m \<noteq> MsgInvalidation"
    and "length (of_payload m) \<le> unat kMaxPayload" and "length (of_payload m) \<le> unat (max_payload (cl_chan c))"
  shows "\<exists>ch. reader_turn c = deliver (frame_of m) (c\<lparr>cl_chan := ch\<rparr>) \<and> channel_ready ms n ch \<and>
    max_payload ch = max_payload (cl_chan c) \<and> outbox (sock ch) = outbox (sock (cl_chan c))"
proof -
  let ?r = "concat (map of_bytes ms)"
  have t: "timely (frame_timeout (cl_chan c)) (length (of_bytes m) + (length ms + length ?r)) (sock (cl_chan c))"
    using assms(2) by (auto simp: channel_ready_def timely_def add_ac)
  obtain ch where ch: "receive (cl_chan c) = (ok (frame_of m), ch)" "inbox (sock ch) = ?r" "live (length ?r) (recvs (sock ch))"
    "timely (frame_timeout (cl_chan c)) (length ms + length ?r) (sock ch)" "max_payload ch = max_payload (cl_chan c)"
    "frame_timeout ch = frame_timeout (cl_chan c)" "sends (sock ch) = sends (sock (cl_chan c))" "outbox (sock ch) = outbox (sock (cl_chan c))"
    using receive_one [OF assms(4,5) t, of ?r "length ?r"] assms(2) by (auto simp: channel_ready_def frame_of_def)
  have "reader_turn c = deliver (frame_of m) (c\<lparr>cl_chan := ch\<rparr>)"
    using assms(1,3) ch(1) by (simp add: reader_turn_def frame_of_def of_header_def)
  then show ?thesis using ch assms(2) by (auto simp: channel_ready_def)
qed

definition stream_bytes :: "u64 \<Rightarrow> SnapshotEntry list list \<Rightarrow> nat" where
  "stream_bytes gen ess = (\<Sum>es \<leftarrow> ess. length (write_snapshot gen es []))"

text \<open>The caller of a streamed request gets all entries of all chunks, in order.\<close>

lemma await_stream:
  "\<not> cl_closed c \<Longrightarrow> map_of (cl_pending c) rid = Some p \<Longrightarrow> pd_streaming p \<Longrightarrow> pd_stream_ok p \<Longrightarrow> \<not> pd_done p \<Longrightarrow>
   map_of (cl_answered c) rid = None \<Longrightarrow> max_payload (cl_chan c) = kMaxPayload \<Longrightarrow>
   channel_ready (map (snapshot_frame rid gen True) fin @ [snapshot_frame rid gen False cur]) k (cl_chan c) \<Longrightarrow>
   list_all (\<lambda>es. length (write_snapshot gen es []) \<le> unat kMaxPayload) (fin @ [cur]) \<Longrightarrow>
   list_all (\<lambda>e. fits (e_name e)) (concat fin @ cur) \<Longrightarrow>
   length (pd_entries p) + length (concat fin @ cur) \<le> kMaxSnapshotEntries \<Longrightarrow>
   pd_snap_bytes p + stream_bytes gen (fin @ [cur]) \<le> kMaxSnapshotBytes \<Longrightarrow> length fin < n \<Longrightarrow>
   \<exists>ch pend ans. await n rid c =
     (ok ((took gen (concat fin @ cur) (stream_bytes gen (fin @ [cur])) p)\<lparr>pd_type := MsgSnapshot, pd_done := True\<rparr>),
      c\<lparr>cl_chan := ch, cl_pending := pend, cl_answered := ans\<rparr>)"
proof (induction fin arbitrary: c p n)
  case Nil
  obtain n' where n: "n = Suc n'" using Nil.prems(13) by (cases n) auto
  let ?m = "snapshot_frame rid gen False cur" let ?q = "(took gen cur (stream_bytes gen [cur]) p)\<lparr>pd_type := MsgSnapshot, pd_done := True\<rparr>"
  obtain ch where ch: "reader_turn c = deliver (frame_of ?m) (c\<lparr>cl_chan := ch\<rparr>)"
    using ready_turn [of c ?m "[]" k] Nil.prems(1,7-9) by auto
  have "stream_frame (frame_of ?m) p = ?q"
    using stream_frame_takes [of cur p gen rid False] Nil.prems by (simp add: stream_bytes_def)
  then have d: "reader_turn c = answer rid ?q (c\<lparr>cl_chan := ch\<rparr>)"
    using ch Nil.prems(2,3) by (simp add: deliver_def frame_of_def snapshot_frame_def of_header_def)
  have "finish_request ?q = ok ?q" by (simp add: finish_request_def)
  then have "await n' rid (reader_turn c) = (ok ?q, (reader_turn c)\<lparr>cl_answered := AList.delete rid (cl_answered (reader_turn c))\<rparr>)"
    unfolding d by (cases n') (simp_all add: AList.update_conv')
  then show ?case using n Nil.prems(6) d by (auto simp: answer_def)
next
  case (Cons es fin)
  obtain n' where n: "n = Suc n'" "length fin < n'" using Cons.prems(13) by (cases n) auto
  let ?m = "snapshot_frame rid gen True es" let ?p = "took gen es (length (write_snapshot gen es [])) p"
  obtain ch where ch: "reader_turn c = deliver (frame_of ?m) (c\<lparr>cl_chan := ch\<rparr>)" "max_payload ch = kMaxPayload"
    "channel_ready (map (snapshot_frame rid gen True) fin @ [snapshot_frame rid gen False cur]) k ch"
    using ready_turn [of c ?m "map (snapshot_frame rid gen True) fin @ [snapshot_frame rid gen False cur]" k] Cons.prems(1,7-9)
    by auto
  have "stream_frame (frame_of ?m) p = ?p"
    using stream_frame_takes [of es p gen rid True] Cons.prems(4,10-12) by (simp add: stream_bytes_def)
  moreover have keep: "pd_streaming ?p" "pd_stream_ok ?p" "\<not> pd_done ?p" using Cons.prems(3-5) by (simp_all add: took_def)
  ultimately have d: "reader_turn c = c\<lparr>cl_chan := ch, cl_pending := AList.update rid ?p (cl_pending c)\<rparr>"
    using ch(1) Cons.prems(2,3) by (simp add: deliver_def frame_of_def snapshot_frame_def of_header_def)
  have more: "length (pd_entries ?p) + length (concat fin @ cur) \<le> kMaxSnapshotEntries"
    "pd_snap_bytes ?p + stream_bytes gen (fin @ [cur]) \<le> kMaxSnapshotBytes"
    using Cons.prems(11,12) by (simp_all add: took_def stream_bytes_def)
  have "\<exists>ch pend ans. await n' rid (reader_turn c) =
     (ok ((took gen (concat fin @ cur) (stream_bytes gen (fin @ [cur])) ?p)\<lparr>pd_type := MsgSnapshot, pd_done := True\<rparr>),
      (reader_turn c)\<lparr>cl_chan := ch, cl_pending := pend, cl_answered := ans\<rparr>)"
    by (rule Cons.IH) (use Cons.prems(1,6,9,10) ch(2,3) keep more n(2) in \<open>simp_all add: d AList.update_conv'\<close>)
  then show ?case using n(1) Cons.prems(6) by (auto simp: d took_took stream_bytes_def)
qed

lemma named_took:
  "pd_names p = [] \<Longrightarrow> pd_entries p = [] \<Longrightarrow> named_entries ((took gen es k p)\<lparr>pd_type := t, pd_done := b\<rparr>) = es"
  by (simp add: named_entries_def took_def zip_map1 zip_map2 zip_same_conv_map comp_def case_prod_unfold)

section \<open>The mirror\<close>

lemma child_rel_join: "list_all plain_component cs \<Longrightarrow> child_rel (join cs) nm = join (cs @ [nm])"
  using join_eq_Nil [of cs] join_append [of cs "[nm]"] by (auto simp: child_rel_def)

lemma ordered_prefix: "snapshot_ordered (es @ [e]) \<Longrightarrow> snapshot_ordered es \<and> unat (e_parent e) \<le> length es \<and>
    (e_parent e = 0 \<or> kind (e_attr (es ! (unat (e_parent e) - 1))) = Directory)"
proof -
  assume o: "snapshot_ordered (es @ [e])"
  have k: "unat (e_parent (es ! k)) \<le> k \<and> (e_parent (es ! k) = 0 \<or> kind (e_attr (es ! (unat (e_parent (es ! k)) - 1))) = Directory)"
    if "k < length es" for k
  proof -
    have "unat (e_parent (es ! k)) - 1 < length es" "unat (e_parent (es ! k)) \<le> k"
      using o that by (auto simp: snapshot_ordered_def nth_append dest!: spec [of _ k])
    then show ?thesis using o that by (auto simp: snapshot_ordered_def nth_append dest!: spec [of _ k])
  qed
  have "unat (e_parent e) \<le> length es \<and> (e_parent e = 0 \<or> kind (e_attr ((es @ [e]) ! (unat (e_parent e) - 1))) = Directory)"
    using o by (auto simp: snapshot_ordered_def dest!: spec [of _ "length es"])
  moreover have "unat (e_parent e) - 1 < length es" if "e_parent e \<noteq> 0" "unat (e_parent e) \<le> length es"
    using that unat_gt_0 [of "e_parent e"] by linarith
  ultimately have "unat (e_parent e) \<le> length es \<and> (e_parent e = 0 \<or> kind (e_attr (es ! (unat (e_parent e) - 1))) = Directory)"
    by (metis nth_append)
  then show ?thesis using k by (simp add: snapshot_ordered_def)
qed

text \<open>When every name is a name and no directory lists one twice, every entry has the place its path says.\<close>

lemma placed_paths:
  assumes "snapshot_ordered es" and "list_all (\<lambda>e. valid_name (e_name e)) es" and "distinct (entry_paths es)"
  shows "\<exists>pss. entry_paths es = map join pss \<and> list_all (list_all plain_component) pss \<and> length pss = Suc (length es) \<and>
    placed es = map Some (zip pss (kImplicitDirectory # map e_attr es))"
  using assms
proof (induction es rule: rev_induct)
  case Nil
  then show ?case by (intro exI [of _ "[[]]"]) (simp add: entry_paths_def placed_def placed_on_def)
next
  case (snoc e es)
  note o = ordered_prefix [OF snoc.prems(1)]
  obtain pss where ps: "entry_paths es = map join pss" "list_all (list_all plain_component) pss" "length pss = Suc (length es)"
    "placed es = map Some (zip pss (kImplicitDirectory # map e_attr es))"
    using snoc o by (auto simp: entry_paths_snoc)
  let ?k = "unat (e_parent e)" let ?as = "kImplicitDirectory # map e_attr es"
  have nm: "plain_component (e_name e)" "valid_name (e_name e)" using snoc.prems(2) valid_name_plain by auto
  have k: "?k < length pss" using o ps(3) by simp
  have pl: "list_all plain_component (pss ! ?k)" using ps(2) k by (simp add: list_all_length)
  have at: "placed es ! ?k = Some (pss ! ?k, ?as ! ?k)" using ps(3,4) k by simp
  have dir: "kind (?as ! ?k) = Directory"
    using o k ps(3) by (cases "?k") (auto simp: kImplicitDirectory_def unat_eq_0)
  have new: "child_rel (entry_paths es ! ?k) (e_name e) = join (pss ! ?k @ [e_name e])"
    using child_rel_join [OF pl] ps(1) k by simp
  have "pss ! ?k @ [e_name e] \<notin> set pss"
    using snoc.prems(3) new unfolding entry_paths_snoc ps(1) by (auto simp: image_iff)
  then have "\<forall>b. Some (pss ! ?k @ [e_name e], b) \<notin> set (placed es)" unfolding ps(4) by (auto dest: set_zip_leftD)
  then have "entry_place (placed es) e = Some (pss ! ?k @ [e_name e], e_attr e)" using at dir nm(2) by (simp add: entry_place_def)
  moreover have "placed (es @ [e]) = placed es @ [entry_place (placed es) e]" by (simp add: placed_def placed_on_def)
  moreover have "zip (pss @ [x]) (?as @ [y]) = zip pss ?as @ [(x, y)]" for x y
    by (rule trans [OF zip_append]) (simp_all add: ps(3))
  then have "zip (pss @ [x]) (kImplicitDirectory # map e_attr (es @ [e])) = zip pss ?as @ [(x, e_attr e)]" for x by simp
  ultimately show ?case using ps new pl nm(1)
    by (intro exI [of _ "pss @ [pss ! ?k @ [e_name e]]"]) (simp add: entry_paths_snoc)
qed

text \<open>A tree mirrors a set of paths with attributes.\<close>

definition mirrors :: "MetadataTree \<Rightarrow> (bytes \<times> Attributes) set \<Rightarrow> bool" where
  "mirrors t V \<longleftrightarrow> (\<forall>q a. is_normalized q \<and> q \<noteq> [] \<and> dotdot \<notin> set (components q) \<longrightarrow>
     ((q, a) \<in> V \<longleftrightarrow> (\<exists>i. lookup t q Exact = Some i \<and> attr (node t i) = a)))"

lemma emitted_placed:
  assumes "snapshot_ordered es" and "list_all (\<lambda>e. valid_name (e_name e)) es" and "distinct (entry_paths es)"
    and q: "is_normalized q" "q \<noteq> []"
  shows "(q, a) \<in> emitted es \<longleftrightarrow> Some (components q, a) \<in> set (placed es)"
proof -
  obtain pss where ps: "entry_paths es = map join pss" "list_all (list_all plain_component) pss" "length pss = Suc (length es)"
    "placed es = map Some (zip pss (kImplicitDirectory # map e_attr es))"
    using placed_paths [OF assms(1-3)] by blast
  obtain r rs where r: "pss = r # rs" "length rs = length es" using ps(3) by (cases pss) auto
  have "entry_paths es ! 0 = []" by (induction es rule: rev_induct) (simp_all add: entry_paths_snoc nth_append, simp add: entry_paths_def)
  then have r0: "r = []" using ps(1,2) r(1) join_eq_Nil [of r] by simp
  have j: "join p = q \<longleftrightarrow> p = components q" if "p \<in> set pss" for p
  proof -
    have "list_all plain_component p" using ps(2) that by (simp add: list_all_iff)
    then show ?thesis using components_join [of p] q(1) by (auto simp: is_normalized_def)
  qed
  have cq: "components q \<noteq> []" using q by (auto simp: is_normalized_def)
  have "(q, a) \<in> emitted es \<longleftrightarrow> (\<exists>p. (p, a) \<in> set (zip rs (map e_attr es)) \<and> join p = q)"
    using ps(1) r by (force simp: emitted_def zip_map1)
  also have "\<dots> \<longleftrightarrow> (components q, a) \<in> set (zip rs (map e_attr es))"
    using j r(1) by (metis set_zip_leftD list.set_intros(2))
  also have "\<dots> \<longleftrightarrow> Some (components q, a) \<in> set (placed es)" using ps(4) r r0 cq by auto
  finally show ?thesis .
qed

lemma scan_outcome:
  assumes "scan_tree fuel fs rt collect (\<lambda>r d _. skip r d) ofs [] = Some (ok sst, es)" and "length es < 2 ^ 32"
  shows "snapshot_ordered es \<and> emitted es = visible_from fs skip (if ofs then device_id fs rt else None) rt []"
proof -
  let ?dev = "if ofs then device_id fs rt else None"
  obtain st where run: "scan_loop fuel fs collect (\<lambda>r d _. skip r d) ?dev (scan_start rt []) = Some st" "sc_user st = es"
    using assms(1) by (auto simp: scan_tree_def Let_def split: if_splits option.splits)
  then show ?thesis using scan_loop_emits [OF run(1) scan_start_inv] assms(2) by (simp add: scan_start_def emitted_def)
qed

text \<open>The frames of a snapshot, the length of their payloads and their number.\<close>

lemma frames_bytes:
  "cuts budget es = (fin, cur) \<Longrightarrow> stream_bytes gen (fin @ [cur]) \<le> length (concat (map of_bytes (snapshot_frames rid gen budget es))) \<and>
    snapshot_frames rid gen budget es = map (snapshot_frame rid gen True) fin @ [snapshot_frame rid gen False cur]"
proof -
  assume x: "cuts budget es = (fin, cur)"
  have "length (write_snapshot gen e []) \<le> length (of_bytes (snapshot_frame rid gen b e))" for b e by (simp add: of_bytes_def)
  then have "stream_bytes gen ess \<le> length (concat (map of_bytes (map (snapshot_frame rid gen b) ess)))" for b ess
    by (induction ess) (auto simp: stream_bytes_def intro: add_mono)
  from this [of fin True] this [of "[cur]" False] x show ?thesis by (simp add: snapshot_frames_def stream_bytes_def)
qed

definition snapshot_entry_ok :: "SnapshotEntry \<Rightarrow> bool" where
  "snapshot_entry_ok e \<longleftrightarrow> valid_name (e_name e) \<and> length (e_name e) < 2 ^ 32 \<and> length (casefold (e_name e)) < 2 ^ 32"

lemma fetch_stream:
  assumes c: "\<not> cl_closed c" "fresh_id c" "max_payload (cl_chan c) = kMaxPayload"
    and ch: "channel_ready (snapshot_frames (cl_next c) gen budget es) (kHeaderSize + k) (cl_chan c)"
    and fit: "list_all (\<lambda>m. length (of_payload m) \<le> unat kMaxPayload) (snapshot_frames (cl_next c) gen budget es)"
      "list_all (\<lambda>e. fits (e_name e)) es" "length es \<le> kMaxSnapshotEntries"
      "length (concat (map of_bytes (snapshot_frames (cl_next c) gen budget es))) \<le> kMaxSnapshotBytes"
    and n: "length es < n" and load: "load_snapshot (cl_tree c) es = (ok (), t)"
  shows "\<exists>c1. fetch_snapshot n c = (ok (), c1) \<and> cl_tree c1 = t \<and> cs_generation (cl_stats c1) = gen"
proof -
  let ?rid = "cl_next c" let ?p = "ClientPending_init True"
  obtain fin cur where x: "cuts budget es = (fin, cur)" by (cases "cuts budget es")
  note fb = frames_bytes [OF x, of gen ?rid] and cc = cuts_concat [OF x]
  let ?ms = "map (snapshot_frame ?rid gen True) fin @ [snapshot_frame ?rid gen False cur]"
  obtain ch1 where s: "send MsgSnapshotRequest ?rid [] 0 (cl_chan c) = (ok (), ch1)" "channel_ready ?ms k ch1" "max_payload ch1 = kMaxPayload"
    using channel_ready_send [of ?ms "[]" k "cl_chan c" MsgSnapshotRequest ?rid] ch fb c(3) by auto
  let ?c = "c\<lparr>cl_in_flight := True, cl_replay := [], cl_next := ?rid + 1, cl_pending := AList.update ?rid ?p (cl_pending c), cl_chan := ch1\<rparr>"
  let ?q = "(took gen (concat fin @ cur) (stream_bytes gen (fin @ [cur])) ?p)\<lparr>pd_type := MsgSnapshot, pd_done := True\<rparr>"
  have sb: "stream_bytes gen (fin @ [cur]) \<le> kMaxSnapshotBytes" using fit(4) fb by linarith
  have "\<exists>ch pend ans. await n ?rid ?c = (ok ?q, ?c\<lparr>cl_chan := ch, cl_pending := pend, cl_answered := ans\<rparr>)"
    by (rule await_stream)
      (use c s(2,3) fit(1-3) sb fb cc n in \<open>simp_all add: fresh_id_def AList.update_conv' ClientPending_init_def list_all_iff\<close>)
  then obtain ch2 pend ans where a: "await n ?rid ?c = (ok ?q, ?c\<lparr>cl_chan := ch2, cl_pending := pend, cl_answered := ans\<rparr>)" by blast
  have req: "request n MsgSnapshotRequest [] True (c\<lparr>cl_in_flight := True, cl_replay := []\<rparr>) =
      (ok ?q, ?c\<lparr>cl_chan := ch2, cl_pending := pend, cl_answered := ans\<rparr>)"
    using c(1) s(1) a by (simp add: request_def Let_def)
  have "named_entries ?q = es" using named_took [where p = ?p and gen = gen and es = es] cc by (simp add: ClientPending_init_def)
  moreover have "pd_type ?q = MsgSnapshot" "pd_stream_ok ?q" "pd_generation ?q = gen" by (simp_all add: took_def ClientPending_init_def)
  ultimately show ?thesis using req load
    by (simp add: fetch_snapshot_def Let_def replay_batches_def end_recording_def)
qed

text \<open>
  C5. The mirror is the served tree.  When the server has walked its tree and sent the snapshot without an
  error, however it cut the entries into frames, and those bytes arrive at the client, then the client's
  \<open>fetch_snapshot\<close> succeeds, and its mirror, whatever it held before, holds exactly the files,
  directories and links that are visible on the server (not ignored, not beyond another device), each
  with its attributes; and it is at the server's generation.  The hypotheses are the client's limits on a
  snapshot, a connection that delivers, and a file system that lists no name twice and no name
  that is not one.
\<close>

theorem snapshot_reaches_client:
  fixes env :: "('w, 'h) ServerEnv" and conn conn1 :: "'w Conn"
  defines "fs \<equiv> host_fs (env_host env) (cn_world conn)" and "rt \<equiv> so_root (env_opts env)"
    and "ofs \<equiv> so_one_file_system (env_opts env)" and "skip \<equiv> (\<lambda>r d. env_ignore env \<noteq> [] \<and> ignored (env_ignore env) r d)"
  assumes scan: "scan_tree (env_fuel env) fs rt collect (\<lambda>r d _. skip r d) ofs [] = Some (ok sst, es)"
    and sent: "send_snapshot env (cl_next c) conn = Some (ok (), conn1)"
    and wire: "outbox (sock (cn_chan conn1)) = outbox (sock (cn_chan conn)) @ inbox (sock (cl_chan c))"
    and names: "list_all snapshot_entry_ok es" "distinct (entry_paths es)"
    and limits: "length es \<le> kMaxSnapshotEntries" "length (inbox (sock (cl_chan c))) \<le> kMaxSnapshotBytes" "length es < n"
    and client: "\<not> cl_closed c" "fresh_id c" "max_payload (cl_chan c) = kMaxPayload" "tree_inv (cl_tree c)"
    and works: "live (length (inbox (sock (cl_chan c)))) (recvs (sock (cl_chan c)))" "live kHeaderSize (sends (sock (cl_chan c)))"
      "timely (frame_timeout (cl_chan c)) (Suc (length es) + length (inbox (sock (cl_chan c)))) (sock (cl_chan c))"
  shows "\<exists>c1. fetch_snapshot n c = (ok (), c1) \<and> tree_inv (cl_tree c1) \<and> cs_generation (cl_stats c1) = cn_generation conn \<and>
    mirrors (cl_tree c1) (visible_from fs skip (if ofs then device_id fs rt else None) rt [])"
proof -
  let ?b = "so_snapshot_chunk_bytes (env_opts env)" let ?gen = "cn_generation conn"
  let ?ms = "snapshot_frames (cl_next c) ?gen ?b es"
  note fr = send_snapshot_frames [OF scan [unfolded fs_def rt_def ofs_def skip_def] sent]
  have inb: "inbox (sock (cl_chan c)) = concat (map of_bytes ?ms)" using fr(1) wire by simp
  have "length es < 2 ^ 32" using limits(1) by (simp add: kMaxSnapshotEntries_def)
  then have es: "snapshot_ordered es" "emitted es = visible_from fs skip (if ofs then device_id fs rt else None) rt []"
    using scan_outcome [OF scan] by auto
  have ms: "length ?ms \<le> Suc (length es)"
    using frames_bytes [of ?b es _ _ ?gen "cl_next c"] cuts_concat [of ?b es] by (cases "cuts ?b es") auto
  have ready: "channel_ready ?ms (kHeaderSize + 0) (cl_chan c)"
    using works inb ms by (auto simp: channel_ready_def timely_def)
  have first: "parents_first es" using es(1) by (auto simp: parents_first_def snapshot_ordered_def)
  have nm: "list_all (\<lambda>e. valid_name (e_name e)) es" "list_all (\<lambda>e. fits (e_name e)) es"
    "list_all (\<lambda>e. length (e_name e) < 2 ^ 32 \<and> length (casefold (e_name e)) < 2 ^ 32) es"
    using names(1) by (auto simp: snapshot_entry_ok_def list_all_iff)
  have "2 * length es + 1 < 2 ^ 32" using limits(1) by (simp add: kMaxSnapshotEntries_def)
  note load = load_snapshot_ok [OF client(4) first this nm(3)]
  obtain t where t: "load_snapshot (cl_tree c) es = (ok (), t)" "tree_inv t"
    "\<And>q a. dotdot \<notin> set (components q) \<Longrightarrow>
      Some (components q, a) \<in> set (placed es) \<longleftrightarrow> (\<exists>i. lookup t q Exact = Some i \<and> attr (node t i) = a)"
    using load by blast
  obtain c1 where "fetch_snapshot n c = (ok (), c1)" "cl_tree c1 = t" "cs_generation (cl_stats c1) = ?gen"
    using fetch_stream [OF client(1-3) ready fr(2) nm(2) limits(1) _ limits(3) t(1)] limits(2) inb by auto
  moreover have "mirrors t (emitted es)"
    using emitted_placed [OF es(1) nm(1) names(2)] t(3) by (auto simp: mirrors_def)
  ultimately show ?thesis using t(2) es(2) by auto
qed

section \<open>Examples\<close>

lemma one_chunk:
  "length (entry_bytes es) < budget \<Longrightarrow>
    fold (snapshot_on_entry rid gen budget) es \<lparr>ss_entries = [], ss_count = 0, ss_rc = ok (), ss_conn = c\<rparr> =
    \<lparr>ss_entries = entry_bytes es, ss_count = of_nat (length es), ss_rc = ok (), ss_conn = c\<rparr>"
proof (induction es rule: rev_induct)
  case (snoc e es)
  have "length (entry_bytes es) \<le> length (entry_bytes (es @ [e]))"
    using write_snapshot_entry_append [of e "entry_bytes es"] by (simp add: entry_bytes_snoc)
  then show ?case using snoc by (simp add: snapshot_on_entry_def entry_bytes_snoc Let_def)
qed (simp add: entry_bytes_def writes_def)

definition demo_entries :: "SnapshotEntry list" where
  "demo_entries = [\<lparr>e_parent = 0, e_name = [97], e_attr = \<lparr>size_of = 5, mtime_ns = 9, mode = 420, kind = File\<rparr>\<rparr>,
    \<lparr>e_parent = 0, e_name = [100], e_attr = \<lparr>size_of = 0, mtime_ns = 9, mode = 493, kind = Directory\<rparr>\<rparr>,
    \<lparr>e_parent = 2, e_name = [108], e_attr = \<lparr>size_of = 4, mtime_ns = 9, mode = 511, kind = Symlink\<rparr>\<rparr>]"

lemma demo_entries_scan:
  "scan_tree 2 demo_fs (lit ''/r'') collect (\<lambda>r d _. [] \<noteq> ([] :: IgnoreRules) \<and> ignored [] r d) True [] =
    Some (ok \<lparr>st_files = 1, st_directories = 1, st_symlinks = 1, st_skipped = 0\<rparr>, demo_entries)"
  by code_simp

lemma demo_entries_bytes: "length (entry_bytes demo_entries) = 54"
  by code_simp

definition demo_mirror :: RemoteRoot where
  "demo_mirror = RemoteRoot_init [] Exact (FrameChannel_init
    \<lparr>inbox = of_bytes (snapshot_frame 1 1 False demo_entries), outbox = [], sends = replicate 24 (RcN 30), recvs = replicate 100 (RcN 7),
     selects = replicate 200 1, clock = [0]\<rparr>)"

lemma demo_wire_length: "length (of_bytes (snapshot_frame 1 1 False demo_entries)) = 90" "length (write_snapshot 1 demo_entries []) = 66"
proof -
  have "write_snapshot 1 demo_entries [] = write_snapshot_header 1 (of_nat (length demo_entries)) [] @ entry_bytes demo_entries"
    using write_snapshot_payload [of demo_entries 1 "[]"] by (simp add: Writer_raw_def)
  moreover have "length (write_snapshot_header 1 k []) = 12" for k by (simp add: write_snapshot_header_def writes_def Writer_fixed)
  ultimately show "length (write_snapshot 1 demo_entries []) = 66" using demo_entries_bytes by simp
  then show "length (of_bytes (snapshot_frame 1 1 False demo_entries)) = 90" by (simp add: of_bytes_def kHeaderSize_def)
qed

lemma demo_sent: "\<exists>c1. send_snapshot demo_env 1 demo_conn = Some (ok (), c1) \<and>
    outbox (sock (cn_chan c1)) = outbox (sock (cn_chan demo_conn)) @ inbox (sock (cl_chan demo_mirror))"
proof -
  have env: "env_fuel demo_env = 2" "host_fs (env_host demo_env) (cn_world demo_conn) = demo_fs" "so_root (env_opts demo_env) = lit ''/r''"
    "env_ignore demo_env = []" "so_one_file_system (env_opts demo_env) = True" "so_snapshot_chunk_bytes (env_opts demo_env) = 4096"
    "cn_generation demo_conn = 1"
    by (simp_all add: demo_env_def demo_host_def demo_opts_def demo_conn_def)
  have skip: "snapshot_skip [] = (\<lambda>r d _. [] \<noteq> ([] :: IgnoreRules) \<and> ignored [] r d)" by (simp add: fun_eq_iff snapshot_skip_def)
  let ?st = "\<lparr>ss_entries = entry_bytes demo_entries, ss_count = of_nat (length demo_entries), ss_rc = ok (), ss_conn = demo_conn\<rparr>"
  have run: "scan_tree 2 demo_fs (lit ''/r'') (snapshot_on_entry 1 1 4096) (snapshot_skip []) True
      \<lparr>ss_entries = [], ss_count = 0, ss_rc = ok (), ss_conn = demo_conn\<rparr> =
    Some (ok \<lparr>st_files = 1, st_directories = 1, st_symlinks = 1, st_skipped = 0\<rparr>, ?st)"
    using scan_tree_fold [of 2 demo_fs "lit ''/r''" "snapshot_on_entry 1 1 4096" "\<lambda>r d. [] \<noteq> ([] :: IgnoreRules) \<and> ignored [] r d" True
        "\<lparr>ss_entries = [], ss_count = 0, ss_rc = ok (), ss_conn = demo_conn\<rparr>"] one_chunk [of demo_entries 4096 1 1 demo_conn] demo_entries_bytes
    unfolding skip demo_entries_scan by simp
  let ?f = "write_frame [] MsgSnapshot 1 (\<lambda>w. Writer_raw (ss_entries ?st) (write_snapshot_header 1 (ss_count ?st) w)) 0"
  have f: "?f = of_bytes (snapshot_frame 1 1 False demo_entries)"
    using write_frame_bytes [of "\<lambda>w. Writer_raw (ss_entries ?st) (write_snapshot_header 1 (ss_count ?st) w)" "write_snapshot 1 demo_entries []"]
      write_snapshot_payload [of demo_entries 1] by (simp add: of_bytes_def of_header_def snapshot_frame_def)
  have "live (length ?f + 0) (sends (sock (cn_chan demo_conn)))"
    using demo_wire_length(1) live_replicate [of 50 90 400] unfolding f by (simp add: demo_conn_def FrameChannel_init_def)
  from count_sent_live [OF this] obtain sc st where
    s: "count_sent ?f (cn_chan demo_conn) = (ok (), (cn_chan demo_conn)\<lparr>sock := (sock (cn_chan demo_conn))\<lparr>sends := sc,
        outbox := outbox (sock (cn_chan demo_conn)) @ ?f\<rparr>, ch_stats := st\<rparr>)" by blast
  have "length ?f \<le> kHeaderSize + unat kMaxPayload" using demo_wire_length(1) unfolding f by (simp add: kMaxPayload_def)
  then have "snapshot_flush 1 1 False ?st = (ok (), ?st\<lparr>ss_entries := [], ss_count := 0, ss_conn := demo_conn\<lparr>cn_chan :=
      (cn_chan demo_conn)\<lparr>sock := (sock (cn_chan demo_conn))\<lparr>sends := sc, outbox := outbox (sock (cn_chan demo_conn)) @ ?f\<rparr>, ch_stats := st\<rparr>\<rparr>\<rparr>)"
    using s by (simp add: snapshot_flush_def send_raw_def)
  then show ?thesis using run env f
    by (simp add: send_snapshot_def Let_def demo_mirror_def RemoteRoot_init_def FrameChannel_init_def)
qed

theorem snapshot_reaches_client_witness:
  "\<exists>c1. fetch_snapshot 4 demo_mirror = (ok (), c1) \<and> tree_inv (cl_tree c1) \<and> cs_generation (cl_stats c1) = cn_generation demo_conn \<and>
    mirrors (cl_tree c1) (visible_from demo_fs (\<lambda>r d. False) (device_id demo_fs (lit ''/r'')) (lit ''/r'') [])"
proof -
  have env: "env_fuel demo_env = 2" "host_fs (env_host demo_env) (cn_world demo_conn) = demo_fs" "so_root (env_opts demo_env) = lit ''/r''"
    "env_ignore demo_env = []" "so_one_file_system (env_opts demo_env) = True"
    by (simp_all add: demo_env_def demo_host_def demo_opts_def demo_conn_def)
  have m: "cl_next demo_mirror = 1" "\<not> cl_closed demo_mirror" "fresh_id demo_mirror" "max_payload (cl_chan demo_mirror) = kMaxPayload"
    "cl_tree demo_mirror = MetadataTree_init" "length (inbox (sock (cl_chan demo_mirror))) = 90"
    "recvs (sock (cl_chan demo_mirror)) = replicate 100 (RcN 7)" "sends (sock (cl_chan demo_mirror)) = replicate 24 (RcN 30)"
    "selects (sock (cl_chan demo_mirror)) = replicate 200 1" "frame_timeout (cl_chan demo_mirror) = 0"
    using demo_wire_length(1) by (simp_all add: demo_mirror_def RemoteRoot_init_def fresh_id_def FrameChannel_init_def)
  obtain conn1 where s: "send_snapshot demo_env (cl_next demo_mirror) demo_conn = Some (ok (), conn1)"
    "outbox (sock (cn_chan conn1)) = outbox (sock (cn_chan demo_conn)) @ inbox (sock (cl_chan demo_mirror))"
    using demo_sent m(1) by auto
  have f: "casefold [a] = [a]" if "a \<in> {97, 100, 108}" for a
    using that by (auto simp: casefold_def casefold_ascii is_ascii_def ascii_lower_def)
  have names: "list_all snapshot_entry_ok demo_entries"
    by (simp add: snapshot_entry_ok_def demo_entries_def valid_name_def is_path_separator_def f)
  have paths: "distinct (entry_paths demo_entries)" by code_simp
  have len: "length demo_entries = 3" by (simp add: demo_entries_def)
  have "timely (frame_timeout (cl_chan demo_mirror)) (Suc (length demo_entries) + length (inbox (sock (cl_chan demo_mirror)))) (sock (cl_chan demo_mirror))"
    using m len by (simp add: timely_def list_all_iff)
  moreover have "live (length (inbox (sock (cl_chan demo_mirror)))) (recvs (sock (cl_chan demo_mirror)))" "live kHeaderSize (sends (sock (cl_chan demo_mirror)))"
    using m live_replicate by (simp_all add: kHeaderSize_def)
  moreover have sc: "scan_tree (env_fuel demo_env) (host_fs (env_host demo_env) (cn_world demo_conn)) (so_root (env_opts demo_env)) collect
      (\<lambda>r d _. env_ignore demo_env \<noteq> [] \<and> ignored (env_ignore demo_env) r d) (so_one_file_system (env_opts demo_env)) [] =
    Some (ok \<lparr>st_files = 1, st_directories = 1, st_symlinks = 1, st_skipped = 0\<rparr>, demo_entries)"
    unfolding env by (rule demo_entries_scan)
  ultimately have "\<exists>c1. fetch_snapshot 4 demo_mirror = (ok (), c1) \<and> tree_inv (cl_tree c1) \<and> cs_generation (cl_stats c1) = cn_generation demo_conn \<and>
    mirrors (cl_tree c1) (visible_from (host_fs (env_host demo_env) (cn_world demo_conn))
      (\<lambda>r d. env_ignore demo_env \<noteq> [] \<and> ignored (env_ignore demo_env) r d)
      (if so_one_file_system (env_opts demo_env) then device_id (host_fs (env_host demo_env) (cn_world demo_conn)) (so_root (env_opts demo_env)) else None)
      (so_root (env_opts demo_env)) [])"
    using m len tree_invI [OF MetadataTree_init_core]
    by (intro snapshot_reaches_client [OF sc s names paths]) (simp_all add: kMaxSnapshotEntries_def kMaxSnapshotBytes_def)
  then show ?thesis unfolding env by simp
qed

end
