(* ===== verification/Handshake.thy ===== *)
theory Handshake
  imports SnapshotStream
begin

text \<open>
  The mutual handshake from both ends: \<open>RemoteRoot::connect\<close> of the client against the session loop of the
  server, each taking in what the other sends.
\<close>

section \<open>One request and its answer\<close>

text \<open>A request whose answer is the next frame to arrive.\<close>

lemma request_answered:
  assumes c: "\<not> cl_closed c" "fresh_id c" and lim: "length payload \<le> unat kMaxPayload" "length (of_payload m) \<le> unat kMaxPayload"
      "length (of_payload m) \<le> unat (max_payload (cl_chan c))"
    and m: "of_id m = cl_next c" "of_type m \<notin> {MsgError, MsgInvalidation, MsgPing}"
    and ch: "channel_ready (m # ms) (kHeaderSize + length payload + k) (cl_chan c)"
  shows "\<exists>p ch pend ans. request (Suc n) t payload False c =
      (ok p, c\<lparr>cl_next := cl_next c + 1, cl_chan := ch, cl_pending := pend, cl_answered := ans\<rparr>) \<and>
    pd_type p = of_type m \<and> pd_payload p = of_payload m \<and> channel_ready ms k ch \<and> max_payload ch = max_payload (cl_chan c) \<and>
    outbox (sock ch) = outbox (sock (cl_chan c)) @ of_bytes (request_frame t payload c) \<and>
    (\<forall>x. map_of ans x = (if x = cl_next c then None else map_of (cl_answered c) x))"
proof -
  let ?rid = "cl_next c"
  obtain ch1 where s: "send t ?rid payload 0 (cl_chan c) = (ok (), ch1)" "channel_ready (m # ms) k ch1"
    "max_payload ch1 = max_payload (cl_chan c)" "outbox (sock ch1) = outbox (sock (cl_chan c)) @ of_bytes (request_frame t payload c)"
    using channel_ready_send [OF ch lim(1), of t ?rid] by (auto simp: request_frame_def)
  let ?c = "c\<lparr>cl_next := ?rid + 1, cl_pending := AList.update ?rid (ClientPending_init False) (cl_pending c), cl_chan := ch1\<rparr>"
  obtain ch2 where r: "reader_turn ?c = deliver (frame_of m) (?c\<lparr>cl_chan := ch2\<rparr>)" "channel_ready ms k ch2" "max_payload ch2 = max_payload ch1"
    "outbox (sock ch2) = outbox (sock ch1)"
    using ready_turn [of ?c m ms k] c(1) s(2,3) m(2) lim(2,3) by auto
  let ?p = "(ClientPending_init False)\<lparr>pd_type := of_type m, pd_payload := of_payload m, pd_done := True\<rparr>"
  have d: "reader_turn ?c = answer ?rid ?p (?c\<lparr>cl_chan := ch2\<rparr>)"
    using r(1) m(1) by (simp add: deliver_def frame_of_def of_header_def AList.update_conv' ClientPending_init_def Let_def)
  let ?ans = "AList.update ?rid ?p (cl_answered c)"
  have "finish_request ?p = ok ?p" using m(2) by (simp add: finish_request_def)
  then have "await n ?rid (reader_turn ?c) = (ok ?p, (reader_turn ?c)\<lparr>cl_answered := AList.delete ?rid ?ans\<rparr>)"
    unfolding d by (cases n) (simp_all add: AList.update_conv')
  then have "request (Suc n) t payload False c = (ok ?p, (reader_turn ?c)\<lparr>cl_answered := AList.delete ?rid ?ans\<rparr>)"
    using c s(1) by (simp add: request_def fresh_id_def Let_def)
  moreover have "(reader_turn ?c)\<lparr>cl_answered := AList.delete ?rid ?ans\<rparr> =
      c\<lparr>cl_next := ?rid + 1, cl_chan := ch2, cl_pending := cl_pending (reader_turn ?c), cl_answered := AList.delete ?rid ?ans\<rparr>"
    unfolding d by (simp add: answer_def)
  moreover have "map_of (AList.delete ?rid ?ans) x = (if x = ?rid then None else map_of (cl_answered c) x)" for x
    by (auto simp: AList.delete_conv' AList.update_conv')
  ultimately show ?thesis using r s
    by (intro exI [of _ ?p] exI [of _ ch2] exI [of _ "cl_pending (reader_turn ?c)"] exI [of _ "AList.delete ?rid ?ans"]) auto
qed

section \<open>The client's side\<close>

lemma client_auth_message: "client_auth api token cn ack = auth_message api token cn (nonce ack)"
  by (simp add: client_auth_def auth_message_def)

lemma connect_completes:
  assumes c: "\<not> cl_closed c" "cl_token c \<noteq> []" "max_payload (cl_chan c) = kMaxPayload"
      "map_of (cl_answered c) (cl_next c) = None" "map_of (cl_answered c) (cl_next c + 1) = None"
    and cn: "cn = generate_auth_nonce rnd" "cn \<noteq> []"
    and h: "h = client_hello ag cn" "length (write_hello h []) \<le> unat kMaxPayload"
    and ack: "hello_fits ack" "length (write_hello ack []) \<le> unat kMaxPayload" "proof_of ack = auth_proof api (cl_token c) cn (nonce ack) True"
    and m: "m = auth_message api (cl_token c) cn (nonce ack)" "length (write_hello m []) \<le> unat kMaxPayload"
    and ch: "channel_ready [hello_frame MsgHelloAck (cl_next c) ack, ok_frame (cl_next c + 1)]
      (kHeaderSize + length (write_hello h []) + (kHeaderSize + length (write_hello m []) + k)) (cl_chan c)"
  shows "\<exists>c1. connect api ag rnd (Suc n) c = (ok (scrub ack), c1) \<and>
    outbox (sock (cl_chan c1)) = outbox (sock (cl_chan c)) @
      of_bytes (hello_frame MsgHello (cl_next c) h) @ of_bytes (hello_frame MsgAuth (cl_next c + 1) m)"
proof -
  let ?k = "kHeaderSize + length (write_hello m []) + k"
  have f: "fresh_id c" using c(4) by (simp add: fresh_id_def)
  obtain p ch1 pend ans where r1: "request (Suc n) MsgHello (write_hello h []) False c =
      (ok p, c\<lparr>cl_next := cl_next c + 1, cl_chan := ch1, cl_pending := pend, cl_answered := ans\<rparr>)" (is "_ = (_, ?c)")
    "pd_type p = MsgHelloAck" "pd_payload p = write_hello ack []" "channel_ready [ok_frame (cl_next c + 1)] ?k ch1"
    "max_payload ch1 = kMaxPayload" "outbox (sock ch1) = outbox (sock (cl_chan c)) @ of_bytes (hello_frame MsgHello (cl_next c) h)"
    "\<forall>x. map_of ans x = (if x = cl_next c then None else map_of (cl_answered c) x)"
    using request_answered [OF c(1) f h(2), of "hello_frame MsgHelloAck (cl_next c) ack" "[ok_frame (cl_next c + 1)]" ?k n MsgHello] ack(2) c(3) ch
    by (auto simp: hello_frame_def request_frame_def)
  have call1: "call (Suc n) MsgHello (write_hello h []) MsgHelloAck read_hello c = (ok ack, ?c)"
    using r1(1-3) hello_payload(2) [OF ack(1)] by (simp add: call_def)
  have f2: "fresh_id ?c" using r1(7) c(5) by (simp add: fresh_id_def)
  obtain p2 ch2 pend2 ans2 where r2: "request (Suc n) MsgAuth (write_hello m []) False ?c =
      (ok p2, ?c\<lparr>cl_next := cl_next c + 1 + 1, cl_chan := ch2, cl_pending := pend2, cl_answered := ans2\<rparr>)"
    "pd_type p2 = MsgOk" "outbox (sock ch2) = outbox (sock ch1) @ of_bytes (hello_frame MsgAuth (cl_next c + 1) m)"
    using request_answered [of ?c "write_hello m []" "ok_frame (cl_next c + 1)" "[]" k n MsgAuth] c(1) f2 m(2) r1(4,5)
    by (auto simp: hello_frame_def request_frame_def ok_frame_def)
  have eq: "constant_time_equal (proof_of ack) (auth_proof api (cl_token c) cn (nonce ack) True)"
    using ack(3) by (simp add: constant_time_equal_def ct_loop_zero)
  have "connect_auth api (Suc n) cn ack ?c = (ok (scrub ack), ?c\<lparr>cl_next := cl_next c + 1 + 1, cl_chan := ch2, cl_pending := pend2, cl_answered := ans2\<rparr>)"
    using eq r2(1,2) m(1) by (simp add: connect_auth_def client_auth_message)
  then show ?thesis using call1 c(2) cn h(1) r1(6) r2(3) by (simp add: connect_def Let_def)
qed

section \<open>Both sides\<close>

text \<open>
  C3. The handshake completes.  A client and a server that hold the same token, with a working random
  source each and a connection that delivers, come to an understanding: \<open>connect\<close> succeeds with what the server
  said of itself, two iterations of the session loop authenticate the client, register it for
  invalidations and lift the limits; and what each side sends is what the other takes in, byte for byte.
  The client's nonce and proof travel, the token does not.
\<close>

theorem handshake_completes:
  fixes env :: "('w, 'h) ServerEnv"
  defines "token \<equiv> so_token (env_opts env)" and "api \<equiv> env_api env"
  assumes tok: "token \<noteq> []" "cl_token c = token"
    and client: "\<not> cl_closed c" "max_payload (cl_chan c) = kMaxPayload"
      "map_of (cl_answered c) (cl_next c) = None" "map_of (cl_answered c) (cl_next c + 1) = None"
    and server: "serve_start env me conn peers False = Some (st0, limit)"
    and nonces: "cn = generate_auth_nonce rnd" "cn \<noteq> []"
      "sn = generate_auth_nonce (os_getrandom (env_host env) (cn_nonces conn))" "sn \<noteq> []"
    and msgs: "h = client_hello ag cn" "ack = hello_ack env cn sn" "m = auth_message api token cn sn"
    and fits: "hello_fits h" "hello_fits ack" "hello_fits m" "length (write_hello h []) \<le> unat kPreAuthMaxPayload"
      "length (write_hello ack []) \<le> unat kMaxPayload" "length (write_hello m []) \<le> unat kPreAuthMaxPayload"
    and to_server: "channel_ready [hello_frame MsgHello (cl_next c) h, hello_frame MsgAuth (cl_next c + 1) m]
      (kHeaderSize + length (write_hello ack []) + (kHeaderSize + k)) (cn_chan (sv_conn st0))"
    and to_client: "channel_ready [hello_frame MsgHelloAck (cl_next c) ack, ok_frame (cl_next c + 1)]
      (kHeaderSize + length (write_hello h []) + (kHeaderSize + length (write_hello m []) + j)) (cl_chan c)"
  shows "\<exists>c1 st1 st2. connect api ag rnd (Suc n) c = (ok (scrub ack), c1) \<and>
    serve_step env me limit st0 = Some (Again st1) \<and> serve_step env me limit st1 = Some (Again st2) \<and>
    authed (sv_sess st2) \<and> registered (sv_sess st2) \<and> me \<in> set (sv_peers st2) \<and> max_payload (cn_chan (sv_conn st2)) = kMaxPayload \<and>
    outbox (sock (cl_chan c1)) = outbox (sock (cl_chan c)) @ inbox (sock (cn_chan (sv_conn st0))) \<and>
    outbox (sock (cn_chan (sv_conn st2))) = outbox (sock (cn_chan conn)) @ inbox (sock (cl_chan c))"
proof -
  have pre: "unat kPreAuthMaxPayload \<le> unat kMaxPayload" by (simp add: kPreAuthMaxPayload_def kMaxPayload_def)
  have h: "protocol_version h = ucast kVersion" "nonce h = cn" using msgs(1) by (simp_all add: client_hello_def)
  have a: "nonce ack = sn" "proof_of ack = auth_proof api (cl_token c) cn (nonce ack) True"
    using msgs(2) tok(2) by (simp_all add: hello_ack_def server_hello_def api_def token_def)
  obtain c1 where c1: "connect api ag rnd (Suc n) c = (ok (scrub ack), c1)"
    "outbox (sock (cl_chan c1)) = outbox (sock (cl_chan c)) @
      of_bytes (hello_frame MsgHello (cl_next c) h) @ of_bytes (hello_frame MsgAuth (cl_next c + 1) m)"
    using connect_completes [OF client(1) _ client(2-4) nonces(1,2) msgs(1) _ fits(2,5) a(2) _ _ to_client] tok fits(4,6) pre msgs(3) a(1) by auto
  obtain st1 st2 where s: "serve_step env me limit st0 = Some (Again st1)" "serve_step env me limit st1 = Some (Again st2)"
    "authed (sv_sess st2)" "registered (sv_sess st2)" "me \<in> set (sv_peers st2)" "max_payload (cn_chan (sv_conn st2)) = kMaxPayload"
    "outbox (sock (cn_chan (sv_conn st2))) = outbox (sock (cn_chan conn)) @
      of_bytes (hello_frame MsgHelloAck (cl_next c) ack) @ of_bytes (ok_frame (cl_next c + 1))"
    using token_holder_gets_in [of env me conn peers st0 limit h sn m "cl_next c" "cl_next c + 1" k]
      tok(1) server nonces h fits to_server msgs(2,3) by (auto simp: token_def api_def)
  have "inbox (sock (cn_chan (sv_conn st0))) = of_bytes (hello_frame MsgHello (cl_next c) h) @ of_bytes (hello_frame MsgAuth (cl_next c + 1) m)"
    "inbox (sock (cl_chan c)) = of_bytes (hello_frame MsgHelloAck (cl_next c) ack) @ of_bytes (ok_frame (cl_next c + 1))"
    using to_server to_client by (simp_all add: channel_ready_def)
  then show ?thesis using c1 s by auto
qed

section \<open>Examples\<close>

definition demo_cn :: bytes where "demo_cn = generate_auth_nonce (\<lambda>k n. replicate n 9)"

definition demo_greet :: Hello where "demo_greet = client_hello [] demo_cn"

definition demo_reply :: Hello where "demo_reply = hello_ack demo_env demo_cn demo_nonce"

definition demo_prove :: Hello where "demo_prove = auth_message (env_api demo_env) (lit ''secret'') demo_cn demo_nonce"

definition demo_link :: "OutFrame list \<Rightarrow> FrameChannel" where
  "demo_link ms = FrameChannel_init \<lparr>inbox = concat (map of_bytes ms), outbox = [], sends = replicate 400 (RcN 50), recvs = replicate 300 (RcN 50),
     selects = replicate 400 1, clock = [0]\<rparr>"

lemma demo_link_ready:
  assumes "length (concat (map of_bytes ms)) \<le> 300" and "length ms \<le> 100" and "n \<le> 400"
  shows "channel_ready ms n (demo_link ms)" and "channel_ready ms n (set_receive_limits kPreAuthMaxPayload 10000 (demo_link ms))"
  using assms by (simp_all add: channel_ready_def demo_link_def FrameChannel_init_def set_receive_limits_def timely_def live_replicate list_all_iff)

lemma demo_message_lengths:
  "length demo_cn = 32" "length (write_hello demo_greet []) = 47" "length (write_hello demo_reply []) = 120" "length (write_hello demo_prove []) = 79"
  "hello_fits demo_greet" "hello_fits demo_reply" "hello_fits demo_prove"
proof -
  have p: "length (auth_proof (env_api demo_env) t c s d) = 64" for t c s d
    by (rule length_auth_proof) (simp add: demo_env_def)
  show cn: "length demo_cn = 32" by code_simp
  have ag: "length (env_agent demo_env) = 9" by (simp add: demo_env_def)
  show "length (write_hello demo_greet []) = 47" by (subst length_write_hello) (simp_all add: demo_greet_def client_hello_def cn)
  show "length (write_hello demo_reply []) = 120"
    using ag by (subst length_write_hello) (simp_all add: demo_reply_def hello_ack_def server_hello_def p demo_nonce_length)
  show "length (write_hello demo_prove []) = 79" by (subst length_write_hello) (simp_all add: demo_prove_def auth_message_def p)
  show "hello_fits demo_greet" "hello_fits demo_reply" "hello_fits demo_prove"
    using cn ag p demo_nonce_length
    by (simp_all add: hello_fits_def demo_greet_def client_hello_def demo_reply_def hello_ack_def server_hello_def demo_prove_def auth_message_def)
qed

definition demo_caller :: RemoteRoot where
  "demo_caller = RemoteRoot_init (lit ''secret'') Exact (demo_link [hello_frame MsgHelloAck 1 demo_reply, ok_frame 2])"

definition demo_session :: "unit Conn" where
  "demo_session = demo_conn\<lparr>cn_chan := demo_link [hello_frame MsgHello 1 demo_greet, hello_frame MsgAuth 2 demo_prove]\<rparr>"

definition demo_accepted :: "unit ServeState" where
  "demo_accepted = \<lparr>sv_conn = demo_session\<lparr>cn_chan := set_receive_limits kPreAuthMaxPayload 10000 (cn_chan demo_session)\<rparr>,
     sv_sess = \<lparr>authed = False, registered = False, hs = Handshake_init\<rparr>, sv_peers = [], sv_stopping = False\<rparr>"

lemma demo_accepts: "serve_start demo_env 1 demo_session [] False = Some (demo_accepted, 10000000000)"
proof -
  have "clock_now (sock (cn_chan demo_session)) = (0, sock (cn_chan demo_session))"
    by (simp add: demo_session_def demo_link_def FrameChannel_init_def clock_now_def)
  then show ?thesis by (simp add: serve_start_def demo_env_def demo_opts_def demo_accepted_def)
qed

theorem handshake_completes_witness:
  "\<exists>c1 st1 st2. connect (env_api demo_env) [] (\<lambda>k n. replicate n 9) (Suc 0) demo_caller = (ok (scrub demo_reply), c1) \<and>
    serve_step demo_env 1 10000000000 demo_accepted = Some (Again st1) \<and> serve_step demo_env 1 10000000000 st1 = Some (Again st2) \<and>
    authed (sv_sess st2) \<and> registered (sv_sess st2) \<and> 1 \<in> set (sv_peers st2) \<and> max_payload (cn_chan (sv_conn st2)) = kMaxPayload \<and>
    outbox (sock (cl_chan c1)) = outbox (sock (cl_chan demo_caller)) @ inbox (sock (cn_chan (sv_conn demo_accepted))) \<and>
    outbox (sock (cn_chan (sv_conn st2))) = outbox (sock (cn_chan demo_session)) @ inbox (sock (cl_chan demo_caller))"
proof (rule handshake_completes [where cn = demo_cn and sn = demo_nonce and h = demo_greet and m = demo_prove and k = 0 and j = 0])
  note l = demo_message_lengths
  have c: "cl_next demo_caller = 1" by (simp add: demo_caller_def RemoteRoot_init_def)
  show "so_token (env_opts demo_env) \<noteq> []" "cl_token demo_caller = so_token (env_opts demo_env)"
    by (simp_all add: demo_env_def demo_opts_def demo_caller_def RemoteRoot_init_def)
  show "\<not> cl_closed demo_caller" "max_payload (cl_chan demo_caller) = kMaxPayload" "map_of (cl_answered demo_caller) (cl_next demo_caller) = None"
    "map_of (cl_answered demo_caller) (cl_next demo_caller + 1) = None"
    by (simp_all add: demo_caller_def RemoteRoot_init_def demo_link_def FrameChannel_init_def)
  show "serve_start demo_env 1 demo_session [] False = Some (demo_accepted, 10000000000)" by (rule demo_accepts)
  show "demo_cn = generate_auth_nonce (\<lambda>k n. replicate n 9)" by (rule demo_cn_def)
  show "demo_cn \<noteq> []" "demo_nonce \<noteq> []" using l(1) demo_nonce_length by auto
  show "demo_nonce = generate_auth_nonce (os_getrandom (env_host demo_env) (cn_nonces demo_session))"
    by (simp add: demo_nonce_def demo_env_def demo_session_def demo_conn_def)
  show "demo_greet = client_hello [] demo_cn" "demo_reply = hello_ack demo_env demo_cn demo_nonce"
    "demo_prove = auth_message (env_api demo_env) (so_token (env_opts demo_env)) demo_cn demo_nonce"
    by (simp_all add: demo_greet_def demo_reply_def demo_prove_def demo_env_def demo_opts_def)
  show "hello_fits demo_greet" "hello_fits demo_reply" "hello_fits demo_prove" by (rule l)+
  show "length (write_hello demo_greet []) \<le> unat kPreAuthMaxPayload" "length (write_hello demo_reply []) \<le> unat kMaxPayload"
    "length (write_hello demo_prove []) \<le> unat kPreAuthMaxPayload"
    unfolding l by (simp_all add: kPreAuthMaxPayload_def kMaxPayload_def)
  show "channel_ready [hello_frame MsgHello (cl_next demo_caller) demo_greet, hello_frame MsgAuth (cl_next demo_caller + 1) demo_prove]
      (kHeaderSize + length (write_hello demo_reply []) + (kHeaderSize + 0)) (cn_chan (sv_conn demo_accepted))"
    using demo_link_ready(2) l by (simp add: c demo_accepted_def demo_session_def of_bytes_def hello_frame_def kHeaderSize_def)
  show "channel_ready [hello_frame MsgHelloAck (cl_next demo_caller) demo_reply, ok_frame (cl_next demo_caller + 1)]
      (kHeaderSize + length (write_hello demo_greet []) + (kHeaderSize + length (write_hello demo_prove []) + 0)) (cl_chan demo_caller)"
    using demo_link_ready(1) l by (simp add: c) (simp add: demo_caller_def RemoteRoot_init_def of_bytes_def hello_frame_def ok_frame_def kHeaderSize_def)
qed

end
