(* ===== verification/FsNotify.thy ===== *)
theory FsNotify
  imports Client
begin

text \<open>
  \<open>src/mount/fsnotify_bridge.hpp\<close>, \<open>fsnotify_bridge.cpp\<close>, in their Linux branch: the bridge that makes changes of the
  far side visible to local file watchers by performing the operation once more on the mount itself.

  The poke thread issues file system calls against a mount that this process serves, so the kernel calls
  back into the handlers of the mount while a poke is in flight.  The kernel is outside the sources: it
  is a record of the calls the bridge makes, each a transformer of the bridge together with the rest of the
  system \<open>'x\<close> (the mount).  The thread object is the flag \<open>nb_joinable\<close>; the reports of failed pokes on standard
  error are \<open>nb_log\<close> (the three arguments of the message), the two messages of \<open>verify_root\<close> are left out.
\<close>

section \<open>State\<close>

datatype Poke = PokeNone | PokeMknod | PokeMkdir | PokeUnlink | PokeRmdir | PokeRename

datatype Pretend = PtNothing | PtAbsent | PtPresent

record NotifyStats =
  ns_events :: u64
  ns_delivered :: u64
  ns_failed :: u64
  ns_dropped :: u64
  ns_rescans :: u64

record Job =
  jb_change :: ChangeKind
  jb_path :: bytes
  jb_path2 :: bytes
  jb_kind :: NodeKind
  jb_rescan :: bool

record Active =
  av_what :: Poke
  av_path :: bytes
  av_path2 :: bytes
  av_pretend :: Pretend
  av_kind :: NodeKind

record FsNotifyBridge =
  nb_root :: bytes
  nb_root_dev :: u64
  nb_joinable :: bool
  nb_running :: bool
  nb_stop :: bool
  nb_poke_tid :: int
  nb_self_pid :: int
  nb_queue :: "Job list"
  nb_active :: Active
  nb_stats :: NotifyStats
  nb_log :: "(bytes \<times> bytes \<times> bytes) list"

definition Active_init :: Active where
  "Active_init = \<lparr>av_what = PokeNone, av_path = [], av_path2 = [], av_pretend = PtNothing, av_kind = File\<rparr>"

definition FsNotifyBridge_init :: FsNotifyBridge where
  "FsNotifyBridge_init =
    \<lparr>nb_root = [], nb_root_dev = 0, nb_joinable = False, nb_running = False, nb_stop = False, nb_poke_tid = 0, nb_self_pid = 0,
     nb_queue = [], nb_active = Active_init,
     nb_stats = \<lparr>ns_events = 0, ns_delivered = 0, ns_failed = 0, ns_dropped = 0, ns_rescans = 0\<rparr>, nb_log = []\<rparr>"

definition kQueueCap :: nat where "kQueueCap = 65536"

definition kMaxReportedFailures :: u64 where "kMaxReportedFailures = 8"

fun change_name :: "ChangeKind \<Rightarrow> bytes" where
  "change_name Created = lit ''creation of''"
| "change_name Modified = lit ''change to''"
| "change_name Removed = lit ''removal of''"
| "change_name MovedFrom = lit ''move away from''"
| "change_name MovedTo = lit ''move onto''"
| "change_name Unknown = lit ''change to''"

definition bridge_abs :: "FsNotifyBridge \<Rightarrow> bytes \<Rightarrow> bytes" where
  "bridge_abs b rel =
    (let out = (if nb_root b \<noteq> [] \<and> last (nb_root b) = slash then butlast (nb_root b) else nb_root b)
     in out @ slash # rel)"

section \<open>What the handlers ask\<close>

definition is_self :: "FsNotifyBridge \<Rightarrow> int \<Rightarrow> bool" where
  "is_self b caller \<longleftrightarrow> caller \<noteq> 0 \<and> (caller = nb_poke_tid b \<or> caller = nb_self_pid b)"

definition set_active :: "Active \<Rightarrow> FsNotifyBridge \<Rightarrow> FsNotifyBridge" where
  "set_active a b = b\<lparr>nb_active := a\<rparr>"

definition clear_active :: "FsNotifyBridge \<Rightarrow> FsNotifyBridge" where
  "clear_active b = b\<lparr>nb_active := Active_init\<rparr>"

definition pretend :: "FsNotifyBridge \<Rightarrow> int \<Rightarrow> bytes \<Rightarrow> NodeKind \<Rightarrow> Pretend \<times> NodeKind" where
  "pretend b caller rel k =
    (if \<not> is_self b caller then (PtNothing, k)
     else if av_pretend (nb_active b) = PtNothing \<or> av_path (nb_active b) \<noteq> rel then (PtNothing, k)
     else (av_pretend (nb_active b), av_kind (nb_active b)))"

definition is_poke_thread :: "FsNotifyBridge \<Rightarrow> int \<Rightarrow> bool" where
  "is_poke_thread b caller = is_self b caller"

definition claim :: "int \<Rightarrow> Poke \<Rightarrow> bytes \<Rightarrow> bytes \<Rightarrow> FsNotifyBridge \<Rightarrow> bool \<times> FsNotifyBridge" where
  "claim caller what rel rel2 b =
    (if \<not> is_self b caller then (False, b)
     else if av_what (nb_active b) \<noteq> what \<or> av_path (nb_active b) \<noteq> rel \<or> av_path2 (nb_active b) \<noteq> rel2 then (False, b)
     else (True, b\<lparr>nb_active := Active_init\<rparr>))"

section \<open>Posting changes\<close>

text \<open>The loop over the changes: the sources that wait for their destination, by cookie, and the jobs so far.\<close>

type_synonym pairing = "(u32 \<times> nat) list \<times> Job list"

definition post_change :: "AppliedChange \<Rightarrow> pairing \<Rightarrow> pairing" where
  "post_change ch st =
    (let (froms, jobs) = st in
     if ac_rescan ch then
       (froms, jobs @ [\<lparr>jb_change = Unknown, jb_path = [], jb_path2 = [], jb_kind = Directory, jb_rescan = True\<rparr>])
     else if ac_change ch = MovedFrom \<and> ac_cookie ch \<noteq> 0 then
       (if map_of froms (ac_cookie ch) = None then froms @ [(ac_cookie ch, length jobs)] else froms,
        jobs @ [\<lparr>jb_change = MovedFrom, jb_path = ac_path ch, jb_path2 = [], jb_kind = ac_kind ch, jb_rescan = False\<rparr>])
     else if ac_change ch = MovedTo \<and> ac_cookie ch \<noteq> 0 then
       (case map_of froms (ac_cookie ch) of
          Some i \<Rightarrow> (AList.delete (ac_cookie ch) froms, jobs[i := (jobs ! i)\<lparr>jb_path2 := ac_path ch\<rparr>])
        | None \<Rightarrow>
            (froms, jobs @ [\<lparr>jb_change = Created, jb_path = ac_path ch, jb_path2 = [], jb_kind = ac_kind ch, jb_rescan = False\<rparr>]))
     else
       (froms, jobs @ [\<lparr>jb_change = ac_change ch, jb_path = ac_path ch, jb_path2 = [], jb_kind = ac_kind ch, jb_rescan = False\<rparr>]))"

definition post_jobs :: "AppliedChange list \<Rightarrow> Job list" where
  "post_jobs changes =
    (let (froms, jobs) = fold post_change changes ([], [])
     in fold (\<lambda>(ck, i) js. js[i := (js ! i)\<lparr>jb_change := Removed\<rparr>]) froms jobs)"

definition enqueue_job :: "Job \<Rightarrow> Job list \<times> nat \<Rightarrow> Job list \<times> nat" where
  "enqueue_job j st =
    (let (q, dropped1) = st
     in if length q \<ge> kQueueCap then (tl q @ [j], dropped1 + 1) else (q @ [j], dropped1))"

definition post :: "AppliedChange list \<Rightarrow> FsNotifyBridge \<Rightarrow> FsNotifyBridge" where
  "post changes b =
    (if \<not> nb_running b then b
     else
       let (q, dropped1) = fold enqueue_job (post_jobs changes) (nb_queue b, 0)
       in b\<lparr>nb_queue := q,
            nb_stats := (nb_stats b)\<lparr>ns_dropped := ns_dropped (nb_stats b) + of_nat dropped1\<rparr>\<rparr>)"

section \<open>Pokes\<close>

text \<open>The calls on the kernel; \<open>bool\<close> is the test \<open>rc == 0\<close>, \<open>None\<close> a failed \<open>lstat\<close> or \<open>statfs\<close>.\<close>

type_synonym 'x sys = "FsNotifyBridge \<times> 'x"

record 'x PokeOs =
  os_gettid :: int
  os_getpid :: int
  os_mkdir :: "bytes \<Rightarrow> 'x sys \<Rightarrow> bool \<times> 'x sys"
  os_mknod :: "bytes \<Rightarrow> 'x sys \<Rightarrow> bool \<times> 'x sys"
  os_unlink :: "bytes \<Rightarrow> 'x sys \<Rightarrow> bool \<times> 'x sys"
  os_rmdir :: "bytes \<Rightarrow> 'x sys \<Rightarrow> bool \<times> 'x sys"
  os_rename_poke :: "bytes \<Rightarrow> bytes \<Rightarrow> 'x sys \<Rightarrow> bool \<times> 'x sys"
  os_utimens_mtime :: "bytes \<Rightarrow> 'x sys \<Rightarrow> bool \<times> 'x sys"
  os_lstat_dev :: "bytes \<Rightarrow> 'x sys \<Rightarrow> u64 option"
  os_statfs_type :: "bytes \<Rightarrow> 'x sys \<Rightarrow> u64 option"
  invalidate_hook :: "(bytes \<Rightarrow> 'x sys \<Rightarrow> 'x sys) option"

definition on_bridge :: "(FsNotifyBridge \<Rightarrow> FsNotifyBridge) \<Rightarrow> 'x sys \<Rightarrow> 'x sys" where
  "on_bridge f s = (f (fst s), snd s)"

definition inside_mount :: "'x PokeOs \<Rightarrow> bytes \<Rightarrow> 'x sys \<Rightarrow> bool" where
  "inside_mount os rel s =
    (let b = fst s;
         par = (case rfind_slash rel of None \<Rightarrow> nb_root b | Some i \<Rightarrow> bridge_abs b (take i rel))
     in case os_lstat_dev os par s of None \<Rightarrow> False | Some dev \<Rightarrow> dev = nb_root_dev b)"

definition call_invalidate :: "'x PokeOs \<Rightarrow> bytes \<Rightarrow> 'x sys \<Rightarrow> 'x sys" where
  "call_invalidate os rel s = (case invalidate_hook os of None \<Rightarrow> s | Some f \<Rightarrow> f rel s)"

definition poke_create :: "'x PokeOs \<Rightarrow> Job \<Rightarrow> 'x sys \<Rightarrow> bool \<times> 'x sys" where
  "poke_create os job s =
    (if jb_path job = [] \<or> \<not> inside_mount os (jb_path job) s then (False, s)
     else
       let dir = (jb_kind job = Directory);
           s1 = on_bridge (set_active \<lparr>av_what = (if dir then PokeMkdir else PokeMknod), av_path = jb_path job, av_path2 = [],
                  av_pretend = PtAbsent, av_kind = jb_kind job\<rparr>) s;
           p = bridge_abs (fst s1) (jb_path job);
           (rc, s2) = (if dir then os_mkdir os p s1 else os_mknod os p s1)
       in (rc, on_bridge clear_active s2))"

definition poke_modify :: "'x PokeOs \<Rightarrow> Job \<Rightarrow> 'x sys \<Rightarrow> bool \<times> 'x sys" where
  "poke_modify os job s =
    (if jb_path job \<noteq> [] \<and> \<not> inside_mount os (jb_path job) s then (False, s)
     else
       let p = (if jb_path job = [] then nb_root (fst s) else bridge_abs (fst s) (jb_path job))
       in os_utimens_mtime os p s)"

definition poke_remove :: "'x PokeOs \<Rightarrow> Job \<Rightarrow> 'x sys \<Rightarrow> bool \<times> 'x sys" where
  "poke_remove os job s =
    (if jb_path job = [] \<or> \<not> inside_mount os (jb_path job) s then (False, s)
     else
       let dir = (jb_kind job = Directory);
           s1 = on_bridge (set_active \<lparr>av_what = (if dir then PokeRmdir else PokeUnlink), av_path = jb_path job, av_path2 = [],
                  av_pretend = PtPresent, av_kind = jb_kind job\<rparr>) s;
           p = bridge_abs (fst s1) (jb_path job);
           (rc, s2) = (if dir then os_rmdir os p s1 else os_unlink os p s1);
           s3 = on_bridge clear_active s2
       in (rc, if \<not> rc then call_invalidate os (jb_path job) s3 else s3))"

definition poke_move :: "'x PokeOs \<Rightarrow> Job \<Rightarrow> 'x sys \<Rightarrow> bool \<times> 'x sys" where
  "poke_move os job s =
    (if jb_path job = [] \<or> jb_path2 job = [] then (False, s)
     else if \<not> inside_mount os (jb_path job) s \<or> \<not> inside_mount os (jb_path2 job) s then (False, s)
     else
       let s1 = on_bridge (set_active \<lparr>av_what = PokeRename, av_path = jb_path job, av_path2 = jb_path2 job,
                  av_pretend = PtPresent, av_kind = jb_kind job\<rparr>) s;
           (rc, s2) = os_rename_poke os (bridge_abs (fst s1) (jb_path job)) (bridge_abs (fst s1) (jb_path2 job)) s1;
           s3 = on_bridge clear_active s2
       in (rc, call_invalidate os (if rc then jb_path2 job else jb_path job) s3))"

section \<open>The poke thread\<close>

definition count_event :: "Job \<Rightarrow> FsNotifyBridge \<Rightarrow> FsNotifyBridge" where
  "count_event job b =
    b\<lparr>nb_stats := (nb_stats b)\<lparr>ns_events := ns_events (nb_stats b) + 1,
        ns_rescans := ns_rescans (nb_stats b) + (if jb_rescan job then 1 else 0)\<rparr>\<rparr>"

definition count_outcome :: "Job \<Rightarrow> bool \<Rightarrow> FsNotifyBridge \<Rightarrow> FsNotifyBridge" where
  "count_outcome job good b =
    (if good then b\<lparr>nb_stats := (nb_stats b)\<lparr>ns_delivered := ns_delivered (nb_stats b) + 1\<rparr>\<rparr>
     else
       let b1 = b\<lparr>nb_stats := (nb_stats b)\<lparr>ns_failed := ns_failed (nb_stats b) + 1\<rparr>\<rparr>
       in if ns_failed (nb_stats b1) \<le> kMaxReportedFailures
          then b1\<lparr>nb_log := nb_log b1 @ [(change_name (jb_change job), if jb_path job = [] then lit ''<root>'' else jb_path job,
                 if ns_failed (nb_stats b1) = kMaxReportedFailures then lit '' (further failures not reported)'' else [])]\<rparr>
          else b1)"

definition bridge_deliver :: "'x PokeOs \<Rightarrow> Job \<Rightarrow> 'x sys \<Rightarrow> 'x sys" where
  "bridge_deliver os job s =
    (let s1 = on_bridge (count_event job) s in
     if jb_rescan job then
       (let (good, s2) = poke_modify os \<lparr>jb_change = Modified, jb_path = [], jb_path2 = [], jb_kind = Directory, jb_rescan = False\<rparr> s1
        in on_bridge (count_outcome job good) s2)
     else if jb_path2 job \<noteq> [] then
       (let (good, s2) = poke_move os job s1 in on_bridge (count_outcome job good) s2)
     else
       (case jb_change job of
          Created \<Rightarrow> (let (good, s2) = poke_create os job s1 in on_bridge (count_outcome job good) s2)
        | Modified \<Rightarrow> (let (good, s2) = poke_modify os job s1 in on_bridge (count_outcome job good) s2)
        | Removed \<Rightarrow> (let (good, s2) = poke_remove os job s1 in on_bridge (count_outcome job good) s2)
        | MovedFrom \<Rightarrow> (let (good, s2) = poke_remove os job s1 in on_bridge (count_outcome job good) s2)
        | MovedTo \<Rightarrow> (let (good, s2) = poke_create os job s1 in on_bridge (count_outcome job good) s2)
        | Unknown \<Rightarrow> s1))"

definition kFuseSuperMagic :: u64 where "kFuseSuperMagic = 0x65735546"

definition verify_root :: "'x PokeOs \<Rightarrow> 'x sys \<Rightarrow> bool \<times> 'x sys" where
  "verify_root os s =
    (case (os_statfs_type os (nb_root (fst s)) s, os_lstat_dev os (nb_root (fst s)) s) of
       (Some ty, Some dev) \<Rightarrow>
         if ty \<noteq> kFuseSuperMagic then (False, s) else (True, on_bridge (\<lambda>b. b\<lparr>nb_root_dev := dev\<rparr>) s)
     | _ \<Rightarrow> (False, s))"

text \<open>The beginning of \<open>run\<close>, and one round of its loop: \<open>None\<close> while it waits or when it ends.\<close>

definition run_begin :: "'x PokeOs \<Rightarrow> 'x sys \<Rightarrow> bool \<times> 'x sys" where
  "run_begin os s =
    (let s1 = on_bridge (\<lambda>b. b\<lparr>nb_poke_tid := os_gettid os\<rparr>) s;
         (good, s2) = verify_root os s1
     in if good then (True, s2) else (False, on_bridge (\<lambda>b. b\<lparr>nb_running := False\<rparr>) s2))"

definition run_turn :: "'x PokeOs \<Rightarrow> 'x sys \<Rightarrow> 'x sys option" where
  "run_turn os s =
    (if nb_stop (fst s) then None
     else case nb_queue (fst s) of
       [] \<Rightarrow> None
     | job # q \<Rightarrow> Some (bridge_deliver os job (on_bridge (\<lambda>b. b\<lparr>nb_queue := q\<rparr>) s)))"

definition bridge_start :: "'x PokeOs \<Rightarrow> bytes \<Rightarrow> FsNotifyBridge \<Rightarrow> unit result \<times> FsNotifyBridge" where
  "bridge_start os mount_root b =
    (if nb_running b then (ok (), b)
     else (ok (), b\<lparr>nb_root := mount_root, nb_self_pid := os_getpid os, nb_stop := False, nb_running := True, nb_joinable := True\<rparr>))"

text \<open>\<open>stop\<close> returns when the thread has been joined; by then the poke that was in flight is over.\<close>

definition bridge_stop :: "FsNotifyBridge \<Rightarrow> FsNotifyBridge" where
  "bridge_stop b =
    (if \<not> nb_running b then b
     else clear_active (b\<lparr>nb_running := False, nb_stop := True, nb_queue := [], nb_joinable := False\<rparr>))"

end
