(* ===== verification/FuseMount.thy ===== *)
theory FuseMount
  imports ClientOps FsNotify "HOL-Library.Signed_Division"
begin

text \<open>
  \<open>src/mount/fuse_mount.hpp\<close>, \<open>fuse_mount.cpp\<close>, in their Linux branch: the handlers of the FUSE operations over
  the client, the write-back buffers of open files, the queue of kernel caches to drop, and the hooks that
  tie the client, the queue and the notification bridge together.

  A handler gets the call's context (the calling task, the user, the patience of a request and the clock)
  and the state of the mount, and answers zero or a negative error number.  The write handles that the
  code allocates on the heap and keeps in \<open>fi->fh\<close> are a table from addresses to handles; \<open>fi\<close> is \<open>None\<close> for a
  null pointer, and the address \<open>0\<close> is no handle.
\<close>

section \<open>State\<close>

record WriteHandle =
  wh_path :: bytes
  wh_start :: u64
  wh_buf :: bytes

record FuseCall =
  fc_caller :: int
  fc_uid :: u32
  fc_gid :: u32
  fc_wait :: nat
  fc_now :: i64

record FuseMount =
  mt_root :: RemoteRoot
  mt_writeback :: bool
  mt_notify :: "FsNotifyBridge option"
  mt_handles :: "(u64 \<times> WriteHandle) list"
  mt_next :: u64
  mt_inval :: "bytes list"
  mt_inval_stop :: bool

record StatT =
  st_mode :: u32
  st_nlink :: nat
  st_size :: i64
  st_uid :: u32
  st_gid :: u32
  st_sec :: int
  st_nsec :: int

definition kWriteBackCap :: nat where "kWriteBackCap = 8 * 2 ^ 20"

definition kInvalQueueCap :: nat where "kInvalQueueCap = 4096"

definition EPERM :: int where "EPERM = 1"
definition ENOENT :: int where "ENOENT = 2"
definition EIO :: int where "EIO = 5"
definition EEXIST :: int where "EEXIST = 17"
definition ENOTDIR :: int where "ENOTDIR = 20"
definition EISDIR :: int where "EISDIR = 21"
definition EINVAL :: int where "EINVAL = 22"
definition ETIMEDOUT :: int where "ETIMEDOUT = 110"

definition err_to_errno :: "Errc \<Rightarrow> int" where
  "err_to_errno e =
    (if e = NotFound then - ENOENT
     else if e = AlreadyExists then - EEXIST
     else if e = NotADirectory then - ENOTDIR
     else if e = IsADirectory then - EISDIR
     else if e = InvalidPath \<or> e = InvalidArgument then - EINVAL
     else if e = Timeout then - ETIMEDOUT
     else if e = ConnectionClosed then - EIO
     else - EIO)"

text \<open>\<open>static_cast<int>\<close> of a 64-bit count.\<close>

definition int_of_count :: "u64 \<Rightarrow> int" where
  "int_of_count n = sint (ucast n :: 32 word)"

definition with_root :: "(RemoteRoot \<Rightarrow> 'a \<times> RemoteRoot) \<Rightarrow> FuseMount \<Rightarrow> 'a \<times> FuseMount" where
  "with_root f mt = (let (r, c) = f (mt_root mt) in (r, mt\<lparr>mt_root := c\<rparr>))"

section \<open>Paths and attributes\<close>

definition to_fuse_path :: "bytes \<Rightarrow> bytes" where
  "to_fuse_path rel = slash # rel"

definition present_name :: "bytes \<Rightarrow> bytes" where
  "present_name raw = raw"

definition to_rel :: "bytes \<Rightarrow> bytes" where
  "to_rel path = dropWhile (\<lambda>ch. ch = slash) path"

definition fill_stat :: "FuseCall \<Rightarrow> Node \<Rightarrow> StatT" where
  "fill_stat fc nd =
    (let a = attr nd;
         m = (if kind a = Directory then 0x41ED else if kind a = Symlink then 0xA1FF else 0x81A4)
     in \<lparr>st_mode = m, st_nlink = (if kind a = Directory then 2 else 1), st_size = (if kind a = Directory then 0 else size_of a),
         st_uid = fc_uid fc, st_gid = fc_gid fc,
         st_sec = sint (mtime_ns a) sdiv 1000000000, st_nsec = sint (mtime_ns a) smod 1000000000\<rparr>)"

definition fill_ghost_stat :: "FuseCall \<Rightarrow> NodeKind \<Rightarrow> StatT" where
  "fill_ghost_stat fc k =
    \<lparr>st_mode = (if k = Directory then 0x41ED else 0x81A4), st_nlink = (if k = Directory then 2 else 1), st_size = 0,
     st_uid = fc_uid fc, st_gid = fc_gid fc, st_sec = 0, st_nsec = 0\<rparr>"

section \<open>The bridge's own requests\<close>

datatype PokeVerdict = NotOurs | Claimed | Refuse

definition claim_poke :: "FuseCall \<Rightarrow> Poke \<Rightarrow> bytes \<Rightarrow> bytes \<Rightarrow> FuseMount \<Rightarrow> PokeVerdict \<times> FuseMount" where
  "claim_poke fc what rel rel2 mt =
    (case mt_notify mt of
       None \<Rightarrow> (NotOurs, mt)
     | Some b \<Rightarrow>
         (case claim (fc_caller fc) what rel rel2 b of
            (True, b1) \<Rightarrow> (Claimed, mt\<lparr>mt_notify := Some b1\<rparr>)
          | (False, b1) \<Rightarrow>
              (if is_poke_thread b1 (fc_caller fc) then Refuse else NotOurs, mt\<lparr>mt_notify := Some b1\<rparr>)))"

text \<open>The common head of the mutating handlers: what to do when the request is an ordinary one.\<close>

definition unless_poke ::
  "FuseCall \<Rightarrow> Poke \<Rightarrow> bytes \<Rightarrow> bytes \<Rightarrow> (FuseMount \<Rightarrow> int \<times> FuseMount) \<Rightarrow> FuseMount \<Rightarrow> int \<times> FuseMount" where
  "unless_poke fc what rel rel2 forward mt =
    (case claim_poke fc what rel rel2 mt of
       (Claimed, mt1) \<Rightarrow> (0, mt1)
     | (Refuse, mt1) \<Rightarrow> (- EIO, mt1)
     | (NotOurs, mt1) \<Rightarrow> forward mt1)"

definition errno_of :: "unit result \<times> FuseMount \<Rightarrow> int \<times> FuseMount" where
  "errno_of x = (case x of (Inl e, mt) \<Rightarrow> (err_to_errno e, mt) | (Inr _, mt) \<Rightarrow> (0, mt))"

section \<open>Metadata\<close>

definition op_getattr :: "FuseCall \<Rightarrow> bytes \<Rightarrow> FuseMount \<Rightarrow> int \<times> StatT option" where
  "op_getattr fc path mt =
    (let rel = to_rel path;
         (pt, k) = (case mt_notify mt of None \<Rightarrow> (PtNothing, File) | Some b \<Rightarrow> pretend b (fc_caller fc) rel File)
     in case pt of
          PtAbsent \<Rightarrow> (- ENOENT, None)
        | PtPresent \<Rightarrow> (0, Some (fill_ghost_stat fc k))
        | PtNothing \<Rightarrow>
            (case lookup (cl_tree (mt_root mt)) rel CaseInsensitive of
               None \<Rightarrow> (- ENOENT, None)
             | Some i \<Rightarrow> (0, Some (fill_stat fc (node (cl_tree (mt_root mt)) i)))))"

text \<open>The filler is libfuse's: it takes a name and its attributes, and answers non-zero when the buffer is full.\<close>

type_synonym 'b filler = "bytes \<Rightarrow> StatT option \<Rightarrow> 'b \<Rightarrow> int \<times> 'b"

definition fill_child :: "FuseCall \<Rightarrow> 'b filler \<Rightarrow> MetadataTree \<Rightarrow> NodeId \<Rightarrow> int \<times> 'b \<Rightarrow> int \<times> 'b" where
  "fill_child fc fill t k st =
    (if fst st \<noteq> 0 then st else fill (present_name (name_of t k)) (Some (fill_stat fc (node t k))) (snd st))"

definition op_readdir :: "FuseCall \<Rightarrow> bytes \<Rightarrow> 'b filler \<Rightarrow> 'b \<Rightarrow> FuseMount \<Rightarrow> int \<times> 'b" where
  "op_readdir fc path fill buf mt =
    (let t = cl_tree (mt_root mt) in
     case lookup t (to_rel path) CaseInsensitive of
       None \<Rightarrow> (- ENOENT, buf)
     | Some i \<Rightarrow>
         if \<not> is_dir (node t i) then (- ENOTDIR, buf)
         else
           let (rc1, b1) = fill [dot] None buf;
               (rc2, b2) = fill [dot, dot] None b1;
               (rc3, b3) = fold (fill_child fc fill t) (children t i) (0, b2)
           in (0, b3))"

definition path_exists :: "bytes \<Rightarrow> FuseMount \<Rightarrow> int" where
  "path_exists path mt =
    (case lookup (cl_tree (mt_root mt)) (to_rel path) CaseInsensitive of Some i \<Rightarrow> 0 | None \<Rightarrow> - ENOENT)"

definition op_chmod :: "bytes \<Rightarrow> FuseMount \<Rightarrow> int" where
  "op_chmod path mt = path_exists path mt"

definition op_utimens :: "bytes \<Rightarrow> FuseMount \<Rightarrow> int" where
  "op_utimens path mt = path_exists path mt"

text \<open>The answer of \<open>readlink\<close>: the bytes put into the buffer, the final zero included.\<close>

definition op_readlink :: "FuseCall \<Rightarrow> bytes \<Rightarrow> nat \<Rightarrow> FuseMount \<Rightarrow> (int \<times> bytes) \<times> FuseMount" where
  "op_readlink fc path room1 mt =
    (if room1 = 0 then ((- EINVAL, []), mt)
     else case with_root (readlink (fc_wait fc) (to_rel path)) mt of
       (Inl e, mt1) \<Rightarrow> ((err_to_errno e, []), mt1)
     | (Inr tgt, mt1) \<Rightarrow> ((0, take (min (length tgt) (room1 - 1)) tgt @ [0]), mt1))"

section \<open>Open files\<close>

definition new_handle :: "bytes \<Rightarrow> u64 option \<Rightarrow> FuseMount \<Rightarrow> u64 option \<times> FuseMount" where
  "new_handle rel fi mt =
    (if mt_writeback mt \<and> fi \<noteq> None
     then (Some (mt_next mt),
           mt\<lparr>mt_next := mt_next mt + 1, mt_handles := AList.update (mt_next mt) \<lparr>wh_path = rel, wh_start = 0, wh_buf = []\<rparr> (mt_handles mt)\<rparr>)
     else (fi, mt))"

definition handle_of :: "u64 option \<Rightarrow> FuseMount \<Rightarrow> (u64 \<times> WriteHandle) option" where
  "handle_of fi mt =
    (case fi of
       None \<Rightarrow> None
     | Some a \<Rightarrow> if a = 0 then None else map_option (Pair a) (map_of (mt_handles mt) a))"

definition put_handle :: "u64 \<Rightarrow> WriteHandle \<Rightarrow> FuseMount \<Rightarrow> FuseMount" where
  "put_handle a h mt = mt\<lparr>mt_handles := AList.update a h (mt_handles mt)\<rparr>"

text \<open>
  What \<open>flush_handle\<close> does to the handle, for any way \<open>wr\<close> of writing a run of bytes to the far side; and the
  body of the write-back branch of \<open>op_write\<close> behind it.
\<close>

type_synonym 's writer = "bytes \<Rightarrow> u64 \<Rightarrow> bytes \<Rightarrow> 's \<Rightarrow> u64 result \<times> 's"

definition flush_buf :: "'s writer \<Rightarrow> WriteHandle \<Rightarrow> 's \<Rightarrow> int \<times> WriteHandle \<times> 's" where
  "flush_buf wr h s =
    (if wh_buf h = [] then (0, h, s)
     else case wr (wh_path h) (wh_start h) (wh_buf h) s of
       (Inl e, s1) \<Rightarrow> (err_to_errno e, h, s1)
     | (Inr _, s1) \<Rightarrow> (0, h\<lparr>wh_start := wh_start h + of_nat (length (wh_buf h)), wh_buf := []\<rparr>, s1))"

definition extend_buf :: "'s writer \<Rightarrow> u64 \<Rightarrow> bytes \<Rightarrow> WriteHandle \<Rightarrow> 's \<Rightarrow> int \<times> WriteHandle \<times> 's" where
  "extend_buf wr off bs h s =
    (let h1 = (if wh_buf h = [] then h\<lparr>wh_start := off\<rparr> else h);
         h2 = h1\<lparr>wh_buf := wh_buf h1 @ bs\<rparr>;
         (rc, h3, s1) = (if length (wh_buf h2) \<ge> kWriteBackCap then flush_buf wr h2 s else (0, h2, s))
     in (if rc \<noteq> 0 then rc else int_of_count (of_nat (length bs)), h3, s1))"

definition write_buf :: "'s writer \<Rightarrow> u64 \<Rightarrow> bytes \<Rightarrow> WriteHandle \<Rightarrow> 's \<Rightarrow> int \<times> WriteHandle \<times> 's" where
  "write_buf wr off bs h s =
    (if wh_buf h \<noteq> [] \<and> off \<noteq> wh_start h + of_nat (length (wh_buf h)) then
       (let (rc, h1, s1) = flush_buf wr h s in if rc \<noteq> 0 then (rc, h1, s1) else extend_buf wr off bs h1 s1)
     else extend_buf wr off bs h s)"

definition root_write :: "FuseCall \<Rightarrow> FuseMount writer" where
  "root_write fc p off bs mt = with_root (RemoteRoot_write (fc_wait fc) (fc_now fc) p off bs) mt"

definition flush_handle :: "FuseCall \<Rightarrow> (u64 \<times> WriteHandle) option \<Rightarrow> FuseMount \<Rightarrow> int \<times> FuseMount" where
  "flush_handle fc x mt =
    (case x of
       None \<Rightarrow> (0, mt)
     | Some (a, h) \<Rightarrow> (let (rc, h1, mt1) = flush_buf (root_write fc) h mt in (rc, put_handle a h1 mt1)))"

definition op_open :: "FuseCall \<Rightarrow> bytes \<Rightarrow> u64 option \<Rightarrow> FuseMount \<Rightarrow> (int \<times> u64 option) \<times> FuseMount" where
  "op_open fc path fi mt =
    (let rel = to_rel path; t = cl_tree (mt_root mt);
         rc = (case lookup t rel CaseInsensitive of
                 None \<Rightarrow> - ENOENT
               | Some i \<Rightarrow> if is_dir (node t i) then - EISDIR else 0)
     in if rc = 0 then (let (fi1, mt1) = new_handle rel fi mt in ((rc, fi1), mt1)) else ((rc, fi), mt))"

definition op_create :: "FuseCall \<Rightarrow> bytes \<Rightarrow> u32 \<Rightarrow> u64 option \<Rightarrow> FuseMount \<Rightarrow> (int \<times> u64 option) \<times> FuseMount" where
  "op_create fc path md fi mt =
    (let rel = to_rel path in
     case claim_poke fc PokeMknod rel [] mt of
       (Claimed, mt1) \<Rightarrow> ((0, fi), mt1)
     | (Refuse, mt1) \<Rightarrow> ((- EIO, fi), mt1)
     | (NotOurs, mt1) \<Rightarrow>
         (case with_root (create_file (fc_wait fc) rel (md AND 0x1FF)) mt1 of
            (Inl e, mt2) \<Rightarrow> ((err_to_errno e, fi), mt2)
          | (Inr _, mt2) \<Rightarrow> (let (fi1, mt3) = new_handle rel fi mt2 in ((0, fi1), mt3))))"

definition op_write :: "FuseCall \<Rightarrow> bytes \<Rightarrow> bytes \<Rightarrow> u64 \<Rightarrow> u64 option \<Rightarrow> FuseMount \<Rightarrow> int \<times> FuseMount" where
  "op_write fc path bs off fi mt =
    (case (if mt_writeback mt then handle_of fi mt else None) of
       Some (a, h) \<Rightarrow> (let (rc, h1, mt1) = write_buf (root_write fc) off bs h mt in (rc, put_handle a h1 mt1))
     | None \<Rightarrow>
         (case root_write fc (to_rel path) off bs mt of
            (Inl e, mt1) \<Rightarrow> (err_to_errno e, mt1)
          | (Inr k, mt1) \<Rightarrow> (int_of_count k, mt1)))"

definition op_flush :: "FuseCall \<Rightarrow> u64 option \<Rightarrow> FuseMount \<Rightarrow> int \<times> FuseMount" where
  "op_flush fc fi mt = flush_handle fc (handle_of fi mt) mt"

definition op_fsync :: "FuseCall \<Rightarrow> u64 option \<Rightarrow> FuseMount \<Rightarrow> int \<times> FuseMount" where
  "op_fsync fc fi mt = flush_handle fc (handle_of fi mt) mt"

definition op_release :: "FuseCall \<Rightarrow> u64 option \<Rightarrow> FuseMount \<Rightarrow> int \<times> FuseMount" where
  "op_release fc fi mt =
    (let (rc, mt1) = flush_handle fc (handle_of fi mt) mt
     in (rc, case handle_of fi mt of None \<Rightarrow> mt1 | Some (a, h) \<Rightarrow> mt1\<lparr>mt_handles := AList.delete a (mt_handles mt1)\<rparr>))"

definition op_read :: "FuseCall \<Rightarrow> bytes \<Rightarrow> nat \<Rightarrow> u64 \<Rightarrow> u64 option \<Rightarrow> FuseMount \<Rightarrow> (int \<times> bytes) \<times> FuseMount" where
  "op_read fc path room1 off fi mt =
    (let (rc, mt1) = (if mt_writeback mt then flush_handle fc (handle_of fi mt) mt else (0, mt)) in
     if rc \<noteq> 0 then ((rc, []), mt1)
     else case with_root (read_into (fc_wait fc) (to_rel path) off (min room1 (16 * 2 ^ 20))) mt1 of
       (Inl e, mt2) \<Rightarrow> ((err_to_errno e, []), mt2)
     | (Inr bs, mt2) \<Rightarrow> ((int_of_count (of_nat (length bs)), bs), mt2))"

section \<open>Mutations\<close>

definition op_truncate :: "FuseCall \<Rightarrow> bytes \<Rightarrow> u64 \<Rightarrow> FuseMount \<Rightarrow> int \<times> FuseMount" where
  "op_truncate fc path sz mt = errno_of (with_root (RemoteRoot_truncate (fc_wait fc) (fc_now fc) (to_rel path) sz) mt)"

definition op_mknod :: "FuseCall \<Rightarrow> bytes \<Rightarrow> u32 \<Rightarrow> FuseMount \<Rightarrow> int \<times> FuseMount" where
  "op_mknod fc path md mt =
    (let rel = to_rel path in
     unless_poke fc PokeMknod rel []
       (\<lambda>mt1. if md AND 0xF000 \<noteq> 0 \<and> md AND 0xF000 \<noteq> 0x8000 then (- EPERM, mt1)
              else errno_of (with_root (create_file (fc_wait fc) rel (md AND 0x1FF)) mt1)) mt)"

definition op_mkdir :: "FuseCall \<Rightarrow> bytes \<Rightarrow> u32 \<Rightarrow> FuseMount \<Rightarrow> int \<times> FuseMount" where
  "op_mkdir fc path md mt =
    (let rel = to_rel path in
     unless_poke fc PokeMkdir rel [] (\<lambda>mt1. errno_of (with_root (mkdir (fc_wait fc) rel (md AND 0x1FF)) mt1)) mt)"

definition op_unlink :: "FuseCall \<Rightarrow> bytes \<Rightarrow> FuseMount \<Rightarrow> int \<times> FuseMount" where
  "op_unlink fc path mt =
    (let rel = to_rel path in
     unless_poke fc PokeUnlink rel [] (\<lambda>mt1. errno_of (with_root (unlink (fc_wait fc) rel) mt1)) mt)"

definition op_rmdir :: "FuseCall \<Rightarrow> bytes \<Rightarrow> FuseMount \<Rightarrow> int \<times> FuseMount" where
  "op_rmdir fc path mt =
    (let rel = to_rel path in
     unless_poke fc PokeRmdir rel [] (\<lambda>mt1. errno_of (with_root (rmdir (fc_wait fc) rel) mt1)) mt)"

definition op_rename :: "FuseCall \<Rightarrow> bytes \<Rightarrow> bytes \<Rightarrow> FuseMount \<Rightarrow> int \<times> FuseMount" where
  "op_rename fc from to mt =
    (let rfrom = to_rel from; rto = to_rel to in
     unless_poke fc PokeRename rfrom rto (\<lambda>mt1. errno_of (with_root (RemoteRoot_rename (fc_wait fc) rfrom rto) mt1)) mt)"

section \<open>The volume\<close>

record StatvfsT =
  f_bsize :: u64
  f_frsize :: u64
  f_blocks :: u64
  f_bfree :: u64
  f_bavail :: u64
  f_files :: u64
  f_ffree :: u64
  f_namemax :: u64

definition op_statfs :: "int \<times> StatvfsT" where
  "op_statfs =
    (0, \<lparr>f_bsize = 4096, f_frsize = 4096, f_blocks = push_bit 32 1, f_bfree = push_bit 31 1, f_bavail = push_bit 31 1,
         f_files = push_bit 20 1, f_ffree = push_bit 19 1, f_namemax = 255\<rparr>)"

text \<open>The settings libfuse hands to \<open>op_init\<close>, timeouts in seconds; the bits of the capabilities are libfuse's and a parameter.\<close>

record FuseConfig =
  auto_cache :: bool
  entry_timeout :: nat
  attr_timeout :: nat
  negative_timeout :: nat

record FuseConn =
  max_write :: u32
  max_readahead :: u32
  max_background :: u32
  congestion_threshold :: u32
  capable :: u32
  want :: u32

definition op_init :: "u32 \<Rightarrow> FuseConn option \<Rightarrow> FuseConfig \<Rightarrow> FuseConn option \<times> FuseConfig" where
  "op_init caps conn cfg =
    (map_option (\<lambda>co. co\<lparr>max_write := push_bit 20 1, max_readahead := push_bit 20 1, max_background := 64,
        congestion_threshold := 48, want := want co OR (caps AND capable co)\<rparr>) conn,
     cfg\<lparr>auto_cache := True, entry_timeout := 1, attr_timeout := 1, negative_timeout := 0\<rparr>)"

section \<open>The hooks\<close>

text \<open>\<open>mount\<close> up to the point where the volume is up: the context, the client's mode, an empty queue.\<close>

definition mount_begin :: "RemoteRoot \<Rightarrow> bool \<Rightarrow> bool \<Rightarrow> FuseMount" where
  "mount_begin c writeback notify_changes =
    \<lparr>mt_root = c\<lparr>cl_mode := CaseInsensitive\<rparr>, mt_writeback = writeback,
     mt_notify = (if notify_changes then Some FsNotifyBridge_init else None), mt_handles = [], mt_next = 1,
     mt_inval = [], mt_inval_stop = False\<rparr>"

text \<open>The last step of \<open>mount\<close>: the bridge is started on the live mount.\<close>

definition mount_notify :: "'x PokeOs \<Rightarrow> bytes \<Rightarrow> FuseMount \<Rightarrow> FuseMount" where
  "mount_notify os mountpoint mt = mt\<lparr>mt_notify := map_option (\<lambda>b. snd (bridge_start os mountpoint b)) (mt_notify mt)\<rparr>"

fun punch_paths :: "AppliedChange list \<Rightarrow> bytes list \<Rightarrow> bytes list" where
  "punch_paths [] q = q"
| "punch_paths (ch # chs) q =
    (if ac_rescan ch then punch_paths chs q
     else if length q \<ge> kInvalQueueCap then q
     else punch_paths chs (q @ [to_fuse_path (ac_path ch)]))"

text \<open>The hook for applied changes: queue the kernel caches, then tell the bridge.\<close>

definition paths_hook :: "AppliedChange list \<Rightarrow> FuseMount \<Rightarrow> FuseMount" where
  "paths_hook changes mt =
    (if mt_inval_stop mt then mt
     else mt\<lparr>mt_inval := punch_paths changes (mt_inval mt), mt_notify := map_option (post changes) (mt_notify mt)\<rparr>)"

definition path_hook :: "bytes \<Rightarrow> FuseMount \<Rightarrow> FuseMount" where
  "path_hook rel mt =
    (if mt_inval_stop mt \<or> length (mt_inval mt) \<ge> kInvalQueueCap then mt
     else mt\<lparr>mt_inval := mt_inval mt @ [to_fuse_path rel]\<rparr>)"

text \<open>One round of \<open>inval_loop\<close>: the path whose cached pages are dropped.\<close>

definition inval_turn :: "FuseMount \<Rightarrow> (bytes \<times> FuseMount) option" where
  "inval_turn mt =
    (if mt_inval_stop mt then None
     else case mt_inval mt of [] \<Rightarrow> None | p # q \<Rightarrow> Some (p, mt\<lparr>mt_inval := q\<rparr>))"

definition unmount :: "FuseMount \<Rightarrow> FuseMount" where
  "unmount mt = mt\<lparr>mt_notify := map_option bridge_stop (mt_notify mt), mt_inval_stop := True, mt_inval := []\<rparr>"

section \<open>The table of operations\<close>

datatype FuseRequest =
    RqGetattr bytes
  | RqOpen bytes "u64 option"
  | RqRead bytes nat u64 "u64 option"
  | RqCreate bytes u32 "u64 option"
  | RqWrite bytes bytes u64 "u64 option"
  | RqTruncate bytes u64
  | RqMknod bytes u32
  | RqMkdir bytes u32
  | RqUnlink bytes
  | RqRmdir bytes
  | RqRename bytes bytes
  | RqStatfs
  | RqReadlink bytes nat
  | RqFsync "u64 option"
  | RqChmod bytes
  | RqUtimens bytes
  | RqFlush "u64 option"
  | RqRelease "u64 option"

text \<open>Dispatch by the table \<open>make_ops\<close>: the error number that goes back and the state of the mount.\<close>

fun fuse_handle :: "FuseCall \<Rightarrow> FuseRequest \<Rightarrow> FuseMount \<Rightarrow> int \<times> FuseMount" where
  "fuse_handle fc (RqGetattr p) mt = (fst (op_getattr fc p mt), mt)"
| "fuse_handle fc (RqOpen p fi) mt = (let (r, mt1) = op_open fc p fi mt in (fst r, mt1))"
| "fuse_handle fc (RqRead p k off fi) mt = (let (r, mt1) = op_read fc p k off fi mt in (fst r, mt1))"
| "fuse_handle fc (RqCreate p md fi) mt = (let (r, mt1) = op_create fc p md fi mt in (fst r, mt1))"
| "fuse_handle fc (RqWrite p bs off fi) mt = op_write fc p bs off fi mt"
| "fuse_handle fc (RqTruncate p sz) mt = op_truncate fc p sz mt"
| "fuse_handle fc (RqMknod p md) mt = op_mknod fc p md mt"
| "fuse_handle fc (RqMkdir p md) mt = op_mkdir fc p md mt"
| "fuse_handle fc (RqUnlink p) mt = op_unlink fc p mt"
| "fuse_handle fc (RqRmdir p) mt = op_rmdir fc p mt"
| "fuse_handle fc (RqRename p q) mt = op_rename fc p q mt"
| "fuse_handle fc RqStatfs mt = (fst op_statfs, mt)"
| "fuse_handle fc (RqReadlink p k) mt = (let (r, mt1) = op_readlink fc p k mt in (fst r, mt1))"
| "fuse_handle fc (RqFsync fi) mt = op_fsync fc fi mt"
| "fuse_handle fc (RqChmod p) mt = (op_chmod p mt, mt)"
| "fuse_handle fc (RqUtimens p) mt = (op_utimens p mt, mt)"
| "fuse_handle fc (RqFlush fi) mt = op_flush fc fi mt"
| "fuse_handle fc (RqRelease fi) mt = op_release fc fi mt"

end
