(* ===== verification/WriteBack.thy ===== *)
theory WriteBack
  imports FuseMount
begin

text \<open>
  The write-back buffers of the mount (\<open>op_write\<close>, \<open>flush_handle\<close> of \<open>src/mount/fuse_mount.cpp\<close>) against the file they
  buffer: what the program sees is the far file with the buffer on top of it, and a flush moves
  the buffer across without changing what is seen.
\<close>

section \<open>Files and writers\<close>

text \<open>The contents of a file after bytes are written at an offset: a gap behind the end is filled with zeros.\<close>

definition write_at :: "nat \<Rightarrow> bytes \<Rightarrow> bytes \<Rightarrow> bytes" where
  "write_at off bs f =
    (if bs = [] then f else take off (f @ replicate (off - length f) 0) @ bs @ drop (off + length bs) f)"

lemma write_at_append:
  assumes "as \<noteq> []"
  shows "write_at (off + length as) bs (write_at off as f) = write_at off (as @ bs) f"
proof -
  have "length (take off (f @ replicate (off - length f) 0)) = off" by auto
  then show ?thesis using assms by (simp add: write_at_def add_ac)
qed

lemma int_of_count_small:
  assumes "n < 2 ^ 31"
  shows "int_of_count (of_nat n) = int n"
proof -
  have "uint (word_of_nat n :: 32 word) = int n" using assms by (simp add: unsigned_of_nat take_bit_nat_eq_self)
  then have "sint (word_of_nat n :: 32 word) = int n" using assms by (simp add: sint_uint signed_take_bit_int_eq_self)
  then show ?thesis using assms by (simp add: int_of_count_def unsigned_of_nat take_bit_nat_eq_self)
qed

text \<open>A way of writing to the file \<open>p\<close>, whose contents are \<open>far\<close>: a write takes effect in full or not at all.\<close>

definition writes_whole :: "'s writer \<Rightarrow> bytes \<Rightarrow> ('s \<Rightarrow> bytes) \<Rightarrow> bool" where
  "writes_whole wr p far \<longleftrightarrow>
    (\<forall>off bs s. far (snd (wr p off bs s)) = (case fst (wr p off bs s) of Inl e \<Rightarrow> far s | Inr k \<Rightarrow> write_at (unat off) bs (far s)))"

text \<open>The contents as the program sees them: the far side with the buffer on top.\<close>

definition seen :: "('s \<Rightarrow> bytes) \<Rightarrow> WriteHandle \<Rightarrow> 's \<Rightarrow> bytes" where
  "seen far h s = write_at (unat (wh_start h)) (wh_buf h) (far s)"

definition buf_ok :: "WriteHandle \<Rightarrow> bool" where
  "buf_ok h \<longleftrightarrow> (wh_buf h \<noteq> [] \<longrightarrow> unat (wh_start h) + length (wh_buf h) < 2 ^ 64)"

lemma err_to_errno_neg: "err_to_errno e < 0"
  by (simp add: err_to_errno_def ENOENT_def EEXIST_def ENOTDIR_def EISDIR_def EINVAL_def ETIMEDOUT_def EIO_def)

lemma flush_buf_seen:
  assumes "writes_whole wr (wh_path h) far" and "flush_buf wr h s = (rc, h1, s1)"
  shows "seen far h1 s1 = seen far h s" "wh_path h1 = wh_path h" "buf_ok h \<Longrightarrow> buf_ok h1" "rc \<le> 0"
    "rc = 0 \<Longrightarrow> wh_buf h1 = []" "rc \<noteq> 0 \<Longrightarrow> h1 = h"
proof -
  obtain r s2 where x: "wr (wh_path h) (wh_start h) (wh_buf h) s = (r, s2)" by (cases "wr (wh_path h) (wh_start h) (wh_buf h) s")
  have "far (snd (wr (wh_path h) (wh_start h) (wh_buf h) s)) = (case r of Inl e \<Rightarrow> far s | Inr k \<Rightarrow> write_at (unat (wh_start h)) (wh_buf h) (far s))"
    using assms(1) [unfolded writes_whole_def, rule_format, of "wh_start h" "wh_buf h" s] by (simp add: x)
  then have w: "far s2 = (case r of Inl e \<Rightarrow> far s | Inr k \<Rightarrow> seen far h s)" by (simp add: x seen_def split: sum.split)
  consider (idle) "wh_buf h = []" | (bad) e where "wh_buf h \<noteq> []" "r = Inl e" | (good) k where "wh_buf h \<noteq> []" "r = Inr k"
    by (cases r) auto
  then have "seen far h1 s1 = seen far h s \<and> wh_path h1 = wh_path h \<and> (buf_ok h \<longrightarrow> buf_ok h1) \<and> rc \<le> 0 \<and>
    (rc = 0 \<longrightarrow> wh_buf h1 = []) \<and> (rc \<noteq> 0 \<longrightarrow> h1 = h)"
  proof cases
    case idle
    then show ?thesis using assms(2) by (auto simp: flush_buf_def)
  next
    case (bad e)
    then show ?thesis using w assms(2) err_to_errno_neg [of e] by (auto simp: flush_buf_def x seen_def)
  next
    case (good k)
    then show ?thesis using w assms(2) by (auto simp: flush_buf_def x seen_def write_at_def buf_ok_def)
  qed
  then show "seen far h1 s1 = seen far h s" "wh_path h1 = wh_path h" "buf_ok h \<Longrightarrow> buf_ok h1" "rc \<le> 0"
    "rc = 0 \<Longrightarrow> wh_buf h1 = []" "rc \<noteq> 0 \<Longrightarrow> h1 = h" by simp_all
qed

text \<open>A writer that fails sometimes; only then is an error reported.\<close>

definition can_fail :: "'s writer \<Rightarrow> bytes \<Rightarrow> bool" where
  "can_fail wr p \<longleftrightarrow> (\<exists>off bs s e. fst (wr p off bs s) = Inl e)"

lemma flush_buf_fails: "flush_buf wr h s = (rc, h1, s1) \<Longrightarrow> rc \<noteq> 0 \<Longrightarrow> can_fail wr (wh_path h)"
  by (auto simp: flush_buf_def can_fail_def split: if_splits prod.splits sum.splits) (metis fst_conv)

text \<open>How one write moves what the program sees.\<close>

definition wrote :: "'s writer \<Rightarrow> ('s \<Rightarrow> bytes) \<Rightarrow> u64 \<Rightarrow> bytes \<Rightarrow> WriteHandle \<Rightarrow> 's \<Rightarrow> int \<times> WriteHandle \<times> 's \<Rightarrow> bool" where
  "wrote wr far off bs h s x \<longleftrightarrow>
    (case x of (rc, h1, s1) \<Rightarrow>
      wh_path h1 = wh_path h \<and> buf_ok h1 \<and>
      (seen far h1 s1 = write_at (unat off) bs (seen far h s) \<or> rc < 0 \<and> seen far h1 s1 = seen far h s) \<and>
      (rc < 0 \<longrightarrow> can_fail wr (wh_path h)) \<and>
      (0 \<le> rc \<longrightarrow> rc = int (length bs) \<and> length (wh_buf h1) < kWriteBackCap))"

lemma extend_buf_wrote:
  assumes "writes_whole wr (wh_path h) far" and "wh_buf h = [] \<or> off = wh_start h + of_nat (length (wh_buf h))"
    and "unat off + length bs < 2 ^ 64" and "length bs < 2 ^ 31" and "buf_ok h"
  shows "wrote wr far off bs h s (extend_buf wr off bs h s)"
proof -
  define h2 where "h2 = (if wh_buf h = [] then h\<lparr>wh_start := off\<rparr> else h)\<lparr>wh_buf := wh_buf h @ bs\<rparr>"
  have off: "unat off = unat (wh_start h) + length (wh_buf h)" if "wh_buf h \<noteq> []"
    using that assms(2,5) by (simp add: buf_ok_def unat_word_ariths unat_of_nat)
  have p: "wh_path h2 = wh_path h" by (simp add: h2_def)
  have b: "buf_ok h2" using assms(3) off by (auto simp: h2_def buf_ok_def)
  have see: "seen far h2 s = write_at (unat off) bs (seen far h s)"
    using off write_at_append [of "wh_buf h" "unat (wh_start h)" bs "far s"] by (auto simp: h2_def seen_def write_at_def)
  have n: "int_of_count (of_nat (length bs)) = int (length bs)"
    using assms(4) by (rule int_of_count_small)
  have pos: "0 < kWriteBackCap" by (simp add: kWriteBackCap_def)
  have u: "extend_buf wr off bs h s =
    (let (rc, h3, s1) = (if length (wh_buf h2) \<ge> kWriteBackCap then flush_buf wr h2 s else (0, h2, s))
     in (if rc \<noteq> 0 then rc else int (length bs), h3, s1))"
    unfolding extend_buf_def h2_def n by (simp add: Let_def)
  obtain rc h3 s1 where f: "flush_buf wr h2 s = (rc, h3, s1)" by (cases "flush_buf wr h2 s")
  note fs = flush_buf_seen [OF assms(1) [folded p] f]
  show ?thesis unfolding u f using fs see p b pos flush_buf_fails [OF f] by (auto simp: wrote_def)
qed

lemma write_buf_wrote:
  assumes "writes_whole wr (wh_path h) far"
    and "unat off + length bs < 2 ^ 64" and "length bs < 2 ^ 31" and "buf_ok h"
  shows "wrote wr far off bs h s (write_buf wr off bs h s)"
proof (cases "wh_buf h \<noteq> [] \<and> off \<noteq> wh_start h + of_nat (length (wh_buf h))")
  case False
  then show ?thesis using extend_buf_wrote [OF assms(1) _ assms(2-4)] by (auto simp: write_buf_def)
next
  case True
  obtain rc h1 s1 where f: "flush_buf wr h s = (rc, h1, s1)" by (cases "flush_buf wr h s")
  note fs = flush_buf_seen [OF assms(1) f]
  show ?thesis
  proof (cases "rc = 0")
    case True
    have "wrote wr far off bs h1 s1 (extend_buf wr off bs h1 s1)"
      using extend_buf_wrote [of wr h1 far off bs s1] fs True assms by auto
    then show ?thesis using \<open>wh_buf h \<noteq> [] \<and> _\<close> f True fs by (simp add: write_buf_def wrote_def split_beta)
  next
    case False
    then show ?thesis using True f fs assms(4) flush_buf_fails [OF f] by (auto simp: write_buf_def wrote_def)
  qed
qed

text \<open>A run of writes through one handle, given up at the first error.\<close>

fun write_all :: "'s writer \<Rightarrow> (u64 \<times> bytes) list \<Rightarrow> WriteHandle \<Rightarrow> 's \<Rightarrow> int \<times> WriteHandle \<times> 's" where
  "write_all wr [] h s = (0, h, s)"
| "write_all wr ((off, bs) # ws) h s =
    (let (rc, h1, s1) = write_buf wr off bs h s in if rc < 0 then (rc, h1, s1) else write_all wr ws h1 s1)"

lemma write_all_seen:
  assumes "writes_whole wr (wh_path h) far" and "\<forall>(off, bs) \<in> set ws. unat off + length bs < 2 ^ 64 \<and> length bs < 2 ^ 31"
    and "buf_ok h" and "write_all wr ws h s = (rc, h1, s1)"
  shows "wh_path h1 = wh_path h \<and> (rc \<noteq> 0 \<longrightarrow> can_fail wr (wh_path h)) \<and>
    (rc = 0 \<longrightarrow> seen far h1 s1 = fold (\<lambda>(off, bs). write_at (unat off) bs) ws (seen far h s))"
  using assms
proof (induction ws arbitrary: h s)
  case (Cons w ws)
  obtain off bs where w: "w = (off, bs)" by (cases w)
  obtain rc1 h2 s2 where x: "write_buf wr off bs h s = (rc1, h2, s2)" by (cases "write_buf wr off bs h s")
  have wr: "wrote wr far off bs h s (rc1, h2, s2)" using write_buf_wrote [of wr h far off bs s] Cons.prems x w by simp
  show ?case
  proof (cases "rc1 < 0")
    case True
    then show ?thesis using Cons.prems(4) wr by (auto simp: w x wrote_def)
  next
    case False
    then show ?thesis using Cons.IH [of h2 s2] Cons.prems wr by (auto simp: w x wrote_def)
  qed
qed simp


text \<open>A far side that takes every write; two adjoining writes and one elsewhere.\<close>

definition demo_writer :: "bytes writer" where
  "demo_writer p off bs f = (Inr (of_nat (length bs)), write_at (unat off) bs f)"


section \<open>Truncation\<close>

text \<open>
  Truncation goes straight to the far side and leaves every buffer as it is.  A buffered write that came before the
  truncation is therefore flushed after it and is seen in the file again.
\<close>

lemma truncate_leaves_buffers: "mt_handles (snd (op_truncate fc p sz mt)) = mt_handles mt"
  by (simp add: op_truncate_def errno_of_def with_root_def split_beta split: prod.split sum.split)

lemma truncate_then_flush:
  "snd (snd (flush_buf demo_writer \<lparr>wh_path = [], wh_start = 0, wh_buf = [7]\<rparr> (take 0 [1, 2, 3]))) = [7]"
  by (simp add: flush_buf_def demo_writer_def write_at_def)

end
