(* ===== verification/NotifyProps.thy ===== *)
theory NotifyProps
  imports FsNotify "HOL-Library.Multiset"
begin

text \<open>
  The guarantees of the notification bridge (\<open>src/mount/fsnotify_bridge.cpp\<close>): posted changes become jobs without loss or
  invention, the queue is bounded, a poke never leaves the mount and never stays in flight.
\<close>

section \<open>Posted changes\<close>

text \<open>The paths a job tells of, and the two ends of a move among the posted changes.\<close>

definition job_paths :: "Job \<Rightarrow> bytes list" where
  "job_paths j = (if jb_rescan j then [] else jb_path j # (if jb_path2 j = [] then [] else [jb_path2 j]))"

definition change_at :: "AppliedChange list \<Rightarrow> nat \<Rightarrow> ChangeKind \<Rightarrow> u32 \<Rightarrow> bytes \<Rightarrow> bool" where
  "change_at chs a k ck p \<longleftrightarrow>
    a < length chs \<and> \<not> ac_rescan (chs ! a) \<and> ac_change (chs ! a) = k \<and> ac_cookie (chs ! a) = ck \<and> ac_path (chs ! a) = p"

definition moved :: "AppliedChange list \<Rightarrow> bytes \<Rightarrow> bytes \<Rightarrow> bool" where
  "moved chs p q \<longleftrightarrow> (\<exists>a b ck. a < b \<and> ck \<noteq> 0 \<and> change_at chs a MovedFrom ck p \<and> change_at chs b MovedTo ck q)"

lemma change_at_append [simp]: "change_at chs a k ck p \<Longrightarrow> change_at (chs @ [ch]) a k ck p"
  by (auto simp: change_at_def nth_append)

lemma change_at_last:
  "\<not> ac_rescan ch \<Longrightarrow> change_at (chs @ [ch]) (length chs) (ac_change ch) (ac_cookie ch) (ac_path ch)"
  by (simp add: change_at_def)

lemma moved_append [simp]: "moved chs p q \<Longrightarrow> moved (chs @ [ch]) p q"
  unfolding moved_def by (meson change_at_append)

text \<open>A source that waits: its job is a lone move away from some earlier change's path.\<close>

definition waiting :: "AppliedChange list \<Rightarrow> Job list \<Rightarrow> u32 \<times> nat \<Rightarrow> bool" where
  "waiting chs jobs x \<longleftrightarrow>
    fst x \<noteq> 0 \<and> snd x < length jobs \<and> jb_path2 (jobs ! snd x) = [] \<and> \<not> jb_rescan (jobs ! snd x) \<and>
    (\<exists>a. change_at chs a MovedFrom (fst x) (jb_path (jobs ! snd x)))"

definition jobs_ok :: "AppliedChange list \<Rightarrow> Job list \<Rightarrow> bool" where
  "jobs_ok chs jobs \<longleftrightarrow>
    mset (concat (map job_paths jobs)) = mset (map ac_path (filter (\<lambda>ch. \<not> ac_rescan ch) chs)) \<and>
    length (filter jb_rescan jobs) = length (filter ac_rescan chs) \<and>
    (\<forall>j \<in> set jobs. jb_path2 j \<noteq> [] \<longrightarrow> moved chs (jb_path j) (jb_path2 j))"

definition pairing_ok :: "AppliedChange list \<Rightarrow> pairing \<Rightarrow> bool" where
  "pairing_ok chs st \<longleftrightarrow>
    jobs_ok chs (snd st) \<and> distinct (map fst (fst st)) \<and> distinct (map snd (fst st)) \<and> (\<forall>x \<in> set (fst st). waiting chs (snd st) x)"

lemma waiting_append: "waiting chs jobs x \<Longrightarrow> waiting (chs @ [ch]) (jobs @ js) x"
  unfolding waiting_def by (auto simp: nth_append intro: change_at_append)

text \<open>A change that becomes a job of its own.\<close>

lemma pairing_ok_new:
  assumes "pairing_ok chs (froms, jobs)" and "job_paths j = (if ac_rescan ch then [] else [ac_path ch])"
    and "jb_path2 j = []" and "jb_rescan j = ac_rescan ch"
  shows "pairing_ok (chs @ [ch]) (froms, jobs @ [j])"
  using assms by (auto simp: pairing_ok_def jobs_ok_def waiting_append)

lemma pairing_ok_from:
  assumes "pairing_ok chs (froms, jobs)" and "\<not> ac_rescan ch" and "ac_change ch = MovedFrom" and "ac_cookie ch \<noteq> 0"
    and "map_of froms (ac_cookie ch) = None" and "job_paths j = [ac_path ch]" and "jb_path j = ac_path ch" and "jb_path2 j = []" and "\<not> jb_rescan j"
  shows "pairing_ok (chs @ [ch]) (froms @ [(ac_cookie ch, length jobs)], jobs @ [j])"
proof -
  have "pairing_ok (chs @ [ch]) (froms, jobs @ [j])" using pairing_ok_new assms by simp
  moreover have "waiting (chs @ [ch]) (jobs @ [j]) (ac_cookie ch, length jobs)"
    using assms change_at_last [of ch chs] by (auto simp: waiting_def)
  moreover have "ac_cookie ch \<notin> set (map fst froms)" using assms(5) by (simp add: map_of_eq_None_iff)
  moreover have "length jobs \<notin> set (map snd froms)" using assms(1) by (auto simp: pairing_ok_def waiting_def)
  ultimately show ?thesis by (simp add: pairing_ok_def)
qed

lemma mset_concat_update:
  assumes "i < length js" and "f j = f (js ! i) @ xs"
  shows "mset (concat (map f (js[i := j]))) = mset (concat (map f js)) + mset xs"
  using assms
proof (induction js arbitrary: i)
  case (Cons a js)
  then show ?case by (cases i) auto
qed simp

lemma pairing_ok_to:
  assumes "pairing_ok chs (froms, jobs)" and "\<not> ac_rescan ch" and "ac_change ch = MovedTo" and "ac_path ch \<noteq> []"
    and "map_of froms (ac_cookie ch) = Some i"
  shows "pairing_ok (chs @ [ch]) (AList.delete (ac_cookie ch) froms, jobs[i := (jobs ! i)\<lparr>jb_path2 := ac_path ch\<rparr>])"
proof -
  let ?ck = "ac_cookie ch" and ?j = "(jobs ! i)\<lparr>jb_path2 := ac_path ch\<rparr>"
  have m: "(?ck, i) \<in> set froms" using assms(5) by (rule map_of_SomeD)
  then have w: "waiting chs jobs (?ck, i)" using assms(1) by (simp add: pairing_ok_def)
  then obtain a where a: "change_at chs a MovedFrom ?ck (jb_path (jobs ! i))" by (auto simp: waiting_def)
  have w1: "?ck \<noteq> 0" "i < length jobs" "jb_path2 (jobs ! i) = []" "\<not> jb_rescan (jobs ! i)" using w by (auto simp: waiting_def)
  have ps: "job_paths ?j = job_paths (jobs ! i) @ [ac_path ch]" using w1 assms(4) by (simp add: job_paths_def)
  have ml: "mset (concat (map job_paths (jobs[i := ?j]))) = mset (concat (map job_paths jobs)) + mset [ac_path ch]"
    using mset_concat_update [OF w1(2) ps] .
  have fl: "length (filter jb_rescan (jobs[i := ?j])) = length (filter jb_rescan jobs)"
    using length_filter_update [OF w1(2), of jb_rescan ?j] by simp
  have "change_at (chs @ [ch]) (length chs) MovedTo ?ck (ac_path ch)" using change_at_last [OF assms(2), of chs] assms(3) by simp
  moreover have "a < length chs" using a by (simp add: change_at_def)
  ultimately have "moved (chs @ [ch]) (jb_path ?j) (jb_path2 ?j)"
    using w1(1) change_at_append [OF a, of ch] unfolding moved_def by auto
  then have mv: "moved (chs @ [ch]) (jb_path j) (jb_path2 j)" if "j \<in> set (jobs[i := ?j])" "jb_path2 j \<noteq> []" for j
    using that assms(1) set_update_subset_insert [of jobs i ?j] by (auto simp: pairing_ok_def jobs_ok_def)
  have jo: "jobs_ok (chs @ [ch]) (jobs[i := ?j])"
    using ml fl mv assms(1,2) by (simp add: jobs_ok_def pairing_ok_def)
  have di: "distinct (map fst froms)" "distinct (map snd froms)" using assms(1) by (auto simp: pairing_ok_def)
  have sub: "AList.delete ?ck froms = filter (\<lambda>x. fst x \<noteq> ?ck) froms" by (auto simp: AList.delete_eq intro!: filter_cong)
  have d2: "distinct (map fst (AList.delete ?ck froms))" "distinct (map snd (AList.delete ?ck froms))"
    unfolding sub using di distinct_map_filter by blast+
  have "waiting (chs @ [ch]) (jobs[i := ?j]) x" if x: "x \<in> set (AList.delete ?ck froms)" for x
  proof -
    have x1: "x \<in> set froms" "fst x \<noteq> ?ck" using x by (auto simp: sub)
    have "snd x \<noteq> i" using x1 m di(2) inj_onD [OF di(2) [unfolded distinct_map, THEN conjunct2], of x "(?ck, i)"] by (metis fst_conv snd_conv)
    moreover have "waiting chs jobs x" using x1 assms(1) by (simp add: pairing_ok_def)
    ultimately show ?thesis by (auto simp: waiting_def intro: change_at_append)
  qed
  then show ?thesis using jo d2 by (simp add: pairing_ok_def)
qed

lemma post_change_ok:
  assumes "pairing_ok chs st" and "ac_change ch = MovedTo \<longrightarrow> ac_path ch \<noteq> []"
  shows "pairing_ok (chs @ [ch]) (post_change ch st)"
proof -
  obtain froms jobs where st: "st = (froms, jobs)" by (cases st)
  note new = pairing_ok_new [OF assms(1) [unfolded st]] and from1 = pairing_ok_from [OF assms(1) [unfolded st]]
    and to1 = pairing_ok_to [OF assms(1) [unfolded st]]
  consider (rescan) "ac_rescan ch" | (source) "\<not> ac_rescan ch" "ac_change ch = MovedFrom" "ac_cookie ch \<noteq> 0"
    | (dest) "\<not> ac_rescan ch" "ac_change ch = MovedTo" "ac_cookie ch \<noteq> 0"
    | (other) "\<not> ac_rescan ch" "\<not> (ac_change ch = MovedFrom \<and> ac_cookie ch \<noteq> 0)" "\<not> (ac_change ch = MovedTo \<and> ac_cookie ch \<noteq> 0)"
    by blast
  then show ?thesis
  proof cases
    case rescan
    then show ?thesis by (simp add: st post_change_def new job_paths_def)
  next
    case source
    then show ?thesis by (simp add: st post_change_def new from1 job_paths_def)
  next
    case dest
    then show ?thesis using assms(2) by (auto simp: st post_change_def job_paths_def intro: new to1 split: option.split)
  next
    case other
    then show ?thesis by (auto simp: st post_change_def job_paths_def intro!: new)
  qed
qed

lemma mark_removed:
  fixes froms :: "(u32 \<times> nat) list"
  shows "jobs_ok chs jobs \<Longrightarrow> \<forall>x \<in> set froms. snd x < length jobs \<Longrightarrow>
    jobs_ok chs (fold (\<lambda>(ck, i) js. js[i := (js ! i)\<lparr>jb_change := Removed\<rparr>]) froms jobs)"
proof (induction froms arbitrary: jobs)
  case (Cons x froms)
  obtain ck i where x: "x = (ck, i)" by (cases x)
  let ?j = "(jobs ! i)\<lparr>jb_change := Removed\<rparr>"
  have i: "i < length jobs" using Cons.prems(2) by (simp add: x)
  have "mset (concat (map job_paths (jobs[i := ?j]))) = mset (concat (map job_paths jobs))"
    using mset_concat_update [OF i, of job_paths ?j "[]"] by (simp add: job_paths_def)
  moreover have "length (filter jb_rescan (jobs[i := ?j])) = length (filter jb_rescan jobs)"
    using length_filter_update [OF i, of jb_rescan ?j] by simp
  moreover have "jb_path2 j \<noteq> [] \<longrightarrow> moved chs (jb_path j) (jb_path2 j)" if "j \<in> set (jobs[i := ?j])" for j
    using that set_update_subset_insert [of jobs i ?j] Cons.prems(1) nth_mem [OF i] by (auto simp: jobs_ok_def)
  ultimately have "jobs_ok chs (jobs[i := ?j])" using Cons.prems(1) by (simp add: jobs_ok_def)
  then show ?case using Cons.IH [of "jobs[i := ?j]"] Cons.prems(2) by (simp add: x)
qed simp

lemma post_jobs_ok:
  assumes "\<forall>ch \<in> set chs. ac_change ch = MovedTo \<longrightarrow> ac_path ch \<noteq> []"
  shows "jobs_ok chs (post_jobs chs)"
proof -
  have "pairing_ok chs (fold post_change chs ([], []))" using assms
  proof (induction chs rule: rev_induct)
    case Nil
    show ?case by (simp add: pairing_ok_def jobs_ok_def)
  next
    case (snoc ch chs)
    then show ?case by (simp add: post_change_ok)
  qed
  then show ?thesis by (auto simp: post_jobs_def pairing_ok_def waiting_def split_beta intro!: mark_removed)
qed

lemma enqueue_all:
  assumes "length q \<le> kQueueCap"
  shows "fold enqueue_job js (q, d) = (drop (length (q @ js) - kQueueCap) (q @ js), d + (length (q @ js) - kQueueCap))"
  using assms
proof (induction js arbitrary: q d)
  case (Cons j js)
  have pos: "0 < kQueueCap" by (simp add: kQueueCap_def)
  show ?case
  proof (cases "length q \<ge> kQueueCap")
    case True
    then obtain x q1 where q: "q = x # q1" using pos by (cases q) auto
    have cap: "length (q @ j # js) - kQueueCap = Suc (length ((q1 @ [j]) @ js) - kQueueCap)"
      using True Cons.prems by (simp add: q)
    have "enqueue_job j (q, d) = (q1 @ [j], Suc d)" using True by (simp add: enqueue_job_def q)
    then have "fold enqueue_job (j # js) (q, d) = fold enqueue_job js (q1 @ [j], Suc d)" by simp
    also have "\<dots> = (drop (length ((q1 @ [j]) @ js) - kQueueCap) ((q1 @ [j]) @ js), Suc d + (length ((q1 @ [j]) @ js) - kQueueCap))"
      using Cons.prems by (intro Cons.IH) (simp add: q)
    finally show ?thesis unfolding cap by (simp add: q del: drop_append)
  next
    case False
    then show ?thesis using Cons.IH [of "q @ [j]" d] by (simp add: enqueue_job_def)
  qed
qed simp

text \<open>
  C23. Every posted change is accounted for.  A batch of changes becomes jobs that tell of exactly the paths of
  the batch, each as often as it occurs, with one job per rescan; a job has a second path only where
  the batch has a move away from the first and, later and with the same cookie, a move onto the
  second.  The jobs go to the end of the queue in order; of a queue that would grow beyond its cap the oldest are
  dropped, as many as are counted, and the cap holds.
\<close>

theorem posted_changes_accounted:
  assumes "nb_running b" and "length (nb_queue b) \<le> kQueueCap" and "\<forall>ch \<in> set chs. ac_change ch = MovedTo \<longrightarrow> ac_path ch \<noteq> []"
  shows "mset (concat (map job_paths (post_jobs chs))) = mset (map ac_path (filter (\<lambda>ch. \<not> ac_rescan ch) chs)) \<and>
    length (filter jb_rescan (post_jobs chs)) = length (filter ac_rescan chs) \<and>
    (\<forall>j \<in> set (post_jobs chs). jb_path2 j \<noteq> [] \<longrightarrow> moved chs (jb_path j) (jb_path2 j)) \<and>
    nb_queue (post chs b) = drop (length (nb_queue b @ post_jobs chs) - kQueueCap) (nb_queue b @ post_jobs chs) \<and>
    ns_dropped (nb_stats (post chs b)) = ns_dropped (nb_stats b) + of_nat (length (nb_queue b @ post_jobs chs) - kQueueCap) \<and>
    length (nb_queue (post chs b)) \<le> kQueueCap"
  using post_jobs_ok [OF assms(3)] assms(1) enqueue_all [OF assms(2), of "post_jobs chs" 0]
  by (simp add: jobs_ok_def post_def)

definition demo_move :: "AppliedChange list" where
  "demo_move =
    [\<lparr>ac_change = MovedFrom, ac_path = lit ''a'', ac_cookie = 5, ac_kind = File, ac_rescan = False\<rparr>,
     \<lparr>ac_change = Modified, ac_path = lit ''b'', ac_cookie = 0, ac_kind = File, ac_rescan = False\<rparr>,
     \<lparr>ac_change = MovedTo, ac_path = lit ''c'', ac_cookie = 5, ac_kind = File, ac_rescan = False\<rparr>]"

theorem posted_changes_accounted_witness:
  "nb_queue (post demo_move (FsNotifyBridge_init\<lparr>nb_running := True\<rparr>)) = post_jobs demo_move \<and>
   map jb_path (post_jobs demo_move) = [lit ''a'', lit ''b''] \<and> map jb_path2 (post_jobs demo_move) = [lit ''c'', []]"
  using posted_changes_accounted [of "FsNotifyBridge_init\<lparr>nb_running := True\<rparr>" demo_move]
  by (simp add: demo_move_def FsNotifyBridge_init_def kQueueCap_def post_jobs_def post_change_def)

section \<open>Delivery\<close>

text \<open>A job whose place lies on another device, or that names no place, is counted as failed and nothing else happens.\<close>

definition off_mount :: "'x PokeOs \<Rightarrow> Job \<Rightarrow> 'x sys \<Rightarrow> bool" where
  "off_mount os job s \<longleftrightarrow>
    \<not> jb_rescan job \<and> jb_path job \<noteq> [] \<and> \<not> inside_mount os (jb_path job) s"

lemma inside_mount_counted:
  assumes "\<And>p b x. os_lstat_dev os p (b, x) = dev p x"
  shows "inside_mount os rel (on_bridge (count_event job) s) = inside_mount os rel s"
  using assms
  by (cases s) (simp add: inside_mount_def on_bridge_def count_event_def bridge_abs_def Let_def split: option.split)

lemma off_mount_untouched:
  assumes "off_mount os job s" and "\<And>p b x. os_lstat_dev os p (b, x) = dev p x" and "jb_change job \<noteq> Unknown \<or> jb_path2 job \<noteq> []"
  shows "bridge_deliver os job s = on_bridge (count_outcome job False) (on_bridge (count_event job) s)"
proof -
  have i: "\<not> inside_mount os (jb_path job) (on_bridge (count_event job) s)" "jb_path job \<noteq> []" "\<not> jb_rescan job"
    using assms(1) inside_mount_counted [OF assms(2)] by (auto simp: off_mount_def)
  show ?thesis
    using i assms(3)
    by (cases "jb_change job")
      (auto simp: bridge_deliver_def poke_create_def poke_modify_def poke_remove_def poke_move_def Let_def)
qed

text \<open>
  \<open>stop\<close> after the check of the mount failed: the thread has cleared the running flag, so the early return leaves it
  unjoined.
\<close>

lemma stop_leaves_thread:
  assumes "fst (run_begin os (snd (bridge_start os at b), x)) = False" and "\<not> nb_running b"
  shows "nb_joinable (snd (bridge_start os at b))"
    "bridge_stop (fst (snd (run_begin os (snd (bridge_start os at b), x)))) = fst (snd (run_begin os (snd (bridge_start os at b), x)))"
  using assms
  by (auto simp: run_begin_def bridge_stop_def bridge_start_def on_bridge_def split_beta Let_def split: if_splits)

end
