(* ===== verification/MountProps.thy ===== *)
theory MountProps
  imports WriteBack NotifyProps
begin

text \<open>
  The guarantees of the mount (\<open>src/mount/fuse_mount.cpp\<close>) with the notification bridge: the requests of the bridge's
  thread never reach the client, and for everybody else the bridge might as well not be there.
\<close>

section \<open>The bridge's requests\<close>

text \<open>The requests the bridge causes, and which poke each of them could be.\<close>

fun poke_of :: "FuseRequest \<Rightarrow> (Poke \<times> bytes \<times> bytes) option" where
  "poke_of (RqCreate p md fi) = Some (PokeMknod, to_rel p, [])"
| "poke_of (RqMknod p md) = Some (PokeMknod, to_rel p, [])"
| "poke_of (RqMkdir p md) = Some (PokeMkdir, to_rel p, [])"
| "poke_of (RqUnlink p) = Some (PokeUnlink, to_rel p, [])"
| "poke_of (RqRmdir p) = Some (PokeRmdir, to_rel p, [])"
| "poke_of (RqRename p q) = Some (PokeRename, to_rel p, to_rel q)"
| "poke_of _ = None"

definition in_flight :: "Poke \<times> bytes \<times> bytes \<Rightarrow> FsNotifyBridge \<Rightarrow> bool" where
  "in_flight x b \<longleftrightarrow> (av_what (nb_active b), av_path (nb_active b), av_path2 (nb_active b)) = x"

lemma claim_poke_self:
  assumes "mt_notify mt = Some b" and "is_self b (fc_caller fc)"
  shows "claim_poke fc what rel rel2 mt =
    (if in_flight (what, rel, rel2) b then (Claimed, mt\<lparr>mt_notify := Some (clear_active b)\<rparr>) else (Refuse, mt))"
  using assms by (auto simp: claim_poke_def claim_def in_flight_def clear_active_def is_poke_thread_def)

lemma claim_poke_other:
  assumes "case mt_notify mt of None \<Rightarrow> True | Some b \<Rightarrow> \<not> is_self b (fc_caller fc)"
  shows "claim_poke fc what rel rel2 mt = (NotOurs, mt)"
  using assms by (auto simp: claim_poke_def claim_def is_poke_thread_def split: option.splits)


text \<open>A mount with a bridge on task 7 that pokes the creation of \<open>a\<close>.\<close>

definition demo_bridge :: FsNotifyBridge where
  "demo_bridge = FsNotifyBridge_init\<lparr>nb_running := True, nb_poke_tid := 7,
     nb_active := \<lparr>av_what = PokeMknod, av_path = lit ''a'', av_path2 = [], av_pretend = PtAbsent, av_kind = File\<rparr>\<rparr>"

definition demo_mount :: FuseMount where
  "demo_mount = (mount_begin (RemoteRoot_init [] Exact (FrameChannel_init \<lparr>inbox = [], outbox = [], sends = [], recvs = [], selects = [], clock = []\<rparr>)) False True)
     \<lparr>mt_notify := Some demo_bridge\<rparr>"

definition demo_call :: "int \<Rightarrow> FuseCall" where
  "demo_call who = \<lparr>fc_caller = who, fc_uid = 0, fc_gid = 0, fc_wait = 1, fc_now = 0\<rparr>"


section \<open>Everybody else\<close>

text \<open>The lemma for the handlers of the mount without a bridge.\<close>

definition without_bridge :: "FuseMount \<Rightarrow> FuseMount" where
  "without_bridge mt = mt\<lparr>mt_notify := None\<rparr>"

definition give_back :: "FsNotifyBridge option \<Rightarrow> 'a \<times> FuseMount \<Rightarrow> 'a \<times> FuseMount" where
  "give_back b x = (fst x, (snd x)\<lparr>mt_notify := b\<rparr>)"

lemma with_bridge: "mt = (without_bridge mt)\<lparr>mt_notify := mt_notify mt\<rparr>"
  by (simp add: without_bridge_def)

named_theorems bridge_free \<open>steps of the mount that do not look at the bridge\<close>

lemma with_root_free [bridge_free]: "with_root f (mt\<lparr>mt_notify := b\<rparr>) = give_back b (with_root f mt)"
  by (simp add: with_root_def give_back_def Let_def split_beta)

lemma errno_of_free [bridge_free]: "errno_of (give_back b x) = give_back b (errno_of x)"
  by (simp add: errno_of_def give_back_def split: prod.split sum.split)

lemma new_handle_free [bridge_free]: "new_handle rel fi (mt\<lparr>mt_notify := b\<rparr>) = give_back b (new_handle rel fi mt)"
  by (simp add: new_handle_def give_back_def)

lemma handle_of_free [bridge_free]: "handle_of fi (mt\<lparr>mt_notify := b\<rparr>) = handle_of fi mt"
  by (simp add: handle_of_def split: option.split)

lemma root_write_free [bridge_free]: "root_write fc p off bs (mt\<lparr>mt_notify := b\<rparr>) = give_back b (root_write fc p off bs mt)"
  by (simp add: root_write_def bridge_free)

text \<open>The buffers, where the state comes last.\<close>

definition give_back3 :: "FsNotifyBridge option \<Rightarrow> 'a \<times> 'h \<times> FuseMount \<Rightarrow> 'a \<times> 'h \<times> FuseMount" where
  "give_back3 b x = (fst x, fst (snd x), (snd (snd x))\<lparr>mt_notify := b\<rparr>)"

lemma flush_buf_free [bridge_free]: "flush_buf (root_write fc) h (mt\<lparr>mt_notify := b\<rparr>) = give_back3 b (flush_buf (root_write fc) h mt)"
  by (simp add: flush_buf_def bridge_free give_back_def give_back3_def split: prod.split sum.split)

lemma extend_buf_free [bridge_free]:
  "extend_buf (root_write fc) off bs h (mt\<lparr>mt_notify := b\<rparr>) = give_back3 b (extend_buf (root_write fc) off bs h mt)"
  by (simp add: extend_buf_def bridge_free give_back3_def Let_def split_beta)

lemma write_buf_free [bridge_free]:
  "write_buf (root_write fc) off bs h (mt\<lparr>mt_notify := b\<rparr>) = give_back3 b (write_buf (root_write fc) off bs h mt)"
proof -
  have "extend_buf (root_write fc) off bs h1 (m\<lparr>mt_notify := b\<rparr>) = give_back3 b (extend_buf (root_write fc) off bs h1 m)" for h1 m
    by (rule extend_buf_free)
  then show ?thesis by (simp add: write_buf_def flush_buf_free Let_def split_beta) (simp add: give_back3_def)
qed

lemma put_handle_free [bridge_free]: "put_handle a h (mt\<lparr>mt_notify := b\<rparr>) = (put_handle a h mt)\<lparr>mt_notify := b\<rparr>"
  by (simp add: put_handle_def)

lemma flush_handle_free [bridge_free]: "flush_handle fc x (mt\<lparr>mt_notify := b\<rparr>) = give_back b (flush_handle fc x mt)"
  by (simp add: flush_handle_def bridge_free give_back3_def give_back_def Let_def split_beta split: option.split)

lemma op_write_free: "op_write fc p bs off fi (mt\<lparr>mt_notify := b\<rparr>) = give_back b (op_write fc p bs off fi mt)"
  by (simp add: op_write_def handle_of_free write_buf_free root_write_free give_back3_def give_back_def put_handle_free Let_def split_beta
      split: option.split sum.split)

lemma op_read_free: "op_read fc p k off fi (mt\<lparr>mt_notify := b\<rparr>) = give_back b (op_read fc p k off fi mt)"
proof -
  let ?x = "\<lambda>mt. if mt_writeback mt then flush_handle fc (handle_of fi mt) mt else (0, mt)"
  have x: "?x (mt\<lparr>mt_notify := b\<rparr>) = give_back b (?x mt)" by (simp add: flush_handle_free handle_of_free give_back_def)
  obtain rc m where m: "?x mt = (rc, m)" by (cases "?x mt")
  show ?thesis unfolding op_read_def x m by (simp add: give_back_def with_root_free split_beta split: sum.split)
qed

lemma op_release_free: "op_release fc fi (mt\<lparr>mt_notify := b\<rparr>) = give_back b (op_release fc fi mt)"
  by (simp add: op_release_def flush_handle_free handle_of_free give_back_def Let_def split_beta split: option.split)

text \<open>The request of anyone but the bridge's thread.\<close>

definition outsider :: "FuseCall \<Rightarrow> FuseMount \<Rightarrow> bool" where
  "outsider fc mt \<longleftrightarrow> (case mt_notify mt of None \<Rightarrow> True | Some b \<Rightarrow> \<not> is_self b (fc_caller fc))"

lemma unless_poke_free:
  assumes "outsider fc mt" and "\<And>m b. f (m\<lparr>mt_notify := b\<rparr>) = give_back b (f m)"
  shows "unless_poke fc what rel rel2 f mt = give_back (mt_notify mt) (unless_poke fc what rel rel2 f (without_bridge mt))"
proof -
  have "unless_poke fc what rel rel2 f mt = f mt" using assms(1) by (simp add: unless_poke_def claim_poke_other outsider_def)
  moreover have "unless_poke fc what rel rel2 f (without_bridge mt) = f (without_bridge mt)"
    by (simp add: unless_poke_def claim_poke_def without_bridge_def)
  ultimately show ?thesis using assms(2) [of "mt_notify mt" "without_bridge mt"] with_bridge [of mt] by simp
qed

lemma mutations_free:
  assumes "outsider fc mt"
  shows "op_mknod fc p md mt = give_back (mt_notify mt) (op_mknod fc p md (without_bridge mt))"
    "op_mkdir fc p md mt = give_back (mt_notify mt) (op_mkdir fc p md (without_bridge mt))"
    "op_unlink fc p mt = give_back (mt_notify mt) (op_unlink fc p (without_bridge mt))"
    "op_rmdir fc p mt = give_back (mt_notify mt) (op_rmdir fc p (without_bridge mt))"
    "op_rename fc p q mt = give_back (mt_notify mt) (op_rename fc p q (without_bridge mt))"
  subgoal unfolding op_mknod_def Let_def
    by (rule unless_poke_free [OF assms], simp only: bridge_free split: if_split) (simp add: give_back_def)
  subgoal unfolding op_mkdir_def Let_def by (rule unless_poke_free [OF assms], simp only: bridge_free)
  subgoal unfolding op_unlink_def Let_def by (rule unless_poke_free [OF assms], simp only: bridge_free)
  subgoal unfolding op_rmdir_def Let_def by (rule unless_poke_free [OF assms], simp only: bridge_free)
  subgoal unfolding op_rename_def Let_def by (rule unless_poke_free [OF assms], simp only: bridge_free)
  done

lemma create_free:
  assumes "outsider fc mt"
  shows "op_create fc p md fi mt = give_back (mt_notify mt) (op_create fc p md fi (without_bridge mt))"
proof -
  have a: "claim_poke fc PokeMknod (to_rel p) [] mt = (NotOurs, mt)" using assms by (simp add: claim_poke_other outsider_def)
  have b: "claim_poke fc PokeMknod (to_rel p) [] (without_bridge mt) = (NotOurs, without_bridge mt)"
    by (simp add: claim_poke_def without_bridge_def)
  let ?f = "create_file (fc_wait fc) (to_rel p) (md AND 0x1FF)"
  have "with_root ?f mt = give_back (mt_notify mt) (with_root ?f (without_bridge mt))"
    using with_root_free [where f = ?f and mt = "without_bridge mt" and b = "mt_notify mt"] with_bridge [of mt] by simp
  then show ?thesis unfolding op_create_def Let_def a b
    by (simp add: give_back_def new_handle_free split_beta split: sum.split)
qed

lemma getattr_free:
  assumes "outsider fc mt"
  shows "op_getattr fc p mt = op_getattr fc p (without_bridge mt)"
proof -
  have pt: "(case mt_notify mt of None \<Rightarrow> (PtNothing, File) | Some b \<Rightarrow> pretend b (fc_caller fc) r File) = (PtNothing, File)" for r
    using assms by (auto simp: outsider_def pretend_def split: option.splits)
  have m: "mt_notify (without_bridge mt) = None" "mt_root (without_bridge mt) = mt_root mt" by (simp_all add: without_bridge_def)
  show ?thesis unfolding op_getattr_def pt m by (simp add: Let_def)
qed

text \<open>The requests whose handlers never ask the bridge.\<close>

fun asks_bridge :: "FuseRequest \<Rightarrow> bool" where
  "asks_bridge (RqGetattr p) = True"
| "asks_bridge rq = (poke_of rq \<noteq> None)"

lemma readlink_free: "op_readlink fc p k (mt\<lparr>mt_notify := b\<rparr>) = give_back b (op_readlink fc p k mt)"
  by (simp add: op_readlink_def with_root_free give_back_def split_beta split: sum.split)

lemma open_free: "op_open fc p fi (mt\<lparr>mt_notify := b\<rparr>) = give_back b (op_open fc p fi mt)"
  by (simp add: op_open_def Let_def new_handle_free give_back_def split_beta)

lemma plain_requests_free:
  assumes "\<not> asks_bridge rq"
  shows "fuse_handle fc rq (mt\<lparr>mt_notify := b\<rparr>) = give_back b (fuse_handle fc rq mt)"
proof -
  have pair: "(let (r, m) = give_back b x in (fst r, m)) = give_back b (let (r, m) = x in (fst r, m))" for x :: "(int \<times> 'a) \<times> FuseMount"
    by (simp add: give_back_def split_beta)
  have still: "(r, mt\<lparr>mt_notify := b\<rparr>) = give_back b (r, mt)" for r :: int by (simp add: give_back_def)
  have ex: "path_exists p (mt\<lparr>mt_notify := b\<rparr>) = path_exists p mt" for p by (simp add: path_exists_def)
  show ?thesis using assms
    by (cases rq)
      (simp_all only: fuse_handle.simps asks_bridge.simps poke_of.simps option.distinct not_True_eq_False not_False_eq_True simp_thms
        open_free readlink_free op_read_free pair op_write_free op_release_free op_truncate_def op_fsync_def op_flush_def with_root_free
        errno_of_free flush_handle_free handle_of_free op_chmod_def op_utimens_def ex still)
qed



section \<open>Settings and times\<close>

text \<open>The mount never asks libfuse for a capability that is not on offer.\<close>

lemma op_init_within_offer:
  assumes "fst (op_init caps (Some co) cfg) = Some co1"
  shows "want co1 AND NOT (capable co) = want co AND NOT (capable co)"
  using assms by (auto simp: op_init_def intro!: bit_word_eqI simp: bit_simps)

text \<open>
  The seconds and nanoseconds of a file's time are a quotient and a remainder of C++, which round towards zero: for a
  time before 1970 the nanoseconds come out negative.
\<close>

lemma stat_before_epoch:
  "st_nsec (fill_stat fc (nd\<lparr>attr := \<lparr>size_of = 0, mtime_ns = - 1, mode = 0, kind = File\<rparr>\<rparr>)) = - 1"
  by (simp add: fill_stat_def Let_def signed_modulo_int_def)

end
