(* ===== verification/Watcher.thy ===== *)
theory Watcher
  imports Scanner Coalescer "HOL-Library.AList"
begin

text \<open>
  The directory watchers of \<open>src/platform\<close>: the inotify watcher of \<open>linux/dir_watcher.cpp\<close> and the translation of
  change records of \<open>win/dir_watcher.cpp\<close>.

  The kernel is outside the sources.  For inotify it is a record of the calls the watcher makes over an
  abstract state \<open>'k\<close>; an event is what \<open>read\<close> puts into the buffer, its name without the padding.  The events the
  watcher passes to its callback are collected in \<open>iw_events\<close>, in order.  The recursive walk that arms the
  watches carries fuel, the number of directory levels it may descend.
\<close>

section \<open>inotify\<close>

record 'k InotifyOs =
  io_fs :: "'k \<Rightarrow> FileSystem"
  io_init :: "'k \<Rightarrow> bool"
  io_pipe :: "'k \<Rightarrow> bool"
  io_add_watch :: "bytes \<Rightarrow> 'k \<Rightarrow> int \<times> 'k"
  io_rm_watch :: "int \<Rightarrow> 'k \<Rightarrow> 'k"

record InotifyEvent =
  ie_wd :: int
  ie_mask :: u32
  ie_cookie :: u32
  ie_name :: bytes

record 'k InotifyWatcher =
  iw_kernel :: 'k
  iw_root :: bytes
  iw_root_dev :: u64
  iw_wd_to_dir :: "(int \<times> bytes) list"
  iw_dir_to_wd :: "(bytes \<times> int) list"
  iw_stopped :: bool
  iw_events :: "FsEvent list"

definition IN_MODIFY :: u32 where "IN_MODIFY = 0x2"
definition IN_ATTRIB :: u32 where "IN_ATTRIB = 0x4"
definition IN_CLOSE_WRITE :: u32 where "IN_CLOSE_WRITE = 0x8"
definition IN_MOVED_FROM :: u32 where "IN_MOVED_FROM = 0x40"
definition IN_MOVED_TO :: u32 where "IN_MOVED_TO = 0x80"
definition IN_CREATE :: u32 where "IN_CREATE = 0x100"
definition IN_DELETE :: u32 where "IN_DELETE = 0x200"
definition IN_DELETE_SELF :: u32 where "IN_DELETE_SELF = 0x400"
definition IN_MOVE_SELF :: u32 where "IN_MOVE_SELF = 0x800"
definition IN_Q_OVERFLOW :: u32 where "IN_Q_OVERFLOW = 0x4000"
definition IN_ISDIR :: u32 where "IN_ISDIR = 0x40000000"

definition join_rel :: "bytes \<Rightarrow> bytes \<Rightarrow> bytes" where
  "join_rel dir name = (if dir = [] then name else dir @ slash # name)"

definition device_of :: "FileSystem \<Rightarrow> bytes \<Rightarrow> u64" where
  "device_of fs p = (case stat_dev fs p of None \<Rightarrow> 0 | Some d \<Rightarrow> d)"

definition emit :: "FsEventKind \<Rightarrow> bytes \<Rightarrow> u32 \<Rightarrow> 'k InotifyWatcher \<Rightarrow> 'k InotifyWatcher" where
  "emit k p ck w = w\<lparr>iw_events := iw_events w @ [\<lparr>ev_kind = k, ev_path = p, ev_cookie = ck\<rparr>]\<rparr>"

text \<open>One entry of the directory: is it a directory to descend into?\<close>

definition descend :: "'k InotifyOs \<Rightarrow> bytes \<Rightarrow> 'k InotifyWatcher \<Rightarrow> bool" where
  "descend os p w =
    (let fs = io_fs os (iw_kernel w) in
     is_directory fs p \<and> (case symlink_status fs p of Some (FtSymlink, m) \<Rightarrow> False | _ \<Rightarrow> True) \<and>
     (iw_root_dev w = 0 \<or> device_of fs p = iw_root_dev w))"

fun each_entry :: "('e \<Rightarrow> 's \<Rightarrow> 's option) \<Rightarrow> 'e list \<Rightarrow> 's \<Rightarrow> 's option" where
  "each_entry f [] s = Some s"
| "each_entry f (x # xs) s = (case f x s of None \<Rightarrow> None | Some s1 \<Rightarrow> each_entry f xs s1)"

definition note_watch :: "int \<Rightarrow> bytes \<Rightarrow> 'k InotifyWatcher \<Rightarrow> 'k InotifyWatcher" where
  "note_watch wd rel w =
    w\<lparr>iw_wd_to_dir := AList.update wd rel (iw_wd_to_dir w), iw_dir_to_wd := AList.update rel wd (iw_dir_to_wd w)\<rparr>"

definition entries_of :: "'k InotifyOs \<Rightarrow> bytes \<Rightarrow> 'k InotifyWatcher \<Rightarrow> bytes list" where
  "entries_of os at w = (case directory_names (io_fs os (iw_kernel w)) at of None \<Rightarrow> [] | Some ns \<Rightarrow> ns)"

primrec add_watch_recursive ::
  "nat \<Rightarrow> 'k InotifyOs \<Rightarrow> bytes \<Rightarrow> bytes \<Rightarrow> 'k InotifyWatcher \<Rightarrow> 'k InotifyWatcher option" where
  "add_watch_recursive 0 os at rel w = None"
| "add_watch_recursive (Suc n) os at rel w =
    (let (wd, k) = io_add_watch os at (iw_kernel w); w1 = w\<lparr>iw_kernel := k\<rparr> in
     if wd < 0 then Some w1
     else
       let w2 = note_watch wd rel w1
       in each_entry
            (\<lambda>name v. let p = path_append at name
                      in if descend os p v then add_watch_recursive n os p (join_rel rel (filename_utf8 p)) v else Some v)
            (entries_of os at w2) w2)"

definition at_or_below :: "bytes \<Rightarrow> bytes \<Rightarrow> bool" where
  "at_or_below rel dir \<longleftrightarrow>
    dir = rel \<or> length dir > length rel \<and> take (length rel) dir = rel \<and> dir ! length rel = slash"

definition drop_watch_subtree :: "'k InotifyOs \<Rightarrow> bytes \<Rightarrow> 'k InotifyWatcher \<Rightarrow> 'k InotifyWatcher" where
  "drop_watch_subtree os rel w =
    (let gone = filter (\<lambda>(dir, wd). at_or_below rel dir) (iw_dir_to_wd w);
         w1 = fold (\<lambda>(dir, wd) v. v\<lparr>iw_kernel := io_rm_watch os wd (iw_kernel v), iw_wd_to_dir := AList.delete wd (iw_wd_to_dir v)\<rparr>) gone w
     in w1\<lparr>iw_dir_to_wd := fold (\<lambda>(dir, wd). AList.delete dir) gone (iw_dir_to_wd w1)\<rparr>)"

definition has :: "u32 \<Rightarrow> u32 \<Rightarrow> bool" where
  "has m bits \<longleftrightarrow> m AND bits \<noteq> 0"

definition handle_event :: "nat \<Rightarrow> 'k InotifyOs \<Rightarrow> InotifyEvent \<Rightarrow> 'k InotifyWatcher \<Rightarrow> 'k InotifyWatcher option" where
  "handle_event n os ev w =
    (if has (ie_mask ev) IN_Q_OVERFLOW then Some (emit EvOverflow [] 0 w)
     else case map_of (iw_wd_to_dir w) (ie_wd ev) of
       None \<Rightarrow> Some w
     | Some dir \<Rightarrow>
         if has (ie_mask ev) (IN_DELETE_SELF OR IN_MOVE_SELF) then Some (if dir \<noteq> [] then emit EvRemoved dir 0 w else w)
         else if ie_name ev = [] then Some w
         else
           let rel = join_rel dir (ie_name ev); is_dir = has (ie_mask ev) IN_ISDIR in
           if has (ie_mask ev) (IN_CREATE OR IN_MOVED_TO) then
             let moved = has (ie_mask ev) IN_MOVED_TO;
                 w1 = (if is_dir then add_watch_recursive n os (path_append (iw_root w) rel) rel w else Some w)
             in map_option (emit (if moved then EvRenamedTo else EvCreated) rel (if moved then ie_cookie ev else 0)) w1
           else if has (ie_mask ev) (IN_DELETE OR IN_MOVED_FROM) then
             let moved = has (ie_mask ev) IN_MOVED_FROM;
                 w1 = (if is_dir then drop_watch_subtree os rel w else w)
             in Some (emit (if moved then EvRenamedFrom else EvRemoved) rel (if moved then ie_cookie ev else 0) w1)
           else if has (ie_mask ev) (IN_MODIFY OR IN_CLOSE_WRITE OR IN_ATTRIB) then Some (emit EvModified rel 0 w)
           else Some w)"

text \<open>What \<open>poll\<close> and \<open>read\<close> bring: an interrupted call, an error, the stop pipe, nothing to read, or events.\<close>

datatype PollOutcome = PollInterrupted | PollError | PollStop | PollNothing | PollEvents "InotifyEvent list"

text \<open>One round of \<open>run\<close>: does the loop go on, and the state after it.\<close>

definition watch_turn :: "nat \<Rightarrow> 'k InotifyOs \<Rightarrow> PollOutcome \<Rightarrow> 'k InotifyWatcher \<Rightarrow> (bool \<times> 'k InotifyWatcher) option" where
  "watch_turn n os pr w =
    (if iw_stopped w then Some (False, w)
     else case pr of
       PollInterrupted \<Rightarrow> Some (True, w)
     | PollError \<Rightarrow> Some (False, w)
     | PollStop \<Rightarrow> Some (False, w)
     | PollNothing \<Rightarrow> Some (True, w)
     | PollEvents evs \<Rightarrow> map_option (Pair True) (each_entry (handle_event n os) evs w))"

definition watcher_start :: "nat \<Rightarrow> 'k InotifyOs \<Rightarrow> 'k InotifyWatcher \<Rightarrow> (unit result \<times> 'k InotifyWatcher) option" where
  "watcher_start n os w =
    (if \<not> io_pipe os (iw_kernel w) then Some (fail IoError, w)
     else
       let w1 = w\<lparr>iw_root_dev := device_of (io_fs os (iw_kernel w)) (iw_root w)\<rparr>
       in case add_watch_recursive n os (iw_root w1) [] w1 of
            None \<Rightarrow> None
          | Some w2 \<Rightarrow> Some (if iw_wd_to_dir w2 = [] then fail IoError else ok (), w2))"

definition watcher_stop :: "'k InotifyOs \<Rightarrow> 'k InotifyWatcher \<Rightarrow> 'k InotifyWatcher" where
  "watcher_stop os w =
    (if iw_stopped w then w
     else w\<lparr>iw_stopped := True, iw_kernel := fold (\<lambda>(wd, dir) k. io_rm_watch os wd k) (iw_wd_to_dir w) (iw_kernel w)\<rparr>)"

definition make_watcher :: "nat \<Rightarrow> 'k InotifyOs \<Rightarrow> bytes \<Rightarrow> 'k \<Rightarrow> ('k InotifyWatcher) result option" where
  "make_watcher n os root k =
    (if \<not> is_directory (io_fs os k) root then Some (fail NotADirectory)
     else if \<not> io_init os k then Some (fail Unsupported)
     else
       case watcher_start n os
         \<lparr>iw_kernel = k, iw_root = root, iw_root_dev = 0, iw_wd_to_dir = [], iw_dir_to_wd = [], iw_stopped = False, iw_events = []\<rparr> of
         None \<Rightarrow> None
       | Some (Inl e, w) \<Rightarrow> Some (fail e)
       | Some (Inr _, w) \<Rightarrow> Some (ok w))"

section \<open>Change records of Windows\<close>

datatype FileAction = FaAdded | FaRemoved | FaModified | FaRenamedOldName | FaRenamedNewName | FaUnknown

record Win32Watcher =
  ww_cookie_seq :: u32
  ww_pending_cookie :: u32

definition next_cookie :: "Win32Watcher \<Rightarrow> u32 \<times> Win32Watcher" where
  "next_cookie w =
    (let n = ww_cookie_seq w + 1; n1 = (if n = 0 then n + 1 else n) in (n1, w\<lparr>ww_cookie_seq := n1\<rparr>))"

text \<open>One record of the buffer: its action and its name in UTF-8 (the conversion is a system call).\<close>

definition dispatch_one :: "FileAction \<times> bytes \<Rightarrow> Win32Watcher \<Rightarrow> FsEvent \<times> Win32Watcher" where
  "dispatch_one info w =
    (let path = map (\<lambda>ch. if ch = 0x5C then slash else ch) (snd info);
         (kd, cookie, w1) =
           (case fst info of
              FaAdded \<Rightarrow> (EvCreated, 0, w)
            | FaRemoved \<Rightarrow> (EvRemoved, 0, w)
            | FaModified \<Rightarrow> (EvModified, 0, w)
            | FaRenamedOldName \<Rightarrow> (let (ck, w1) = next_cookie w in (EvRenamedFrom, ck, w1\<lparr>ww_pending_cookie := ck\<rparr>))
            | FaRenamedNewName \<Rightarrow>
                (if ww_pending_cookie w \<noteq> 0 then (EvRenamedTo, ww_pending_cookie w, w)
                 else let (ck, w1) = next_cookie w in (EvRenamedTo, ck, w1))
            | FaUnknown \<Rightarrow> (EvModified, 0, w));
         w2 = (if fst info \<noteq> FaRenamedOldName then w1\<lparr>ww_pending_cookie := 0\<rparr> else w1)
     in (\<lparr>ev_kind = kd, ev_path = path, ev_cookie = cookie\<rparr>, w2))"

primrec dispatch :: "(FileAction \<times> bytes) list \<Rightarrow> Win32Watcher \<Rightarrow> FsEvent list \<times> Win32Watcher" where
  "dispatch [] w = ([], w)"
| "dispatch (x # xs) w =
    (let (ev, w1) = dispatch_one x w; (evs, w2) = dispatch xs w1 in (ev # evs, w2))"

definition overflow_event :: FsEvent where
  "overflow_event = \<lparr>ev_kind = EvOverflow, ev_path = [], ev_cookie = 0\<rparr>"

text \<open>What the completion port brings: the stop key, an error, or the records of a filled buffer (none on overflow).\<close>

datatype Completion = CpStop | CpAborted | CpNotifyEnumDir | CpError | CpBytes "(FileAction \<times> bytes) list"

text \<open>One round of \<open>run\<close>; \<open>armed\<close> is the answer of \<open>arm\<close>, should it be called.\<close>

definition completion_turn :: "Completion \<Rightarrow> bool \<Rightarrow> Win32Watcher \<Rightarrow> bool \<times> FsEvent list \<times> Win32Watcher" where
  "completion_turn cp armed w =
    (case cp of
       CpStop \<Rightarrow> (False, [], w)
     | CpAborted \<Rightarrow> (False, [], w)
     | CpNotifyEnumDir \<Rightarrow> (armed, [overflow_event], w)
     | CpError \<Rightarrow> (False, [], w)
     | CpBytes recs \<Rightarrow>
         let (evs, w1) = (if recs = [] then ([overflow_event], w) else dispatch recs w)
         in if armed then (True, evs, w1) else (False, evs @ [overflow_event], w1))"

end
