(* ===== verification/WatcherProps.thy ===== *)
theory WatcherProps
  imports Watcher
begin

text \<open>
  The guarantees of the watchers: the two tables of the inotify watcher agree whatever arrives, the initial walk
  watches exactly the directories of the root's file system, a directory that goes away takes its
  watches with it, and the renames of Windows get cookies that pair their halves.
\<close>

section \<open>Places\<close>

text \<open>A relative path without a slash at either end, and the place it names.\<close>

definition tidy :: "bytes \<Rightarrow> bool" where
  "tidy d \<longleftrightarrow> d = [] \<or> hd d \<noteq> slash \<and> last d \<noteq> slash"

definition plain_name :: "bytes \<Rightarrow> bool" where
  "plain_name nm \<longleftrightarrow> nm \<noteq> [] \<and> slash \<notin> set nm"

definition place_of :: "bytes \<Rightarrow> bytes \<Rightarrow> bytes" where
  "place_of root d = (if d = [] then root else path_append root d)"

lemma plain_ends: "plain_name nm \<Longrightarrow> hd nm \<noteq> slash \<and> last nm \<noteq> slash"
  by (metis hd_in_set last_in_set plain_name_def)

lemma tidy_join: "tidy d \<Longrightarrow> plain_name nm \<Longrightarrow> tidy (join_rel d nm)"
  using plain_ends [of nm] by (auto simp: tidy_def join_rel_def plain_name_def)

lemma filename_append: "plain_name nm \<Longrightarrow> filename_utf8 (path_append p nm) = nm"
proof -
  assume a: "plain_name nm"
  then have s: "slash \<notin> set nm" "hd nm \<noteq> slash" "nm \<noteq> []" using plain_ends by (auto simp: plain_name_def)
  consider "p = []" | xs where "p = xs @ [slash]" | "p \<noteq> []" "last p \<noteq> slash" by (metis append_butlast_last_id)
  then show ?thesis
  proof cases
    case 1
    then show ?thesis using s by (simp add: path_append_def filename_utf8_def rfind_slash_None [THEN iffD2])
  next
    case 2
    then show ?thesis using s rfind_slash_append [OF s(1), of xs] by (simp add: path_append_def filename_utf8_def)
  next
    case 3
    then show ?thesis using s rfind_slash_append [OF s(1), of p] by (simp add: path_append_def filename_utf8_def)
  qed
qed

lemma place_join:
  assumes "tidy d" and "plain_name nm"
  shows "path_append (place_of root d) nm = place_of root (join_rel d nm)"
proof -
  have "nm \<noteq> []" "hd nm \<noteq> slash" using assms(2) plain_ends by (auto simp: plain_name_def)
  then show ?thesis using assms(1) by (auto simp: place_of_def join_rel_def path_append_def tidy_def)
qed

lemma place_inject:
  assumes "tidy d" and "tidy e" and "place_of root d = place_of root e"
  shows "d = e"
  using assms by (auto simp: place_of_def path_append_def tidy_def split: if_splits)

section \<open>The tables agree\<close>

text \<open>
  What the watcher relies on: a descriptor stands for one place, \<open>ow\<close>, and the names in a directory are plain.
\<close>

definition wd_names_place :: "'k InotifyOs \<Rightarrow> (int \<Rightarrow> bytes) \<Rightarrow> bool" where
  "wd_names_place os ow \<longleftrightarrow> (\<forall>p k. 0 \<le> fst (io_add_watch os p k) \<longrightarrow> ow (fst (io_add_watch os p k)) = p)"

definition plain_listings :: "'k InotifyOs \<Rightarrow> bool" where
  "plain_listings os \<longleftrightarrow> (\<forall>k p ns. directory_names (io_fs os k) p = Some ns \<longrightarrow> list_all plain_name ns)"

definition tables_agree :: "(int \<Rightarrow> bytes) \<Rightarrow> 'k InotifyWatcher \<Rightarrow> bool" where
  "tables_agree ow w \<longleftrightarrow>
    (\<forall>d wd. map_of (iw_dir_to_wd w) d = Some wd \<longrightarrow> map_of (iw_wd_to_dir w) wd = Some d) \<and>
    (\<forall>wd d. map_of (iw_wd_to_dir w) wd = Some d \<longrightarrow> tidy d \<and> ow wd = place_of (iw_root w) d) \<and>
    distinct (map fst (iw_dir_to_wd w))"

lemma note_watch_agrees:
  assumes "tables_agree ow w" and "tidy rel" and "ow wd = place_of (iw_root w) rel"
  shows "tables_agree ow (note_watch wd rel w)"
proof -
  have "d = rel" if "map_of (iw_wd_to_dir w) wd = Some d" for d
    using that assms place_inject [of d rel "iw_root w"] by (auto simp: tables_agree_def)
  then show ?thesis using assms
    by (auto simp: tables_agree_def note_watch_def AList.update_conv' AList.distinct_update split: if_splits)
qed

lemma each_entry_keeps:
  assumes "each_entry f xs s = Some s1" and "P s"
    and "\<And>x s s1. x \<in> set xs \<Longrightarrow> P s \<Longrightarrow> f x s = Some s1 \<Longrightarrow> P s1"
  shows "P s1"
  using assms
proof (induction xs arbitrary: s)
  case (Cons x xs)
  obtain s2 where x: "f x s = Some s2" "each_entry f xs s2 = Some s1" using Cons.prems(1) by (auto split: option.splits)
  have "P s2" using Cons.prems(3) [OF _ Cons.prems(2) x(1)] by simp
  then show ?case using Cons.IH [OF x(2)] Cons.prems(3) by auto
qed simp

lemma agree_kernel [simp]: "tables_agree ow (w\<lparr>iw_kernel := k\<rparr>) = tables_agree ow w"
  by (simp add: tables_agree_def)

lemma note_watch_root [simp]: "iw_root (note_watch wd rel w) = iw_root w"
  by (simp add: note_watch_def)

lemma add_watch_agrees:
  assumes "wd_names_place os ow" and "plain_listings os"
  shows "add_watch_recursive n os p rel w = Some w1 \<Longrightarrow> tables_agree ow w \<and> iw_root w = root \<Longrightarrow> tidy rel \<Longrightarrow>
    p = place_of root rel \<Longrightarrow> tables_agree ow w1 \<and> iw_root w1 = root"
proof (induction n arbitrary: p rel w w1)
  case (Suc n)
  obtain wd k where a: "io_add_watch os p (iw_kernel w) = (wd, k)" by (cases "io_add_watch os p (iw_kernel w)")
  show ?case
  proof (cases "wd < 0")
    case True
    then show ?thesis using Suc.prems a by auto
  next
    case False
    define w2 where "w2 = note_watch wd rel (w\<lparr>iw_kernel := k\<rparr>)"
    have "ow wd = p" using assms(1) False a unfolding wd_names_place_def by (metis fst_conv not_less)
    then have w2: "tables_agree ow w2 \<and> iw_root w2 = root"
      using Suc.prems note_watch_agrees [of ow "w\<lparr>iw_kernel := k\<rparr>" rel wd] by (simp add: w2_def)
    have plain: "plain_name x" if "x \<in> set (entries_of os p w2)" for x
      using that assms(2) [unfolded plain_listings_def, rule_format, of "iw_kernel w2" p]
      by (cases "directory_names (io_fs os (iw_kernel w2)) p") (auto simp: entries_of_def list_all_iff)
    let ?f = "\<lambda>name v. let q = path_append p name
      in if descend os q v then add_watch_recursive n os q (join_rel rel (filename_utf8 q)) v else Some v"
    have "each_entry ?f (entries_of os p w2) w2 = Some w1" using Suc.prems(1) False a by (simp add: w2_def Let_def)
    then show ?thesis
    proof (rule each_entry_keeps [where P = "\<lambda>v. tables_agree ow v \<and> iw_root v = root"])
      show "tables_agree ow w2 \<and> iw_root w2 = root" by (rule w2)
      fix x v v1
      assume x: "x \<in> set (entries_of os p w2)" "tables_agree ow v \<and> iw_root v = root" "?f x v = Some v1"
      have fn: "filename_utf8 (path_append p x) = x" using plain [OF x(1)] by (rule filename_append)
      have y: "(if descend os (path_append p x) v then add_watch_recursive n os (path_append p x) (join_rel rel x) v else Some v) = Some v1"
        using x(3) by (simp only: Let_def fn)
      have "tidy (join_rel rel x)" "path_append p x = place_of root (join_rel rel x)"
        using plain [OF x(1)] Suc.prems(3,4) by (simp_all add: tidy_join place_join)
      then show "tables_agree ow v1 \<and> iw_root v1 = root"
        using x(2) y Suc.IH [of "path_append p x" "join_rel rel x" v v1] by (cases "descend os (path_append p x) v") simp_all
    qed
  qed
qed simp

text \<open>A subtree is dropped: the tables without its directories.\<close>

lemma delete_filter: "AList.delete k xs = filter (\<lambda>x. fst x \<noteq> k) xs"
  by (induction xs) auto

lemma drop_fold_wd:
  "iw_wd_to_dir (fold (\<lambda>(dir, wd) v. v\<lparr>iw_kernel := io_rm_watch os wd (iw_kernel v), iw_wd_to_dir := AList.delete wd (iw_wd_to_dir v)\<rparr>) gone w)
     = filter (\<lambda>x. fst x \<notin> snd ` set gone) (iw_wd_to_dir w)"
  by (induction gone arbitrary: w) (auto simp: delete_filter split_beta intro!: filter_cong)

lemma drop_fold_rest:
  "iw_dir_to_wd (fold (\<lambda>(dir, wd) v. v\<lparr>iw_kernel := io_rm_watch os wd (iw_kernel v), iw_wd_to_dir := AList.delete wd (iw_wd_to_dir v)\<rparr>) gone w)
     = iw_dir_to_wd w"
  "iw_root (fold (\<lambda>(dir, wd) v. v\<lparr>iw_kernel := io_rm_watch os wd (iw_kernel v), iw_wd_to_dir := AList.delete wd (iw_wd_to_dir v)\<rparr>) gone w)
     = iw_root w"
  "iw_events (fold (\<lambda>(dir, wd) v. v\<lparr>iw_kernel := io_rm_watch os wd (iw_kernel v), iw_wd_to_dir := AList.delete wd (iw_wd_to_dir v)\<rparr>) gone w)
     = iw_events w"
  by (induction gone arbitrary: w) (auto simp: split_beta)

lemma drop_fold_dir: "fold (\<lambda>(dir, wd). AList.delete dir) gone xs = filter (\<lambda>x. fst x \<notin> fst ` set gone) xs"
  by (induction gone arbitrary: xs) (auto simp: delete_filter split_beta intro!: filter_cong)

lemma drop_fields:
  "iw_dir_to_wd (drop_watch_subtree os rel w) = filter (\<lambda>x. \<not> at_or_below rel (fst x)) (iw_dir_to_wd w)"
  "iw_wd_to_dir (drop_watch_subtree os rel w) =
     filter (\<lambda>x. fst x \<notin> snd ` {y \<in> set (iw_dir_to_wd w). at_or_below rel (fst y)}) (iw_wd_to_dir w)"
  "iw_root (drop_watch_subtree os rel w) = iw_root w" "iw_events (drop_watch_subtree os rel w) = iw_events w"
  by (auto simp: drop_watch_subtree_def drop_fold_dir drop_fold_wd drop_fold_rest Let_def intro!: filter_cong)

lemma map_of_filter_keys: "map_of (filter (\<lambda>x. P (fst x)) xs) k = (if P k then map_of xs k else None)"
  by (induction xs) auto

lemma drop_wd_iff:
  assumes "tables_agree ow w" and "map_of (iw_dir_to_wd w) d = Some wd"
  shows "wd \<in> snd ` {y \<in> set (iw_dir_to_wd w). at_or_below rel (fst y)} \<longleftrightarrow> at_or_below rel d"
proof
  assume "wd \<in> snd ` {y \<in> set (iw_dir_to_wd w). at_or_below rel (fst y)}"
  then obtain e where e: "(e, wd) \<in> set (iw_dir_to_wd w)" "at_or_below rel e" by auto
  then have "map_of (iw_dir_to_wd w) e = Some wd" using assms(1) by (simp add: tables_agree_def)
  then have "e = d" using assms unfolding tables_agree_def by (metis option.inject)
  then show "at_or_below rel d" using e(2) by simp
next
  assume "at_or_below rel d"
  then show "wd \<in> snd ` {y \<in> set (iw_dir_to_wd w). at_or_below rel (fst y)}"
    using map_of_SomeD [OF assms(2)] by force
qed

lemma drop_dir_map:
  "map_of (iw_dir_to_wd (drop_watch_subtree os rel w)) d = (if at_or_below rel d then None else map_of (iw_dir_to_wd w) d)"
  using map_of_filter_keys [of "\<lambda>d. \<not> at_or_below rel d" "iw_dir_to_wd w" d] by (simp add: drop_fields)

lemma drop_wd_map:
  "map_of (iw_wd_to_dir (drop_watch_subtree os rel w)) wd =
    (if wd \<in> snd ` {y \<in> set (iw_dir_to_wd w). at_or_below rel (fst y)} then None else map_of (iw_wd_to_dir w) wd)"
  using map_of_filter_keys [of "\<lambda>wd. wd \<notin> snd ` {y \<in> set (iw_dir_to_wd w). at_or_below rel (fst y)}" "iw_wd_to_dir w" wd] by (simp add: drop_fields)

lemma drop_wd_of:
  assumes "tables_agree ow w" and "map_of (iw_dir_to_wd w) d = Some wd"
  shows "map_of (iw_wd_to_dir (drop_watch_subtree os rel w)) wd = (if at_or_below rel d then None else Some d)"
  using assms unfolding drop_wd_map drop_wd_iff [OF assms] by (auto simp: tables_agree_def)

lemma drop_agrees:
  assumes "tables_agree ow w"
  shows "tables_agree ow (drop_watch_subtree os rel w)"
proof -
  let ?w = "drop_watch_subtree os rel w"
  have "map_of (iw_wd_to_dir ?w) wd = Some d" if "map_of (iw_dir_to_wd ?w) d = Some wd" for d wd
    using that drop_wd_of [OF assms, of d wd os rel] unfolding drop_dir_map by (auto split: if_splits)
  moreover have "tidy d \<and> ow wd = place_of (iw_root ?w) d" if "map_of (iw_wd_to_dir ?w) wd = Some d" for d wd
    using that assms unfolding drop_wd_map drop_fields(3) by (auto simp: tables_agree_def split: if_splits)
  moreover have "distinct (map fst (iw_dir_to_wd ?w))" using assms by (simp add: drop_fields tables_agree_def distinct_map_filter)
  ultimately show ?thesis by (simp add: tables_agree_def)
qed

lemma emit_fields [simp]:
  "tables_agree ow (emit k p ck w) = tables_agree ow w" "iw_root (emit k p ck w) = iw_root w"
  "iw_dir_to_wd (emit k p ck w) = iw_dir_to_wd w" "iw_wd_to_dir (emit k p ck w) = iw_wd_to_dir w"
  by (simp_all add: emit_def tables_agree_def)

definition plain_event :: "InotifyEvent \<Rightarrow> bool" where
  "plain_event ev \<longleftrightarrow> ie_name ev = [] \<or> plain_name (ie_name ev)"

lemma handle_event_agrees:
  assumes "wd_names_place os ow" and "plain_listings os" and "plain_event ev"
    and "tables_agree ow w" and "handle_event n os ev w = Some w1"
  shows "tables_agree ow w1 \<and> iw_root w1 = iw_root w"
proof (cases "map_of (iw_wd_to_dir w) (ie_wd ev)")
  case None
  then show ?thesis using assms(4,5) by (auto simp: handle_event_def split: if_splits)
next
  case (Some dir)
  let ?rel = "join_rel dir (ie_name ev)"
  have t: "tidy dir" using Some assms(4) by (simp add: tables_agree_def)
  have add: "tables_agree ow v \<and> iw_root v = iw_root w"
    if "ie_name ev \<noteq> []" "add_watch_recursive n os (path_append (iw_root w) ?rel) ?rel w = Some v" for v
  proof (rule add_watch_agrees [OF assms(1,2) that(2)])
    have pl: "plain_name (ie_name ev)" using assms(3) that(1) by (simp add: plain_event_def)
    then show "tidy ?rel" by (rule tidy_join [OF t])
    show "path_append (iw_root w) ?rel = place_of (iw_root w) ?rel" using that(1) by (simp add: place_of_def join_rel_def)
  qed (use assms(4) in simp)
  show ?thesis using assms(4,5) Some add drop_agrees [OF assms(4), of os ?rel] drop_fields(3) [of os ?rel w]
    by (auto simp: handle_event_def Let_def split: if_splits)
qed

text \<open>The states of a watcher from its start on, for any course of rounds.\<close>

inductive watch_reach :: "nat \<Rightarrow> 'k InotifyOs \<Rightarrow> bytes \<Rightarrow> 'k InotifyWatcher \<Rightarrow> bool" for n os root where
  started: "make_watcher n os root k = Some (Inr w) \<Longrightarrow> watch_reach n os root w"
| turned: "watch_reach n os root w \<Longrightarrow> list_all plain_event evs \<Longrightarrow> watch_turn n os (PollEvents evs) w = Some (b, w1) \<Longrightarrow>
    watch_reach n os root w1"

lemma make_watcher_agrees:
  assumes "wd_names_place os ow" and "plain_listings os" and "make_watcher n os root k = Some (Inr w)"
  shows "tables_agree ow w \<and> iw_root w = root"
proof -
  define w0 where "w0 = \<lparr>iw_kernel = k, iw_root = root, iw_root_dev = device_of (io_fs os k) root, iw_wd_to_dir = [],
    iw_dir_to_wd = [], iw_stopped = False, iw_events = []\<rparr>"
  have "add_watch_recursive n os root [] w0 = Some w"
    using assms(3) by (auto simp: make_watcher_def watcher_start_def w0_def Let_def split: if_splits option.splits)
  then show ?thesis
    by (rule add_watch_agrees [OF assms(1,2)]) (simp_all add: w0_def tables_agree_def tidy_def place_of_def)
qed

lemma turn_agrees:
  assumes "wd_names_place os ow" and "plain_listings os" and "list_all plain_event evs"
    and "watch_turn n os (PollEvents evs) w = Some (b, w1)" and "tables_agree ow w \<and> iw_root w = root"
  shows "tables_agree ow w1 \<and> iw_root w1 = root"
proof (cases "iw_stopped w")
  case True
  then show ?thesis using assms(4,5) by (simp add: watch_turn_def)
next
  case False
  then have "each_entry (handle_event n os) evs w = Some w1" using assms(4) by (auto simp: watch_turn_def)
  then show ?thesis
  proof (rule each_entry_keeps [where P = "\<lambda>v. tables_agree ow v \<and> iw_root v = root"])
    show "tables_agree ow w \<and> iw_root w = root" by (rule assms(5))
  next
    fix ev v v1
    assume "ev \<in> set evs" "tables_agree ow v \<and> iw_root v = root" "handle_event n os ev v = Some v1"
    then show "tables_agree ow v1 \<and> iw_root v1 = root"
      using handle_event_agrees [OF assms(1,2), of ev v n v1] assms(3) by (simp add: list_all_iff)
  qed
qed


text \<open>A kernel that can watch the place \<open>r\<close>, an empty directory, and nothing else.\<close>

definition demo_watch_fs :: FileSystem where
  "demo_watch_fs =
    \<lparr>symlink_status = (\<lambda>p. Some (FtDirectory, 0)), fs_file_size = (\<lambda>p. None), read_symlink = (\<lambda>p. None),
     last_write_time = (\<lambda>p. None), is_directory = (\<lambda>p. True), directory_names = (\<lambda>p. if p = lit ''r'' then Some [lit ''s''] else Some []),
     stat_dev = (\<lambda>p. Some 3)\<rparr>"

definition demo_inotify :: "unit InotifyOs" where
  "demo_inotify =
    \<lparr>io_fs = (\<lambda>k. demo_watch_fs), io_init = (\<lambda>k. True), io_pipe = (\<lambda>k. True),
     io_add_watch = (\<lambda>p k. (if p = lit ''r'' then 5 else if p = lit ''r/s'' then 6 else - 1, k)), io_rm_watch = (\<lambda>wd k. k)\<rparr>"

definition demo_watcher :: "unit InotifyWatcher" where
  "demo_watcher =
    \<lparr>iw_kernel = (), iw_root = lit ''r'', iw_root_dev = 3, iw_wd_to_dir = [(5, []), (6, lit ''s'')],
     iw_dir_to_wd = [([], 5), (lit ''s'', 6)], iw_stopped = False, iw_events = []\<rparr>"

lemma demo_made: "make_watcher (Suc (Suc 0)) demo_inotify (lit ''r'') () = Some (Inr demo_watcher)"
  by (simp add: make_watcher_def watcher_start_def demo_inotify_def demo_watcher_def note_watch_def entries_of_def
      descend_def demo_watch_fs_def device_of_def path_append_def filename_utf8_def join_rel_def)


section \<open>The walk at the start\<close>

text \<open>The directories below a place that are reached without links and on one device (\<open>0\<close>: any).\<close>

definition enters :: "FileSystem \<Rightarrow> u64 \<Rightarrow> bytes \<Rightarrow> bool" where
  "enters fs dev p \<longleftrightarrow>
    is_directory fs p \<and> (case symlink_status fs p of Some (FtSymlink, m) \<Rightarrow> False | _ \<Rightarrow> True) \<and> (dev = 0 \<or> device_of fs p = dev)"

definition names_at :: "FileSystem \<Rightarrow> bytes \<Rightarrow> bytes list" where
  "names_at fs p = (case directory_names fs p of None \<Rightarrow> [] | Some ns \<Rightarrow> ns)"

inductive dir_below :: "FileSystem \<Rightarrow> u64 \<Rightarrow> bytes \<Rightarrow> bytes \<Rightarrow> bytes \<Rightarrow> bool" for fs dev where
  here: "dir_below fs dev p rel rel"
| inner: "nm \<in> set (names_at fs p) \<Longrightarrow> enters fs dev (path_append p nm) \<Longrightarrow>
    dir_below fs dev (path_append p nm) (join_rel rel (filename_utf8 (path_append p nm))) r \<Longrightarrow> dir_below fs dev p rel r"

inductive_cases dir_belowE: "dir_below fs dev p rel r"

text \<open>No chain of such directories is longer than \<open>n\<close>.\<close>

primrec levels :: "nat \<Rightarrow> FileSystem \<Rightarrow> u64 \<Rightarrow> bytes \<Rightarrow> bool" where
  "levels 0 fs dev p = False"
| "levels (Suc n) fs dev p =
    list_all (\<lambda>nm. enters fs dev (path_append p nm) \<longrightarrow> levels n fs dev (path_append p nm)) (names_at fs p)"

lemma dir_below_unfold:
  "{r. dir_below fs dev p rel r} =
    insert rel (\<Union>nm \<in> set (names_at fs p). if enters fs dev (path_append p nm)
      then {r. dir_below fs dev (path_append p nm) (join_rel rel (filename_utf8 (path_append p nm))) r} else {})"
  by (auto intro: dir_below.intros elim: dir_belowE)

lemma each_entry_collects:
  assumes "\<And>x v. x \<in> set xs \<Longrightarrow> Q v \<Longrightarrow> \<exists>v1. f x v = Some v1 \<and> Q v1 \<and> D v1 = D v \<union> G x" and "Q s"
  shows "\<exists>s1. each_entry f xs s = Some s1 \<and> Q s1 \<and> D s1 = D s \<union> (\<Union>x \<in> set xs. G x)"
  using assms
proof (induction xs arbitrary: s)
  case (Cons x xs)
  obtain v where v: "f x s = Some v" "Q v" "D v = D s \<union> G x" using Cons.prems(1) [of x s] Cons.prems(2) by auto
  obtain s1 where "each_entry f xs v = Some s1" "Q s1" "D s1 = D v \<union> (\<Union>x \<in> set xs. G x)"
    using Cons.IH [OF Cons.prems(1) v(2)] by auto
  then show ?case using v by auto
qed simp

lemma add_watch_covers:
  fixes os :: "'k InotifyOs"
  assumes "\<And>k. io_fs os k = fs" and "\<And>p k. 0 \<le> fst (io_add_watch os p k)"
  shows "levels n fs dev p \<Longrightarrow> iw_root_dev w = dev \<Longrightarrow>
    \<exists>w1. add_watch_recursive n os p rel w = Some w1 \<and> iw_root_dev w1 = dev \<and>
      dom (map_of (iw_dir_to_wd w1)) = dom (map_of (iw_dir_to_wd w)) \<union> {r. dir_below fs dev p rel r}"
proof (induction n arbitrary: p rel w)
  case (Suc n)
  obtain wd k where a: "io_add_watch os p (iw_kernel w) = (wd, k)" by (cases "io_add_watch os p (iw_kernel w)")
  have wd: "\<not> wd < 0" using assms(2) [of p "iw_kernel w"] a by simp
  define w2 where "w2 = note_watch wd rel (w\<lparr>iw_kernel := k\<rparr>)"
  have w2: "iw_root_dev w2 = dev" "dom (map_of (iw_dir_to_wd w2)) = insert rel (dom (map_of (iw_dir_to_wd w)))"
    using Suc.prems(2) by (auto simp: w2_def note_watch_def AList.update_conv')
  let ?q = "path_append p" and ?D = "\<lambda>v. dom (map_of (iw_dir_to_wd v))"
  let ?G = "\<lambda>nm. if enters fs dev (?q nm) then {r. dir_below fs dev (?q nm) (join_rel rel (filename_utf8 (?q nm))) r} else {}"
  let ?f = "\<lambda>name v. let q = ?q name
    in if descend os q v then add_watch_recursive n os q (join_rel rel (filename_utf8 q)) v else Some v"
  have de: "descend os q v = enters fs dev q" if "iw_root_dev v = dev" for q v
    using that by (simp add: descend_def enters_def assms(1) Let_def)
  have es: "entries_of os p w2 = names_at fs p" by (simp add: entries_of_def names_at_def assms(1))
  have "\<exists>w1. each_entry ?f (names_at fs p) w2 = Some w1 \<and> iw_root_dev w1 = dev \<and> ?D w1 = ?D w2 \<union> (\<Union>nm \<in> set (names_at fs p). ?G nm)"
  proof (rule each_entry_collects [where Q = "\<lambda>v. iw_root_dev v = dev", OF _ w2(1)])
    fix nm and v :: "'k InotifyWatcher"
    assume "nm \<in> set (names_at fs p)" and v: "iw_root_dev v = dev"
    then have l: "enters fs dev (?q nm) \<Longrightarrow> levels n fs dev (?q nm)" using Suc.prems(1) by (simp add: list_all_iff)
    show "\<exists>v1. ?f nm v = Some v1 \<and> iw_root_dev v1 = dev \<and> ?D v1 = ?D v \<union> ?G nm"
      using Suc.IH [OF l v] v by (cases "enters fs dev (?q nm)") (simp_all add: Let_def de)
  qed
  then show ?case using a wd w2 es
    by (simp add: w2_def [symmetric] Let_def dir_below_unfold [of fs dev p rel])
qed simp

lemma add_watch_nonempty:
  "add_watch_recursive n os p rel w = Some w1 \<Longrightarrow> (\<And>p k. 0 \<le> fst (io_add_watch os p k)) \<Longrightarrow> iw_wd_to_dir w1 \<noteq> []"
proof (induction n arbitrary: p rel w w1)
  case (Suc n)
  obtain wd k where a: "io_add_watch os p (iw_kernel w) = (wd, k)" by (cases "io_add_watch os p (iw_kernel w)")
  have wd: "\<not> wd < 0" using Suc.prems(2) [of p "iw_kernel w"] a by simp
  let ?f = "\<lambda>name v. let q = path_append p name
    in if descend os q v then add_watch_recursive n os q (join_rel rel (filename_utf8 q)) v else Some v"
  let ?w2 = "note_watch wd rel (w\<lparr>iw_kernel := k\<rparr>)"
  have e: "each_entry ?f (entries_of os p ?w2) ?w2 = Some w1" using Suc.prems(1) a wd by (simp add: Let_def)
  show ?case
  proof (rule each_entry_keeps [where P = "\<lambda>v. iw_wd_to_dir v \<noteq> []", OF e])
    show "iw_wd_to_dir ?w2 \<noteq> []" by (cases "iw_wd_to_dir w") (auto simp: note_watch_def)
  next
    fix x v v1
    assume "iw_wd_to_dir v \<noteq> []" "?f x v = Some v1"
    then show "iw_wd_to_dir v1 \<noteq> []" using Suc.IH Suc.prems(2) by (auto simp: Let_def split: if_splits)
  qed
qed simp



section \<open>Directories that go away\<close>

text \<open>
  When a watched parent reports that a directory was deleted or moved away, nothing at or below it stays watched, the
  descriptors that stood for it are forgotten (later events for them are ignored), every other watch is kept, and
  exactly one event goes out.
\<close>

lemma gone_directory_unwatched:
  assumes "tables_agree ow w" and "map_of (iw_wd_to_dir w) (ie_wd ev) = Some dir" and "ie_name ev \<noteq> []"
    and "ie_mask ev = IN_DELETE OR IN_ISDIR \<or> ie_mask ev = IN_MOVED_FROM OR IN_ISDIR" and "rel = join_rel dir (ie_name ev)"
  shows "\<exists>w1. handle_event n os ev w = Some w1 \<and>
    (\<forall>d. map_of (iw_dir_to_wd w1) d = (if at_or_below rel d then None else map_of (iw_dir_to_wd w) d)) \<and>
    (\<forall>d wd. map_of (iw_dir_to_wd w) d = Some wd \<longrightarrow> map_of (iw_wd_to_dir w1) wd = (if at_or_below rel d then None else Some d)) \<and>
    length (iw_events w1) = length (iw_events w) + 1 \<and> ev_path (last (iw_events w1)) = rel"
proof -
  let ?v = "drop_watch_subtree os rel w"
  obtain k ck where h: "handle_event n os ev w = Some (emit k rel ck ?v)"
    using assms by (auto simp: handle_event_def has_def Let_def IN_Q_OVERFLOW_def IN_DELETE_SELF_def IN_MOVE_SELF_def IN_CREATE_def
        IN_MOVED_TO_def IN_DELETE_def IN_MOVED_FROM_def IN_ISDIR_def)
  have "iw_events (emit k rel ck ?v) = iw_events w @ [\<lparr>ev_kind = k, ev_path = rel, ev_cookie = ck\<rparr>]"
    by (simp add: emit_def drop_fields)
  then show ?thesis using h drop_dir_map [of os rel w] drop_wd_of [OF assms(1)] by simp
qed

section \<open>Renames of Windows\<close>

lemma next_cookie_nonzero: "next_cookie w = (ck, w1) \<Longrightarrow> ck \<noteq> 0 \<and> ww_cookie_seq w1 = ck \<and> ck \<noteq> ww_cookie_seq w"
  by (auto simp: next_cookie_def Let_def split: if_splits)

lemma dispatch_append:
  "dispatch (xs @ ys) w =
    (let (evs, w1) = dispatch xs w; (evs1, w2) = dispatch ys w1 in (evs @ evs1, w2))"
  by (induction xs arbitrary: w) (simp_all add: split_beta Let_def)

lemma length_dispatch: "length (fst (dispatch xs w)) = length xs"
  by (induction xs arbitrary: w) (simp_all add: split_beta Let_def)

text \<open>
  The halves of a rename on Windows find each other.  Wherever a record of the old name is directly followed by one of the
  new name, in one buffer or across two, the two events carry the same cookie, which is not zero; the
  two events name the paths of the records, with slashes; and every event that is no rename has the cookie zero.
\<close>

theorem windows_renames_paired:
  assumes "dispatch (xs @ [(FaRenamedOldName, p), (FaRenamedNewName, q)] @ ys) w = (evs, w1)"
  shows "\<exists>ck. ck \<noteq> 0 \<and>
    evs ! length xs = \<lparr>ev_kind = EvRenamedFrom, ev_path = map (\<lambda>ch. if ch = 0x5C then slash else ch) p, ev_cookie = ck\<rparr> \<and>
    evs ! Suc (length xs) = \<lparr>ev_kind = EvRenamedTo, ev_path = map (\<lambda>ch. if ch = 0x5C then slash else ch) q, ev_cookie = ck\<rparr> \<and>
    list_all (\<lambda>ev. ev_kind ev \<noteq> EvRenamedFrom \<and> ev_kind ev \<noteq> EvRenamedTo \<longrightarrow> ev_cookie ev = 0) evs"
proof -
  obtain es v where x: "dispatch xs w = (es, v)" by (cases "dispatch xs w")
  obtain ck v1 where n: "next_cookie v = (ck, v1)" by (cases "next_cookie v")
  have l: "length es = length xs" using length_dispatch [of xs w] x by simp
  have c: "ck \<noteq> 0" using next_cookie_nonzero [OF n] by simp
  have zero: "list_all (\<lambda>ev. ev_kind ev \<noteq> EvRenamedFrom \<and> ev_kind ev \<noteq> EvRenamedTo \<longrightarrow> ev_cookie ev = 0) (fst (dispatch zs u))" for zs u
    by (induction zs arbitrary: u) (auto simp: dispatch_one_def split_beta Let_def split: FileAction.split)
  show ?thesis using assms x n c l zero [of "xs @ [(FaRenamedOldName, p), (FaRenamedNewName, q)] @ ys" w]
    by (auto simp: dispatch_append dispatch_one_def split_beta Let_def nth_append)
qed

theorem windows_renames_paired_witness:
  "fst (dispatch [(FaAdded, lit ''x''), (FaRenamedOldName, lit ''a''), (FaRenamedNewName, lit ''b'')] \<lparr>ww_cookie_seq = - 1, ww_pending_cookie = 0\<rparr>)
     ! Suc (Suc 0) = \<lparr>ev_kind = EvRenamedTo, ev_path = lit ''b'', ev_cookie = 1\<rparr>"
  using windows_renames_paired [of "[(FaAdded, lit ''x'')]" "lit ''a''" "lit ''b''" "[]" "\<lparr>ww_cookie_seq = - 1, ww_pending_cookie = 0\<rparr>"]
  by (auto simp: dispatch_one_def next_cookie_def Let_def)

end
