(* ===== verification/WinWatch.thy ===== *)
theory WinWatch
  imports Watcher
begin

text \<open>
  The life of the Windows watcher, \<open>src/platform/win/dir_watcher.cpp\<close>: \<open>make_watcher\<close>, \<open>start\<close>, \<open>arm\<close>, the loop \<open>run\<close> and \<open>stop\<close> with the
  destructor.  The system is a record of the calls over an abstract state; the model keeps the handles that are open.  A
  round of the loop is \<open>completion_turn\<close> of \<open>Watcher\<close>.
\<close>

section \<open>The system\<close>

record 'k WinOs =
  wo_create_file :: "bytes \<Rightarrow> 'k \<Rightarrow> int option \<times> 'k"
  wo_create_port :: "int \<Rightarrow> 'k \<Rightarrow> int option \<times> 'k"
  wo_read_changes :: "int \<Rightarrow> 'k \<Rightarrow> bool \<times> 'k"

record 'k WinSys =
  wy_kernel :: 'k
  wy_open :: "int list"

definition CloseHandle :: "int \<Rightarrow> 'k WinSys \<Rightarrow> 'k WinSys" where
  "CloseHandle h y = y\<lparr>wy_open := remove1 h (wy_open y)\<rparr>"

definition open_handle :: "('k \<Rightarrow> int option \<times> 'k) \<Rightarrow> 'k WinSys \<Rightarrow> int option \<times> 'k WinSys" where
  "open_handle f y =
    (let (h, k) = f (wy_kernel y); y1 = y\<lparr>wy_kernel := k\<rparr>
     in case h of None \<Rightarrow> (None, y1) | Some x \<Rightarrow> (Some x, y1\<lparr>wy_open := x # wy_open y1\<rparr>))"

section \<open>The watcher\<close>

record WinWatch =
  wx_dir :: int
  wx_iocp :: int
  wx_stopped :: bool
  wx_state :: Win32Watcher

definition arm :: "'k WinOs \<Rightarrow> WinWatch \<Rightarrow> 'k WinSys \<Rightarrow> bool \<times> 'k WinSys" where
  "arm os w y = (let (good, k) = wo_read_changes os (wx_dir w) (wy_kernel y) in (good, y\<lparr>wy_kernel := k\<rparr>))"

text \<open>\<open>stop\<close>, which the destructor calls too.\<close>

definition WinWatch_stop :: "WinWatch \<Rightarrow> 'k WinSys \<Rightarrow> WinWatch \<times> 'k WinSys" where
  "WinWatch_stop w y =
    (if wx_stopped w then (w, y)
     else (w\<lparr>wx_stopped := True\<rparr>, CloseHandle (wx_dir w) (CloseHandle (wx_iocp w) y)))"

definition WinWatch_start :: "'k WinOs \<Rightarrow> WinWatch \<Rightarrow> 'k WinSys \<Rightarrow> unit result \<times> 'k WinSys" where
  "WinWatch_start os w y = (let (good, y1) = arm os w y in if good then (ok (), y1) else (fail IoError, y1))"

definition make_watcher_win :: "'k WinOs \<Rightarrow> bytes \<Rightarrow> 'k WinSys \<Rightarrow> WinWatch result \<times> 'k WinSys" where
  "make_watcher_win os rt y =
    (let (dir, y1) = open_handle (wo_create_file os rt) y in
     case dir of
       None \<Rightarrow> (fail NotFound, y1)
     | Some d \<Rightarrow>
         let (port, y2) = open_handle (wo_create_port os d) y1 in
         (case port of
            None \<Rightarrow> (fail IoError, CloseHandle d y2)
          | Some p \<Rightarrow>
              let w = \<lparr>wx_dir = d, wx_iocp = p, wx_stopped = False, wx_state = \<lparr>ww_cookie_seq = 0, ww_pending_cookie = 0\<rparr>\<rparr>;
                  (r, y3) = WinWatch_start os w y2
              in case r of
                   Inl e \<Rightarrow> (fail e, snd (WinWatch_stop w y3))
                 | Inr _ \<Rightarrow> (ok w, y3)))"

text \<open>
  The loop \<open>run\<close> over what the completion port brings and what arming again answers: the events that were emitted, and, where the loop has
  come to its end, the completion that ended it.
\<close>

fun watch_run :: "(Completion \<times> bool) list \<Rightarrow> Win32Watcher \<Rightarrow> FsEvent list \<times> Completion option \<times> Win32Watcher" where
  "watch_run [] w = ([], None, w)"
| "watch_run ((cp, armed) # rest) w =
    (let (go_on, evs, w1) = completion_turn cp armed w
     in if go_on then (let (evs1, stopped_by, w2) = watch_run rest w1 in (evs @ evs1, stopped_by, w2))
        else (evs, Some cp, w1))"

section \<open>No handle is lost\<close>

lemma open_handle_open:
  "open_handle f y = (h, y1) \<Longrightarrow> wy_open y1 = (case h of None \<Rightarrow> wy_open y | Some x \<Rightarrow> x # wy_open y)"
  by (auto simp: open_handle_def Let_def split: prod.splits option.splits)

lemma arm_open: "arm os w y = (b, y1) \<Longrightarrow> wy_open y1 = wy_open y"
  by (auto simp: arm_def split: prod.splits)

lemma start_open: "WinWatch_start os w y = (r, y1) \<Longrightarrow> wy_open y1 = wy_open y"
  by (auto simp: WinWatch_start_def split: prod.splits if_splits dest: arm_open)

text \<open>
  The watcher of Windows keeps its handles in order.  A watcher that could not be made leaves the handles as they were, at whatever call it
  failed; one that was made holds two more, which \<open>stop\<close> gives back, once, however often it is called.
\<close>

theorem watcher_handles_returned:
  assumes "make_watcher_win os rt y = (r, y1)"
  shows "case r of Inl e \<Rightarrow> wy_open y1 = wy_open y
    | Inr w \<Rightarrow> wy_open y1 = wx_iocp w # wx_dir w # wy_open y \<and>
        (\<forall>y2 w3 y3. wy_open y2 = wy_open y1 \<longrightarrow> WinWatch_stop w y2 = (w3, y3) \<longrightarrow>
          wy_open y3 = wy_open y \<and> WinWatch_stop w3 y3 = (w3, y3))"
  using assms
  by (auto simp: make_watcher_win_def Let_def WinWatch_stop_def CloseHandle_def
      split: prod.splits option.splits sum.splits if_splits dest!: open_handle_open start_open)

section \<open>No change is lost in silence\<close>

text \<open>
  When the loop gives up for a reason of its own, because the buffer could not be armed again, the last event it has emitted is an overflow: the
  client fetches a new snapshot and misses nothing.  It ends without one only when it was stopped, or
  when the directory itself went away.
\<close>

theorem watch_end_announced:
  assumes "watch_run cps w = (evs, Some cp, w1)" and "cp \<notin> {CpStop, CpAborted, CpError}"
  shows "evs \<noteq> [] \<and> last evs = overflow_event"
  using assms(1)
proof (induction cps arbitrary: w evs)
  case (Cons x cps)
  obtain c armed where x: "x = (c, armed)" by (cases x)
  obtain go_on es v where t: "completion_turn c armed w = (go_on, es, v)" by (cases "completion_turn c armed w")
  show ?case
  proof (cases go_on)
    case True
    then show ?thesis using Cons t x by (auto simp: Let_def split: prod.splits)
  next
    case False
    then have "c = cp" "evs = es" using Cons.prems t x by auto
    then show ?thesis using t False assms(2) by (auto simp: completion_turn_def Let_def split: Completion.splits prod.splits if_splits)
  qed
qed simp

end
