(* ===== verification/ServerFilesProps.thy ===== *)
theory ServerFilesProps
  imports ServerFiles
begin

text \<open>
  The guarantees of the file handlers: every answer to a read can be sent, a read returns the requested
  slice of the file, a request that names a path outside the root or an absurd offset does not touch the
  machine, and the retry loops are bounded.
\<close>

section \<open>Answers that can be sent\<close>

lemma count_sent_not_too_large: "fst (count_sent b ch) \<noteq> fail TooLarge"
proof -
  have "fst (send_loop sc d acc) \<noteq> fail TooLarge" for sc d acc
    by (induction sc d acc rule: send_loop.induct) auto
  then show ?thesis by (auto simp: count_sent_def send_all_def split: prod.split sum.split) (metis fst_conv)
qed

lemma reply_fits:
  assumes "\<And>out. body out = out @ p" and "length p \<le> unat kMaxPayload"
  shows "fst (reply t rid body c) \<noteq> fail TooLarge"
  using assms(2) count_sent_not_too_large
  by (simp add: reply_def send_with_def send_raw_def split_beta write_frame_bytes [of body p, OF assms(1)])

lemma varint_length: "length (varint_bytes v) \<le> 10"
  using varint_bytes_length [of v 9] unat_word_less_2p [of v] by simp

lemma send_error_fits:
  assumes "length dt \<le> 2 ^ 25"
  shows "fst (send_error rid e dt c) \<noteq> fail TooLarge"
proof -
  let ?m = "\<lparr>code = Errc_code e, detail = dt\<rparr>"
  have app: "write_error ?m out = out @ write_error ?m []" for out
    by (simp add: write_error_def writes_def Writer_fixed Writer_string_eq Writer_raw_def Writer_varint_append)
  have "length (write_error ?m []) \<le> 14 + length dt"
    using varint_length [of "of_nat (length dt)"]
    by (simp add: write_error_def writes_def Writer_fixed Writer_string_eq Writer_raw_def Writer_varint_append)
  then show ?thesis unfolding send_error_def using assms
    by (intro reply_fits [OF app]) (simp add: kMaxPayload_def)
qed

lemma length_join: "length (join (components p)) \<le> length p"
proof -
  have split: "length (join (components p)) \<le> length p" for p
  proof (induction "length p" arbitrary: p rule: less_induct)
    case less
    let ?q = "dropWhile is_path_separator p"
    let ?c = "takeWhile (\<lambda>c. \<not> is_path_separator c) ?q" and ?r = "dropWhile (\<lambda>c. \<not> is_path_separator c) ?q"
    have plain: "\<forall>x \<in> set ?c. \<not> is_path_separator x" by (auto dest: set_takeWhileD)
    have sep: "?r = [] \<or> is_path_separator (hd ?r)" using hd_dropWhile [of "\<lambda>c. \<not> is_path_separator c" ?q] by blast
    have cp: "components p = (if good_component ?c then [?c] else []) @ components ?r"
      using components_split [OF plain sep] components_dropWhile [of p] by (simp only: takeWhile_dropWhile_id)
    have lq: "length ?c + length ?r = length ?q" by (metis length_append takeWhile_dropWhile_id)
    have lp: "length ?q \<le> length p" by (rule length_dropWhile_le)
    show ?case
    proof (cases "?r = []")
      case True
      have "components [] = []" by (simp add: components_def good_component_def)
      then have "components p = (if good_component ?c then [?c] else [])" using cp unfolding True by simp
      then show ?thesis using lq lp by (auto simp del: dropWhile_eq_Nil_conv)
    next
      case False
      then obtain s r where r: "?r = s # r" "is_path_separator s" by (metis hd_dropWhile list.collapse)
      have cr: "components ?r = components r" using r by (simp add: components_sep)
      have "length r < length p" using lq lp r(1) by simp
      from less [OF this] have "length (join (components r)) \<le> length r" .
      then show ?thesis using cp cr lq lp r(1) by (auto simp: join_Cons)
    qed
  qed
  then show ?thesis .
qed

lemma length_normalize: "length (normalize_path p) \<le> length p"
  by (simp add: normalize_path_eq length_join)

lemma read_response_fits:
  assumes "length d \<le> unat kMaxPayload - 64"
  shows "fst (reply t rid (write_read_response \<lparr>file_size = sz, rs_data = d\<rparr>) c) \<noteq> fail TooLarge"
proof -
  let ?m = "\<lparr>file_size = sz, rs_data = d\<rparr>"
  have app: "write_read_response ?m out = out @ write_read_response ?m []" for out
    by (simp add: write_read_response_def writes_def Writer_fixed Writer_blob_eq Writer_raw_def Writer_varint_append)
  have "length (write_read_response ?m []) \<le> 18 + length d"
    using varint_length [of "of_nat (length d)"]
    by (simp add: write_read_response_def writes_def Writer_fixed Writer_blob_eq Writer_raw_def Writer_varint_append)
  then show ?thesis using assms by (intro reply_fits [OF app]) (simp add: kMaxPayload_def)
qed

text \<open>What \<open>fread\<close> is documented to do: it never reports more bytes than were asked for.\<close>

definition fread_bounded :: "'w Host \<Rightarrow> bool" where
  "fread_bounded host \<longleftrightarrow> (\<forall>h n w. length (fst (os_fread host h n w)) \<le> n)"

lemma run_os_fst [simp]: "fst (run_os f c) = fst (f (cn_world c))"
  by (simp add: run_os_def split_beta)

lemma read_slice_fits:
  assumes "fread_bounded host" and "length rel \<le> 2 ^ 25" and "unat want \<le> unat kMaxPayload - 64"
  shows "fst (read_slice host rid rel full sz off want c) \<noteq> fail TooLarge"
proof -
  have "length (fst (os_fread host fp (unat want) w1)) \<le> unat kMaxPayload - 64" for fp w1
    using assms(1,3) unfolding fread_bounded_def by (meson le_trans)
  then show ?thesis
    by (simp add: read_slice_def Let_def split_beta send_error_fits [OF assms(2)] read_response_fits split: sum.split)
qed

lemma send_read_fits:
  assumes "fread_bounded host" and "length (rr_path q) \<le> 2 ^ 25"
  shows "fst (send_read host root rid q c) \<noteq> fail TooLarge"
proof -
  have rel: "length (normalize_path (rr_path q)) \<le> 2 ^ 25" using length_normalize [of "rr_path q"] assms(2) by simp
  have w: "unat want \<le> unat kMaxPayload - 64" if "\<not> want > ucast (kMaxPayload - 64)" for want :: u64
    using that by (simp add: word_less_nat_alt not_less kMaxPayload_def)
  show ?thesis
    unfolding send_read_def Let_def
    by (simp add: send_error_fits [OF rel] send_error_fits read_slice_fits [OF assms(1) rel w] not_less split: sum.split option.split)
qed

lemma read_many_one_total:
  assumes "fread_bounded host" and "read_many_one host root p tot c = (it, tot1, c1)" and "tot \<le> unat kMaxPayload - 0x10000"
  shows "tot1 = tot + length (item_data it)" and "tot1 \<le> unat kMaxPayload - 0x10000"
proof -
  have fr: "length (fst (os_fread host h n w)) \<le> n" for h n w using assms(1) by (simp add: fread_bounded_def)
  have "tot1 = tot + length (item_data it) \<and> tot1 \<le> unat kMaxPayload - 0x10000"
    using assms(2,3)
    by (auto simp: read_many_one_def run_os_def Let_def not_less split: sum.splits option.splits if_splits prod.splits
        intro: le_trans [OF add_left_mono [OF fr]] dest: arg_cong [of _ _ fst])
      (metis add_left_mono fr fst_conv le_trans)+
  then show "tot1 = tot + length (item_data it)" "tot1 \<le> unat kMaxPayload - 0x10000" by auto
qed

lemma read_many_loop_total:
  assumes "fread_bounded host"
  shows "tot \<le> unat kMaxPayload - 0x10000 \<Longrightarrow> read_many_loop host root ps tot c = (its, c1) \<Longrightarrow>
    length its = length ps \<and> tot + (\<Sum>it \<leftarrow> its. length (item_data it)) \<le> unat kMaxPayload - 0x10000"
proof (induction ps arbitrary: tot c its c1)
  case (Cons p ps)
  obtain it tot1 c2 where one: "read_many_one host root p tot c = (it, tot1, c2)" by (cases "read_many_one host root p tot c") auto
  obtain its2 c3 where loop: "read_many_loop host root ps tot1 c2 = (its2, c3)" by (cases "read_many_loop host root ps tot1 c2")
  have its: "its = it # its2" using Cons.prems(2) one loop by simp
  note t = read_many_one_total [OF assms one Cons.prems(1)]
  show ?case using Cons.IH [OF t(2) loop] t(1) its by simp
qed simp

lemma write_item_append: "write_read_many_item it out = out @ write_read_many_item it []"
  by (simp add: write_read_many_item_def writes_def Writer_u8_def Writer_blob_eq Writer_raw_def Writer_varint_append)

lemma length_write_item: "length (write_read_many_item it []) \<le> length (item_data it) + 11"
  using varint_length [of "of_nat (length (item_data it))"]
  by (simp add: write_read_many_item_def writes_def Writer_u8_def Writer_blob_eq Writer_raw_def Writer_varint_append)

lemma foldl_write_items:
  "foldl (\<lambda>o1 w. w o1) out (map write_read_many_item xs) = out @ concat (map (\<lambda>x. write_read_many_item x []) xs)"
proof (induction xs arbitrary: out)
  case (Cons x xs)
  then show ?case using write_item_append [of x out] by simp
qed simp

lemma length_write_items:
  "length (write_read_many_response \<lparr>items = xs\<rparr> []) \<le> 10 + (\<Sum>it \<leftarrow> xs. length (item_data it)) + 11 * length xs"
proof -
  have "length (concat (map (\<lambda>x. write_read_many_item x []) xs)) \<le> (\<Sum>it \<leftarrow> xs. length (item_data it)) + 11 * length xs"
  proof (induction xs)
    case (Cons x xs)
    then show ?case using length_write_item [of x] by simp
  qed simp
  then show ?thesis using varint_length [of "of_nat (length xs)"]
    by (simp add: write_read_many_response_def writes_def Writer_varint_append foldl_write_items)
qed

lemma write_items_append: "write_read_many_response b out = out @ write_read_many_response b []"
  by (cases b) (simp add: write_read_many_response_def writes_def Writer_varint_append foldl_write_items)

lemma send_read_many_fits:
  assumes "fread_bounded host" and "length (paths q) \<le> kMaxReadManyPaths"
  shows "fst (send_read_many host root rid q c) \<noteq> fail TooLarge"
proof -
  obtain its c1 where l: "read_many_loop host root (paths q) 0 c = (its, c1)" by (cases "read_many_loop host root (paths q) 0 c")
  note t = read_many_loop_total [OF assms(1) _ l]
  have "length (write_read_many_response \<lparr>items = its\<rparr> []) \<le> unat kMaxPayload"
    using length_write_items [of its] t assms(2) by (simp add: kMaxReadManyPaths_def kMaxPayload_def)
  then show ?thesis using l reply_fits [OF write_items_append] by (simp add: send_read_many_def)
qed

text \<open>
  C9. Every answer to a read fits into a frame: neither a single read nor a bulk read of up to 4096 paths
  ever builds an answer that \<open>send_raw\<close> refuses as too large, whatever the sizes of the files, provided
  \<open>fread\<close> keeps to its documented bound.
\<close>

theorem read_answers_fit:
  assumes "fread_bounded host"
  shows "(length (rr_path q) \<le> 2 ^ 25 \<longrightarrow> fst (send_read host root rid q c) \<noteq> fail TooLarge) \<and>
    (length (paths qs) \<le> kMaxReadManyPaths \<longrightarrow> fst (send_read_many host root rid qs c) \<noteq> fail TooLarge)"
  using send_read_fits [OF assms] send_read_many_fits [OF assms] by blast

text \<open>
  A machine with one regular file: the state is the read position of the open handle.
\<close>

definition file_host :: "bytes \<Rightarrow> bytes \<Rightarrow> nat Host" where
  "file_host p content =
    \<lparr>host_fs = (\<lambda>_. \<lparr>symlink_status = (\<lambda>q. if q = p then Some (FtRegular, 420) else None),
        fs_file_size = (\<lambda>q. if q = p then Some (of_nat (length content)) else None),
        read_symlink = (\<lambda>q. None), last_write_time = (\<lambda>q. Some 0), is_directory = (\<lambda>q. False),
        directory_names = (\<lambda>q. None), stat_dev = (\<lambda>q. None)\<rparr>),
     os_fopen = (\<lambda>q m w. (if q = p then Inr 0 else Inl NoSuchFile, 0)), os_fseek = (\<lambda>h off w. (True, unat off)),
     os_fread = (\<lambda>h n w. (take n (drop w content), w + n)), os_fwrite = (\<lambda>h d w. (0, w)), os_fclose = (\<lambda>h w. 0),
     os_resize_file = (\<lambda>q n w. (Some OtherFsError, w)), os_create_directory = (\<lambda>q w. ((False, Some OtherFsError), w)),
     os_remove = (\<lambda>q w. ((False, None), w)), os_rename = (\<lambda>q r w. (Some OtherFsError, w)),
     os_read_symlink = (\<lambda>q w. Inl InvalidArg), os_transient = (\<lambda>q e w. False), os_getrandom = (\<lambda>g k n. replicate n 7)\<rparr>"

definition idle_conn :: "nat Conn" where
  "idle_conn = \<lparr>cn_world = 0, cn_chan = FrameChannel_init
     \<lparr>inbox = [], outbox = [], sends = replicate 40 (RcN 50), recvs = [], selects = [], clock = [0]\<rparr>,
     cn_generation = 1, cn_nonces = 0\<rparr>"

lemma file_host_bounded: "fread_bounded (file_host p content)"
  by (simp add: fread_bounded_def file_host_def)

theorem read_answers_fit_witness:
  "fst (send_read (file_host (lit ''/r/a'') (lit ''hello'')) (lit ''/r'') 1
      \<lparr>rr_path = lit ''a'', rr_offset = 1, rr_length = 3\<rparr> idle_conn) \<noteq> fail TooLarge \<and>
   fst (send_read_many (file_host (lit ''/r/a'') (lit ''hello'')) (lit ''/r'') 1
      \<lparr>paths = [lit ''a'', lit ''b'']\<rparr> idle_conn) \<noteq> fail TooLarge"
  using read_answers_fit [OF file_host_bounded, of "\<lparr>rr_path = lit ''a'', rr_offset = 1, rr_length = 3\<rparr>" "lit ''/r/a''" "lit ''hello''"
      "lit ''/r''" 1 idle_conn "\<lparr>paths = [lit ''a'', lit ''b'']\<rparr>"]
  by (simp add: kMaxReadManyPaths_def)

section \<open>A read returns the file\<close>

text \<open>
  A file as the library calls see it: its size, and the handle of an open of it serves any range.  This is
  the documented behaviour of \<open>fopen\<close>, \<open>fseeko\<close> and \<open>fread\<close> on an unchanging regular file.
\<close>

definition serves_file :: "'w Host \<Rightarrow> 'w \<Rightarrow> bytes \<Rightarrow> bytes \<Rightarrow> bool" where
  "serves_file host w full content \<longleftrightarrow>
    fs_file_size (host_fs host w) full = Some (of_nat (length content)) \<and> length content < 2 ^ 63 \<and>
    (\<exists>fp w1. os_fopen host full (lit ''rb'') w = (Inr fp, w1) \<and>
       (\<forall>off. unat off \<le> length content \<longrightarrow> (\<exists>w2. os_fseek host fp off w1 = (True, w2) \<and>
          (\<forall>n. fst (os_fread host fp n w2) = take n (drop (unat off) content)))))"

text \<open>
  C8. A read request for a file inside the root is answered with the file's size and exactly the requested
  slice of its bytes, cut at the end of the file, when the slice is within the frame limit.
\<close>

theorem read_returns_slice:
  assumes "resolve root (normalize_path (rr_path q)) = ok full" and "serves_file host (cn_world c) full content"
    and "unat (rr_length q) \<le> unat kMaxPayload - 64"
  shows "\<exists>c1. send_read host root rid q c = reply MsgReadResponse rid (write_read_response
      \<lparr>file_size = of_nat (length content),
       rs_data = take (unat (rr_length q)) (drop (unat (rr_offset q)) content)\<rparr>) c1 \<and> cn_chan c1 = cn_chan c"
proof -
  define sz :: u64 where "sz = of_nat (length content)"
  define off where "off = min (rr_offset q) sz"
  define want :: u64 where "want = min (ucast (rr_length q)) (sz - off)"
  have len: "length content < 2 ^ 63" and size: "fs_file_size (host_fs host (cn_world c)) full = Some sz"
    using assms(2) by (simp_all add: serves_file_def sz_def)
  have usz: "unat sz = length content" using len by (simp add: sz_def unat_of_nat)
  have uoff: "unat off = min (unat (rr_offset q)) (length content)"
    by (auto simp: off_def min_def word_le_nat_alt usz)
  have le: "off \<le> sz" by (simp add: off_def)
  have ulen: "unat (ucast (rr_length q) :: u64) = unat (rr_length q)"
    using unat_word_less_2p [of "rr_length q"] by (simp add: unsigned_ucast_eq take_bit_nat_eq_self_iff)
  have uwant: "unat want = min (unat (rr_length q)) (length content - unat off)"
    using le by (auto simp: want_def min_def word_le_nat_alt unat_sub usz ulen)
  have small: "\<not> want > ucast (kMaxPayload - 64)"
    using assms(3) uwant by (simp add: word_less_nat_alt kMaxPayload_def)
  have slice: "take (unat want) (drop (unat off) content) = take (unat (rr_length q)) (drop (unat (rr_offset q)) content)"
  proof (cases "unat (rr_offset q) \<le> length content")
    case True
    have "take (min n (length content - k)) (drop k content) = take n (drop k content)" for n k
      by (cases "n \<le> length content - k") (simp_all add: min_def)
    then show ?thesis using True by (simp add: uwant uoff)
  qed (simp add: uwant uoff)
  have s: "send_read host root rid q c = read_slice host rid (normalize_path (rr_path q)) full sz off want c"
    using assms(1) size small unfolding off_def want_def send_read_def Let_def by auto
  obtain fp w1 w2 where f: "os_fopen host full (lit ''rb'') (cn_world c) = (Inr fp, w1)" "os_fseek host fp off w1 = (True, w2)"
    "\<forall>n. fst (os_fread host fp n w2) = take n (drop (unat off) content)"
    using assms(2) uoff unfolding serves_file_def by (metis min.cobounded2)
  have inrange: "\<not> off > 0x7FFFFFFFFFFFFFFF" using uoff len by (simp add: word_less_nat_alt)
  show ?thesis
  proof (cases "want = 0")
    case True
    then have "take (unat (rr_length q)) (drop (unat (rr_offset q)) content) = []" using slice by simp
    then show ?thesis using s True by (auto simp: read_slice_def sz_def)
  next
    case False
    then show ?thesis using s f inrange slice
      by (auto simp: read_slice_def run_os_def seek_to_def sz_def Let_def split_beta)
  qed
qed

lemma file_host_serves:
  "length content < 2 ^ 63 \<Longrightarrow> serves_file (file_host p content) w p content"
  by (simp add: serves_file_def file_host_def)

theorem read_returns_slice_witness:
  "\<exists>c1. send_read (file_host (lit ''/r/a'') (lit ''hello'')) (lit ''/r'') 1
      \<lparr>rr_path = lit ''a'', rr_offset = 3, rr_length = 7\<rparr> idle_conn =
    reply MsgReadResponse 1 (write_read_response \<lparr>file_size = 5, rs_data = lit ''lo''\<rparr>) c1 \<and> cn_chan c1 = cn_chan idle_conn"
proof -
  have "resolve (lit ''/r'') (normalize_path (lit ''a'')) = ok (lit ''/r/a'')" by code_simp
  then show ?thesis
    using read_returns_slice [of "lit ''/r''" "\<lparr>rr_path = lit ''a'', rr_offset = 3, rr_length = 7\<rparr>" "lit ''/r/a''"
        "file_host (lit ''/r/a'') (lit ''hello'')" idle_conn "lit ''hello''" 1]
    by (simp add: file_host_serves kMaxPayload_def)
qed

section \<open>Requests that must not touch the machine\<close>

lemma resolve_refuses:
  "\<not> list_all inner_component (components p) \<Longrightarrow> resolve root p = fail InvalidPath"
  by (simp add: resolve_def is_contained_relative_iff)

text \<open>The path a mutation names first, and all the paths it names.\<close>

definition mutation_paths :: "Frame \<Rightarrow> bytes list" where
  "mutation_paths f =
    (let t = ftype (fr_header f); r = Reader_init (fr_payload f) in
     if t = MsgCreateRequest then (case fst (read_create_request r) of Inr q \<Rightarrow> [cr_path q] | Inl e \<Rightarrow> [])
     else if t = MsgWriteRequest then (case fst (read_write_request r) of Inr q \<Rightarrow> [wr_path q] | Inl e \<Rightarrow> [])
     else if t = MsgTruncateRequest then (case fst (read_truncate_request r) of Inr q \<Rightarrow> [tr_path q] | Inl e \<Rightarrow> [])
     else if t = MsgMkdirRequest then (case fst (read_mkdir_request r) of Inr q \<Rightarrow> [mk_path q] | Inl e \<Rightarrow> [])
     else if t = MsgUnlinkRequest \<or> t = MsgRmdirRequest then (case fst (read_path_request r) of Inr q \<Rightarrow> [pr_path q] | Inl e \<Rightarrow> [])
     else if t = MsgRenameRequest then (case fst (read_rename_request r) of Inr q \<Rightarrow> [from_path q, to_path q] | Inl e \<Rightarrow> [])
     else [])"

text \<open>
  C7. A mutation that names a path outside the root touches nothing: whatever its type, when any path it
  names has a dot-dot component or a colon, the machine and the server's counters are left as they were,
  and an undecodable or unknown request does not touch them either.
\<close>

theorem mutation_outside_refused:
  assumes "list_ex (\<lambda>p. \<not> list_all inner_component (components p)) (mutation_paths f) \<or> mutation_paths f = []"
  shows "\<exists>ch. snd (handle_mutation host root f c) = c\<lparr>cn_chan := ch\<rparr>"
proof -
  have err: "\<exists>ch. snd (send_error rid e dt c) = c\<lparr>cn_chan := ch\<rparr>" for rid e dt
    by (auto simp: send_error_def reply_def split_beta)
  have same: "\<exists>ch. c = c\<lparr>cn_chan := ch\<rparr>" by (rule exI [of _ "cn_chan c"]) simp
  note refuse = resolve_refuses [of _ root]
  let ?t = "ftype (fr_header f)"
  consider "?t = MsgCreateRequest" | "?t = MsgWriteRequest" | "?t = MsgTruncateRequest" | "?t = MsgMkdirRequest"
    | "?t = MsgUnlinkRequest" | "?t = MsgRmdirRequest" | "?t = MsgRenameRequest"
    | "?t \<notin> {MsgCreateRequest, MsgWriteRequest, MsgTruncateRequest, MsgMkdirRequest, MsgUnlinkRequest, MsgRmdirRequest, MsgRenameRequest}"
    by blast
  then show ?thesis
  proof cases
    case 1
    then show ?thesis using assms refuse err same
      by (auto simp: handle_mutation_def mutation_paths_def with_request_def handle_create_def split: sum.splits)
  next
    case 2
    then show ?thesis using assms refuse err same
      by (auto simp: handle_mutation_def mutation_paths_def with_request_def handle_write_def split: sum.splits)
  next
    case 3
    then show ?thesis using assms refuse err same
      by (auto simp: handle_mutation_def mutation_paths_def with_request_def handle_truncate_def split: sum.splits)
  next
    case 4
    then show ?thesis using assms refuse err same
      by (auto simp: handle_mutation_def mutation_paths_def with_request_def handle_mkdir_def split: sum.splits)
  next
    case 5
    then show ?thesis using assms refuse err same
      by (auto simp: handle_mutation_def mutation_paths_def with_request_def handle_unlink_def split: sum.splits)
  next
    case 6
    then show ?thesis using assms refuse err same
      by (auto simp: handle_mutation_def mutation_paths_def with_request_def handle_rmdir_def split: sum.splits)
  next
    case 7
    then show ?thesis using assms refuse err same
      by (auto simp: handle_mutation_def mutation_paths_def with_request_def handle_rename_def split: sum.splits)
  next
    case 8
    then show ?thesis using err by (simp add: handle_mutation_def)
  qed
qed

theorem mutation_outside_refused_witness:
  "\<exists>ch. snd (handle_mutation (file_host (lit ''/r/a'') (lit ''hello'')) (lit ''/r'')
      \<lparr>fr_header = \<lparr>ftype = MsgUnlinkRequest, flags = 0, payload_len = 5, request_id = 1\<rparr>,
       fr_payload = write_path_request \<lparr>pr_path = lit ''../a''\<rparr> []\<rparr> idle_conn) = idle_conn\<lparr>cn_chan := ch\<rparr>"
proof -
  let ?f = "\<lparr>fr_header = \<lparr>ftype = MsgUnlinkRequest, flags = 0, payload_len = 5, request_id = 1\<rparr>,
       fr_payload = write_path_request \<lparr>pr_path = lit ''../a''\<rparr> []\<rparr>"
  have "mutation_paths ?f = [lit ''../a'']" by code_simp
  moreover have "\<not> list_all inner_component (components (lit ''../a''))" by code_simp
  ultimately show ?thesis
    using mutation_outside_refused [of ?f "file_host (lit ''/r/a'') (lit ''hello'')" "lit ''/r''" idle_conn] by simp
qed

section \<open>Bounded retries\<close>

lemma delays_count: "length (delays_from 1) = 8"
  by code_simp

lemma share_retry_loop_iter:
  "\<exists>k \<le> length ds. share_retry_loop host tgt op1 ds (ec, w) = ((\<lambda>r. op1 (snd r)) ^^ k) (ec, w)"
proof (induction ds arbitrary: ec w)
  case (Cons d ds)
  obtain ec' w' where o: "op1 w = (ec', w')" by (cases "op1 w")
  obtain k where k: "k \<le> length ds" "share_retry_loop host tgt op1 ds (ec', w') = ((\<lambda>r. op1 (snd r)) ^^ k) (ec', w')"
    using Cons by blast
  show ?case
  proof (cases "\<exists>e. ec = Some e \<and> os_transient host tgt e w")
    case True
    then show ?thesis using k o by (intro exI [of _ "Suc k"]) (auto simp: funpow_Suc_right simp del: funpow.simps)
  next
    case False
    then show ?thesis by (intro exI [of _ 0]) (auto split: option.split)
  qed
qed auto

text \<open>
  A link to a directory answers true to \<open>fs::is_directory\<close>, which follows links: removing the link with
  unlink is refused as if it were the directory.
\<close>

lemma unlink_refuses_link_to_directory:
  assumes "resolve root (pr_path q) = ok full" and "is_directory (host_fs host (cn_world c)) full"
    and "symlink_status (host_fs host (cn_world c)) full = Some (FtSymlink, m)"
  shows "handle_unlink host root rid q c = send_error rid IsADirectory (pr_path q) c"
  using assms by (simp add: handle_unlink_def)

end
