(* ===== verification/Answers.thy ===== *)
theory Answers
  imports SnapshotStream ServerFilesProps
begin

text \<open>
  The typing of the protocol on the server's side: what a session puts on the connection in answer to a request.  The
  reference is \<open>answer_type\<close>, the type of message that the client expects for each request.
\<close>

section \<open>One frame\<close>

definition answer_type :: "MsgType \<Rightarrow> MsgType" where
  "answer_type t =
    (if t = MsgHello then MsgHelloAck
     else if t = MsgPing then MsgPong
     else if t = MsgSnapshotRequest then MsgSnapshot
     else if t = MsgReadRequest then MsgReadResponse
     else if t = MsgReadManyRequest then MsgReadManyResponse
     else if t = MsgReadlinkRequest then MsgReadlinkResponse
     else if t = MsgCreateRequest then MsgCreateResponse
     else if t = MsgWriteRequest then MsgWriteResponse
     else if t \<in> set [MsgAuth, MsgTruncateRequest, MsgMkdirRequest, MsgUnlinkRequest, MsgRmdirRequest, MsgRenameRequest] then MsgOk
     else MsgError)"

definition typed_frame :: "MsgType \<Rightarrow> u64 \<Rightarrow> OutFrame \<Rightarrow> bool" where
  "typed_frame t rid m \<longleftrightarrow> of_type m \<in> {t, MsgError} \<and> of_id m = rid \<and> length (of_payload m) \<le> unat kMaxPayload"

text \<open>A call that succeeds has put one frame without flags behind what \<open>ch\<close> has sent.\<close>

definition one_answer :: "MsgType \<Rightarrow> u64 \<Rightarrow> FrameChannel \<Rightarrow> unit result \<times> 'w Conn \<Rightarrow> bool" where
  "one_answer t rid ch rc \<longleftrightarrow>
    (fst rc = ok () \<longrightarrow> (\<exists>m. typed_frame t rid m \<and> of_flags m = 0 \<and> outbox (sock (cn_chan (snd rc))) = outbox (sock ch) @ of_bytes m))"

lemma reply_one:
  assumes "\<And>out. body out = out @ body []" and "t1 \<in> {t, MsgError}" and "cn_chan c = ch"
  shows "one_answer t rid ch (reply t1 rid body c)"
proof -
  let ?m = "\<lparr>of_type = t1, of_id = rid, of_flags = 0, of_payload = body []\<rparr>"
  have f: "write_frame [] t1 rid body 0 = of_bytes ?m"
    using write_frame_bytes [of body "body []", OF assms(1)] by (simp add: of_bytes_def of_header_def)
  show ?thesis
  proof (cases "send_raw (of_bytes ?m) (cn_chan c)")
    case (Pair r ch1)
    have "typed_frame t rid ?m \<and> outbox (sock ch1) = outbox (sock ch) @ of_bytes ?m" if "r = ok ()"
      using Pair that assms(2,3) count_sent_ok [of "of_bytes ?m" "cn_chan c" ch1]
      by (auto simp: send_raw_def typed_frame_def of_bytes_def split: if_splits)
    then show ?thesis using Pair by (auto simp: one_answer_def reply_def send_with_def f intro!: exI [of _ ?m])
  qed
qed

lemma send_error_one: "cn_chan c = ch \<Longrightarrow> one_answer t rid ch (send_error rid e dt c)"
  unfolding send_error_def
  by (rule reply_one)
    (simp_all add: write_error_def writes_def Writer_fixed Writer_string_eq Writer_raw_def Writer_varint_append)

lemma send_ok_ack_one: "cn_chan c = ch \<Longrightarrow> one_answer MsgOk rid ch (send_ok_ack rid c)"
  unfolding send_ok_ack_def
  by (rule reply_one) (simp_all add: write_ack_def write_mutation_ack_def writes_def Writer_fixed)

lemma send_empty_one:
  assumes "send t rid [] 0 (cn_chan c) = (r, ch1)"
  shows "one_answer t rid (cn_chan c) (r, c\<lparr>cn_chan := ch1\<rparr>)"
  using send_ok [of t rid "[]" 0 "cn_chan c" ch1] assms
  by (auto simp: one_answer_def typed_frame_def intro!: exI [of _ "\<lparr>of_type = t, of_id = rid, of_flags = 0, of_payload = []\<rparr>"])

lemma run_os_chan: "run_os f c = (x, c1) \<Longrightarrow> cn_chan c1 = cn_chan c"
  by (auto simp: run_os_def split: prod.splits)

lemma fail_one [simp]: "one_answer t rid ch (fail e, c)"
  by (simp add: one_answer_def)

lemmas writer_appends =
  write_attributes_def write_ack_def write_mutation_ack_def write_write_response_def write_read_response_def write_readlink_response_def
  writes_def Writer_u8_def Writer_fixed Writer_string_eq Writer_blob_def Writer_raw_def Writer_varint_append

section \<open>The file handlers\<close>

lemma handle_create_one: "one_answer MsgCreateResponse rid (cn_chan c) (handle_create host rt rid q c)"
  unfolding handle_create_def
  by (auto simp: Let_def writer_appends dest!: run_os_chan intro!: send_error_one reply_one split: sum.splits prod.splits)

lemma handle_write_one: "one_answer MsgWriteResponse rid (cn_chan c) (handle_write host rt rid q c)"
  unfolding handle_write_def
  by (auto simp: Let_def writer_appends dest!: run_os_chan intro!: send_error_one reply_one split: sum.splits prod.splits if_splits)

lemma handle_simple_one:
  "one_answer MsgOk rid (cn_chan c) (handle_truncate host rt rid qt c)"
  "one_answer MsgOk rid (cn_chan c) (handle_mkdir host rt rid qm c)"
  "one_answer MsgOk rid (cn_chan c) (handle_unlink host rt rid qp c)"
  "one_answer MsgOk rid (cn_chan c) (handle_rmdir host rt rid qp c)"
  "one_answer MsgOk rid (cn_chan c) (handle_rename host rt rid qr c)"
  unfolding handle_truncate_def handle_mkdir_def handle_unlink_def handle_rmdir_def handle_rename_def
  by (auto simp: Let_def dest!: run_os_chan intro!: send_error_one send_ok_ack_one split: sum.splits prod.splits option.splits)

lemma send_read_one: "one_answer MsgReadResponse rid (cn_chan c) (send_read host rt rid q c)"
  unfolding send_read_def read_slice_def
  by (auto simp: Let_def writer_appends dest!: run_os_chan intro!: send_error_one reply_one split: sum.splits prod.splits option.splits)

lemma read_many_one_chan: "read_many_one host rt p tot c = (it, tot1, c1) \<Longrightarrow> cn_chan c1 = cn_chan c"
  unfolding read_many_one_def
  by (auto simp: Let_def dest!: run_os_chan split: sum.splits prod.splits option.splits if_splits)

lemma read_many_loop_chan: "read_many_loop host rt ps tot c = (its, c1) \<Longrightarrow> cn_chan c1 = cn_chan c"
  by (induction ps arbitrary: tot c its) (auto simp: Let_def dest: read_many_one_chan split: prod.splits)

lemma send_read_many_one: "one_answer MsgReadManyResponse rid (cn_chan c) (send_read_many host rt rid q c)"
  unfolding send_read_many_def
  by (auto dest: read_many_loop_chan intro!: reply_one write_items_append split: prod.splits)

lemma send_readlink_one: "one_answer MsgReadlinkResponse rid (cn_chan c) (send_readlink host rt rid q c)"
  unfolding send_readlink_def
  by (auto simp: writer_appends intro!: send_error_one reply_one split: sum.splits)

lemma with_request_one: "(\<And>q. one_answer t rid ch (k q c)) \<Longrightarrow> one_answer t rid ch (with_request rd f k c)"
  by (auto simp: with_request_def split: sum.splits)

section \<open>Whole answers\<close>

text \<open>
  One or more whole frames for the request, each of the expected type or an error; all but the last announce another one.
\<close>

definition answered :: "MsgType \<Rightarrow> u64 \<Rightarrow> FrameChannel \<Rightarrow> FrameChannel \<Rightarrow> OutFrame list \<Rightarrow> bool" where
  "answered t rid ch ch1 ms \<longleftrightarrow> ms \<noteq> [] \<and> outbox (sock ch1) = outbox (sock ch) @ concat (map of_bytes ms) \<and>
    list_all (typed_frame t rid) ms \<and> list_all (\<lambda>m. of_flags m = kFlagMore) (butlast ms) \<and> of_flags (last ms) = 0"

lemma one_answered: "one_answer t rid ch (ok (), c) \<Longrightarrow> \<exists>ms. length ms = 1 \<and> answered t rid ch (cn_chan c) ms"
  unfolding one_answer_def answered_def by (clarsimp, rule_tac x = "[m]" in exI) simp

lemma snapshot_scanned:
  assumes "send_snapshot env rid c = Some (r, c1)" and "is_directory (host_fs (env_host env) (cn_world c)) (so_root (env_opts env))"
  shows "\<exists>sst es. scan_tree (env_fuel env) (host_fs (env_host env) (cn_world c)) (so_root (env_opts env)) collect
    (\<lambda>r d _. env_ignore env \<noteq> [] \<and> ignored (env_ignore env) r d) (so_one_file_system (env_opts env)) [] = Some (ok sst, es)"
proof -
  let ?scan = "scan_tree (env_fuel env) (host_fs (env_host env) (cn_world c)) (so_root (env_opts env))"
  have skip: "snapshot_skip (env_ignore env) = (\<lambda>r d _. env_ignore env \<noteq> [] \<and> ignored (env_ignore env) r d)"
    by (simp add: fun_eq_iff snapshot_skip_def)
  have "?scan collect (\<lambda>r d _. env_ignore env \<noteq> [] \<and> ignored (env_ignore env) r d) (so_one_file_system (env_opts env)) [] \<noteq> None"
    using assms(1) unfolding send_snapshot_def Let_def skip by (subst (asm) scan_tree_fold) (auto split: option.splits)
  then show ?thesis using assms(2) by (cases "so_one_file_system (env_opts env)") (auto simp: scan_tree_def Let_def split: option.splits)
qed

lemma snapshot_answered:
  assumes "send_snapshot env rid c = Some (ok (), c1)"
  shows "\<exists>ms. answered MsgSnapshot rid (cn_chan c) (cn_chan c1) ms"
proof -
  let ?skip = "\<lambda>r d _. env_ignore env \<noteq> [] \<and> ignored (env_ignore env) r d"
  let ?fs = "host_fs (env_host env) (cn_world c)" and ?rt = "so_root (env_opts env)"
  show ?thesis
  proof (cases "is_directory ?fs ?rt")
    case False
    then have "send_error rid NotADirectory (lit ''scan failed'') c = (ok (), c1)"
      using assms by (auto simp: send_snapshot_def scan_tree_def Let_def)
    then show ?thesis using send_error_one [of c "cn_chan c" MsgSnapshot rid NotADirectory "lit ''scan failed''"] one_answered by fastforce
  next
    case True
    have "\<exists>sst es. scan_tree (env_fuel env) ?fs ?rt collect ?skip (so_one_file_system (env_opts env)) [] = Some (ok sst, es)"
      by (rule snapshot_scanned [OF assms True])
    then obtain sst es where s: "scan_tree (env_fuel env) ?fs ?rt collect ?skip (so_one_file_system (env_opts env)) [] = Some (ok sst, es)" by blast
    let ?ms = "snapshot_frames rid (cn_generation c) (so_snapshot_chunk_bytes (env_opts env)) es"
    note f = send_snapshot_frames [OF s assms]
    obtain fin cur where k: "cuts (so_snapshot_chunk_bytes (env_opts env)) es = (fin, cur)" by (cases "cuts (so_snapshot_chunk_bytes (env_opts env)) es")
    have "answered MsgSnapshot rid (cn_chan c) (cn_chan c1) ?ms"
      using f by (auto simp: answered_def typed_frame_def snapshot_frames_def k snapshot_frame_def list_all_iff)
    then show ?thesis by blast
  qed
qed

lemma reply_hello_one:
  assumes "reply MsgHelloAck rid (write_hello h) c = (ok (), c1)"
  shows "one_answer MsgHelloAck rid (cn_chan c) (ok (), c1)"
  unfolding assms [symmetric] by (rule reply_one) (simp_all add: write_hello_def writer_appends)

lemma hello_one:
  assumes "handle_hello env f s c = (ok (), s1, c1)"
  shows "one_answer MsgHelloAck (request_id (fr_header f)) (cn_chan c) (ok (), c1)"
  using assms unfolding handle_hello_def Let_def refuse_def
  by (auto split: sum.splits prod.splits if_splits dest!: reply_hello_one)

lemma auth_one:
  assumes "handle_auth env f s c = (ok (), s1, c1)"
  shows "one_answer MsgOk (request_id (fr_header f)) (cn_chan c) (ok (), c1)"
  using assms unfolding handle_auth_def Let_def refuse_def
  by (auto split: sum.splits prod.splits if_splits dest!: send_empty_one)

lemma handle_mutation_one: "one_answer (answer_type (ftype (fr_header f))) (request_id (fr_header f)) (cn_chan c) (handle_mutation host rt f c)"
  unfolding handle_mutation_def Let_def answer_type_def
  by (auto intro!: with_request_one handle_create_one handle_write_one handle_simple_one send_error_one)

lemma keep_session_one:
  "keep_session s rc = (ok (), s1, c1) \<Longrightarrow> one_answer t rid ch rc \<Longrightarrow> one_answer t rid ch (ok (), c1)"
  by (cases rc) (simp add: keep_session_def)

lemma handle_one:
  assumes "handle env f s c = Some (ok (), s1, c1)" and "t = ftype (fr_header f)" and "t \<noteq> MsgSnapshotRequest"
  shows "one_answer (answer_type t) (request_id (fr_header f)) (cn_chan c) (ok (), c1)"
proof -
  let ?rid = "request_id (fr_header f)" and ?h = "env_host env" and ?rt = "so_root (env_opts env)"
  consider "t = MsgHello" | "t = MsgAuth" | "t = MsgPing" | "t = MsgReadRequest" | "t = MsgReadManyRequest" | "t = MsgReadlinkRequest"
    | "is_mutation t" | "t \<notin> set [MsgHello, MsgAuth, MsgPing, MsgReadRequest, MsgReadManyRequest, MsgReadlinkRequest]" "\<not> is_mutation t"
    by auto
  then show ?thesis
  proof cases
    case 1
    then have "handle_hello env f s c = (ok (), s1, c1)" using assms by (simp add: handle_def Let_def)
    then show ?thesis using hello_one 1 by (simp add: answer_type_def)
  next
    case 2
    then have "handle_auth env f s c = (ok (), s1, c1)" using assms by (simp add: handle_def Let_def)
    then show ?thesis using auth_one 2 by (simp add: answer_type_def)
  next
    case 3
    then show ?thesis using assms send_empty_one [of MsgPong ?rid c "ok ()"]
      by (auto simp: handle_def Let_def refuse_def answer_type_def split: if_splits prod.splits)
  next
    case 4
    then have "keep_session s (with_request read_read_request f (send_read ?h ?rt ?rid) c) = (ok (), s1, c1)"
      using assms by (auto simp: handle_def Let_def refuse_def split: if_splits)
    then have "one_answer MsgReadResponse ?rid (cn_chan c) (ok (), c1)" by (rule keep_session_one) (intro with_request_one send_read_one)
    then show ?thesis using 4 by (simp add: answer_type_def)
  next
    case 5
    then have "keep_session s (with_request read_read_many_request f (send_read_many ?h ?rt ?rid) c) = (ok (), s1, c1)"
      using assms by (auto simp: handle_def Let_def refuse_def split: if_splits)
    then have "one_answer MsgReadManyResponse ?rid (cn_chan c) (ok (), c1)" by (rule keep_session_one) (intro with_request_one send_read_many_one)
    then show ?thesis using 5 by (simp add: answer_type_def)
  next
    case 6
    then have "keep_session s (with_request read_path_request f (send_readlink ?h ?rt ?rid) c) = (ok (), s1, c1)"
      using assms by (auto simp: handle_def Let_def refuse_def split: if_splits)
    then have "one_answer MsgReadlinkResponse ?rid (cn_chan c) (ok (), c1)" by (rule keep_session_one) (intro with_request_one send_readlink_one)
    then show ?thesis using 6 by (simp add: answer_type_def)
  next
    case 7
    then have "keep_session s (handle_mutation ?h ?rt f c) = (ok (), s1, c1)"
      using assms by (auto simp: handle_def Let_def refuse_def is_mutation_def split: if_splits)
    from keep_session_one [OF this handle_mutation_one] show ?thesis using assms(2) by simp
  next
    case 8
    then have "keep_session s (send_error ?rid ProtocolError (lit ''unexpected message type'') c) = (ok (), s1, c1)"
      using assms by (auto simp: handle_def Let_def refuse_def split: if_splits)
    from keep_session_one [OF this send_error_one [OF refl]] show ?thesis .
  qed
qed

text \<open>
  C4. Requests and answers are typed.  Whenever the session goes on after a request, the connection carries exactly one whole
  answer to it behind what was sent before: a frame with the request's own identifier, of the type that belongs
  to the request or an error, within the size limit.  Only a snapshot may take several frames, of which all but the
  last announce another one.  So a client can tell by identifier and flag which request a frame answers and when the answer is
  complete, and the stream of frames never gets out of step.
\<close>

theorem answers_are_typed:
  assumes "handle env f s c = Some (ok (), s1, c1)" and "t = ftype (fr_header f)"
  shows "\<exists>ms. answered (answer_type t) (request_id (fr_header f)) (cn_chan c) (cn_chan c1) ms \<and> (t \<noteq> MsgSnapshotRequest \<longrightarrow> length ms = 1)"
proof (cases "t = MsgSnapshotRequest")
  case True
  then have "send_snapshot env (request_id (fr_header f)) c = Some (ok (), c1)"
    using assms by (auto simp: handle_def Let_def refuse_def keep_session_def split: if_splits prod.splits)
  then show ?thesis using snapshot_answered True by (fastforce simp: answer_type_def)
next
  case False
  have "one_answer (answer_type t) (request_id (fr_header f)) (cn_chan c) (ok (), c1)"
    by (rule handle_one [OF assms(1)]) (use assms(2) False in simp_all)
  then show ?thesis using one_answered False by blast
qed

theorem answers_are_typed_witness:
  "\<exists>c1 ms. handle demo_env \<lparr>fr_header = \<lparr>ftype = MsgSnapshotRequest, flags = 0, payload_len = 0, request_id = 1\<rparr>, fr_payload = []\<rparr>
      \<lparr>authed = True, registered = True, hs = Handshake_init\<rparr> demo_conn =
        Some (ok (), \<lparr>authed = True, registered = True, hs = Handshake_init\<rparr>, c1) \<and>
    answered MsgSnapshot 1 (cn_chan demo_conn) (cn_chan c1) ms"
proof -
  let ?f = "\<lparr>fr_header = \<lparr>ftype = MsgSnapshotRequest, flags = 0, payload_len = 0, request_id = 1\<rparr>, fr_payload = []\<rparr>"
  let ?s = "\<lparr>authed = True, registered = True, hs = Handshake_init\<rparr>"
  obtain c1 where "send_snapshot demo_env 1 demo_conn = Some (ok (), c1)" using demo_sent by blast
  then have h: "handle demo_env ?f ?s demo_conn = Some (ok (), ?s, c1)" by (simp add: handle_def keep_session_def)
  show ?thesis using answers_are_typed [OF h refl] h by (auto simp: answer_type_def)
qed

end
