(* ===== verification/Launch.thy ===== *)
theory Launch
  imports Socket
begin

text \<open>
  The launchers of \<open>src/platform\<close>: the command lines and environments with which \<open>win/wsl_launch.cpp\<close> starts the agent inside
  a distribution and \<open>linux/win_launch.cpp\<close> starts it on Windows, and the search for the machine's identifier
  in the output of \<open>hcsdiag\<close>.  Starting and killing processes is left to the operating system; the output of a
  command is an argument.
\<close>

section \<open>Identifiers of virtual machines\<close>

text \<open>\<open>std::isspace\<close> of the C locale.\<close>

definition is_space :: "u8 \<Rightarrow> bool" where
  "is_space ch \<longleftrightarrow> ch = 0x20 \<or> 0x09 \<le> ch \<and> ch \<le> 0x0D"

definition is_hex :: "u8 \<Rightarrow> bool" where
  "is_hex ch \<longleftrightarrow> 0x30 \<le> ch \<and> ch \<le> 0x39 \<or> 0x61 \<le> ch \<and> ch \<le> 0x66 \<or> 0x41 \<le> ch \<and> ch \<le> 0x46"

definition guid_char :: "nat \<Rightarrow> u8 \<Rightarrow> bool" where
  "guid_char j ch = (if j = 8 \<or> j = 13 \<or> j = 18 \<or> j = 23 then ch = 0x2D else is_hex ch)"

definition guid_at :: "bytes \<Rightarrow> bool" where
  "guid_at s \<longleftrightarrow> 36 \<le> length s \<and> list_all (\<lambda>j. guid_char j (s ! j)) [0..<36]"

fun first_guid :: "bytes \<Rightarrow> bytes" where
  "first_guid s =
    (if guid_at s then take 36 s
     else case s of [] \<Rightarrow> [] | ch # rest \<Rightarrow> first_guid rest)"

declare first_guid.simps [simp del]

definition newline :: u8 where "newline = 0x0A"

text \<open>The loop over the lines of the output; the rest behind the last newline is a line too.\<close>

fun lines_of :: "bytes \<Rightarrow> bytes list" where
  "lines_of out =
    (let line = takeWhile (\<lambda>ch. ch \<noteq> newline) out; rest = drop (length line) out
     in if rest = [] then [line] else line # lines_of (tl rest))"

declare lines_of.simps [simp del]

fun pick_guid :: "bytes list \<Rightarrow> bytes \<Rightarrow> bytes" where
  "pick_guid [] fallback = fallback"
| "pick_guid (line # rest) fallback =
    (let g = first_guid line in
     if g = [] then pick_guid rest fallback
     else if find_sub (lit ''WSL'') line \<noteq> None then g
     else pick_guid rest (if fallback = [] then g else fallback))"

text \<open>\<open>None\<close> where the pipe could not be opened.\<close>

definition discover_wsl_vm_guid :: "bytes option \<Rightarrow> bytes" where
  "discover_wsl_vm_guid output = (case output of None \<Rightarrow> [] | Some out \<Rightarrow> pick_guid (lines_of out) [])"

section \<open>Starting the agent in a distribution\<close>

record WslAgentSpec =
  ws_distro :: bytes
  ws_agent_path :: bytes
  ws_wsl_root :: bytes
  ws_port :: u32
  ws_listen :: bytes
  ws_token :: bytes

definition quote :: u8 where "quote = 0x27"

definition bs_char :: u8 where "bs_char = 0x5C"

definition sh_quote :: "bytes \<Rightarrow> bytes" where
  "sh_quote s =
    quote # concat (map (\<lambda>ch. if ch = quote then [quote, bs_char, quote, quote] else [ch]) s) @ [quote]"

definition build_wsl_command :: "WslAgentSpec \<Rightarrow> bytes" where
  "build_wsl_command spec =
    (let agent1 = (if ws_agent_path spec = [] then lit ''wsldrived'' else ws_agent_path spec);
         listen = (if ws_listen spec = [] then lit ''tcp://127.0.0.1:'' @ to_string (unat (ws_port spec)) else ws_listen spec)
     in lit ''wsl.exe'' @ (if ws_distro spec = [] then [] else lit '' -d '' @ ws_distro spec) @ lit '' -- '' @
        sh_quote agent1 @ lit '' --root '' @ sh_quote (ws_wsl_root spec) @ lit '' --listen '' @ listen @ lit '' --exit-when-idle'')"

text \<open>\<open>std::tolower\<close> of the C locale, and the search for a distribution in the list that \<open>wsl -l -q\<close> prints.\<close>

definition lower :: "bytes \<Rightarrow> bytes" where
  "lower s = map (\<lambda>ch. if 0x41 \<le> ch \<and> ch \<le> 0x5A then ch + 0x20 else ch) s"

definition trim_distro_line :: "bytes \<Rightarrow> bytes" where
  "trim_distro_line line =
    dropWhile (\<lambda>ch. ch = 0x20) (rev (dropWhile (\<lambda>ch. ch = 0x0D \<or> ch = 0x20 \<or> ch = 0) (rev line)))"

definition distro_definitely_absent :: "bytes \<Rightarrow> (int \<times> bytes) option \<Rightarrow> bool" where
  "distro_definitely_absent distro listing =
    (if distro = [] then False
     else case listing of
       None \<Rightarrow> False
     | Some (rc, out) \<Rightarrow>
         if rc \<noteq> 0 \<or> out = [] then False
         else
           let out1 = (if length out \<ge> 3 \<and> hd out = 0xEF then drop 3 out else out)
           in list_all (\<lambda>line. lower (trim_distro_line line) \<noteq> lower distro) (lines_of out1))"

text \<open>The answers of \<open>wsl.exe -e true\<close> and whether the clock has passed the deadline then; \<open>None\<close> while the script lasts.\<close>

fun wait_loop :: "(int \<times> bool) list \<Rightarrow> bool option" where
  "wait_loop [] = None"
| "wait_loop ((code1, late) # rest) = (if code1 = 0 then Some True else if late then Some False else wait_loop rest)"

definition wait_wsl_ready :: "bytes \<Rightarrow> (int \<times> bytes) option \<Rightarrow> (int \<times> bool) list \<Rightarrow> bool option" where
  "wait_wsl_ready distro listing answers =
    (if distro_definitely_absent distro listing then Some False else wait_loop answers)"

text \<open>The variable \<open>WSLENV\<close> with the token's name added, in the form of either launcher.\<close>

definition wslenv_for_distro :: "bytes option \<Rightarrow> bytes" where
  "wslenv_for_distro existing =
    (case existing of
       None \<Rightarrow> lit ''WSLDRIVE_TOKEN/u''
     | Some v \<Rightarrow>
         if v = [] then lit ''WSLDRIVE_TOKEN/u''
         else if find_sub (lit ''WSLDRIVE_TOKEN'') v = None then v @ lit '':WSLDRIVE_TOKEN/u'' else v)"

section \<open>Starting the agent on Windows\<close>

record WinAgentSpec =
  wn_exe :: bytes
  wn_win_root :: bytes
  wn_connect :: bytes
  wn_token :: bytes

definition wslenv_for_windows :: "bytes option \<Rightarrow> bytes" where
  "wslenv_for_windows existing =
    (let v = (case existing of None \<Rightarrow> [] | Some v \<Rightarrow> v)
     in if find_sub (lit ''WSLDRIVE_TOKEN'') v = None
        then v @ (if v = [] then [] else lit '':'') @ lit ''WSLDRIVE_TOKEN/w'' else v)"

text \<open>What the child of \<open>fork\<close> sets and executes: the changed variables and the argument vector.\<close>

definition win_agent_child :: "WinAgentSpec \<Rightarrow> bytes option \<Rightarrow> (bytes \<times> bytes) list \<times> bytes list" where
  "win_agent_child spec existing =
    (if wn_token spec = [] then []
     else [(lit ''WSLDRIVE_TOKEN'', wn_token spec), (lit ''WSLENV'', wslenv_for_windows existing)],
     [wn_exe spec, lit ''--root'', wn_win_root spec, lit ''--connect'', wn_connect spec, lit ''--exit-when-idle''])"

definition build_win_agent_command :: "WinAgentSpec \<Rightarrow> bytes" where
  "build_win_agent_command spec =
    wn_exe spec @ lit '' --root '' @ wn_win_root spec @ lit '' --connect '' @ wn_connect spec @ lit '' --exit-when-idle''"

text \<open>
  The parent's side of \<open>start\<close> and \<open>stop\<close>: \<open>forked\<close> is the answer of \<open>fork\<close>, and \<open>wg_reaped\<close> the processes that were terminated
  and waited for.
\<close>

record WinAgent =
  wg_pid :: int
  wg_reaped :: "int list"

definition WinAgent_init :: WinAgent where
  "WinAgent_init = \<lparr>wg_pid = - 1, wg_reaped = []\<rparr>"

definition WinAgent_start :: "int \<Rightarrow> WinAgent \<Rightarrow> unit result \<times> WinAgent" where
  "WinAgent_start forked g = (if forked < 0 then (fail IoError, g) else (ok (), g\<lparr>wg_pid := forked\<rparr>))"

definition WinAgent_stop :: "WinAgent \<Rightarrow> WinAgent" where
  "WinAgent_stop g = (if wg_pid g \<le> 0 then g else g\<lparr>wg_pid := - 1, wg_reaped := wg_reaped g @ [wg_pid g]\<rparr>)"

text \<open>A started agent is terminated exactly once, however often \<open>stop\<close> is called.\<close>

lemma WinAgent_stopped_once:
  assumes "WinAgent_start forked WinAgent_init = (ok (), g)" and "forked \<noteq> 0"
  shows "wg_reaped ((WinAgent_stop ^^ Suc n) g) = [forked]"
proof -
  have i: "WinAgent_stop (WinAgent_stop h) = WinAgent_stop h" for h by (simp add: WinAgent_stop_def)
  have "(WinAgent_stop ^^ Suc n) g = WinAgent_stop g" by (induction n) (simp_all add: i)
  then show ?thesis using assms by (auto simp: WinAgent_start_def WinAgent_stop_def WinAgent_init_def split: if_splits)
qed

end
