(* ===== verification/ClientWarm.thy ===== *)
theory ClientWarm
  imports ClientSession "HOL-Library.Multiset"
begin

text \<open>
  \<open>RemoteRoot::warm_cache\<close> and \<open>RemoteRoot::close\<close> of \<open>src/agent/client.cpp\<close>: the walk over the mirror that queues directories for
  prefetching within the budget of the cache, and the end of a client.  The stack of the walk is a list with
  its top in front; the loop carries fuel, the number of nodes it may take from the stack, and is shown to end on every
  mirror.
\<close>

section \<open>Definitions\<close>

definition dir_bytes :: "MetadataTree \<Rightarrow> NodeId \<Rightarrow> u64" where
  "dir_bytes t i = fold (\<lambda>k b. if small_file (node t k) then b + size_of (attr (node t k)) else b) (children t i) 0"

definition push_dirs :: "MetadataTree \<Rightarrow> NodeId \<Rightarrow> NodeId list \<Rightarrow> NodeId list" where
  "push_dirs t i stack = fold (\<lambda>k st. if is_dir (node t k) then k # st else st) (children t i) stack"

primrec warm_loop :: "nat \<Rightarrow> MetadataTree \<Rightarrow> u64 \<Rightarrow> NodeId list \<Rightarrow> u64 \<Rightarrow> NodeId list \<Rightarrow> NodeId list option" where
  "warm_loop 0 t cap stack budget dirs = (if stack = [] then Some dirs else None)"
| "warm_loop (Suc n) t cap stack budget dirs =
    (case stack of
       [] \<Rightarrow> Some dirs
     | i # rest \<Rightarrow>
         if \<not> is_dir (node t i) then warm_loop n t cap rest budget dirs
         else
           let b = dir_bytes t i; stack1 = push_dirs t i rest
           in if b = 0 \<or> budget + b > cap then warm_loop n t cap stack1 budget dirs
              else warm_loop n t cap stack1 (budget + b) (dirs @ [i]))"

definition warm_cache :: "nat \<Rightarrow> RemoteRoot \<Rightarrow> (nat \<times> RemoteRoot) option" where
  "warm_cache n c =
    (case warm_loop n (cl_tree c) (rcache_cap (cl_cache c)) [root] 0 [] of
       None \<Rightarrow> None
     | Some ids \<Rightarrow>
         let dirs = map (\<lambda>i. path_of (cl_tree c) i slash) ids
         in Some (length dirs, fold enqueue_prefetch dirs c))"

text \<open>\<open>close\<close>: the flags, and the callers that still wait; the socket is shut down and the threads are joined by the system.\<close>

definition RemoteRoot_close :: "RemoteRoot \<Rightarrow> RemoteRoot" where
  "RemoteRoot_close c = fail_all_pending (c\<lparr>cl_closed := True, cl_pf_stop := True\<rparr>)"

section \<open>The bytes of a directory\<close>

definition small_sum :: "MetadataTree \<Rightarrow> NodeId list \<Rightarrow> nat" where
  "small_sum t ks = (\<Sum>k \<leftarrow> ks. if small_file (node t k) then unat (size_of (attr (node t k))) else 0)"

lemma small_sum_bound: "small_sum t ks \<le> length ks * 2 ^ 23"
proof (induction ks)
  case (Cons k ks)
  have "unat (size_of (attr (node t k))) \<le> 2 ^ 23" if "small_file (node t k)"
    using that by (simp add: small_file_def kMaxCacheableFile_def word_le_nat_alt)
  then show ?case using Cons by (auto simp: small_sum_def)
qed (simp add: small_sum_def)

lemma fold_small_sum:
  "unat b + small_sum t ks < 2 ^ 64 \<Longrightarrow>
    unat (fold (\<lambda>k b. if small_file (node t k) then b + size_of (attr (node t k)) else b) ks b) = unat b + small_sum t ks"
proof (induction ks arbitrary: b)
  case (Cons k ks)
  show ?case
  proof (cases "small_file (node t k)")
    case True
    then have "unat b + unat (size_of (attr (node t k))) + small_sum t ks < 2 ^ 64" using Cons.prems by (simp add: small_sum_def)
    moreover from this have "unat (b + size_of (attr (node t k))) = unat b + unat (size_of (attr (node t k)))"
      by (simp add: unat_word_ariths)
    ultimately show ?thesis using Cons.IH True by (simp add: small_sum_def)
  next
    case False
    then show ?thesis using Cons by (simp add: small_sum_def)
  qed
qed (simp add: small_sum_def)

lemma distinct_ids_short:
  assumes "distinct (ks :: NodeId list)"
  shows "length ks \<le> 2 ^ 32"
proof -
  have "length ks = card (set ks)" using assms by (simp add: distinct_card)
  also have "\<dots> \<le> card (UNIV :: NodeId set)" by (rule card_mono) simp_all
  finally show ?thesis by (simp add: card_word)
qed

lemma dir_bytes_exact:
  assumes "distinct (children t i)"
  shows "unat (dir_bytes t i) = small_sum t (children t i)" "small_sum t (children t i) \<le> 2 ^ 55"
proof -
  have "small_sum t (children t i) \<le> length (children t i) * 2 ^ 23" by (rule small_sum_bound)
  also have "\<dots> \<le> 2 ^ 32 * 2 ^ 23" using distinct_ids_short [OF assms] by simp
  finally show b: "small_sum t (children t i) \<le> 2 ^ 55" by simp
  show "unat (dir_bytes t i) = small_sum t (children t i)"
    using fold_small_sum [of 0 t "children t i"] b by (simp add: dir_bytes_def)
qed

section \<open>The walk\<close>

lemma children_of:
  assumes "tree_inv t" and "valid t p"
  shows "distinct (children t p)" "set (children t p) = {i. valid t i \<and> i \<noteq> root \<and> parent (node t i) = p}"
proof -
  obtain ch ss where "tree_core t ch {} {} ss" using assms(1) by (auto simp: tree_inv_def)
  note c = inv_children [OF this assms(2)]
  show "distinct (children t p)" "set (children t p) = {i. valid t i \<and> i \<noteq> root \<and> parent (node t i) = p}"
    using c by (simp_all add: children_def)
qed

lemma mset_push_dirs: "mset (push_dirs t i stack) = mset stack + filter_mset (\<lambda>k. is_dir (node t k)) (mset (children t i))"
proof -
  have "mset (fold (\<lambda>k st. if is_dir (node t k) then k # st else st) ks stack) =
      mset stack + filter_mset (\<lambda>k. is_dir (node t k)) (mset ks)" for ks
    by (induction ks arbitrary: stack) auto
  then show ?thesis by (simp add: push_dirs_def)
qed

lemma valid_push_dirs:
  assumes "tree_inv t" and "valid t i" and "list_all (valid t) rest"
  shows "list_all (valid t) (push_dirs t i rest)"
proof -
  have "set (push_dirs t i rest) \<subseteq> set rest \<union> set (children t i)"
    using arg_cong [OF mset_push_dirs [of t i rest], of set_mset] by auto
  moreover have "valid t k" if "k \<in> set (children t i)" for k using that unfolding children_of(2) [OF assms(1,2)] by simp
  ultimately show ?thesis using assms(3) unfolding list_all_iff by blast
qed

lemma wf_par_rel: "tree_inv t \<Longrightarrow> wf (par_rel t)"
proof -
  assume "tree_inv t"
  then obtain ch ss where "tree_core t ch {} {} ss" by (auto simp: tree_inv_def)
  then have "acyclic (par_rel t)" using par_rel_acyclic core_shape by blast
  moreover have "finite (par_rel t)" by (rule finite)
  ultimately show ?thesis by (rule finite_acyclic_wf [rotated])
qed

text \<open>Every step replaces the top of the stack by nodes below it, so that the walk ends.\<close>

lemma stack_shrinks:
  assumes "tree_inv t" and "valid t i"
  shows "(mset (push_dirs t i rest), mset (i # rest)) \<in> mult (par_rel t)" "(mset rest, mset (i # rest)) \<in> mult (par_rel t)"
proof -
  have "set_mset (filter_mset (\<lambda>k. is_dir (node t k)) (mset (children t i))) \<subseteq> {k. (k, i) \<in> par_rel t}"
    using children_of(2) [OF assms] by (auto simp: par_rel_def)
  then have "(mset rest + filter_mset (\<lambda>k. is_dir (node t k)) (mset (children t i)), mset rest + {#i#}) \<in> mult (par_rel t)"
    by (intro one_step_implies_mult) auto
  then show "(mset (push_dirs t i rest), mset (i # rest)) \<in> mult (par_rel t)" by (simp add: mset_push_dirs)
  show "(mset rest, mset (i # rest)) \<in> mult (par_rel t)" using one_step_implies_mult [of "{#i#}" "{#}" "par_rel t" "mset rest"] by simp
qed

lemma warm_loop_ends:
  assumes "tree_inv t"
  shows "list_all (valid t) stack \<Longrightarrow> \<exists>n dirs1. warm_loop n t cap stack budget dirs = Some dirs1"
proof (induction "mset stack" arbitrary: stack budget dirs rule: wf_induct_rule [OF wf_mult [OF wf_par_rel [OF assms]]])
  case (1 stack)
  show ?case
  proof (cases stack)
    case Nil
    then show ?thesis by (intro exI [of _ 0]) simp
  next
    case (Cons i rest)
    let ?st = "if is_dir (node t i) then push_dirs t i rest else rest"
    have v: "valid t i" "list_all (valid t) rest" using "1.prems" by (simp_all add: Cons)
    have "(mset ?st, mset stack) \<in> mult (par_rel t)" using stack_shrinks [OF assms v(1)] by (simp add: Cons)
    moreover have "list_all (valid t) ?st" using valid_push_dirs [OF assms v] v(2) by simp
    ultimately have ih: "\<exists>n dirs1. warm_loop n t cap ?st b d = Some dirs1" for b d
      using "1.hyps" by blast
    define go where "go \<longleftrightarrow> is_dir (node t i) \<and> dir_bytes t i \<noteq> 0 \<and> \<not> budget + dir_bytes t i > cap"
    have step: "warm_loop (Suc n) t cap stack budget dirs =
        warm_loop n t cap ?st (if go then budget + dir_bytes t i else budget) (if go then dirs @ [i] else dirs)" for n
      unfolding go_def by (cases "is_dir (node t i)"; cases "dir_bytes t i = 0"; cases "budget + dir_bytes t i > cap")
        (simp_all add: Cons Let_def)
    then show ?thesis using ih [of "if go then budget + dir_bytes t i else budget" "if go then dirs @ [i] else dirs"] by metis
  qed
qed

text \<open>What the walk has chosen fits the budget.\<close>

definition chosen_ok :: "MetadataTree \<Rightarrow> u64 \<Rightarrow> u64 \<Rightarrow> NodeId list \<Rightarrow> bool" where
  "chosen_ok t cap budget dirs \<longleftrightarrow>
    list_all (\<lambda>i. valid t i \<and> is_dir (node t i) \<and> small_sum t (children t i) \<noteq> 0) dirs \<and>
    (\<Sum>i \<leftarrow> dirs. small_sum t (children t i)) = unat budget \<and> budget \<le> cap"

lemma warm_loop_fits:
  assumes "tree_inv t" and "unat cap < 2 ^ 63"
  shows "warm_loop n t cap stack budget dirs = Some dirs1 \<Longrightarrow> list_all (valid t) stack \<Longrightarrow> chosen_ok t cap budget dirs \<Longrightarrow>
    \<exists>b. chosen_ok t cap b dirs1"
proof (induction n arbitrary: stack budget dirs)
  case 0
  then show ?case by (auto split: if_splits)
next
  case (Suc n)
  show ?case
  proof (cases stack)
    case Nil
    then show ?thesis using Suc.prems by auto
  next
    case (Cons i rest)
    have v: "valid t i" "list_all (valid t) rest" using Suc.prems(2) by (simp_all add: Cons)
    note ch = children_of [OF assms(1) v(1)]
    note st = valid_push_dirs [OF assms(1) v]
    show ?thesis
    proof (cases "is_dir (node t i) \<and> dir_bytes t i \<noteq> 0 \<and> \<not> budget + dir_bytes t i > cap")
      case True
      have "unat (budget + dir_bytes t i) = unat budget + unat (dir_bytes t i)"
        using Suc.prems(3) assms(2) dir_bytes_exact [OF ch(1)] by (simp add: chosen_ok_def unat_word_ariths word_le_nat_alt)
      moreover have "small_sum t (children t i) \<noteq> 0" using True dir_bytes_exact(1) [OF ch(1)] by (metis unat_eq_zero)
      ultimately have "chosen_ok t cap (budget + dir_bytes t i) (dirs @ [i])"
        using Suc.prems(3) True v(1) dir_bytes_exact(1) [OF ch(1)] by (simp add: chosen_ok_def not_less)
      then show ?thesis using Suc.IH [OF _ st] Suc.prems(1) True by (simp add: Cons Let_def)
    next
      case False
      then show ?thesis
        using Suc.IH [of rest budget dirs] Suc.IH [of "push_dirs t i rest" budget dirs] Suc.prems st v(2)
        by (cases "is_dir (node t i)") (auto simp: Cons Let_def)
    qed
  qed
qed

text \<open>
  C29. Warming the cache ends and never overfills it.  On every consistent mirror the walk ends, the directories it queues are
  directories with files worth caching, and all their cacheable files together fit the budget of the cache.
\<close>

theorem warm_cache_fits:
  assumes "tree_inv (cl_tree c)" and "unat (rcache_cap (cl_cache c)) < 2 ^ 63"
  shows "\<exists>n ids. warm_cache n c = Some (length ids, fold enqueue_prefetch (map (\<lambda>i. path_of (cl_tree c) i slash) ids) c) \<and>
    (\<Sum>i \<leftarrow> ids. small_sum (cl_tree c) (children (cl_tree c) i)) \<le> unat (rcache_cap (cl_cache c)) \<and>
    list_all (\<lambda>i. is_dir (node (cl_tree c) i) \<and> small_sum (cl_tree c) (children (cl_tree c) i) \<noteq> 0) ids"
proof -
  let ?t = "cl_tree c" and ?cap = "rcache_cap (cl_cache c)"
  have "valid ?t root" using assms(1) core_slots by (auto simp: tree_inv_def slots_ok_def)
  then have s: "list_all (valid ?t) [root]" by simp
  obtain n ids where l: "warm_loop n ?t ?cap [root] 0 [] = Some ids" using warm_loop_ends [OF assms(1) s] by blast
  have "chosen_ok ?t ?cap 0 []" by (simp add: chosen_ok_def)
  then obtain b where "chosen_ok ?t ?cap b ids" using warm_loop_fits [OF assms(1,2) l s] by blast
  then show ?thesis using l by (intro exI [of _ n] exI [of _ ids]) (auto simp: warm_cache_def chosen_ok_def list_all_iff word_le_nat_alt)
qed

definition demo_warm :: RemoteRoot where
  "demo_warm = RemoteRoot_init [] Exact (FrameChannel_init \<lparr>inbox = [], outbox = [], sends = [], recvs = [], selects = [], clock = []\<rparr>)"

theorem warm_cache_fits_witness: "\<exists>n ids. warm_cache n demo_warm = Some (length ids, fold enqueue_prefetch (map (\<lambda>i. path_of (cl_tree demo_warm) i slash) ids) demo_warm)"
proof -
  have "tree_inv (cl_tree demo_warm)" using tree_invI [OF MetadataTree_init_core] by (simp add: demo_warm_def RemoteRoot_init_def)
  moreover have "unat (rcache_cap (cl_cache demo_warm)) < 2 ^ 63" by (simp add: demo_warm_def RemoteRoot_init_def ReadCache_init_def)
  ultimately show ?thesis using warm_cache_fits [of demo_warm] by blast
qed

section \<open>Closing\<close>

text \<open>After \<open>close\<close> nobody waits any more, and every later request fails at once without touching the connection.\<close>

lemma closed_client:
  "cl_pending (RemoteRoot_close c) = []"
  "request n t payload streaming (RemoteRoot_close c) = (fail ConnectionClosed, RemoteRoot_close c)"
  using fail_all_pending_fields(4,5) [of "c\<lparr>cl_closed := True, cl_pf_stop := True\<rparr>"]
  by (simp_all add: RemoteRoot_close_def request_def)

end
