(* ===== verification/Tools.thy ===== *)
theory Tools
  imports Server Watcher Launch ClientWarm FuseMount
begin

text \<open>
  The two programs: \<open>src/tools/wsldrived_main.cpp\<close> (the agent) and the \<open>mount\<close> and \<open>fetch\<close> commands of
  \<open>src/tools/wsldrive_main.cpp\<close> in their Linux branch, with the construction and start of the server from
  \<open>src/agent/server.cpp\<close>.

  A program is modelled up to the point where it goes to work: its options, what it refuses and with which exit code,
  and the plan it carries out then.  What the operating system answers on the way is an argument.  Output on the
  terminal is left out.  An exception that nobody catches ends the program; it is an outcome of its own.
\<close>

section \<open>The agent\<close>

record AgentArgs =
  aa_root :: bytes
  aa_listen :: bytes
  aa_connect :: bytes
  aa_watch :: bool
  aa_exit_when_idle :: bool
  aa_one_file_system :: bool
  aa_insecure_no_auth :: bool

definition AgentArgs_init :: AgentArgs where
  "AgentArgs_init =
    \<lparr>aa_root = [], aa_listen = [], aa_connect = [], aa_watch = True, aa_exit_when_idle = False, aa_one_file_system = True,
     aa_insecure_no_auth = False\<rparr>"

text \<open>The loop over the arguments: the exit code, or the options.\<close>

fun agent_options :: "bytes list \<Rightarrow> AgentArgs \<Rightarrow> int + AgentArgs" where
  "agent_options [] a = Inr a"
| "agent_options (x # xs) a =
    (if x = lit ''--root'' then (case xs of [] \<Rightarrow> Inl 2 | v # ys \<Rightarrow> agent_options ys (a\<lparr>aa_root := v\<rparr>))
     else if x = lit ''--listen'' then (case xs of [] \<Rightarrow> Inl 2 | v # ys \<Rightarrow> agent_options ys (a\<lparr>aa_listen := v\<rparr>))
     else if x = lit ''--connect'' then (case xs of [] \<Rightarrow> Inl 2 | v # ys \<Rightarrow> agent_options ys (a\<lparr>aa_connect := v\<rparr>))
     else if x = lit ''--no-watch'' then agent_options xs (a\<lparr>aa_watch := False\<rparr>)
     else if x = lit ''--exit-when-idle'' then agent_options xs (a\<lparr>aa_exit_when_idle := True\<rparr>)
     else if x = lit ''--cross-filesystems'' then agent_options xs (a\<lparr>aa_one_file_system := False\<rparr>)
     else if x = lit ''--insecure-no-auth'' then agent_options xs (a\<lparr>aa_insecure_no_auth := True\<rparr>)
     else Inl 2)"

declare agent_options.simps(2) [simp del]

text \<open>\<open>RootServer::Options\<close> with the defaults of \<open>server.hpp\<close>; times in milliseconds, those of the coalescer in nanoseconds.\<close>

definition default_server_options :: ServerOptions where
  "default_server_options =
    \<lparr>so_root = [], so_watch = True, so_coalescer = \<lparr>max_pending = 4096, quiet_period = 2000000, max_latency = 25000000\<rparr>,
     so_snapshot_chunk_bytes = 4 * 2 ^ 20, so_one_file_system = True, so_token = [], so_handshake_timeout = 10000,
     so_broadcast_timeout = 5000, so_max_expanded_entries = 100000\<rparr>"

definition agent_server_options :: "AgentArgs \<Rightarrow> bytes \<Rightarrow> ServerOptions" where
  "agent_server_options a token =
    default_server_options\<lparr>so_root := aa_root a, so_watch := aa_watch a, so_one_file_system := aa_one_file_system a, so_token := token\<rparr>"

datatype AgentOutcome =
    AgentExit int
  | AgentDial Endpoint ServerOptions
  | AgentOnce Endpoint ServerOptions
  | AgentAccept Endpoint ServerOptions

text \<open>
  \<open>main\<close>: \<open>argv\<close> without the name of the program, the environment, and the answer of \<open>server.start\<close>.
\<close>

definition agent_main :: "bytes list \<Rightarrow> (bytes \<Rightarrow> bytes option) \<Rightarrow> (ServerOptions \<Rightarrow> unit result) \<Rightarrow> AgentOutcome" where
  "agent_main args getenv start =
    (if args \<noteq> [] \<and> (hd args = lit ''--version'' \<or> hd args = lit ''-V'') then AgentExit 0
     else case agent_options args AgentArgs_init of
       Inl rc \<Rightarrow> AgentExit rc
     | Inr a \<Rightarrow>
         if aa_root a = [] \<or> (aa_listen a = []) = (aa_connect a = []) then AgentExit 2
         else
           let token = auth_token_from_env getenv in
           if token = [] \<and> \<not> aa_insecure_no_auth a then AgentExit 2
           else
             let opts1 = agent_server_options a token in
             case start opts1 of
               Inl e \<Rightarrow> AgentExit 1
             | Inr _ \<Rightarrow>
                 if aa_connect a \<noteq> [] then
                   (case Endpoint_parse (aa_connect a) of Inl e \<Rightarrow> AgentExit 2 | Inr ep \<Rightarrow> AgentDial ep opts1)
                 else
                   (case Endpoint_parse (aa_listen a) of
                      Inl e \<Rightarrow> AgentExit 2
                    | Inr ep \<Rightarrow> if aa_exit_when_idle a then AgentOnce ep opts1 else AgentAccept ep opts1))"

section \<open>Sessions of a listening agent\<close>

text \<open>A session is its thread, by number, and the flag it sets when it is over.\<close>

record AgentSession =
  se_thread :: nat
  se_done :: bool

definition kMaxSessions :: nat where "kMaxSessions = 32"

definition reap :: "AgentSession list \<Rightarrow> AgentSession list" where
  "reap ss = filter (\<lambda>s. \<not> se_done s) ss"

datatype Accepted = AcSocket | AcTimeout | AcFailed

text \<open>One round of the accept loop: does it go on, is the connection served, and the sessions then.\<close>

definition accept_turn :: "Accepted \<Rightarrow> nat \<Rightarrow> AgentSession list \<Rightarrow> bool \<times> bool \<times> AgentSession list" where
  "accept_turn ac fresh ss =
    (case ac of
       AcTimeout \<Rightarrow> (True, False, reap ss)
     | AcFailed \<Rightarrow> (False, False, ss)
     | AcSocket \<Rightarrow>
         let ss1 = reap ss
         in if length ss1 \<ge> kMaxSessions then (True, False, ss1)
            else (True, True, ss1 @ [\<lparr>se_thread = fresh, se_done = False\<rparr>]))"

section \<open>Construction and start of the server\<close>

text \<open>The loop that reads the ignore file; the fuel is the number of reads.\<close>

primrec read_whole :: "nat \<Rightarrow> 'w Host \<Rightarrow> nat \<Rightarrow> bytes \<Rightarrow> 'w \<Rightarrow> (bytes \<times> 'w) option" where
  "read_whole 0 host fp acc w = None"
| "read_whole (Suc n) host fp acc w =
    (let (got, w1) = os_fread host fp 4096 w
     in if got = [] then Some (acc, w1) else read_whole n host fp (acc @ got) w1)"

definition load_ignore :: "nat \<Rightarrow> 'w Host \<Rightarrow> (bytes \<Rightarrow> 'w \<Rightarrow> bool) \<Rightarrow> bytes \<Rightarrow> 'w \<Rightarrow> (Pattern list \<times> 'w) option" where
  "load_ignore n host is_regular dir w =
    (let p = path_append dir (lit ''.wsldriveignore'') in
     if \<not> is_regular p w then Some ([], w)
     else case os_fopen host p (lit ''rb'') w of
       (Inl e, w1) \<Rightarrow> Some ([], w1)
     | (Inr fp, w1) \<Rightarrow>
         (case read_whole n host fp [] w1 of
            None \<Rightarrow> None
          | Some (content, w2) \<Rightarrow> Some (parse content, os_fclose host fp w2)))"

text \<open>\<open>start\<close>: the watcher is optional where the platform has none.\<close>

definition server_start :: "ServerOptions \<Rightarrow> 'v result \<Rightarrow> 'v option result" where
  "server_start o1 made =
    (if \<not> so_watch o1 then ok None
     else case made of
       Inl e \<Rightarrow> if e \<noteq> Unsupported then fail e else ok None
     | Inr w \<Rightarrow> ok (Some w))"

section \<open>The client\<close>

text \<open>
  \<open>std::stoul\<close> and \<open>std::stol\<close> in base ten: white space, a sign, digits; \<open>None\<close> for an exception.
\<close>

definition split_sign :: "bytes \<Rightarrow> bool \<times> bytes" where
  "split_sign s =
    (let r = dropWhile is_space s
     in if r \<noteq> [] \<and> hd r = 0x2D then (True, tl r) else if r \<noteq> [] \<and> hd r = 0x2B then (False, tl r) else (False, r))"

definition digits_value :: "bytes \<Rightarrow> nat" where
  "digits_value ds = foldl (\<lambda>v d. 10 * v + (unat d - 48)) 0 ds"

definition stoul :: "bytes \<Rightarrow> u64 option" where
  "stoul s =
    (let (neg, r) = split_sign s; ds = takeWhile is_digit r; v = digits_value ds
     in if ds = [] \<or> v \<ge> 2 ^ 64 then None else Some (if neg then - of_nat v else of_nat v))"

definition stol :: "bytes \<Rightarrow> int option" where
  "stol s =
    (let (neg, r) = split_sign s; ds = takeWhile is_digit r; v = int (digits_value ds); x = (if neg then - v else v)
     in if ds = [] \<or> x < - (2 ^ 63) \<or> x \<ge> 2 ^ 63 then None else Some x)"

datatype Stop = ExitCode int | Uncaught

record MountArgs =
  ma_connect :: bytes
  ma_listen :: bytes
  ma_distro :: bytes
  ma_wsl_root :: bytes
  ma_agent_path :: bytes
  ma_win_root :: bytes
  ma_win_agent :: bytes
  ma_port :: u32
  ma_have_distro :: bool
  ma_writeback :: bool
  ma_hvsocket :: bool
  ma_prefetch :: bool
  ma_notify_changes :: bool
  ma_vm_guid :: bytes

definition MountArgs_init :: MountArgs where
  "MountArgs_init =
    \<lparr>ma_connect = [], ma_listen = [], ma_distro = [], ma_wsl_root = [], ma_agent_path = [], ma_win_root = [], ma_win_agent = [],
     ma_port = 51789, ma_have_distro = False, ma_writeback = False, ma_hvsocket = False, ma_prefetch = True,
     ma_notify_changes = True, ma_vm_guid = []\<rparr>"

text \<open>\<open>val\<close>: the next argument, the empty string behind the last one.\<close>

definition next_value :: "bytes list \<Rightarrow> bytes" where
  "next_value xs = (case xs of [] \<Rightarrow> [] | v # ys \<Rightarrow> v)"

text \<open>One option with the arguments behind it: its effect, and whether it took a value.\<close>

definition mount_option :: "bytes \<Rightarrow> bytes list \<Rightarrow> MountArgs \<Rightarrow> Stop + (bool \<times> MountArgs)" where
  "mount_option x xs a =
    (let v = next_value xs in
     if x = lit ''--connect'' then Inr (True, a\<lparr>ma_connect := v\<rparr>)
     else if x = lit ''--listen'' then Inr (True, a\<lparr>ma_listen := v\<rparr>)
     else if x = lit ''--hvsocket'' then Inr (False, a\<lparr>ma_hvsocket := True\<rparr>)
     else if x = lit ''--vm-guid'' then Inr (True, a\<lparr>ma_vm_guid := v\<rparr>)
     else if x = lit ''--win-root'' then Inr (True, a\<lparr>ma_win_root := v\<rparr>)
     else if x = lit ''--win-agent'' then Inr (True, a\<lparr>ma_win_agent := v\<rparr>)
     else if x = lit ''--writeback'' then Inr (False, a\<lparr>ma_writeback := True\<rparr>)
     else if x = lit ''--no-prefetch'' then Inr (False, a\<lparr>ma_prefetch := False\<rparr>)
     else if x = lit ''--no-inotify'' then Inr (False, a\<lparr>ma_notify_changes := False\<rparr>)
     else if x = lit ''--distro'' then Inr (True, a\<lparr>ma_distro := v, ma_have_distro := True\<rparr>)
     else if x = lit ''--wsl-root'' then Inr (True, a\<lparr>ma_wsl_root := v\<rparr>)
     else if x = lit ''--agent'' then Inr (True, a\<lparr>ma_agent_path := v\<rparr>)
     else if x = lit ''--port'' then (case stoul v of None \<Rightarrow> Inl Uncaught | Some p \<Rightarrow> Inr (True, a\<lparr>ma_port := ucast p\<rparr>))
     else Inl (ExitCode 2))"

fun mount_options :: "bytes list \<Rightarrow> MountArgs \<Rightarrow> Stop + MountArgs" where
  "mount_options [] a = Inr a"
| "mount_options (x # xs) a =
    (case mount_option x xs a of
       Inl s \<Rightarrow> Inl s
     | Inr (took, b) \<Rightarrow> mount_options (if took then tl xs else xs) b)"

text \<open>What the mount command does next: listen for the agent, which may have to be launched, or connect, so many times at most.\<close>

datatype MountPlan =
    MountStop Stop
  | MountListen Endpoint bytes "WinAgentSpec option"
  | MountConnect Endpoint nat bytes

text \<open>\<open>hcsdiag\<close> is the output of that command, \<open>getrandom\<close> the random source.\<close>

definition direction_b :: "(nat \<Rightarrow> nat \<Rightarrow> bytes) \<Rightarrow> bytes option \<Rightarrow> MountArgs \<Rightarrow> Stop + (bytes \<times> WinAgentSpec)" where
  "direction_b getrandom hcsdiag a =
    (if ma_win_agent a = [] then Inl (ExitCode 2)
     else
       let port = (if ma_hvsocket a \<and> ma_port a = 51789 then 5700 else ma_port a);
           token = generate_auth_token getrandom;
           ps = to_string (unat port) in
       if token = [] then Inl (ExitCode 1)
       else if ma_hvsocket a then
         let guid = (if ma_vm_guid a = [] then discover_wsl_vm_guid hcsdiag else ma_vm_guid a)
         in if guid = [] then Inl (ExitCode 2)
            else Inr (lit ''vsock://any:'' @ ps,
              \<lparr>wn_exe = ma_win_agent a, wn_win_root = ma_win_root a, wn_connect = lit ''hv://{'' @ guid @ lit ''}:'' @ ps, wn_token = token\<rparr>)
       else Inr (lit ''tcp://127.0.0.1:'' @ ps,
              \<lparr>wn_exe = ma_win_agent a, wn_win_root = ma_win_root a, wn_connect = lit ''tcp://127.0.0.1:'' @ ps, wn_token = token\<rparr>))"

definition listen_plan :: "bytes \<Rightarrow> bytes \<Rightarrow> WinAgentSpec option \<Rightarrow> MountPlan" where
  "listen_plan listen token launch =
    (case Endpoint_parse listen of Inl e \<Rightarrow> MountStop (ExitCode 2) | Inr ep \<Rightarrow> MountListen ep token launch)"

definition mount_plan :: "(bytes \<Rightarrow> bytes option) \<Rightarrow> (nat \<Rightarrow> nat \<Rightarrow> bytes) \<Rightarrow> bytes option \<Rightarrow> MountArgs \<Rightarrow> MountPlan" where
  "mount_plan getenv getrandom hcsdiag a =
    (if ma_connect a = [] \<and> ma_listen a = [] \<and> ma_win_root a = [] then MountStop (ExitCode 2)
     else if ma_win_root a \<noteq> [] then
       (case direction_b getrandom hcsdiag a of
          Inl s \<Rightarrow> MountStop s
        | Inr (listen, spec) \<Rightarrow> listen_plan listen (wn_token spec) (Some spec))
     else if ma_listen a \<noteq> [] then listen_plan (ma_listen a) (auth_token_from_env getenv) None
     else
       (case Endpoint_parse (ma_connect a) of
          Inl e \<Rightarrow> MountStop (ExitCode 2)
        | Inr ep \<Rightarrow> MountConnect ep (if ma_have_distro a then 300 else 1) (auth_token_from_env getenv)))"

text \<open>The command: the mountpoint and the plan.\<close>

definition mount_command ::
  "bytes list \<Rightarrow> (bytes \<Rightarrow> bytes option) \<Rightarrow> (nat \<Rightarrow> nat \<Rightarrow> bytes) \<Rightarrow> bytes option \<Rightarrow> MountPlan" where
  "mount_command args getenv getrandom hcsdiag =
    (case args of
       [] \<Rightarrow> MountStop (ExitCode 2)
     | mountpoint # rest \<Rightarrow>
         (case mount_options rest MountArgs_init of
            Inl s \<Rightarrow> MountStop s
          | Inr a \<Rightarrow> mount_plan getenv getrandom hcsdiag a))"

text \<open>The connection attempts, with the answers of \<open>connect\<close>, and the wait for the agent to dial in.\<close>

fun connect_attempts :: "nat \<Rightarrow> 'x result list \<Rightarrow> 'x result" where
  "connect_attempts 0 rs = fail ConnectionClosed"
| "connect_attempts (Suc n) [] = fail ConnectionClosed"
| "connect_attempts (Suc n) (r # rs) =
    (case r of Inr s \<Rightarrow> Inr s | Inl e \<Rightarrow> if n = 0 then Inl e else connect_attempts n rs)"

fun await_agent :: "(bool \<times> 'x result) list \<Rightarrow> 'x result option" where
  "await_agent [] = None"
| "await_agent ((stop_now, r) # rest) =
    (if stop_now then Some (fail ConnectionClosed)
     else case r of
       Inr s \<Rightarrow> Some (Inr s)
     | Inl e \<Rightarrow> if e \<noteq> Timeout then Some (fail ConnectionClosed) else await_agent rest)"

text \<open>From the socket to the mirror: the handshake and the snapshot, with the exit code of a failure.\<close>

definition mount_session ::
  "'h blake3_api \<Rightarrow> bytes \<Rightarrow> (nat \<Rightarrow> nat \<Rightarrow> bytes) \<Rightarrow> nat \<Rightarrow> bytes \<Rightarrow> FrameChannel \<Rightarrow> int + RemoteRoot" where
  "mount_session api agent1 getrandom n token ch =
    (case connect api agent1 getrandom n (RemoteRoot_init token Exact ch) of
       (Inl e, c) \<Rightarrow> Inl 1
     | (Inr _, c) \<Rightarrow>
         (case fetch_snapshot n c of
            (Inl e, c1) \<Rightarrow> Inl 1
          | (Inr _, c1) \<Rightarrow> Inr c1))"

text \<open>From the mirror to the volume: the optional warm-up, with the number of queued directories, and the mount.\<close>

definition mount_volume :: "nat \<Rightarrow> MountArgs \<Rightarrow> RemoteRoot \<Rightarrow> (nat \<times> FuseMount) option" where
  "mount_volume n a c =
    (case (if ma_prefetch a then warm_cache n c else Some (0, c)) of
       None \<Rightarrow> None
     | Some (dirs, c1) \<Rightarrow> Some (dirs, mount_begin c1 (ma_writeback a) (ma_notify_changes a)))"

section \<open>The fetch command\<close>

record FetchArgs =
  fa_connect :: bytes
  fa_listen :: bytes
  fa_read_path :: bytes
  fa_watch :: bool
  fa_lookups :: int

fun fetch_options :: "bytes list \<Rightarrow> FetchArgs \<Rightarrow> Stop + FetchArgs" where
  "fetch_options [] a = Inr a"
| "fetch_options (x # xs) a =
    (if x = lit ''--connect'' then (case xs of [] \<Rightarrow> Inl (ExitCode 2) | v # ys \<Rightarrow> fetch_options ys (a\<lparr>fa_connect := v\<rparr>))
     else if x = lit ''--listen'' then (case xs of [] \<Rightarrow> Inl (ExitCode 2) | v # ys \<Rightarrow> fetch_options ys (a\<lparr>fa_listen := v\<rparr>))
     else if x = lit ''--watch'' then fetch_options xs (a\<lparr>fa_watch := True\<rparr>)
     else if x = lit ''--read'' then (case xs of [] \<Rightarrow> Inl (ExitCode 2) | v # ys \<Rightarrow> fetch_options ys (a\<lparr>fa_read_path := v\<rparr>))
     else if x = lit ''--lookups'' then
       (case xs of
          [] \<Rightarrow> Inl (ExitCode 2)
        | v # ys \<Rightarrow> (case stol v of None \<Rightarrow> Inl Uncaught | Some k \<Rightarrow> fetch_options ys (a\<lparr>fa_lookups := k\<rparr>)))
     else Inl (ExitCode 2))"

definition fetch_command :: "bytes list \<Rightarrow> Stop + (bool \<times> Endpoint \<times> FetchArgs)" where
  "fetch_command args =
    (case fetch_options args \<lparr>fa_connect = [], fa_listen = [], fa_read_path = [], fa_watch = False, fa_lookups = 0\<rparr> of
       Inl s \<Rightarrow> Inl s
     | Inr a \<Rightarrow>
         if (fa_connect a = []) = (fa_listen a = []) then Inl (ExitCode 2)
         else
           let dial = (fa_connect a \<noteq> []) in
           case Endpoint_parse (if dial then fa_connect a else fa_listen a) of
             Inl e \<Rightarrow> Inl (ExitCode 2)
           | Inr ep \<Rightarrow> Inr (dial, ep, a))"

end
