(* ===== verification/ToolsProps.thy ===== *)
theory ToolsProps
  imports Tools
begin

text \<open>
  The guarantees of the programs and launchers: the agent never serves unauthenticated by accident, the number of sessions is
  bounded, the command line of the launcher means what it should to the shell, and a mount that launches its own
  agent listens locally and with a fresh secret.
\<close>

section \<open>Local endpoints\<close>

lemma parse_tcp_big:
  fixes p :: u32
  shows "h \<noteq> [] \<Longrightarrow> \<not> p \<le> 65535 \<Longrightarrow> parse_tcp (h @ colon # to_string (unat p)) = fail InvalidArgument"
  using colon_not_digit by (simp add: parse_tcp_def not_less Let_def)

lemma parse_loopback:
  "Endpoint_parse (lit ''tcp://127.0.0.1:'' @ to_string (unat p)) =
    (if p \<le> 65535 then ok (Endpoint_init\<lparr>ep_kind := Tcp, ep_host := lit ''127.0.0.1'', ep_port := p\<rparr>) else fail InvalidArgument)"
proof -
  have h: "lit ''tcp://127.0.0.1:'' @ to_string (unat p) = lit ''tcp://'' @ (lit ''127.0.0.1'' @ colon # to_string (unat p))"
    by simp
  have "Endpoint_parse (lit ''tcp://127.0.0.1:'' @ to_string (unat p)) = parse_tcp (lit ''127.0.0.1'' @ colon # to_string (unat p))"
    unfolding h by (rule Endpoint_parse_scheme(1)) simp
  then show ?thesis using parse_tcp_printed [of "lit ''127.0.0.1''" p] parse_tcp_big [of "lit ''127.0.0.1''" p] by auto
qed

lemma parse_any_vsock:
  "Endpoint_parse (lit ''vsock://any:'' @ to_string (unat p)) = ok (Endpoint_init\<lparr>ep_kind := Vsock, ep_cid := 0xFFFFFFFF, ep_port := p\<rparr>)"
proof -
  have h: "lit ''vsock://any:'' @ to_string (unat p) = lit ''vsock://'' @ (lit ''any'' @ colon # to_string (unat p))"
    by simp
  show ?thesis unfolding h using parse_vsock_printed [of "0xFFFFFFFF" p]
    by (subst Endpoint_parse_scheme(2)) simp_all
qed

section \<open>The agent demands a token\<close>

fun serving :: "AgentOutcome \<Rightarrow> (Endpoint \<times> ServerOptions) option" where
  "serving (AgentExit rc) = None"
| "serving (AgentDial ep o1) = Some (ep, o1)"
| "serving (AgentOnce ep o1) = Some (ep, o1)"
| "serving (AgentAccept ep o1) = Some (ep, o1)"

lemma insecure_only_by_flag:
  "agent_options xs a = Inr b \<Longrightarrow> aa_insecure_no_auth b \<Longrightarrow> aa_insecure_no_auth a \<or> lit ''--insecure-no-auth'' \<in> set xs"
proof (induction xs a rule: agent_options.induct)
  case (2 x xs a)
  then show ?case by (auto simp: agent_options.simps(2) split: if_splits list.splits)
qed simp

lemma agent_main_serving:
  assumes "serving (agent_main args getenv start) = Some (ep, o1)"
  shows "\<exists>a. agent_options args AgentArgs_init = Inr a \<and> aa_root a \<noteq> [] \<and>
    o1 = agent_server_options a (auth_token_from_env getenv) \<and> (auth_token_from_env getenv \<noteq> [] \<or> aa_insecure_no_auth a)"
  using assms by (auto simp: agent_main_def Let_def split: if_splits sum.splits)

text \<open>
  C24. The agent never serves strangers by accident.  Whenever the agent goes to work, its server has the token of the
  environment, and unless the operator passed the flag that says otherwise this token is not empty, so that every session
  of this server starts out unauthenticated, outside the broadcast set and under the limits for
  peers that have not authenticated.
\<close>

theorem agent_needs_token:
  assumes "serving (agent_main args getenv start) = Some (ep, o1)" and "lit ''--insecure-no-auth'' \<notin> set args"
    and "env_opts env = o1" and "serve_start env me c peers stopping = Some (st, limit)"
  shows "so_token o1 = auth_token_from_env getenv \<and> so_token o1 \<noteq> [] \<and> \<not> authed (sv_sess st) \<and> \<not> registered (sv_sess st) \<and>
    sv_peers st = peers \<and> max_payload (cn_chan (sv_conn st)) = kPreAuthMaxPayload"
proof -
  have i: "\<not> aa_insecure_no_auth AgentArgs_init" by (simp add: AgentArgs_init_def)
  obtain a where a: "agent_options args AgentArgs_init = Inr a" "o1 = agent_server_options a (auth_token_from_env getenv)"
    "auth_token_from_env getenv \<noteq> [] \<or> aa_insecure_no_auth a"
    using agent_main_serving [OF assms(1)] by blast
  then have t: "so_token o1 = auth_token_from_env getenv" "so_token o1 \<noteq> []"
    using insecure_only_by_flag [OF a(1)] assms(2) i by (auto simp: agent_server_options_def)
  then show ?thesis using assms(3,4) by (auto simp: serve_start_def set_receive_limits_def Let_def split_beta split: if_splits)
qed

definition demo_agent_args :: "bytes list" where
  "demo_agent_args = [lit ''--root'', lit ''/srv'', lit ''--listen'', lit ''tcp://127.0.0.1:'' @ to_string 7788]"

definition demo_agent_env :: "bytes \<Rightarrow> bytes option" where
  "demo_agent_env name = (if name = lit ''WSLDRIVE_TOKEN'' then Some (lit ''secret'') else None)"

definition demo_serve_env :: "(unit, unit) ServerEnv" where
  "demo_serve_env = \<lparr>env_opts = default_server_options\<lparr>so_root := lit ''/srv'', so_token := lit ''secret''\<rparr>,
     env_host = undefined, env_api = undefined, env_agent = [], env_ignore = [], env_watching = False, env_fuel = 1\<rparr>"

lemma demo_agent_options:
  "agent_options demo_agent_args AgentArgs_init =
    Inr (AgentArgs_init\<lparr>aa_root := lit ''/srv'', aa_listen := lit ''tcp://127.0.0.1:'' @ to_string 7788\<rparr>)"
  by (simp add: demo_agent_args_def agent_options.simps(2))

theorem agent_needs_token_witness:
  "\<exists>st limit. serve_start demo_serve_env 0 \<lparr>cn_world = (), cn_chan = FrameChannel_init
       \<lparr>inbox = [], outbox = [], sends = [], recvs = [], selects = [], clock = []\<rparr>, cn_generation = 0, cn_nonces = 0\<rparr> [] False = Some (st, limit) \<and>
     \<not> authed (sv_sess st)"
proof -
  let ?c = "\<lparr>cn_world = (), cn_chan = FrameChannel_init
       \<lparr>inbox = [], outbox = [], sends = [], recvs = [], selects = [], clock = []\<rparr>, cn_generation = 0, cn_nonces = 0\<rparr>"
  have "auth_token_from_env demo_agent_env = lit ''secret''" by (simp add: auth_token_from_env_def demo_agent_env_def)
  then have m: "serving (agent_main demo_agent_args demo_agent_env (\<lambda>o1. ok ())) =
      Some (Endpoint_init\<lparr>ep_host := lit ''127.0.0.1'', ep_port := 7788\<rparr>, env_opts demo_serve_env)"
    unfolding agent_main_def demo_agent_options
    using parse_loopback [of 7788]
    by (simp add: AgentArgs_init_def agent_server_options_def demo_serve_env_def default_server_options_def
        demo_agent_args_def Endpoint_init_def)
  obtain st limit where s: "serve_start demo_serve_env 0 ?c [] False = Some (st, limit)"
    by (simp add: serve_start_def Let_def split_beta)
  then show ?thesis using agent_needs_token [OF m _ refl s] by (auto simp: demo_agent_args_def)
qed

section \<open>Sessions\<close>

text \<open>The sessions of a listening agent: rounds of the accept loop, and sessions that come to their end in between.\<close>

inductive sessions_reach :: "AgentSession list \<Rightarrow> bool" where
  none: "sessions_reach []"
| round: "sessions_reach ss \<Longrightarrow> accept_turn ac fresh ss = (b, served, ss1) \<Longrightarrow> sessions_reach ss1"
| over: "sessions_reach ss \<Longrightarrow> i < length ss \<Longrightarrow> sessions_reach (ss[i := (ss ! i)\<lparr>se_done := True\<rparr>])"

text \<open>
  The agent's sessions are bounded, and only running ones count.  However connections arrive and sessions end, no more than the cap are
  ever kept; a new connection is served exactly when fewer than the cap are still running, and every
  round of the loop clears out those that are over.
\<close>

theorem sessions_capped:
  assumes "sessions_reach ss"
  shows "length ss \<le> kMaxSessions \<and>
    fst (snd (accept_turn AcSocket fresh ss)) = (length (filter (\<lambda>s. \<not> se_done s) ss) < kMaxSessions) \<and>
    list_all (\<lambda>s. \<not> se_done s) (snd (snd (accept_turn AcSocket fresh ss))) \<and>
    list_all (\<lambda>s. \<not> se_done s) (snd (snd (accept_turn AcTimeout fresh ss)))"
proof -
  have r: "length (reap xs) \<le> length xs" for xs by (simp add: reap_def)
  have "length ss \<le> kMaxSessions" using assms
  proof (induction rule: sessions_reach.induct)
    case (round ss ac fresh b served ss1)
    then show ?case using r [of ss] by (auto simp: accept_turn_def Let_def split: Accepted.splits if_splits)
  qed (auto simp: kMaxSessions_def)
  moreover have "list_all (\<lambda>s. \<not> se_done s) (reap ss)" by (simp add: reap_def list_all_iff)
  ultimately show ?thesis by (auto simp: accept_turn_def Let_def reap_def not_le)
qed

theorem sessions_capped_witness:
  "fst (snd (accept_turn AcSocket 1 [\<lparr>se_thread = 0, se_done = False\<rparr>])) \<and> sessions_reach [\<lparr>se_thread = 0, se_done = False\<rparr>]"
proof -
  have r: "sessions_reach [\<lparr>se_thread = 0, se_done = False\<rparr>]"
    by (rule round [OF none, of AcSocket 0 True True]) (simp add: accept_turn_def reap_def kMaxSessions_def)
  then show ?thesis using sessions_capped [OF r, of 1] by (simp add: kMaxSessions_def)
qed

section \<open>The command line of the launcher\<close>

text \<open>
  How a POSIX shell splits a command into words: blanks separate, single quotes protect everything up to the next one, a backslash
  protects one character, and of the rest only characters without a meaning of their own are allowed
  (\<open>None\<close>: the shell would do something else).
\<close>

definition sh_plain :: "u8 \<Rightarrow> bool" where
  "sh_plain ch \<longleftrightarrow> is_digit ch \<or> 0x41 \<le> ch \<and> ch \<le> 0x5A \<or> 0x61 \<le> ch \<and> ch \<le> 0x7A \<or> ch \<in> set (lit ''-_./:'')"

fun sh_words :: "bool \<Rightarrow> bytes option \<Rightarrow> bytes \<Rightarrow> bytes list option" where
  "sh_words quoted word [] = (if quoted then None else Some (case word of None \<Rightarrow> [] | Some w \<Rightarrow> [w]))"
| "sh_words quoted word (ch # rest) =
    (let w = (case word of None \<Rightarrow> [] | Some w \<Rightarrow> w) in
     if quoted then (if ch = quote then sh_words False (Some w) rest else sh_words True (Some (w @ [ch])) rest)
     else if ch = 0x20 then
       (case word of None \<Rightarrow> sh_words False None rest | Some w1 \<Rightarrow> map_option ((#) w1) (sh_words False None rest))
     else if ch = quote then sh_words True (Some w) rest
     else if ch = bs_char then (case rest of [] \<Rightarrow> None | e # rest1 \<Rightarrow> sh_words False (Some (w @ [e])) rest1)
     else if sh_plain ch then sh_words False (Some (w @ [ch])) rest
     else None)"

lemma sh_words_body:
  "sh_words True (Some w) (concat (map (\<lambda>ch. if ch = quote then [quote, bs_char, quote, quote] else [ch]) s) @ quote # rest) =
    sh_words False (Some (w @ s)) rest"
  by (induction s arbitrary: w) (auto simp: Let_def bs_char_def quote_def)

lemma sh_words_quoted: "sh_words False None (sh_quote s @ rest) = sh_words False (Some s) rest"
  using sh_words_body [of "[]" s rest] by (simp add: sh_quote_def Let_def quote_def)

lemma sh_words_plain:
  "list_all sh_plain s \<Longrightarrow> s \<noteq> [] \<or> word \<noteq> None \<Longrightarrow>
    sh_words False word (s @ rest) = sh_words False (Some ((case word of None \<Rightarrow> [] | Some w \<Rightarrow> w) @ s)) rest"
proof (induction s arbitrary: word)
  case (Cons ch s)
  have "ch \<noteq> 0x20" "ch \<noteq> quote" "ch \<noteq> bs_char" using Cons.prems(1)
    by (auto simp: sh_plain_def is_digit_def quote_def bs_char_def)
  then show ?case using Cons by (simp add: Let_def)
qed auto

lemma sh_words_blank: "sh_words False (Some w) (0x20 # rest) = map_option ((#) w) (sh_words False None rest)"
  by (simp add: Let_def)

lemma sh_words_end: "sh_words False (Some w) [] = Some [w]"
  by simp

lemma digits_plain: "list_all sh_plain (to_string n)"
  using to_string_is_digit by (auto simp: list_all_iff sh_plain_def)

text \<open>A word of plain characters between two blanks.\<close>

lemma sh_words_flag:
  "list_all sh_plain s \<Longrightarrow> s \<noteq> [] \<Longrightarrow> sh_words False (Some w) (0x20 # s @ 0x20 # rest) = map_option (\<lambda>ws. w # s # ws) (sh_words False None rest)"
  "list_all sh_plain s \<Longrightarrow> s \<noteq> [] \<Longrightarrow> sh_words False (Some w) (0x20 # s) = Some [w, s]"
  using sh_words_plain [of s None "0x20 # rest"] sh_words_plain [of s None "[]"]
  by (simp_all add: sh_words_blank option.map_comp comp_def del: sh_words.simps) simp

definition launch_words :: "WslAgentSpec \<Rightarrow> bytes list" where
  "launch_words spec =
    [if ws_agent_path spec = [] then lit ''wsldrived'' else ws_agent_path spec, lit ''--root'', ws_wsl_root spec, lit ''--listen'',
     if ws_listen spec = [] then lit ''tcp://127.0.0.1:'' @ to_string (unat (ws_port spec)) else ws_listen spec, lit ''--exit-when-idle'']"

text \<open>
  C26. No path breaks out of the launcher's command.  Whatever bytes the path of the agent and the served directory consist of,
  quotes, blanks and control characters included, the shell in the distribution splits the command behind
  the double dash into exactly the words of the agent's call: the agent, its root, its endpoint and
  the flag to exit when idle.  The token is not among them.
\<close>

theorem launch_command_words:
  assumes "list_all sh_plain (ws_listen spec)"
  shows "\<exists>cmd. build_wsl_command spec =
      lit ''wsl.exe'' @ (if ws_distro spec = [] then [] else lit '' -d '' @ ws_distro spec) @ lit '' -- '' @ cmd \<and>
    sh_words False None cmd = Some (launch_words spec)"
proof -
  let ?a = "if ws_agent_path spec = [] then lit ''wsldrived'' else ws_agent_path spec"
  let ?l = "if ws_listen spec = [] then lit ''tcp://127.0.0.1:'' @ to_string (unat (ws_port spec)) else ws_listen spec"
  let ?cmd = "sh_quote ?a @ (0x20 # lit ''--root'' @ 0x20 # sh_quote (ws_wsl_root spec) @ (0x20 # lit ''--listen'' @ 0x20 #
    (?l @ (0x20 # lit ''--exit-when-idle''))))"
  have flags: "list_all sh_plain (lit ''--root'')" "list_all sh_plain (lit ''--listen'')" "list_all sh_plain (lit ''--exit-when-idle'')"
    "list_all sh_plain (lit ''tcp://127.0.0.1:'')" by (simp_all add: sh_plain_def is_digit_def)
  have ne: "lit ''--root'' \<noteq> []" "lit ''--listen'' \<noteq> []" "lit ''--exit-when-idle'' \<noteq> []" by simp_all
  have l: "list_all sh_plain ?l" "?l \<noteq> []" using assms flags(4) digits_plain by auto
  have "build_wsl_command spec = lit ''wsl.exe'' @ (if ws_distro spec = [] then [] else lit '' -d '' @ ws_distro spec) @ lit '' -- '' @ ?cmd"
    by (simp add: build_wsl_command_def Let_def)
  moreover have "sh_words False None ?cmd = Some (launch_words spec)"
    unfolding sh_words_quoted sh_words_flag(1) [OF flags(1) ne(1)] sh_words_flag(1) [OF flags(2) ne(2)]
      sh_words_plain [OF l(1) disjI1 [OF l(2)]] option.case append_Nil sh_words_flag(2) [OF flags(3) ne(3)]
    by (simp add: launch_words_def)
  ultimately show ?thesis by blast
qed

theorem launch_command_words_witness:
  "sh_words False None (drop 11 (build_wsl_command
      \<lparr>ws_distro = [], ws_agent_path = [], ws_wsl_root = lit ''a b'', ws_port = 9, ws_listen = [], ws_token = lit ''t''\<rparr>)) =
    Some [lit ''wsldrived'', lit ''--root'', lit ''a b'', lit ''--listen'', lit ''tcp://127.0.0.1:'' @ to_string 9, lit ''--exit-when-idle'']"
proof -
  let ?spec = "\<lparr>ws_distro = [], ws_agent_path = [], ws_wsl_root = lit ''a b'', ws_port = 9, ws_listen = [], ws_token = lit ''t''\<rparr>"
  obtain cmd where c: "build_wsl_command ?spec = lit ''wsl.exe'' @ lit '' -- '' @ cmd" "sh_words False None cmd = Some (launch_words ?spec)"
    using launch_command_words [of ?spec] by (simp del: sh_words.simps) blast
  have "drop 11 (build_wsl_command ?spec) = cmd" unfolding c(1) by simp
  then show ?thesis using c(2) by (simp add: launch_words_def del: sh_words.simps)
qed

section \<open>Direction B\<close>

text \<open>
  A mount that launches its own agent listens locally with a fresh secret.  When the mount command serves a Windows path, it listens on the loopback
  interface, or on a VSOCK port for the Hyper-V transport, never on an outside address; its secret is
  freshly generated, whatever the environment holds, and is the one handed to the agent; and the agent is told to dial the same port.
\<close>

theorem direction_b_stays_local:
  assumes "mount_plan getenv getrandom hcsdiag a = MountListen ep token (Some spec)"
  shows "(if ma_hvsocket a then ep_kind ep = Vsock else ep_kind ep = Tcp \<and> ep_host ep = lit ''127.0.0.1'') \<and>
    token = generate_auth_token getrandom \<and> token \<noteq> [] \<and> wn_token spec = token \<and> wn_exe spec = ma_win_agent a \<and>
    (\<exists>w. wn_connect spec = w @ to_string (unat (ep_port ep)))"
proof -
  let ?p = "if ma_hvsocket a \<and> ma_port a = 51789 then 5700 else ma_port a"
  have w: "ma_win_root a \<noteq> []" using assms by (auto simp: mount_plan_def listen_plan_def split: if_splits sum.splits)
  then obtain listen where d: "direction_b getrandom hcsdiag a = Inr (listen, spec)" and l: "listen_plan listen (wn_token spec) (Some spec) = MountListen ep token (Some spec)"
    using assms by (auto simp: mount_plan_def listen_plan_def split: sum.splits if_splits)
  have t: "token = wn_token spec" "Endpoint_parse listen = Inr ep" using l by (auto simp: listen_plan_def split: sum.splits)
  show ?thesis
  proof (cases "ma_hvsocket a")
    case True
    then have "listen = lit ''vsock://any:'' @ to_string (unat ?p)" using d by (auto simp: direction_b_def Let_def split: if_splits)
    then have "ep = Endpoint_init\<lparr>ep_kind := Vsock, ep_cid := 0xFFFFFFFF, ep_port := ?p\<rparr>"
      using t(2) parse_any_vsock [of ?p] by simp
    moreover have "\<exists>g. wn_connect spec = (lit ''hv://{'' @ g @ lit ''}:'') @ to_string (unat ?p)" "wn_token spec = generate_auth_token getrandom"
      "wn_token spec \<noteq> []" "wn_exe spec = ma_win_agent a"
      using d True by (auto simp: direction_b_def Let_def split: if_splits)
    ultimately show ?thesis using True t(1) by auto
  next
    case False
    then have s: "listen = lit ''tcp://127.0.0.1:'' @ to_string (unat ?p)" "wn_connect spec = lit ''tcp://127.0.0.1:'' @ to_string (unat ?p)"
      "wn_token spec = generate_auth_token getrandom" "wn_token spec \<noteq> []" "wn_exe spec = ma_win_agent a"
      using d by (auto simp: direction_b_def Let_def split: if_splits)
    then have "ep = Endpoint_init\<lparr>ep_kind := Tcp, ep_host := lit ''127.0.0.1'', ep_port := ?p\<rparr>"
      using t(2) parse_loopback [of ?p] by (cases "?p \<le> 65535") simp_all
    then show ?thesis using s False t(1) by auto
  qed
qed

theorem direction_b_stays_local_witness:
  "\<exists>ep token spec. mount_plan (\<lambda>name. None) (\<lambda>k n. replicate n 7) None
      (MountArgs_init\<lparr>ma_win_root := lit ''C:/'', ma_win_agent := lit ''a.exe''\<rparr>) = MountListen ep token (Some spec) \<and>
    ep_host ep = lit ''127.0.0.1'' \<and> token \<noteq> []"
proof -
  let ?a = "MountArgs_init\<lparr>ma_win_root := lit ''C:/'', ma_win_agent := lit ''a.exe''\<rparr>" and ?r = "\<lambda>k n. replicate n (7 :: u8)"
  have g: "generate_auth_token ?r \<noteq> []" using generated_token_shape [of ?r] by auto
  have f: "ma_hvsocket ?a = False" "ma_port ?a = 51789" "ma_win_root ?a = lit ''C:/''" "ma_win_agent ?a = lit ''a.exe''"
    by (simp_all add: MountArgs_init_def)
  have "\<exists>ep token spec. mount_plan (\<lambda>name. None) ?r None ?a = MountListen ep token (Some spec)"
    using g parse_loopback [of 51789] unfolding mount_plan_def direction_b_def listen_plan_def f by (simp add: Let_def)
  then obtain ep token spec where p: "mount_plan (\<lambda>name. None) ?r None ?a = MountListen ep token (Some spec)" by blast
  show ?thesis using p direction_b_stays_local [OF p] f(1) by auto
qed

text \<open>A port that is no number ends the program with an exception that nobody catches.\<close>

lemma bad_port_uncaught: "mount_command [lit ''/mnt'', lit ''--port'', lit ''x''] getenv getrandom hcsdiag = MountStop Uncaught"
  by (simp add: mount_command_def mount_option_def next_value_def stoul_def split_sign_def is_space_def is_digit_def)

text \<open>A port too large for its type is cut to 32 bits without a word.\<close>

lemma big_port_wraps: "mount_option (lit ''--port'') [lit ''4294967376''] a = Inr (True, a\<lparr>ma_port := 80\<rparr>)"
  by (simp add: mount_option_def next_value_def stoul_def split_sign_def is_space_def is_digit_def digits_value_def)

end
