(* ===== verification/ToolRuns.thy ===== *)
theory ToolRuns
  imports ToolsProps ServerFlush ServerProps
begin

text \<open>
  What the programs do once they are connected: the \<open>fetch\<close> command and the wait of the mount command in
  \<open>src/tools/wsldrive_main.cpp\<close>, and \<open>RootServer::stop\<close> of \<open>src/agent/server.cpp\<close>.

  The walk over the mirror carries fuel, the number of directories it may take from its stack, and is shown to end.  The
  random numbers that choose the paths to look up are an argument.
\<close>

section \<open>The fetch command\<close>

text \<open>The children of one directory: directories go on the stack, everything else gives a path.\<close>

definition note_child :: "MetadataTree \<Rightarrow> NodeId \<Rightarrow> NodeId list \<times> bytes list \<Rightarrow> NodeId list \<times> bytes list" where
  "note_child t k sp = (if is_dir (node t k) then (k # fst sp, snd sp) else (fst sp, snd sp @ [path_of t k slash]))"

primrec collect_paths :: "nat \<Rightarrow> MetadataTree \<Rightarrow> NodeId list \<Rightarrow> bytes list \<Rightarrow> bytes list option" where
  "collect_paths 0 t stack found = (if stack = [] \<or> length found \<ge> 200000 then Some found else None)"
| "collect_paths (Suc n) t stack found =
    (if length found \<ge> 200000 then Some found
     else case stack of
       [] \<Rightarrow> Some found
     | i # rest \<Rightarrow>
         let (stack1, found1) = fold (note_child t) (children t i) (rest, found)
         in collect_paths n t stack1 found1)"

definition count_hits :: "(nat \<Rightarrow> nat) \<Rightarrow> MetadataTree \<Rightarrow> bytes list \<Rightarrow> nat \<Rightarrow> nat" where
  "count_hits rng t found lookups =
    (let probes = map (\<lambda>k. found ! (rng k mod length found)) [0..<4096]
     in length (filter (\<lambda>i. lookup t (probes ! (i mod 4096)) CaseInsensitive \<noteq> None) [0..<lookups]))"

text \<open>What is reported: the hits of the lookups and the outcome of the read, where they were asked for.\<close>

record FetchReport =
  fp_hits :: "nat option"
  fp_read :: "bytes result option"

definition fetch_lookups :: "nat \<Rightarrow> (nat \<Rightarrow> nat) \<Rightarrow> int \<Rightarrow> MetadataTree \<Rightarrow> nat option option" where
  "fetch_lookups n rng lookups t =
    (if lookups \<le> 0 then Some None
     else case collect_paths n t [root] [] of
       None \<Rightarrow> None
     | Some found \<Rightarrow> Some (if found = [] then None else Some (count_hits rng t found (nat lookups))))"

text \<open>The whole session; \<open>None\<close> when the fuel of the walk runs out, else the exit code or the report, and the client.\<close>

definition fetch_session ::
  "'h blake3_api \<Rightarrow> bytes \<Rightarrow> (nat \<Rightarrow> nat \<Rightarrow> bytes) \<Rightarrow> (nat \<Rightarrow> nat) \<Rightarrow> nat \<Rightarrow> bytes \<Rightarrow> FetchArgs \<Rightarrow> FrameChannel \<Rightarrow>
    ((int + FetchReport) \<times> RemoteRoot) option" where
  "fetch_session api agent1 getrandom rng n token a ch =
    (case connect api agent1 getrandom n (RemoteRoot_init token Exact ch) of
       (Inl e, c) \<Rightarrow> Some (Inl 1, c)
     | (Inr _, c) \<Rightarrow>
         let (_, c1) = ping n c in
         (case fetch_snapshot n c1 of
            (Inl e, c2) \<Rightarrow> Some (Inl 1, c2)
          | (Inr _, c2) \<Rightarrow>
              (case fetch_lookups n rng (fa_lookups a) (cl_tree c2) of
                 None \<Rightarrow> None
               | Some hits \<Rightarrow>
                   if fa_read_path a = [] then Some (Inr \<lparr>fp_hits = hits, fp_read = None\<rparr>, c2)
                   else let (r, c3) = RemoteRoot_read n (fa_read_path a) 0 0x1000000 c2
                        in Some (Inr \<lparr>fp_hits = hits, fp_read = Some r\<rparr>, c3))))"

section \<open>The wait of the mount command\<close>

text \<open>
  One round every 200 milliseconds: whether the mount, the connection and the absence of a signal let it go on, and the counters
  of rescans and of failed ones.  The result is what is reported on the way.
\<close>

fun mount_wait :: "(bool \<times> u64 \<times> u64) list \<Rightarrow> u64 \<times> u64 \<Rightarrow> (u64 \<times> u64) list" where
  "mount_wait [] seen = []"
| "mount_wait ((go_on, rescans, failures) # rounds) seen =
    (if \<not> go_on then []
     else if rescans \<noteq> fst seen \<or> failures \<noteq> snd seen then (rescans, failures) # mount_wait rounds (rescans, failures)
     else mount_wait rounds seen)"

section \<open>Stopping the server\<close>

record 'k RunningServer =
  rv_stopping :: bool
  rv_watcher :: "'k InotifyWatcher option"
  rv_flusher :: Flusher
  rv_flushing :: bool

definition server_stop :: "'k InotifyOs \<Rightarrow> 'k RunningServer \<Rightarrow> 'k RunningServer" where
  "server_stop os s =
    (if rv_stopping s then s
     else s\<lparr>rv_stopping := True, rv_watcher := map_option (watcher_stop os) (rv_watcher s),
            rv_flusher := (rv_flusher s)\<lparr>fl_peers := map FrameChannel_shutdown (fl_peers (rv_flusher s))\<rparr>, rv_flushing := False\<rparr>)"

section \<open>Lookups of a fetch all hit\<close>

lemma note_children:
  "fold (note_child t) ks (st, ps) =
    (fold (\<lambda>k st. if is_dir (node t k) then k # st else st) ks st, ps @ map (\<lambda>k. path_of t k slash) (filter (\<lambda>k. \<not> is_dir (node t k)) ks))"
  by (induction ks arbitrary: st ps) (simp_all add: note_child_def)

lemma collect_step:
  "\<not> length found \<ge> 200000 \<Longrightarrow> collect_paths (Suc n) t (i # rest) found =
    collect_paths n t (push_dirs t i rest) (found @ map (\<lambda>k. path_of t k slash) (filter (\<lambda>k. \<not> is_dir (node t k)) (children t i)))"
  by (simp add: note_children push_dirs_def)

lemma collect_ends:
  assumes "tree_inv t"
  shows "list_all (valid t) stack \<Longrightarrow> \<exists>n found1. collect_paths n t stack found = Some found1"
proof (induction "mset stack" arbitrary: stack found rule: wf_induct_rule [OF wf_mult [OF wf_par_rel [OF assms]]])
  case (1 stack)
  show ?case
  proof (cases "stack = [] \<or> length found \<ge> 200000")
    case True
    then show ?thesis by (intro exI [of _ 0]) simp
  next
    case False
    then obtain i rest where s: "stack = i # rest" by (cases stack) auto
    then have v: "valid t i" "list_all (valid t) rest" using "1.prems" by simp_all
    let ?f = "found @ map (\<lambda>k. path_of t k slash) (filter (\<lambda>k. \<not> is_dir (node t k)) (children t i))"
    have "\<exists>n found1. collect_paths n t (push_dirs t i rest) ?f = Some found1"
      using "1.hyps" [of "push_dirs t i rest"] stack_shrinks(1) [OF assms v(1), of rest] valid_push_dirs [OF assms v] s by simp
    then obtain n found1 where "collect_paths n t (push_dirs t i rest) ?f = Some found1" by blast
    then show ?thesis using False s collect_step [of found n t i rest] by (intro exI [of _ "Suc n"] exI [of _ found1]) simp
  qed
qed

lemma collect_found:
  assumes "tree_inv t"
  shows "collect_paths n t stack found = Some found1 \<Longrightarrow> list_all (valid t) stack \<Longrightarrow>
    (\<forall>p \<in> set found. lookup t p m \<noteq> None) \<Longrightarrow> \<forall>p \<in> set found1. lookup t p m \<noteq> None"
proof (induction n arbitrary: stack found)
  case 0
  then show ?case by (auto split: if_splits)
next
  case (Suc n)
  show ?case
  proof (cases "stack = [] \<or> length found \<ge> 200000")
    case True
    then show ?thesis using Suc.prems by (auto split: if_splits)
  next
    case False
    then obtain i rest where s: "stack = i # rest" by (cases stack) auto
    then have v: "valid t i" "list_all (valid t) rest" using Suc.prems(2) by simp_all
    let ?f = "found @ map (\<lambda>k. path_of t k slash) (filter (\<lambda>k. \<not> is_dir (node t k)) (children t i))"
    have c: "collect_paths n t (push_dirs t i rest) ?f = Some found1"
      using Suc.prems(1) False collect_step [of found n t i rest] s by (simp del: collect_paths.simps)
    have "lookup t (path_of t k slash) m \<noteq> None" if "k \<in> set (children t i)" for k
      using that path_of_resolves_any [OF assms, of k m] children_of(2) [OF assms v(1)] by simp
    then have "\<forall>p \<in> set ?f. lookup t p m \<noteq> None" using Suc.prems(3) by auto
    then show ?thesis by (rule Suc.IH [OF c valid_push_dirs [OF assms v]])
  qed
qed

text \<open>
  The lookups of a fetch measure hits only.  On every consistent mirror the walk for paths ends, and every lookup that is
  then timed, case-insensitively and whatever paths the random numbers choose, finds its node.
\<close>

theorem fetch_lookups_hit:
  assumes "tree_inv t" and "0 < lookups"
  shows "\<exists>n. fetch_lookups n rng lookups t = Some None \<or> fetch_lookups n rng lookups t = Some (Some (nat lookups))"
proof -
  have "valid t root" using assms(1) core_slots by (auto simp: tree_inv_def slots_ok_def)
  then have v: "list_all (valid t) [root]" by simp
  obtain n found where c: "collect_paths n t [root] [] = Some found" using collect_ends [OF assms(1) v] by blast
  have f: "\<forall>p \<in> set found. lookup t p CaseInsensitive \<noteq> None" using collect_found [OF assms(1) c v] by simp
  have "count_hits rng t found (nat lookups) = nat lookups" if ne: "found \<noteq> []"
  proof -
    have "lookup t (map (\<lambda>k. found ! (rng k mod length found)) [0..<4096] ! (i mod 4096)) CaseInsensitive \<noteq> None" for i
      using f ne by simp
    then show ?thesis by (simp add: count_hits_def)
  qed
  then show ?thesis using c assms(2) by (intro exI [of _ n]) (auto simp: fetch_lookups_def)
qed

section \<open>Stopping ends the sessions\<close>

text \<open>
  After \<open>stop\<close> every session ends at its next turn that is not a request: one whose channel was shut down, whatever it waits for,
  and one that polls in vain.  And no session joins the broadcast any more.
\<close>

theorem stop_ends_sessions:
  assumes "sv_stopping st"
  shows "cn_chan (sv_conn st) = FrameChannel_shutdown ch \<Longrightarrow> \<exists>st1. serve_step env me limit st = Some (Leave st1)"
    and "selects (sock (cn_chan (sv_conn st))) = 0 # rest \<Longrightarrow> \<exists>st1. serve_step env me limit st = Some (Leave st1)"
    and "serve_step env me limit st = Some (Again st1) \<Longrightarrow> sv_peers st1 = sv_peers st"
  using assms
  by (auto simp: serve_step_def FrameChannel_shutdown_def receive_for_def wait_readable_def wait_read_def on_poll_timeout_def
      after_handle_def add_peer_def Let_def split: sum.splits prod.splits option.splits if_splits)

text \<open>
  A session whose peer keeps greeting stays: neither the deadline of the handshake nor the stop is looked at when a frame has
  arrived, so that a peer without the token which repeats its greeting in time is never dropped.
\<close>

lemma greeting_outlives_deadline:
  assumes "so_token (env_opts env) \<noteq> []" and "hello_fits h" "protocol_version h = ucast kVersion" "nonce h \<noteq> []"
      "length (write_hello h []) \<le> unat kPreAuthMaxPayload"
    and "sn = generate_auth_nonce (os_getrandom (env_host env) (cn_nonces (sv_conn st)))" "sn \<noteq> []"
    and "hello_fits (hello_ack env (nonce h) sn)" "length (write_hello (hello_ack env (nonce h) sn) []) \<le> unat kMaxPayload"
    and "channel_ready (hello_frame MsgHello rid h # ms)
      (kHeaderSize + length (write_hello (hello_ack env (nonce h) sn) []) + n) (cn_chan (sv_conn st))"
      "max_payload (cn_chan (sv_conn st)) = kPreAuthMaxPayload"
    and "\<not> authed (sv_sess st)"
  shows "\<exists>st1. serve_step env me limit st = Some (Again st1) \<and> \<not> authed (sv_sess st1) \<and> sv_stopping st1 = sv_stopping st \<and>
    channel_ready ms n (cn_chan (sv_conn st1))"
  using serve_hello_step [OF assms, of me limit] assms(12) by auto

end
