(* ===== verification/NetSetup.thy ===== *)
theory NetSetup
  imports Launch
begin

text \<open>
  Connecting and listening from \<open>src/net/socket.cpp\<close> on both platforms: \<open>connect\<close>, \<open>Listener::bind\<close>, both forms of
  \<open>Listener::accept\<close>, the two \<open>close\<close> and the move assignments, the identifiers of Hyper-V machines and services, and the
  Windows branch of the stream operations.

  The kernel is a record of the calls the code makes over an abstract state.  The model keeps the list of the descriptors that are
  open, \<open>nt_open\<close>: a call that creates a socket adds one, \<open>close_native\<close> takes one away, and where a
  \<open>Socket\<close> object goes out of scope its destructor's call stands in the model.  Of the socket options only the
  time value of the send timeout is computed by the code.
\<close>

section \<open>Identifiers of machines and services\<close>

record GUID =
  Data1 :: u32
  Data2 :: u16
  Data3 :: u16
  Data4 :: "u8 list"

definition vsock_service_id :: "u32 \<Rightarrow> GUID" where
  "vsock_service_id port =
    \<lparr>Data1 = port, Data2 = 0xFACB, Data3 = 0x11E6, Data4 = [0xBD, 0x58, 0x64, 0x00, 0x6A, 0x79, 0x86, 0xD3]\<rparr>"

text \<open>
  The conversions \<open>%<w>x\<close> of \<open>std::sscanf\<close>: blanks are skipped, then at most \<open>w\<close> characters make a number, a sign and the prefix
  \<open>0x\<close> included.  A sign or prefix without digits does not convert.  The number is that of \<open>strtoul\<close> at 32 bits, so that a
  sign negates modulo the width.
\<close>

definition hex_number :: "bytes \<Rightarrow> nat" where
  "hex_number ds = foldl (\<lambda>v d. 16 * v + the (hex_value d)) 0 ds"

definition scan_digits :: "nat \<Rightarrow> bytes \<Rightarrow> (u32 \<times> bytes) option" where
  "scan_digits w s =
    (let ds = takeWhile is_hex (take w s)
     in if ds = [] then None else Some (of_nat (hex_number ds), drop (length ds) s))"

definition scan_unsigned :: "nat \<Rightarrow> bytes \<Rightarrow> (u32 \<times> bytes) option" where
  "scan_unsigned w s =
    (if 2 \<le> w \<and> 2 \<le> length s \<and> s ! 0 = 0x30 \<and> (s ! 1 = 0x78 \<or> s ! 1 = 0x58) then scan_digits (w - 2) (drop 2 s)
     else scan_digits w s)"

definition scan_hex :: "nat \<Rightarrow> bytes \<Rightarrow> (u32 \<times> bytes) option" where
  "scan_hex w s =
    (let r = dropWhile is_space s in
     if r \<noteq> [] \<and> hd r = 0x2D then map_option (map_prod uminus id) (scan_unsigned (w - 1) (tl r))
     else if r \<noteq> [] \<and> hd r = 0x2B then scan_unsigned (w - 1) (tl r)
     else scan_unsigned w r)"

datatype Conversion = Hex nat | Dash

text \<open>All conversions of a format, \<open>None\<close> when one of them fails.\<close>

fun sscanf :: "Conversion list \<Rightarrow> bytes \<Rightarrow> u32 list option" where
  "sscanf [] s = Some []"
| "sscanf (Hex w # fs) s = (case scan_hex w s of None \<Rightarrow> None | Some (v, r) \<Rightarrow> map_option ((#) v) (sscanf fs r))"
| "sscanf (Dash # fs) s = (if s \<noteq> [] \<and> hd s = 0x2D then sscanf fs (tl s) else None)"

definition guid_format :: "Conversion list" where
  "guid_format =
    [Hex 8, Dash, Hex 4, Dash, Hex 4, Dash, Hex 2, Hex 2, Dash, Hex 2, Hex 2, Hex 2, Hex 2, Hex 2, Hex 2]"

definition strip_braces :: "bytes \<Rightarrow> bytes" where
  "strip_braces s0 =
    (let s = (if s0 \<noteq> [] \<and> hd s0 = 0x7B then tl s0 else s0)
     in if s \<noteq> [] \<and> last s = 0x7D then butlast s else s)"

text \<open>The scan reads the C string, up to the first zero byte.\<close>

definition parse_guid :: "bytes \<Rightarrow> GUID option" where
  "parse_guid text1 =
    (let s = strip_braces text1 in
     if length s \<noteq> 36 then None
     else case sscanf guid_format (takeWhile (\<lambda>ch. ch \<noteq> 0) s) of
       None \<Rightarrow> None
     | Some vs \<Rightarrow> Some \<lparr>Data1 = vs ! 0, Data2 = ucast (vs ! 1), Data3 = ucast (vs ! 2), Data4 = map ucast (drop 3 vs)\<rparr>)"

section \<open>The kernel\<close>

datatype SockAddr = AddrIp nat | AddrVm u32 u32 | AddrHv GUID GUID

datatype AcceptError = AcEintr | AcEbadf | AcEinval | AcOther

record 'k NetOs =
  os_getaddrinfo :: "bool \<Rightarrow> bytes \<Rightarrow> bytes \<Rightarrow> 'k \<Rightarrow> nat list option"
  os_socket :: "SockAddr \<Rightarrow> 'k \<Rightarrow> int \<times> 'k"
  os_connect :: "int \<Rightarrow> SockAddr \<Rightarrow> 'k \<Rightarrow> bool \<times> 'k"
  os_bind :: "int \<Rightarrow> SockAddr \<Rightarrow> 'k \<Rightarrow> bool \<times> 'k"
  os_listen :: "int \<Rightarrow> 'k \<Rightarrow> bool \<times> 'k"
  os_getsockname :: "int \<Rightarrow> 'k \<Rightarrow> u32 option"
  os_select :: "int \<Rightarrow> int \<Rightarrow> 'k \<Rightarrow> int \<times> 'k"
  os_accept :: "int \<Rightarrow> 'k \<Rightarrow> (AcceptError + int) \<times> 'k"

record 'k Net =
  nt_kernel :: 'k
  nt_open :: "int list"

definition kInvalidSocket :: int where "kInvalidSocket = - 1"

definition on_kernel :: "('k \<Rightarrow> 'a \<times> 'k) \<Rightarrow> 'k Net \<Rightarrow> 'a \<times> 'k Net" where
  "on_kernel f nt = (let (x, k) = f (nt_kernel nt) in (x, nt\<lparr>nt_kernel := k\<rparr>))"

definition open_socket :: "'k NetOs \<Rightarrow> SockAddr \<Rightarrow> 'k Net \<Rightarrow> int \<times> 'k Net" where
  "open_socket os a nt =
    (let (s, nt1) = on_kernel (os_socket os a) nt
     in (s, if s = kInvalidSocket then nt1 else nt1\<lparr>nt_open := s # nt_open nt1\<rparr>))"

definition close_native :: "int \<Rightarrow> 'k Net \<Rightarrow> 'k Net" where
  "close_native s nt = nt\<lparr>nt_open := remove1 s (nt_open nt)\<rparr>"

section \<open>Connecting\<close>

text \<open>
  The loop over the addresses, for connecting and for listening: the first socket on which \<open>attempt\<close> succeeds, or
  \<open>kInvalidSocket\<close>.
\<close>

primrec first_socket :: "'k NetOs \<Rightarrow> (int \<Rightarrow> SockAddr \<Rightarrow> 'k Net \<Rightarrow> bool \<times> 'k Net) \<Rightarrow> nat list \<Rightarrow> 'k Net \<Rightarrow> int \<times> 'k Net" where
  "first_socket os attempt [] nt = (kInvalidSocket, nt)"
| "first_socket os attempt (a # as) nt =
    (let (s, nt1) = open_socket os (AddrIp a) nt in
     if s = kInvalidSocket then first_socket os attempt as nt1
     else
       let (good, nt2) = attempt s (AddrIp a) nt1
       in if good then (s, nt2) else first_socket os attempt as (close_native s nt2))"

definition try_connect :: "'k NetOs \<Rightarrow> int \<Rightarrow> SockAddr \<Rightarrow> 'k Net \<Rightarrow> bool \<times> 'k Net" where
  "try_connect os s addr nt = on_kernel (os_connect os s addr) nt"

definition connect_tcp :: "'k NetOs \<Rightarrow> Endpoint \<Rightarrow> 'k Net \<Rightarrow> int result \<times> 'k Net" where
  "connect_tcp os ep nt =
    (case os_getaddrinfo os False (ep_host ep) (to_string (unat (ep_port ep))) (nt_kernel nt) of
       None \<Rightarrow> (fail NotFound, nt)
     | Some as \<Rightarrow>
         if as = [] then (fail NotFound, nt)
         else
           let (s, nt1) = first_socket os (try_connect os) as nt
           in if s = kInvalidSocket then (fail IoError, nt1) else (ok s, nt1))"

text \<open>One socket to one address, for the transports between the machines.\<close>

definition connect_one :: "'k NetOs \<Rightarrow> SockAddr \<Rightarrow> 'k Net \<Rightarrow> int result \<times> 'k Net" where
  "connect_one os addr nt =
    (let (s, nt1) = open_socket os addr nt in
     if s = kInvalidSocket then (fail Unsupported, nt1)
     else
       let (good, nt2) = try_connect os s addr nt1
       in if good then (ok s, nt2) else (fail IoError, close_native s nt2))"

definition net_connect :: "'k NetOs \<Rightarrow> Endpoint \<Rightarrow> 'k Net \<Rightarrow> int result \<times> 'k Net" where
  "net_connect os ep nt =
    (case ep_kind ep of
       Tcp \<Rightarrow> connect_tcp os ep nt
     | Vsock \<Rightarrow> connect_one os (AddrVm (ep_cid ep) (ep_port ep)) nt
     | HyperV \<Rightarrow> (fail Unsupported, nt))"

text \<open>The Windows branch: a Hyper-V endpoint names the machine by its identifier.\<close>

definition net_connect_win :: "'k NetOs \<Rightarrow> Endpoint \<Rightarrow> 'k Net \<Rightarrow> int result \<times> 'k Net" where
  "net_connect_win os ep nt =
    (case ep_kind ep of
       Tcp \<Rightarrow> connect_tcp os ep nt
     | Vsock \<Rightarrow> (fail Unsupported, nt)
     | HyperV \<Rightarrow>
         if ep_vm_id ep = [] then (fail InvalidArgument, nt)
         else case parse_guid (ep_vm_id ep) of
           None \<Rightarrow> (fail InvalidArgument, nt)
         | Some vm \<Rightarrow> connect_one os (AddrHv vm (vsock_service_id (ep_port ep))) nt)"

section \<open>Listening\<close>

record Listener =
  ls_socket :: int
  ls_local :: Endpoint

text \<open>\<open>bind(...) == 0 && listen(...) == 0\<close>.\<close>

definition bind_listen :: "'k NetOs \<Rightarrow> int \<Rightarrow> SockAddr \<Rightarrow> 'k Net \<Rightarrow> bool \<times> 'k Net" where
  "bind_listen os s addr nt =
    (let (b, nt1) = on_kernel (os_bind os s addr) nt
     in if b then on_kernel (os_listen os s) nt1 else (False, nt1))"

definition VMADDR_CID_ANY :: u32 where "VMADDR_CID_ANY = 0xFFFFFFFF"

definition bind_tcp :: "'k NetOs \<Rightarrow> Endpoint \<Rightarrow> 'k Net \<Rightarrow> Listener result \<times> 'k Net" where
  "bind_tcp os ep nt =
    (case os_getaddrinfo os True (ep_host ep) (to_string (unat (ep_port ep))) (nt_kernel nt) of
       None \<Rightarrow> (fail NotFound, nt)
     | Some as \<Rightarrow>
         if as = [] then (fail NotFound, nt)
         else
           let (s, nt1) = first_socket os (bind_listen os) as nt
           in if s = kInvalidSocket then (fail IoError, nt1)
              else
                let port = (case os_getsockname os s (nt_kernel nt1) of None \<Rightarrow> ep_port ep | Some p \<Rightarrow> p)
                in (ok \<lparr>ls_socket = s, ls_local = ep\<lparr>ep_port := port\<rparr>\<rparr>, nt1))"

definition bind_one :: "'k NetOs \<Rightarrow> Endpoint \<Rightarrow> SockAddr \<Rightarrow> 'k Net \<Rightarrow> Listener result \<times> 'k Net" where
  "bind_one os ep addr nt =
    (let (s, nt1) = open_socket os addr nt in
     if s = kInvalidSocket then (fail Unsupported, nt1)
     else
       let (good, nt2) = bind_listen os s addr nt1
       in if good then (ok \<lparr>ls_socket = s, ls_local = ep\<rparr>, nt2) else (fail IoError, close_native s nt2))"

definition Listener_bind :: "'k NetOs \<Rightarrow> Endpoint \<Rightarrow> 'k Net \<Rightarrow> Listener result \<times> 'k Net" where
  "Listener_bind os ep nt =
    (case ep_kind ep of
       Tcp \<Rightarrow> bind_tcp os ep nt
     | Vsock \<Rightarrow> bind_one os ep (AddrVm (if ep_cid ep = 0 then VMADDR_CID_ANY else ep_cid ep) (ep_port ep)) nt
     | HyperV \<Rightarrow> (fail Unsupported, nt))"

definition kHvGuidWildcard :: GUID where
  "kHvGuidWildcard = \<lparr>Data1 = 0, Data2 = 0, Data3 = 0, Data4 = replicate 8 0\<rparr>"

text \<open>The Windows branch: without an identifier every machine may dial in.\<close>

definition Listener_bind_win :: "'k NetOs \<Rightarrow> Endpoint \<Rightarrow> 'k Net \<Rightarrow> Listener result \<times> 'k Net" where
  "Listener_bind_win os ep nt =
    (case ep_kind ep of
       Tcp \<Rightarrow> bind_tcp os ep nt
     | Vsock \<Rightarrow> (fail Unsupported, nt)
     | HyperV \<Rightarrow>
         (case (if ep_vm_id ep = [] then Some kHvGuidWildcard else parse_guid (ep_vm_id ep)) of
            None \<Rightarrow> (fail InvalidArgument, nt)
          | Some vm \<Rightarrow> bind_one os ep (AddrHv vm (vsock_service_id (ep_port ep))) nt))"

text \<open>The loop over interrupted calls carries fuel.\<close>

primrec accept_loop :: "nat \<Rightarrow> 'k NetOs \<Rightarrow> int \<Rightarrow> 'k Net \<Rightarrow> ((AcceptError + int) \<times> 'k Net) option" where
  "accept_loop 0 os l nt = None"
| "accept_loop (Suc n) os l nt =
    (let (r, nt1) = on_kernel (os_accept os l) nt
     in case r of
          Inl e \<Rightarrow> if e = AcEintr then accept_loop n os l nt1 else Some (r, nt1)
        | Inr s \<Rightarrow> Some (r, nt1\<lparr>nt_open := s # nt_open nt1\<rparr>))"

definition Listener_accept :: "nat \<Rightarrow> 'k NetOs \<Rightarrow> Listener \<Rightarrow> 'k Net \<Rightarrow> (int result \<times> 'k Net) option" where
  "Listener_accept n os l nt =
    (if ls_socket l = kInvalidSocket then Some (fail ConnectionClosed, nt)
     else case accept_loop n os (ls_socket l) nt of
       None \<Rightarrow> None
     | Some (Inl e, nt1) \<Rightarrow> Some (if e = AcEbadf \<or> e = AcEinval then fail ConnectionClosed else fail IoError, nt1)
     | Some (Inr s, nt1) \<Rightarrow> Some (ok s, nt1))"

definition Listener_accept_for :: "nat \<Rightarrow> 'k NetOs \<Rightarrow> int \<Rightarrow> Listener \<Rightarrow> 'k Net \<Rightarrow> (int result \<times> 'k Net) option" where
  "Listener_accept_for n os timeout l nt =
    (if ls_socket l = kInvalidSocket then Some (fail ConnectionClosed, nt)
     else
       let (r, nt1) = on_kernel (os_select os (ls_socket l) timeout) nt
       in if r = 0 then Some (fail Timeout, nt1)
          else if r < 0 then Some (fail ConnectionClosed, nt1)
          else Listener_accept n os l nt1)"

definition Listener_close :: "Listener \<Rightarrow> 'k Net \<Rightarrow> Listener \<times> 'k Net" where
  "Listener_close l nt =
    (if ls_socket l = kInvalidSocket then (l, nt) else (l\<lparr>ls_socket := kInvalidSocket\<rparr>, close_native (ls_socket l) nt))"

definition Socket_close :: "int \<Rightarrow> 'k Net \<Rightarrow> int \<times> 'k Net" where
  "Socket_close s nt = (if s = kInvalidSocket then (s, nt) else (kInvalidSocket, close_native s nt))"

text \<open>Move assignment: what the target held is closed, and the source is left without a socket.\<close>

definition Socket_assign :: "int \<Rightarrow> int \<Rightarrow> 'k Net \<Rightarrow> (int \<times> int) \<times> 'k Net" where
  "Socket_assign this other nt = (let (s, nt1) = Socket_close this nt in ((other, kInvalidSocket), nt1))"

definition Listener_assign :: "Listener \<Rightarrow> Listener \<Rightarrow> 'k Net \<Rightarrow> (Listener \<times> Listener) \<times> 'k Net" where
  "Listener_assign this other nt = (let (l, nt1) = Listener_close this nt in ((other, other\<lparr>ls_socket := kInvalidSocket\<rparr>), nt1))"

text \<open>The \<open>timeval\<close> of a send timeout in milliseconds: seconds and microseconds.\<close>

definition send_timeval :: "nat \<Rightarrow> nat \<times> nat" where
  "send_timeval timeout = (timeout div 1000, timeout mod 1000 * 1000)"

section \<open>The stream operations on Windows\<close>

datatype wsa_error = WSAETIMEDOUT | WSAECONNRESET | WSAECONNABORTED | WSAESHUTDOWN | OtherWsa

datatype wsa_rc = WsaN nat | WsaErr wsa_error

text \<open>At most 1 GiB is handed over at once; \<open>WsaN n\<close> has accepted the first \<open>n\<close> bytes of it.\<close>

definition wsa_chunk :: "nat \<Rightarrow> nat" where
  "wsa_chunk n = min n (2 ^ 30)"

fun send_loop_win :: "wsa_rc list \<Rightarrow> bytes \<Rightarrow> bytes \<Rightarrow> unit result \<times> wsa_rc list \<times> bytes" where
  "send_loop_win sc [] acc = (ok (), sc, acc)"
| "send_loop_win [] (d # ds) acc = (fail ConnectionClosed, [], acc)"
| "send_loop_win (WsaErr e # sc) (d # ds) acc =
    (if e = WSAETIMEDOUT then (fail Timeout, sc, acc)
     else (fail (if e = WSAECONNRESET \<or> e = WSAECONNABORTED then ConnectionClosed else IoError), sc, acc))"
| "send_loop_win (WsaN n # sc) (d # ds) acc =
    (let k = min n (wsa_chunk (length (d # ds))) in send_loop_win sc (drop k (d # ds)) (acc @ take k (d # ds)))"

definition recv_some_win :: "nat \<Rightarrow> wsa_rc list \<Rightarrow> bytes \<Rightarrow> bytes result \<times> wsa_rc list \<times> bytes" where
  "recv_some_win n sc inb =
    (if n = 0 then (ok [], sc, inb)
     else case sc of
       [] \<Rightarrow> (fail ConnectionClosed, [], inb)
     | WsaErr e # sc1 \<Rightarrow>
         (fail (if e = WSAECONNRESET \<or> e = WSAECONNABORTED \<or> e = WSAESHUTDOWN then ConnectionClosed else IoError), sc1, inb)
     | WsaN k # sc1 \<Rightarrow>
         let got = take (min k (wsa_chunk n)) inb
         in if got = [] then (fail ConnectionClosed, sc1, inb) else (ok got, sc1, drop (length got) inb))"

text \<open>Both platforms put exactly the bytes on the stream, in order, and a failure leaves a prefix of them.\<close>

lemma send_loop_win_prefix:
  "send_loop_win sc bs acc = (r, sc1, acc1) \<Longrightarrow>
    \<exists>sent rest. bs = sent @ rest \<and> acc1 = acc @ sent \<and> (r = ok () \<longrightarrow> rest = [])"
proof (induction sc bs acc rule: send_loop_win.induct)
  case (4 n sc d ds acc)
  let ?k = "min n (wsa_chunk (length (d # ds)))"
  obtain sent rest where "drop ?k (d # ds) = sent @ rest" "acc1 = (acc @ take ?k (d # ds)) @ sent" "r = ok () \<longrightarrow> rest = []"
    using "4.IH" [OF refl] "4.prems" by (auto simp: Let_def)
  then have "d # ds = (take ?k (d # ds) @ sent) @ rest" "acc1 = acc @ take ?k (d # ds) @ sent"
    using append_take_drop_id [of ?k "d # ds"] by (simp_all only: append.assoc)
  then show ?case using \<open>r = ok () \<longrightarrow> rest = []\<close> by blast
qed (auto split: if_splits)

lemma send_timeval_exact: "fst (send_timeval t) * 1000000 + snd (send_timeval t) = t * 1000" "snd (send_timeval t) < 1000000"
proof -
  have "t = t div 1000 * 1000 + t mod 1000" by (rule div_mod_decomp)
  then have "t * 1000 = t div 1000 * 1000000 + t mod 1000 * 1000" by linarith
  then show "fst (send_timeval t) * 1000000 + snd (send_timeval t) = t * 1000" by (simp add: send_timeval_def)
  show "snd (send_timeval t) < 1000000" by (simp add: send_timeval_def)
qed

section \<open>Scanning identifiers\<close>

lemma is_hex_value: "is_hex ch \<longleftrightarrow> hex_value ch \<noteq> None"
  by (simp add: is_hex_def hex_value_def)

lemma hex_is_plain:
  assumes "is_hex ch"
  shows "\<not> is_space ch" "ch \<noteq> 0x2D" "ch \<noteq> 0x2B" "ch \<noteq> 0x78" "ch \<noteq> 0x58" "ch \<noteq> 0" "ch \<noteq> 0x7B" "ch \<noteq> 0x7D"
  using assms by (auto simp: is_hex_def is_space_def word_le_nat_alt)

lemma scan_hex_run:
  assumes "0 < w" and "w \<le> length s" and "list_all is_hex (take w s)"
  shows "scan_hex w s = Some (of_nat (hex_number (take w s)), drop w s)"
proof -
  have at: "is_hex (s ! j)" if "j < w" for j using assms(2,3) that by (auto simp: list_all_length)
  obtain ch rest where s: "s = ch # rest" using assms(1,2) by (cases s) auto
  have c: "is_hex ch" using at [of 0] assms(1) s by simp
  have d: "dropWhile is_space s = s" using hex_is_plain(1) [OF c] s by simp
  have x: "\<not> (2 \<le> w \<and> 2 \<le> length s \<and> s ! 0 = 0x30 \<and> (s ! 1 = 0x78 \<or> s ! 1 = 0x58))"
    using at [of 1] hex_is_plain(4,5) by auto
  have t: "takeWhile is_hex (take w s) = take w s" using assms(3) by (simp add: takeWhile_eq_all_conv list_all_iff)
  have "scan_hex w s = scan_digits w s"
    using hex_is_plain(2,3) [OF c] x unfolding scan_hex_def Let_def d scan_unsigned_def if_not_P [OF x] by (simp add: s)
  then show ?thesis using assms(1,2) unfolding scan_digits_def t Let_def by (auto simp: min_def s)
qed

lemma guid_run:
  assumes "guid_at s" and "k + w \<le> 36" and "8 \<notin> {k..<k + w} \<and> 13 \<notin> {k..<k + w} \<and> 18 \<notin> {k..<k + w} \<and> 23 \<notin> {k..<k + w}"
  shows "list_all is_hex (take w (drop k s))"
proof -
  have "is_hex (s ! (k + j))" if "j < w" for j
  proof -
    have "guid_char (k + j) (s ! (k + j))" using assms(1,2) that by (auto simp: guid_at_def list_all_iff)
    moreover have "k + j \<in> {k..<k + w}" using that by simp
    ultimately show ?thesis using assms(3) unfolding guid_char_def by (metis (full_types))
  qed
  then show ?thesis using assms(1,2) by (auto simp: list_all_length guid_at_def)
qed

lemma sscanf_hex:
  assumes "guid_at s" and "0 < w" and "k + w \<le> 36" and "8 \<notin> {k..<k + w} \<and> 13 \<notin> {k..<k + w} \<and> 18 \<notin> {k..<k + w} \<and> 23 \<notin> {k..<k + w}"
  shows "(sscanf (Hex w # fs) (drop k s) = None) = (sscanf fs (drop (k + w) s) = None)"
proof -
  have "w \<le> length (drop k s)" using assms(1,3) by (auto simp: guid_at_def)
  then show ?thesis using scan_hex_run [OF assms(2) _ guid_run [OF assms(1,3,4)]] by (simp add: add.commute)
qed

lemma sscanf_dash:
  assumes "guid_at s" and "k = 8 \<or> k = 13 \<or> k = 18 \<or> k = 23"
  shows "(sscanf (Dash # fs) (drop k s) = None) = (sscanf fs (drop (k + 1) s) = None)"
proof -
  have "guid_char k (s ! k)" using assms by (auto simp: guid_at_def list_all_iff)
  then have "s ! k = 0x2D" using assms(2) by (auto simp: guid_char_def)
  moreover have "k < length s" using assms by (auto simp: guid_at_def)
  ultimately show ?thesis by (simp add: hd_drop_conv_nth tl_drop drop_Suc)
qed

lemma guid_scans:
  assumes "guid_at s"
  shows "sscanf guid_format s \<noteq> None"
proof -
  note h = sscanf_hex [OF assms] and d = sscanf_dash [OF assms]
  have "(sscanf (Hex 8 # fs) s = None) = (sscanf fs (drop 8 s) = None)" for fs using h [of 8 0 fs] by simp
  then have "sscanf guid_format s = None \<longleftrightarrow> False"
    unfolding guid_format_def by (simp add: h d del: sscanf.simps(2,3))
  then show ?thesis by blast
qed

section \<open>No descriptor is lost\<close>

text \<open>The descriptors before and after a call that gives out at most one.\<close>

definition gives :: "'k Net \<Rightarrow> int option \<Rightarrow> 'k Net \<Rightarrow> bool" where
  "gives nt given nt1 \<longleftrightarrow> nt_open nt1 = (case given of None \<Rightarrow> nt_open nt | Some s \<Rightarrow> s # nt_open nt)"

lemma gives_nothing [simp]: "gives nt None nt"
  by (simp add: gives_def)

lemma on_kernel_open [simp]: "on_kernel f nt = (x, nt1) \<Longrightarrow> nt_open nt1 = nt_open nt"
  by (auto simp: on_kernel_def split_beta)

lemma open_socket_gives:
  "open_socket os a nt = (s, nt1) \<Longrightarrow> gives nt (if s = kInvalidSocket then None else Some s) nt1"
  by (auto simp: open_socket_def gives_def Let_def split: prod.splits)

lemma close_gives [simp]: "gives nt (Some s) nt1 \<Longrightarrow> nt_open nt2 = nt_open nt1 \<Longrightarrow> gives nt None (close_native s nt2)"
  by (simp add: gives_def close_native_def)

lemma gives_trans: "gives nt None nt1 \<Longrightarrow> gives nt1 g nt2 \<Longrightarrow> gives nt g nt2"
  by (simp add: gives_def split: option.splits)

lemma gives_same: "gives nt g nt1 \<Longrightarrow> nt_open nt2 = nt_open nt1 \<Longrightarrow> gives nt g nt2"
  by (simp add: gives_def)

lemma bind_listen_open: "bind_listen os s addr nt = (b, nt1) \<Longrightarrow> nt_open nt1 = nt_open nt"
  by (auto simp: bind_listen_def Let_def split: prod.splits if_splits dest!: on_kernel_open)

lemma try_connect_open: "try_connect os s addr nt = (b, nt1) \<Longrightarrow> nt_open nt1 = nt_open nt"
  unfolding try_connect_def by (rule on_kernel_open)

definition given_socket :: "int \<Rightarrow> int option" where
  "given_socket s = (if s = kInvalidSocket then None else Some s)"

lemma first_socket_gives:
  assumes "\<And>s addr nt b nt1. attempt s addr nt = (b, nt1) \<Longrightarrow> nt_open nt1 = nt_open nt"
  shows "first_socket os attempt as nt = (s, nt1) \<Longrightarrow> gives nt (given_socket s) nt1"
proof (induction as arbitrary: nt)
  case Nil
  then show ?case by (simp add: gives_def given_socket_def)
next
  case (Cons a as)
  obtain r v where r: "open_socket os (AddrIp a) nt = (r, v)" by (cases "open_socket os (AddrIp a) nt")
  obtain b u where b: "attempt r (AddrIp a) v = (b, u)" by (cases "attempt r (AddrIp a) v")
  note g = open_socket_gives [OF r] and o1 = assms [OF b]
  consider "r = kInvalidSocket" | "r \<noteq> kInvalidSocket" "b" | "r \<noteq> kInvalidSocket" "\<not> b" by blast
  then show ?case
  proof cases
    case 1
    then have "gives nt None v" using g by simp
    then show ?thesis using Cons.IH [of v] Cons.prems gives_trans 1 by (simp add: r)
  next
    case 2
    then show ?thesis using g o1 gives_same Cons.prems by (auto simp: r b given_socket_def)
  next
    case 3
    then have "gives nt None (close_native r u)" using g o1 by simp
    then show ?thesis using Cons.IH [of "close_native r u"] Cons.prems gives_trans 3 by (simp add: r b)
  qed
qed

text \<open>The one socket of the other transports.\<close>

lemma single_socket_gives:
  assumes "open_socket os addr nt = (s, nt1)" and "nt_open nt2 = nt_open nt1" and "s \<noteq> kInvalidSocket"
  shows "gives nt (Some s) nt2" "gives nt None (close_native s nt2)"
  using open_socket_gives [OF assms(1)] assms(2,3) gives_same by auto

lemma connect_tcp_gives:
  assumes "connect_tcp os ep nt = (r, nt1)"
  shows "gives nt (case r of Inl e \<Rightarrow> None | Inr s \<Rightarrow> Some s) nt1"
proof (cases "os_getaddrinfo os False (ep_host ep) (to_string (unat (ep_port ep))) (nt_kernel nt)")
  case (Some as)
  obtain s v where f: "first_socket os (try_connect os) as nt = (s, v)" by (cases "first_socket os (try_connect os) as nt")
  show ?thesis using first_socket_gives [OF try_connect_open f] assms Some f
    by (auto simp: connect_tcp_def given_socket_def gives_def split: if_splits)
qed (use assms in \<open>auto simp: connect_tcp_def gives_def\<close>)

lemma connect_one_gives:
  assumes "connect_one os a nt = (r, nt1)"
  shows "gives nt (case r of Inl e \<Rightarrow> None | Inr s \<Rightarrow> Some s) nt1"
proof -
  obtain s v where s: "open_socket os a nt = (s, v)" by (cases "open_socket os a nt")
  obtain b u where b: "try_connect os s a v = (b, u)" by (cases "try_connect os s a v")
  show ?thesis using assms s b single_socket_gives [OF s try_connect_open [OF b]] open_socket_gives [OF s]
    by (auto simp: connect_one_def Let_def split: if_splits)
qed

lemma connect_gives:
  "net_connect os ep nt = (r, nt1) \<Longrightarrow> gives nt (case r of Inl e \<Rightarrow> None | Inr s \<Rightarrow> Some s) nt1"
  "net_connect_win os ep nt = (r, nt1) \<Longrightarrow> gives nt (case r of Inl e \<Rightarrow> None | Inr s \<Rightarrow> Some s) nt1"
  by (auto simp: net_connect_def net_connect_win_def connect_tcp_gives connect_one_gives
    split: EndpointKind.splits if_splits option.splits)

lemma bind_tcp_gives:
  assumes "bind_tcp os ep nt = (r, nt1)"
  shows "gives nt (case r of Inl e \<Rightarrow> None | Inr l \<Rightarrow> Some (ls_socket l)) nt1"
proof (cases "os_getaddrinfo os True (ep_host ep) (to_string (unat (ep_port ep))) (nt_kernel nt)")
  case (Some as)
  obtain s v where f: "first_socket os (bind_listen os) as nt = (s, v)" by (cases "first_socket os (bind_listen os) as nt")
  show ?thesis using first_socket_gives [OF bind_listen_open f] assms Some f
    by (auto simp: bind_tcp_def given_socket_def gives_def Let_def split: if_splits)
qed (use assms in \<open>auto simp: bind_tcp_def gives_def\<close>)

lemma bind_one_gives:
  assumes "bind_one os ep a nt = (r, nt1)"
  shows "gives nt (case r of Inl e \<Rightarrow> None | Inr l \<Rightarrow> Some (ls_socket l)) nt1"
proof -
  obtain s v where s: "open_socket os a nt = (s, v)" by (cases "open_socket os a nt")
  obtain b u where b: "bind_listen os s a v = (b, u)" by (cases "bind_listen os s a v")
  show ?thesis using assms s b single_socket_gives [OF s bind_listen_open [OF b]] open_socket_gives [OF s]
    by (auto simp: bind_one_def Let_def split: if_splits)
qed

lemma bind_gives:
  "Listener_bind os ep nt = (r, nt1) \<Longrightarrow> gives nt (case r of Inl e \<Rightarrow> None | Inr l \<Rightarrow> Some (ls_socket l)) nt1"
  "Listener_bind_win os ep nt = (r, nt1) \<Longrightarrow> gives nt (case r of Inl e \<Rightarrow> None | Inr l \<Rightarrow> Some (ls_socket l)) nt1"
  by (auto simp: Listener_bind_def Listener_bind_win_def bind_tcp_gives bind_one_gives
    split: EndpointKind.splits if_splits option.splits)

lemma accept_loop_gives:
  "accept_loop n os l nt = Some (r, nt1) \<Longrightarrow> gives nt (case r of Inl e \<Rightarrow> None | Inr s \<Rightarrow> Some s) nt1"
proof (induction n arbitrary: nt)
  case (Suc n)
  obtain x v where x: "on_kernel (os_accept os l) nt = (x, v)" by (cases "on_kernel (os_accept os l) nt")
  note o1 = on_kernel_open [OF x]
  show ?case using Suc.prems Suc.IH [of v] o1
    by (auto simp: x gives_def split: sum.splits if_splits)
qed simp

lemma Listener_accept_gives:
  assumes "Listener_accept n os l nt = Some (r, nt1)"
  shows "gives nt (case r of Inl e \<Rightarrow> None | Inr s \<Rightarrow> Some s) nt1"
proof (cases "accept_loop n os (ls_socket l) nt")
  case None
  then show ?thesis using assms by (auto simp: Listener_accept_def gives_def split: if_splits)
next
  case (Some x)
  obtain y v where x: "x = (y, v)" by (cases x)
  show ?thesis using assms accept_loop_gives [OF Some [unfolded x]] Some x
    by (auto simp: Listener_accept_def gives_def split: if_splits sum.splits)
qed

lemma Listener_accept_for_gives:
  assumes "Listener_accept_for n os timeout l nt = Some (r, nt1)"
  shows "gives nt (case r of Inl e \<Rightarrow> None | Inr s \<Rightarrow> Some s) nt1"
proof -
  obtain q v where q: "on_kernel (os_select os (ls_socket l) timeout) nt = (q, v)" by (cases "on_kernel (os_select os (ls_socket l) timeout) nt")
  have "gives v (case r of Inl e \<Rightarrow> None | Inr s \<Rightarrow> Some s) nt1 \<or> r = fail Timeout \<and> nt1 = v \<or> r = fail ConnectionClosed \<and> (nt1 = v \<or> nt1 = nt)"
    using assms q Listener_accept_gives [of n os l v r nt1] by (auto simp: Listener_accept_for_def Let_def split: if_splits)
  then show ?thesis using on_kernel_open [OF q] by (auto simp: gives_def split: sum.splits)
qed

text \<open>
  No descriptor is lost on the way.  Whatever the kernel answers, on either platform, a connection, a listener or an accepted
  connection that is given out is one descriptor more than before, and every failure, after however many attempts at however
  many addresses, leaves exactly the descriptors that were open.
\<close>

theorem sockets_never_leak:
  "(case (if win then net_connect_win os ep nt else net_connect os ep nt) of
      (r, nt1) \<Rightarrow> gives nt (case r of Inl e \<Rightarrow> None | Inr s \<Rightarrow> Some s) nt1) \<and>
   (case (if win then Listener_bind_win os ep nt else Listener_bind os ep nt) of
      (r, nt1) \<Rightarrow> gives nt (case r of Inl e \<Rightarrow> None | Inr l \<Rightarrow> Some (ls_socket l)) nt1) \<and>
   (case Listener_accept_for n os timeout l nt of
      None \<Rightarrow> True
    | Some (r, nt1) \<Rightarrow> gives nt (case r of Inl e \<Rightarrow> None | Inr s \<Rightarrow> Some s) nt1)"
  using connect_gives [of os ep nt] bind_gives [of os ep nt] Listener_accept_for_gives [of n os timeout l nt]
  by (auto split: prod.split option.split)

end
