(* ===== verification/WinTools.thy ===== *)
theory WinTools
  imports Tools NetSetup
begin

text \<open>
  The Windows side of the programs: \<open>WslAgent\<close> of \<open>src/platform/win/wsl_launch.cpp\<close>, the mount command of
  \<open>src/tools/wsldrive_main.cpp\<close> in its Windows branch, the commands \<open>doctor\<close> and \<open>probe-transport\<close>, and the windowless
  launcher \<open>src/tools/wsldrivew_main.cpp\<close>.

  Starting a process, the registry and the output of other programs are arguments.  A launched agent keeps the list of the
  calls it has made.
\<close>

section \<open>The agent in the distribution\<close>

datatype ProcCall = SetVariable bytes bytes | CreateProcess bytes | Terminate

record WslAgent =
  wa_running :: bool
  wa_spec :: WslAgentSpec
  wa_calls :: "ProcCall list"

text \<open>\<open>created\<close> is the answer of \<open>CreateProcessW\<close>, \<open>existing\<close> the variable \<open>WSLENV\<close>.\<close>

definition WslAgent_start :: "bool \<Rightarrow> bytes option \<Rightarrow> WslAgentSpec \<Rightarrow> WslAgent \<Rightarrow> unit result \<times> WslAgent" where
  "WslAgent_start created existing spec w =
    (let vars = (if ws_token spec = [] then []
                 else [SetVariable (lit ''WSLDRIVE_TOKEN'') (ws_token spec), SetVariable (lit ''WSLENV'') (wslenv_for_distro existing)]);
         w1 = w\<lparr>wa_spec := spec, wa_calls := wa_calls w @ vars @ [CreateProcess (build_wsl_command spec)]\<rparr>
     in if \<not> created then (fail IoError, w1) else (ok (), w1\<lparr>wa_running := True\<rparr>))"

definition kill_pattern :: "u32 \<Rightarrow> bytes" where
  "kill_pattern port = lit ''wsldrived.*:'' @ to_string (unat port)"

definition kill_command :: "WslAgentSpec \<Rightarrow> bytes" where
  "kill_command spec =
    lit ''wsl.exe'' @ (if ws_distro spec = [] then [] else lit '' -d '' @ ws_distro spec) @ lit '' -- pkill -f '' @
    sh_quote (kill_pattern (ws_port spec))"

definition WslAgent_stop :: "WslAgent \<Rightarrow> WslAgent" where
  "WslAgent_stop w =
    (if \<not> wa_running w then w
     else w\<lparr>wa_running := False, wa_calls := wa_calls w @ [CreateProcess (kill_command (wa_spec w)), Terminate]\<rparr>)"

section \<open>The mount command on Windows\<close>

datatype WinMountPlan =
    WinStop Stop
  | WinListen Endpoint bytes "WslAgentSpec option"
  | WinConnect Endpoint nat bytes "WslAgentSpec option"

text \<open>
  Launching the agent: the distribution has to be ready, the secret is fresh, and the Hyper-V transport needs the identifier of
  the machine.  The result is the endpoint to dial and what was started.
\<close>

definition launch_agent ::
  "(nat \<Rightarrow> nat \<Rightarrow> bytes) \<Rightarrow> bytes option \<Rightarrow> bool \<Rightarrow> bool \<Rightarrow> MountArgs \<Rightarrow> Stop + (bytes \<times> WslAgentSpec)" where
  "launch_agent getrandom hcsdiag wsl_ready created a =
    (if ma_wsl_root a = [] then Inl (ExitCode 2)
     else if \<not> wsl_ready then Inl (ExitCode 1)
     else
       let port = (if ma_hvsocket a \<and> ma_port a = 51789 then 5700 else ma_port a);
           token = generate_auth_token getrandom;
           ps = to_string (unat port);
           spec = \<lparr>ws_distro = ma_distro a, ws_agent_path = ma_agent_path a, ws_wsl_root = ma_wsl_root a, ws_port = port,
                   ws_listen = [], ws_token = token\<rparr> in
       if token = [] then Inl (ExitCode 1)
       else if ma_hvsocket a then
         let guid = (if ma_vm_guid a = [] then discover_wsl_vm_guid hcsdiag else ma_vm_guid a)
         in if guid = [] then Inl (ExitCode 2)
            else if \<not> created then Inl (ExitCode 1)
            else Inr (lit ''hv://{'' @ guid @ lit ''}:'' @ ps, spec\<lparr>ws_listen := lit ''vsock://any:'' @ ps\<rparr>)
       else if \<not> created then Inl (ExitCode 1)
       else Inr (lit ''tcp://127.0.0.1:'' @ ps, spec))"

text \<open>From the endpoints to the plan: listening goes first, a launched agent is dialled up to 300 times.\<close>

definition dial_plan :: "bytes \<Rightarrow> bytes \<Rightarrow> nat \<Rightarrow> bytes \<Rightarrow> WslAgentSpec option \<Rightarrow> WinMountPlan" where
  "dial_plan listen dial attempts token launched =
    (if listen \<noteq> [] then
       (case Endpoint_parse listen of Inl e \<Rightarrow> WinStop (ExitCode 2) | Inr ep \<Rightarrow> WinListen ep token launched)
     else
       (case Endpoint_parse dial of Inl e \<Rightarrow> WinStop (ExitCode 2) | Inr ep \<Rightarrow> WinConnect ep attempts token launched))"

definition mount_plan_win ::
  "(bytes \<Rightarrow> bytes option) \<Rightarrow> (nat \<Rightarrow> nat \<Rightarrow> bytes) \<Rightarrow> bytes option \<Rightarrow> bool \<Rightarrow> bool \<Rightarrow> MountArgs \<Rightarrow> WinMountPlan" where
  "mount_plan_win getenv getrandom hcsdiag wsl_ready created a =
    (if ma_have_distro a then
       (case launch_agent getrandom hcsdiag wsl_ready created a of
          Inl s \<Rightarrow> WinStop s
        | Inr (dial, spec) \<Rightarrow> dial_plan (ma_listen a) dial 300 (ws_token spec) (Some spec))
     else if ma_connect a = [] \<and> ma_listen a = [] \<and> ma_win_root a = [] then WinStop (ExitCode 2)
     else dial_plan (ma_listen a) (ma_connect a) 1 (auth_token_from_env getenv) None)"

section \<open>The transport probe\<close>

text \<open>Times are in nanoseconds; a sample is \<open>None\<close> when the connection failed.\<close>

definition kFastLoopbackNs :: int where "kFastLoopbackNs = 5000000"

definition take_samples :: "int option list \<Rightarrow> int list" where
  "take_samples samples = map the (takeWhile (\<lambda>x. x \<noteq> None) (take 20 samples))"

definition median_rtt :: "int list \<Rightarrow> int option" where
  "median_rtt rtt = (if length rtt \<ge> 5 then Some (sort rtt ! (length rtt div 2)) else None)"

definition probe_loopback_rtt :: "bool \<Rightarrow> bool \<Rightarrow> int option list \<Rightarrow> int option" where
  "probe_loopback_rtt bound accepted samples =
    (if \<not> bound then None else if \<not> accepted then None else median_rtt (take_samples samples))"

fun probe_options :: "bytes list \<Rightarrow> bytes \<Rightarrow> Stop + bytes" where
  "probe_options [] distro = Inr distro"
| "probe_options [x] distro = Inl (ExitCode 2)"
| "probe_options (x # v # xs) distro =
    (if x = lit ''--distro'' then probe_options xs v else Inl (ExitCode 2))"

definition probe_command :: "bytes list \<Rightarrow> (bytes \<Rightarrow> int option) \<Rightarrow> int" where
  "probe_command args rtt_of =
    (case probe_options args [] of
       Inl s \<Rightarrow> 2
     | Inr distro \<Rightarrow> (case rtt_of distro of None \<Rightarrow> 2 | Some t \<Rightarrow> if t < kFastLoopbackNs then 0 else 1))"

section \<open>The doctor\<close>

record DoctorArgs =
  da_distro :: bytes
  da_port :: int
  da_check_hv :: bool
  da_probe :: bool
  da_pause :: bool

definition DoctorArgs_init :: DoctorArgs where
  "DoctorArgs_init = \<lparr>da_distro = [], da_port = 0, da_check_hv = False, da_probe = False, da_pause = False\<rparr>"

text \<open>\<open>std::atoi\<close> within the range of its result.\<close>

definition atoi :: "bytes \<Rightarrow> int" where
  "atoi s = (let (neg, r) = split_sign s; v = int (digits_value (takeWhile is_digit r)) in if neg then - v else v)"

fun doctor_options :: "bytes list \<Rightarrow> DoctorArgs \<Rightarrow> Stop + DoctorArgs" where
  "doctor_options [] d = Inr d"
| "doctor_options (x # xs) d =
    (if x = lit ''--distro'' \<and> xs \<noteq> [] then doctor_options (tl xs) (d\<lparr>da_distro := hd xs\<rparr>)
     else if x = lit ''--port'' \<and> xs \<noteq> [] then doctor_options (tl xs) (d\<lparr>da_port := atoi (hd xs)\<rparr>)
     else if x = lit ''--hvsocket'' then doctor_options xs (d\<lparr>da_check_hv := True\<rparr>)
     else if x = lit ''--probe-transport'' then doctor_options xs (d\<lparr>da_probe := True\<rparr>)
     else if x = lit ''--pause'' then doctor_options xs (d\<lparr>da_pause := True\<rparr>)
     else Inl (ExitCode 2))"

text \<open>
  The machine as the doctor sees it: whether the program was built with WinFsp, whether its runtime is installed, whether
  \<open>wsl.exe\<close> is found, the exit codes of commands, the registry keys of the Hyper-V services, and which
  endpoints can be bound.
\<close>

record Machine =
  mc_winfsp_built :: bool
  mc_winfsp_runtime :: bool
  mc_wsl_on_path :: bool
  mc_run :: "bytes \<Rightarrow> int"
  mc_service_key :: "bytes \<Rightarrow> bool"
  mc_can_bind :: "Endpoint \<Rightarrow> bool"

text \<open>\<open>%08X\<close>.\<close>

definition upper_hex_digit :: "nat \<Rightarrow> u8" where
  "upper_hex_digit n = lit ''0123456789ABCDEF'' ! n"

primrec hex_digits :: "nat \<Rightarrow> nat \<Rightarrow> bytes" where
  "hex_digits 0 v = []"
| "hex_digits (Suc k) v = hex_digits k (v div 16) @ [upper_hex_digit (v mod 16)]"

definition service_key :: "u32 \<Rightarrow> bytes" where
  "service_key p = hex_digits 8 (unat p) @ lit ''-facb-11e6-bd58-64006a7986d3''"

definition first_port :: "DoctorArgs \<Rightarrow> int" where
  "first_port d = (if da_port d \<noteq> 0 then da_port d else 5700)"

definition registered_count :: "Machine \<Rightarrow> int \<Rightarrow> nat" where
  "registered_count mc p0 = length (filter (\<lambda>k. mc_service_key mc (service_key (of_int (p0 + int k)))) [0..<10])"

definition signed_string :: "int \<Rightarrow> bytes" where
  "signed_string v = (if v < 0 then 0x2D # to_string (nat (- v)) else to_string (nat v))"

definition port_free :: "Machine \<Rightarrow> int \<Rightarrow> bool" where
  "port_free mc p =
    (case Endpoint_parse (lit ''tcp://127.0.0.1:'' @ signed_string p) of Inl e \<Rightarrow> False | Inr ep \<Rightarrow> mc_can_bind mc ep)"

definition fault :: "bool \<Rightarrow> nat" where
  "fault good = (if good then 0 else 1)"

definition doctor_problems :: "Machine \<Rightarrow> DoctorArgs \<Rightarrow> nat" where
  "doctor_problems mc d =
    fault (mc_winfsp_built mc) +
    fault (mc_winfsp_runtime mc) +
    fault (mc_wsl_on_path mc) +
    fault (mc_run mc (lit ''wsl.exe -e true'') = 0) +
    (if da_distro d \<noteq> [] then fault (mc_run mc (lit ''wsl.exe -d '' @ da_distro d @ lit '' -e true'') = 0) else 0) +
    (if da_check_hv d then fault (registered_count mc (first_port d) = 10) else 0) +
    (if da_port d \<noteq> 0 then fault (port_free mc (da_port d)) else 0)"

definition doctor :: "Machine \<Rightarrow> bytes list \<Rightarrow> int" where
  "doctor mc args =
    (case doctor_options args DoctorArgs_init of
       Inl s \<Rightarrow> 2
     | Inr d \<Rightarrow> if doctor_problems mc d = 0 then 0 else 1)"

section \<open>The windowless launcher\<close>

text \<open>\<open>run\<close> starts a command and waits for it: its exit code, \<open>None\<close> when it could not be started.\<close>

definition wWinMain :: "bytes \<Rightarrow> (bytes \<Rightarrow> int option) \<Rightarrow> int" where
  "wWinMain cmd run1 = (if cmd = [] then 2 else case run1 cmd of None \<Rightarrow> 1 | Some code1 \<Rightarrow> code1)"

end
