(* ===== verification/WinToolsProps.thy ===== *)
theory WinToolsProps
  imports WinTools ToolsProps
begin

text \<open>
  The guarantees of the Windows side: a mount that launches the agent dials exactly where the agent was told to listen, and
  with the identifier it found itself the dialling does not fail for its form; the doctor's verdict covers
  the very services the listeners use; the probe answers with a median.
\<close>

section \<open>Identifiers that were found\<close>

lemma first_guid_shape: "first_guid s \<noteq> [] \<Longrightarrow> guid_at (first_guid s) \<and> length (first_guid s) = 36"
proof (induction s rule: first_guid.induct)
  case (1 s)
  show ?case
  proof (cases "guid_at s")
    case True
    then have "first_guid s = take 36 s" by (simp add: first_guid.simps [of s])
    then show ?thesis using True by (auto simp: guid_at_def list_all_iff)
  next
    case False
    then have "first_guid s = (case s of [] \<Rightarrow> [] | ch # rest \<Rightarrow> first_guid rest)" by (subst first_guid.simps) simp
    then show ?thesis using 1 False by (cases s) auto
  qed
qed

lemma pick_guid_shape:
  "pick_guid ls g \<noteq> [] \<Longrightarrow> (g \<noteq> [] \<longrightarrow> guid_at g \<and> length g = 36) \<Longrightarrow> guid_at (pick_guid ls g) \<and> length (pick_guid ls g) = 36"
  by (induction ls g rule: pick_guid.induct) (auto simp: Let_def first_guid_shape split: if_splits)

lemma discovered_guid_shape:
  "discover_wsl_vm_guid out \<noteq> [] \<Longrightarrow> guid_at (discover_wsl_vm_guid out) \<and> length (discover_wsl_vm_guid out) = 36"
  by (auto simp: discover_wsl_vm_guid_def pick_guid_shape split: option.splits)

lemma guid_no_zero:
  assumes "guid_at g" and "length g = 36" and "ch \<in> set g"
  shows "ch \<noteq> 0"
proof -
  obtain j where j: "j < 36" "ch = g ! j" using assms(2,3) by (metis in_set_conv_nth)
  then have "guid_char j ch" using assms(1) by (auto simp: guid_at_def list_all_iff)
  then show ?thesis using hex_is_plain(6) by (auto simp: guid_char_def split: if_splits)
qed

lemma braced_guid_parses:
  assumes "guid_at g" and "length g = 36"
  shows "parse_guid (0x7B # g @ [0x7D]) \<noteq> None"
proof -
  have "strip_braces (0x7B # g @ [0x7D]) = g" by (simp add: strip_braces_def)
  moreover have "takeWhile (\<lambda>ch. ch \<noteq> 0) g = g" using guid_no_zero [OF assms] by (auto simp: takeWhile_eq_all_conv)
  ultimately show ?thesis using guid_scans [OF assms(1)] assms(2) unfolding parse_guid_def Let_def by (auto simp del: takeWhile_eq_all_conv)
qed

lemma parse_dialled_machine:
  "Endpoint_parse (lit ''hv://{'' @ g @ lit ''}:'' @ to_string (unat p)) =
    ok (Endpoint_init\<lparr>ep_kind := HyperV, ep_vm_id := 0x7B # g @ [0x7D], ep_port := p\<rparr>)"
proof -
  have h: "lit ''hv://{'' @ g @ lit ''}:'' @ to_string (unat p) = lit ''hv://'' @ ((0x7B # g @ [0x7D]) @ [colon]) @ to_string (unat p)" by simp
  show ?thesis unfolding h using parse_hv_printed [of "0x7B # g @ [0x7D]" p] by (subst Endpoint_parse_scheme(3)) simp_all
qed

section \<open>Both ends meet\<close>

text \<open>
  C25. A Windows mount that launches its agent dials where the agent listens.  The secret is freshly generated and is the one
  handed to the agent.  The endpoint in the agent's command line survives the shell, and is for TCP the very endpoint that is
  dialled, on the loopback interface; for the Hyper-V transport it is the dialled port inside the machine that is dialled, whose
  identifier, where the command found it itself, is well-formed.
\<close>

theorem direction_a_ends_meet:
  assumes "mount_plan_win getenv getrandom hcsdiag wsl_ready created a = WinConnect ep n token (Some spec)"
  shows "token = generate_auth_token getrandom \<and> token \<noteq> [] \<and> ws_token spec = token \<and> list_all sh_plain (ws_listen spec) \<and>
    (if ma_hvsocket a
     then ep_kind ep = HyperV \<and> (ma_vm_guid a = [] \<longrightarrow> parse_guid (ep_vm_id ep) \<noteq> None) \<and>
       Endpoint_parse (launch_words spec ! 4) = ok (Endpoint_init\<lparr>ep_kind := Vsock, ep_cid := 0xFFFFFFFF, ep_port := ep_port ep\<rparr>)
     else ep_kind ep = Tcp \<and> ep_host ep = lit ''127.0.0.1'' \<and> Endpoint_parse (launch_words spec ! 4) = ok ep)"
proof -
  let ?p = "if ma_hvsocket a \<and> ma_port a = 51789 then 5700 else ma_port a"
  obtain dial where l: "launch_agent getrandom hcsdiag wsl_ready created a = Inr (dial, spec)" and t: "token = ws_token spec"
    and e: "Endpoint_parse dial = Inr ep"
    using assms by (auto simp: mount_plan_win_def dial_plan_def split: if_splits sum.splits)
  have fresh: "ws_token spec = generate_auth_token getrandom" "ws_token spec \<noteq> []"
    using l by (auto simp: launch_agent_def Let_def split: if_splits)
  show ?thesis
  proof (cases "ma_hvsocket a")
    case True
    let ?g = "if ma_vm_guid a = [] then discover_wsl_vm_guid hcsdiag else ma_vm_guid a"
    have d: "dial = lit ''hv://{'' @ ?g @ lit ''}:'' @ to_string (unat ?p)" "ws_listen spec = lit ''vsock://any:'' @ to_string (unat ?p)" "?g \<noteq> []"
      using l True by (auto simp: launch_agent_def Let_def split: if_splits)
    have ep: "ep = Endpoint_init\<lparr>ep_kind := HyperV, ep_vm_id := 0x7B # ?g @ [0x7D], ep_port := ?p\<rparr>"
      using e parse_dialled_machine [of ?g ?p] unfolding d(1) by simp
    have g: "parse_guid (ep_vm_id ep) \<noteq> None" if "ma_vm_guid a = []"
      using ep d(3) that braced_guid_parses discovered_guid_shape [of hcsdiag] by simp
    have "launch_words spec ! 4 = lit ''vsock://any:'' @ to_string (unat ?p)" by (simp add: launch_words_def d(2) eval_nat_numeral)
    moreover have "list_all sh_plain (ws_listen spec)" using digits_plain by (simp add: d(2) sh_plain_def is_digit_def)
    ultimately show ?thesis using True t fresh ep g parse_any_vsock [of ?p] by simp
  next
    case False
    have d: "dial = lit ''tcp://127.0.0.1:'' @ to_string (unat ?p)" "ws_listen spec = []" "ws_port spec = ?p"
      using l False by (auto simp: launch_agent_def Let_def split: if_splits)
    then have "launch_words spec ! 4 = dial" by (simp add: launch_words_def eval_nat_numeral)
    moreover have "ep_kind ep = Tcp \<and> ep_host ep = lit ''127.0.0.1''"
      using e parse_loopback [of ?p] unfolding d(1) by (auto split: if_splits)
    ultimately show ?thesis using False t fresh e d(2) by simp
  qed
qed

theorem direction_a_ends_meet_witness:
  "\<exists>ep token spec. mount_plan_win (\<lambda>name. None) (\<lambda>k n. replicate n 7) None True True
      (MountArgs_init\<lparr>ma_have_distro := True, ma_wsl_root := lit ''/home''\<rparr>) = WinConnect ep 300 token (Some spec) \<and>
    ep_host ep = lit ''127.0.0.1'' \<and> Endpoint_parse (launch_words spec ! 4) = ok ep"
proof -
  let ?a = "MountArgs_init\<lparr>ma_have_distro := True, ma_wsl_root := lit ''/home''\<rparr>" and ?r = "\<lambda>k n. replicate n (7 :: u8)"
  have g: "generate_auth_token ?r \<noteq> []" using generated_token_shape [of ?r] by auto
  have f: "ma_have_distro ?a" "\<not> ma_hvsocket ?a" "ma_port ?a = 51789" "ma_wsl_root ?a = lit ''/home''" "ma_listen ?a = []"
    by (simp_all add: MountArgs_init_def)
  have "\<exists>ep token spec. mount_plan_win (\<lambda>name. None) ?r None True True ?a = WinConnect ep 300 token (Some spec)"
    using g f parse_loopback [of 51789] unfolding mount_plan_win_def launch_agent_def dial_plan_def by (simp add: Let_def)
  then obtain ep token spec where p: "mount_plan_win (\<lambda>name. None) ?r None True True ?a = WinConnect ep 300 token (Some spec)" by blast
  show ?thesis using p direction_a_ends_meet [OF p] f(2) by auto
qed

section \<open>The doctor\<close>

lemma upper_hex_digit_value: "n < 16 \<Longrightarrow> hex_value (upper_hex_digit n) = Some n"
  by (drule nibble_cases) (auto simp: upper_hex_digit_def hex_value_def)

lemma hex_digits_value: "v < 16 ^ k \<Longrightarrow> hex_number (hex_digits k v) = v \<and> list_all is_hex (hex_digits k v) \<and> length (hex_digits k v) = k"
proof (induction k arbitrary: v)
  case (Suc k)
  have "v div 16 < 16 ^ k" using Suc.prems by (simp add: less_mult_imp_div_less mult.commute)
  then show ?case using Suc.IH [of "v div 16"] upper_hex_digit_value [of "v mod 16"]
    by (simp add: hex_number_def is_hex_value)
qed (simp add: hex_number_def)

lemma service_key_parses: "parse_guid (service_key p) = Some (vsock_service_id p)"
proof -
  let ?h = "hex_digits 8 (unat p)" and ?r = "lit ''-facb-11e6-bd58-64006a7986d3''"
  have "unat p < 16 ^ 8" using unsigned_less [of p] by simp
  note h = hex_digits_value [OF this]
  have f: "hd ?h \<noteq> 0x7B" "?h \<noteq> []" "list_all (\<lambda>ch. ch \<noteq> 0) ?h"
    using h hex_is_plain by (cases ?h; auto simp: list_all_iff)+
  have b: "strip_braces (?h @ ?r) = ?h @ ?r" using f by (simp add: strip_braces_def)
  have z: "takeWhile (\<lambda>ch. ch \<noteq> 0) (?h @ ?r) = ?h @ ?r" using f(3) by (simp add: list_all_iff takeWhile_append2)
  have s: "scan_hex 8 (?h @ ?r) = Some (p, ?r)" using scan_hex_run [of 8 "?h @ ?r"] h by simp
  have rest: "sscanf (tl guid_format) ?r = Some [0xFACB, 0x11E6, 0xBD, 0x58, 0x64, 0x00, 0x6A, 0x79, 0x86, 0xD3]"
    by (simp add: guid_format_def scan_hex_def scan_unsigned_def scan_digits_def hex_number_def hex_value_def is_hex_def is_space_def Let_def)
  have "sscanf guid_format (?h @ ?r) = Some [p, 0xFACB, 0x11E6, 0xBD, 0x58, 0x64, 0x00, 0x6A, 0x79, 0x86, 0xD3]"
    unfolding guid_format_def sscanf.simps(2) s using rest [unfolded guid_format_def] by simp
  then show ?thesis using h unfolding parse_guid_def service_key_def b z Let_def by (simp add: vsock_service_id_def)
qed

lemma all_registered:
  assumes "registered_count mc p0 = 10" and "k < 10"
  shows "mc_service_key mc (service_key (of_int (p0 + int k)))"
proof (rule ccontr)
  assume n: "\<not> ?thesis"
  have "length (filter (\<lambda>k. mc_service_key mc (service_key (of_int (p0 + int k)))) [0..<10]) < length [0..<10]"
    by (rule length_filter_less [of k]) (use n assms(2) in auto)
  then show False using assms(1) by (simp add: registered_count_def)
qed

text \<open>A number that is no 16-bit port, a negative one included, is no endpoint.\<close>

lemma parse_u32_sign: "parse_u32 (0x2D # s) = None"
  by (simp add: parse_u32_def from_chars_u32_def is_digit_def)

lemma parse_u32_number:
  assumes "parse_u32 (to_string n) = Some q"
  shows "unat q = n"
proof -
  have d: "takeWhile is_digit (to_string n) = to_string n" "dropWhile is_digit (to_string n) = []"
    using to_string_is_digit by (auto simp: takeWhile_eq_all_conv dropWhile_eq_Nil_conv)
  have "n < 2 ^ 32 \<and> q = of_nat n" using assms unfolding parse_u32_def from_chars_u32_def Let_def d by (auto split: if_splits)
  then show ?thesis by (simp add: unat_of_nat take_bit_eq_mod)
qed

lemma free_port_binds:
  assumes "port_free mc p"
  shows "\<exists>ep. ep_kind ep = Tcp \<and> ep_host ep = lit ''127.0.0.1'' \<and> int (unat (ep_port ep)) = p \<and> mc_can_bind mc ep"
proof -
  let ?t = "lit ''127.0.0.1'' @ colon # signed_string p"
  have h: "lit ''tcp://127.0.0.1:'' @ signed_string p = lit ''tcp://'' @ ?t" by simp
  have c: "colon \<notin> set (signed_string p)" using colon_not_digit by (auto simp: signed_string_def)
  have e: "Endpoint_parse (lit ''tcp://127.0.0.1:'' @ signed_string p) = parse_tcp ?t" unfolding h by (rule Endpoint_parse_scheme(1)) simp
  have r: "rfind_char colon ?t = Some 9" using rfind_char_last [OF c, of "lit ''127.0.0.1''"] by simp
  obtain ep where ep: "parse_tcp ?t = Inr ep" "mc_can_bind mc ep"
    using assms unfolding port_free_def e by (auto split: sum.splits)
  obtain q where q: "parse_u32 (signed_string p) = Some q" "ep = Endpoint_init\<lparr>ep_kind := Tcp, ep_host := lit ''127.0.0.1'', ep_port := q\<rparr>"
    using ep(1) unfolding parse_tcp_def r by (auto simp: Let_def split: option.splits if_splits)
  have "0 \<le> p" using q(1) parse_u32_sign by (auto simp: signed_string_def split: if_splits)
  then have "parse_u32 (to_string (nat p)) = Some q" using q(1) by (simp add: signed_string_def)
  then have "unat q = nat p" by (rule parse_u32_number)
  then show ?thesis using \<open>0 \<le> p\<close> q(2) ep(2) by (intro exI [of _ ep]) simp
qed

text \<open>
  A clean bill from the doctor covers what a mount needs.  When the doctor finds nothing wrong, the program has WinFsp and
  finds its runtime and \<open>wsl.exe\<close>, commands run in the default distribution and in the one that was named, the port that was
  named can be bound on the loopback interface, and for each of the ten ports in question the very
  service a Hyper-V socket of that port uses is registered.
\<close>

theorem doctor_verdict_sound:
  assumes "doctor mc args = 0" and "doctor_options args DoctorArgs_init = Inr d"
  shows "mc_winfsp_built mc \<and> mc_winfsp_runtime mc \<and> mc_wsl_on_path mc \<and> mc_run mc (lit ''wsl.exe -e true'') = 0 \<and>
    (da_distro d \<noteq> [] \<longrightarrow> mc_run mc (lit ''wsl.exe -d '' @ da_distro d @ lit '' -e true'') = 0) \<and>
    (da_port d \<noteq> 0 \<longrightarrow> (\<exists>ep. ep_kind ep = Tcp \<and> ep_host ep = lit ''127.0.0.1'' \<and> int (unat (ep_port ep)) = da_port d \<and> mc_can_bind mc ep)) \<and>
    (da_check_hv d \<and> k < 10 \<longrightarrow> (\<exists>key. mc_service_key mc key \<and> parse_guid key = Some (vsock_service_id (of_int (first_port d + int k)))))"
proof -
  have p: "doctor_problems mc d = 0" using assms by (simp add: doctor_def split: if_splits)
  have hv: "\<exists>key. mc_service_key mc key \<and> parse_guid key = Some (vsock_service_id (of_int (first_port d + int k)))"
    if "da_check_hv d" "k < 10"
    using p that all_registered [of mc "first_port d" k] service_key_parses [of "of_int (first_port d + int k)"]
    by (auto simp: doctor_problems_def fault_def split: if_splits)
  have port: "\<exists>ep. ep_kind ep = Tcp \<and> ep_host ep = lit ''127.0.0.1'' \<and> int (unat (ep_port ep)) = da_port d \<and> mc_can_bind mc ep"
    if "da_port d \<noteq> 0"
    using p that free_port_binds [of mc "da_port d"] by (auto simp: doctor_problems_def fault_def split: if_splits)
  show ?thesis using p hv port by (auto simp: doctor_problems_def fault_def split: if_splits)
qed

theorem doctor_verdict_sound_witness:
  "\<exists>key. key = service_key (of_int 5703) \<and> parse_guid key = Some (vsock_service_id 5703) \<and>
    doctor \<lparr>mc_winfsp_built = True, mc_winfsp_runtime = True, mc_wsl_on_path = True, mc_run = \<lambda>cmd. 0,
      mc_service_key = (\<lambda>key. length key = 36), mc_can_bind = \<lambda>ep. True\<rparr> [lit ''--hvsocket''] = 0"
proof -
  let ?m = "\<lparr>mc_winfsp_built = True, mc_winfsp_runtime = True, mc_wsl_on_path = True, mc_run = \<lambda>cmd. 0,
      mc_service_key = (\<lambda>key. length key = 36), mc_can_bind = \<lambda>ep. True\<rparr>"
  let ?d = "DoctorArgs_init\<lparr>da_check_hv := True\<rparr>"
  have o: "doctor_options [lit ''--hvsocket''] DoctorArgs_init = Inr ?d" by simp
  have l: "length (service_key q) = 36" for q
  proof -
    have "unat q < 16 ^ 8" using unsigned_less [of q] by simp
    then show ?thesis using hex_digits_value [of "unat q" 8] by (simp add: service_key_def)
  qed
  have z: "doctor ?m [lit ''--hvsocket''] = 0"
    using l by (simp add: doctor_def doctor_problems_def fault_def registered_count_def DoctorArgs_init_def)
  then show ?thesis using doctor_verdict_sound [OF z o, of 3] service_key_parses [of "of_int 5703"] by simp
qed

section \<open>The probe\<close>

lemma length_filter_mono: "(\<And>x. P x \<Longrightarrow> Q x) \<Longrightarrow> length (filter P xs) \<le> length (filter Q xs)"
  by (induction xs) auto

lemma median_splits:
  assumes "median_rtt rtt = Some m"
  shows "m \<in> set rtt" "2 * length (filter (\<lambda>x. x < m) rtt) \<le> length rtt" "2 * length (filter (\<lambda>x. m < x) rtt) < length rtt"
proof -
  let ?s = "sort rtt" and ?n = "length rtt"
  have n: "5 \<le> ?n" "m = ?s ! (?n div 2)" using assms by (auto simp: median_rtt_def split: if_splits)
  then have i: "?n div 2 < ?n" by simp
  then show "m \<in> set rtt" using n(2) nth_mem [of "?n div 2" ?s] by simp
  have lens: "length (filter P rtt) = card {i. i < ?n \<and> P (?s ! i)}" for P
    using length_filter_conv_card [of P ?s] by (simp add: filter_sort)
  have "{i. i < ?n \<and> ?s ! i < m} \<subseteq> {..<?n div 2}"
    using n(2) i sorted_nth_mono [OF sorted_sort, of "?n div 2" _ rtt] by (force simp: not_less [symmetric])
  then have "length (filter (\<lambda>x. x < m) rtt) \<le> ?n div 2"
    unfolding lens using card_mono [of "{..<?n div 2}"] by fastforce
  then show "2 * length (filter (\<lambda>x. x < m) rtt) \<le> ?n" by linarith
  have "{i. i < ?n \<and> m < ?s ! i} \<subseteq> {?n div 2<..<?n}"
    using n(2) i sorted_nth_mono [OF sorted_sort, of _ "?n div 2" rtt] by (force simp: not_less [symmetric])
  then have "length (filter (\<lambda>x. m < x) rtt) \<le> ?n - Suc (?n div 2)"
    unfolding lens using card_mono [of "{?n div 2<..<?n}"] by fastforce
  then show "2 * length (filter (\<lambda>x. m < x) rtt) < ?n" using i by linarith
qed

text \<open>
  The verdict of the probe is that of the majority: exit code 0 means that more than half of the measured round trips took less
  than five milliseconds, exit code 1 that at least half of them took that long.
\<close>

theorem probe_follows_majority:
  assumes "probe_loopback_rtt bound accepted samples = Some m"
  shows "if m < kFastLoopbackNs
    then length (take_samples samples) < 2 * length (filter (\<lambda>x. x < kFastLoopbackNs) (take_samples samples))
    else length (take_samples samples) \<le> 2 * length (filter (\<lambda>x. kFastLoopbackNs \<le> x) (take_samples samples))"
proof -
  let ?r = "take_samples samples"
  have m: "median_rtt ?r = Some m" using assms by (simp add: probe_loopback_rtt_def split: if_splits)
  have part: "length (filter P ?r) + length (filter (\<lambda>x. \<not> P x) ?r) = length ?r" for P by (rule sum_length_filter_compl)
  show ?thesis
  proof (cases "m < kFastLoopbackNs")
    case True
    then have "length (filter (\<lambda>x. \<not> m < x) ?r) \<le> length (filter (\<lambda>x. x < kFastLoopbackNs) ?r)" by (intro length_filter_mono) simp
    then show ?thesis using True median_splits(3) [OF m] part [of "\<lambda>x. m < x"] by simp
  next
    case False
    then have "length (filter (\<lambda>x. \<not> x < m) ?r) \<le> length (filter (\<lambda>x. kFastLoopbackNs \<le> x) ?r)" by (intro length_filter_mono) simp
    then show ?thesis using False median_splits(2) [OF m] part [of "\<lambda>x. x < m"] by simp
  qed
qed

section \<open>Stopping the agent\<close>

text \<open>
  \<open>pkill -f\<close> with the pattern of \<open>stop\<close>: the name of the agent, and somewhere behind it the colon and the digits of the port,
  which nothing ends.
\<close>

definition pkill_matches :: "u32 \<Rightarrow> bytes \<Rightarrow> bool" where
  "pkill_matches port line =
    (case find_sub (lit ''wsldrived'') line of
       None \<Rightarrow> False
     | Some i \<Rightarrow> find_sub (colon # to_string (unat port)) (drop (i + 9) line) \<noteq> None)"

text \<open>Stopping the agent of one port kills the agent of every port whose digits begin with it.\<close>

lemma stop_kills_longer_port:
  "pkill_matches 570 (lit ''wsldrived --root /a --listen tcp://127.0.0.1:5700 --exit-when-idle'')"
proof -
  have "to_string (unat (570 :: u32)) = lit ''570''" by (simp add: to_string.simps)
  then show ?thesis by (simp add: pkill_matches_def)
qed

text \<open>Stopping twice, or without a start, does nothing more.\<close>

lemma stop_idle: "\<not> wa_running w \<Longrightarrow> WslAgent_stop w = w" "WslAgent_stop (WslAgent_stop w) = WslAgent_stop w"
  by (auto simp: WslAgent_stop_def)

text \<open>
  A variable that already hands a token the other way, from Windows into the distribution, is left as it is: the token is
  then not forwarded to the Windows agent.
\<close>

lemma token_not_forwarded: "wslenv_for_windows (Some (lit ''WSLDRIVE_TOKEN/u'')) = lit ''WSLDRIVE_TOKEN/u''"
  by (simp add: wslenv_for_windows_def)

end
